(* ===== verification/Pickler.thy ===== *)
theory Pickler
  imports Prelude
begin

text \<open>
  The byte-level writer and reader of \<open>core/serialize\<close>: \<open>Pickler\<close> with its variable-length
  integers and run-length encoded zeros, \<open>UnPickler\<close>, and the LZ4 container around the bytes.
  The second half is the library the codecs of the other theories are proved with: a value is
  written as a sequence of calls and read back as a sequence of calls, and \<open>agrees\<close> says that
  the two sequences match.  The locale \<open>codec\<close> is the interface every pickled type provides.
\<close>

section \<open>The writer\<close>

record pickler =
  pdata :: "u8 list"
  pzero :: u8

definition empty_pickler :: pickler where
  "empty_pickler = \<lparr>pdata = [], pzero = 0\<rparr>"

text \<open>\<open>if (zeroCounter != 0) data.emplace_back(zeroCounter), zeroCounter = 0\<close>, the prefix of
  \<open>putU1\<close>, of the non-zero branch of \<open>putU4\<close> and of \<open>result\<close>.\<close>

definition flushZeros :: "pickler \<Rightarrow> pickler" where
  "flushZeros p = (if pzero p \<noteq> 0 then \<lparr>pdata = pdata p @ [pzero p], pzero = 0\<rparr> else p)"

definition emplace :: "u8 list \<Rightarrow> pickler \<Rightarrow> pickler" where
  "emplace bs p = p\<lparr>pdata := pdata p @ bs\<rparr>"

definition putU1 :: "u8 \<Rightarrow> pickler \<Rightarrow> pickler" where
  "putU1 u p = emplace [u] (flushZeros p)"

text \<open>The loop \<open>while (u > 127)\<close> shared by \<open>putU4\<close> and \<open>putU8\<close>: seven bits at a time, the high
  bit of a byte says that another byte follows.\<close>

function varint :: "'a::len word \<Rightarrow> u8 list" where
  "varint u = (if 127 < u then (128 OR ucast (u AND 127)) # varint (drop_bit 7 u)
               else [ucast (u AND 127)])"
  by pat_completeness auto
termination
proof (relation "measure unat")
  fix u :: "'a word"
  assume "127 < u"
  then have "0 < unat u"
    by (metis word_gt_0_no word_neq_0_conv order_less_trans word_not_simps(1) unat_gt_0)
  moreover have "unat (drop_bit 7 u) = unat u div 128"
    by (simp only: unat_drop_bit_eq) (simp add: drop_bit_nat_def)
  ultimately show "(drop_bit 7 u, u) \<in> measure unat"
    by simp
qed simp

declare varint.simps [simp del]

definition putU4 :: "u32 \<Rightarrow> pickler \<Rightarrow> pickler" where
  "putU4 u p =
     (if u = 0 then
        (if pzero p \<noteq> 0 then
           (if pzero p = 255
            then \<lparr>pdata = pdata p @ [255, 0], pzero = 1\<rparr>
            else p\<lparr>pzero := pzero p + 1\<rparr>)
         else \<lparr>pdata = pdata p @ [0], pzero = 1\<rparr>)
      else emplace (varint u) (flushZeros p))"

definition putU8 :: "u64 \<Rightarrow> pickler \<Rightarrow> pickler" where
  "putU8 i p = fold putU1 (varint i) p"

definition putS8 :: "u64 \<Rightarrow> pickler \<Rightarrow> pickler" where
  "putS8 i p = putU8 i p"

definition putBytes :: "u8 list \<Rightarrow> pickler \<Rightarrow> pickler" where
  "putBytes bytes p = fold putU1 bytes (putU4 (of_nat (length bytes)) p)"

definition putStr :: "string \<Rightarrow> pickler \<Rightarrow> pickler" where
  "putStr s p = fold (\<lambda>c. putU1 (byte_of_char c)) s (putU4 (of_nat (length s)) p)"

section \<open>The reader\<close>

datatype serial_error =
    ReadPastEnd \<comment> \<open>\<open>data[pos++]\<close> beyond the vector: undefined behaviour in the source\<close>
  | PendingZeros \<comment> \<open>\<open>ENFORCE(zeroCounter == 0)\<close>\<close>
  | ShiftOverflow \<comment> \<open>a shift by 64 or more: undefined behaviour in the source\<close>
  | NegativeSize \<comment> \<open>a size above \<open>INT_MAX\<close> that an \<open>int\<close> has to hold\<close>
  | VersionMismatch
  | UnknownTag u32
  | NotImplemented
  | Incompressible
  | IncompleteDecompression
  | OutOfFuel
  | BadNameTable \<comment> \<open>a lookup in the name hash table that does not return a bucket\<close>
  | BadTable \<comment> \<open>an \<open>ENFORCE\<close> on a table that is read or written\<close>

record unpickler =
  udata :: "u8 list"
  upos :: nat
  uzero :: u8

type_synonym 'a get = "unpickler \<Rightarrow> (serial_error, 'a \<times> unpickler) result"

definition returnG :: "'a \<Rightarrow> 'a get" where
  "returnG x u = Inr (x, u)"

definition failG :: "serial_error \<Rightarrow> 'a get" where
  "failG e u = Inl e"

definition bindG :: "'a get \<Rightarrow> ('a \<Rightarrow> 'b get) \<Rightarrow> 'b get" where
  "bindG g h u = (case g u of Inl e \<Rightarrow> Inl e | Inr (x, u') \<Rightarrow> h x u')"

fun repeatG :: "nat \<Rightarrow> 'a get \<Rightarrow> 'a list get" where
  "repeatG 0 g = returnG []"
| "repeatG (Suc n) g = bindG g (\<lambda>x. bindG (repeatG n g) (\<lambda>xs. returnG (x # xs)))"

text \<open>\<open>data[pos++]\<close>\<close>

definition getByte :: "u8 get" where
  "getByte u = (if upos u < length (udata u)
                then Inr (udata u ! upos u, u\<lparr>upos := upos u + 1\<rparr>)
                else Inl ReadPastEnd)"

definition getU1 :: "u8 get" where
  "getU1 u = (if uzero u \<noteq> 0 then Inl PendingZeros else getByte u)"

fun getVarint :: "nat list \<Rightarrow> u32 \<Rightarrow> u32 get" where
  "getVarint [] res = returnG res"
| "getVarint (k # ks) res =
     bindG getByte (\<lambda>vle.
       let res' = res OR push_bit k (ucast vle AND 127)
       in if vle AND 128 = 0 then returnG res' else getVarint ks res')"

definition getU4 :: "u32 get" where
  "getU4 u =
     (if uzero u \<noteq> 0 then Inr (0, u\<lparr>uzero := uzero u - 1\<rparr>)
      else bindG getByte (\<lambda>r.
        if r = 0 then bindG getByte (\<lambda>z u'. Inr (0, u'\<lparr>uzero := z - 1\<rparr>))
        else let res = ucast r AND 127
             in if r AND 128 = 0 then returnG res
                else getVarint [7, 14, 21, 28] res) u)"

function getU8_loop :: "nat \<Rightarrow> u64 \<Rightarrow> u64 get" where
  "getU8_loop i res u =
     (if 64 \<le> i * 7 then Inl ShiftOverflow
      else case getU1 u of
             Inl e \<Rightarrow> Inl e
           | Inr (vle, u') \<Rightarrow>
               (let res' = res OR push_bit (i * 7) (ucast vle AND 127)
                in if vle AND 128 = 0 then Inr (res', u') else getU8_loop (i + 1) res' u'))"
  by pat_completeness auto
termination
  by (relation "measure (\<lambda>(i, res, u). 10 - i)") auto

declare getU8_loop.simps [simp del]

definition getU8 :: "u64 get" where
  "getU8 = getU8_loop 0 0"

definition getS8 :: "u64 get" where
  "getS8 = getU8"

text \<open>A size read with \<open>getU4\<close> into an \<open>int\<close>.\<close>

definition getSize :: "nat get" where
  "getSize = bindG getU4 (\<lambda>sz. if unat sz < 2 ^ 31 then returnG (unat sz) else failG NegativeSize)"

text \<open>A count that only bounds \<open>for (int i = 0; i < size; i++)\<close>: a negative one runs no iteration.\<close>

definition getCount :: "nat get" where
  "getCount = bindG getU4 (\<lambda>sz. returnG (if unat sz < 2 ^ 31 then unat sz else 0))"

definition getSpan :: "nat \<Rightarrow> u8 list get" where
  "getSpan sz u = (if upos u + sz \<le> length (udata u)
                   then Inr (take sz (drop (upos u) (udata u)), u\<lparr>upos := upos u + sz\<rparr>)
                   else Inl ReadPastEnd)"

definition getBytes :: "u8 list get" where
  "getBytes = bindG getSize getSpan"

definition getStr :: "string get" where
  "getStr = bindG getSize (\<lambda>sz. bindG (getSpan sz) (\<lambda>bs. returnG (map char_of_byte bs)))"

section \<open>Tokens: what a pickler has been given\<close>

text \<open>
  Every write of the serializer is a sequence of one-byte and four-byte puts.  A token is one such
  put; \<open>enc z ts\<close> is the bytes a pickler in zero-run state \<open>z\<close> appends for \<open>ts\<close> up to and including
  the final flush of \<open>result\<close>.
\<close>

datatype token = T1 u8 | T4 u32

fun put_token :: "token \<Rightarrow> pickler \<Rightarrow> pickler" where
  "put_token (T1 b) p = putU1 b p"
| "put_token (T4 w) p = putU4 w p"

definition put_tokens :: "token list \<Rightarrow> pickler \<Rightarrow> pickler" where
  "put_tokens ts p = fold put_token ts p"

definition zrun :: "u8 \<Rightarrow> u8 list" where
  "zrun z = (if z \<noteq> 0 then [z] else [])"

fun enc :: "u8 \<Rightarrow> token list \<Rightarrow> u8 list" where
  "enc z [] = zrun z"
| "enc z (T1 b # ts) = zrun z @ b # enc 0 ts"
| "enc z (T4 w # ts) =
     (if w = 0 then
        (if z = 0 then 0 # enc 1 ts
         else if z = 255 then 255 # 0 # enc 1 ts
         else enc (z + 1) ts)
      else zrun z @ varint w @ enc 0 ts)"

definition finish :: "pickler \<Rightarrow> u8 list" where
  "finish p = pdata (flushZeros p)"

lemma put_tokens_Nil [simp]: "put_tokens [] = id"
  by (simp add: put_tokens_def fun_eq_iff)

lemma put_tokens_append: "put_tokens (ts @ ts') = put_tokens ts' \<circ> put_tokens ts"
  by (simp add: put_tokens_def fun_eq_iff)

lemma finish_put_tokens: "finish (put_tokens ts p) = pdata p @ enc (pzero p) ts"
proof (induction ts arbitrary: p)
  case Nil
  then show ?case
    by (simp add: finish_def flushZeros_def zrun_def)
next
  case (Cons t ts)
  have "put_tokens (t # ts) p = put_tokens ts (put_token t p)"
    by (simp add: put_tokens_def)
  with Cons.IH [of "put_token t p"] show ?case
    by (cases t) (auto simp: putU1_def putU4_def emplace_def flushZeros_def zrun_def)
qed

text \<open>A pending zero run absorbs the zeros that follow it, at most 255 in all, and is then written
  as a single count byte.\<close>

lemma enc_zero_run:
  "z \<noteq> 0 \<Longrightarrow> \<exists>m ts'. ts = replicate m (T4 0) @ ts' \<and> unat z + m \<le> 255
      \<and> enc z ts = (z + of_nat m) # enc 0 ts'"
proof (induction ts arbitrary: z)
  case Nil
  have "unat z \<le> 255"
    using unsigned_less [of z, where 'a = nat] by simp
  with Nil show ?case
    by (intro exI [of _ 0] exI [of _ "[]"]) (simp add: zrun_def)
next
  case (Cons t ts)
  have z255: "unat z \<le> 255"
    using unsigned_less [of z, where 'a = nat] by simp
  show ?case
  proof (cases "t = T4 0 \<and> z \<noteq> 255")
    case False
    then show ?thesis
      using Cons.prems z255
      by (intro exI [of _ 0] exI [of _ "t # ts"]) (cases t, auto simp: zrun_def)
  next
    case True
    then have t: "t = T4 0" and z: "z \<noteq> 255"
      by auto
    from z have "unat z \<noteq> unat (255 :: u8)"
      by (simp only: word_unat_eq_iff not_False_eq_True)
    then have "unat z \<noteq> 255"
      by simp
    with z255 have lt: "unat z < 255"
      by simp
    then have uz: "unat (z + 1) = unat z + 1"
      by (simp add: unat_word_ariths(1))
    then have "z + 1 \<noteq> 0"
      by (metis add_is_0 one_neq_zero unsigned_0)
    from Cons.IH [OF this] obtain m ts' where
      "ts = replicate m (T4 0) @ ts'" "unat (z + 1) + m \<le> 255"
      "enc (z + 1) ts = (z + 1 + of_nat m) # enc 0 ts'"
      by blast
    with t z Cons.prems uz show ?thesis
      by (intro exI [of _ "Suc m"] exI [of _ ts']) (simp add: add.assoc)
  qed
qed

section \<open>Reading tokens back\<close>

text \<open>
  \<open>decodes u ts\<close>: the reader \<open>u\<close> has exactly the tokens \<open>ts\<close> left, the zeros still owed by its
  zero counter first.
\<close>

definition decodes :: "unpickler \<Rightarrow> token list \<Rightarrow> bool" where
  "decodes u ts \<longleftrightarrow> (\<exists>ts'. ts = replicate (unat (uzero u)) (T4 0) @ ts'
      \<and> drop (upos u) (udata u) = enc 0 ts' \<and> upos u \<le> length (udata u))"

definition reads :: "'a get \<Rightarrow> token list \<Rightarrow> 'a \<Rightarrow> bool" where
  "reads g ts x \<longleftrightarrow> (\<forall>u rest. decodes u (ts @ rest) \<longrightarrow>
      (\<exists>u'. g u = Inr (x, u') \<and> decodes u' rest))"

lemma getByte_Cons:
  assumes "drop (upos u) (udata u) = b # bs"
  shows "getByte u = Inr (b, u\<lparr>upos := upos u + 1\<rparr>)"
    and "drop (upos u + 1) (udata u) = bs"
    and "upos u + 1 \<le> length (udata u)"
proof -
  from assms have lt: "upos u < length (udata u)"
    by (metis drop_all leI list.discI)
  with assms show "getByte u = Inr (b, u\<lparr>upos := upos u + 1\<rparr>)"
    by (simp add: getByte_def nth_via_drop)
  show "drop (upos u + 1) (udata u) = bs"
    using assms by (metis Suc_eq_plus1 drop_Suc list.sel(3) tl_drop)
  show "upos u + 1 \<le> length (udata u)"
    using lt by simp
qed

lemma reads_return [simp]: "reads (returnG x) [] x"
  by (simp add: reads_def returnG_def)

lemma reads_bind:
  "reads g ts x \<Longrightarrow> reads (h x) ts' y \<Longrightarrow> reads (bindG g h) (ts @ ts') y"
  unfolding reads_def bindG_def by (fastforce split: sum.splits)

lemma reads_repeat:
  "list_all2 (reads g) tss xs \<Longrightarrow> reads (repeatG (length xs) g) (concat tss) xs"
proof (induction tss xs rule: list_all2_induct)
  case Nil
  then show ?case by simp
next
  case (Cons ts tss x xs)
  have "reads (bindG (repeatG (length xs) g) (\<lambda>xs. returnG (x # xs))) (concat tss @ []) (x # xs)"
    by (rule reads_bind [OF Cons.IH reads_return])
  with Cons.hyps show ?case
    by (simp add: reads_bind)
qed

subsection \<open>One byte\<close>

lemma decodes_T1:
  assumes "decodes u (T1 b # rest)"
  shows "uzero u = 0" and "drop (upos u) (udata u) = b # enc 0 rest"
proof -
  from assms obtain ts' where ts': "T1 b # rest = replicate (unat (uzero u)) (T4 0) @ ts'"
    and d: "drop (upos u) (udata u) = enc 0 ts'"
    by (auto simp: decodes_def)
  then have "unat (uzero u) = 0"
    by (cases "unat (uzero u)") auto
  then show "uzero u = 0"
    by (simp add: unat_eq_zero)
  with ts' have "ts' = T1 b # rest"
    by simp
  with d show "drop (upos u) (udata u) = b # enc 0 rest"
    by (simp add: zrun_def)
qed

lemma reads_getU1: "reads getU1 [T1 b] b"
proof (unfold reads_def, intro allI impI)
  fix u rest
  assume "decodes u ([T1 b] @ rest)"
  then have "uzero u = 0" "drop (upos u) (udata u) = b # enc 0 rest"
    by (auto dest: decodes_T1)
  with getByte_Cons [OF this(2)] show "\<exists>u'. getU1 u = Inr (b, u') \<and> decodes u' rest"
    by (auto simp: getU1_def decodes_def)
qed

subsection \<open>Four bytes\<close>

lemma varint_bytes:
  "127 < u \<Longrightarrow> varint u = (128 OR ucast (take_bit 7 u)) # varint (drop_bit 7 u)"
  "\<not> 127 < u \<Longrightarrow> varint u = [ucast (take_bit 7 u)]"
  by (subst varint.simps; simp add: and_127)+

lemma high_bit_continue: "(128 OR b :: u8) AND 128 \<noteq> 0"
  by (simp add: and_128_byte bit_simps)

lemma high_bit_stop: "(ucast (take_bit 7 u :: 'a::len word) :: u8) AND 128 = 0"
  by (simp add: and_128_byte bit_simps)

lemma low_bits_stop:
  "7 \<le> LENGTH('a) \<Longrightarrow> (ucast (ucast (take_bit 7 u) :: u8) AND 127 :: 'a::len word) = take_bit 7 u"
  by (rule bit_word_eqI) (auto simp: and_127 bit_simps)

lemma low_bits_continue:
  "7 \<le> LENGTH('a) \<Longrightarrow> (ucast (128 OR ucast (take_bit 7 u) :: u8) AND 127 :: 'a::len word) = take_bit 7 u"
proof -
  assume len: "7 \<le> LENGTH('a)"
  have drop_high: "take_bit 7 (128 OR b) = take_bit 7 (b :: u8)" for b
    by (simp add: take_bit_or)
  have "(ucast (128 OR ucast (take_bit 7 u) :: u8) AND 127 :: 'a word)
      = ucast (take_bit 7 (128 OR ucast (take_bit 7 u)) :: u8)"
    by (simp only: and_127 unsigned_take_bit_eq)
  also have "\<dots> = ucast (ucast (take_bit 7 u) :: u8) AND 127"
    by (simp only: drop_high and_127 unsigned_take_bit_eq)
  also have "\<dots> = take_bit 7 u"
    by (rule low_bits_stop [OF len])
  finally show ?thesis .
qed

lemma take_push_drop:
  "res OR push_bit k (take_bit 7 v) OR push_bit (k + 7) (drop_bit 7 v) = res OR push_bit k (v :: 'a::len word)"
proof -
  have "push_bit k (take_bit 7 v) OR push_bit (k + 7) (drop_bit 7 v)
      = push_bit k (take_bit 7 v OR push_bit 7 (drop_bit 7 v))"
    by (simp add: push_bit_push_bit push_bit_or add.commute)
  also have "\<dots> = push_bit k v"
    by (simp add: split_low7)
  finally show ?thesis
    by (simp add: or.assoc)
qed

lemma varint_small:
  "\<not> 127 < (v :: 'a::len word) \<Longrightarrow> 8 \<le> LENGTH('a) \<Longrightarrow> take_bit 7 v = v"
proof -
  assume "\<not> 127 < v" "8 \<le> LENGTH('a)"
  then have "v \<le> 127"
    by simp
  moreover have "unat (127 :: 'a word) = 127"
  proof -
    have "(127 :: nat) < 2 ^ 8" by simp
    also have "(2 :: nat) ^ 8 \<le> 2 ^ LENGTH('a)"
      using \<open>8 \<le> LENGTH('a)\<close> by (rule power_increasing) simp
    finally show ?thesis
      by (simp add: unat_numeral take_bit_nat_eq_self)
  qed
  ultimately have "unat v < 2 ^ 7"
    by (simp add: word_le_nat_alt)
  then have "take_bit 7 (unat v) = unat v"
    by (rule take_bit_nat_eq_self)
  then show "take_bit 7 v = v"
    by (metis unsigned_take_bit_eq word_unat_eq_iff)
qed

lemma unat_drop7: "unat (drop_bit 7 v) = unat v div 128"
  by (simp only: unat_drop_bit_eq) (simp add: drop_bit_nat_def)

lemma continue_bound:
  assumes "127 < (v :: 'a::len word)" and "8 \<le> LENGTH('a)" and "unat v < 2 ^ (7 * Suc n)"
  shows "0 < n" and "unat (drop_bit 7 v) < 2 ^ (7 * n)"
proof -
  have "unat (127 :: 'a word) = 127"
  proof -
    have "(127 :: nat) < 2 ^ 8" by simp
    also have "(2 :: nat) ^ 8 \<le> 2 ^ LENGTH('a)"
      using assms(2) by (rule power_increasing) simp
    finally show ?thesis
      by (simp add: unat_numeral take_bit_nat_eq_self)
  qed
  with assms(1) have "127 < unat v"
    by (simp add: word_less_nat_alt)
  with assms(3) show "0 < n"
    by (cases n) auto
  have "unat v < 2 ^ (7 * n) * 128"
    using assms(3) by (simp add: power_add)
  then show "unat (drop_bit 7 v) < 2 ^ (7 * n)"
    by (simp add: unat_drop7 less_mult_imp_div_less)
qed

lemma getVarint_varint:
  assumes "drop (upos u) (udata u) = varint v @ bs" and "unat v < 2 ^ (7 * n)" and "0 < n"
  shows "\<exists>u'. getVarint (map ((*) 7) [i..<i + n]) res u = Inr (res OR push_bit (7 * i) v, u')
     \<and> drop (upos u') (udata u') = bs \<and> upos u' \<le> length (udata u') \<and> uzero u' = uzero u"
  using assms
proof (induction n arbitrary: i v res u)
  case 0
  then show ?case by simp
next
  case (Suc n)
  have ks: "map ((*) 7) [i..<i + Suc n] = 7 * i # map ((*) 7) [Suc i..<Suc i + n]"
    by (simp add: upt_conv_Cons del: upt_Suc)
  show ?case
  proof (cases "127 < v")
    case True
    let ?b = "128 OR ucast (take_bit 7 v) :: u8"
    let ?u = "u\<lparr>upos := upos u + 1\<rparr>"
    from True Suc.prems(1) have d: "drop (upos u) (udata u) = ?b # varint (drop_bit 7 v) @ bs"
      by (simp add: varint_bytes)
    have b: "getByte u = Inr (?b, ?u)" "drop (upos ?u) (udata ?u) = varint (drop_bit 7 v) @ bs"
      using getByte_Cons [OF d] by simp_all
    have bnd: "0 < n" "unat (drop_bit 7 v) < 2 ^ (7 * n)"
      using continue_bound [OF True _ Suc.prems(2)] by simp_all
    let ?res = "res OR push_bit (7 * i) (take_bit 7 v)"
    have step: "getVarint (map ((*) 7) [i..<i + Suc n]) res u
        = getVarint (map ((*) 7) [Suc i..<Suc i + n]) ?res ?u"
      unfolding ks by (simp add: bindG_def b(1) high_bit_continue low_bits_continue
          del: upt_Suc push_bit_and)
    have "?res OR push_bit (7 * Suc i) (drop_bit 7 v) = res OR push_bit (7 * i) v"
      using take_push_drop [of res "7 * i" v] by (simp add: or.assoc add.commute)
    with Suc.IH [OF b(2) bnd(2) bnd(1), of "Suc i" ?res] show ?thesis
      unfolding step by simp
  next
    case False
    let ?b = "ucast (take_bit 7 v) :: u8"
    from False Suc.prems(1) have d: "drop (upos u) (udata u) = ?b # bs"
      by (simp add: varint_bytes)
    have "?b AND 128 = 0" "(ucast ?b AND 127 :: u32) = v"
      using low_bits_stop [of v] varint_small [OF False] by (simp_all only: high_bit_stop) simp_all
    with getByte_Cons [OF d] show ?thesis
      unfolding ks by (simp add: bindG_def returnG_def del: upt_Suc push_bit_and)
  qed
qed

lemma varint_Cons_nonzero: "w \<noteq> 0 \<Longrightarrow> \<exists>b bs. varint (w :: u32) = b # bs \<and> b \<noteq> 0"
proof (cases "127 < w")
  case True
  have "(128 OR ucast (take_bit 7 w) :: u8) \<noteq> 0"
    using high_bit_continue [of "ucast (take_bit 7 w)"] by (metis and_zero_eq bit.conj_zero_left)
  with True show ?thesis
    by (simp add: varint_bytes)
next
  case False
  assume "w \<noteq> 0"
  moreover from False have "take_bit 7 w = w"
    by (simp add: varint_small)
  moreover have "(ucast (ucast (take_bit 7 w) :: u8) AND 127 :: u32) = take_bit 7 w"
    by (simp add: low_bits_stop)
  ultimately have "(ucast (take_bit 7 w) :: u8) \<noteq> 0"
    by (metis and_zero_eq bit.conj_zero_left unsigned_0)
  with False show ?thesis
    by (simp add: varint_bytes)
qed

lemma getU4_varint:
  assumes "w \<noteq> 0" and "uzero u = 0" and "drop (upos u) (udata u) = varint w @ bs"
  shows "\<exists>u'. getU4 u = Inr (w, u') \<and> drop (upos u') (udata u') = bs
     \<and> upos u' \<le> length (udata u') \<and> uzero u' = 0"
proof (cases "127 < w")
  case True
  let ?b = "128 OR ucast (take_bit 7 w) :: u8"
  let ?u = "u\<lparr>upos := upos u + 1\<rparr>"
  from True assms(3) have d: "drop (upos u) (udata u) = ?b # varint (drop_bit 7 w) @ bs"
    by (simp add: varint_bytes)
  have b: "getByte u = Inr (?b, ?u)" "drop (upos ?u) (udata ?u) = varint (drop_bit 7 w) @ bs"
    using getByte_Cons [OF d] by simp_all
  have "?b \<noteq> 0"
    using varint_Cons_nonzero [OF assms(1)] True by (simp add: varint_bytes)
  then have step: "getU4 u = getVarint [7, 14, 21, 28] (take_bit 7 w) ?u"
    using assms(2) by (simp add: getU4_def bindG_def b(1) high_bit_continue low_bits_continue)
  have "unat w < 2 ^ 32"
    using unsigned_less [of w, where 'a = nat] by simp
  then have bnd: "unat (drop_bit 7 w) < 2 ^ (7 * 4)"
    by (simp add: unat_drop7)
  have ks: "map ((*) 7) [1..<1 + 4] = [7, 14, 21, 28 :: nat]"
    by (simp add: upt_rec)
  have "take_bit 7 w OR push_bit (7 * 1) (drop_bit 7 w) = w"
    by (simp add: split_low7)
  with getVarint_varint [OF b(2) bnd, of 1 "take_bit 7 w"] assms(2) show ?thesis
    unfolding step ks by simp
next
  case False
  let ?b = "ucast (take_bit 7 w) :: u8"
  from False assms(3) have d: "drop (upos u) (udata u) = ?b # bs"
    by (simp add: varint_bytes)
  have "?b \<noteq> 0"
    using varint_Cons_nonzero [OF assms(1)] False by (simp add: varint_bytes)
  moreover have "?b AND 128 = 0" "(ucast ?b AND 127 :: u32) = w"
    using low_bits_stop [of w] varint_small [OF False] by (simp_all only: high_bit_stop) simp_all
  ultimately show ?thesis
    using assms(2) getByte_Cons [OF d] by (simp add: getU4_def bindG_def returnG_def)
qed

lemma getU4_zero:
  assumes "decodes u (T4 0 # rest)"
  shows "\<exists>u'. getU4 u = Inr (0, u') \<and> decodes u' rest"
proof (cases "uzero u = 0")
  case False
  then have "unat (uzero u) = Suc (unat (uzero u - 1))"
    by (simp add: unat_minus_one unat_gt_0)
  with assms False show ?thesis
    by (auto simp: getU4_def decodes_def)
next
  case True
  with assms have d: "drop (upos u) (udata u) = 0 # enc 1 rest"
    by (auto simp: decodes_def)
  let ?u = "u\<lparr>upos := upos u + 1\<rparr>"
  obtain m ts' where m: "rest = replicate m (T4 0) @ ts'" "unat (1 :: u8) + m \<le> 255"
    "enc 1 rest = (1 + of_nat m) # enc 0 ts'"
    using enc_zero_run [of 1 rest] by auto
  have d2: "drop (upos ?u) (udata ?u) = (1 + of_nat m) # enc 0 ts'"
    using getByte_Cons(2) [OF d] m(3) by simp
  have "unat (of_nat m :: u8) = m"
    using m(2) by (simp add: unat_of_nat take_bit_nat_eq_self)
  with m(1) True getByte_Cons [OF d] getByte_Cons [OF d2] show ?thesis
    by (auto simp: getU4_def bindG_def decodes_def)
qed

lemma reads_getU4: "reads getU4 [T4 w] w"
proof (unfold reads_def, intro allI impI)
  fix u rest
  assume dec: "decodes u ([T4 w] @ rest)"
  show "\<exists>u'. getU4 u = Inr (w, u') \<and> decodes u' rest"
  proof (cases "w = 0")
    case True
    with dec show ?thesis
      using getU4_zero by simp
  next
    case False
    from dec obtain ts' where ts': "T4 w # rest = replicate (unat (uzero u)) (T4 0) @ ts'"
      and d: "drop (upos u) (udata u) = enc 0 ts'"
      by (auto simp: decodes_def)
    with False have "unat (uzero u) = 0"
      by (cases "unat (uzero u)") auto
    with ts' have z: "uzero u = 0" and "ts' = T4 w # rest"
      by (simp_all add: unat_eq_zero)
    with d False have "drop (upos u) (udata u) = varint w @ enc 0 rest"
      by (simp add: zrun_def)
    from getU4_varint [OF False z this] show ?thesis
      by (auto simp: decodes_def)
  qed
qed

subsection \<open>Eight bytes, strings and byte spans\<close>

lemma readsD:
  "reads g ts x \<Longrightarrow> decodes u (ts @ rest) \<Longrightarrow> \<exists>u'. g u = Inr (x, u') \<and> decodes u' rest"
  by (simp add: reads_def)

lemma reads_getU8_loop:
  "unat v < 2 ^ (7 * n) \<Longrightarrow> 0 < n \<Longrightarrow> i + n = 10 \<Longrightarrow>
     reads (getU8_loop i res) (map T1 (varint v)) (res OR push_bit (7 * i) v)"
proof (induction n arbitrary: i v res)
  case 0
  then show ?case by simp
next
  case (Suc n)
  show ?case
  proof (unfold reads_def, intro allI impI)
    fix u rest
    assume dec: "decodes u (map T1 (varint v) @ rest)"
    have i: "\<not> 64 \<le> i * 7"
      using Suc.prems by simp
    show "\<exists>u'. getU8_loop i res u = Inr (res OR push_bit (7 * i) v, u') \<and> decodes u' rest"
    proof (cases "127 < v")
      case True
      let ?b = "128 OR ucast (take_bit 7 v) :: u8"
      let ?res = "res OR push_bit (7 * i) (take_bit 7 v)"
      from dec True have "decodes u ([T1 ?b] @ map T1 (varint (drop_bit 7 v)) @ rest)"
        by (simp add: varint_bytes)
      from readsD [OF reads_getU1 this] obtain u' where u': "getU1 u = Inr (?b, u')"
        "decodes u' (map T1 (varint (drop_bit 7 v)) @ rest)"
        by blast
      have bnd: "0 < n" "unat (drop_bit 7 v) < 2 ^ (7 * n)"
        using continue_bound [OF True _ Suc.prems(1)] by simp_all
      have step: "getU8_loop i res u = getU8_loop (Suc i) ?res u'"
        using i by (subst getU8_loop.simps)
          (simp add: u'(1) high_bit_continue low_bits_continue mult.commute del: push_bit_and)
      have "?res OR push_bit (7 * Suc i) (drop_bit 7 v) = res OR push_bit (7 * i) v"
        using take_push_drop [of res "7 * i" v] by (simp add: or.assoc add.commute)
      with readsD [OF Suc.IH [OF bnd(2) bnd(1), of "Suc i" ?res] u'(2)] Suc.prems(3)
      show ?thesis
        unfolding step by simp
    next
      case False
      let ?b = "ucast (take_bit 7 v) :: u8"
      from dec False have "decodes u ([T1 ?b] @ rest)"
        by (simp add: varint_bytes)
      from readsD [OF reads_getU1 this] obtain u' where u': "getU1 u = Inr (?b, u')" "decodes u' rest"
        by blast
      have "?b AND 128 = 0" "(ucast ?b AND 127 :: u64) = v"
        using low_bits_stop [of v] varint_small [OF False] by (simp_all only: high_bit_stop) simp_all
      with u' i show ?thesis
        by (subst getU8_loop.simps) (simp add: mult.commute del: push_bit_and)
    qed
  qed
qed

lemma reads_getU8: "reads getU8 (map T1 (varint v)) v"
proof -
  have "unat v < 2 ^ 64"
    using unsigned_less [of v, where 'a = nat] by simp
  then have "unat v < 2 ^ (7 * 10)"
    by simp
  from reads_getU8_loop [OF this, of 0 0] show ?thesis
    by (simp add: getU8_def)
qed

lemma enc_T1s: "enc 0 (map T1 bs @ ts) = bs @ enc 0 ts"
  by (induction bs) (auto simp: zrun_def)

lemma reads_getSpan: "reads (getSpan (length bs)) (map T1 bs) bs"
proof (unfold reads_def, intro allI impI)
  fix u rest
  assume dec: "decodes u (map T1 bs @ rest)"
  show "\<exists>u'. getSpan (length bs) u = Inr (bs, u') \<and> decodes u' rest"
  proof (cases bs)
    case Nil
    with dec show ?thesis
      by (auto simp: getSpan_def decodes_def)
  next
    case (Cons b bs')
    then have z: "uzero u = 0" and d: "drop (upos u) (udata u) = bs @ enc 0 rest"
      using dec decodes_T1 [of u b "map T1 bs' @ rest"] by (simp_all add: enc_T1s)
    from d have "length (udata u) - upos u = length bs + length (enc 0 rest)"
      by (metis length_append length_drop)
    with Cons have "upos u + length bs \<le> length (udata u)"
      by simp
    moreover have "drop (upos u + length bs) (udata u) = enc 0 rest"
      using d by (metis add.commute append_eq_conv_conj drop_drop)
    ultimately show ?thesis
      using z d by (auto simp: getSpan_def decodes_def)
  qed
qed

section \<open>Writers and readers that agree\<close>

text \<open>
  A \<open>pickle\<close> overload may raise, so a writer returns an error or the new pickler.  \<open>writes\<close> runs the
  statements of such a body in order, \<open>forEach\<close> is its range-based loop.  \<open>agrees P g x\<close>: whatever
  the state of the pickler, \<open>P\<close> succeeds and what it writes is read back by \<open>g\<close> as \<open>x\<close>, leaving the
  reader exactly behind it.
\<close>

type_synonym put = "pickler \<Rightarrow> (serial_error, pickler) result"

fun writes :: "put list \<Rightarrow> put" where
  "writes [] p = Inr p"
| "writes (P # Ps) p = (case P p of Inl e \<Rightarrow> Inl e | Inr p' \<Rightarrow> writes Ps p')"

fun forEach :: "'a list \<Rightarrow> ('a \<Rightarrow> put) \<Rightarrow> put" where
  "forEach [] f p = Inr p"
| "forEach (x # xs) f p = (case f x p of Inl e \<Rightarrow> Inl e | Inr p' \<Rightarrow> forEach xs f p')"

definition raise :: "serial_error \<Rightarrow> put" where
  "raise e p = Inl e"

definition wU1 :: "u8 \<Rightarrow> put" where "wU1 b p = Inr (putU1 b p)"
definition wU4 :: "u32 \<Rightarrow> put" where "wU4 w p = Inr (putU4 w p)"
definition wS8 :: "u64 \<Rightarrow> put" where "wS8 i p = Inr (putS8 i p)"
definition wStr :: "string \<Rightarrow> put" where "wStr s p = Inr (putStr s p)"
definition wBytes :: "u8 list \<Rightarrow> put" where "wBytes bs p = Inr (putBytes bs p)"
definition wSize :: "nat \<Rightarrow> put" where "wSize n p = Inr (putU4 (of_nat n) p)"

definition agrees :: "put \<Rightarrow> 'a get \<Rightarrow> 'a \<Rightarrow> bool" where
  "agrees P g x \<longleftrightarrow> (\<exists>ts. P = (\<lambda>p. Inr (put_tokens ts p)) \<and> reads g ts x)"

lemma forEach_cong [fundef_cong]:
  "xs = ys \<Longrightarrow> (\<And>x. x \<in> set ys \<Longrightarrow> f x = g x) \<Longrightarrow> forEach xs f = forEach ys g"
proof -
  assume "xs = ys" and eq: "\<And>x. x \<in> set ys \<Longrightarrow> f x = g x"
  from eq have "forEach ys f p = forEach ys g p" for p
    by (induction ys arbitrary: p) (auto split: sum.splits)
  with \<open>xs = ys\<close> show ?thesis by (simp add: fun_eq_iff)
qed

lemma forEach_map: "forEach (map h xs) f = forEach xs (\<lambda>x. f (h x))"
proof
  fix p
  show "forEach (map h xs) f p = forEach xs (\<lambda>x. f (h x)) p"
    by (induction xs arbitrary: p) (auto split: sum.splits)
qed

lemma writes_Cons_fun: "writes (P # Ps) = (\<lambda>p. case P p of Inl e \<Rightarrow> Inl e | Inr p' \<Rightarrow> writes Ps p')"
  and forEach_Cons_fun: "forEach (x # xs) f = (\<lambda>p. case f x p of Inl e \<Rightarrow> Inl e | Inr p' \<Rightarrow> forEach xs f p')"
  by (simp_all add: fun_eq_iff)

lemma agreesI: "(\<And>p. P p = Inr (put_tokens ts p)) \<Longrightarrow> reads g ts x \<Longrightarrow> agrees P g x"
  by (auto simp: agrees_def)

lemma agrees_done: "agrees (writes []) (returnG x) x"
  by (rule agreesI [of _ "[]"]) simp_all

lemma agrees_return: "x = y \<Longrightarrow> agrees (writes []) (returnG x) y"
  using agrees_done by simp

lemma agrees_bind:
  assumes "agrees P g x" and "agrees Q (h x) y" and "\<And>p p'. P p = Inr p' \<Longrightarrow> R p = Q p'"
  shows "agrees R (bindG g h) y"
proof -
  from assms(1,2) obtain ts ts' where P: "P = (\<lambda>p. Inr (put_tokens ts p))" and "reads g ts x"
    and Q: "Q = (\<lambda>p. Inr (put_tokens ts' p))" and "reads (h x) ts' y"
    by (auto simp: agrees_def)
  moreover have "R p = Inr (put_tokens (ts @ ts') p)" for p
    using assms(3) by (simp add: P Q put_tokens_append)
  ultimately show ?thesis
    by (blast intro: agreesI reads_bind)
qed

lemma agrees_Cons:
  "agrees P g x \<Longrightarrow> agrees (writes Ps) (h x) y \<Longrightarrow> agrees (writes (P # Ps)) (bindG g h) y"
  by (erule (1) agrees_bind) simp

lemma writes_append: "writes (Ps @ Qs) p = (case writes Ps p of Inl e \<Rightarrow> Inl e | Inr p' \<Rightarrow> writes Qs p')"
  by (induction Ps arbitrary: p) (auto split: sum.splits)

lemma agrees_append:
  "agrees (writes Ps) g x \<Longrightarrow> agrees (writes Qs) (h x) y \<Longrightarrow> agrees (writes (Ps @ Qs)) (bindG g h) y"
  by (erule (1) agrees_bind) (simp add: writes_append)

lemma agrees_single: "agrees P g x \<Longrightarrow> agrees (writes [P]) g x"
  unfolding agrees_def by (auto simp: fun_eq_iff)

lemma agrees_forEach_map:
  assumes "\<And>x. x \<in> set xs \<Longrightarrow> agrees (f x) g (h x)"
  shows "agrees (forEach xs f) (repeatG (length xs) g) (map h xs)"
  using assms
proof (induction xs)
  case Nil
  then show ?case
    by (intro agreesI [of _ "[]"]) simp_all
next
  case (Cons x xs)
  have tail: "agrees (forEach xs f) (repeatG (length xs) g) (map h xs)"
    using Cons by simp
  have "agrees (forEach xs f) (bindG (repeatG (length xs) g) (\<lambda>ys. returnG (h x # ys))) (map h (x # xs))"
    by (rule agrees_bind [OF tail, where Q = "writes []"]) (simp_all add: agrees_done)
  with Cons.prems have "agrees (forEach (x # xs) f)
      (bindG g (\<lambda>y. bindG (repeatG (length xs) g) (\<lambda>ys. returnG (y # ys)))) (map h (x # xs))"
    by (intro agrees_bind [where P = "f x" and x = "h x"]) simp_all
  then show ?case by (simp only: list.size(4) add_Suc_right add_0_right repeatG.simps(2))
qed

lemma agrees_forEach:
  "(\<And>x. x \<in> set xs \<Longrightarrow> agrees (f x) g x) \<Longrightarrow> agrees (forEach xs f) (repeatG (length xs) g) xs"
  using agrees_forEach_map [of xs f g id] by simp

lemma agrees_U1: "agrees (wU1 b) getU1 b"
  by (rule agreesI [of _ "[T1 b]"]) (simp_all add: wU1_def put_tokens_def reads_getU1)

lemma agrees_U4: "agrees (wU4 w) getU4 w"
  by (rule agreesI [of _ "[T4 w]"]) (simp_all add: wU4_def put_tokens_def reads_getU4)

lemma fold_putU1: "fold putU1 bs = put_tokens (map T1 bs)"
proof -
  have "put_token \<circ> T1 = putU1"
    by (simp add: fun_eq_iff)
  then show ?thesis
    unfolding put_tokens_def [abs_def] by (simp only: fold_map)
qed

lemma agrees_S8: "agrees (wS8 i) getS8 i"
proof (rule agreesI)
  show "wS8 i p = Inr (put_tokens (map T1 (varint i)) p)" for p
    by (simp add: wS8_def putS8_def putU8_def fold_putU1)
  show "reads getS8 (map T1 (varint i)) i"
    by (simp add: getS8_def reads_getU8)
qed

lemma reads_getSize: "n < 2 ^ 31 \<Longrightarrow> reads getSize [T4 (of_nat n)] n"
proof -
  assume n: "n < 2 ^ 31"
  have "reads getSize ([T4 (of_nat n)] @ []) n"
    unfolding getSize_def using n by (intro reads_bind [OF reads_getU4]) simp
  then show ?thesis by simp
qed

lemma agrees_Size: "n < 2 ^ 31 \<Longrightarrow> agrees (wSize n) getSize n"
  by (rule agreesI [of _ "[T4 (of_nat n)]"]) (simp_all add: wSize_def put_tokens_def reads_getSize)

lemma agrees_Count: "n < 2 ^ 31 \<Longrightarrow> agrees (wSize n) getCount n"
proof -
  assume n: "n < 2 ^ 31"
  then have "reads getCount ([T4 (of_nat n)] @ []) n"
    unfolding getCount_def by (intro reads_bind [OF reads_getU4]) simp
  then show ?thesis
    by (intro agreesI [of _ "[T4 (of_nat n)]"]) (simp_all add: wSize_def put_tokens_def)
qed

lemma agrees_Bytes:
  assumes "length bs < 2 ^ 31"
  shows "agrees (wBytes bs) getBytes bs"
proof (rule agreesI)
  show "wBytes bs p = Inr (put_tokens ([T4 (of_nat (length bs))] @ map T1 bs) p)" for p
    unfolding put_tokens_append by (simp add: wBytes_def putBytes_def fold_putU1 put_tokens_def)
  show "reads getBytes ([T4 (of_nat (length bs))] @ map T1 bs) bs"
    unfolding getBytes_def using reads_getSize [OF assms] reads_getSpan by (rule reads_bind)
qed

lemma agrees_Str:
  assumes "length s < 2 ^ 31"
  shows "agrees (wStr s) getStr s"
proof (rule agreesI)
  let ?bs = "map byte_of_char s"
  show "wStr s p = Inr (put_tokens ([T4 (of_nat (length s))] @ map T1 ?bs) p)" for p
  proof -
    have "fold (\<lambda>c. putU1 (byte_of_char c)) s = put_tokens (map T1 ?bs)"
      by (simp only: fold_putU1 [symmetric] fold_map comp_def)
    then show ?thesis
      unfolding put_tokens_append by (simp add: wStr_def putStr_def put_tokens_def)
  qed
  have "reads (bindG (getSpan (length ?bs)) (\<lambda>bs. returnG (map char_of_byte bs))) (map T1 ?bs @ [])
      (map char_of_byte ?bs)"
    by (rule reads_bind [OF reads_getSpan reads_return])
  then show "reads getStr ([T4 (of_nat (length s))] @ map T1 ?bs) s"
    unfolding getStr_def by (intro reads_bind [OF reads_getSize [OF assms]]) simp
qed

lemmas agrees_basic = agrees_U1 agrees_U4 agrees_S8 agrees_Size agrees_Count agrees_Bytes agrees_Str
lemmas agrees_rules = agrees_basic agrees_Cons agrees_return

section \<open>The container\<close>

text \<open>
  \<open>Pickler::result\<close> compresses the bytes with LZ4 and prefixes the compressed and the uncompressed
  size as two native (little-endian) \<open>int\<close>s; the \<open>UnPickler\<close> constructor undoes it.  LZ4 itself is a
  third-party library: \<open>compress\<close> gives the bytes \<open>LZ4_compress_fast\<close> writes (none when its result
  code is 0) and \<open>decompress src n\<close> the bytes \<open>LZ4_decompress_safe\<close> writes into a buffer of \<open>n\<close>.
\<close>

definition int_bytes :: "nat \<Rightarrow> u8 list" where
  "int_bytes n = [of_nat n, of_nat (n div 256), of_nat (n div 65536), of_nat (n div 16777216)]"

definition bytes_int :: "u8 list \<Rightarrow> nat" where
  "bytes_int bs = (case bs of [a, b, c, d] \<Rightarrow>
     unat a + 256 * unat b + 65536 * unat c + 16777216 * unat d | _ \<Rightarrow> 0)"

definition pickle_result :: "(u8 list \<Rightarrow> u8 list) \<Rightarrow> pickler \<Rightarrow> (serial_error, u8 list) result" where
  "pickle_result compress p =
     (let data = finish p; c = compress data
      in if length c = 0 then Inl Incompressible
         else Inr (int_bytes (length c) @ int_bytes (length data) @ c))"

definition mk_unpickler :: "u8 list \<Rightarrow> unpickler" where
  "mk_unpickler d = \<lparr>udata = d, upos = 0, uzero = 0\<rparr>"

definition open_unpickler ::
  "(u8 list \<Rightarrow> nat \<Rightarrow> u8 list option) \<Rightarrow> u8 list \<Rightarrow> (serial_error, unpickler) result" where
  "open_unpickler decompress compressed =
     (if length compressed < 8 then Inl ReadPastEnd
      else let compressedSize = bytes_int (take 4 compressed);
               uncompressedSize = bytes_int (take 4 (drop 4 compressed))
           in case decompress (take compressedSize (drop 8 compressed)) uncompressedSize of
                None \<Rightarrow> Inl IncompleteDecompression
              | Some d \<Rightarrow> if length d = uncompressedSize then Inr (mk_unpickler d)
                          else Inl IncompleteDecompression)"

definition lz4_ok :: "(u8 list \<Rightarrow> u8 list) \<Rightarrow> (u8 list \<Rightarrow> nat \<Rightarrow> u8 list option) \<Rightarrow> u8 list \<Rightarrow> bool" where
  "lz4_ok compress decompress d \<longleftrightarrow>
     0 < length (compress d) \<and> length (compress d) < 2 ^ 31 \<and> length d < 2 ^ 31
     \<and> decompress (compress d) (length d) = Some d"

text \<open>A container that stores the bytes behind a marker byte satisfies what the code relies on.\<close>

lemma lz4_ok_stored: "length d + 1 < 2 ^ 31 \<Longrightarrow> lz4_ok (\<lambda>d. 0 # d) (\<lambda>c n. Some (tl c)) d"
  by (simp add: lz4_ok_def)

text \<open>\<open>Pickler p; put(p, x); return p.result()\<close> and \<open>UnPickler p(data); return get(p)\<close>.\<close>

definition store_with :: "(u8 list \<Rightarrow> u8 list) \<Rightarrow> put \<Rightarrow> (serial_error, u8 list) result" where
  "store_with compress P =
     (case P empty_pickler of Inl e \<Rightarrow> Inl e | Inr p \<Rightarrow> pickle_result compress p)"

definition load_with ::
  "(u8 list \<Rightarrow> nat \<Rightarrow> u8 list option) \<Rightarrow> 'a get \<Rightarrow> u8 list \<Rightarrow> (serial_error, 'a) result" where
  "load_with decompress g bytes =
     (case open_unpickler decompress bytes of Inl e \<Rightarrow> Inl e
      | Inr u \<Rightarrow> (case g u of Inl e \<Rightarrow> Inl e | Inr (x, _) \<Rightarrow> Inr x))"

lemma length_int_bytes [simp]: "length (int_bytes n) = 4"
  by (simp add: int_bytes_def)

lemma bytes_int_bytes [simp]: "n < 2 ^ 31 \<Longrightarrow> bytes_int (int_bytes n) = n"
proof -
  assume n: "n < 2 ^ 31"
  have d2: "n div 65536 = n div 256 div 256" and d3: "n div 16777216 = n div 256 div 256 div 256"
    by (simp_all add: div_mult2_eq [symmetric])
  have split256: "256 * (m div 256) + m mod 256 = m" for m :: nat
    by (rule mult_div_mod_eq)
  have "n mod 256 + 256 * (n div 256 mod 256) + 65536 * (n div 65536 mod 256)
      + 16777216 * (n div 16777216) = n"
    unfolding d2 d3
    using split256 [of n] split256 [of "n div 256"] split256 [of "n div 256 div 256"] by linarith
  with n show ?thesis
    by (simp add: bytes_int_def int_bytes_def unat_of_nat take_bit_nat_def)
qed

lemma open_pickle_result:
  assumes "lz4_ok compress decompress (finish p)"
  shows "\<exists>bytes. pickle_result compress p = Inr bytes
     \<and> open_unpickler decompress bytes = Inr (mk_unpickler (finish p))"
  using assms
  by (auto simp: pickle_result_def open_unpickler_def lz4_ok_def Let_def)

lemma decodes_mk_unpickler:
  "decodes (mk_unpickler (finish (put_tokens ts empty_pickler))) ts"
  by (simp add: decodes_def mk_unpickler_def finish_put_tokens empty_pickler_def)

definition bytes_of :: "put \<Rightarrow> u8 list" where
  "bytes_of P = (case P empty_pickler of Inl e \<Rightarrow> [] | Inr p \<Rightarrow> finish p)"

lemma agrees_finish:
  assumes "agrees P g x"
  shows "\<exists>p. P empty_pickler = Inr p" and "\<exists>u'. g (mk_unpickler (bytes_of P)) = Inr (x, u')"
proof -
  from assms obtain ts where P: "P = (\<lambda>p. Inr (put_tokens ts p))" and "reads g ts x"
    by (auto simp: agrees_def)
  moreover have "decodes (mk_unpickler (finish (put_tokens ts empty_pickler))) (ts @ [])"
    by (simp add: decodes_mk_unpickler)
  ultimately show "\<exists>u'. g (mk_unpickler (bytes_of P)) = Inr (x, u')"
    using readsD [of g ts x _ "[]"] by (auto simp: bytes_of_def)
  show "\<exists>p. P empty_pickler = Inr p"
    using P by simp
qed

lemma store_load:
  assumes "agrees P g x" and "lz4_ok compress decompress (bytes_of P)"
  shows "\<exists>bytes. store_with compress P = Inr bytes \<and> load_with decompress g bytes = Inr x"
proof -
  obtain p where p: "P empty_pickler = Inr p"
    using agrees_finish(1) [OF assms(1)] by blast
  then have "lz4_ok compress decompress (finish p)"
    using assms(2) by (simp add: bytes_of_def)
  from open_pickle_result [OF this] agrees_finish(2) [OF assms(1)] p show ?thesis
    by (auto simp: store_with_def load_with_def bytes_of_def)
qed

section \<open>The codec interfaces\<close>

text \<open>
  What the serializer promises for one type.  Some values are not read back as they were: flag words
  lose their uninitialised bits and member tables are sorted.  A canonical codec reads a well-formed
  value back as its canonical form, which it writes like the value itself; a codec is one that loses
  nothing.  The lemmas of the locales are the consequences the clients use: arrays of such values, the
  round trip through bytes and through the compressed container, and which values share an encoding.
\<close>

lemma agrees_unique:
  assumes "agrees P g x" and "agrees P g y"
  shows "x = y"
  using agrees_finish(2) [OF assms(1)] agrees_finish(2) [OF assms(2)] by auto

locale canonical_codec =
  fixes put :: "'a \<Rightarrow> put"
    and get :: "'a get"
    and wf :: "'a \<Rightarrow> bool"
    and canon :: "'a \<Rightarrow> 'a"
  assumes put_get_canon: "wf x \<Longrightarrow> agrees (put x) get (canon x)"
    and put_canon: "wf x \<Longrightarrow> put (canon x) = put x"
    and wf_canon: "wf x \<Longrightarrow> wf (canon x)"
begin

lemma canon_canon:
  assumes "wf x"
  shows "canon (canon x) = canon x"
proof -
  have "agrees (put x) get (canon (canon x))"
    using put_get_canon [OF wf_canon [OF assms]] by (simp only: put_canon [OF assms])
  then show ?thesis
    using put_get_canon [OF assms] by (rule agrees_unique)
qed

lemma array_canon:
  "(\<And>x. x \<in> set xs \<Longrightarrow> wf x) \<Longrightarrow> agrees (forEach xs put) (repeatG (length xs) get) (map canon xs)"
  by (intro agrees_forEach_map put_get_canon)

lemma array_put_canon: "list_all wf xs \<Longrightarrow> forEach (map canon xs) put = forEach xs put"
  unfolding forEach_map list_all_iff by (rule forEach_cong) (auto simp: put_canon)

lemma stored_canon:
  "wf x \<Longrightarrow> lz4_ok compress decompress (bytes_of (put x)) \<Longrightarrow>
     \<exists>bytes. store_with compress (put x) = Inr bytes \<and> load_with decompress get bytes = Inr (canon x)"
  by (rule store_load [OF put_get_canon])

lemma same_encoding:
  assumes "wf x" and "wf y"
  shows "bytes_of (put x) = bytes_of (put y) \<longleftrightarrow> canon x = canon y"
proof
  assume same: "bytes_of (put x) = bytes_of (put y)"
  from agrees_finish(2) [OF put_get_canon [OF assms(1)]] agrees_finish(2) [OF put_get_canon [OF assms(2)]]
  show "canon x = canon y"
    unfolding same by auto
next
  assume "canon x = canon y"
  with put_canon assms show "bytes_of (put x) = bytes_of (put y)"
    by metis
qed

end

locale codec =
  fixes put :: "'a \<Rightarrow> put"
    and get :: "'a get"
    and wf :: "'a \<Rightarrow> bool"
  assumes put_get: "wf x \<Longrightarrow> agrees (put x) get x"

sublocale codec \<subseteq> canonical_codec put get wf id
  by unfold_locales (simp_all add: put_get)

context codec
begin

lemma array_agrees:
  "(\<And>x. x \<in> set xs \<Longrightarrow> wf x) \<Longrightarrow> agrees (forEach xs put) (repeatG (length xs) get) xs"
  using array_canon [of xs] by simp

lemma roundtrip: "wf x \<Longrightarrow> \<exists>u'. get (mk_unpickler (bytes_of (put x))) = Inr (x, u')"
  by (rule agrees_finish(2) [OF put_get])

lemma injective: "wf x \<Longrightarrow> wf y \<Longrightarrow> bytes_of (put x) = bytes_of (put y) \<Longrightarrow> x = y"
  using same_encoding [of x y] by simp

lemma stored_roundtrip:
  "wf x \<Longrightarrow> lz4_ok compress decompress (bytes_of (put x)) \<Longrightarrow>
     \<exists>bytes. store_with compress (put x) = Inr bytes \<and> load_with decompress get bytes = Inr x"
  using stored_canon [of x] by simp

end

interpretation str: codec wStr getStr "\<lambda>s. length s < 2 ^ 31"
  by unfold_locales (rule agrees_Str)

interpretation u4: codec wU4 getU4 "\<lambda>_. True"
  by unfold_locales (rule agrees_U4)

interpretation s8: codec wS8 getS8 "\<lambda>_. True"
  by unfold_locales (rule agrees_S8)

section \<open>Properties\<close>

lemma fold_putU4: "fold putU4 ws = put_tokens (map T4 ws)"
proof -
  have "put_token \<circ> T4 = putU4"
    by (simp add: fun_eq_iff)
  then show ?thesis
    unfolding put_tokens_def [abs_def] by (simp only: fold_map)
qed

lemma reads_U4s: "reads (repeatG (length ws) getU4) (map T4 ws) ws"
proof -
  have "list_all2 (reads getU4) (map (\<lambda>w. [T4 w]) ws) ws"
    by (induction ws) (simp_all add: reads_getU4)
  from reads_repeat [OF this] show ?thesis
    by (simp add: concat_map_singleton)
qed

lemma length_enc_zeros:
  "z \<noteq> 0 \<Longrightarrow> length (enc z (replicate n (T4 0))) = 1 + 2 * ((unat z + n - 1) div 255)"
proof (induction n arbitrary: z)
  case 0
  have "unat z < 256"
    using unsigned_less [of z, where 'a = nat] by simp
  then have "(unat z - 1) div 255 = 0"
    by (simp add: div_eq_0_iff)
  with 0 show ?case by (simp add: zrun_def)
next
  case (Suc n)
  show ?case
  proof (cases "z = 255")
    case True
    then show ?thesis
      using Suc.IH [of 1] by (simp add: div_add_self1)
  next
    case False
    then have "unat z \<noteq> 255"
      using word_unat_eq_iff [of z 255] by simp
    then have lt: "unat z < 255"
      using unsigned_less [of z, where 'a = nat] by simp
    then have uz: "unat (z + 1) = unat z + 1"
      by (simp add: unat_word_ariths(1))
    then have "z + 1 \<noteq> 0"
      by (metis add_is_0 one_neq_zero unsigned_0)
    from Suc.IH [OF this] uz False Suc.prems show ?thesis
      by simp
  qed
qed

lemma length_varint:
  assumes "unat (127 :: 'a::len word) = 127" and "unat (u :: 'a word) < 128 ^ Suc n"
  shows "length (varint u) \<le> Suc n"
  using assms(2)
proof (induction n arbitrary: u)
  case 0
  then have "\<not> 127 < u"
    using assms(1) by (simp add: word_less_nat_alt)
  then show ?case by (simp add: varint_bytes)
next
  case (Suc n)
  show ?case
  proof (cases "127 < u")
    case False
    then show ?thesis by (simp add: varint_bytes)
  next
    case True
    have "unat (drop_bit 7 u) = unat u div 128"
      by (simp only: unat_drop_bit_eq) (simp add: drop_bit_nat_def)
    also have "\<dots> < 128 ^ Suc n"
      using Suc.prems by (simp add: less_mult_imp_div_less mult.commute)
    finally show ?thesis
      using Suc.IH True by (simp add: varint_bytes)
  qed
qed

lemma length_varint_u32: "length (varint (w :: u32)) \<le> 5"
  using length_varint [of w 4] unsigned_less [of w, where 'a = nat] by simp

lemma length_varint_u64: "length (varint (w :: u64)) \<le> 10"
  using length_varint [of w 9] unsigned_less [of w, where 'a = nat] by simp

lemma length_enc: "length (enc z ts) \<le> 6 * length ts + 1"
proof (induction z ts rule: enc.induct)
  case (3 z w ts)
  then show ?case
    using length_varint_u32 [of w] by (auto simp: zrun_def)
qed (auto simp: zrun_def)

text \<open>A writer that never raises and makes at most \<open>n\<close> puts.\<close>

definition puts_at_most :: "nat \<Rightarrow> put \<Rightarrow> bool" where
  "puts_at_most n P \<longleftrightarrow> (\<exists>ts. length ts \<le> n \<and> P = (\<lambda>p. Inr (put_tokens ts p)))"

lemma bytes_of_bound: "puts_at_most n P \<Longrightarrow> length (bytes_of P) \<le> 6 * n + 1"
proof -
  assume "puts_at_most n P"
  then obtain ts where ts: "length ts \<le> n" "P = (\<lambda>p. Inr (put_tokens ts p))"
    by (auto simp: puts_at_most_def)
  with length_enc [of 0 ts] show ?thesis
    by (simp add: bytes_of_def finish_put_tokens empty_pickler_def)
qed

lemma at_most_then:
  assumes "puts_at_most n P" and "puts_at_most m Q"
  shows "puts_at_most (n + m) (\<lambda>p. case P p of Inl e \<Rightarrow> Inl e | Inr p' \<Rightarrow> Q p')"
proof -
  from assms obtain ts ts' where "length ts \<le> n" "P = (\<lambda>p. Inr (put_tokens ts p))"
    "length ts' \<le> m" "Q = (\<lambda>p. Inr (put_tokens ts' p))"
    by (auto simp: puts_at_most_def)
  then show ?thesis
    unfolding puts_at_most_def by (intro exI [of _ "ts @ ts'"]) (simp add: put_tokens_append)
qed

lemma at_most_basic:
  "puts_at_most 1 (wU4 w)" "puts_at_most 1 (wU1 b)" "puts_at_most 1 (wSize k)" "puts_at_most 0 (writes [])"
  unfolding puts_at_most_def
  by (rule exI [of _ "[T4 w]"] exI [of _ "[T1 b]"] exI [of _ "[T4 (of_nat k)]"] exI [of _ "[]"],
      simp add: fun_eq_iff wU4_def wU1_def wSize_def put_tokens_def)+

lemma at_most_Str: "puts_at_most (1 + length s) (wStr s)"
proof -
  have "fold (\<lambda>c. putU1 (byte_of_char c)) s = put_tokens (map T1 (map byte_of_char s))"
    by (simp only: fold_putU1 [symmetric] fold_map comp_def)
  then have "wStr s = (\<lambda>p. Inr (put_tokens ([T4 (of_nat (length s))] @ map T1 (map byte_of_char s)) p))"
    unfolding put_tokens_append by (simp add: fun_eq_iff wStr_def putStr_def put_tokens_def)
  then show ?thesis
    unfolding puts_at_most_def by (intro exI [of _ "[T4 (of_nat (length s))] @ map T1 (map byte_of_char s)"]) simp
qed

lemma at_most_Bytes: "puts_at_most (1 + length bs) (wBytes bs)"
proof -
  have "wBytes bs = (\<lambda>p. Inr (put_tokens ([T4 (of_nat (length bs))] @ map T1 bs) p))"
    unfolding put_tokens_append by (simp add: fun_eq_iff wBytes_def putBytes_def fold_putU1 put_tokens_def)
  then show ?thesis
    unfolding puts_at_most_def by (intro exI [of _ "[T4 (of_nat (length bs))] @ map T1 bs"]) simp
qed

lemma at_most_Cons: "puts_at_most n P \<Longrightarrow> puts_at_most m (writes Ps) \<Longrightarrow> puts_at_most (n + m) (writes (P # Ps))"
  unfolding writes_Cons_fun by (rule at_most_then)

lemma at_most_forEach_Nil: "puts_at_most 0 (forEach [] f)"
  unfolding puts_at_most_def by (intro exI [of _ "[]"]) (simp add: fun_eq_iff)

lemma at_most_forEach_Cons:
  "puts_at_most n (f x) \<Longrightarrow> puts_at_most m (forEach xs f) \<Longrightarrow> puts_at_most (n + m) (forEach (x # xs) f)"
  unfolding forEach_Cons_fun by (rule at_most_then)

lemmas at_most = at_most_basic at_most_Str at_most_Bytes at_most_Cons at_most_forEach_Nil at_most_forEach_Cons

text \<open>Any sequence of 32-bit integers written with \<open>Pickler::putU4\<close>, zeros and non-zeros in any
  order, is read back by as many calls of \<open>UnPickler::getU4\<close>: the run-length encoding of zeros and the
  variable-length encoding of the others lose nothing.\<close>

lemma putU4_getU4_roundtrip:
  "\<exists>u'. repeatG (length ws) getU4 (mk_unpickler (finish (fold putU4 ws empty_pickler))) = Inr (ws, u')"
proof -
  have "decodes (mk_unpickler (finish (put_tokens (map T4 ws) empty_pickler))) (map T4 ws @ [])"
    by (simp add: decodes_mk_unpickler)
  from readsD [OF reads_U4s this] show ?thesis
    by (auto simp: fold_putU4)
qed

text \<open>A run of \<open>n\<close> zeros costs two bytes per 255 zeros begun: the marker byte and the count, which the
  one-byte counter splits at 255 instead of wrapping around.\<close>

lemma zero_run_size:
  "length (finish (fold putU4 (replicate n 0) empty_pickler)) = 2 * ((n + 254) div 255)"
proof -
  have "finish (fold putU4 (replicate n 0) empty_pickler) = enc 0 (replicate n (T4 0))"
    unfolding fold_putU4 map_replicate finish_put_tokens by (simp add: empty_pickler_def)
  moreover have "length (enc 0 (replicate n (T4 0))) = 2 * ((n + 254) div 255)"
  proof (cases n)
    case 0
    then show ?thesis by (simp add: zrun_def)
  next
    case (Suc m)
    have "length (enc 1 (replicate m (T4 0))) = 1 + 2 * (m div 255)"
      using length_enc_zeros [of 1 m] by simp
    moreover have "(Suc m + 254) div 255 = 1 + m div 255"
      by simp
    ultimately show ?thesis using Suc by simp
  qed
  ultimately show ?thesis by simp
qed

text \<open>The encoding is bounded: \<open>putU4\<close> appends at most six bytes (a flushed zero count and five groups
  of seven bits), and \<open>putU8\<close> writes at most ten into an empty pickler.\<close>

lemma put_size_bounds:
  "length (finish (putU4 w p)) \<le> length (pdata p) + 6
   \<and> length (finish (putU8 i empty_pickler)) \<le> 10"
proof
  show "length (finish (putU4 w p)) \<le> length (pdata p) + 6"
    using length_varint_u32 [of w] by (auto simp: finish_def putU4_def emplace_def flushZeros_def)
  have "length (enc 0 (map T1 bs)) = length bs" for bs
    by (induction bs) (simp_all add: zrun_def)
  then have "length (finish (putU8 i empty_pickler)) = length (varint i)"
    unfolding putU8_def fold_putU1 finish_put_tokens by (simp add: empty_pickler_def)
  then show "length (finish (putU8 i empty_pickler)) \<le> 10"
    using length_varint_u64 [of i] by simp
qed

end
