(* ===== verification/SymbolCodec.thy ===== *)
theory SymbolCodec
  imports Pickler "HOL-Library.AList"
begin

text \<open>
  The \<open>pickle\<close> and \<open>unpickle\<close> overloads of \<open>SerializerImpl\<close> for locations, file hashes, names, types
  and the four kinds of symbols.  References (\<open>NameRef\<close>, \<open>SymbolRef\<close>, \<open>ClassOrModuleRef\<close>, \<dots>) are the
  32-bit raw ids the code serializes; a \<open>Flags\<close> bit field is the word its \<open>bit_cast\<close> gives.
\<close>

section \<open>Locations\<close>

record loc_offsets =
  beginLoc :: u32
  endLoc :: u32

record loc =
  fileRef :: u32
  offsets :: loc_offsets

definition pickleLocOffsets :: "loc_offsets \<Rightarrow> put" where
  "pickleLocOffsets l = writes [wU4 (beginLoc l), wU4 (endLoc l - beginLoc l)]"

definition unpickleLocOffsets :: "loc_offsets get" where
  "unpickleLocOffsets =
     bindG getU4 (\<lambda>start. bindG getU4 (\<lambda>length.
       returnG \<lparr>beginLoc = start, endLoc = start + length\<rparr>))"

definition pickleLoc :: "loc \<Rightarrow> put" where
  "pickleLoc l = writes [wU4 (fileRef l), pickleLocOffsets (offsets l)]"

definition unpickleLoc :: "loc get" where
  "unpickleLoc =
     bindG getU4 (\<lambda>file. bindG unpickleLocOffsets (\<lambda>offs.
       returnG \<lparr>fileRef = file, offsets = offs\<rparr>))"

lemma agrees_LocOffsets: "agrees (pickleLocOffsets l) unpickleLocOffsets l"
  unfolding pickleLocOffsets_def unpickleLocOffsets_def
  by (rule agrees_rules | simp)+

interpretation locOffsets: codec pickleLocOffsets unpickleLocOffsets "\<lambda>_. True"
  by unfold_locales (rule agrees_LocOffsets)

lemma agrees_Loc: "agrees (pickleLoc l) unpickleLoc l"
  unfolding pickleLoc_def unpickleLoc_def
  by (rule agrees_rules agrees_LocOffsets | simp)+

interpretation loc: codec pickleLoc unpickleLoc "\<lambda>_. True"
  by unfold_locales (rule agrees_Loc)

section \<open>File hashes and files\<close>

text \<open>\<open>ownerIdx\<close> is a 28-bit field; the boolean fields are written with \<open>putU1\<close> and read back into a
  \<open>bool\<close> by the implicit conversion.\<close>

definition bool_byte :: "bool \<Rightarrow> u8" where
  "bool_byte b = (if b then 1 else 0)"

definition byte_bool :: "u8 \<Rightarrow> bool" where
  "byte_bool b \<longleftrightarrow> b \<noteq> 0"

type_synonym idx28 = "28 word"

record symbol_hash =
  sh_nameHash :: u32
  sh_symbolHash :: u32

record found_static_field_hash =
  fsf_ownerIdx :: idx28
  fsf_ownerIsSymbol :: bool
  fsf_nameHash :: u32

record found_type_member_hash =
  ftm_ownerIdx :: idx28
  ftm_ownerIsSymbol :: bool
  ftm_isTypeTemplate :: bool
  ftm_nameHash :: u32

record found_method_hash =
  fm_ownerIdx :: idx28
  fm_ownerIsSymbol :: bool
  fm_useSingletonClass :: bool
  fm_nameHash :: u32
  fm_arityHash :: u32

record found_field_hash =
  ff_ownerIdx :: idx28
  ff_ownerIsSymbol :: bool
  ff_onSingletonClass :: bool
  ff_isInstanceVariable :: bool
  ff_fromWithinMethod :: bool
  ff_nameHash :: u32

record local_symbol_table_hashes =
  hierarchyHash :: u32
  classModuleHash :: u32
  typeMemberHash :: u32
  fieldHash :: u32
  staticFieldHash :: u32
  classAliasHash :: u32
  methodHash :: u32
  retypecheckableSymbolHashes :: "symbol_hash list"

record file_hash =
  localSymbolTableHashes :: local_symbol_table_hashes
  usages :: "u32 list"
  staticFieldHashes :: "found_static_field_hash list"
  typeMemberHashes :: "found_type_member_hash list"
  methodHashes :: "found_method_hash list"
  fieldHashes :: "found_field_hash list"

definition pickleSymbolHash :: "symbol_hash \<Rightarrow> put" where
  "pickleSymbolHash h = writes [wU4 (sh_nameHash h), wU4 (sh_symbolHash h)]"

definition pickleStaticFieldHash :: "found_static_field_hash \<Rightarrow> put" where
  "pickleStaticFieldHash h = writes
     [wU4 (ucast (fsf_ownerIdx h)), wU1 (bool_byte (fsf_ownerIsSymbol h)), wU4 (fsf_nameHash h)]"

definition pickleTypeMemberHash :: "found_type_member_hash \<Rightarrow> put" where
  "pickleTypeMemberHash h = writes
     [wU4 (ucast (ftm_ownerIdx h)), wU1 (bool_byte (ftm_ownerIsSymbol h)),
      wU1 (bool_byte (ftm_isTypeTemplate h)), wU4 (ftm_nameHash h)]"

definition pickleMethodHash :: "found_method_hash \<Rightarrow> put" where
  "pickleMethodHash h = writes
     [wU4 (ucast (fm_ownerIdx h)), wU1 (bool_byte (fm_ownerIsSymbol h)),
      wU1 (bool_byte (fm_useSingletonClass h)), wU4 (fm_nameHash h), wU4 (fm_arityHash h)]"

definition pickleFieldHash :: "found_field_hash \<Rightarrow> put" where
  "pickleFieldHash h = writes
     [wU4 (ucast (ff_ownerIdx h)), wU1 (bool_byte (ff_ownerIsSymbol h)),
      wU1 (bool_byte (ff_onSingletonClass h)), wU1 (bool_byte (ff_isInstanceVariable h)),
      wU1 (bool_byte (ff_fromWithinMethod h)), wU4 (ff_nameHash h)]"

definition unpickleSymbolHash :: "symbol_hash get" where
  "unpickleSymbolHash =
     bindG getU4 (\<lambda>key. bindG getU4 (\<lambda>v. returnG \<lparr>sh_nameHash = key, sh_symbolHash = v\<rparr>))"

definition unpickleStaticFieldHash :: "found_static_field_hash get" where
  "unpickleStaticFieldHash =
     bindG getU4 (\<lambda>ownerIdx. bindG getU1 (\<lambda>ownerIsSymbol. bindG getU4 (\<lambda>nameHash.
       returnG \<lparr>fsf_ownerIdx = ucast ownerIdx, fsf_ownerIsSymbol = byte_bool ownerIsSymbol,
                fsf_nameHash = nameHash\<rparr>)))"

definition unpickleTypeMemberHash :: "found_type_member_hash get" where
  "unpickleTypeMemberHash =
     bindG getU4 (\<lambda>ownerIdx. bindG getU1 (\<lambda>ownerIsSymbol. bindG getU1 (\<lambda>isTypeTemplate.
     bindG getU4 (\<lambda>nameHash.
       returnG \<lparr>ftm_ownerIdx = ucast ownerIdx, ftm_ownerIsSymbol = byte_bool ownerIsSymbol,
                ftm_isTypeTemplate = byte_bool isTypeTemplate, ftm_nameHash = nameHash\<rparr>))))"

definition unpickleMethodHash :: "found_method_hash get" where
  "unpickleMethodHash =
     bindG getU4 (\<lambda>ownerIdx. bindG getU1 (\<lambda>ownerIsSymbol. bindG getU1 (\<lambda>useSingletonClass.
     bindG getU4 (\<lambda>nameHash. bindG getU4 (\<lambda>arityHash.
       returnG \<lparr>fm_ownerIdx = ucast ownerIdx, fm_ownerIsSymbol = byte_bool ownerIsSymbol,
                fm_useSingletonClass = byte_bool useSingletonClass, fm_nameHash = nameHash,
                fm_arityHash = arityHash\<rparr>)))))"

definition unpickleFieldHash :: "found_field_hash get" where
  "unpickleFieldHash =
     bindG getU4 (\<lambda>ownerIdx. bindG getU1 (\<lambda>ownerIsSymbol. bindG getU1 (\<lambda>onSingletonClass.
     bindG getU1 (\<lambda>isInstanceVariable. bindG getU1 (\<lambda>fromWithinMethod. bindG getU4 (\<lambda>nameHash.
       returnG \<lparr>ff_ownerIdx = ucast ownerIdx, ff_ownerIsSymbol = byte_bool ownerIsSymbol,
                ff_onSingletonClass = byte_bool onSingletonClass,
                ff_isInstanceVariable = byte_bool isInstanceVariable,
                ff_fromWithinMethod = byte_bool fromWithinMethod, ff_nameHash = nameHash\<rparr>))))))"

text \<open>A null \<open>FileHash\<close> pointer is \<open>None\<close>.\<close>

definition pickleFileHash :: "file_hash option \<Rightarrow> put" where
  "pickleFileHash fh = (case fh of
     None \<Rightarrow> wU1 0
   | Some h \<Rightarrow> (let l = localSymbolTableHashes h in writes
       [wU1 1, wU4 (hierarchyHash l), wU4 (classModuleHash l), wU4 (typeMemberHash l),
        wU4 (fieldHash l), wU4 (staticFieldHash l), wU4 (classAliasHash l), wU4 (methodHash l),
        wSize (length (retypecheckableSymbolHashes l)),
        forEach (retypecheckableSymbolHashes l) pickleSymbolHash,
        wSize (length (usages h)), forEach (usages h) wU4,
        wSize (length (staticFieldHashes h)), forEach (staticFieldHashes h) pickleStaticFieldHash,
        wSize (length (typeMemberHashes h)), forEach (typeMemberHashes h) pickleTypeMemberHash,
        wSize (length (methodHashes h)), forEach (methodHashes h) pickleMethodHash,
        wSize (length (fieldHashes h)), forEach (fieldHashes h) pickleFieldHash]))"

definition unpickleFileHash :: "file_hash option get" where
  "unpickleFileHash =
     bindG getU1 (\<lambda>hadIt. if hadIt = 0 then returnG None else
     bindG getU4 (\<lambda>hh. bindG getU4 (\<lambda>cm. bindG getU4 (\<lambda>tm. bindG getU4 (\<lambda>fh.
     bindG getU4 (\<lambda>sf. bindG getU4 (\<lambda>ca. bindG getU4 (\<lambda>mh.
     bindG getSize (\<lambda>n1. bindG (repeatG n1 unpickleSymbolHash) (\<lambda>rs.
     bindG getSize (\<lambda>n2. bindG (repeatG n2 getU4) (\<lambda>us.
     bindG getSize (\<lambda>n3. bindG (repeatG n3 unpickleStaticFieldHash) (\<lambda>sfs.
     bindG getSize (\<lambda>n4. bindG (repeatG n4 unpickleTypeMemberHash) (\<lambda>tms.
     bindG getSize (\<lambda>n5. bindG (repeatG n5 unpickleMethodHash) (\<lambda>ms.
     bindG getSize (\<lambda>n6. bindG (repeatG n6 unpickleFieldHash) (\<lambda>fs.
       returnG (Some \<lparr>localSymbolTableHashes = \<lparr>hierarchyHash = hh, classModuleHash = cm,
           typeMemberHash = tm, fieldHash = fh, staticFieldHash = sf, classAliasHash = ca,
           methodHash = mh, retypecheckableSymbolHashes = rs\<rparr>,
         usages = us, staticFieldHashes = sfs, typeMemberHashes = tms, methodHashes = ms,
         fieldHashes = fs\<rparr>)))))))))))))))))))))"

definition wf_file_hash :: "file_hash \<Rightarrow> bool" where
  "wf_file_hash h \<longleftrightarrow>
     length (retypecheckableSymbolHashes (localSymbolTableHashes h)) < 2 ^ 31
     \<and> length (usages h) < 2 ^ 31 \<and> length (staticFieldHashes h) < 2 ^ 31
     \<and> length (typeMemberHashes h) < 2 ^ 31 \<and> length (methodHashes h) < 2 ^ 31
     \<and> length (fieldHashes h) < 2 ^ 31"

lemma byte_bool_byte [simp]: "byte_bool (bool_byte b) = b"
  by (simp add: byte_bool_def bool_byte_def)

lemma ucast28 [simp]: "ucast (ucast (i :: idx28) :: u32) = i"
  by (simp add: ucast_up_down)

lemma agrees_SymbolHash: "agrees (pickleSymbolHash h) unpickleSymbolHash h"
  unfolding pickleSymbolHash_def unpickleSymbolHash_def
  by (rule agrees_rules | simp)+

lemma agrees_StaticFieldHash: "agrees (pickleStaticFieldHash h) unpickleStaticFieldHash h"
  unfolding pickleStaticFieldHash_def unpickleStaticFieldHash_def
  by (rule agrees_rules | simp)+

lemma agrees_TypeMemberHash: "agrees (pickleTypeMemberHash h) unpickleTypeMemberHash h"
  unfolding pickleTypeMemberHash_def unpickleTypeMemberHash_def
  by (rule agrees_rules | simp)+

lemma agrees_MethodHash: "agrees (pickleMethodHash h) unpickleMethodHash h"
  unfolding pickleMethodHash_def unpickleMethodHash_def
  by (rule agrees_rules | simp)+

lemma agrees_FieldHash: "agrees (pickleFieldHash h) unpickleFieldHash h"
  unfolding pickleFieldHash_def unpickleFieldHash_def
  by (rule agrees_rules | simp)+

lemmas agrees_found = agrees_SymbolHash agrees_StaticFieldHash agrees_TypeMemberHash
  agrees_MethodHash agrees_FieldHash

lemma agrees_FileHash:
  assumes "\<And>h. fh = Some h \<Longrightarrow> wf_file_hash h"
  shows "agrees (pickleFileHash fh) unpickleFileHash fh"
proof (cases fh)
  case None
  have "agrees (wU1 0) unpickleFileHash None"
    unfolding unpickleFileHash_def
    by (rule agrees_bind [OF agrees_U1, where Q = "writes []"])
       (simp_all add: wU1_def agrees_done)
  with None show ?thesis by (simp add: pickleFileHash_def)
next
  case (Some h)
  with assms have "wf_file_hash h" by simp
  with Some show ?thesis
    unfolding pickleFileHash_def unpickleFileHash_def wf_file_hash_def
    by (simp add: Let_def) (rule agrees_rules agrees_forEach agrees_found | simp)+
qed

interpretation fileHash: codec pickleFileHash unpickleFileHash
  "\<lambda>fh. case fh of None \<Rightarrow> True | Some h \<Rightarrow> wf_file_hash h"
  by unfold_locales (rule agrees_FileHash, simp)

text \<open>The \<open>File::Type\<close> enumerators, as the byte that is written.\<close>

definition File_NotYetRead :: u8 where "File_NotYetRead = 0"
definition File_PayloadGeneration :: u8 where "File_PayloadGeneration = 1"
definition File_Payload :: u8 where "File_Payload = 2"
definition File_Normal :: u8 where "File_Normal = 3"

record src_file =
  sourceType :: u8
  path :: string
  source :: string
  fileHash :: "file_hash option"

text \<open>\<open>File::setFileHash\<close> keeps a hash the file already has.\<close>

definition setFileHash :: "file_hash option \<Rightarrow> 'a src_file_scheme \<Rightarrow> 'a src_file_scheme" where
  "setFileHash h f = (if fileHash f = None then f\<lparr>fileHash := h\<rparr> else f)"

definition pickleFile :: "src_file \<Rightarrow> put" where
  "pickleFile f = writes
     [wU1 (sourceType f), wStr (path f), wStr (source f), pickleFileHash (fileHash f)]"

definition unpickleFile :: "src_file get" where
  "unpickleFile =
     bindG getU1 (\<lambda>t. bindG getStr (\<lambda>path. bindG getStr (\<lambda>source. bindG unpickleFileHash (\<lambda>hash.
       returnG (setFileHash hash \<lparr>sourceType = t, path = path, source = source, fileHash = None\<rparr>)))))"

definition wf_file :: "src_file \<Rightarrow> bool" where
  "wf_file f \<longleftrightarrow> length (path f) < 2 ^ 31 \<and> length (source f) < 2 ^ 31
     \<and> (case fileHash f of None \<Rightarrow> True | Some h \<Rightarrow> wf_file_hash h)"

lemma agrees_File: "wf_file f \<Longrightarrow> agrees (pickleFile f) unpickleFile f"
  unfolding pickleFile_def unpickleFile_def wf_file_def
  by (rule agrees_rules agrees_FileHash | simp add: setFileHash_def)+

interpretation srcFile: codec pickleFile unpickleFile wf_file
  by unfold_locales (rule agrees_File)

section \<open>Names\<close>

record unique_name =
  un_original :: u32
  un_num :: u32
  un_kind :: u8

definition pickleUTF8Name :: "string \<Rightarrow> put" where
  "pickleUTF8Name utf8 = wStr utf8"

definition pickleConstantName :: "u32 \<Rightarrow> put" where
  "pickleConstantName original = wU4 original"

definition pickleUniqueName :: "unique_name \<Rightarrow> put" where
  "pickleUniqueName n = writes [wU4 (un_original n), wU4 (un_num n), wU1 (un_kind n)]"

definition unpickleUTF8Name :: "string get" where
  "unpickleUTF8Name = getStr"

definition unpickleConstantName :: "u32 get" where
  "unpickleConstantName = getU4"

definition unpickleUniqueName :: "unique_name get" where
  "unpickleUniqueName =
     bindG getU4 (\<lambda>original. bindG getU4 (\<lambda>num. bindG getU1 (\<lambda>kind.
       returnG \<lparr>un_original = original, un_num = num, un_kind = kind\<rparr>)))"

lemma agrees_UniqueName: "agrees (pickleUniqueName n) unpickleUniqueName n"
  unfolding pickleUniqueName_def unpickleUniqueName_def
  by (rule agrees_rules | simp)+

interpretation uniqueName: codec pickleUniqueName unpickleUniqueName "\<lambda>_. True"
  by unfold_locales (rule agrees_UniqueName)

section \<open>Types\<close>

datatype type_ptr =
    NullType
  | ClassType (ct_symbol: u32)
  | BlamedUntyped (bu_blame: u32)
  | UnresolvedClassType u32 "u32 list"
  | UnresolvedAppliedType u32 "type_ptr list"
  | LambdaParam u32 type_ptr type_ptr \<comment> \<open>definition, lower bound, upper bound\<close>
  | SelfTypeParam u32
  | AliasType u32
  | SelfType
  | IntegerLiteralType u64
  | FloatLiteralType u64 \<comment> \<open>the bits of the \<open>double\<close>\<close>
  | NamedLiteralType u8 u32 \<comment> \<open>\<open>Kind::String\<close> is 0, \<open>Kind::Symbol\<close> is 1\<close>
  | TypeVar u32
  | OrType type_ptr type_ptr
  | AndType type_ptr type_ptr
  | ShapeType "type_ptr list" "type_ptr list"
  | TupleType "type_ptr list"
  | AppliedType u32 "type_ptr list"
  | MetaType type_ptr

fun type_tag :: "type_ptr \<Rightarrow> u32" where
  "type_tag NullType = 0"
| "type_tag (ClassType _) = 1"
| "type_tag (BlamedUntyped _) = 2"
| "type_tag (UnresolvedClassType _ _) = 3"
| "type_tag (UnresolvedAppliedType _ _) = 4"
| "type_tag (LambdaParam _ _ _) = 5"
| "type_tag (SelfTypeParam _) = 6"
| "type_tag (AliasType _) = 7"
| "type_tag SelfType = 8"
| "type_tag (IntegerLiteralType _) = 9"
| "type_tag (FloatLiteralType _) = 10"
| "type_tag (NamedLiteralType _ _) = 11"
| "type_tag (TypeVar _) = 12"
| "type_tag (OrType _ _) = 13"
| "type_tag (AndType _ _) = 14"
| "type_tag (ShapeType _ _) = 15"
| "type_tag (TupleType _) = 16"
| "type_tag (AppliedType _ _) = 17"
| "type_tag (MetaType _) = 18"

text \<open>\<open>TypePtr::untypedBlame\<close>: only a \<open>BlamedUntyped\<close> carries a symbol, any other untyped type blames
  \<open>Symbols::noSymbol()\<close>, whose raw id is 0.\<close>

definition untypedBlame :: "type_ptr \<Rightarrow> u32" where
  "untypedBlame t = (case t of BlamedUntyped b \<Rightarrow> b | _ \<Rightarrow> 0)"

fun pickleType :: "type_ptr \<Rightarrow> put" where
  "pickleType NullType = wU4 0"
| "pickleType (UnresolvedAppliedType k ts) =
     writes [wU4 (type_tag (UnresolvedAppliedType k ts)), wU4 (untypedBlame (UnresolvedAppliedType k ts))]"
| "pickleType (UnresolvedClassType s ns) =
     writes [wU4 (type_tag (UnresolvedClassType s ns)), wU4 (untypedBlame (UnresolvedClassType s ns))]"
| "pickleType (BlamedUntyped b) = writes [wU4 (type_tag (BlamedUntyped b)), wU4 (untypedBlame (BlamedUntyped b))]"
| "pickleType (ClassType s) = writes [wU4 (type_tag (ClassType s)), wU4 s]"
| "pickleType (OrType l r) = writes [wU4 (type_tag (OrType l r)), pickleType l, pickleType r]"
| "pickleType (NamedLiteralType k n) = writes [wU4 (type_tag (NamedLiteralType k n)), wU1 k, wU4 n]"
| "pickleType (IntegerLiteralType v) = writes [wU4 (type_tag (IntegerLiteralType v)), wS8 v]"
| "pickleType (FloatLiteralType v) = writes [wU4 (type_tag (FloatLiteralType v)), wS8 v]"
| "pickleType (AndType l r) = writes [wU4 (type_tag (AndType l r)), pickleType l, pickleType r]"
| "pickleType (TupleType es) =
     writes [wU4 (type_tag (TupleType es)), wSize (length es), forEach es (\<lambda>el. pickleType el)]"
| "pickleType (ShapeType ks vs) =
     writes [wU4 (type_tag (ShapeType ks vs)), wSize (length ks), forEach ks (\<lambda>el. pickleType el), forEach vs (\<lambda>el. pickleType el)]"
| "pickleType (AliasType s) = writes [wU4 (type_tag (AliasType s)), wU4 s]"
| "pickleType (LambdaParam d lo up) = writes [wU4 (type_tag (LambdaParam d lo up)), pickleType lo, pickleType up, wU4 d]"
| "pickleType (AppliedType k ts) =
     writes [wU4 (type_tag (AppliedType k ts)), wU4 k, wSize (length ts), forEach ts (\<lambda>t. pickleType t)]"
| "pickleType (TypeVar s) = writes [wU4 (type_tag (TypeVar s)), wU4 s]"
| "pickleType SelfType = writes [wU4 (type_tag SelfType)]"
| "pickleType (MetaType t) = writes [wU4 (type_tag (MetaType t)), raise NotImplemented]"
| "pickleType (SelfTypeParam d) = writes [wU4 (type_tag (SelfTypeParam d)), raise NotImplemented]"

text \<open>
  The reader recurses on the input; \<open>fuel\<close> bounds the depth of that recursion (the C++ call stack).
  The arguments of \<open>make_shared\<close> are read left to right.
\<close>

definition unpickleTypeTag :: "type_ptr get \<Rightarrow> u32 \<Rightarrow> type_ptr get" where
  "unpickleTypeTag rec tag =
     (if tag = 0 then returnG NullType
     else if tag = 2 then bindG getU4 (\<lambda>blame. returnG (BlamedUntyped blame))
     else if tag = 3 \<or> tag = 4 \<or> tag = 1 then bindG getU4 (\<lambda>sym. returnG (ClassType sym))
     else if tag = 13 then
       bindG rec (\<lambda>l. bindG rec (\<lambda>r. returnG (OrType l r)))
     else if tag = 11 then
       bindG getU1 (\<lambda>kind. bindG getU4 (\<lambda>name.
         if kind = 0 \<or> kind = 1 then returnG (NamedLiteralType kind name) else failG NotImplemented))
     else if tag = 9 then bindG getS8 (\<lambda>v. returnG (IntegerLiteralType v))
     else if tag = 10 then bindG getS8 (\<lambda>v. returnG (FloatLiteralType v))
     else if tag = 14 then
       bindG rec (\<lambda>l. bindG rec (\<lambda>r. returnG (AndType l r)))
     else if tag = 16 then
       bindG getSize (\<lambda>sz. bindG (repeatG sz rec) (\<lambda>es. returnG (TupleType es)))
     else if tag = 15 then
       bindG getSize (\<lambda>sz. bindG (repeatG sz rec) (\<lambda>ks.
         bindG (repeatG sz rec) (\<lambda>vs. returnG (ShapeType ks vs))))
     else if tag = 7 then bindG getU4 (\<lambda>s. returnG (AliasType s))
     else if tag = 5 then
       bindG rec (\<lambda>lo. bindG rec (\<lambda>up. bindG getU4 (\<lambda>d.
         returnG (LambdaParam d lo up))))
     else if tag = 17 then
       bindG getU4 (\<lambda>k. bindG getSize (\<lambda>sz. bindG (repeatG sz rec) (\<lambda>ts.
         returnG (AppliedType k ts))))
     else if tag = 12 then bindG getU4 (\<lambda>s. returnG (TypeVar s))
     else if tag = 8 then returnG SelfType
     else failG (UnknownTag tag))"

fun unpickleType :: "nat \<Rightarrow> type_ptr get" where
  "unpickleType 0 = failG OutOfFuel"
| "unpickleType (Suc fuel) = bindG getU4 (unpickleTypeTag (unpickleType fuel))"

text \<open>
  A type that is read back unchanged: no unresolved type (they come back as a \<open>ClassType\<close>), no
  \<open>MetaType\<close> or \<open>SelfTypeParam\<close> (writing them raises), literal kinds and sizes in range.
\<close>

fun wf_type :: "type_ptr \<Rightarrow> bool" where
  "wf_type (UnresolvedClassType _ _) = False"
| "wf_type (UnresolvedAppliedType _ _) = False"
| "wf_type (SelfTypeParam _) = False"
| "wf_type (MetaType _) = False"
| "wf_type (LambdaParam _ lo up) \<longleftrightarrow> wf_type lo \<and> wf_type up"
| "wf_type (NamedLiteralType k _) \<longleftrightarrow> k = 0 \<or> k = 1"
| "wf_type (OrType l r) \<longleftrightarrow> wf_type l \<and> wf_type r"
| "wf_type (AndType l r) \<longleftrightarrow> wf_type l \<and> wf_type r"
| "wf_type (ShapeType ks vs) \<longleftrightarrow> length ks < 2 ^ 31 \<and> length vs = length ks
     \<and> (\<forall>t \<in> set ks. wf_type t) \<and> (\<forall>t \<in> set vs. wf_type t)"
| "wf_type (TupleType es) \<longleftrightarrow> length es < 2 ^ 31 \<and> (\<forall>t \<in> set es. wf_type t)"
| "wf_type (AppliedType _ ts) \<longleftrightarrow> length ts < 2 ^ 31 \<and> (\<forall>t \<in> set ts. wf_type t)"
| "wf_type _ = True"

fun type_depth :: "type_ptr \<Rightarrow> nat" where
  "type_depth (LambdaParam _ lo up) = Suc (max (type_depth lo) (type_depth up))"
| "type_depth (OrType l r) = Suc (max (type_depth l) (type_depth r))"
| "type_depth (AndType l r) = Suc (max (type_depth l) (type_depth r))"
| "type_depth (ShapeType ks vs) = Suc (foldr max (map type_depth ks @ map type_depth vs) 0)"
| "type_depth (TupleType es) = Suc (foldr max (map type_depth es) 0)"
| "type_depth (AppliedType _ ts) = Suc (foldr max (map type_depth ts) 0)"
| "type_depth _ = 0"

lemma foldr_max_ge: "x \<in> set xs \<Longrightarrow> x \<le> foldr max xs (n :: nat)"
  by (induction xs) auto

lemma foldr_max_less:
  "foldr max (map f xs) 0 < (n :: nat) \<Longrightarrow> x \<in> set xs \<Longrightarrow> f x < n"
  by (rule le_less_trans [OF foldr_max_ge]) auto

lemma type_depth_elem: "x \<in> set xs \<Longrightarrow> type_depth x < Suc (foldr max (map type_depth xs) 0)"
  using foldr_max_ge [of "type_depth x" "map type_depth xs" 0] by simp

lemma type_depth_shape:
  "x \<in> set ks \<or> x \<in> set vs \<Longrightarrow> type_depth x < type_depth (ShapeType ks vs)"
  using foldr_max_ge [of "type_depth x" "map type_depth ks @ map type_depth vs" 0]
  by (auto simp: less_Suc_eq_le)

lemma agrees_TypeTag:
  assumes "wf_type t" and "t \<noteq> NullType"
    and rec: "\<And>t'. wf_type t' \<Longrightarrow> type_depth t' < type_depth t \<Longrightarrow> agrees (pickleType t') rec t'"
  shows "agrees (pickleType t) (bindG getU4 (unpickleTypeTag rec)) t"
proof -
  note tag = agrees_Cons [OF agrees_U4, of _ "unpickleTypeTag rec"]
  show ?thesis
    using assms(1,2)
  proof (cases t)
    case (LambdaParam d lo up)
    with assms have "agrees (pickleType lo) rec lo" "agrees (pickleType up) rec up"
      by (auto intro!: rec)
    with LambdaParam show ?thesis
      by (simp, intro tag, simp add: unpickleTypeTag_def) (rule agrees_rules refl | assumption)+
  next
    case (OrType l r)
    with assms have "agrees (pickleType l) rec l" "agrees (pickleType r) rec r"
      by (auto intro!: rec)
    with OrType show ?thesis
      by (simp, intro tag, simp add: unpickleTypeTag_def) (rule agrees_rules refl | assumption)+
  next
    case (AndType l r)
    with assms have "agrees (pickleType l) rec l" "agrees (pickleType r) rec r"
      by (auto intro!: rec)
    with AndType show ?thesis
      by (simp, intro tag, simp add: unpickleTypeTag_def) (rule agrees_rules refl | assumption)+
  next
    case (ShapeType ks vs)
    have "agrees (forEach ks pickleType) (repeatG (length ks) rec) ks"
      using assms ShapeType type_depth_shape by (intro agrees_forEach rec) auto
    moreover have "agrees (forEach vs pickleType) (repeatG (length vs) rec) vs"
      using assms ShapeType type_depth_shape by (intro agrees_forEach rec) auto
    moreover have "length vs = length ks" "length ks < 2 ^ 31"
      using assms ShapeType by auto
    ultimately show ?thesis
      by (simp add: ShapeType, intro tag, simp add: unpickleTypeTag_def)
         (rule agrees_rules refl | assumption | simp)+
  next
    case (TupleType es)
    have "agrees (forEach es pickleType) (repeatG (length es) rec) es"
      using assms TupleType type_depth_elem by (intro agrees_forEach rec) auto
    moreover have "length es < 2 ^ 31"
      using assms TupleType by auto
    ultimately show ?thesis
      by (simp add: TupleType, intro tag, simp add: unpickleTypeTag_def)
         (rule agrees_rules refl | assumption | simp)+
  next
    case (AppliedType k ts)
    have "agrees (forEach ts pickleType) (repeatG (length ts) rec) ts"
      using assms AppliedType type_depth_elem by (intro agrees_forEach rec) auto
    moreover have "length ts < 2 ^ 31"
      using assms AppliedType by auto
    ultimately show ?thesis
      by (simp add: AppliedType, intro tag, simp add: unpickleTypeTag_def)
         (rule agrees_rules refl | assumption | simp)+
  next
    case (NamedLiteralType k v)
    with assms(1) have "k = 0 \<or> k = 1"
      by simp
    with NamedLiteralType show ?thesis
      by (simp, intro tag, simp add: unpickleTypeTag_def) (rule agrees_rules refl | simp)+
  qed (simp_all, (intro tag, simp add: unpickleTypeTag_def untypedBlame_def,
        ((rule agrees_rules refl)+)[1])+)
qed

lemma agrees_Type:
  "wf_type t \<Longrightarrow> type_depth t < n \<Longrightarrow> agrees (pickleType t) (unpickleType n) t"
proof (induction n arbitrary: t)
  case 0
  then show ?case by simp
next
  case (Suc n)
  show ?case
  proof (cases "t = NullType")
    case True
    have "agrees (wU4 0) (bindG getU4 (unpickleTypeTag (unpickleType n))) NullType"
      by (rule agrees_bind [OF agrees_U4, where Q = "writes []"])
         (simp_all add: wU4_def agrees_done unpickleTypeTag_def)
    with True show ?thesis by simp
  next
    case False
    with Suc show ?thesis
      unfolding unpickleType.simps by (intro agrees_TypeTag) simp_all
  qed
qed

interpretation typePtr: codec pickleType "unpickleType n" "\<lambda>t. wf_type t \<and> type_depth t < n" for n
  by unfold_locales (simp add: agrees_Type)

section \<open>Parameters and symbols\<close>

record param_flags =
  isKeyword :: bool
  isRepeated :: bool
  isDefault :: bool
  isShadow :: bool
  isBlock :: bool

definition flags_toU1 :: "param_flags \<Rightarrow> u8" where
  "flags_toU1 f = (if isKeyword f then 1 else 0) + (if isRepeated f then 2 else 0)
     + (if isDefault f then 4 else 0) + (if isShadow f then 8 else 0) + (if isBlock f then 16 else 0)"

definition flags_setFromU1 :: "u8 \<Rightarrow> param_flags" where
  "flags_setFromU1 b = \<lparr>isKeyword = b AND 1 \<noteq> 0, isRepeated = b AND 2 \<noteq> 0, isDefault = b AND 4 \<noteq> 0,
     isShadow = b AND 8 \<noteq> 0, isBlock = b AND 16 \<noteq> 0\<rparr>"

record param_info =
  pi_name :: u32
  pi_rebind :: u32
  pi_loc :: loc
  pi_flags :: param_flags
  pi_type :: type_ptr

definition pickleParamInfo :: "param_info \<Rightarrow> put" where
  "pickleParamInfo a = writes
     [wU4 (pi_name a), wU4 (pi_rebind a), pickleLoc (pi_loc a), wU1 (flags_toU1 (pi_flags a)),
      pickleType (pi_type a)]"

definition unpickleArgInfo :: "nat \<Rightarrow> param_info get" where
  "unpickleArgInfo fuel =
     bindG getU4 (\<lambda>name. bindG getU4 (\<lambda>rebind. bindG unpickleLoc (\<lambda>loc. bindG getU1 (\<lambda>flags.
     bindG (unpickleType fuel) (\<lambda>type.
       returnG \<lparr>pi_name = name, pi_rebind = rebind, pi_loc = loc,
                pi_flags = flags_setFromU1 flags, pi_type = type\<rparr>)))))"

text \<open>\<open>Flags::serialize\<close> masks the \<open>NUMBER_OF_FLAGS\<close> low bits: the rest of the storage is not initialised.\<close>

definition serializeFlags :: "nat \<Rightarrow> 'a::len word \<Rightarrow> 'a word" where
  "serializeFlags numberOfFlags raw = raw AND (2 ^ numberOfFlags - 1)"

record method_sym =
  m_nameLoc :: loc
  m_owner :: u32
  m_name :: u32
  m_rebind :: u32
  m_flags :: u16
  m_typeParameters :: "u32 list"
  m_parameters :: "param_info list"
  m_resultType :: type_ptr
  m_intrinsicOffset :: u32
  m_locs :: "loc list"

definition pickleMethod :: "method_sym \<Rightarrow> put" where
  "pickleMethod m = writes
     [pickleLoc (m_nameLoc m), wU4 (m_owner m), wU4 (m_name m), wU4 (m_rebind m),
      wU4 (ucast (serializeFlags 12 (m_flags m))),
      wSize (length (m_typeParameters m)), forEach (m_typeParameters m) wU4,
      wSize (length (m_parameters m)), forEach (m_parameters m) pickleParamInfo,
      pickleType (m_resultType m), wU4 (m_intrinsicOffset m),
      wSize (length (m_locs m)), forEach (m_locs m) pickleLoc]"

definition unpickleMethod :: "nat \<Rightarrow> method_sym get" where
  "unpickleMethod fuel =
     bindG unpickleLoc (\<lambda>nameLoc. bindG getU4 (\<lambda>owner. bindG getU4 (\<lambda>name. bindG getU4 (\<lambda>rebind.
     bindG getU4 (\<lambda>flags.
     bindG getCount (\<lambda>typeParamsSize. bindG (repeatG typeParamsSize getU4) (\<lambda>typeParams.
     bindG getCount (\<lambda>parametersSize. bindG (repeatG parametersSize (unpickleArgInfo fuel)) (\<lambda>params.
     bindG (unpickleType fuel) (\<lambda>resultType. bindG getU4 (\<lambda>intrinsicOffset.
     bindG getSize (\<lambda>locCount. bindG (repeatG locCount unpickleLoc) (\<lambda>locs.
       returnG \<lparr>m_nameLoc = nameLoc, m_owner = owner, m_name = name, m_rebind = rebind,
                m_flags = ucast flags, m_typeParameters = typeParams, m_parameters = params,
                m_resultType = resultType, m_intrinsicOffset = intrinsicOffset, m_locs = locs\<rparr>)))))))))))))"

text \<open>
  \<open>members\<close> is an unordered map: here an association list, in the order the map iterates.  It is written
  in the order of the keys and read back with \<open>members()[name] = sym\<close>.
\<close>

record class_or_module =
  c_packageRegistryOwner :: u32
  c_package :: u32
  c_owner :: u32
  c_name :: u32
  c_superClass :: u32
  c_flags :: u16
  c_mixins :: "u32 list"
  c_typeMembers :: "u32 list"
  c_members :: "(u32 \<times> u32) list"
  c_resultType :: type_ptr
  c_locs :: "loc list"

definition pickleMember :: "u32 \<times> u32 \<Rightarrow> put" where
  "pickleMember m = writes [wU4 (fst m), wU4 (snd m)]"

definition unpickleMember :: "(u32 \<times> u32) get" where
  "unpickleMember = bindG getU4 (\<lambda>name. bindG getU4 (\<lambda>sym. returnG (name, sym)))"

definition pickleClassOrModule :: "class_or_module \<Rightarrow> put" where
  "pickleClassOrModule c = writes
     [wU4 (c_packageRegistryOwner c), wU4 (c_package c), wU4 (c_owner c), wU4 (c_name c),
      wU4 (c_superClass c), wU4 (ucast (serializeFlags 12 (c_flags c))),
      wSize (length (c_mixins c)), forEach (c_mixins c) wU4,
      wSize (length (c_typeMembers c)), forEach (c_typeMembers c) wU4,
      wSize (length (c_members c)), forEach (sort_key fst (c_members c)) pickleMember,
      pickleType (c_resultType c), wSize (length (c_locs c)), forEach (c_locs c) pickleLoc]"

definition unpickleClassOrModule :: "nat \<Rightarrow> class_or_module get" where
  "unpickleClassOrModule fuel =
     bindG getU4 (\<lambda>pro. bindG getU4 (\<lambda>package. bindG getU4 (\<lambda>owner. bindG getU4 (\<lambda>name.
     bindG getU4 (\<lambda>superClass. bindG getU4 (\<lambda>flags.
     bindG getSize (\<lambda>mixinsSize. bindG (repeatG mixinsSize getU4) (\<lambda>mixins.
     bindG getSize (\<lambda>typeParamsSize. bindG (repeatG typeParamsSize getU4) (\<lambda>typeMembers.
     bindG getSize (\<lambda>membersSize. bindG (repeatG membersSize unpickleMember) (\<lambda>ms.
     bindG (unpickleType fuel) (\<lambda>resultType.
     bindG getSize (\<lambda>locCount. bindG (repeatG locCount unpickleLoc) (\<lambda>locs.
       returnG \<lparr>c_packageRegistryOwner = pro, c_package = package, c_owner = owner, c_name = name,
                c_superClass = superClass, c_flags = ucast flags, c_mixins = mixins,
                c_typeMembers = typeMembers,
                c_members = fold (\<lambda>(name, sym) members. AList.update name sym members) ms [],
                c_resultType = resultType, c_locs = locs\<rparr>)))))))))))))))"

record field =
  f_owner :: u32
  f_name :: u32
  f_flags :: u8
  f_resultType :: type_ptr
  f_locs :: "loc list"

definition pickleField :: "field \<Rightarrow> put" where
  "pickleField f = writes
     [wU4 (f_owner f), wU4 (f_name f), wU1 (serializeFlags 5 (f_flags f)), pickleType (f_resultType f),
      wSize (length (f_locs f)), forEach (f_locs f) pickleLoc]"

definition unpickleField :: "nat \<Rightarrow> field get" where
  "unpickleField fuel =
     bindG getU4 (\<lambda>owner. bindG getU4 (\<lambda>name. bindG getU1 (\<lambda>flags. bindG (unpickleType fuel) (\<lambda>resultType.
     bindG getSize (\<lambda>locCount. bindG (repeatG locCount unpickleLoc) (\<lambda>locs.
       returnG \<lparr>f_owner = owner, f_name = name, f_flags = flags, f_resultType = resultType,
                f_locs = locs\<rparr>))))))"

record type_parameter =
  tp_owner :: u32
  tp_name :: u32
  tp_flags :: u8
  tp_resultType :: type_ptr
  tp_locs :: "loc list"

definition pickleTypeParameter :: "type_parameter \<Rightarrow> put" where
  "pickleTypeParameter f = writes
     [wU4 (tp_owner f), wU4 (tp_name f), wU1 (serializeFlags 6 (tp_flags f)),
      pickleType (tp_resultType f), wSize (length (tp_locs f)), forEach (tp_locs f) pickleLoc]"

definition unpickleTypeParameter :: "nat \<Rightarrow> type_parameter get" where
  "unpickleTypeParameter fuel =
     bindG getU4 (\<lambda>owner. bindG getU4 (\<lambda>name. bindG getU1 (\<lambda>flags. bindG (unpickleType fuel) (\<lambda>resultType.
     bindG getSize (\<lambda>locCount. bindG (repeatG locCount unpickleLoc) (\<lambda>locs.
       returnG \<lparr>tp_owner = owner, tp_name = name, tp_flags = flags, tp_resultType = resultType,
                tp_locs = locs\<rparr>))))))"

subsection \<open>Symbols are read back in canonical form\<close>

lemma flags_roundtrip: "flags_setFromU1 (flags_toU1 f) = f"
  by (cases f) (simp add: flags_setFromU1_def flags_toU1_def split: if_splits)

lemma ucast_flags [simp]: "ucast (ucast (w :: u16) :: u32) = w"
  by (simp add: ucast_up_down)

definition type_fits :: "nat \<Rightarrow> type_ptr \<Rightarrow> bool" where
  "type_fits fuel t \<longleftrightarrow> wf_type t \<and> type_depth t < fuel"

definition wf_param :: "nat \<Rightarrow> param_info \<Rightarrow> bool" where
  "wf_param fuel a \<longleftrightarrow> type_fits fuel (pi_type a)"

definition wf_method :: "nat \<Rightarrow> method_sym \<Rightarrow> bool" where
  "wf_method fuel m \<longleftrightarrow> length (m_typeParameters m) < 2 ^ 31 \<and> length (m_parameters m) < 2 ^ 31
     \<and> length (m_locs m) < 2 ^ 31 \<and> list_all (wf_param fuel) (m_parameters m)
     \<and> type_fits fuel (m_resultType m)"

definition wf_class :: "nat \<Rightarrow> class_or_module \<Rightarrow> bool" where
  "wf_class fuel c \<longleftrightarrow> length (c_mixins c) < 2 ^ 31 \<and> length (c_typeMembers c) < 2 ^ 31
     \<and> length (c_members c) < 2 ^ 31 \<and> length (c_locs c) < 2 ^ 31
     \<and> distinct (map fst (c_members c)) \<and> type_fits fuel (c_resultType c)"

definition wf_field :: "nat \<Rightarrow> field \<Rightarrow> bool" where
  "wf_field fuel f \<longleftrightarrow> length (f_locs f) < 2 ^ 31 \<and> type_fits fuel (f_resultType f)"

definition wf_type_parameter :: "nat \<Rightarrow> type_parameter \<Rightarrow> bool" where
  "wf_type_parameter fuel f \<longleftrightarrow> length (tp_locs f) < 2 ^ 31 \<and> type_fits fuel (tp_resultType f)"

definition canonMethod :: "method_sym \<Rightarrow> method_sym" where
  "canonMethod m = m\<lparr>m_flags := serializeFlags 12 (m_flags m)\<rparr>"

definition canonClass :: "class_or_module \<Rightarrow> class_or_module" where
  "canonClass c = c\<lparr>c_flags := serializeFlags 12 (c_flags c), c_members := sort_key fst (c_members c)\<rparr>"

definition canonField :: "field \<Rightarrow> field" where
  "canonField f = f\<lparr>f_flags := serializeFlags 5 (f_flags f)\<rparr>"

definition canonTypeParameter :: "type_parameter \<Rightarrow> type_parameter" where
  "canonTypeParameter f = f\<lparr>tp_flags := serializeFlags 6 (tp_flags f)\<rparr>"

lemmas wf_symbol_defs = wf_param_def wf_method_def wf_class_def wf_field_def wf_type_parameter_def
lemmas canon_defs = canonMethod_def canonClass_def canonField_def canonTypeParameter_def

lemma agrees_fits: "type_fits n t \<Longrightarrow> agrees (pickleType t) (unpickleType n) t"
  by (simp add: type_fits_def agrees_Type)

lemma agrees_ParamInfo: "wf_param n a \<Longrightarrow> agrees (pickleParamInfo a) (unpickleArgInfo n) a"
  unfolding pickleParamInfo_def unpickleArgInfo_def wf_param_def
  by (rule agrees_rules agrees_Loc agrees_fits | simp add: flags_roundtrip)+

lemma agrees_Member: "agrees (pickleMember m) unpickleMember m"
  unfolding pickleMember_def unpickleMember_def by (rule agrees_rules | simp)+

lemmas agrees_symbol = agrees_rules agrees_Loc agrees_fits agrees_forEach

lemma agrees_Method: "wf_method n m \<Longrightarrow> agrees (pickleMethod m) (unpickleMethod n) (canonMethod m)"
  unfolding pickleMethod_def unpickleMethod_def wf_method_def
  by (rule agrees_symbol agrees_ParamInfo | simp add: list_all_iff canon_defs)+

lemma agrees_Field: "wf_field n f \<Longrightarrow> agrees (pickleField f) (unpickleField n) (canonField f)"
  unfolding pickleField_def unpickleField_def wf_field_def
  by (rule agrees_symbol | simp add: canon_defs)+

lemma agrees_TypeParameter:
  "wf_type_parameter n f \<Longrightarrow>
     agrees (pickleTypeParameter f) (unpickleTypeParameter n) (canonTypeParameter f)"
  unfolding pickleTypeParameter_def unpickleTypeParameter_def wf_type_parameter_def
  by (rule agrees_symbol | simp add: canon_defs)+

lemma update_append: "k \<notin> fst ` set al \<Longrightarrow> AList.update k v al = al @ [(k, v)]"
  by (induction al) auto

lemma fold_update_distinct:
  "distinct (map fst (acc @ ms)) \<Longrightarrow> fold (\<lambda>(k, v) m. AList.update k v m) ms acc = acc @ ms"
proof (induction ms arbitrary: acc)
  case Nil
  then show ?case by simp
next
  case (Cons kv ms)
  obtain k v where kv: "kv = (k, v)"
    by (cases kv)
  from Cons.prems kv have "AList.update k v acc = acc @ [(k, v)]"
    by (intro update_append) auto
  with Cons.IH [of "acc @ [(k, v)]"] Cons.prems kv show ?case
    by simp
qed

lemma agrees_ClassOrModule:
  assumes "wf_class n c"
  shows "agrees (pickleClassOrModule c) (unpickleClassOrModule n) (canonClass c)"
proof -
  let ?ms = "sort_key fst (c_members c)"
  have "distinct (map fst ?ms)"
    using assms by (simp add: wf_class_def distinct_map)
  then have "fold (\<lambda>(name, sym) members. AList.update name sym members) ?ms [] = ?ms"
    using fold_update_distinct [of "[]" ?ms] by simp
  moreover have "agrees (forEach ?ms pickleMember) (repeatG (length (c_members c)) unpickleMember) ?ms"
    using agrees_forEach [of ?ms pickleMember unpickleMember] agrees_Member by simp
  ultimately show ?thesis
    using assms unfolding pickleClassOrModule_def unpickleClassOrModule_def wf_class_def
    by - (rule agrees_symbol | assumption | simp add: canon_defs)+
qed

lemma map_of_canonClass:
  assumes "wf_class n c"
  shows "map_of (c_members (canonClass c)) = map_of (c_members c)"
proof -
  have "distinct (map fst (c_members c))"
    using assms by (simp add: wf_class_def)
  then have "map_of (sort_key fst (c_members c)) = map_of (c_members c)"
    by (subst map_of_inject_set) (simp_all add: distinct_map)
  then show ?thesis
    by (simp add: canonClass_def)
qed

lemma serializeFlags_idem [simp]: "serializeFlags k (serializeFlags k w) = serializeFlags k w"
  by (simp add: serializeFlags_def and.assoc)

interpretation symMethod: canonical_codec pickleMethod "unpickleMethod n" "wf_method n" canonMethod for n
  by unfold_locales
     (simp_all add: agrees_Method, simp_all add: pickleMethod_def wf_method_def canonMethod_def)

interpretation symField: canonical_codec pickleField "unpickleField n" "wf_field n" canonField for n
  by unfold_locales
     (simp_all add: agrees_Field, simp_all add: pickleField_def wf_field_def canonField_def)

interpretation symTypeParameter:
  canonical_codec pickleTypeParameter "unpickleTypeParameter n" "wf_type_parameter n" canonTypeParameter for n
  by unfold_locales (simp_all add: agrees_TypeParameter,
      simp_all add: pickleTypeParameter_def wf_type_parameter_def canonTypeParameter_def)

interpretation symClass:
  canonical_codec pickleClassOrModule "unpickleClassOrModule n" "wf_class n" canonClass for n
proof unfold_locales
  fix c
  assume wf: "wf_class n c"
  show "agrees (pickleClassOrModule c) (unpickleClassOrModule n) (canonClass c)"
    by (rule agrees_ClassOrModule [OF wf])
  have "sort_key fst (sort_key fst (c_members c)) = sort_key fst (c_members c)"
    by (rule sort_key_id_if_sorted) simp
  then show "pickleClassOrModule (canonClass c) = pickleClassOrModule c"
    by (simp add: pickleClassOrModule_def canonClass_def)
  show "wf_class n (canonClass c)"
    using wf by (simp add: wf_class_def canonClass_def distinct_map)
qed

section \<open>Properties\<close>

text \<open>The types \<open>pickle\<close> can write: no \<open>MetaType\<close> or \<open>SelfTypeParam\<close> in a position that is written.\<close>

fun storable :: "type_ptr \<Rightarrow> bool" where
  "storable (SelfTypeParam _) = False"
| "storable (MetaType _) = False"
| "storable (LambdaParam _ lo up) \<longleftrightarrow> storable lo \<and> storable up"
| "storable (OrType l r) \<longleftrightarrow> storable l \<and> storable r"
| "storable (AndType l r) \<longleftrightarrow> storable l \<and> storable r"
| "storable (ShapeType ks vs) \<longleftrightarrow> (\<forall>t \<in> set ks. storable t) \<and> (\<forall>t \<in> set vs. storable t)"
| "storable (TupleType es) \<longleftrightarrow> (\<forall>t \<in> set es. storable t)"
| "storable (AppliedType _ ts) \<longleftrightarrow> (\<forall>t \<in> set ts. storable t)"
| "storable _ = True"

definition puts :: "bool \<Rightarrow> put \<Rightarrow> bool" where
  "puts ok P \<longleftrightarrow> (\<forall>p. (ok \<longrightarrow> (\<exists>p'. P p = Inr p')) \<and> (\<not> ok \<longrightarrow> P p = Inl NotImplemented))"

lemma puts_then:
  assumes "puts ok P" and "puts ok' Q"
  shows "puts (ok \<and> ok') (\<lambda>p. case P p of Inl e \<Rightarrow> Inl e | Inr p' \<Rightarrow> Q p')"
proof (cases ok)
  case True
  have "\<exists>p'. P p = Inr p'" for p
    using assms(1) True by (simp add: puts_def)
  then obtain next_of where P: "\<And>p. P p = Inr (next_of p)"
    by metis
  with assms(2) True show ?thesis by (simp add: puts_def)
next
  case False
  with assms(1) show ?thesis by (simp add: puts_def)
qed

lemma puts_Nil: "puts True (writes [])"
  by (simp add: puts_def)

lemma puts_Cons: "puts ok P \<Longrightarrow> puts ok' (writes Ps) \<Longrightarrow> puts (ok \<and> ok') (writes (P # Ps))"
  unfolding writes_Cons_fun by (rule puts_then)

lemma puts_forEach:
  "(\<And>x. x \<in> set xs \<Longrightarrow> puts (ok x) (f x)) \<Longrightarrow> puts (\<forall>x \<in> set xs. ok x) (forEach xs f)"
proof (induction xs)
  case Nil
  then show ?case by (simp add: puts_def)
next
  case (Cons x xs)
  then show ?case
    using puts_then [of "ok x" "f x" "\<forall>x \<in> set xs. ok x" "forEach xs f"] by (simp add: forEach_Cons_fun)
qed

lemma puts_basic: "puts True (wU4 w)" "puts True (wU1 b)" "puts True (wS8 i)" "puts True (wSize n)"
  "puts False (raise NotImplemented)"
  by (simp_all add: puts_def wU4_def wU1_def wS8_def wSize_def raise_def)

lemma puts_eq: "puts ok P \<Longrightarrow> ok = ok' \<Longrightarrow> puts ok' P"
  by simp

lemma puts_type: "puts (storable t) (pickleType t)"
proof (induction t)
  case NullType
  then show ?case by (simp add: puts_basic)
qed (simp only: pickleType.simps type_tag.simps,
     rule puts_eq, (rule puts_Cons puts_Nil puts_basic puts_forEach | assumption)+, simp)+

text \<open>C34: \<open>SerializerImpl::pickle\<close> of a type raises exactly when a \<open>MetaType\<close> or a \<open>SelfTypeParam\<close> occurs in
  a position that is written, and writes every other type.\<close>

theorem pickleType_raises_iff:
  "(pickleType t p = Inl NotImplemented \<longleftrightarrow> \<not> storable t) \<and> (storable t \<longleftrightarrow> (\<exists>p'. pickleType t p = Inr p'))"
  using puts_type [of t] by (cases "storable t"; cases "pickleType t p") (auto simp: puts_def dest: spec [of _ p])

text \<open>C32: A type without unresolved, meta or self-type parts, of any depth, comes back unchanged from what
  \<open>pickle\<close> wrote, with fuel one more than its depth.\<close>

theorem type_roundtrip:
  "wf_type t \<Longrightarrow> \<exists>u'. unpickleType (Suc (type_depth t)) (mk_unpickler (bytes_of (pickleType t))) = Inr (t, u')"
  by (rule typePtr.roundtrip) simp

theorem type_roundtrip_witness:
  "wf_type (OrType (ClassType 5) (TupleType [SelfType, NullType])) \<and>
   (\<exists>u'. unpickleType 3 (mk_unpickler (bytes_of (pickleType (OrType (ClassType 5) (TupleType [SelfType, NullType])))))
      = Inr (OrType (ClassType 5) (TupleType [SelfType, NullType]), u'))"
  using type_roundtrip [of "OrType (ClassType 5) (TupleType [SelfType, NullType])"]
  by (simp add: numeral_3_eq_3)

lemma agrees_unresolved:
  "agrees (pickleType (UnresolvedClassType s ns)) (unpickleType (Suc n)) (ClassType 0)"
  "agrees (pickleType (UnresolvedAppliedType k ts)) (unpickleType (Suc n)) (ClassType 0)"
  by (simp, rule agrees_Cons [OF agrees_U4, of _ "unpickleTypeTag (unpickleType n)"],
      simp add: unpickleTypeTag_def untypedBlame_def, (rule agrees_rules refl)+)+

text \<open>An unresolved class or an unresolved application is not kept: whatever its scope, names and
  arguments, it is read back as the class type of the symbol with raw id 0.\<close>

lemma unresolved_types_are_lost:
  "(\<exists>u'. unpickleType (Suc n) (mk_unpickler (bytes_of (pickleType (UnresolvedClassType s ns)))) = Inr (ClassType 0, u'))
   \<and> (\<exists>u'. unpickleType (Suc n) (mk_unpickler (bytes_of (pickleType (UnresolvedAppliedType k ts)))) = Inr (ClassType 0, u'))"
  using agrees_finish(2) [OF agrees_unresolved(1)] agrees_finish(2) [OF agrees_unresolved(2)] by blast

text \<open>C29: A class or module symbol is read back with every field, its flags without the uninitialised
  bits, and the same member table, whatever order the unordered map iterated in.\<close>

theorem class_roundtrip:
  assumes "wf_class n c"
  shows "\<exists>c' u'. unpickleClassOrModule n (mk_unpickler (bytes_of (pickleClassOrModule c))) = Inr (c', u')
     \<and> map_of (c_members c') = map_of (c_members c)
     \<and> c'\<lparr>c_members := c_members c\<rparr> = c\<lparr>c_flags := serializeFlags 12 (c_flags c)\<rparr>"
proof -
  obtain u' where "unpickleClassOrModule n (mk_unpickler (bytes_of (pickleClassOrModule c))) = Inr (canonClass c, u')"
    using agrees_finish(2) [OF agrees_ClassOrModule [OF assms]] by blast
  moreover have "(canonClass c)\<lparr>c_members := c_members c\<rparr> = c\<lparr>c_flags := serializeFlags 12 (c_flags c)\<rparr>"
    by (simp add: canonClass_def)
  ultimately show ?thesis
    using map_of_canonClass [OF assms] by blast
qed

definition example_class :: "(u32 \<times> u32) list \<Rightarrow> class_or_module" where
  "example_class ms = \<lparr>c_packageRegistryOwner = 0, c_package = 0, c_owner = 1, c_name = 9, c_superClass = 4,
     c_flags = 65535, c_mixins = [7], c_typeMembers = [], c_members = ms, c_resultType = ClassType 3,
     c_locs = [\<lparr>fileRef = 1, offsets = \<lparr>beginLoc = 3, endLoc = 8\<rparr>\<rparr>]\<rparr>"

lemma wf_example_class: "length ms < 100 \<Longrightarrow> distinct (map fst ms) \<Longrightarrow> wf_class 1 (example_class ms)"
  by (simp add: wf_class_def example_class_def type_fits_def)

theorem class_roundtrip_witness:
  "wf_class 1 (example_class [(5, 1), (2, 6)]) \<and>
   (\<exists>c' u'. unpickleClassOrModule 1 (mk_unpickler (bytes_of (pickleClassOrModule (example_class [(5, 1), (2, 6)]))))
        = Inr (c', u') \<and> map_of (c_members c') 2 = Some 6 \<and> c_flags c' = 4095)"
proof -
  have wf: "wf_class 1 (example_class [(5, 1), (2, 6)])"
    by (rule wf_example_class) simp_all
  obtain c' u' where c': "unpickleClassOrModule 1 (mk_unpickler (bytes_of (pickleClassOrModule (example_class [(5, 1), (2, 6)])))) = Inr (c', u')"
    "map_of (c_members c') = map_of (c_members (example_class [(5, 1), (2, 6)]))"
    "c'\<lparr>c_members := [(5, 1), (2, 6)]\<rparr> = (example_class [(5, 1), (2, 6)])\<lparr>c_flags := serializeFlags 12 65535\<rparr>"
    using class_roundtrip [OF wf] by (auto simp: example_class_def)
  have "c_flags c' = c_flags (c'\<lparr>c_members := [(5, 1), (2, 6)]\<rparr>)"
    by simp
  also have "\<dots> = 4095"
    unfolding c'(3) by (simp add: serializeFlags_def)
  finally have "c_flags c' = 4095" .
  moreover have "map_of (c_members c') 2 = Some 6"
    using c'(2) by (simp add: example_class_def)
  ultimately show ?thesis
    using wf c'(1) by blast
qed

text \<open>C31: Two class symbols are written as the same bytes exactly when they agree up to uninitialised flag
  bits and the order of their members: the cached symbol table does not depend on hash-map iteration.\<close>

theorem class_encoding_canonical:
  assumes "wf_class n c" and "wf_class n c'"
  shows "bytes_of (pickleClassOrModule c) = bytes_of (pickleClassOrModule c') \<longleftrightarrow> canonClass c = canonClass c'"
  by (rule symClass.same_encoding [OF assms])

theorem class_encoding_canonical_witness:
  "bytes_of (pickleClassOrModule (example_class [(5, 1), (2, 6)]))
     = bytes_of (pickleClassOrModule (example_class [(2, 6), (5, 1)]))"
proof -
  have "canonClass (example_class [(5, 1), (2, 6)]) = canonClass (example_class [(2, 6), (5, 1)])"
    by (simp add: canonClass_def example_class_def)
  then show ?thesis
    using class_encoding_canonical [of 1 "example_class [(5, 1), (2, 6)]" "example_class [(2, 6), (5, 1)]"]
      wf_example_class [of "[(5, 1), (2, 6)]"] wf_example_class [of "[(2, 6), (5, 1)]"] by simp
qed

end
