(* ===== verification/NameTable.thy ===== *)
theory NameTable
  imports SymbolCodec "HOL-Library.Multiset"
begin

text \<open>
  The name table of \<open>GlobalState\<close>: three vectors of names (\<open>UTF8\<close>, \<open>CONSTANT\<close>, \<open>UNIQUE\<close>) and \<open>NameHash\<close>,
  an open-addressing hash table over them with triangular probing on a power-of-two number of buckets.
  The theory models the probe loop, the table's growth and the interning operations, and proves that
  the probe sequence covers the table, that interning keeps the table consistent and that a name is
  found exactly when it was entered.
\<close>

section \<open>Powers of two\<close>

definition nextPowerOfTwo :: "u32 \<Rightarrow> u32" where
  "nextPowerOfTwo v =
     (if v = 0 then 1
      else let v = v - 1;
               v = v OR drop_bit 1 v;
               v = v OR drop_bit 2 v;
               v = v OR drop_bit 4 v;
               v = v OR drop_bit 8 v;
               v = v OR drop_bit 16 v
           in v + 1)"

text \<open>After the five shifts a bit is set exactly when it or a higher bit was.\<close>

definition smears :: "nat \<Rightarrow> u32 \<Rightarrow> u32 \<Rightarrow> bool" where
  "smears k v w \<longleftrightarrow> (\<forall>n. bit w n \<longleftrightarrow> (\<exists>d < k. bit v (n + d)))"

lemma smears_refl: "smears 1 v v"
  by (simp add: smears_def)

lemma smears_step:
  assumes "smears k v w"
  shows "smears (2 * k) v (w OR drop_bit k w)"
proof -
  have "(\<exists>d < k. bit v (n + d)) \<or> (\<exists>d < k. bit v (k + n + d)) \<longleftrightarrow> (\<exists>d < 2 * k. bit v (n + d))" for n
  proof
    assume "(\<exists>d < k. bit v (n + d)) \<or> (\<exists>d < k. bit v (k + n + d))"
    then show "\<exists>d < 2 * k. bit v (n + d)"
    proof (elim disjE exE conjE)
      fix d assume "d < k" "bit v (n + d)"
      then show ?thesis by (intro exI [of _ d]) simp
    next
      fix d assume "d < k" "bit v (k + n + d)"
      then show ?thesis by (intro exI [of _ "k + d"]) (simp add: ac_simps)
    qed
  next
    assume "\<exists>d < 2 * k. bit v (n + d)"
    then obtain d where "d < 2 * k" "bit v (n + d)" by blast
    then show "(\<exists>d < k. bit v (n + d)) \<or> (\<exists>d < k. bit v (k + n + d))"
    proof (cases "d < k")
      case True
      with \<open>bit v (n + d)\<close> show ?thesis by blast
    next
      case False
      with \<open>d < 2 * k\<close> \<open>bit v (n + d)\<close> show ?thesis
        by (intro disjI2 exI [of _ "d - k"]) (simp add: ac_simps)
    qed
  qed
  with assms show ?thesis
    by (auto simp: smears_def bit_simps)
qed

lemma smears_32:
  fixes u :: u32
  defines "v1 \<equiv> u OR drop_bit 1 u"
  defines "v2 \<equiv> v1 OR drop_bit 2 v1"
  defines "v3 \<equiv> v2 OR drop_bit 4 v2"
  defines "v4 \<equiv> v3 OR drop_bit 8 v3"
  shows "smears 32 u (v4 OR drop_bit 16 v4)"
proof -
  have "smears 2 u v1"
    using smears_step [OF smears_refl [of u]] by (simp add: v1_def)
  from smears_step [OF this] have "smears 4 u v2" by (simp add: v2_def)
  from smears_step [OF this] have "smears 8 u v3" by (simp add: v3_def)
  from smears_step [OF this] have "smears 16 u v4" by (simp add: v4_def)
  from smears_step [OF this] show ?thesis by simp
qed

lemma smeared_mask:
  assumes "smears 32 v w" and "v \<noteq> 0"
  shows "\<exists>h < 32. w = mask (Suc h) \<and> 2 ^ h \<le> unat v \<and> unat v < 2 ^ Suc h"
proof -
  let ?S = "{n. bit v n}"
  have fin: "finite ?S" and sub: "?S \<subseteq> {..<32}"
    by (auto dest: bit_imp_le_length intro: finite_subset [of _ "{..<32}"])
  have ne: "?S \<noteq> {}"
    using assms(2) by (auto simp: bit_eq_iff)
  define h where "h = Max ?S"
  have hS: "bit v h" and top: "\<And>n. bit v n \<Longrightarrow> n \<le> h"
    using Max_in [OF fin ne] Max_ge [OF fin] by (auto simp: h_def)
  have h32: "h < 32"
    using hS sub by auto
  have "w = mask (Suc h)"
  proof (rule bit_word_eqI)
    fix n assume n: "n < LENGTH(32)"
    have "(\<exists>d < 32. bit v (n + d)) \<longleftrightarrow> n \<le> h"
    proof
      assume "n \<le> h"
      with hS h32 show "\<exists>d < 32. bit v (n + d)" by (intro exI [of _ "h - n"]) simp
    qed (auto dest: top)
    with assms(1) n show "bit w n \<longleftrightarrow> bit (mask (Suc h) :: u32) n"
      by (auto simp: smears_def bit_simps less_Suc_eq_le)
  qed
  moreover have "2 ^ h \<le> unat v"
  proof -
    have "bit (unat v) h"
      using hS h32 by (simp add: bit_unsigned_iff)
    then have "odd (unat v div 2 ^ h)"
      using bit_iff_odd by blast
    then have "unat v div 2 ^ h \<noteq> 0"
      by (metis even_zero)
    then show ?thesis
      by (simp add: div_eq_0_iff)
  qed
  moreover have "unat v < 2 ^ Suc h"
  proof -
    have "take_bit (Suc h) v = v"
      by (rule bit_word_eqI) (auto simp: bit_simps less_Suc_eq_le dest: top)
    then have "take_bit (Suc h) (unat v) = unat v"
      by (metis unsigned_take_bit_eq)
    then show ?thesis
      by (metis take_bit_nat_less_exp)
  qed
  ultimately show ?thesis
    using h32 by blast
qed

lemma nextPowerOfTwo_spec:
  assumes "unat v \<le> 2 ^ 31"
  shows "\<exists>k \<le> 31. unat (nextPowerOfTwo v) = 2 ^ k \<and> unat v \<le> 2 ^ k \<and> (k > 0 \<longrightarrow> 2 ^ (k - 1) < unat v)"
proof (cases "unat v \<le> 1")
  case True
  then have "v = 0 \<or> v = 1"
    by (metis One_nat_def le_Suc_eq le_zero_eq unat_1 unat_eq_zero word_unat_eq_iff)
  then have "unat (nextPowerOfTwo v) = 1"
    by (auto simp: nextPowerOfTwo_def Let_def)
  with True show ?thesis
    by (intro exI [of _ 0]) simp
next
  case False
  define u where "u = v - 1"
  have v0: "v \<noteq> 0" and uu: "unat u = unat v - 1"
    using False by (auto simp: u_def unat_sub_if' word_unat_eq_iff)
  define v1 where "v1 = u OR drop_bit 1 u"
  define v2 where "v2 = v1 OR drop_bit 2 v1"
  define v3 where "v3 = v2 OR drop_bit 4 v2"
  define v4 where "v4 = v3 OR drop_bit 8 v3"
  define w where "w = v4 OR drop_bit 16 v4"
  have "smears 32 u w"
    unfolding w_def v4_def v3_def v2_def v1_def by (rule smears_32)
  moreover have "u \<noteq> 0"
    using False uu by (auto simp: word_unat_eq_iff)
  ultimately obtain h where h: "h < 32" "w = mask (Suc h)" "2 ^ h \<le> unat u" "unat u < 2 ^ Suc h"
    using smeared_mask by blast
  have "h < 31"
  proof (rule ccontr)
    assume "\<not> h < 31"
    with h(1) have "h = 31" by simp
    with h(3) uu assms False show False by simp
  qed
  have "unat (w + 1) = 2 ^ Suc h"
  proof -
    have "w + 1 = of_nat (2 ^ Suc h)"
      using h(2) by (simp add: mask_eq_exp_minus_1)
    moreover have "(2 :: nat) ^ Suc h < 2 ^ 32"
      using \<open>h < 31\<close> by (intro power_strict_increasing) auto
    ultimately show ?thesis
      by (simp only: unat_of_nat_u32)
  qed
  moreover have "nextPowerOfTwo v = w + 1"
    using v0 by (simp only: nextPowerOfTwo_def Let_def if_False w_def v4_def v3_def v2_def v1_def u_def)
  ultimately show ?thesis
    using h \<open>h < 31\<close> uu False by (intro exI [of _ "Suc h"]) auto
qed

section \<open>The probe sequence\<close>

definition probe :: "nat \<Rightarrow> nat \<Rightarrow> nat \<Rightarrow> nat" where
  "probe k h i = (h + i * (i + 1) div 2) mod 2 ^ k"

lemma triangle_Suc: "Suc i * (Suc i + 1) div 2 = i * (i + 1) div 2 + Suc i"
proof -
  have "Suc i * (Suc i + 1) = i * (i + 1) + 2 * Suc i"
    by simp
  then show ?thesis
    by (metis div_mult_self2 zero_neq_numeral add.commute)
qed

lemma probe_0 [simp]: "probe k h 0 = h mod 2 ^ k"
  by (simp add: probe_def)

lemma probe_Suc: "probe k h (Suc i) = (probe k h i + Suc i) mod 2 ^ k"
  by (simp only: probe_def triangle_Suc mod_add_left_eq add.assoc)

lemma probe_less [simp]: "probe k h i < 2 ^ k"
  by (simp add: probe_def)

lemma probe_inj:
  assumes "i < j" and "j < 2 ^ k"
  shows "probe k h i \<noteq> probe k h j"
proof
  assume "probe k h i = probe k h j"
  define t :: "nat \<Rightarrow> int" where "t n = int (n * (n + 1) div 2)" for n
  have t2: "2 * t n = int n * (int n + 1)" for n
    by (simp add: t_def zdiv_int algebra_simps)
  have "int (probe k h i) = int (probe k h j)"
    using \<open>probe k h i = probe k h j\<close> by simp
  then have "(int h + t i) mod 2 ^ k = (int h + t j) mod 2 ^ k"
    unfolding probe_def t_def by (simp only: of_nat_mod of_nat_add of_nat_power of_nat_numeral)
  then have "(2 :: int) ^ k dvd (int h + t j) - (int h + t i)"
    by (simp only: mod_eq_dvd_iff [symmetric])
  then have "(2 :: int) ^ k dvd t j - t i"
    by simp
  then have "2 * (2 :: int) ^ k dvd 2 * (t j - t i)"
    by (rule mult_dvd_mono [OF dvd_refl])
  moreover have "2 * (t j - t i) = (int j - int i) * (int i + int j + 1)"
    using t2 [of i] t2 [of j] by (simp add: algebra_simps)
  ultimately have dvd: "(2 :: int) ^ Suc k dvd (int j - int i) * (int i + int j + 1)"
    by simp
  have "int j < int (2 ^ k)"
    using assms(2) by (simp only: of_nat_less_iff)
  then have jk: "int j < 2 ^ k"
    by simp
  have coprime_odd: "coprime ((2 :: int) ^ Suc k) x" if "odd x" for x
    using that by (simp add: coprime_power_left_iff)
  show False
  proof (cases "odd (int j - int i)")
    case True
    then have "(2 :: int) ^ Suc k dvd int i + int j + 1"
      using dvd coprime_odd by (simp add: coprime_dvd_mult_right_iff)
    then have "(2 :: int) ^ Suc k \<le> int i + int j + 1"
      by (rule zdvd_imp_le) simp
    moreover have "int i + int j + 1 < 2 * 2 ^ k"
      using assms(1) jk by linarith
    ultimately show False by simp
  next
    case False
    then have "odd (int i + int j + 1)"
      by simp
    then have "(2 :: int) ^ Suc k dvd int j - int i"
      using dvd coprime_odd by (simp add: coprime_dvd_mult_left_iff)
    then have "(2 :: int) ^ Suc k \<le> int j - int i"
      using assms by (intro zdvd_imp_le) auto
    with jk show False
      unfolding power_Suc by linarith
  qed
qed

text \<open>The first \<open>2^k\<close> probes visit every bucket.\<close>

lemma probe_surj:
  assumes "t < 2 ^ k"
  shows "\<exists>i < 2 ^ k. probe k h i = t"
proof -
  have "inj_on (probe k h) {..<2 ^ k}"
    by (rule linorder_inj_onI) (use probe_inj in auto)
  then have "card (probe k h ` {..<2 ^ k}) = card {..<(2 :: nat) ^ k}"
    by (rule card_image)
  then have "probe k h ` {..<2 ^ k} = {..<2 ^ k}"
    by (intro card_subset_eq) auto
  with assms show ?thesis
    by (metis imageE lessThan_iff)
qed

section \<open>Buckets\<close>

record bucket =
  bk_hash :: u32
  bk_rawId :: u32

definition emptyBucket :: bucket where
  "emptyBucket = \<lparr>bk_hash = 0, bk_rawId = 0\<rparr>"

definition present :: "bucket \<Rightarrow> bool" where
  "present b \<longleftrightarrow> bk_rawId b \<noteq> 0"

datatype name_error =
    FullTable \<comment> \<open>\<open>Exception::raise("Full table?")\<close>\<close>
  | Diverges \<comment> \<open>the probe loop visits the whole table again and again\<close>
  | NoBuckets \<comment> \<open>an access outside \<open>buckets_\<close>\<close>
  | TableFrozen \<comment> \<open>\<open>ENFORCE_NO_TIMER(!nameTableFrozen)\<close>\<close>
  | MissingName \<comment> \<open>\<open>ENFORCE_NO_TIMER(original.exists())\<close>\<close>
  | InvalidConstant \<comment> \<open>\<open>ENFORCE_NO_TIMER(original.isValidConstantName(*this))\<close>\<close>
  | NameOverflow \<comment> \<open>\<open>ENFORCE_NO_TIMER(num > 0)\<close>\<close>

text \<open>
  The \<open>while\<close> loop of \<open>lookupBucket\<close>.  It stops at an absent bucket or at one with the hash whose name
  satisfies the predicate.  \<open>fuel\<close> counts the probes; as many probes as buckets visit the whole table,
  so a loop that needs more never stops.
\<close>

fun probeLoop :: "nat \<Rightarrow> bucket list \<Rightarrow> (u32 \<Rightarrow> bool) \<Rightarrow> u32 \<Rightarrow> u32 \<Rightarrow> u32 \<Rightarrow> (u32 \<times> u32) option" where
  "probeLoop 0 buckets pred hash bucketId probeCount = None"
| "probeLoop (Suc fuel) buckets pred hash bucketId probeCount =
     (let b = buckets ! unat bucketId
      in if present b \<and> \<not> (bk_hash b = hash \<and> pred (bk_rawId b))
         then probeLoop fuel buckets pred hash
                ((bucketId + probeCount) AND (of_nat (length buckets) - 1)) (probeCount + 1)
         else Some (bucketId, probeCount))"

definition lookupBucket :: "bucket list \<Rightarrow> u32 \<Rightarrow> (u32 \<Rightarrow> bool) \<Rightarrow> (name_error, nat) result" where
  "lookupBucket buckets hash pred =
     (let hashTableSize = of_nat (length buckets) :: u32;
          mask = hashTableSize - 1
      in if length buckets = 0 then Inl NoBuckets
         else case probeLoop (length buckets) buckets pred hash (hash AND mask) 1 of
                None \<Rightarrow> Inl Diverges
              | Some (bucketId, probeCount) \<Rightarrow>
                  if probeCount = hashTableSize then Inl FullTable else Inr (unat bucketId))"

subsection \<open>The loop as a search along the probe sequence\<close>

definition stops :: "bucket list \<Rightarrow> (u32 \<Rightarrow> bool) \<Rightarrow> u32 \<Rightarrow> nat \<Rightarrow> bool" where
  "stops buckets pred hash t \<longleftrightarrow>
     \<not> present (buckets ! t) \<or> bk_hash (buckets ! t) = hash \<and> pred (bk_rawId (buckets ! t))"

definition sized :: "nat \<Rightarrow> bucket list \<Rightarrow> bool" where
  "sized k buckets \<longleftrightarrow> length buckets = 2 ^ k \<and> k < 32"

lemma sized_less: "sized k bs \<Longrightarrow> length bs < 2 ^ 32"
  using power_strict_increasing [of k 32 "2 :: nat"] by (auto simp: sized_def)

lemma and_mask_of_nat:
  assumes "k < 32"
  shows "(of_nat m :: u32) AND (of_nat (2 ^ k) - 1) = of_nat (m mod 2 ^ k)"
  by (simp flip: mask_eq_exp_minus_1 take_bit_eq_mask add: take_bit_of_nat take_bit_nat_def)

lemma unat_probe: "k < 32 \<Longrightarrow> unat (of_nat (probe k h i) :: u32) = probe k h i"
  by (rule unat_of_nat_u32) (rule less_trans [OF probe_less power_strict_increasing], auto)

lemma probeLoop_find:
  assumes "sized k bs"
  shows "probeLoop n bs pred hash (of_nat (probe k h i)) (of_nat (Suc i))
    = map_option (\<lambda>j. (of_nat (probe k h j), of_nat (Suc j)))
        (find (\<lambda>j. stops bs pred hash (probe k h j)) [i..<i + n])"
proof (induction n arbitrary: i)
  case 0
  then show ?case by simp
next
  case (Suc n)
  have k: "k < 32" and len: "length bs = 2 ^ k"
    using assms by (auto simp: sized_def)
  have "(of_nat (probe k h i) + of_nat (Suc i)) AND (of_nat (length bs) - 1)
      = (of_nat (probe k h (Suc i)) :: u32)"
    using and_mask_of_nat [OF k, of "probe k h i + Suc i"] by (simp only: len probe_Suc of_nat_add)
  moreover have "(of_nat (Suc i) + 1 :: u32) = of_nat (Suc (Suc i))"
    by simp
  moreover have "[i..<i + Suc n] = i # [Suc i..<Suc i + n]"
    by (simp add: upt_conv_Cons)
  ultimately show ?case
    using Suc.IH [of "Suc i"] unat_probe [OF k]
    by (simp only: probeLoop.simps(2) Let_def find.simps) (auto simp: stops_def)
qed

lemma lookupBucket_find:
  assumes "sized k bs"
  shows "lookupBucket bs hash pred =
    (case find (\<lambda>j. stops bs pred hash (probe k (unat hash) j)) [0..<2 ^ k] of
       None \<Rightarrow> Inl Diverges
     | Some j \<Rightarrow> if Suc j = 2 ^ k then Inl FullTable else Inr (probe k (unat hash) j))"
proof -
  have k: "k < 32" and len: "length bs = 2 ^ k"
    using assms by (auto simp: sized_def)
  have "hash AND (of_nat (length bs) - 1) = of_nat (probe k (unat hash) 0)"
    using and_mask_of_nat [OF k, of "unat hash"] by (simp add: len)
  moreover have "(1 :: u32) = of_nat (Suc 0)"
    by simp
  ultimately have loop: "probeLoop (length bs) bs pred hash (hash AND (of_nat (length bs) - 1)) 1
    = map_option (\<lambda>j. (of_nat (probe k (unat hash) j), of_nat (Suc j)))
        (find (\<lambda>j. stops bs pred hash (probe k (unat hash) j)) [0..<2 ^ k])"
    using probeLoop_find [OF assms, of "length bs" pred hash "unat hash" 0] by (simp only: len add_0)
  have size_eq: "(of_nat (Suc j) :: u32) = of_nat (length bs) \<longleftrightarrow> Suc j = 2 ^ k" if "j < 2 ^ k" for j
  proof -
    have "Suc j < 2 ^ 32" "length bs < 2 ^ 32"
      using that sized_less [OF assms] len by linarith+
    then show ?thesis
      by (simp only: word_unat_eq_iff unat_of_nat_u32 len)
  qed
  show ?thesis
  proof (cases "find (\<lambda>j. stops bs pred hash (probe k (unat hash) j)) [0..<2 ^ k]")
    case None
    with len show ?thesis
      unfolding lookupBucket_def Let_def loop by simp
  next
    case (Some j)
    then have "j < 2 ^ k"
      by (auto simp: find_Some_iff)
    with Some size_eq len unat_probe [OF k] show ?thesis
      unfolding lookupBucket_def Let_def loop by (simp del: of_nat_Suc)
  qed
qed

subsection \<open>Chained tables\<close>

text \<open>
  The invariant of open addressing: every bucket the probe sequence of an entry passes before it
  reaches the entry is occupied.
\<close>

definition reaches :: "nat \<Rightarrow> bucket list \<Rightarrow> u32 \<Rightarrow> nat \<Rightarrow> bool" where
  "reaches k bs hash t \<longleftrightarrow>
     (\<exists>i < 2 ^ k. t = probe k (unat hash) i \<and> (\<forall>j < i. present (bs ! probe k (unat hash) j)))"

definition chained :: "nat \<Rightarrow> bucket list \<Rightarrow> bool" where
  "chained k bs \<longleftrightarrow> (\<forall>t < length bs. present (bs ! t) \<longrightarrow> reaches k bs (bk_hash (bs ! t)) t)"

definition occupied :: "bucket list \<Rightarrow> bucket multiset" where
  "occupied bs = filter_mset present (mset bs)"

lemma find_first:
  assumes "i < n" and "P i"
  shows "\<exists>j \<le> i. find P [0..<n] = Some j \<and> P j \<and> (\<forall>m < j. \<not> P m)"
proof -
  define j where "j = (LEAST j. P j)"
  have "P j" "j \<le> i" "\<forall>m < j. \<not> P m"
    using assms by (auto simp: j_def intro: LeastI Least_le dest: not_less_Least)
  moreover from this assms(1) have "find P [0..<n] = Some j"
    by (auto simp: find_Some_iff intro!: exI [of _ j])
  ultimately show ?thesis by blast
qed

lemma card_present: "card {t. t < length bs \<and> present (bs ! t)} = size (occupied bs)"
proof -
  have "size (occupied bs) = length (filter present bs)"
    by (simp add: occupied_def flip: mset_filter)
  then show ?thesis
    by (simp add: length_filter_conv_card)
qed

text \<open>A run of occupied probes is no longer than the number of entries.\<close>

lemma run_bound:
  assumes "sized k bs" and "n \<le> 2 ^ k" and "\<forall>j < n. present (bs ! probe k h j)"
  shows "n \<le> size (occupied bs)"
proof -
  have "inj_on (probe k h) {..<n}"
    by (rule linorder_inj_onI) (use probe_inj assms(2) in auto)
  then have "n = card (probe k h ` {..<n})"
    by (simp add: card_image)
  also have "\<dots> \<le> card {t. t < length bs \<and> present (bs ! t)}"
    using assms by (intro card_mono) (auto simp: sized_def)
  finally show ?thesis
    by (simp only: card_present)
qed

lemma exists_empty:
  assumes "sized k bs" and "size (occupied bs) < 2 ^ k"
  shows "\<exists>i < 2 ^ k. \<not> present (bs ! probe k h i)"
  using run_bound [OF assms(1) order_refl, of h] assms(2) by auto

text \<open>With two buckets to spare the lookup returns: the first bucket on the probe sequence that stops it.\<close>

lemma lookupBucket_stops:
  assumes sz: "sized k bs" and room: "Suc (size (occupied bs)) < 2 ^ k"
  shows "\<exists>t. lookupBucket bs hash pred = Inr t \<and> t < length bs \<and> stops bs pred hash t
     \<and> reaches k bs hash t
     \<and> (\<forall>i. reaches k bs hash (probe k (unat hash) i) \<longrightarrow> i < 2 ^ k \<longrightarrow>
            stops bs pred hash (probe k (unat hash) i) \<longrightarrow> present (bs ! t) \<or> t = probe k (unat hash) i)"
proof -
  let ?p = "probe k (unat hash)"
  obtain i where "i < 2 ^ k" "\<not> present (bs ! ?p i)"
    using exists_empty [OF sz] room by (meson Suc_lessD)
  then have "i < 2 ^ k" "stops bs pred hash (?p i)"
    by (auto simp: stops_def)
  from find_first [where P = "\<lambda>j. stops bs pred hash (?p j)", OF this] obtain j where
    "j \<le> i" and found: "find (\<lambda>j. stops bs pred hash (?p j)) [0..<2 ^ k] = Some j"
    and stop: "stops bs pred hash (?p j)" and before: "\<forall>m < j. \<not> stops bs pred hash (?p m)"
    by auto
  have jk: "j < 2 ^ k"
    using \<open>j \<le> i\<close> \<open>i < 2 ^ k\<close> by simp
  have run: "\<forall>m < j. present (bs ! ?p m)"
    using before by (auto simp: stops_def)
  then have "j \<le> size (occupied bs)"
    using run_bound [OF sz] jk by (simp add: less_imp_le)
  with room found have "lookupBucket bs hash pred = Inr (?p j)"
    unfolding lookupBucket_find [OF sz] by simp
  moreover have "?p j < length bs"
    using sz by (simp add: sized_def)
  moreover have "reaches k bs hash (?p j)"
    using jk run by (auto simp: reaches_def)
  moreover have "present (bs ! ?p j) \<or> ?p j = ?p m"
    if "reaches k bs hash (?p m)" "m < 2 ^ k" "stops bs pred hash (?p m)" for m
  proof (rule ccontr)
    assume contra: "\<not> (present (bs ! ?p j) \<or> ?p j = ?p m)"
    from that obtain i' where i': "i' < 2 ^ k" "?p m = ?p i'" "\<forall>j' < i'. present (bs ! ?p j')"
      by (auto simp: reaches_def)
    have "i' = m"
      using probe_inj i'(1,2) that(2) by (metis nat_neq_iff)
    moreover have "j \<le> m"
      using before that(3) by (meson linorder_not_less)
    ultimately show False
      using i' contra by (metis le_neq_implies_less)
  qed
  ultimately show ?thesis
    using stop by blast
qed

lemma lookupBucket_absent:
  assumes "sized k bs" and "Suc (size (occupied bs)) < 2 ^ k"
    and "\<And>b. b \<in># occupied bs \<Longrightarrow> bk_hash b = hash \<Longrightarrow> \<not> pred (bk_rawId b)"
  shows "\<exists>t. lookupBucket bs hash pred = Inr t \<and> t < length bs \<and> \<not> present (bs ! t) \<and> reaches k bs hash t"
proof -
  obtain t where t: "lookupBucket bs hash pred = Inr t" "t < length bs" "stops bs pred hash t"
    "reaches k bs hash t"
    using lookupBucket_stops [OF assms(1,2)] by blast
  moreover have "\<not> present (bs ! t)"
    using assms(3) [of "bs ! t"] t(2,3) by (auto simp: stops_def occupied_def)
  ultimately show ?thesis by blast
qed

lemma lookupBucket_found:
  assumes sz: "sized k bs" and room: "Suc (size (occupied bs)) < 2 ^ k" and ch: "chained k bs"
    and b: "b \<in># occupied bs" "bk_hash b = hash" "pred (bk_rawId b)"
    and uniq: "\<And>b'. b' \<in># occupied bs \<Longrightarrow> bk_hash b' = hash \<Longrightarrow> pred (bk_rawId b') \<Longrightarrow> b' = b"
  shows "\<exists>t. lookupBucket bs hash pred = Inr t \<and> t < length bs \<and> bs ! t = b \<and> present (bs ! t)"
proof -
  from b(1) obtain s where s: "s < length bs" "bs ! s = b" "present b"
    by (auto simp: occupied_def in_set_conv_nth)
  then have rs: "reaches k bs hash s"
    using ch b(2) by (auto simp: chained_def)
  then obtain i where i: "i < 2 ^ k" "s = probe k (unat hash) i"
    by (auto simp: reaches_def)
  have "stops bs pred hash s"
    using s b by (simp add: stops_def)
  with lookupBucket_stops [OF sz room, of hash pred] rs i s obtain t where
    t: "lookupBucket bs hash pred = Inr t" "t < length bs" "stops bs pred hash t" "present (bs ! t)"
    by blast
  then have "bs ! t = b"
    by (intro uniq) (auto simp: stops_def occupied_def)
  with t show ?thesis by blast
qed

subsection \<open>Filling a bucket\<close>

lemma reaches_update:
  assumes "reaches k bs hash s" and "present b" and "t < length bs"
  shows "reaches k (bs[t := b]) hash s"
  using assms unfolding reaches_def by (metis nth_list_update_eq nth_list_update_neq)

lemma occupied_update:
  assumes "t < length bs" and "\<not> present (bs ! t)" and "present b"
  shows "occupied (bs[t := b]) = add_mset b (occupied bs)"
  using assms by (simp add: occupied_def mset_update)

lemma chained_update:
  assumes "chained k bs" and "t < length bs" and "present b" and "reaches k bs (bk_hash b) t"
  shows "chained k (bs[t := b])"
  using assms unfolding chained_def by (metis length_list_update nth_list_update_eq nth_list_update_neq reaches_update)

section \<open>Growing the table\<close>

text \<open>
  \<open>moveNames\<close> reinserts every present bucket into the new table, at the first absent bucket of its
  probe sequence; its loop has no check for a full table.
\<close>

definition moveBucket :: "bucket \<Rightarrow> bucket list \<Rightarrow> (name_error, bucket list) result" where
  "moveBucket b to =
     (if bk_rawId b = 0 then Inr to
      else if length to = 0 then Inl NoBuckets
      else case probeLoop (length to) to (\<lambda>_. False) (bk_hash b) (bk_hash b AND (of_nat (length to) - 1)) 1 of
             None \<Rightarrow> Inl Diverges
           | Some (bucketId, _) \<Rightarrow> Inr (to[unat bucketId := b]))"

fun moveNames :: "bucket list \<Rightarrow> bucket list \<Rightarrow> (name_error, bucket list) result" where
  "moveNames [] to = Inr to"
| "moveNames (b # from) to =
     (case moveBucket b to of Inl e \<Rightarrow> Inl e | Inr to' \<Rightarrow> moveNames from to')"

definition NameHash_expandNames ::
  "u32 \<Rightarrow> u32 \<Rightarrow> u32 \<Rightarrow> bucket list \<Rightarrow> (name_error, bucket list) result" where
  "NameHash_expandNames utf8NameSize constantNameSize uniqueNameSize buckets =
     (let hashTableSize = 2 * nextPowerOfTwo (utf8NameSize + constantNameSize + uniqueNameSize)
      in if length buckets < unat hashTableSize
         then moveNames buckets (replicate (unat hashTableSize) emptyBucket)
         else Inr buckets)"

lemma moveBucket_lookup:
  assumes "sized k to" and "present b" and "lookupBucket to (bk_hash b) (\<lambda>_. False) = Inr t"
  shows "moveBucket b to = Inr (to[t := b])"
  using assms by (auto simp: moveBucket_def lookupBucket_def present_def Let_def split: option.splits if_splits)

lemma moveNames_correct:
  assumes "sized k to" and "chained k to"
    and "Suc (size (occupied from) + size (occupied to)) < 2 ^ k"
  shows "\<exists>to'. moveNames from to = Inr to' \<and> sized k to' \<and> chained k to'
     \<and> occupied to' = occupied from + occupied to"
  using assms
proof (induction "from" arbitrary: to)
  case Nil
  then show ?case by (simp add: occupied_def)
next
  case (Cons b "from")
  show ?case
  proof (cases "present b")
    case False
    then have "moveBucket b to = Inr to" "occupied (b # from) = occupied from"
      by (simp_all add: moveBucket_def present_def occupied_def)
    with Cons show ?thesis by simp
  next
    case True
    then have occ: "occupied (b # from) = add_mset b (occupied from)"
      by (simp add: occupied_def)
    with Cons.prems obtain t where
      t: "lookupBucket to (bk_hash b) (\<lambda>_. False) = Inr t" "t < length to" "\<not> present (to ! t)"
      "reaches k to (bk_hash b) t"
      using lookupBucket_absent [of k to "bk_hash b" "\<lambda>_. False"] by auto
    have move: "moveBucket b to = Inr (to[t := b])"
      by (rule moveBucket_lookup [OF Cons.prems(1) True t(1)])
    have occ': "occupied (to[t := b]) = add_mset b (occupied to)"
      by (rule occupied_update [OF t(2,3) True])
    have "sized k (to[t := b])" "chained k (to[t := b])"
      using Cons.prems t True by (auto simp: sized_def intro: chained_update)
    from Cons.IH [OF this] Cons.prems(3) move occ occ' show ?thesis
      by auto
  qed
qed

section \<open>Names\<close>

text \<open>\<open>NameRef\<close>: the kind (\<open>UTF8 = 1\<close>, \<open>UNIQUE = 2\<close>, \<open>CONSTANT = 3\<close>) in the low two bits, the index above.\<close>

definition UTF8 :: u32 where "UTF8 = 1"
definition UNIQUE :: u32 where "UNIQUE = 2"
definition CONSTANT :: u32 where "CONSTANT = 3"

lemmas kind_defs = UTF8_def UNIQUE_def CONSTANT_def

definition mkNameRef :: "u32 \<Rightarrow> nat \<Rightarrow> u32" where
  "mkNameRef kind i = push_bit 2 (of_nat i) OR kind"

definition nameKind :: "u32 \<Rightarrow> u32" where
  "nameKind r = r AND 3"

definition nameIndex :: "u32 \<Rightarrow> nat" where
  "nameIndex r = unat (drop_bit 2 r)"

definition mix :: "u32 \<Rightarrow> u32 \<Rightarrow> u32" where
  "mix acc nw = nw + push_bit 6 acc + push_bit 16 acc - acc"

text \<open>\<open>_hash\<close> is \<open>XXH32\<close>, a parameter \<open>xxh\<close> here.\<close>

definition hashMixUTF8 :: "(string \<Rightarrow> u32) \<Rightarrow> string \<Rightarrow> u32" where
  "hashMixUTF8 xxh nm = xxh nm"

definition hashMixUnique :: "u8 \<Rightarrow> u32 \<Rightarrow> u32 \<Rightarrow> u32" where
  "hashMixUnique unk num rawId = mix (mix num (ucast unk)) rawId * 31 + UNIQUE"

definition hashMixConstant :: "u32 \<Rightarrow> u32" where
  "hashMixConstant i = i * 31 + CONSTANT"

record name_table =
  utf8Names :: "string list"
  constantNames :: "u32 list"
  uniqueNames :: "unique_name list"
  utf8Capacity :: nat
  constantCapacity :: nat
  uniqueCapacity :: nat
  namesByHash :: "bucket list"
  nameTableFrozen :: bool

definition isUtf8 :: "name_table \<Rightarrow> string \<Rightarrow> u32 \<Rightarrow> bool" where
  "isUtf8 nt nm r \<longleftrightarrow> nameKind r = UTF8 \<and> nameIndex r < length (utf8Names nt)
     \<and> utf8Names nt ! nameIndex r = nm"

definition isConstant :: "name_table \<Rightarrow> u32 \<Rightarrow> u32 \<Rightarrow> bool" where
  "isConstant nt original r \<longleftrightarrow> nameKind r = CONSTANT \<and> nameIndex r < length (constantNames nt)
     \<and> constantNames nt ! nameIndex r = original"

definition isUnique :: "name_table \<Rightarrow> unique_name \<Rightarrow> u32 \<Rightarrow> bool" where
  "isUnique nt u r \<longleftrightarrow> nameKind r = UNIQUE \<and> nameIndex r < length (uniqueNames nt)
     \<and> uniqueNames nt ! nameIndex r = u"

definition isValidConstantName :: "name_table \<Rightarrow> u32 \<Rightarrow> bool" where
  "isValidConstantName nt r \<longleftrightarrow> nameKind r = UTF8
     \<or> nameKind r = UNIQUE \<and> nameIndex r < length (uniqueNames nt)
        \<and> un_kind (uniqueNames nt ! nameIndex r) \<in> {8, 9, 10, 11}"

definition lookupName :: "name_table \<Rightarrow> u32 \<Rightarrow> (u32 \<Rightarrow> bool) \<Rightarrow> (name_error, u32) result" where
  "lookupName nt hash pred =
     (case lookupBucket (namesByHash nt) hash pred of Inl e \<Rightarrow> Inl e
      | Inr t \<Rightarrow> if present (namesByHash nt ! t) then Inr (bk_rawId (namesByHash nt ! t)) else Inr 0)"

definition lookupNameUTF8 :: "(string \<Rightarrow> u32) \<Rightarrow> string \<Rightarrow> name_table \<Rightarrow> (name_error, u32) result" where
  "lookupNameUTF8 xxh nm nt = lookupName nt (hashMixUTF8 xxh nm) (isUtf8 nt nm)"

definition lookupNameConstant :: "u32 \<Rightarrow> name_table \<Rightarrow> (name_error, u32) result" where
  "lookupNameConstant original nt = lookupName nt (hashMixConstant original) (isConstant nt original)"

definition lookupNameConstantStr :: "(string \<Rightarrow> u32) \<Rightarrow> string \<Rightarrow> name_table \<Rightarrow> (name_error, u32) result" where
  "lookupNameConstantStr xxh original nt =
     (case lookupNameUTF8 xxh original nt of Inl e \<Rightarrow> Inl e
      | Inr utf8 \<Rightarrow> if utf8 = 0 then Inr 0 else lookupNameConstant utf8 nt)"

definition lookupNameUnique :: "unique_name \<Rightarrow> name_table \<Rightarrow> (name_error, u32) result" where
  "lookupNameUnique u nt =
     (if un_num u = 0 then Inl NameOverflow
      else lookupName nt (hashMixUnique (un_kind u) (un_num u) (un_original u)) (isUnique nt u))"

definition expandNames :: "nat \<Rightarrow> nat \<Rightarrow> nat \<Rightarrow> name_table \<Rightarrow> (name_error, name_table) result" where
  "expandNames utf8NameSize constantNameSize uniqueNameSize nt =
     (case NameHash_expandNames (of_nat utf8NameSize) (of_nat constantNameSize) (of_nat uniqueNameSize)
             (namesByHash nt) of
        Inl e \<Rightarrow> Inl e
      | Inr buckets \<Rightarrow> Inr (nt\<lparr>utf8Capacity := max (utf8Capacity nt) utf8NameSize,
          constantCapacity := max (constantCapacity nt) constantNameSize,
          uniqueCapacity := max (uniqueCapacity nt) uniqueNameSize,
          namesByHash := buckets\<rparr>))"

text \<open>
  The part the three entering functions share: look the name up; if its bucket is absent, grow the
  table when the vector is full (and find the bucket again), and write the new reference into it.
\<close>

definition slotFor ::
  "bool \<Rightarrow> nat \<times> nat \<times> nat \<Rightarrow> u32 \<Rightarrow> nat \<Rightarrow> name_table \<Rightarrow> (name_error, nat \<times> name_table) result" where
  "slotFor full newSizes hash t nt =
     (if full then
        (case newSizes of (u, c, q) \<Rightarrow>
           case expandNames u c q nt of Inl e \<Rightarrow> Inl e
           | Inr nt' \<Rightarrow> (case lookupBucket (namesByHash nt') hash (\<lambda>_. False) of Inl e \<Rightarrow> Inl e
                        | Inr t' \<Rightarrow> Inr (t', nt')))
      else Inr (t, nt))"

definition fillBucket :: "nat \<Rightarrow> u32 \<Rightarrow> u32 \<Rightarrow> name_table \<Rightarrow> name_table" where
  "fillBucket t hash name nt =
     nt\<lparr>namesByHash := (namesByHash nt)[t := \<lparr>bk_hash = hash, bk_rawId = name\<rparr>]\<rparr>"

definition enterNameUTF8 :: "(string \<Rightarrow> u32) \<Rightarrow> string \<Rightarrow> name_table \<Rightarrow> (name_error, u32 \<times> name_table) result" where
  "enterNameUTF8 xxh nm nt =
     (let hash = hashMixUTF8 xxh nm
      in case lookupBucket (namesByHash nt) hash (isUtf8 nt nm) of Inl e \<Rightarrow> Inl e
         | Inr t \<Rightarrow>
             if present (namesByHash nt ! t) then Inr (bk_rawId (namesByHash nt ! t), nt)
             else if nameTableFrozen nt then Inl TableFrozen
             else case slotFor (length (utf8Names nt) = utf8Capacity nt)
                         (utf8Capacity nt * 2, constantCapacity nt, uniqueCapacity nt) hash t nt of
                    Inl e \<Rightarrow> Inl e
                  | Inr (t', nt') \<Rightarrow>
                      (let name = mkNameRef UTF8 (length (utf8Names nt'))
                       in Inr (name, fillBucket t' hash name nt'\<lparr>utf8Names := utf8Names nt' @ [nm]\<rparr>)))"

definition enterNameConstant :: "u32 \<Rightarrow> name_table \<Rightarrow> (name_error, u32 \<times> name_table) result" where
  "enterNameConstant original nt =
     (let hash = hashMixConstant original
      in if original = 0 then Inl MissingName
         else if \<not> isValidConstantName nt original then Inl InvalidConstant
         else case lookupBucket (namesByHash nt) hash (isConstant nt original) of Inl e \<Rightarrow> Inl e
         | Inr t \<Rightarrow>
             if present (namesByHash nt ! t) then Inr (bk_rawId (namesByHash nt ! t), nt)
             else if nameTableFrozen nt then Inl TableFrozen
             else case slotFor (length (constantNames nt) = constantCapacity nt)
                         (utf8Capacity nt, constantCapacity nt * 2, uniqueCapacity nt) hash t nt of
                    Inl e \<Rightarrow> Inl e
                  | Inr (t', nt') \<Rightarrow>
                      (let name = mkNameRef CONSTANT (length (constantNames nt'))
                       in Inr (name, fillBucket t' hash name nt'\<lparr>constantNames := constantNames nt' @ [original]\<rparr>)))"

definition enterNameConstantStr ::
  "(string \<Rightarrow> u32) \<Rightarrow> string \<Rightarrow> name_table \<Rightarrow> (name_error, u32 \<times> name_table) result" where
  "enterNameConstantStr xxh original nt =
     (case enterNameUTF8 xxh original nt of Inl e \<Rightarrow> Inl e
      | Inr (utf8, nt') \<Rightarrow> enterNameConstant utf8 nt')"

definition freshNameUnique :: "unique_name \<Rightarrow> name_table \<Rightarrow> (name_error, u32 \<times> name_table) result" where
  "freshNameUnique u nt =
     (let hash = hashMixUnique (un_kind u) (un_num u) (un_original u)
      in if un_num u = 0 then Inl NameOverflow
         else case lookupBucket (namesByHash nt) hash (isUnique nt u) of Inl e \<Rightarrow> Inl e
         | Inr t \<Rightarrow>
             if present (namesByHash nt ! t) then Inr (bk_rawId (namesByHash nt ! t), nt)
             else if nameTableFrozen nt then Inl TableFrozen
             else case slotFor (length (uniqueNames nt) = uniqueCapacity nt)
                         (utf8Capacity nt, constantCapacity nt, uniqueCapacity nt * 2) hash t nt of
                    Inl e \<Rightarrow> Inl e
                  | Inr (t', nt') \<Rightarrow>
                      (let name = mkNameRef UNIQUE (length (uniqueNames nt'))
                       in Inr (name, fillBucket t' hash name nt'\<lparr>uniqueNames := uniqueNames nt' @ [u]\<rparr>)))"

section \<open>The invariant of the name table\<close>

definition hashUnique :: "unique_name \<Rightarrow> u32" where
  "hashUnique u = hashMixUnique (un_kind u) (un_num u) (un_original u)"

definition entriesFor :: "u32 \<Rightarrow> ('a \<Rightarrow> u32) \<Rightarrow> 'a list \<Rightarrow> bucket list" where
  "entriesFor kind hashf xs = map (\<lambda>i. \<lparr>bk_hash = hashf (xs ! i), bk_rawId = mkNameRef kind i\<rparr>) [0..<length xs]"

definition entries :: "(string \<Rightarrow> u32) \<Rightarrow> name_table \<Rightarrow> bucket multiset" where
  "entries xxh nt = mset (entriesFor UTF8 (hashMixUTF8 xxh) (utf8Names nt))
     + mset (entriesFor CONSTANT hashMixConstant (constantNames nt))
     + mset (entriesFor UNIQUE hashUnique (uniqueNames nt))"

definition capacity :: "name_table \<Rightarrow> nat" where
  "capacity nt = utf8Capacity nt + constantCapacity nt + uniqueCapacity nt"

definition wf_names :: "(string \<Rightarrow> u32) \<Rightarrow> name_table \<Rightarrow> bool" where
  "wf_names xxh nt \<longleftrightarrow>
     (\<exists>k. sized k (namesByHash nt) \<and> chained k (namesByHash nt) \<and> capacity nt + 2 \<le> 2 ^ k)
     \<and> occupied (namesByHash nt) = entries xxh nt
     \<and> capacity nt \<le> 2 ^ 30
     \<and> 0 < utf8Capacity nt \<and> 0 < constantCapacity nt \<and> 0 < uniqueCapacity nt
     \<and> length (utf8Names nt) \<le> utf8Capacity nt
     \<and> length (constantNames nt) \<le> constantCapacity nt
     \<and> length (uniqueNames nt) \<le> uniqueCapacity nt
     \<and> distinct (utf8Names nt) \<and> distinct (constantNames nt) \<and> distinct (uniqueNames nt)"

lemma low_kind:
  assumes "kind \<in> {UTF8, CONSTANT, UNIQUE}"
  shows "kind AND 3 = kind" and "drop_bit 2 kind = 0" and "kind \<noteq> 0"
  using assms by (auto simp: kind_defs)

lemma mkNameRef_decode:
  assumes kind: "kind \<in> {UTF8, CONSTANT, UNIQUE}" and i: "i < 2 ^ 30"
  shows "nameKind (mkNameRef kind i) = kind" and "nameIndex (mkNameRef kind i) = i"
    and "mkNameRef kind i \<noteq> 0"
proof -
  have three: "(3 :: u32) = mask 2"
    by (simp add: mask_eq_exp_minus_1)
  have "push_bit 2 (of_nat i :: u32) AND 3 = 0"
    by (rule bit_word_eqI) (auto simp: three bit_simps)
  then show k: "nameKind (mkNameRef kind i) = kind"
    using low_kind [OF kind] by (simp add: nameKind_def mkNameRef_def bit.conj_disj_distrib2)
  have "drop_bit 2 (push_bit 2 (of_nat i) :: u32) = of_nat i"
  proof (rule bit_word_eqI)
    fix n
    assume "n < LENGTH(32)"
    have "\<not> bit (of_nat i :: u32) n" if "30 \<le> n"
    proof -
      have "i < 2 ^ n"
        using i that by (meson less_le_trans one_le_numeral power_increasing)
      then have "\<not> bit i n"
        by (simp add: bit_iff_odd)
      then show ?thesis
        by (simp add: bit_of_nat_iff)
    qed
    then show "bit (drop_bit 2 (push_bit 2 (of_nat i) :: u32)) n = bit (of_nat i :: u32) n"
      by (cases "30 \<le> n") (auto simp: bit_simps)
  qed
  then have "drop_bit 2 (mkNameRef kind i) = of_nat i"
    using low_kind [OF kind] by (simp add: mkNameRef_def)
  moreover have "i < 2 ^ 32"
    using i by simp
  ultimately show "nameIndex (mkNameRef kind i) = i"
    by (simp only: nameIndex_def unat_of_nat_u32)
  show "mkNameRef kind i \<noteq> 0"
    using k low_kind(3) [OF kind] by (auto simp: nameKind_def)
qed

lemma entriesFor_snoc:
  "entriesFor kind h (xs @ [x]) = entriesFor kind h xs @ [\<lparr>bk_hash = h x, bk_rawId = mkNameRef kind (length xs)\<rparr>]"
  by (simp add: entriesFor_def nth_append)

lemma length_entriesFor [simp]: "length (entriesFor kind h xs) = length xs"
  by (simp add: entriesFor_def)

lemma set_entriesFor:
  "b \<in> set (entriesFor kind h xs) \<longleftrightarrow> (\<exists>i < length xs. b = \<lparr>bk_hash = h (xs ! i), bk_rawId = mkNameRef kind i\<rparr>)"
  by (auto simp: entriesFor_def)

lemma size_entries:
  "size (entries xxh nt) = length (utf8Names nt) + length (constantNames nt) + length (uniqueNames nt)"
  by (simp add: entries_def)

lemma wf_names_room:
  assumes "wf_names xxh nt"
  obtains k where "sized k (namesByHash nt)" "chained k (namesByHash nt)"
    "occupied (namesByHash nt) = entries xxh nt" "Suc (size (entries xxh nt)) < 2 ^ k"
proof -
  from assms obtain k where k: "sized k (namesByHash nt)" "chained k (namesByHash nt)"
    "capacity nt + 2 \<le> 2 ^ k"
    by (auto simp: wf_names_def)
  moreover have "size (entries xxh nt) \<le> capacity nt"
    using assms by (auto simp: wf_names_def size_entries capacity_def)
  ultimately show thesis
    using assms that [of k] by (simp add: wf_names_def)
qed

text \<open>Which entries the three predicates select.\<close>

lemma entries_cases:
  assumes "b \<in># entries xxh nt"
  obtains (utf8) i where "i < length (utf8Names nt)"
      "b = \<lparr>bk_hash = hashMixUTF8 xxh (utf8Names nt ! i), bk_rawId = mkNameRef UTF8 i\<rparr>"
  | (cnst) i where "i < length (constantNames nt)"
      "b = \<lparr>bk_hash = hashMixConstant (constantNames nt ! i), bk_rawId = mkNameRef CONSTANT i\<rparr>"
  | (unique) i where "i < length (uniqueNames nt)"
      "b = \<lparr>bk_hash = hashUnique (uniqueNames nt ! i), bk_rawId = mkNameRef UNIQUE i\<rparr>"
  using assms by (auto simp: entries_def set_entriesFor)

lemma wf_index:
  assumes "wf_names xxh nt"
  shows "i < length (utf8Names nt) \<Longrightarrow> i < 2 ^ 30" "i < length (constantNames nt) \<Longrightarrow> i < 2 ^ 30"
    "i < length (uniqueNames nt) \<Longrightarrow> i < 2 ^ 30"
  using assms by (auto simp: wf_names_def capacity_def)

lemma kinds_distinct [simp]:
  "UTF8 \<noteq> CONSTANT" "UTF8 \<noteq> UNIQUE" "CONSTANT \<noteq> UNIQUE"
  "CONSTANT \<noteq> UTF8" "UNIQUE \<noteq> UTF8" "UNIQUE \<noteq> CONSTANT"
  by (simp_all add: kind_defs)

lemma entries_isUtf8:
  assumes "wf_names xxh nt" and "b \<in># entries xxh nt" and "isUtf8 nt nm (bk_rawId b)"
  shows "\<exists>i < length (utf8Names nt). utf8Names nt ! i = nm
     \<and> b = \<lparr>bk_hash = hashMixUTF8 xxh nm, bk_rawId = mkNameRef UTF8 i\<rparr>"
  using assms(2)
  by (cases rule: entries_cases)
     (use assms(3) wf_index [OF assms(1)] in \<open>auto simp: isUtf8_def mkNameRef_decode\<close>)

lemma entries_isConstant:
  assumes "wf_names xxh nt" and "b \<in># entries xxh nt" and "isConstant nt original (bk_rawId b)"
  shows "\<exists>i < length (constantNames nt). constantNames nt ! i = original
     \<and> b = \<lparr>bk_hash = hashMixConstant original, bk_rawId = mkNameRef CONSTANT i\<rparr>"
  using assms(2)
  by (cases rule: entries_cases)
     (use assms(3) wf_index [OF assms(1)] in \<open>auto simp: isConstant_def mkNameRef_decode\<close>)

lemma entries_isUnique:
  assumes "wf_names xxh nt" and "b \<in># entries xxh nt" and "isUnique nt u (bk_rawId b)"
  shows "\<exists>i < length (uniqueNames nt). uniqueNames nt ! i = u
     \<and> b = \<lparr>bk_hash = hashUnique u, bk_rawId = mkNameRef UNIQUE i\<rparr>"
  using assms(2)
  by (cases rule: entries_cases)
     (use assms(3) wf_index [OF assms(1)] in \<open>auto simp: isUnique_def mkNameRef_decode\<close>)

definition same_names :: "name_table \<Rightarrow> name_table \<Rightarrow> bool" where
  "same_names nt nt' \<longleftrightarrow> utf8Names nt' = utf8Names nt \<and> constantNames nt' = constantNames nt
     \<and> uniqueNames nt' = uniqueNames nt \<and> nameTableFrozen nt' = nameTableFrozen nt"

lemma NameHash_expandNames_ok:
  assumes wf: "wf_names xxh nt" and S: "capacity nt \<le> u + c + q" "u + c + q \<le> 2 ^ 30"
  shows "\<exists>bs k. NameHash_expandNames (of_nat u) (of_nat c) (of_nat q) (namesByHash nt) = Inr bs
     \<and> sized k bs \<and> chained k bs \<and> occupied bs = entries xxh nt \<and> 2 * (u + c + q) \<le> 2 ^ k"
proof -
  let ?S = "u + c + q"
  let ?w = "of_nat u + of_nat c + of_nat q :: u32"
  have uw: "unat ?w = ?S"
    using S(2) unat_of_nat_u32 [of ?S] by simp
  obtain m where m: "m \<le> 31" "unat (nextPowerOfTwo ?w) = 2 ^ m" "?S \<le> 2 ^ m"
    "m > 0 \<longrightarrow> 2 ^ (m - 1) < ?S"
    using nextPowerOfTwo_spec [of ?w] S(2) unfolding uw by auto
  have m30: "m \<le> 30"
  proof (rule ccontr)
    assume "\<not> m \<le> 30"
    with m(1) have "m = 31" by simp
    with m(4) S(2) show False by simp
  qed
  then have "(2 :: nat) ^ Suc m < 2 ^ 32"
    by (intro power_strict_increasing) auto
  then have size: "unat (2 * nextPowerOfTwo ?w) = 2 ^ Suc m"
    using m(2) by (simp add: unat_word_ariths(2))
  obtain k where k: "sized k (namesByHash nt)" "chained k (namesByHash nt)"
    "occupied (namesByHash nt) = entries xxh nt" "Suc (size (entries xxh nt)) < 2 ^ k"
    using wf_names_room [OF wf] by blast
  show ?thesis
  proof (cases "length (namesByHash nt) < 2 ^ Suc m")
    case True
    let ?to = "replicate (2 ^ Suc m) emptyBucket"
    have to: "sized (Suc m) ?to" "chained (Suc m) ?to" "occupied ?to = {#}"
      using m30 by (auto simp: sized_def chained_def occupied_def present_def emptyBucket_def)
    have "size (entries xxh nt) \<le> capacity nt" "3 \<le> capacity nt"
      using wf by (auto simp: wf_names_def size_entries capacity_def)
    then have "Suc (size (occupied (namesByHash nt)) + size (occupied ?to)) < 2 ^ Suc m"
      using S m(3) k(3) to(3) by simp
    from moveNames_correct [OF to(1,2) this] to(3) k(3) obtain bs where
      "moveNames (namesByHash nt) ?to = Inr bs" "sized (Suc m) bs" "chained (Suc m) bs"
      "occupied bs = entries xxh nt"
      by auto
    with True size m(3) show ?thesis
      unfolding NameHash_expandNames_def Let_def by (intro exI [of _ bs] exI [of _ "Suc m"]) simp
  next
    case False
    then have "2 * ?S \<le> 2 ^ k"
      using m(3) k(1) by (simp add: sized_def)
    with False size k show ?thesis
      unfolding NameHash_expandNames_def Let_def by auto
  qed
qed

lemma expandNames_ok:
  assumes wf: "wf_names xxh nt" and u: "utf8Capacity nt \<le> u" and c: "constantCapacity nt \<le> c"
    and q: "uniqueCapacity nt \<le> q" and S: "u + c + q \<le> 2 ^ 30"
  shows "\<exists>nt'. expandNames u c q nt = Inr nt' \<and> wf_names xxh nt' \<and> same_names nt nt'
     \<and> utf8Capacity nt' = u \<and> constantCapacity nt' = c \<and> uniqueCapacity nt' = q"
proof -
  have "capacity nt \<le> u + c + q"
    using u c q by (simp add: capacity_def)
  from NameHash_expandNames_ok [OF wf this S] obtain bs k where
    bs: "NameHash_expandNames (of_nat u) (of_nat c) (of_nat q) (namesByHash nt) = Inr bs"
    "sized k bs" "chained k bs" "occupied bs = entries xxh nt" "2 * (u + c + q) \<le> 2 ^ k"
    by blast
  let ?nt = "nt\<lparr>utf8Capacity := u, constantCapacity := c, uniqueCapacity := q, namesByHash := bs\<rparr>"
  have "expandNames u c q nt = Inr ?nt"
    using bs(1) u c q by (simp add: expandNames_def max_absorb2)
  moreover have "u + c + q + 2 \<le> 2 ^ k"
    using bs(5) wf u c q by (auto simp: wf_names_def)
  then have "wf_names xxh ?nt"
    using wf bs u c q S by (auto simp: wf_names_def capacity_def entries_def)
  ultimately show ?thesis
    by (intro exI [of _ ?nt]) (simp add: same_names_def)
qed

text \<open>A slot for a new entry: found in the table as it is, or after it has grown.\<close>

definition slot :: "(string \<Rightarrow> u32) \<Rightarrow> u32 \<Rightarrow> nat \<Rightarrow> name_table \<Rightarrow> bool" where
  "slot xxh hash t nt \<longleftrightarrow> wf_names xxh nt \<and> t < length (namesByHash nt) \<and> \<not> present (namesByHash nt ! t)
     \<and> (\<forall>k. sized k (namesByHash nt) \<longrightarrow> reaches k (namesByHash nt) hash t)"

lemma sized_unique: "sized k bs \<Longrightarrow> sized k' bs \<Longrightarrow> k = k'"
  by (auto simp: sized_def)

lemma slotI:
  assumes wf: "wf_names xxh nt"
    and none: "\<And>b. b \<in># entries xxh nt \<Longrightarrow> bk_hash b = hash \<Longrightarrow> \<not> pred (bk_rawId b)"
  shows "\<exists>t. lookupBucket (namesByHash nt) hash pred = Inr t \<and> slot xxh hash t nt"
proof -
  obtain k where k: "sized k (namesByHash nt)" "chained k (namesByHash nt)"
    "occupied (namesByHash nt) = entries xxh nt" "Suc (size (entries xxh nt)) < 2 ^ k"
    using wf_names_room [OF wf] by blast
  from lookupBucket_absent [OF k(1), of hash pred] k(3,4) none show ?thesis
    using wf k(1) unfolding slot_def by (metis sized_unique)
qed

lemma slotFor_ok:
  assumes "slot xxh hash t nt"
    and sizes: "full \<Longrightarrow> utf8Capacity nt \<le> u \<and> constantCapacity nt \<le> c \<and> uniqueCapacity nt \<le> q \<and> u + c + q \<le> 2 ^ 30"
  shows "\<exists>t' nt'. slotFor full (u, c, q) hash t nt = Inr (t', nt') \<and> slot xxh hash t' nt' \<and> same_names nt nt'
     \<and> (if full then utf8Capacity nt' = u \<and> constantCapacity nt' = c \<and> uniqueCapacity nt' = q else nt' = nt)"
proof (cases full)
  case False
  with assms(1) show ?thesis by (simp add: slotFor_def same_names_def)
next
  case True
  with sizes assms(1) obtain nt' where nt': "expandNames u c q nt = Inr nt'" "wf_names xxh nt'"
    "same_names nt nt'" "utf8Capacity nt' = u \<and> constantCapacity nt' = c \<and> uniqueCapacity nt' = q"
    using expandNames_ok [of xxh nt u c q] by (auto simp: slot_def)
  from slotI [OF nt'(2), of hash "\<lambda>_. False"] nt' True show ?thesis
    by (auto simp: slotFor_def)
qed

subsection \<open>Appending a name\<close>

lemma slot_fill:
  assumes slot: "slot xxh hash t nt" and r: "r \<noteq> 0"
  defines "bs \<equiv> (namesByHash nt)[t := \<lparr>bk_hash = hash, bk_rawId = r\<rparr>]"
  shows "\<exists>k. sized k bs \<and> chained k bs \<and> capacity nt + 2 \<le> 2 ^ k"
    and "occupied bs = add_mset \<lparr>bk_hash = hash, bk_rawId = r\<rparr> (entries xxh nt)"
proof -
  let ?b = "\<lparr>bk_hash = hash, bk_rawId = r\<rparr>"
  have pr: "present ?b"
    using r by (simp add: present_def)
  from slot obtain k where k: "sized k (namesByHash nt)" "chained k (namesByHash nt)"
    "capacity nt + 2 \<le> 2 ^ k" and t: "t < length (namesByHash nt)" "\<not> present (namesByHash nt ! t)"
    and occ: "occupied (namesByHash nt) = entries xxh nt"
    by (auto simp: slot_def wf_names_def)
  moreover have "reaches k (namesByHash nt) (bk_hash ?b) t"
    using slot k(1) by (simp add: slot_def)
  ultimately have "sized k bs" "chained k bs"
    unfolding bs_def using chained_update [OF k(2) t(1) pr] by (auto simp: sized_def)
  with k(3) show "\<exists>k. sized k bs \<and> chained k bs \<and> capacity nt + 2 \<le> 2 ^ k"
    by blast
  show "occupied bs = add_mset ?b (entries xxh nt)"
    unfolding bs_def using occupied_update [OF t pr] occ by simp
qed

lemma append_utf8:
  assumes slot: "slot xxh (hashMixUTF8 xxh nm) t nt" and new: "nm \<notin> set (utf8Names nt)"
    and len: "length (utf8Names nt) < utf8Capacity nt"
  shows "wf_names xxh (fillBucket t (hashMixUTF8 xxh nm) (mkNameRef UTF8 (length (utf8Names nt))) nt
           \<lparr>utf8Names := utf8Names nt @ [nm]\<rparr>)"
proof -
  have wf: "wf_names xxh nt" using slot by (simp add: slot_def)
  then have "length (utf8Names nt) < 2 ^ 30"
    using len by (auto simp: wf_names_def capacity_def)
  then have "mkNameRef UTF8 (length (utf8Names nt)) \<noteq> 0"
    by (simp add: mkNameRef_decode)
  from slot_fill [OF slot this] wf new len show ?thesis
    unfolding wf_names_def fillBucket_def by (simp add: capacity_def entries_def entriesFor_snoc)
qed

lemma append_constant:
  assumes slot: "slot xxh (hashMixConstant c) t nt" and new: "c \<notin> set (constantNames nt)"
    and len: "length (constantNames nt) < constantCapacity nt"
  shows "wf_names xxh (fillBucket t (hashMixConstant c) (mkNameRef CONSTANT (length (constantNames nt))) nt
           \<lparr>constantNames := constantNames nt @ [c]\<rparr>)"
proof -
  have wf: "wf_names xxh nt" using slot by (simp add: slot_def)
  then have "length (constantNames nt) < 2 ^ 30"
    using len by (auto simp: wf_names_def capacity_def)
  then have "mkNameRef CONSTANT (length (constantNames nt)) \<noteq> 0"
    by (simp add: mkNameRef_decode)
  from slot_fill [OF slot this] wf new len show ?thesis
    unfolding wf_names_def fillBucket_def by (simp add: capacity_def entries_def entriesFor_snoc)
qed

lemma append_unique:
  assumes slot: "slot xxh (hashUnique u) t nt" and new: "u \<notin> set (uniqueNames nt)"
    and len: "length (uniqueNames nt) < uniqueCapacity nt"
  shows "wf_names xxh (fillBucket t (hashUnique u) (mkNameRef UNIQUE (length (uniqueNames nt))) nt
           \<lparr>uniqueNames := uniqueNames nt @ [u]\<rparr>)"
proof -
  have wf: "wf_names xxh nt" using slot by (simp add: slot_def)
  then have "length (uniqueNames nt) < 2 ^ 30"
    using len by (auto simp: wf_names_def capacity_def)
  then have "mkNameRef UNIQUE (length (uniqueNames nt)) \<noteq> 0"
    by (simp add: mkNameRef_decode)
  from slot_fill [OF slot this] wf new len show ?thesis
    unfolding wf_names_def fillBucket_def by (simp add: capacity_def entries_def entriesFor_snoc)
qed

section \<open>The interning interface\<close>

text \<open>
  What the three kinds of names promise their clients: a vector of distinct names that only grows at
  its end, looked up and entered through references that encode the kind and the index.
\<close>

definition can_grow :: "name_table \<Rightarrow> bool" where
  "can_grow nt \<longleftrightarrow> \<not> nameTableFrozen nt \<and> 2 * capacity nt \<le> 2 ^ 30"

locale interning =
  fixes kind :: u32
    and names :: "name_table \<Rightarrow> 'k list"
    and lookup :: "'k \<Rightarrow> name_table \<Rightarrow> (name_error, u32) result"
    and enter :: "'k \<Rightarrow> name_table \<Rightarrow> (name_error, u32 \<times> name_table) result"
    and valid :: "'k \<Rightarrow> name_table \<Rightarrow> bool"
    and wf :: "name_table \<Rightarrow> bool"
  assumes kind: "kind \<in> {UTF8, CONSTANT, UNIQUE}"
    and bound: "wf s \<Longrightarrow> length (names s) \<le> 2 ^ 30"
    and dist: "wf s \<Longrightarrow> distinct (names s)"
    and lookup_hit: "wf s \<Longrightarrow> valid (names s ! i) s \<Longrightarrow> i < length (names s) \<Longrightarrow>
      lookup (names s ! i) s = Inr (mkNameRef kind i)"
    and lookup_miss: "wf s \<Longrightarrow> valid k s \<Longrightarrow> k \<notin> set (names s) \<Longrightarrow> lookup k s = Inr 0"
    and enter_hit: "wf s \<Longrightarrow> valid (names s ! i) s \<Longrightarrow> i < length (names s) \<Longrightarrow>
      enter (names s ! i) s = Inr (mkNameRef kind i, s)"
    and enter_miss: "wf s \<Longrightarrow> valid k s \<Longrightarrow> k \<notin> set (names s) \<Longrightarrow> can_grow s \<Longrightarrow>
      \<exists>s'. enter k s = Inr (mkNameRef kind (length (names s)), s') \<and> wf s' \<and> names s' = names s @ [k] \<and> valid k s'"
    and enter_frozen: "wf s \<Longrightarrow> valid k s \<Longrightarrow> k \<notin> set (names s) \<Longrightarrow> nameTableFrozen s \<Longrightarrow>
      enter k s = Inl TableFrozen"
begin

lemma ref_nonzero: "wf s \<Longrightarrow> i < length (names s) \<Longrightarrow> mkNameRef kind i \<noteq> 0"
  by (rule mkNameRef_decode(3) [OF kind]) (drule bound, simp)

lemma enter_ok:
  assumes "wf s" "valid k s" "can_grow s"
  shows "\<exists>i s'. enter k s = Inr (mkNameRef kind i, s') \<and> wf s' \<and> valid k s' \<and> i < length (names s') \<and> names s' ! i = k
     \<and> names s' = (if k \<in> set (names s) then names s else names s @ [k])"
proof (cases "k \<in> set (names s)")
  case True
  then obtain i where "i < length (names s)" "names s ! i = k"
    by (auto simp: in_set_conv_nth)
  with enter_hit [OF assms(1), of i] assms True show ?thesis
    by (intro exI [of _ i] exI [of _ s]) auto
next
  case False
  from enter_miss [OF assms(1,2) False assms(3)] False show ?thesis
    by (intro exI [of _ "length (names s)"]) auto
qed

lemma enter_then_lookup:
  assumes "wf s" "valid k s" "can_grow s"
  shows "\<exists>r s'. enter k s = Inr (r, s') \<and> wf s' \<and> lookup k s' = Inr r \<and> r \<noteq> 0 \<and> enter k s' = Inr (r, s')
     \<and> names s' = (if k \<in> set (names s) then names s else names s @ [k])"
proof -
  obtain i s' where i: "enter k s = Inr (mkNameRef kind i, s')" "wf s'" "valid k s'"
    "i < length (names s')" "names s' ! i = k"
    "names s' = (if k \<in> set (names s) then names s else names s @ [k])"
    using enter_ok [OF assms] by blast
  then have "lookup k s' = Inr (mkNameRef kind i)" "enter k s' = Inr (mkNameRef kind i, s')"
    using lookup_hit [of s' i] enter_hit [of s' i] by auto
  with i ref_nonzero show ?thesis by blast
qed

lemma lookup_injective:
  assumes "wf s" "valid k s" "valid k' s" "lookup k s = Inr r" "lookup k' s = Inr r" "r \<noteq> 0"
  shows "k = k'"
proof -
  have ref: "\<exists>i < length (names s). names s ! i = x \<and> r = mkNameRef kind i"
    if "valid x s" "lookup x s = Inr r" for x
  proof (cases "x \<in> set (names s)")
    case True
    then obtain i where i: "i < length (names s)" "names s ! i = x"
      by (auto simp: in_set_conv_nth)
    with lookup_hit [OF assms(1), of i] that have "r = mkNameRef kind i"
      by simp
    with i show ?thesis by blast
  next
    case False
    with lookup_miss [OF assms(1)] that assms(6) show ?thesis
      by simp
  qed
  obtain i j where ij: "i < length (names s)" "names s ! i = k" "j < length (names s)"
    "names s ! j = k'" "mkNameRef kind i = mkNameRef kind j"
    using ref [OF assms(2,4)] ref [OF assms(3,5)] by metis
  then have "i < 2 ^ 30" "j < 2 ^ 30"
    using bound [OF assms(1)] by auto
  with ij(5) have "i = j"
    using mkNameRef_decode(2) [OF kind] by metis
  with ij show ?thesis by simp
qed

end

subsection \<open>The three kinds of names provide it\<close>

lemma bucket_hit:
  assumes wf: "wf_names xxh nt" and b: "b \<in># entries xxh nt" "bk_hash b = hash" "pred (bk_rawId b)"
    and uniq: "\<And>b'. b' \<in># entries xxh nt \<Longrightarrow> pred (bk_rawId b') \<Longrightarrow> b' = b"
  shows "\<exists>t. lookupBucket (namesByHash nt) hash pred = Inr t \<and> namesByHash nt ! t = b \<and> present b"
proof -
  obtain k where k: "sized k (namesByHash nt)" "chained k (namesByHash nt)"
    "occupied (namesByHash nt) = entries xxh nt" "Suc (size (entries xxh nt)) < 2 ^ k"
    using wf_names_room [OF wf] by blast
  have room: "Suc (size (occupied (namesByHash nt))) < 2 ^ k" and occ: "b \<in># occupied (namesByHash nt)"
    using k(3,4) b(1) by simp_all
  have "b' = b" if "b' \<in># occupied (namesByHash nt)" "bk_hash b' = hash" "pred (bk_rawId b')" for b'
    using that k(3) by (intro uniq) simp_all
  from lookupBucket_found [where pred = pred, OF k(1) room k(2) occ b(2,3) this] show ?thesis by auto
qed

lemma utf8_hit:
  assumes wf: "wf_names xxh nt" and i: "i < length (utf8Names nt)"
  defines "nm \<equiv> utf8Names nt ! i"
  shows "\<exists>t. lookupBucket (namesByHash nt) (hashMixUTF8 xxh nm) (isUtf8 nt nm) = Inr t
     \<and> present (namesByHash nt ! t) \<and> bk_rawId (namesByHash nt ! t) = mkNameRef UTF8 i"
proof -
  let ?b = "\<lparr>bk_hash = hashMixUTF8 xxh nm, bk_rawId = mkNameRef UTF8 i\<rparr>"
  have "?b \<in># entries xxh nt"
    using i by (auto simp: entries_def set_entriesFor nm_def)
  moreover have "isUtf8 nt nm (bk_rawId ?b)"
    using i wf_index [OF wf] by (simp add: isUtf8_def mkNameRef_decode nm_def)
  moreover have "b' = ?b" if b': "b' \<in># entries xxh nt" "isUtf8 nt nm (bk_rawId b')" for b'
  proof -
    obtain j where "j < length (utf8Names nt)" "utf8Names nt ! j = nm"
      "b' = \<lparr>bk_hash = hashMixUTF8 xxh nm, bk_rawId = mkNameRef UTF8 j\<rparr>"
      using entries_isUtf8 [OF wf b'] by blast
    moreover from this i wf have "j = i"
      by (simp add: wf_names_def nm_def nth_eq_iff_index_eq)
    ultimately show ?thesis by simp
  qed
  ultimately obtain t where "lookupBucket (namesByHash nt) (hashMixUTF8 xxh nm) (isUtf8 nt nm) = Inr t"
      "namesByHash nt ! t = ?b" "present ?b"
    using bucket_hit [OF wf, of ?b "hashMixUTF8 xxh nm" "isUtf8 nt nm"] by (metis bucket.select_convs(1))
  then show ?thesis by auto
qed

lemma constant_hit:
  assumes wf: "wf_names xxh nt" and i: "i < length (constantNames nt)"
  defines "c \<equiv> constantNames nt ! i"
  shows "\<exists>t. lookupBucket (namesByHash nt) (hashMixConstant c) (isConstant nt c) = Inr t
     \<and> present (namesByHash nt ! t) \<and> bk_rawId (namesByHash nt ! t) = mkNameRef CONSTANT i"
proof -
  let ?b = "\<lparr>bk_hash = hashMixConstant c, bk_rawId = mkNameRef CONSTANT i\<rparr>"
  have "?b \<in># entries xxh nt"
    using i by (auto simp: entries_def set_entriesFor c_def)
  moreover have "isConstant nt c (bk_rawId ?b)"
    using i wf_index [OF wf] by (simp add: isConstant_def mkNameRef_decode c_def)
  moreover have "b' = ?b" if b': "b' \<in># entries xxh nt" "isConstant nt c (bk_rawId b')" for b'
  proof -
    obtain j where "j < length (constantNames nt)" "constantNames nt ! j = c"
      "b' = \<lparr>bk_hash = hashMixConstant c, bk_rawId = mkNameRef CONSTANT j\<rparr>"
      using entries_isConstant [OF wf b'] by blast
    moreover from this i wf have "j = i"
      by (simp add: wf_names_def c_def nth_eq_iff_index_eq)
    ultimately show ?thesis by simp
  qed
  ultimately obtain t where "lookupBucket (namesByHash nt) (hashMixConstant c) (isConstant nt c) = Inr t"
      "namesByHash nt ! t = ?b" "present ?b"
    using bucket_hit [OF wf, of ?b "hashMixConstant c" "isConstant nt c"] by (metis bucket.select_convs(1))
  then show ?thesis by auto
qed

lemma unique_hit:
  assumes wf: "wf_names xxh nt" and i: "i < length (uniqueNames nt)"
  defines "u \<equiv> uniqueNames nt ! i"
  shows "\<exists>t. lookupBucket (namesByHash nt) (hashUnique u) (isUnique nt u) = Inr t
     \<and> present (namesByHash nt ! t) \<and> bk_rawId (namesByHash nt ! t) = mkNameRef UNIQUE i"
proof -
  let ?b = "\<lparr>bk_hash = hashUnique u, bk_rawId = mkNameRef UNIQUE i\<rparr>"
  have "?b \<in># entries xxh nt"
    using i by (auto simp: entries_def set_entriesFor u_def)
  moreover have "isUnique nt u (bk_rawId ?b)"
    using i wf_index [OF wf] by (simp add: isUnique_def mkNameRef_decode u_def)
  moreover have "b' = ?b" if b': "b' \<in># entries xxh nt" "isUnique nt u (bk_rawId b')" for b'
  proof -
    obtain j where "j < length (uniqueNames nt)" "uniqueNames nt ! j = u"
      "b' = \<lparr>bk_hash = hashUnique u, bk_rawId = mkNameRef UNIQUE j\<rparr>"
      using entries_isUnique [OF wf b'] by blast
    moreover from this i wf have "j = i"
      by (simp add: wf_names_def u_def nth_eq_iff_index_eq)
    ultimately show ?thesis by simp
  qed
  ultimately obtain t where "lookupBucket (namesByHash nt) (hashUnique u) (isUnique nt u) = Inr t"
      "namesByHash nt ! t = ?b" "present ?b"
    using bucket_hit [OF wf, of ?b "hashUnique u" "isUnique nt u"] by (metis bucket.select_convs(1))
  then show ?thesis by auto
qed

lemma utf8_miss:
  assumes "wf_names xxh nt" and "nm \<notin> set (utf8Names nt)"
  shows "\<exists>t. lookupBucket (namesByHash nt) (hashMixUTF8 xxh nm) (isUtf8 nt nm) = Inr t
     \<and> slot xxh (hashMixUTF8 xxh nm) t nt"
  using assms(2) entries_isUtf8 [OF assms(1)] by (intro slotI [OF assms(1)]) (metis nth_mem)

lemma constant_miss:
  assumes "wf_names xxh nt" and "c \<notin> set (constantNames nt)"
  shows "\<exists>t. lookupBucket (namesByHash nt) (hashMixConstant c) (isConstant nt c) = Inr t
     \<and> slot xxh (hashMixConstant c) t nt"
  using assms(2) entries_isConstant [OF assms(1)] by (intro slotI [OF assms(1)]) (metis nth_mem)

lemma unique_miss:
  assumes "wf_names xxh nt" and "u \<notin> set (uniqueNames nt)"
  shows "\<exists>t. lookupBucket (namesByHash nt) (hashUnique u) (isUnique nt u) = Inr t
     \<and> slot xxh (hashUnique u) t nt"
  using assms(2) entries_isUnique [OF assms(1)] by (intro slotI [OF assms(1)]) (metis nth_mem)

lemma enterNameUTF8_new:
  assumes wf: "wf_names xxh nt" and new: "nm \<notin> set (utf8Names nt)" and grow: "can_grow nt"
  shows "\<exists>nt'. enterNameUTF8 xxh nm nt = Inr (mkNameRef UTF8 (length (utf8Names nt)), nt')
     \<and> wf_names xxh nt' \<and> utf8Names nt' = utf8Names nt @ [nm]
     \<and> constantNames nt' = constantNames nt \<and> uniqueNames nt' = uniqueNames nt
     \<and> nameTableFrozen nt' = nameTableFrozen nt \<and> capacity nt \<le> capacity nt' \<and> capacity nt' \<le> 2 * capacity nt"
proof -
  let ?h = "hashMixUTF8 xxh nm" and ?full = "length (utf8Names nt) = utf8Capacity nt"
  obtain t where t: "lookupBucket (namesByHash nt) ?h (isUtf8 nt nm) = Inr t" "slot xxh ?h t nt"
    using utf8_miss [OF wf new] by blast
  moreover obtain t' nt' where t': "slotFor ?full (utf8Capacity nt * 2, constantCapacity nt, uniqueCapacity nt) ?h t nt
      = Inr (t', nt')" "slot xxh ?h t' nt'" "same_names nt nt'"
    "if ?full then utf8Capacity nt' = utf8Capacity nt * 2 \<and> constantCapacity nt' = constantCapacity nt
        \<and> uniqueCapacity nt' = uniqueCapacity nt else nt' = nt"
    using slotFor_ok [OF t(2), of ?full "utf8Capacity nt * 2" "constantCapacity nt" "uniqueCapacity nt"] grow
    by (fastforce simp: can_grow_def capacity_def split: if_splits)
  moreover have "length (utf8Names nt') < utf8Capacity nt'"
    using t'(3,4) wf by (auto simp: same_names_def wf_names_def split: if_splits)
  moreover have "capacity nt \<le> capacity nt'" "capacity nt' \<le> 2 * capacity nt"
    using t'(4) by (auto simp: capacity_def split: if_splits)
  ultimately show ?thesis
    using append_utf8 [OF t'(2)] new grow t(2)
    by (simp add: enterNameUTF8_def same_names_def can_grow_def slot_def Let_def fillBucket_def capacity_def)
qed

lemma enterNameConstant_new:
  assumes wf: "wf_names xxh nt" and new: "c \<notin> set (constantNames nt)" and grow: "can_grow nt"
    and valid: "c \<noteq> 0" "isValidConstantName nt c"
  shows "\<exists>nt'. enterNameConstant c nt = Inr (mkNameRef CONSTANT (length (constantNames nt)), nt')
     \<and> wf_names xxh nt' \<and> constantNames nt' = constantNames nt @ [c]
     \<and> utf8Names nt' = utf8Names nt \<and> uniqueNames nt' = uniqueNames nt
     \<and> nameTableFrozen nt' = nameTableFrozen nt \<and> capacity nt \<le> capacity nt' \<and> capacity nt' \<le> 2 * capacity nt"
proof -
  let ?h = "hashMixConstant c" and ?full = "length (constantNames nt) = constantCapacity nt"
  obtain t where t: "lookupBucket (namesByHash nt) ?h (isConstant nt c) = Inr t" "slot xxh ?h t nt"
    using constant_miss [OF wf new] by blast
  moreover obtain t' nt' where t': "slotFor ?full (utf8Capacity nt, constantCapacity nt * 2, uniqueCapacity nt) ?h t nt
      = Inr (t', nt')" "slot xxh ?h t' nt'" "same_names nt nt'"
    "if ?full then constantCapacity nt' = constantCapacity nt * 2 \<and> utf8Capacity nt' = utf8Capacity nt
        \<and> uniqueCapacity nt' = uniqueCapacity nt else nt' = nt"
    using slotFor_ok [OF t(2), of ?full "utf8Capacity nt" "constantCapacity nt * 2" "uniqueCapacity nt"] grow
    by (fastforce simp: can_grow_def capacity_def split: if_splits)
  moreover have "length (constantNames nt') < constantCapacity nt'"
    using t'(3,4) wf by (auto simp: same_names_def wf_names_def split: if_splits)
  moreover have "capacity nt \<le> capacity nt'" "capacity nt' \<le> 2 * capacity nt"
    using t'(4) by (auto simp: capacity_def split: if_splits)
  ultimately show ?thesis
    using append_constant [OF t'(2)] new grow t(2) valid
    by (simp add: enterNameConstant_def same_names_def can_grow_def slot_def Let_def fillBucket_def capacity_def)
qed

lemma freshNameUnique_new:
  assumes wf: "wf_names xxh nt" and new: "u \<notin> set (uniqueNames nt)" and grow: "can_grow nt"
    and valid: "un_num u \<noteq> 0"
  shows "\<exists>nt'. freshNameUnique u nt = Inr (mkNameRef UNIQUE (length (uniqueNames nt)), nt')
     \<and> wf_names xxh nt' \<and> uniqueNames nt' = uniqueNames nt @ [u]
     \<and> utf8Names nt' = utf8Names nt \<and> constantNames nt' = constantNames nt
     \<and> nameTableFrozen nt' = nameTableFrozen nt \<and> capacity nt \<le> capacity nt' \<and> capacity nt' \<le> 2 * capacity nt"
proof -
  let ?h = "hashUnique u" and ?full = "length (uniqueNames nt) = uniqueCapacity nt"
  obtain t where t: "lookupBucket (namesByHash nt) ?h (isUnique nt u) = Inr t" "slot xxh ?h t nt"
    using unique_miss [OF wf new] by blast
  moreover obtain t' nt' where t': "slotFor ?full (utf8Capacity nt, constantCapacity nt, uniqueCapacity nt * 2) ?h t nt
      = Inr (t', nt')" "slot xxh ?h t' nt'" "same_names nt nt'"
    "if ?full then uniqueCapacity nt' = uniqueCapacity nt * 2 \<and> utf8Capacity nt' = utf8Capacity nt
        \<and> constantCapacity nt' = constantCapacity nt else nt' = nt"
    using slotFor_ok [OF t(2), of ?full "utf8Capacity nt" "constantCapacity nt" "uniqueCapacity nt * 2"] grow
    by (fastforce simp: can_grow_def capacity_def split: if_splits)
  moreover have "length (uniqueNames nt') < uniqueCapacity nt'"
    using t'(3,4) wf by (auto simp: same_names_def wf_names_def split: if_splits)
  moreover have "capacity nt \<le> capacity nt'" "capacity nt' \<le> 2 * capacity nt"
    using t'(4) by (auto simp: capacity_def split: if_splits)
  ultimately show ?thesis
    using append_unique [OF t'(2)] new grow t(2) valid
    by (simp add: freshNameUnique_def same_names_def can_grow_def slot_def Let_def fillBucket_def capacity_def hashUnique_def)
qed

interpretation utf8: interning UTF8 utf8Names "lookupNameUTF8 xxh" "enterNameUTF8 xxh" "\<lambda>_ _. True"
  "wf_names xxh" for xxh
proof unfold_locales
  fix s i k
  assume wf: "wf_names xxh s"
  show "length (utf8Names s) \<le> 2 ^ 30" "distinct (utf8Names s)"
    using wf by (auto simp: wf_names_def capacity_def)
  show "lookupNameUTF8 xxh (utf8Names s ! i) s = Inr (mkNameRef UTF8 i)"
    "enterNameUTF8 xxh (utf8Names s ! i) s = Inr (mkNameRef UTF8 i, s)" if "i < length (utf8Names s)"
    using utf8_hit [OF wf that] by (auto simp: lookupNameUTF8_def lookupName_def enterNameUTF8_def Let_def)
  show "lookupNameUTF8 xxh k s = Inr 0" if "k \<notin> set (utf8Names s)"
    using utf8_miss [OF wf that] by (auto simp: lookupNameUTF8_def lookupName_def slot_def)
  show "enterNameUTF8 xxh k s = Inl TableFrozen" if "k \<notin> set (utf8Names s)" "nameTableFrozen s"
    using utf8_miss [OF wf that(1)] that(2) by (auto simp: enterNameUTF8_def slot_def Let_def)
  show "\<exists>s'. enterNameUTF8 xxh k s = Inr (mkNameRef UTF8 (length (utf8Names s)), s') \<and> wf_names xxh s'
      \<and> utf8Names s' = utf8Names s @ [k] \<and> True" if "k \<notin> set (utf8Names s)" "can_grow s"
    using enterNameUTF8_new [OF wf that] by blast
qed simp

interpretation cnst: interning CONSTANT constantNames lookupNameConstant enterNameConstant
  "\<lambda>c s. c \<noteq> 0 \<and> isValidConstantName s c" "wf_names xxh" for xxh
proof unfold_locales
  fix s i k
  assume wf: "wf_names xxh s"
  show "length (constantNames s) \<le> 2 ^ 30" "distinct (constantNames s)"
    using wf by (auto simp: wf_names_def capacity_def)
  show "lookupNameConstant (constantNames s ! i) s = Inr (mkNameRef CONSTANT i)"
    "enterNameConstant (constantNames s ! i) s = Inr (mkNameRef CONSTANT i, s)"
    if "constantNames s ! i \<noteq> 0 \<and> isValidConstantName s (constantNames s ! i)" "i < length (constantNames s)"
    using constant_hit [OF wf that(2)] that(1)
    by (auto simp: lookupNameConstant_def lookupName_def enterNameConstant_def Let_def)
  show "lookupNameConstant k s = Inr 0" if "k \<notin> set (constantNames s)"
    using constant_miss [OF wf that] by (auto simp: lookupNameConstant_def lookupName_def slot_def)
  assume valid: "k \<noteq> 0 \<and> isValidConstantName s k"
  show "enterNameConstant k s = Inl TableFrozen" if "k \<notin> set (constantNames s)" "nameTableFrozen s"
    using constant_miss [OF wf that(1)] that(2) valid by (auto simp: enterNameConstant_def slot_def Let_def)
  show "\<exists>s'. enterNameConstant k s = Inr (mkNameRef CONSTANT (length (constantNames s)), s') \<and> wf_names xxh s'
      \<and> constantNames s' = constantNames s @ [k] \<and> k \<noteq> 0 \<and> isValidConstantName s' k"
    if "k \<notin> set (constantNames s)" "can_grow s"
    using enterNameConstant_new [OF wf that] valid by (auto simp: isValidConstantName_def)
qed simp

interpretation unique: interning UNIQUE uniqueNames lookupNameUnique freshNameUnique
  "\<lambda>u s. un_num u \<noteq> 0" "wf_names xxh" for xxh
proof unfold_locales
  fix s i and k :: unique_name
  assume wf: "wf_names xxh s"
  show "length (uniqueNames s) \<le> 2 ^ 30" "distinct (uniqueNames s)"
    using wf by (auto simp: wf_names_def capacity_def)
  show "lookupNameUnique (uniqueNames s ! i) s = Inr (mkNameRef UNIQUE i)"
    "freshNameUnique (uniqueNames s ! i) s = Inr (mkNameRef UNIQUE i, s)"
    if "un_num (uniqueNames s ! i) \<noteq> 0" "i < length (uniqueNames s)"
    using unique_hit [OF wf that(2)] that(1)
    by (auto simp: lookupNameUnique_def lookupName_def freshNameUnique_def hashUnique_def Let_def)
  assume valid: "un_num k \<noteq> 0"
  show "lookupNameUnique k s = Inr 0" if "k \<notin> set (uniqueNames s)"
    using unique_miss [OF wf that] valid
    by (auto simp: lookupNameUnique_def lookupName_def slot_def hashUnique_def)
  show "freshNameUnique k s = Inl TableFrozen" if "k \<notin> set (uniqueNames s)" "nameTableFrozen s"
    using unique_miss [OF wf that(1)] that(2) valid
    by (auto simp: freshNameUnique_def slot_def hashUnique_def Let_def)
  show "\<exists>s'. freshNameUnique k s = Inr (mkNameRef UNIQUE (length (uniqueNames s)), s') \<and> wf_names xxh s'
      \<and> uniqueNames s' = uniqueNames s @ [k] \<and> un_num k \<noteq> 0"
    if "k \<notin> set (uniqueNames s)" "can_grow s"
    using freshNameUnique_new [OF wf that valid] valid by blast
qed simp

section \<open>The initial table\<close>

text \<open>The \<open>GlobalState\<close> constructor, with the three \<open>PAYLOAD_MAX\<close> counts as arguments.\<close>

definition initNames :: "nat \<Rightarrow> nat \<Rightarrow> nat \<Rightarrow> name_table" where
  "initNames utf8Max constantMax uniqueMax = \<lparr>utf8Names = [], constantNames = [], uniqueNames = [],
     utf8Capacity = utf8Max, constantCapacity = constantMax, uniqueCapacity = uniqueMax,
     namesByHash = replicate (unat (nextPowerOfTwo (2 * (of_nat (utf8Max + constantMax + uniqueMax))))) emptyBucket,
     nameTableFrozen = False\<rparr>"

lemma wf_initNames:
  assumes "0 < u" "0 < c" "0 < q" "u + c + q \<le> 2 ^ 30"
  shows "wf_names xxh (initNames u c q)"
proof -
  let ?w = "2 * (of_nat (u + c + q)) :: u32"
  have "?w = of_nat (2 * (u + c + q))"
    by simp
  moreover have "2 * (u + c + q) < 2 ^ 32"
    using assms(4) by simp
  ultimately have uw: "unat ?w = 2 * (u + c + q)"
    by (simp only: unat_of_nat_u32)
  then obtain k where k: "k \<le> 31" "unat (nextPowerOfTwo ?w) = 2 ^ k" "2 * (u + c + q) \<le> 2 ^ k"
    using nextPowerOfTwo_spec [of ?w] assms(4) by auto
  have "sized k (namesByHash (initNames u c q))" "chained k (namesByHash (initNames u c q))"
    "occupied (namesByHash (initNames u c q)) = {#}" "u + c + q + 2 \<le> 2 ^ k"
    using k assms by (auto simp: initNames_def sized_def chained_def occupied_def present_def emptyBucket_def)
  then show ?thesis
    using assms unfolding wf_names_def by (auto simp: initNames_def capacity_def entries_def entriesFor_def)
qed

text \<open>A consistent table with a name of each kind.\<close>

lemma three_names:
  assumes "0 < u" "0 < c" "0 < q" "8 * (u + c + q) \<le> 2 ^ 30" and un: "un_num k \<noteq> 0"
  shows "\<exists>nt. wf_names xxh nt \<and> utf8Names nt = [nm] \<and> constantNames nt = [mkNameRef UTF8 0] \<and> uniqueNames nt = [k]
     \<and> u + c + q \<le> capacity nt \<and> capacity nt \<le> 8 * (u + c + q)"
proof -
  let ?n0 = "initNames u c q"
  have n0: "wf_names xxh ?n0" "capacity ?n0 = u + c + q" "\<not> nameTableFrozen ?n0" "utf8Names ?n0 = []"
    "constantNames ?n0 = []" "uniqueNames ?n0 = []"
    using assms wf_initNames by (auto simp: initNames_def capacity_def)
  have "can_grow ?n0" "nm \<notin> set (utf8Names ?n0)"
    using n0 assms by (auto simp: can_grow_def)
  from enterNameUTF8_new [OF n0(1) this(2,1)] n0 obtain n1 where
    n1: "wf_names xxh n1" "utf8Names n1 = [nm]" "constantNames n1 = []" "uniqueNames n1 = []" "\<not> nameTableFrozen n1"
    "u + c + q \<le> capacity n1" "capacity n1 \<le> 2 * (u + c + q)"
    by auto
  have "can_grow n1" "mkNameRef UTF8 0 \<notin> set (constantNames n1)" "mkNameRef UTF8 0 \<noteq> 0"
    "isValidConstantName n1 (mkNameRef UTF8 0)"
    using n1 assms by (auto simp: can_grow_def mkNameRef_decode isValidConstantName_def)
  from enterNameConstant_new [OF n1(1) this(2,1,3,4)] n1 obtain n2 where
    n2: "wf_names xxh n2" "utf8Names n2 = [nm]" "constantNames n2 = [mkNameRef UTF8 0]" "uniqueNames n2 = []"
    "\<not> nameTableFrozen n2" "u + c + q \<le> capacity n2" "capacity n2 \<le> 4 * (u + c + q)"
    by auto
  have "can_grow n2" "k \<notin> set (uniqueNames n2)"
    using n2 assms by (auto simp: can_grow_def)
  from freshNameUnique_new [OF n2(1) this(2,1) un] n2 show ?thesis
    by auto
qed

section \<open>Properties\<close>

text \<open>\<open>nextPowerOfTwo\<close> is the least power of two that is not smaller than its argument, as long as there
  is one below \<open>2^32\<close>; above \<open>2^31\<close> the increment wraps around and it returns 0.\<close>

lemma nextPowerOfTwo_least:
  "if unat v \<le> 2 ^ 31
   then \<exists>k. unat (nextPowerOfTwo v) = 2 ^ k \<and> unat v \<le> 2 ^ k \<and> (\<forall>j. \<not> (unat v \<le> 2 ^ j \<and> j < k))
   else nextPowerOfTwo v = 0"
proof (cases "unat v \<le> 2 ^ 31")
  case True
  then obtain k where k: "unat (nextPowerOfTwo v) = 2 ^ k" "unat v \<le> 2 ^ k" "k > 0 \<longrightarrow> 2 ^ (k - 1) < unat v"
    using nextPowerOfTwo_spec by blast
  have "\<not> (unat v \<le> 2 ^ j \<and> j < k)" for j
  proof
    assume j: "unat v \<le> 2 ^ j \<and> j < k"
    then have "(2 :: nat) ^ j \<le> 2 ^ (k - 1)"
      by (intro power_increasing) auto
    moreover have "2 ^ (k - 1) < unat v"
      using j k(3) by auto
    ultimately show False
      using j by linarith
  qed
  with True k show ?thesis by auto
next
  case False
  define u where "u = v - 1"
  have v0: "v \<noteq> 0" and uu: "2 ^ 31 \<le> unat u"
    using False by (auto simp: u_def unat_sub_if' word_unat_eq_iff)
  define v1 where "v1 = u OR drop_bit 1 u"
  define v2 where "v2 = v1 OR drop_bit 2 v1"
  define v3 where "v3 = v2 OR drop_bit 4 v2"
  define v4 where "v4 = v3 OR drop_bit 8 v3"
  define w where "w = v4 OR drop_bit 16 v4"
  have "smears 32 u w"
    unfolding w_def v4_def v3_def v2_def v1_def by (rule smears_32)
  moreover have "u \<noteq> 0"
    using uu by auto
  ultimately obtain h where h: "h < 32" "w = mask (Suc h)" "unat u < 2 ^ Suc h"
    using smeared_mask by blast
  have "h = 31"
  proof (rule ccontr)
    assume "h \<noteq> 31"
    with h(1) have "(2 :: nat) ^ Suc h \<le> 2 ^ 31"
      by (intro power_increasing) auto
    with h(3) uu show False by simp
  qed
  with h(2) have "w + 1 = 0"
    by (simp add: mask_eq_exp_minus_1)
  moreover have "nextPowerOfTwo v = w + 1"
    using v0 by (simp only: nextPowerOfTwo_def Let_def if_False w_def v4_def v3_def v2_def v1_def u_def)
  ultimately show ?thesis
    using False by simp
qed

text \<open>C30: The probe loop of \<open>lookupBucket\<close> on a power-of-two table stops unless every bucket is occupied by
  another name: triangular probing reaches every bucket within as many probes as there are buckets.\<close>

theorem lookupBucket_diverges_iff:
  assumes "sized k bs"
  shows "lookupBucket bs hash pred = Inl Diverges \<longleftrightarrow>
     (\<forall>b \<in> set bs. present b \<and> \<not> (bk_hash b = hash \<and> pred (bk_rawId b)))"
proof -
  let ?p = "probe k (unat hash)"
  have "lookupBucket bs hash pred = Inl Diverges \<longleftrightarrow> (\<forall>j < 2 ^ k. \<not> stops bs pred hash (?p j))"
    unfolding lookupBucket_find [OF assms]
    by (auto simp: find_None_iff find_Some_iff split: option.splits if_splits)
  also have "\<dots> \<longleftrightarrow> (\<forall>t < length bs. \<not> stops bs pred hash t)"
    using probe_surj [of _ k "unat hash"] assms by (metis probe_less sized_def)
  also have "\<dots> \<longleftrightarrow> (\<forall>b \<in> set bs. present b \<and> \<not> (bk_hash b = hash \<and> pred (bk_rawId b)))"
    by (auto simp: stops_def set_conv_nth)
  finally show ?thesis .
qed

theorem lookupBucket_diverges_iff_witness:
  "sized 1 [\<lparr>bk_hash = 3, bk_rawId = 5\<rparr>, \<lparr>bk_hash = 4, bk_rawId = 9\<rparr>] \<and>
   lookupBucket [\<lparr>bk_hash = 3, bk_rawId = 5\<rparr>, \<lparr>bk_hash = 4, bk_rawId = 9\<rparr>] 3 (\<lambda>r. r = 9) = Inl Diverges"
proof -
  have "sized 1 [\<lparr>bk_hash = 3, bk_rawId = 5\<rparr>, \<lparr>bk_hash = 4, bk_rawId = 9\<rparr>]"
    by (simp add: sized_def)
  from lookupBucket_diverges_iff [OF this, of 3 "\<lambda>r. r = 9"] this show ?thesis
    by (simp add: present_def)
qed

text \<open>C3: Entering a UTF-8 name always succeeds in a consistent table that may grow, keeps the table
  consistent, keeps the references of the names already there, and the reference returned is the one every
  later lookup and every later entering of the name returns, whatever the hash function.\<close>

theorem enterNameUTF8_interns:
  assumes "wf_names xxh nt" and "can_grow nt"
  shows "\<exists>r nt'. enterNameUTF8 xxh nm nt = Inr (r, nt') \<and> wf_names xxh nt' \<and> r \<noteq> 0
     \<and> lookupNameUTF8 xxh nm nt' = Inr r \<and> enterNameUTF8 xxh nm nt' = Inr (r, nt')
     \<and> utf8Names nt' = (if nm \<in> set (utf8Names nt) then utf8Names nt else utf8Names nt @ [nm])"
  using utf8.enter_then_lookup [OF assms(1) _ assms(2), of nm] by auto

theorem enterNameUTF8_interns_witness:
  "wf_names (\<lambda>_. 7) (initNames 1 1 1) \<and> can_grow (initNames 1 1 1) \<and>
   (\<exists>r nt'. enterNameUTF8 (\<lambda>_. 7) ''foo'' (initNames 1 1 1) = Inr (r, nt') \<and> lookupNameUTF8 (\<lambda>_. 7) ''foo'' nt' = Inr r
      \<and> utf8Names nt' = [''foo''])"
proof -
  have wf: "wf_names (\<lambda>_. 7) (initNames 1 1 1)"
    by (rule wf_initNames) simp_all
  have grow: "can_grow (initNames 1 1 1)"
    by (simp add: can_grow_def initNames_def capacity_def)
  from enterNameUTF8_interns [OF wf grow, of "''foo''"] wf grow show ?thesis
    by (auto simp: initNames_def)
qed

lemma enterNameUTF8_any:
  assumes wf: "wf_names xxh nt" and grow: "can_grow nt"
  shows "\<exists>i nt'. enterNameUTF8 xxh nm nt = Inr (mkNameRef UTF8 i, nt') \<and> wf_names xxh nt'
     \<and> i < length (utf8Names nt') \<and> utf8Names nt' ! i = nm
     \<and> nameTableFrozen nt' = nameTableFrozen nt \<and> capacity nt' \<le> 2 * capacity nt"
proof (cases "nm \<in> set (utf8Names nt)")
  case True
  then obtain i where i: "i < length (utf8Names nt)" "utf8Names nt ! i = nm"
    by (auto simp: in_set_conv_nth)
  then have "enterNameUTF8 xxh nm nt = Inr (mkNameRef UTF8 i, nt)"
    using utf8.enter_hit [OF wf, of i] by simp
  with i wf show ?thesis by auto
next
  case False
  from enterNameUTF8_new [OF wf False grow] show ?thesis
    by (intro exI [of _ "length (utf8Names nt)"]) auto
qed

text \<open>Entering a constant by its string enters the UTF-8 name and the constant over it; the lookup by
  the same string then finds the constant, in a table that stays consistent.\<close>

lemma enterNameConstant_found:
  assumes wf: "wf_names xxh nt" and "\<not> nameTableFrozen nt" and "4 * capacity nt \<le> 2 ^ 30"
  shows "\<exists>r nt'. enterNameConstantStr xxh nm nt = Inr (r, nt') \<and> wf_names xxh nt'
     \<and> lookupNameConstantStr xxh nm nt' = Inr r \<and> nameKind r = CONSTANT"
proof -
  have "can_grow nt"
    using assms by (simp add: can_grow_def)
  then obtain i nt1 where nt1: "enterNameUTF8 xxh nm nt = Inr (mkNameRef UTF8 i, nt1)" "wf_names xxh nt1"
    "i < length (utf8Names nt1)" "utf8Names nt1 ! i = nm" "nameTableFrozen nt1 = nameTableFrozen nt"
    "capacity nt1 \<le> 2 * capacity nt"
    using enterNameUTF8_any [OF wf] by blast
  let ?c = "mkNameRef UTF8 i"
  have i30: "i < 2 ^ 30"
    by (rule wf_index(1) [OF nt1(2,3)])
  have valid: "?c \<noteq> 0 \<and> isValidConstantName s ?c" for s
    using i30 by (simp add: isValidConstantName_def mkNameRef_decode)
  have grow1: "can_grow nt1"
    using assms nt1 by (simp add: can_grow_def)
  obtain j nt2 where nt2: "enterNameConstant ?c nt1 = Inr (mkNameRef CONSTANT j, nt2)" "wf_names xxh nt2"
    "j < length (constantNames nt2)" "constantNames nt2 ! j = ?c" "utf8Names nt2 = utf8Names nt1"
  proof (cases "?c \<in> set (constantNames nt1)")
    case True
    then obtain j where "j < length (constantNames nt1)" "constantNames nt1 ! j = ?c"
      by (auto simp: in_set_conv_nth)
    then show thesis
      using cnst.enter_hit [OF nt1(2), of j] valid nt1(2) that [of j nt1] by simp
  next
    case False
    from enterNameConstant_new [OF nt1(2) False grow1] valid show thesis
      using that [of "length (constantNames nt1)"] by auto
  qed
  have "lookupNameUTF8 xxh nm nt2 = Inr ?c"
    using utf8.lookup_hit [OF nt2(2), of i] nt1(3,4) nt2(5) by simp
  moreover have "lookupNameConstant ?c nt2 = Inr (mkNameRef CONSTANT j)"
    using cnst.lookup_hit [OF nt2(2), of j] nt2(3,4) valid by simp
  moreover have "nameKind (mkNameRef CONSTANT j) = CONSTANT"
    using wf_index(2) [OF nt2(2,3)] by (simp add: mkNameRef_decode)
  ultimately show ?thesis
    using nt1(1) nt2(1,2) valid by (simp add: enterNameConstantStr_def lookupNameConstantStr_def)
qed

text \<open>C26: Distinct names get distinct references, also when their hashes collide: entering two different
  strings one after the other gives two different references, and each string is still looked up as its own.\<close>

theorem names_distinct:
  assumes wf: "wf_names xxh nt" and "\<not> nameTableFrozen nt" and "4 * capacity nt \<le> 2 ^ 30" and "a \<noteq> b"
  shows "\<exists>r r' nt' nt''. enterNameUTF8 xxh a nt = Inr (r, nt') \<and> enterNameUTF8 xxh b nt' = Inr (r', nt'')
     \<and> r \<noteq> r' \<and> lookupNameUTF8 xxh a nt'' = Inr r \<and> lookupNameUTF8 xxh b nt'' = Inr r'"
proof -
  have "can_grow nt"
    using assms by (simp add: can_grow_def)
  then obtain i nt1 where nt1: "enterNameUTF8 xxh a nt = Inr (mkNameRef UTF8 i, nt1)" "wf_names xxh nt1"
    "i < length (utf8Names nt1)" "utf8Names nt1 ! i = a" "nameTableFrozen nt1 = nameTableFrozen nt"
    "capacity nt1 \<le> 2 * capacity nt"
    using enterNameUTF8_any [OF wf] by blast
  have "can_grow nt1"
    using assms nt1 by (simp add: can_grow_def)
  from utf8.enter_then_lookup [OF nt1(2) _ this, of b] obtain r' nt2 where
    nt2: "enterNameUTF8 xxh b nt1 = Inr (r', nt2)" "wf_names xxh nt2" "lookupNameUTF8 xxh b nt2 = Inr r'" "r' \<noteq> 0"
    "utf8Names nt2 = (if b \<in> set (utf8Names nt1) then utf8Names nt1 else utf8Names nt1 @ [b])"
    by auto
  have "i < length (utf8Names nt2)" "utf8Names nt2 ! i = a"
    using nt1(3,4) nt2(5) by (auto simp: nth_append)
  then have look: "lookupNameUTF8 xxh a nt2 = Inr (mkNameRef UTF8 i)"
    using utf8.lookup_hit [OF nt2(2), of i] by simp
  then have "mkNameRef UTF8 i \<noteq> r'"
    using utf8.lookup_injective [OF nt2(2), where k = a and k' = b and r = r'] nt2(3,4) assms(4) by auto
  then show ?thesis
    using nt1(1) nt2(1,3) look by blast
qed

theorem names_distinct_witness:
  "wf_names (\<lambda>_. 7) (initNames 1 1 1) \<and>
   (\<exists>r r' nt' nt''. enterNameUTF8 (\<lambda>_. 7) ''a'' (initNames 1 1 1) = Inr (r, nt')
      \<and> enterNameUTF8 (\<lambda>_. 7) ''b'' nt' = Inr (r', nt'') \<and> r \<noteq> r'
      \<and> lookupNameUTF8 (\<lambda>_. 7) ''a'' nt'' = Inr r)"
proof -
  have wf: "wf_names (\<lambda>_. 7) (initNames 1 1 1)"
    by (rule wf_initNames) simp_all
  have "\<not> nameTableFrozen (initNames 1 1 1)" "4 * capacity (initNames 1 1 1) \<le> 2 ^ 30" "''a'' \<noteq> ''b''"
    by (simp_all add: initNames_def capacity_def)
  from names_distinct [OF wf this] wf show ?thesis by blast
qed

lemma lookupNameConstant_hit:
  "wf_names xxh nt \<Longrightarrow> i < length (constantNames nt) \<Longrightarrow> lookupNameConstant (constantNames nt ! i) nt = Inr (mkNameRef CONSTANT i)"
  using constant_hit [of xxh nt i] by (auto simp: lookupNameConstant_def lookupName_def)

lemma lookupNameConstant_miss:
  "wf_names xxh nt \<Longrightarrow> c \<notin> set (constantNames nt) \<Longrightarrow> lookupNameConstant c nt = Inr 0"
  using constant_miss [of xxh nt c] by (auto simp: lookupNameConstant_def lookupName_def slot_def)

text \<open>C27: Growing the table (\<open>expandNames\<close> with its rehashing \<open>moveNames\<close>) neither fails nor loses a name: the vectors
  of names stay as they are, and looking up any UTF-8 name, constant name or unique name gives the
  reference it gave before.\<close>

theorem expandNames_keeps_names:
  assumes "wf_names xxh nt" and "utf8Capacity nt \<le> u" and "constantCapacity nt \<le> c"
    and "uniqueCapacity nt \<le> q" and "u + c + q \<le> 2 ^ 30"
  shows "\<exists>nt'. expandNames u c q nt = Inr nt' \<and> wf_names xxh nt'
     \<and> utf8Names nt' = utf8Names nt \<and> constantNames nt' = constantNames nt \<and> uniqueNames nt' = uniqueNames nt
     \<and> (\<forall>nm. lookupNameUTF8 xxh nm nt' = lookupNameUTF8 xxh nm nt)
     \<and> (\<forall>r. lookupNameConstant r nt' = lookupNameConstant r nt)
     \<and> (\<forall>k. lookupNameUnique k nt' = lookupNameUnique k nt)"
proof -
  obtain nt' where nt': "expandNames u c q nt = Inr nt'" "wf_names xxh nt'" "same_names nt nt'"
    using expandNames_ok [OF assms] by blast
  have "lookupNameUTF8 xxh nm nt' = lookupNameUTF8 xxh nm nt" for nm
    using utf8.lookup_hit [OF assms(1)] utf8.lookup_hit [OF nt'(2)] utf8.lookup_miss [OF assms(1), of nm]
      utf8.lookup_miss [OF nt'(2), of nm] nt'(3)
    by (cases "nm \<in> set (utf8Names nt)") (auto simp: same_names_def in_set_conv_nth)
  moreover have "lookupNameConstant r nt' = lookupNameConstant r nt" for r
    using lookupNameConstant_hit [OF assms(1)] lookupNameConstant_hit [OF nt'(2)] lookupNameConstant_miss [OF assms(1), of r]
      lookupNameConstant_miss [OF nt'(2), of r] nt'(3)
    by (cases "r \<in> set (constantNames nt)") (auto simp: same_names_def in_set_conv_nth)
  moreover have "lookupNameUnique k nt' = lookupNameUnique k nt" for k
  proof (cases "un_num k = 0")
    case False
    then show ?thesis
      using unique.lookup_hit [OF assms(1)] unique.lookup_hit [OF nt'(2)] unique.lookup_miss [OF assms(1), of k]
        unique.lookup_miss [OF nt'(2), of k] nt'(3)
      by (cases "k \<in> set (uniqueNames nt)") (auto simp: same_names_def in_set_conv_nth)
  qed (simp add: lookupNameUnique_def)
  ultimately show ?thesis
    using nt' by (auto simp: same_names_def)
qed

theorem expandNames_keeps_names_witness:
  "\<exists>nt nt'. utf8Names nt = [''a''] \<and> constantNames nt = [mkNameRef UTF8 0]
     \<and> expandNames 24 24 24 nt = Inr nt' \<and> lookupNameUTF8 (\<lambda>_. 7) ''a'' nt' = Inr (mkNameRef UTF8 0)
     \<and> lookupNameConstant (mkNameRef UTF8 0) nt' = Inr (mkNameRef CONSTANT 0)
     \<and> lookupNameUnique \<lparr>un_original = 1, un_num = 1, un_kind = 1\<rparr> nt' = Inr (mkNameRef UNIQUE 0)"
proof -
  let ?k = "\<lparr>un_original = 1, un_num = 1, un_kind = 1\<rparr> :: unique_name"
  obtain nt where nt: "wf_names (\<lambda>_. 7) nt" "utf8Names nt = [''a'']" "constantNames nt = [mkNameRef UTF8 0]" "uniqueNames nt = [?k]"
      "capacity nt \<le> 24"
    using three_names [of 1 1 1 ?k "\<lambda>_. 7" "''a''"] by auto
  then have cap: "utf8Capacity nt \<le> 24" "constantCapacity nt \<le> 24" "uniqueCapacity nt \<le> 24" by (simp_all add: capacity_def)
  have "lookupNameUTF8 (\<lambda>_. 7) ''a'' nt = Inr (mkNameRef UTF8 0)" "lookupNameConstant (mkNameRef UTF8 0) nt = Inr (mkNameRef CONSTANT 0)"
    "lookupNameUnique ?k nt = Inr (mkNameRef UNIQUE 0)"
    using utf8.lookup_hit [OF nt(1), of 0] lookupNameConstant_hit [OF nt(1), of 0] unique.lookup_hit [OF nt(1), of 0] nt(2-4) by simp_all
  with expandNames_keeps_names [OF nt(1) cap] nt(2,3) show ?thesis by auto
qed

end
