(* ===== verification/TableCodec.thy ===== *)
theory TableCodec
  imports NameTable
begin

text \<open>
  The tables of a \<open>GlobalState\<close> as \<open>SerializerImpl\<close> writes and reads them: the symbol table, the name
  table with its hash index, the differences of name tables of the key-value cache, and the file table.
\<close>

section \<open>The symbol table\<close>

record symbol_table =
  classAndModules :: "class_or_module list"
  methods :: "method_sym list"
  symFields :: "field list"
  typeParameters :: "type_parameter list"
  typeMembers :: "type_parameter list"

definition pickleSymbolTable :: "symbol_table \<Rightarrow> put" where
  "pickleSymbolTable st = writes
     [wSize (length (classAndModules st)), forEach (classAndModules st) pickleClassOrModule,
      wSize (length (methods st)), forEach (methods st) pickleMethod,
      wSize (length (symFields st)), forEach (symFields st) pickleField,
      wSize (length (typeParameters st)), forEach (typeParameters st) pickleTypeParameter,
      wSize (length (typeMembers st)), forEach (typeMembers st) pickleTypeParameter]"

text \<open>\<open>int size = p.getU4(); ENFORCE_NO_TIMER(size > 0)\<close>.\<close>

definition getPositive :: "nat get" where
  "getPositive = bindG getSize (\<lambda>n. if 0 < n then returnG n else failG BadTable)"

definition unpickleSymbolTable :: "nat \<Rightarrow> symbol_table get" where
  "unpickleSymbolTable fuel =
     bindG getPositive (\<lambda>n1. bindG (repeatG n1 (unpickleClassOrModule fuel)) (\<lambda>cs.
     bindG getPositive (\<lambda>n2. bindG (repeatG n2 (unpickleMethod fuel)) (\<lambda>ms.
     bindG getPositive (\<lambda>n3. bindG (repeatG n3 (unpickleField fuel)) (\<lambda>fs.
     bindG getPositive (\<lambda>n4. bindG (repeatG n4 (unpickleTypeParameter fuel)) (\<lambda>tps.
     bindG getPositive (\<lambda>n5. bindG (repeatG n5 (unpickleTypeParameter fuel)) (\<lambda>tms.
       returnG \<lparr>classAndModules = cs, methods = ms, symFields = fs, typeParameters = tps,
                typeMembers = tms\<rparr>))))))))))"

definition table_size :: "'a list \<Rightarrow> bool" where
  "table_size xs \<longleftrightarrow> 0 < length xs \<and> length xs < 2 ^ 31"

definition wf_symbol_table :: "nat \<Rightarrow> symbol_table \<Rightarrow> bool" where
  "wf_symbol_table fuel st \<longleftrightarrow>
     table_size (classAndModules st) \<and> list_all (wf_class fuel) (classAndModules st)
     \<and> table_size (methods st) \<and> list_all (wf_method fuel) (methods st)
     \<and> table_size (symFields st) \<and> list_all (wf_field fuel) (symFields st)
     \<and> table_size (typeParameters st) \<and> list_all (wf_type_parameter fuel) (typeParameters st)
     \<and> table_size (typeMembers st) \<and> list_all (wf_type_parameter fuel) (typeMembers st)"

definition canonSymbolTable :: "symbol_table \<Rightarrow> symbol_table" where
  "canonSymbolTable st = \<lparr>classAndModules = map canonClass (classAndModules st),
     methods = map canonMethod (methods st), symFields = map canonField (symFields st),
     typeParameters = map canonTypeParameter (typeParameters st),
     typeMembers = map canonTypeParameter (typeMembers st)\<rparr>"

lemma agrees_Positive: "0 < n \<Longrightarrow> n < 2 ^ 31 \<Longrightarrow> agrees (wSize n) getPositive n"
  unfolding getPositive_def
  by (rule agrees_bind [where Q = "writes []", OF agrees_Size]) (simp_all add: agrees_done)

lemma agrees_SymbolTable:
  assumes "wf_symbol_table n st"
  shows "agrees (pickleSymbolTable st) (unpickleSymbolTable n) (canonSymbolTable st)"
  using assms
  unfolding pickleSymbolTable_def unpickleSymbolTable_def wf_symbol_table_def table_size_def list_all_iff
  by - (elim conjE, (rule agrees_rules agrees_Positive symClass.array_canon symMethod.array_canon
        symField.array_canon symTypeParameter.array_canon | blast | simp add: canonSymbolTable_def)+)

interpretation symTable:
  canonical_codec pickleSymbolTable "unpickleSymbolTable n" "wf_symbol_table n" canonSymbolTable for n
proof unfold_locales
  fix st
  assume wf: "wf_symbol_table n st"
  show "agrees (pickleSymbolTable st) (unpickleSymbolTable n) (canonSymbolTable st)"
    by (rule agrees_SymbolTable [OF wf])
  show "pickleSymbolTable (canonSymbolTable st) = pickleSymbolTable st"
    using wf by (simp add: pickleSymbolTable_def canonSymbolTable_def wf_symbol_table_def
      symClass.array_put_canon [where n = n] symMethod.array_put_canon [where n = n] symField.array_put_canon [where n = n]
      symTypeParameter.array_put_canon [where n = n])
  show "wf_symbol_table n (canonSymbolTable st)"
    using wf symClass.wf_canon symMethod.wf_canon symField.wf_canon symTypeParameter.wf_canon
    by (auto simp: wf_symbol_table_def canonSymbolTable_def table_size_def list_all_iff)
qed

section \<open>The name table\<close>

text \<open>One \<open>for\<close> loop over a vector of names: the hash, then the name.\<close>

definition pickleNamed :: "('a \<Rightarrow> u32) \<Rightarrow> ('a \<Rightarrow> put) \<Rightarrow> 'a \<Rightarrow> put" where
  "pickleNamed hashf P n = writes [wU4 (hashf n), P n]"

definition pickleNameTable :: "(string \<Rightarrow> u32) \<Rightarrow> name_table \<Rightarrow> put" where
  "pickleNameTable xxh nt = writes
     [wSize (length (namesByHash nt)),
      wSize (length (utf8Names nt)), forEach (utf8Names nt) (pickleNamed (hashMixUTF8 xxh) pickleUTF8Name),
      wSize (length (constantNames nt)), forEach (constantNames nt) (pickleNamed hashMixConstant pickleConstantName),
      wSize (length (uniqueNames nt)), forEach (uniqueNames nt) (pickleNamed hashUnique pickleUniqueName)]"

text \<open>
  One reading loop: the name goes to the end of its vector, and the first empty bucket on the probe
  sequence of its hash gets its reference.
\<close>

fun readNames ::
  "nat \<Rightarrow> nat \<Rightarrow> u32 \<Rightarrow> 'a get \<Rightarrow> ('a \<Rightarrow> name_table \<Rightarrow> name_table) \<Rightarrow> name_table \<Rightarrow> name_table get" where
  "readNames 0 i kind g add nt = returnG nt"
| "readNames (Suc n) i kind g add nt =
     bindG getU4 (\<lambda>hash. bindG g (\<lambda>x.
       case lookupBucket (namesByHash (add x nt)) hash (\<lambda>_. False) of
         Inl e \<Rightarrow> failG BadNameTable
       | Inr t \<Rightarrow> readNames n (Suc i) kind g add (fillBucket t hash (mkNameRef kind i) (add x nt))))"

definition addUtf8 :: "string \<Rightarrow> name_table \<Rightarrow> name_table" where
  "addUtf8 x nt = nt\<lparr>utf8Names := utf8Names nt @ [x]\<rparr>"

definition addConstant :: "u32 \<Rightarrow> name_table \<Rightarrow> name_table" where
  "addConstant x nt = nt\<lparr>constantNames := constantNames nt @ [x]\<rparr>"

definition addUnique :: "unique_name \<Rightarrow> name_table \<Rightarrow> name_table" where
  "addUnique x nt = nt\<lparr>uniqueNames := uniqueNames nt @ [x]\<rparr>"

text \<open>
  \<open>clear()\<close> keeps the capacity of a vector and \<open>reserve\<close> never shrinks it, so the vectors of the
  table that is read into keep at least the capacity they had.
\<close>

definition clearNames :: "name_table \<Rightarrow> name_table" where
  "clearNames nt = nt\<lparr>utf8Names := [], constantNames := [], uniqueNames := [], namesByHash := []\<rparr>"

definition resizeNamesByHash :: "nat \<Rightarrow> name_table \<Rightarrow> name_table" where
  "resizeNamesByHash n nt = nt\<lparr>namesByHash :=
     take n (namesByHash nt) @ replicate (n - length (namesByHash nt)) emptyBucket\<rparr>"

definition reserveFor :: "nat \<Rightarrow> nat \<Rightarrow> nat" where
  "reserveFor cap n = max cap (unat (nextPowerOfTwo (of_nat n)))"

definition unpickleNameTable :: "name_table \<Rightarrow> name_table get" where
  "unpickleNameTable result =
     (let result = clearNames result
      in bindG getU4 (\<lambda>namesByHashSize.
         if namesByHashSize AND (namesByHashSize - 1) \<noteq> 0 then failG BadTable else
         let result = resizeNamesByHash (unat namesByHashSize) result
         in bindG getPositive (\<lambda>n1.
         let result = result\<lparr>utf8Capacity := reserveFor (utf8Capacity result) n1\<rparr>
         in bindG (readNames n1 0 UTF8 unpickleUTF8Name addUtf8 result) (\<lambda>result.
         bindG getPositive (\<lambda>n2.
         let result = result\<lparr>constantCapacity := reserveFor (constantCapacity result) n2\<rparr>
         in bindG (readNames n2 0 CONSTANT unpickleConstantName addConstant result) (\<lambda>result.
         bindG getPositive (\<lambda>n3.
         let result = result\<lparr>uniqueCapacity := reserveFor (uniqueCapacity result) n3\<rparr>
         in readNames n3 0 UNIQUE unpickleUniqueName addUnique result)))))))"

text \<open>The counts of names already in the cache (\<open>utf8NamesWritten_\<close> and its two companions).\<close>

record names_written =
  utf8NamesWritten :: nat
  constantNamesWritten :: nat
  uniqueNamesWritten :: nat

definition pickleNameTableDiff :: "(string \<Rightarrow> u32) \<Rightarrow> names_written \<Rightarrow> name_table \<Rightarrow> put" where
  "pickleNameTableDiff xxh w nt = writes
     [wSize (utf8NamesWritten w), wSize (length (utf8Names nt) - utf8NamesWritten w),
      forEach (drop (utf8NamesWritten w) (utf8Names nt)) (pickleNamed (hashMixUTF8 xxh) pickleUTF8Name),
      wSize (constantNamesWritten w), wSize (length (constantNames nt) - constantNamesWritten w),
      forEach (drop (constantNamesWritten w) (constantNames nt)) (pickleNamed hashMixConstant pickleConstantName),
      wSize (uniqueNamesWritten w), wSize (length (uniqueNames nt) - uniqueNamesWritten w),
      forEach (drop (uniqueNamesWritten w) (uniqueNames nt)) (pickleNamed hashUnique pickleUniqueName)]"

text \<open>\<open>ENFORCE(result.names.size() == start)\<close>, then the loop from \<open>start\<close>.\<close>

definition readNamesFrom ::
  "(name_table \<Rightarrow> nat) \<Rightarrow> u32 \<Rightarrow> 'a get \<Rightarrow> ('a \<Rightarrow> name_table \<Rightarrow> name_table) \<Rightarrow> name_table \<Rightarrow> name_table get" where
  "readNamesFrom len kind g add nt =
     bindG getU4 (\<lambda>start. bindG getU4 (\<lambda>numNew.
       if len nt = unat start then readNames (unat numNew) (unat start) kind g add nt
       else failG BadTable))"

definition unpickleNameTableDiff :: "name_table \<Rightarrow> name_table get" where
  "unpickleNameTableDiff result =
     bindG (readNamesFrom (\<lambda>nt. length (utf8Names nt)) UTF8 unpickleUTF8Name addUtf8 result) (\<lambda>result.
     bindG (readNamesFrom (\<lambda>nt. length (constantNames nt)) CONSTANT unpickleConstantName addConstant result) (\<lambda>result.
     readNamesFrom (\<lambda>nt. length (uniqueNames nt)) UNIQUE unpickleUniqueName addUnique result))"

subsection \<open>Reading a vector of names\<close>

fun entriesFrom :: "u32 \<Rightarrow> ('a \<Rightarrow> u32) \<Rightarrow> nat \<Rightarrow> 'a list \<Rightarrow> bucket list" where
  "entriesFrom kind h i [] = []"
| "entriesFrom kind h i (x # xs) = \<lparr>bk_hash = h x, bk_rawId = mkNameRef kind i\<rparr> # entriesFrom kind h (Suc i) xs"

lemma entriesFor_append:
  "entriesFor kind h (ys @ xs) = entriesFor kind h ys @ entriesFrom kind h (length ys) xs"
proof (induction xs arbitrary: ys)
  case Nil
  then show ?case by simp
next
  case (Cons x xs)
  have "entriesFor kind h (ys @ x # xs) = entriesFor kind h ((ys @ [x]) @ xs)"
    by simp
  also have "\<dots> = entriesFor kind h (ys @ [x]) @ entriesFrom kind h (length (ys @ [x])) xs"
    by (rule Cons.IH)
  finally show ?case
    by (simp add: entriesFor_snoc)
qed

lemma length_entriesFrom [simp]: "length (entriesFrom kind h i xs) = length xs"
  by (induction xs arbitrary: i) auto

lemma agrees_named:
  assumes "agrees (P x) g x" and "agrees (forEach xs (pickleNamed h P)) (body (h x) x) z"
  shows "agrees (forEach (x # xs) (pickleNamed h P)) (bindG getU4 (\<lambda>hash. bindG g (body hash))) z"
proof -
  let ?Q = "\<lambda>p. case P x p of Inl e \<Rightarrow> Inl e | Inr p' \<Rightarrow> forEach xs (pickleNamed h P) p'"
  have "agrees ?Q (bindG g (body (h x))) z"
    by (rule agrees_bind [where h = "body (h x)", OF assms]) simp
  then show ?thesis
    by (rule agrees_bind [where h = "\<lambda>hash. bindG g (body hash)", OF agrees_U4]) (simp add: pickleNamed_def split: sum.splits)
qed

lemma readNames_ok:
  assumes "sized k (namesByHash nt)" and "chained k (namesByHash nt)"
    and "Suc (size (occupied (namesByHash nt)) + length xs) < 2 ^ k"
    and get: "\<And>x. x \<in> set xs \<Longrightarrow> agrees (P x) g x"
    and add: "\<And>x nt. namesByHash (add x nt) = namesByHash nt"
      "\<And>x nt b. add x (nt\<lparr>namesByHash := b\<rparr>) = (add x nt)\<lparr>namesByHash := b\<rparr>"
    and kind: "kind \<in> {UTF8, CONSTANT, UNIQUE}" and "i + length xs \<le> 2 ^ 30"
  shows "\<exists>bs. agrees (forEach xs (pickleNamed h P)) (readNames (length xs) i kind g add nt)
        ((fold add xs nt)\<lparr>namesByHash := bs\<rparr>)
     \<and> sized k bs \<and> chained k bs \<and> occupied bs = occupied (namesByHash nt) + mset (entriesFrom kind h i xs)"
  using assms(1-4,8)
proof (induction xs arbitrary: i nt)
  case Nil
  then show ?case
    by (intro exI [of _ "namesByHash nt"]) (simp add: agreesI [where ts = "[]"])
next
  case (Cons x xs)
  let ?b = "\<lparr>bk_hash = h x, bk_rawId = mkNameRef kind i\<rparr>"
  have b: "present ?b"
    using mkNameRef_decode(3) [OF kind, of i] Cons.prems(5) by (simp add: present_def)
  obtain t where t: "lookupBucket (namesByHash nt) (h x) (\<lambda>_. False) = Inr t"
    "t < length (namesByHash nt)" "\<not> present (namesByHash nt ! t)" "reaches k (namesByHash nt) (h x) t"
    using lookupBucket_absent [OF Cons.prems(1), of "h x" "\<lambda>_. False"] Cons.prems(3) by auto
  let ?nt = "fillBucket t (h x) (mkNameRef kind i) (add x nt)"
  have nbh: "namesByHash ?nt = (namesByHash nt)[t := ?b]"
    by (simp add: fillBucket_def add(1))
  have occ: "occupied (namesByHash ?nt) = add_mset ?b (occupied (namesByHash nt))"
    unfolding nbh by (rule occupied_update [OF t(2,3) b])
  have "sized k (namesByHash ?nt)" "chained k (namesByHash ?nt)"
    unfolding nbh using Cons.prems(1) chained_update [OF Cons.prems(2) t(2) b] t(4) by (auto simp: sized_def)
  from Cons.IH [OF this, of "Suc i"] Cons.prems occ obtain bs where
    bs: "agrees (forEach xs (pickleNamed h P)) (readNames (length xs) (Suc i) kind g add ?nt)
        ((fold add xs ?nt)\<lparr>namesByHash := bs\<rparr>)" "sized k bs" "chained k bs"
    "occupied bs = occupied (namesByHash ?nt) + mset (entriesFrom kind h (Suc i) xs)"
    by auto
  have fold_upd: "fold add xs (n\<lparr>namesByHash := c\<rparr>) = (fold add xs n)\<lparr>namesByHash := c\<rparr>" for n c
    by (induction xs arbitrary: n) (simp_all add: add(2))
  have "(fold add xs ?nt)\<lparr>namesByHash := bs\<rparr> = (fold add (x # xs) nt)\<lparr>namesByHash := bs\<rparr>"
    by (simp add: fillBucket_def fold_upd)
  with bs(1) t(1) have "agrees (forEach (x # xs) (pickleNamed h P))
      (readNames (length (x # xs)) i kind g add nt) ((fold add (x # xs) nt)\<lparr>namesByHash := bs\<rparr>)"
    using Cons.prems(4) by (auto simp: add(1) intro!: agrees_named)
  moreover have "occupied bs = occupied (namesByHash nt) + mset (entriesFrom kind h i (x # xs))"
    using bs(4) occ by simp
  ultimately show ?case
    using bs(2,3) by blast
qed

lemma fold_addUtf8: "fold addUtf8 xs nt = nt\<lparr>utf8Names := utf8Names nt @ xs\<rparr>"
  by (induction xs arbitrary: nt) (simp_all add: addUtf8_def)

lemma fold_addConstant: "fold addConstant xs nt = nt\<lparr>constantNames := constantNames nt @ xs\<rparr>"
  by (induction xs arbitrary: nt) (simp_all add: addConstant_def)

lemma fold_addUnique: "fold addUnique xs nt = nt\<lparr>uniqueNames := uniqueNames nt @ xs\<rparr>"
  by (induction xs arbitrary: nt) (simp_all add: addUnique_def)

definition short_names :: "name_table \<Rightarrow> bool" where
  "short_names nt \<longleftrightarrow> list_all (\<lambda>nm. length nm < 2 ^ 31) (utf8Names nt)"

text \<open>A table whose index holds exactly its names, whatever the capacities of its vectors.\<close>

definition indexed :: "(string \<Rightarrow> u32) \<Rightarrow> nat \<Rightarrow> name_table \<Rightarrow> bool" where
  "indexed xxh k nt \<longleftrightarrow> sized k (namesByHash nt) \<and> chained k (namesByHash nt)
     \<and> occupied (namesByHash nt) = entries xxh nt"

lemma read_utf8:
  assumes "indexed xxh k nt" and "Suc (size (entries xxh nt) + length xs) < 2 ^ k"
    and "length (utf8Names nt) + length xs \<le> 2 ^ 30" and "list_all (\<lambda>nm. length nm < 2 ^ 31) xs"
  shows "\<exists>bs. agrees (forEach xs (pickleNamed (hashMixUTF8 xxh) pickleUTF8Name))
        (readNames (length xs) (length (utf8Names nt)) UTF8 unpickleUTF8Name addUtf8 nt)
        (nt\<lparr>utf8Names := utf8Names nt @ xs, namesByHash := bs\<rparr>)
     \<and> indexed xxh k (nt\<lparr>utf8Names := utf8Names nt @ xs, namesByHash := bs\<rparr>)"
proof -
  have "\<exists>bs. agrees (forEach xs (pickleNamed (hashMixUTF8 xxh) pickleUTF8Name))
      (readNames (length xs) (length (utf8Names nt)) UTF8 unpickleUTF8Name addUtf8 nt) ((fold addUtf8 xs nt)\<lparr>namesByHash := bs\<rparr>)
      \<and> sized k bs \<and> chained k bs
      \<and> occupied bs = occupied (namesByHash nt) + mset (entriesFrom UTF8 (hashMixUTF8 xxh) (length (utf8Names nt)) xs)"
    by (rule readNames_ok)
       (use assms in \<open>simp_all add: indexed_def addUtf8_def list_all_iff pickleUTF8Name_def unpickleUTF8Name_def agrees_Str\<close>)
  with assms(1) show ?thesis
    by (simp add: indexed_def fold_addUtf8 entries_def entriesFor_append ac_simps)
qed

lemma read_constant:
  assumes "indexed xxh k nt" and "Suc (size (entries xxh nt) + length xs) < 2 ^ k"
    and "length (constantNames nt) + length xs \<le> 2 ^ 30"
  shows "\<exists>bs. agrees (forEach xs (pickleNamed hashMixConstant pickleConstantName))
        (readNames (length xs) (length (constantNames nt)) CONSTANT unpickleConstantName addConstant nt)
        (nt\<lparr>constantNames := constantNames nt @ xs, namesByHash := bs\<rparr>)
     \<and> indexed xxh k (nt\<lparr>constantNames := constantNames nt @ xs, namesByHash := bs\<rparr>)"
proof -
  have "\<exists>bs. agrees (forEach xs (pickleNamed hashMixConstant pickleConstantName))
      (readNames (length xs) (length (constantNames nt)) CONSTANT unpickleConstantName addConstant nt) ((fold addConstant xs nt)\<lparr>namesByHash := bs\<rparr>)
      \<and> sized k bs \<and> chained k bs
      \<and> occupied bs = occupied (namesByHash nt) + mset (entriesFrom CONSTANT hashMixConstant (length (constantNames nt)) xs)"
    by (rule readNames_ok)
       (use assms in \<open>simp_all add: indexed_def addConstant_def pickleConstantName_def unpickleConstantName_def agrees_U4\<close>)
  with assms(1) show ?thesis
    by (simp add: indexed_def fold_addConstant entries_def entriesFor_append ac_simps)
qed

lemma read_unique:
  assumes "indexed xxh k nt" and "Suc (size (entries xxh nt) + length xs) < 2 ^ k"
    and "length (uniqueNames nt) + length xs \<le> 2 ^ 30"
  shows "\<exists>bs. agrees (forEach xs (pickleNamed hashUnique pickleUniqueName))
        (readNames (length xs) (length (uniqueNames nt)) UNIQUE unpickleUniqueName addUnique nt)
        (nt\<lparr>uniqueNames := uniqueNames nt @ xs, namesByHash := bs\<rparr>)
     \<and> indexed xxh k (nt\<lparr>uniqueNames := uniqueNames nt @ xs, namesByHash := bs\<rparr>)"
proof -
  have "\<exists>bs. agrees (forEach xs (pickleNamed hashUnique pickleUniqueName))
      (readNames (length xs) (length (uniqueNames nt)) UNIQUE unpickleUniqueName addUnique nt) ((fold addUnique xs nt)\<lparr>namesByHash := bs\<rparr>)
      \<and> sized k bs \<and> chained k bs
      \<and> occupied bs = occupied (namesByHash nt) + mset (entriesFrom UNIQUE hashUnique (length (uniqueNames nt)) xs)"
    by (rule readNames_ok)
       (use assms in \<open>simp_all add: indexed_def addUnique_def agrees_UniqueName\<close>)
  with assms(1) show ?thesis
    by (simp add: indexed_def fold_addUnique entries_def entriesFor_append ac_simps)
qed

lemma reserveFor_ge: "n \<le> 2 ^ 31 \<Longrightarrow> n \<le> reserveFor cap n \<and> cap \<le> reserveFor cap n \<and> 0 < reserveFor cap n"
proof -
  assume "n \<le> 2 ^ 31"
  moreover from this have "unat (of_nat n :: u32) = n"
    by (intro unat_of_nat_u32) simp
  ultimately obtain k where "unat (nextPowerOfTwo (of_nat n)) = 2 ^ k" "n \<le> 2 ^ k"
    using nextPowerOfTwo_spec [of "of_nat n"] by auto
  then show ?thesis
    by (auto simp: reserveFor_def max_def)
qed

text \<open>The table that reading \<open>nt\<close> into \<open>res\<close> leaves, up to the order of the buckets.\<close>

definition loadedNames :: "name_table \<Rightarrow> name_table \<Rightarrow> bucket list \<Rightarrow> name_table" where
  "loadedNames nt res bs = res\<lparr>
     utf8Names := utf8Names nt, constantNames := constantNames nt, uniqueNames := uniqueNames nt,
     utf8Capacity := reserveFor (utf8Capacity res) (length (utf8Names nt)),
     constantCapacity := reserveFor (constantCapacity res) (length (constantNames nt)),
     uniqueCapacity := reserveFor (uniqueCapacity res) (length (uniqueNames nt)),
     namesByHash := bs\<rparr>"

definition fits_index :: "name_table \<Rightarrow> name_table \<Rightarrow> bool" where
  "fits_index nt res \<longleftrightarrow> capacity (loadedNames nt res []) + 2 \<le> length (namesByHash nt)
     \<and> capacity (loadedNames nt res []) \<le> 2 ^ 30"

definition nonempty_names :: "name_table \<Rightarrow> bool" where
  "nonempty_names nt \<longleftrightarrow> utf8Names nt \<noteq> [] \<and> constantNames nt \<noteq> [] \<and> uniqueNames nt \<noteq> []"

lemma agrees_wSizeU4: "agrees (wSize n) getU4 (of_nat n)"
  unfolding wSize_def [abs_def] using agrees_U4 [of "of_nat n"] by (simp add: wU4_def [abs_def])

lemma agrees_NameTable_indexed:
  assumes wf: "wf_names xxh nt" and short: "short_names nt" and ne: "nonempty_names nt"
  shows "\<exists>k bs. agrees (pickleNameTable xxh nt) (unpickleNameTable res) (loadedNames nt res bs)
     \<and> indexed xxh k (loadedNames nt res bs) \<and> length (namesByHash nt) = 2 ^ k"
proof -
  obtain k where k: "sized k (namesByHash nt)" and room: "Suc (size (entries xxh nt)) < 2 ^ k"
    using wf_names_room [OF wf] by blast
  define n1 where "n1 = (resizeNamesByHash (2 ^ k) (clearNames res))
    \<lparr>utf8Capacity := reserveFor (utf8Capacity res) (length (utf8Names nt))\<rparr>"
  have e1: "indexed xxh k n1" "entries xxh n1 = {#}" "utf8Names n1 = []"
    using k by (auto simp: n1_def indexed_def sized_def chained_def occupied_def present_def emptyBucket_def
        resizeNamesByHash_def clearNames_def entries_def entriesFor_def)
  have lens: "length (utf8Names nt) \<le> 2 ^ 30" "length (constantNames nt) \<le> 2 ^ 30"
    "length (uniqueNames nt) \<le> 2 ^ 30"
    using wf by (auto simp: wf_names_def capacity_def)
  obtain b1 where b1: "agrees (forEach (utf8Names nt) (pickleNamed (hashMixUTF8 xxh) pickleUTF8Name))
      (readNames (length (utf8Names nt)) 0 UTF8 unpickleUTF8Name addUtf8 n1)
      (n1\<lparr>utf8Names := utf8Names nt, namesByHash := b1\<rparr>)"
    "indexed xxh k (n1\<lparr>utf8Names := utf8Names nt, namesByHash := b1\<rparr>)"
    using read_utf8 [OF e1(1), of "utf8Names nt"] e1(2,3) room lens short
    by (auto simp: short_names_def size_entries)
  define n2 where "n2 = n1\<lparr>utf8Names := utf8Names nt, namesByHash := b1,
    constantCapacity := reserveFor (constantCapacity res) (length (constantNames nt))\<rparr>"
  have e2: "indexed xxh k n2" "size (entries xxh n2) = length (utf8Names nt)" "constantNames n2 = []"
    using b1(2) by (auto simp: n2_def n1_def indexed_def entries_def clearNames_def resizeNamesByHash_def)
  obtain b2 where b2: "agrees (forEach (constantNames nt) (pickleNamed hashMixConstant pickleConstantName))
      (readNames (length (constantNames nt)) 0 CONSTANT unpickleConstantName addConstant n2)
      (n2\<lparr>constantNames := constantNames nt, namesByHash := b2\<rparr>)"
    "indexed xxh k (n2\<lparr>constantNames := constantNames nt, namesByHash := b2\<rparr>)"
    using read_constant [OF e2(1), of "constantNames nt"] e2(2,3) room lens by (auto simp: size_entries)
  define n3 where "n3 = n2\<lparr>constantNames := constantNames nt, namesByHash := b2,
    uniqueCapacity := reserveFor (uniqueCapacity res) (length (uniqueNames nt))\<rparr>"
  have e3: "indexed xxh k n3" "size (entries xxh n3) = length (utf8Names nt) + length (constantNames nt)"
    "uniqueNames n3 = []"
    using b2(2) by (auto simp: n3_def n2_def n1_def indexed_def entries_def clearNames_def resizeNamesByHash_def)
  obtain b3 where b3: "agrees (forEach (uniqueNames nt) (pickleNamed hashUnique pickleUniqueName))
      (readNames (length (uniqueNames nt)) 0 UNIQUE unpickleUniqueName addUnique n3)
      (n3\<lparr>uniqueNames := uniqueNames nt, namesByHash := b3\<rparr>)"
    "indexed xxh k (n3\<lparr>uniqueNames := uniqueNames nt, namesByHash := b3\<rparr>)"
    using read_unique [OF e3(1), of "uniqueNames nt"] e3(2,3) room lens by (auto simp: size_entries)
  have result: "n3\<lparr>uniqueNames := uniqueNames nt, namesByHash := b3\<rparr> = loadedNames nt res b3"
    by (simp add: n3_def n2_def n1_def loadedNames_def clearNames_def resizeNamesByHash_def)
  have k32: "k < 32" and len: "length (namesByHash nt) = 2 ^ k"
    using k by (auto simp: sized_def)
  have pow2: "(of_nat (2 ^ k) :: u32) AND (of_nat (2 ^ k) - 1) = 0"
    using and_mask_of_nat [OF k32, of "2 ^ k"] by simp
  have sz: "unat (of_nat (2 ^ k) :: u32) = 2 ^ k"
    using sized_less [OF k] len by (intro unat_of_nat_u32) simp
  let ?m1 = "resizeNamesByHash (2 ^ k) (clearNames res)"
  let ?m2 = "n1\<lparr>utf8Names := utf8Names nt, namesByHash := b1\<rparr>"
  let ?m3 = "n2\<lparr>constantNames := constantNames nt, namesByHash := b2\<rparr>"
  have m: "?m1\<lparr>utf8Capacity := reserveFor (utf8Capacity ?m1) (length (utf8Names nt))\<rparr> = n1"
    "?m2\<lparr>constantCapacity := reserveFor (constantCapacity ?m2) (length (constantNames nt))\<rparr> = n2"
    "?m3\<lparr>uniqueCapacity := reserveFor (uniqueCapacity ?m3) (length (uniqueNames nt))\<rparr> = n3"
    by (simp_all add: n3_def n2_def n1_def clearNames_def resizeNamesByHash_def)
  have pos: "agrees (wSize (length (utf8Names nt))) getPositive (length (utf8Names nt))"
    "agrees (wSize (length (constantNames nt))) getPositive (length (constantNames nt))"
    "agrees (wSize (length (uniqueNames nt))) getPositive (length (uniqueNames nt))"
    using ne lens by (auto simp: nonempty_names_def intro!: agrees_Positive)
  have "agrees (pickleNameTable xxh nt) (unpickleNameTable res) (loadedNames nt res b3)"
    unfolding pickleNameTable_def unpickleNameTable_def Let_def len
    apply (rule agrees_Cons [OF agrees_wSizeU4])
    apply (simp only: pow2 sz not_True_eq_False if_False refl)
    apply (rule agrees_Cons [OF pos(1)], simp only: m, rule agrees_Cons [OF b1(1)])
    apply (rule agrees_Cons [OF pos(2)], simp only: m, rule agrees_Cons [OF b2(1)])
    apply (rule agrees_Cons [OF pos(3)], simp only: m, rule agrees_single, rule b3(1) [unfolded result])
    done
  then show ?thesis
    using b3(2) len result by auto
qed

text \<open>Reading the name table back restores the names with a consistent index.\<close>

lemma agrees_NameTable:
  assumes wf: "wf_names xxh nt" and "short_names nt" and "nonempty_names nt" and fits: "fits_index nt res"
  shows "\<exists>bs. agrees (pickleNameTable xxh nt) (unpickleNameTable res) (loadedNames nt res bs)
     \<and> wf_names xxh (loadedNames nt res bs)"
proof -
  obtain k bs where bs: "agrees (pickleNameTable xxh nt) (unpickleNameTable res) (loadedNames nt res bs)"
    "indexed xxh k (loadedNames nt res bs)" "length (namesByHash nt) = 2 ^ k"
    using agrees_NameTable_indexed [OF assms(1-3)] by blast
  have cap: "capacity (loadedNames nt res bs) = capacity (loadedNames nt res [])"
    by (simp add: loadedNames_def capacity_def)
  have lens: "length (utf8Names nt) \<le> 2 ^ 31" "length (constantNames nt) \<le> 2 ^ 31"
    "length (uniqueNames nt) \<le> 2 ^ 31"
    using wf by (auto simp: wf_names_def capacity_def)
  have "wf_names xxh (loadedNames nt res bs)"
    unfolding wf_names_def cap
    using bs(2,3) fits wf reserveFor_ge [OF lens(1)] reserveFor_ge [OF lens(2)] reserveFor_ge [OF lens(3)]
    by (auto simp: indexed_def fits_index_def wf_names_def loadedNames_def)
  with bs(1) show ?thesis by blast
qed

subsection \<open>Differences of name tables\<close>

definition writtenPrefix :: "names_written \<Rightarrow> name_table \<Rightarrow> name_table \<Rightarrow> bool" where
  "writtenPrefix w base nt \<longleftrightarrow>
     utf8Names base = take (utf8NamesWritten w) (utf8Names nt) \<and> utf8NamesWritten w \<le> length (utf8Names nt)
     \<and> constantNames base = take (constantNamesWritten w) (constantNames nt)
     \<and> constantNamesWritten w \<le> length (constantNames nt)
     \<and> uniqueNames base = take (uniqueNamesWritten w) (uniqueNames nt)
     \<and> uniqueNamesWritten w \<le> length (uniqueNames nt)"

definition namesOf :: "name_table \<Rightarrow> name_table \<Rightarrow> bucket list \<Rightarrow> name_table" where
  "namesOf nt base bs = base\<lparr>utf8Names := utf8Names nt, constantNames := constantNames nt,
     uniqueNames := uniqueNames nt, namesByHash := bs\<rparr>"

lemma agrees_readNamesFrom:
  assumes "agrees (forEach xs P) (readNames (length xs) n kind g add nt) nt'"
    and "len nt = n" and "n + length xs \<le> 2 ^ 30"
  shows "agrees (writes [wSize n, wSize (length xs), forEach xs P]) (readNamesFrom len kind g add nt) nt'"
proof -
  have u: "unat (of_nat n :: u32) = n" "unat (of_nat (length xs) :: u32) = length xs"
    using assms(3) by (auto intro!: unat_of_nat_u32)
  show ?thesis
    unfolding readNamesFrom_def
    by (rule agrees_Cons [OF agrees_wSizeU4])+ (simp only: u assms(2) if_True refl agrees_single [OF assms(1)])
qed

lemma agrees_NameTableDiff:
  assumes base: "indexed xxh k base" and w: "writtenPrefix w base nt"
    and room: "Suc (size (entries xxh nt)) < 2 ^ k" and short: "short_names nt"
    and lens: "length (utf8Names nt) \<le> 2 ^ 30" "length (constantNames nt) \<le> 2 ^ 30"
      "length (uniqueNames nt) \<le> 2 ^ 30"
  shows "\<exists>bs. agrees (pickleNameTableDiff xxh w nt) (unpickleNameTableDiff base) (namesOf nt base bs)
     \<and> indexed xxh k (namesOf nt base bs)"
proof -
  define us where "us = drop (utf8NamesWritten w) (utf8Names nt)"
  define cs where "cs = drop (constantNamesWritten w) (constantNames nt)"
  define qs where "qs = drop (uniqueNamesWritten w) (uniqueNames nt)"
  have split: "utf8Names base @ us = utf8Names nt" "constantNames base @ cs = constantNames nt"
    "uniqueNames base @ qs = uniqueNames nt"
    using w by (auto simp: writtenPrefix_def us_def cs_def qs_def)
  have sum: "length (utf8Names base) + length us = length (utf8Names nt)"
    "length (constantNames base) + length cs = length (constantNames nt)"
    "length (uniqueNames base) + length qs = length (uniqueNames nt)"
    using split by (metis length_append)+
  have shortus: "list_all (\<lambda>nm. length nm < 2 ^ 31) us"
    using short by (auto simp: short_names_def us_def list_all_iff dest: in_set_dropD)
  obtain b1 where b1: "agrees (forEach us (pickleNamed (hashMixUTF8 xxh) pickleUTF8Name))
      (readNames (length us) (length (utf8Names base)) UTF8 unpickleUTF8Name addUtf8 base)
      (base\<lparr>utf8Names := utf8Names nt, namesByHash := b1\<rparr>)"
    "indexed xxh k (base\<lparr>utf8Names := utf8Names nt, namesByHash := b1\<rparr>)"
    using read_utf8 [OF base, of us] sum split room lens shortus by (auto simp: size_entries)
  let ?n1 = "base\<lparr>utf8Names := utf8Names nt, namesByHash := b1\<rparr>"
  obtain b2 where b2: "agrees (forEach cs (pickleNamed hashMixConstant pickleConstantName))
      (readNames (length cs) (length (constantNames ?n1)) CONSTANT unpickleConstantName addConstant ?n1)
      (?n1\<lparr>constantNames := constantNames nt, namesByHash := b2\<rparr>)"
    "indexed xxh k (?n1\<lparr>constantNames := constantNames nt, namesByHash := b2\<rparr>)"
    using read_constant [OF b1(2), of cs] sum split room lens by (auto simp: size_entries)
  let ?n2 = "?n1\<lparr>constantNames := constantNames nt, namesByHash := b2\<rparr>"
  obtain b3 where b3: "agrees (forEach qs (pickleNamed hashUnique pickleUniqueName))
      (readNames (length qs) (length (uniqueNames ?n2)) UNIQUE unpickleUniqueName addUnique ?n2)
      (?n2\<lparr>uniqueNames := uniqueNames nt, namesByHash := b3\<rparr>)"
    "indexed xxh k (?n2\<lparr>uniqueNames := uniqueNames nt, namesByHash := b3\<rparr>)"
    using read_unique [OF b2(2), of qs] sum split room lens by (auto simp: size_entries)
  have result: "?n2\<lparr>uniqueNames := uniqueNames nt, namesByHash := b3\<rparr> = namesOf nt base b3"
    by (simp add: namesOf_def)
  have start: "length (utf8Names base) = utf8NamesWritten w" "length (constantNames base) = constantNamesWritten w"
    "length (uniqueNames base) = uniqueNamesWritten w"
    using w by (auto simp: writtenPrefix_def)
  have new: "length (utf8Names nt) - utf8NamesWritten w = length us"
    "length (constantNames nt) - constantNamesWritten w = length cs"
    "length (uniqueNames nt) - uniqueNamesWritten w = length qs"
    by (simp_all add: us_def cs_def qs_def)
  have s1: "agrees (writes [wSize (utf8NamesWritten w), wSize (length us),
      forEach us (pickleNamed (hashMixUTF8 xxh) pickleUTF8Name)])
      (readNamesFrom (\<lambda>nt. length (utf8Names nt)) UTF8 unpickleUTF8Name addUtf8 base) ?n1"
    by (rule agrees_readNamesFrom) (use b1(1) start sum lens in simp_all)
  have s2: "agrees (writes [wSize (constantNamesWritten w), wSize (length cs),
      forEach cs (pickleNamed hashMixConstant pickleConstantName)])
      (readNamesFrom (\<lambda>nt. length (constantNames nt)) CONSTANT unpickleConstantName addConstant ?n1) ?n2"
    by (rule agrees_readNamesFrom) (use b2(1) start sum lens in simp_all)
  have s3: "agrees (writes [wSize (uniqueNamesWritten w), wSize (length qs),
      forEach qs (pickleNamed hashUnique pickleUniqueName)])
      (readNamesFrom (\<lambda>nt. length (uniqueNames nt)) UNIQUE unpickleUniqueName addUnique ?n2) (namesOf nt base b3)"
    unfolding result [symmetric] by (rule agrees_readNamesFrom) (use b3(1) start sum lens in simp_all)
  let ?r2 = "readNamesFrom (\<lambda>nt. length (constantNames nt)) CONSTANT unpickleConstantName addConstant"
  let ?r3 = "readNamesFrom (\<lambda>nt. length (uniqueNames nt)) UNIQUE unpickleUniqueName addUnique"
  have "agrees (pickleNameTableDiff xxh w nt) (unpickleNameTableDiff base) (namesOf nt base b3)"
    unfolding pickleNameTableDiff_def unpickleNameTableDiff_def new
    using agrees_append [where h = "\<lambda>r. bindG (?r2 r) ?r3", OF s1 agrees_append [where h = ?r3, OF s2 s3]]
    by (simp add: us_def cs_def qs_def)
  then show ?thesis
    using b3(2) result by auto
qed

section \<open>The file table\<close>

record file_table =
  ftFiles :: "src_file option list"
  fileRefByPath :: "(string \<times> u32) list"

definition noFiles :: file_table where
  "noFiles = \<lparr>ftFiles = [], fileRefByPath = []\<rparr>"

definition findFileByPath :: "string \<Rightarrow> file_table \<Rightarrow> u32" where
  "findFileByPath p ft = (case map_of (fileRefByPath ft) p of Some r \<Rightarrow> r | None \<Rightarrow> 0)"

definition ft_emplace :: "src_file \<Rightarrow> file_table \<Rightarrow> u32 \<times> file_table" where
  "ft_emplace f ft =
     (let ref = of_nat (length (ftFiles ft))
      in (ref, \<lparr>ftFiles = ftFiles ft @ [Some f], fileRefByPath = AList.update (path f) ref (fileRefByPath ft)\<rparr>))"

definition ft_initEmpty :: "file_table \<Rightarrow> file_table" where
  "ft_initEmpty ft = ft\<lparr>ftFiles := ftFiles ft @ [None]\<rparr>"

text \<open>\<open>pickle(p, *f)\<close>; the file behind a null pointer does not exist.\<close>

definition pickleFilePtr :: "src_file option \<Rightarrow> put" where
  "pickleFilePtr f = (case f of None \<Rightarrow> raise ReadPastEnd | Some f \<Rightarrow> pickleFile f)"

definition pickleFileTable :: "file_table \<Rightarrow> put" where
  "pickleFileTable ft =
     (if length (ftFiles ft) = 0 \<or> ftFiles ft ! 0 \<noteq> None then raise BadTable
      else writes [wSize (length (ftFiles ft) - 1), forEach (drop 1 (ftFiles ft)) pickleFilePtr])"

definition unpickleFileTable :: "file_table get" where
  "unpickleFileTable =
     bindG getSize (\<lambda>filesSize. bindG (repeatG filesSize unpickleFile) (\<lambda>fs.
       returnG (fold (\<lambda>f files. snd (ft_emplace f files)) fs (ft_initEmpty noFiles))))"

definition enteredFiles :: "src_file list \<Rightarrow> file_table" where
  "enteredFiles fs = fold (\<lambda>f files. snd (ft_emplace f files)) fs (ft_initEmpty noFiles)"

lemma enteredFiles_snoc: "enteredFiles (fs @ [f]) = snd (ft_emplace f (enteredFiles fs))"
  by (simp add: enteredFiles_def)

lemma ftFiles_entered: "ftFiles (enteredFiles fs) = None # map Some fs"
  by (induction fs rule: rev_induct)
     (simp_all add: enteredFiles_snoc ft_emplace_def Let_def, simp add: enteredFiles_def ft_initEmpty_def noFiles_def)

lemma find_entered:
  "distinct (map path fs) \<Longrightarrow> i < length fs \<Longrightarrow> findFileByPath (path (fs ! i)) (enteredFiles fs) = of_nat (Suc i)"
proof (induction fs rule: rev_induct)
  case Nil
  then show ?case by simp
next
  case (snoc f fs)
  show ?case
  proof (cases "i < length fs")
    case True
    then have "path (fs ! i) \<in> path ` set fs"
      by simp
    moreover have "path f \<notin> path ` set fs"
      using snoc.prems by simp
    ultimately have "path (fs ! i) \<noteq> path f"
      by metis
    with snoc True show ?thesis
      by (simp add: enteredFiles_snoc ft_emplace_def findFileByPath_def Let_def nth_append update_conv')
  next
    case False
    with snoc.prems have "i = length fs" by simp
    then show ?thesis
      by (simp add: enteredFiles_snoc ft_emplace_def findFileByPath_def Let_def update_conv' ftFiles_entered)
  qed
qed

definition wf_file_table :: "file_table \<Rightarrow> bool" where
  "wf_file_table ft \<longleftrightarrow> (\<exists>fs. ft = enteredFiles fs \<and> list_all wf_file fs \<and> length fs < 2 ^ 31)"

lemma agrees_FileTable:
  assumes "wf_file_table ft"
  shows "agrees (pickleFileTable ft) unpickleFileTable ft"
proof -
  from assms obtain fs where ft: "ft = enteredFiles fs" and fs: "list_all wf_file fs" "length fs < 2 ^ 31"
    by (auto simp: wf_file_table_def)
  have body: "agrees (writes [wSize (length fs), forEach fs pickleFile]) unpickleFileTable ft"
    unfolding unpickleFileTable_def ft enteredFiles_def
    by (rule agrees_rules srcFile.array_agrees | use fs in \<open>simp add: list_all_iff\<close>)+
  have "pickleFileTable ft = writes [wSize (length fs), forEach fs pickleFile]"
    by (simp add: pickleFileTable_def ft ftFiles_entered forEach_map pickleFilePtr_def)
  with body show ?thesis by simp
qed

interpretation fileTable: codec pickleFileTable unpickleFileTable wf_file_table
  by unfold_locales (rule agrees_FileTable)

section \<open>Storing and loading a global state\<close>

record global_tables =
  gsSymbols :: symbol_table
  gsNames :: name_table
  gsFiles :: file_table

definition VERSION :: u32 where
  "VERSION = 7"

definition storeUUID :: "u32 \<Rightarrow> put" where
  "storeUUID uuid = writes [wU4 VERSION, wU4 uuid]"

definition unpickleGSUUID :: "u32 get" where
  "unpickleGSUUID = bindG getU4 (\<lambda>v. if v \<noteq> VERSION then failG VersionMismatch else getU4)"

definition storeNameTableDiff :: "(string \<Rightarrow> u32) \<Rightarrow> names_written \<Rightarrow> name_table \<Rightarrow> put" where
  "storeNameTableDiff xxh w nt = writes [wU4 VERSION, pickleNameTableDiff xxh w nt]"

definition loadAndAppendNameTableDiff :: "name_table \<Rightarrow> name_table get" where
  "loadAndAppendNameTableDiff gs =
     bindG getU4 (\<lambda>v. if v \<noteq> VERSION then failG VersionMismatch else unpickleNameTableDiff gs)"

definition storeNameTableDiffCountAndHashSize :: "u32 \<Rightarrow> name_table \<Rightarrow> put" where
  "storeNameTableDiffCountAndHashSize diffCount nt = writes
     [wU4 VERSION, wU4 diffCount, wSize (length (namesByHash nt)), wSize (length (utf8Names nt)),
      wSize (length (constantNames nt)), wSize (length (uniqueNames nt))]"

definition loadNameTableDiffCountAndResizeNamesHash :: "name_table \<Rightarrow> (u32 \<times> name_table) get" where
  "loadNameTableDiffCountAndResizeNamesHash gs =
     (let gs = clearNames gs
      in bindG getU4 (\<lambda>v. if v \<noteq> VERSION then failG VersionMismatch else
         bindG getU4 (\<lambda>diffCount. bindG getU4 (\<lambda>namesByHashSize. bindG getU4 (\<lambda>utf8NamesSize.
         bindG getU4 (\<lambda>constantNamesSize. bindG getU4 (\<lambda>uniqueNamesSize.
           if namesByHashSize AND (namesByHashSize - 1) \<noteq> 0 then failG BadTable else
           returnG (diffCount, (resizeNamesByHash (unat namesByHashSize) gs)\<lparr>
             utf8Capacity := reserveFor (utf8Capacity gs) (unat utf8NamesSize),
             constantCapacity := reserveFor (constantCapacity gs) (unat constantNamesSize),
             uniqueCapacity := reserveFor (uniqueCapacity gs) (unat uniqueNamesSize)\<rparr>))))))))"

text \<open>\<open>Serializer::store\<close> and \<open>loadGlobalState\<close>: three independent containers.\<close>

record serialized_global_state =
  symbolTableData :: "u8 list"
  nameTableData :: "u8 list"
  fileTableData :: "u8 list"

definition store :: "(u8 list \<Rightarrow> u8 list) \<Rightarrow> (string \<Rightarrow> u32) \<Rightarrow> global_tables \<Rightarrow>
    (serial_error, serialized_global_state) result" where
  "store compress xxh gs =
     (case store_with compress (pickleSymbolTable (gsSymbols gs)) of Inl e \<Rightarrow> Inl e | Inr s \<Rightarrow>
      case store_with compress (pickleNameTable xxh (gsNames gs)) of Inl e \<Rightarrow> Inl e | Inr n \<Rightarrow>
      case store_with compress (pickleFileTable (gsFiles gs)) of Inl e \<Rightarrow> Inl e | Inr f \<Rightarrow>
        Inr \<lparr>symbolTableData = s, nameTableData = n, fileTableData = f\<rparr>)"

definition symbolsUsedTotal :: "symbol_table \<Rightarrow> nat" where
  "symbolsUsedTotal st = length (classAndModules st) + length (methods st) + length (symFields st)
     + length (typeParameters st) + length (typeMembers st)"

definition namesUsedTotal :: "name_table \<Rightarrow> nat" where
  "namesUsedTotal nt = length (utf8Names nt) + length (constantNames nt) + length (uniqueNames nt)"

definition loadGlobalState :: "(u8 list \<Rightarrow> nat \<Rightarrow> u8 list option) \<Rightarrow> nat \<Rightarrow> global_tables \<Rightarrow>
    serialized_global_state \<Rightarrow> (serial_error, global_tables) result" where
  "loadGlobalState decompress fuel gs d =
     (if \<not> (ftFiles (gsFiles gs) = [] \<and> namesUsedTotal (gsNames gs) = 0 \<and> symbolsUsedTotal (gsSymbols gs) = 0)
      then Inl BadTable
      else case load_with decompress (unpickleSymbolTable fuel) (symbolTableData d) of Inl e \<Rightarrow> Inl e | Inr s \<Rightarrow>
           case load_with decompress (unpickleNameTable (gsNames gs)) (nameTableData d) of Inl e \<Rightarrow> Inl e | Inr n \<Rightarrow>
           case load_with decompress unpickleFileTable (fileTableData d) of Inl e \<Rightarrow> Inl e | Inr f \<Rightarrow>
             Inr \<lparr>gsSymbols = s, gsNames = n, gsFiles = f\<rparr>)"

section \<open>Properties\<close>

lemma agrees_diff:
  assumes "indexed xxh k base" "writtenPrefix w base nt" "Suc (size (entries xxh nt)) < 2 ^ k" "short_names nt"
    "length (utf8Names nt) \<le> 2 ^ 30" "length (constantNames nt) \<le> 2 ^ 30" "length (uniqueNames nt) \<le> 2 ^ 30"
  shows "\<exists>bs. agrees (storeNameTableDiff xxh w nt) (loadAndAppendNameTableDiff base) (namesOf nt base bs)
     \<and> indexed xxh k (namesOf nt base bs)"
proof -
  obtain bs where bs: "agrees (pickleNameTableDiff xxh w nt) (unpickleNameTableDiff base) (namesOf nt base bs)"
    "indexed xxh k (namesOf nt base bs)"
    using agrees_NameTableDiff [OF assms] by blast
  have "agrees (storeNameTableDiff xxh w nt) (loadAndAppendNameTableDiff base) (namesOf nt base bs)"
    unfolding storeNameTableDiff_def loadAndAppendNameTableDiff_def
    by (rule agrees_Cons [OF agrees_U4]) (simp add: agrees_single [OF bs(1)])
  with bs(2) show ?thesis by blast
qed

text \<open>C1: A global state survives \<open>Serializer::store\<close> and \<open>loadGlobalState\<close> into an empty one: the symbols
  come back in canonical form, the names in the same order under a consistent hash index, and the files
  with their path index, for any compression library that restores what it compressed.\<close>

theorem store_load_global:
  assumes "wf_symbol_table fuel (gsSymbols gs)" and "wf_names xxh (gsNames gs)" and "short_names (gsNames gs)"
    and "nonempty_names (gsNames gs)" and "fits_index (gsNames gs) (gsNames gs0)" and "wf_file_table (gsFiles gs)"
    and "ftFiles (gsFiles gs0) = []" and "namesUsedTotal (gsNames gs0) = 0" and "symbolsUsedTotal (gsSymbols gs0) = 0"
    and "lz4_ok compress decompress (bytes_of (pickleSymbolTable (gsSymbols gs)))"
    and "lz4_ok compress decompress (bytes_of (pickleNameTable xxh (gsNames gs)))"
    and "lz4_ok compress decompress (bytes_of (pickleFileTable (gsFiles gs)))"
  shows "\<exists>d gs'. store compress xxh gs = Inr d \<and> loadGlobalState decompress fuel gs0 d = Inr gs'
     \<and> gsSymbols gs' = canonSymbolTable (gsSymbols gs) \<and> gsFiles gs' = gsFiles gs
     \<and> wf_names xxh (gsNames gs') \<and> utf8Names (gsNames gs') = utf8Names (gsNames gs)
     \<and> constantNames (gsNames gs') = constantNames (gsNames gs)
     \<and> uniqueNames (gsNames gs') = uniqueNames (gsNames gs)"
proof -
  obtain bs where bs: "agrees (pickleNameTable xxh (gsNames gs)) (unpickleNameTable (gsNames gs0))
      (loadedNames (gsNames gs) (gsNames gs0) bs)" "wf_names xxh (loadedNames (gsNames gs) (gsNames gs0) bs)"
    using agrees_NameTable [OF assms(2-5)] by blast
  obtain s where s: "store_with compress (pickleSymbolTable (gsSymbols gs)) = Inr s"
    "load_with decompress (unpickleSymbolTable fuel) s = Inr (canonSymbolTable (gsSymbols gs))"
    using symTable.stored_canon [OF assms(1,10)] by blast
  obtain n where n: "store_with compress (pickleNameTable xxh (gsNames gs)) = Inr n"
    "load_with decompress (unpickleNameTable (gsNames gs0)) n = Inr (loadedNames (gsNames gs) (gsNames gs0) bs)"
    using store_load [OF bs(1) assms(11)] by blast
  obtain f where f: "store_with compress (pickleFileTable (gsFiles gs)) = Inr f"
    "load_with decompress unpickleFileTable f = Inr (gsFiles gs)"
    using fileTable.stored_roundtrip [OF assms(6,12)] by blast
  show ?thesis
    using s n f bs(2) assms(7-9) by (simp add: store_def loadGlobalState_def loadedNames_def)
qed

text \<open>C28: A difference of name tables, loaded on top of a table that has exactly the names written before,
  yields all names of the table it was taken from, in order and indexed; its version and its start
  counts are checked.\<close>

theorem nameTableDiff_completes:
  assumes "indexed xxh k base" and "writtenPrefix w base nt" and "Suc (namesUsedTotal nt) < 2 ^ k"
    and "short_names nt" and "namesUsedTotal nt \<le> 2 ^ 30"
  shows "\<exists>nt' u'. loadAndAppendNameTableDiff base (mk_unpickler (bytes_of (storeNameTableDiff xxh w nt))) = Inr (nt', u')
     \<and> utf8Names nt' = utf8Names nt \<and> constantNames nt' = constantNames nt \<and> uniqueNames nt' = uniqueNames nt
     \<and> indexed xxh k nt'"
proof -
  obtain bs where bs: "agrees (storeNameTableDiff xxh w nt) (loadAndAppendNameTableDiff base) (namesOf nt base bs)"
    "indexed xxh k (namesOf nt base bs)"
    using agrees_diff [OF assms(1,2) _ assms(4)] assms(3,5) by (auto simp: size_entries namesUsedTotal_def)
  from agrees_finish(2) [OF bs(1)] bs(2) show ?thesis
    by (auto simp: namesOf_def)
qed

theorem nameTableDiff_completes_witness:
  "\<exists>nt' u'. loadAndAppendNameTableDiff (initNames 1 1 1)
       (mk_unpickler (bytes_of (storeNameTableDiff (\<lambda>_. 7) \<lparr>utf8NamesWritten = 0, constantNamesWritten = 0, uniqueNamesWritten = 0\<rparr>
          ((initNames 1 1 1)\<lparr>utf8Names := [''a'', ''b''], constantNames := [5]\<rparr>)))) = Inr (nt', u')
     \<and> utf8Names nt' = [''a'', ''b'']"
proof -
  let ?w = "\<lparr>utf8NamesWritten = 0, constantNamesWritten = 0, uniqueNamesWritten = 0\<rparr>"
  let ?nt = "(initNames 1 1 1)\<lparr>utf8Names := [''a'', ''b''], constantNames := [5]\<rparr>"
  have size: "unat (nextPowerOfTwo (2 * of_nat (1 + 1 + 1))) = 8"
    by (simp add: nextPowerOfTwo_def)
  then have "indexed (\<lambda>_. 7) 3 (initNames 1 1 1)"
    by (simp add: indexed_def initNames_def sized_def chained_def occupied_def present_def emptyBucket_def
        entries_def entriesFor_def)
  moreover have "writtenPrefix ?w (initNames 1 1 1) ?nt" "short_names ?nt" "Suc (namesUsedTotal ?nt) < 2 ^ 3"
    "namesUsedTotal ?nt \<le> 2 ^ 30"
    by (simp_all add: writtenPrefix_def initNames_def short_names_def namesUsedTotal_def)
  ultimately obtain nt' u' where "loadAndAppendNameTableDiff (initNames 1 1 1)
      (mk_unpickler (bytes_of (storeNameTableDiff (\<lambda>_. 7) ?w ?nt))) = Inr (nt', u')" "utf8Names nt' = utf8Names ?nt"
    using nameTableDiff_completes [of "\<lambda>_. 7" 3 "initNames 1 1 1" ?w ?nt] by blast
  then show ?thesis by auto
qed

text \<open>The cached UUID is returned for data of the current version, and data of any other version raises.\<close>

lemma version_checked:
  "if v = VERSION
   then \<exists>u'. unpickleGSUUID (mk_unpickler (bytes_of (writes [wU4 v, wU4 uuid]))) = Inr (uuid, u')
   else unpickleGSUUID (mk_unpickler (bytes_of (writes [wU4 v, wU4 uuid]))) = Inl VersionMismatch"
proof -
  let ?u = "mk_unpickler (bytes_of (writes [wU4 v, wU4 uuid]))"
  have "bytes_of (writes [wU4 v, wU4 uuid]) = finish (put_tokens [T4 v, T4 uuid] empty_pickler)"
    by (simp add: bytes_of_def wU4_def put_tokens_def)
  then have "decodes ?u ([T4 v] @ [T4 uuid])"
    by (simp add: decodes_mk_unpickler)
  from readsD [OF reads_getU4 this] obtain u1 where
    u1: "getU4 ?u = Inr (v, u1)" "decodes u1 ([T4 uuid] @ [])"
    by auto
  from readsD [OF reads_getU4 u1(2)] u1(1) show ?thesis
    by (auto simp: unpickleGSUUID_def bindG_def failG_def)
qed

text \<open>After loading a file table, every file is found under its path, at the reference it had.\<close>

lemma loaded_files_found:
  assumes "list_all wf_file fs" and "length fs < 2 ^ 31" and "distinct (map path fs)" and "i < length fs"
  shows "\<exists>ft u'. unpickleFileTable (mk_unpickler (bytes_of (pickleFileTable (enteredFiles fs)))) = Inr (ft, u')
     \<and> findFileByPath (path (fs ! i)) ft = of_nat (Suc i) \<and> ftFiles ft ! Suc i = Some (fs ! i)"
proof -
  have "wf_file_table (enteredFiles fs)"
    using assms(1,2) by (auto simp: wf_file_table_def)
  from fileTable.roundtrip [OF this] find_entered [OF assms(3,4)] assms(4) show ?thesis
    by (auto simp: ftFiles_entered)
qed

definition example_file :: "string \<Rightarrow> src_file" where
  "example_file p = \<lparr>sourceType = File_Normal, path = p, source = ''1'', fileHash = None\<rparr>"

definition example_symbols :: symbol_table where
  "example_symbols = \<lparr>classAndModules = [example_class [(5, 1), (2, 6)]],
     methods = [\<lparr>m_nameLoc = \<lparr>fileRef = 1, offsets = \<lparr>beginLoc = 0, endLoc = 3\<rparr>\<rparr>, m_owner = 1, m_name = 5, m_rebind = 0,
        m_flags = 3, m_typeParameters = [], m_parameters = [], m_resultType = NullType, m_intrinsicOffset = 0, m_locs = []\<rparr>],
     symFields = [\<lparr>f_owner = 1, f_name = 5, f_flags = 1, f_resultType = NullType, f_locs = []\<rparr>],
     typeParameters = [\<lparr>tp_owner = 1, tp_name = 5, tp_flags = 1, tp_resultType = NullType, tp_locs = []\<rparr>],
     typeMembers = [\<lparr>tp_owner = 1, tp_name = 5, tp_flags = 1, tp_resultType = NullType, tp_locs = []\<rparr>]\<rparr>"

lemma example_symbols_ok:
  "wf_symbol_table 1 example_symbols" "length (bytes_of (pickleSymbolTable example_symbols)) + 1 < 2 ^ 31"
proof -
  show "wf_symbol_table 1 example_symbols"
    using wf_example_class [of "[(5, 1), (2, 6)]"]
    by (simp add: wf_symbol_table_def example_symbols_def table_size_def wf_method_def wf_field_def
        wf_type_parameter_def type_fits_def)
  show "length (bytes_of (pickleSymbolTable example_symbols)) + 1 < 2 ^ 31"
  proof -
    have "\<exists>n < 1000. puts_at_most n (pickleSymbolTable example_symbols)"
      unfolding pickleSymbolTable_def example_symbols_def example_class_def
      by (intro exI conjI [rotated], (rule at_most | simp add: pickleClassOrModule_def pickleMethod_def
          pickleField_def pickleTypeParameter_def pickleMember_def pickleLoc_def pickleLocOffsets_def
          del: writes.simps forEach.simps)+)
    then show ?thesis
      using bytes_of_bound [of _ "pickleSymbolTable example_symbols"] by fastforce
  qed
qed

lemma example_names_ok:
  assumes "utf8Names nt = [nm]" "constantNames nt = [c]" "uniqueNames nt = [k]" "length nm < 100"
  shows "length (bytes_of (pickleNameTable xxh nt)) + 1 < 2 ^ 31"
proof -
  have "\<exists>n < 1000. puts_at_most n (pickleNameTable xxh nt)"
    unfolding pickleNameTable_def assms
    by (intro exI conjI [rotated], (rule at_most | simp add: pickleNamed_def pickleUTF8Name_def
        pickleConstantName_def pickleUniqueName_def del: writes.simps forEach.simps)+)
       (use assms(4) in simp)
  then show ?thesis
    using bytes_of_bound [of _ "pickleNameTable xxh nt"] by fastforce
qed

theorem store_load_global_witness:
  "\<exists>gs gs0 d gs'. store (\<lambda>d. 0 # d) (\<lambda>_. 7) gs = Inr d \<and> loadGlobalState (\<lambda>c n. Some (tl c)) 1 gs0 d = Inr gs'
     \<and> gsSymbols gs = example_symbols \<and> utf8Names (gsNames gs) = [''foo'']
     \<and> gsSymbols gs' = canonSymbolTable example_symbols \<and> utf8Names (gsNames gs') = [''foo'']"
proof -
  let ?k = "\<lparr>un_original = 5, un_num = 1, un_kind = 0\<rparr>"
  obtain nt where nt: "wf_names (\<lambda>_. 7) nt" "utf8Names nt = [''foo'']" "constantNames nt = [mkNameRef UTF8 0]"
    "uniqueNames nt = [?k]" "1 + 1 + 1 \<le> capacity nt"
    using three_names [of 1 1 1 ?k "\<lambda>_. 7" "''foo''"] by auto
  define gs where "gs = \<lparr>gsSymbols = example_symbols, gsNames = nt, gsFiles = enteredFiles []\<rparr>"
  define gs0 where "gs0 = \<lparr>gsSymbols = \<lparr>classAndModules = [], methods = [], symFields = [], typeParameters = [],
      typeMembers = []\<rparr>, gsNames = initNames 1 1 1, gsFiles = noFiles\<rparr>"
  have room: "capacity nt + 2 \<le> length (namesByHash nt)"
    using nt(1) by (auto simp: wf_names_def sized_def)
  have "reserveFor 1 1 = 1"
    by (simp add: reserveFor_def nextPowerOfTwo_def)
  then have fits: "fits_index nt (initNames 1 1 1)"
    using room nt by (simp add: fits_index_def loadedNames_def capacity_def initNames_def)
  have files: "wf_file_table (enteredFiles [])"
    by (auto simp: wf_file_table_def)
  have "pickleFileTable (enteredFiles []) = writes [wSize 0, forEach [] pickleFilePtr]"
    by (simp add: pickleFileTable_def ftFiles_entered del: writes.simps forEach.simps)
  moreover have "puts_at_most (1 + (0 + 0)) (writes [wSize 0, forEach [] pickleFilePtr])"
    by (rule at_most)+
  ultimately have "puts_at_most (1 + (0 + 0)) (pickleFileTable (enteredFiles []))"
    by (simp only:)
  then have filesize: "length (bytes_of (pickleFileTable (enteredFiles []))) + 1 < 2 ^ 31"
    using bytes_of_bound by fastforce
  have names: "length (bytes_of (pickleNameTable (\<lambda>_. 7) nt)) + 1 < 2 ^ 31"
    by (rule example_names_ok [OF nt(2-4)]) simp
  have "\<exists>d gs'. store (\<lambda>d. 0 # d) (\<lambda>_. 7) gs = Inr d \<and> loadGlobalState (\<lambda>c n. Some (tl c)) 1 gs0 d = Inr gs'
     \<and> gsSymbols gs' = canonSymbolTable (gsSymbols gs) \<and> gsFiles gs' = gsFiles gs
     \<and> wf_names (\<lambda>_. 7) (gsNames gs') \<and> utf8Names (gsNames gs') = utf8Names (gsNames gs)
     \<and> constantNames (gsNames gs') = constantNames (gsNames gs)
     \<and> uniqueNames (gsNames gs') = uniqueNames (gsNames gs)"
  proof (rule store_load_global)
    show "wf_symbol_table 1 (gsSymbols gs)" "wf_names (\<lambda>_. 7) (gsNames gs)" "fits_index (gsNames gs) (gsNames gs0)"
      "wf_file_table (gsFiles gs)"
      using example_symbols_ok(1) nt(1) fits files by (simp_all add: gs_def gs0_def)
    show "short_names (gsNames gs)" "nonempty_names (gsNames gs)"
      using nt by (simp_all add: gs_def short_names_def nonempty_names_def)
    show "ftFiles (gsFiles gs0) = []" "namesUsedTotal (gsNames gs0) = 0" "symbolsUsedTotal (gsSymbols gs0) = 0"
      by (simp_all add: gs0_def noFiles_def namesUsedTotal_def symbolsUsedTotal_def initNames_def)
    show "lz4_ok (\<lambda>d. 0 # d) (\<lambda>c n. Some (tl c)) (bytes_of (pickleSymbolTable (gsSymbols gs)))"
      "lz4_ok (\<lambda>d. 0 # d) (\<lambda>c n. Some (tl c)) (bytes_of (pickleNameTable (\<lambda>_. 7) (gsNames gs)))"
      "lz4_ok (\<lambda>d. 0 # d) (\<lambda>c n. Some (tl c)) (bytes_of (pickleFileTable (gsFiles gs)))"
      using lz4_ok_stored [OF example_symbols_ok(2)] lz4_ok_stored [OF names] lz4_ok_stored [OF filesize]
      by (simp_all only: gs_def global_tables.simps)
  qed
  moreover have "gsSymbols gs = example_symbols" "utf8Names (gsNames gs) = [''foo'']"
    using nt(2) by (simp_all add: gs_def)
  ultimately show ?thesis by metis
qed

end
