(* ===== verification/AstCodec.thy ===== *)
theory AstCodec
  imports TableCodec
begin

text \<open>
  The syntax trees of \<open>ast/Trees.h\<close> as the cache stores them: \<open>SerializerImpl::pickle\<close> and
  \<open>unpickleExpr\<close> over all 31 tree nodes, and \<open>Serializer::storeTree\<close>/\<open>loadTree\<close> with their check of the
  source.  The reader rebuilds some nodes through the \<open>ast::MK\<close> helpers, which normalise: an empty
  instruction sequence is its expression, an assignment to a call becomes a call with one more argument,
  and a def without a block parameter gets one.
\<close>

section \<open>Trees\<close>

text \<open>
  A null \<open>ExpressionPtr\<close> is \<open>NullTree\<close>.  \<open>ConstantLit\<close> is a known symbol with its own location,
  \<open>ResolvedConstantLit\<close> the same node with an original \<open>UnresolvedConstantLit\<close>, given by its location,
  scope and name.  The flags of a \<open>Send\<close> and of a \<open>MethodDef\<close> are the byte their \<open>bit_cast\<close> gives; in a
  \<open>Send\<close> the positional arguments come first, then the keyword pairs, the keyword splat and the block.
\<close>

datatype (plugins only: code size) expr =
    NullTree
  | EmptyTree
  | Send loc_offsets expr u32 loc_offsets u8 u16 "expr list"
      \<comment> \<open>receiver, name, name location, flags, \<open>numPosArgs\<close>, arguments\<close>
  | ClassDef loc_offsets loc_offsets u8 u32 expr "expr list" "expr list" "expr list"
      \<comment> \<open>declaration location, kind, symbol, name, ancestors, singleton ancestors, body\<close>
  | MethodDef loc_offsets loc_offsets loc_offsets u8 u32 u32 "expr list" expr
      \<comment> \<open>declaration and name location, flags, name, symbol, parameters, body\<close>
  | If loc_offsets expr expr expr
  | While loc_offsets expr expr
  | Break loc_offsets expr
  | Retry loc_offsets
  | Next loc_offsets expr
  | Return loc_offsets expr
  | RescueCase loc_offsets "expr list" expr expr \<comment> \<open>exceptions, variable, body\<close>
  | Rescue loc_offsets expr "expr list" expr expr \<comment> \<open>body, cases, else, ensure\<close>
  | Local loc_offsets u32 u32 \<comment> \<open>name, unique\<close>
  | UnresolvedIdent loc_offsets u8 u32 \<comment> \<open>kind, name\<close>
  | RestParam loc_offsets expr
  | KeywordArg loc_offsets expr
  | OptionalParam loc_offsets expr expr
  | BlockParam loc_offsets expr
  | ShadowArg loc_offsets expr
  | Assign loc_offsets expr expr
  | Cast loc_offsets type_ptr expr u32 expr \<comment> \<open>type, argument, operator, type expression\<close>
  | Hash loc_offsets "expr list" "expr list" \<comment> \<open>keys, values\<close>
  | Array loc_offsets "expr list"
  | Literal loc_offsets type_ptr
  | UnresolvedConstantLit loc_offsets expr u32 \<comment> \<open>scope, name\<close>
  | ConstantLit loc_offsets u32
  | ResolvedConstantLit u32 loc_offsets expr u32 \<comment> \<open>symbol; location, scope and name of the original\<close>
  | ZSuperArgs loc_offsets
  | Block loc_offsets "expr list" expr
  | InsSeq loc_offsets "expr list" expr
  | RuntimeMethodDefinition loc_offsets u32 bool
  | Self loc_offsets

section \<open>Writing\<close>

definition send_hasBlock :: "u8 \<Rightarrow> bool" where
  "send_hasBlock flags \<longleftrightarrow> flags AND 4 \<noteq> 0"

definition hasKwSplat :: "u16 \<Rightarrow> bool \<Rightarrow> nat \<Rightarrow> bool" where
  "hasKwSplat numPosArgs hasBlock nargs \<longleftrightarrow>
     odd (int nargs - int (unat numPosArgs) - (if hasBlock then 1 else 0))"

definition numKwArgs :: "u16 \<Rightarrow> bool \<Rightarrow> nat \<Rightarrow> u16" where
  "numKwArgs numPosArgs hasBlock nargs =
     (of_nat nargs - numPosArgs - (if hasKwSplat numPosArgs hasBlock nargs then 1 else 0)
        - (if hasBlock then 1 else 0)) div 2"

definition numNonBlockArgs :: "u16 \<Rightarrow> bool \<Rightarrow> nat \<Rightarrow> u16" where
  "numNonBlockArgs numPosArgs hasBlock nargs =
     numPosArgs + numKwArgs numPosArgs hasBlock nargs * 2
       + (if hasKwSplat numPosArgs hasBlock nargs then 1 else 0)"

text \<open>\<open>nonBlockArgs()\<close>, then \<open>*rawBlock()\<close>.\<close>

definition writtenArgs :: "u8 \<Rightarrow> u16 \<Rightarrow> 'a list \<Rightarrow> 'a list" where
  "writtenArgs flags numPosArgs args =
     take (unat (numNonBlockArgs numPosArgs (send_hasBlock flags) (length args))) args
       @ (if send_hasBlock flags \<and> args \<noteq> [] then [last args] else [])"

text \<open>
  \<open>stub\<close> is the raw id of \<open>Symbols::StubModule()\<close>: the pass that caches trees must not meet an
  unresolved constant (\<open>ENFORCE(false)\<close>).  A loop over children is \<open>writes\<close> of their writers.
\<close>

primrec pickleExpr :: "u32 \<Rightarrow> expr \<Rightarrow> put" where
  "pickleExpr stub NullTree = wU4 0"
| "pickleExpr stub (Send loc recv fn funLoc flags numPosArgs args) = writes
     [wU4 2, pickleLocOffsets loc, wU4 fn, pickleLocOffsets funLoc, wU1 flags, wU4 (ucast numPosArgs),
      wSize (unat (numNonBlockArgs numPosArgs (send_hasBlock flags) (length args)) + (if send_hasBlock flags then 1 else 0)),
      pickleExpr stub recv, writes (writtenArgs flags numPosArgs (map (pickleExpr stub) args))]"
| "pickleExpr stub (Block loc params body) = writes
     [wU4 28, pickleLocOffsets loc, wSize (length params), pickleExpr stub body,
      writes (map (pickleExpr stub) params)]"
| "pickleExpr stub (Literal loc value) = writes [wU4 24, pickleLocOffsets loc, pickleType value]"
| "pickleExpr stub (While loc cond body) = writes
     [wU4 6, pickleLocOffsets loc, pickleExpr stub cond, pickleExpr stub body]"
| "pickleExpr stub (Return loc e) = writes [wU4 10, pickleLocOffsets loc, pickleExpr stub e]"
| "pickleExpr stub (If loc cond thenp elsep) = writes
     [wU4 5, pickleLocOffsets loc, pickleExpr stub cond, pickleExpr stub thenp, pickleExpr stub elsep]"
| "pickleExpr stub (UnresolvedConstantLit loc scope cnst) = writes
     [wU4 25, pickleLocOffsets loc, wU4 cnst, pickleExpr stub scope]"
| "pickleExpr stub (Local loc name unique) = writes [wU4 13, pickleLocOffsets loc, wU4 name, wU4 unique]"
| "pickleExpr stub (Assign loc lhs rhs) = writes
     [wU4 20, pickleLocOffsets loc, pickleExpr stub lhs, pickleExpr stub rhs]"
| "pickleExpr stub (InsSeq loc stats e) = writes
     [wU4 29, pickleLocOffsets loc, wSize (length stats), pickleExpr stub e,
      writes (map (pickleExpr stub) stats)]"
| "pickleExpr stub (Next loc e) = writes [wU4 9, pickleLocOffsets loc, pickleExpr stub e]"
| "pickleExpr stub (Break loc e) = writes [wU4 7, pickleLocOffsets loc, pickleExpr stub e]"
| "pickleExpr stub (Retry loc) = writes [wU4 8, pickleLocOffsets loc]"
| "pickleExpr stub (Hash loc keys values) =
     (if length values \<noteq> length keys then writes [wU4 22, pickleLocOffsets loc, raise BadTable]
      else writes [wU4 22, pickleLocOffsets loc, wSize (length values),
             writes (map (pickleExpr stub) values), writes (map (pickleExpr stub) keys)])"
| "pickleExpr stub (Array loc elems) = writes
     [wU4 23, pickleLocOffsets loc, wSize (length elems), writes (map (pickleExpr stub) elems)]"
| "pickleExpr stub (Cast loc type arg cast typeExpr) = writes
     [wU4 21, pickleLocOffsets loc, wU4 cast, pickleType type, pickleExpr stub arg, pickleExpr stub typeExpr]"
| "pickleExpr stub EmptyTree = writes [wU4 1]"
| "pickleExpr stub (ClassDef loc declLoc kind symbol name ancestors singletonAncestors rhs) = writes
     [wU4 3, pickleLocOffsets loc, pickleLocOffsets declLoc, wU1 kind, wU4 symbol,
      wSize (length ancestors), wSize (length singletonAncestors), wSize (length rhs),
      pickleExpr stub name, writes (map (pickleExpr stub) ancestors),
      writes (map (pickleExpr stub) singletonAncestors), writes (map (pickleExpr stub) rhs)]"
| "pickleExpr stub (MethodDef loc declLoc nameLoc flags name symbol params rhs) = writes
     [wU4 4, pickleLocOffsets loc, pickleLocOffsets declLoc, pickleLocOffsets nameLoc, wU1 flags,
      wU4 name, wU4 symbol, wSize (length params), pickleExpr stub rhs,
      writes (map (pickleExpr stub) params)]"
| "pickleExpr stub (Rescue loc body rescueCases elseb ensure) = writes
     [wU4 12, pickleLocOffsets loc, wSize (length rescueCases), pickleExpr stub ensure,
      pickleExpr stub elseb, pickleExpr stub body, writes (map (pickleExpr stub) rescueCases)]"
| "pickleExpr stub (RescueCase loc exceptions var body) = writes
     [wU4 11, pickleLocOffsets loc, wSize (length exceptions), pickleExpr stub var,
      pickleExpr stub body, writes (map (pickleExpr stub) exceptions)]"
| "pickleExpr stub (RestParam loc e) = writes [wU4 15, pickleLocOffsets loc, pickleExpr stub e]"
| "pickleExpr stub (KeywordArg loc e) = writes [wU4 16, pickleLocOffsets loc, pickleExpr stub e]"
| "pickleExpr stub (ShadowArg loc e) = writes [wU4 19, pickleLocOffsets loc, pickleExpr stub e]"
| "pickleExpr stub (BlockParam loc e) = writes [wU4 18, pickleLocOffsets loc, pickleExpr stub e]"
| "pickleExpr stub (OptionalParam loc e dflt) = writes
     [wU4 17, pickleLocOffsets loc, pickleExpr stub e, pickleExpr stub dflt]"
| "pickleExpr stub (ZSuperArgs loc) = writes [wU4 27, pickleLocOffsets loc]"
| "pickleExpr stub (UnresolvedIdent loc kind name) = writes [wU4 14, pickleLocOffsets loc, wU1 kind, wU4 name]"
| "pickleExpr stub (ConstantLit loc symbol) =
     (if symbol = stub then writes [wU4 26, pickleLocOffsets loc, raise NotImplemented]
      else writes [wU4 26, pickleLocOffsets loc, wU4 symbol, wU4 0])"
| "pickleExpr stub (ResolvedConstantLit symbol loc scope cnst) =
     (if symbol = stub then writes [wU4 26, pickleLocOffsets loc, raise NotImplemented]
      else writes [wU4 26, pickleLocOffsets loc, wU4 symbol, wU4 25, pickleLocOffsets loc, wU4 cnst,
             pickleExpr stub scope])"
| "pickleExpr stub (RuntimeMethodDefinition loc name isSelfMethod) = writes
     [wU4 30, pickleLocOffsets loc, wU4 name, wU1 (bool_byte isSelfMethod)]"
| "pickleExpr stub (Self loc) = writes [wU4 31, pickleLocOffsets loc]"

section \<open>Reading\<close>

text \<open>\<open>LocOffsets::none()\<close>\<close>

definition loc_none :: loc_offsets where
  "loc_none = \<lparr>beginLoc = 4294967295, endLoc = 4294967295\<rparr>"

text \<open>\<open>Send::addPosArg\<close>: the argument goes behind the positional ones.\<close>

definition addPosArg :: "u16 \<Rightarrow> expr \<Rightarrow> expr list \<Rightarrow> expr list" where
  "addPosArg numPosArgs e args = take (unat numPosArgs) args @ e # drop (unat numPosArgs) args"

definition MK_Assign :: "loc_offsets \<Rightarrow> expr \<Rightarrow> expr \<Rightarrow> expr" where
  "MK_Assign loc lhs rhs = (case lhs of
     Send sloc recv fn funLoc flags n args \<Rightarrow> Send sloc recv fn funLoc flags (n + 1) (addPosArg n rhs args)
   | InsSeq qloc stats (If iloc cond thenp (Send sloc recv fn funLoc flags n args)) \<Rightarrow>
       InsSeq qloc stats (If iloc cond thenp (Send sloc recv fn funLoc flags (n + 1) (addPosArg n rhs args)))
   | _ \<Rightarrow> Assign loc lhs rhs)"

definition MK_InsSeq :: "loc_offsets \<Rightarrow> expr list \<Rightarrow> expr \<Rightarrow> expr" where
  "MK_InsSeq loc stats e = (if stats \<noteq> [] then InsSeq loc stats e else e)"

definition isa_blockParam :: "expr \<Rightarrow> bool" where
  "isa_blockParam e = (case e of Local _ _ _ \<Rightarrow> True | BlockParam _ _ \<Rightarrow> True | _ \<Rightarrow> False)"

text \<open>\<open>MK::Method\<close> with the flags and the symbol the reader sets afterwards; \<open>blkArg\<close> is the name
  \<open>Names::blkArg()\<close>, whose raw id is generated, and 0 is \<open>UnresolvedIdent::Kind::Local\<close>.\<close>

definition MK_Method :: "u32 \<Rightarrow> loc_offsets \<Rightarrow> loc_offsets \<Rightarrow> loc_offsets \<Rightarrow> u8 \<Rightarrow> u32 \<Rightarrow> u32 \<Rightarrow> expr list \<Rightarrow> expr \<Rightarrow> expr" where
  "MK_Method blkArg loc declLoc nameLoc flags name symbol params rhs =
     MethodDef loc declLoc nameLoc flags name symbol
       (if params = [] \<or> \<not> isa_blockParam (last params)
        then params @ [BlockParam loc_none (UnresolvedIdent loc_none 0 blkArg)] else params) rhs"

text \<open>A size read into an unsigned integer.\<close>

definition getUSize :: "nat get" where
  "getUSize = bindG getU4 (\<lambda>w. returnG (unat w))"

definition unpickleExprTag :: "u32 \<Rightarrow> type_ptr get \<Rightarrow> expr get \<Rightarrow> u32 \<Rightarrow> expr get" where
  "unpickleExprTag blkArg type rec kind =
     (if kind = 0 then returnG NullTree
      else if kind = 2 then
        bindG unpickleLocOffsets (\<lambda>loc. bindG getU4 (\<lambda>fn. bindG unpickleLocOffsets (\<lambda>funLoc.
        bindG getU1 (\<lambda>flags. bindG getU4 (\<lambda>numPosArgs. bindG getUSize (\<lambda>argsSize. bindG rec (\<lambda>recv.
        bindG (repeatG argsSize rec) (\<lambda>args.
          returnG (Send loc recv fn funLoc flags (ucast numPosArgs) args)))))))))
      else if kind = 28 then
        bindG unpickleLocOffsets (\<lambda>loc. bindG getUSize (\<lambda>paramsSize. bindG rec (\<lambda>body.
        bindG (repeatG paramsSize rec) (\<lambda>params. returnG (Block loc params body)))))
      else if kind = 24 then
        bindG unpickleLocOffsets (\<lambda>loc. bindG type (\<lambda>tpe. returnG (Literal loc tpe)))
      else if kind = 6 then
        bindG unpickleLocOffsets (\<lambda>loc. bindG rec (\<lambda>cond. bindG rec (\<lambda>body. returnG (While loc cond body))))
      else if kind = 10 then
        bindG unpickleLocOffsets (\<lambda>loc. bindG rec (\<lambda>e. returnG (Return loc e)))
      else if kind = 5 then
        bindG unpickleLocOffsets (\<lambda>loc. bindG rec (\<lambda>cond. bindG rec (\<lambda>thenp. bindG rec (\<lambda>elsep.
          returnG (If loc cond thenp elsep)))))
      else if kind = 25 then
        bindG unpickleLocOffsets (\<lambda>loc. bindG getU4 (\<lambda>cnst. bindG rec (\<lambda>scope.
          returnG (UnresolvedConstantLit loc scope cnst))))
      else if kind = 13 then
        bindG unpickleLocOffsets (\<lambda>loc. bindG getU4 (\<lambda>nm. bindG getU4 (\<lambda>unique. returnG (Local loc nm unique))))
      else if kind = 20 then
        bindG unpickleLocOffsets (\<lambda>loc. bindG rec (\<lambda>lhs. bindG rec (\<lambda>rhs. returnG (MK_Assign loc lhs rhs))))
      else if kind = 29 then
        bindG unpickleLocOffsets (\<lambda>loc. bindG getUSize (\<lambda>insSize. bindG rec (\<lambda>e.
        bindG (repeatG insSize rec) (\<lambda>stats. returnG (MK_InsSeq loc stats e)))))
      else if kind = 9 then
        bindG unpickleLocOffsets (\<lambda>loc. bindG rec (\<lambda>e. returnG (Next loc e)))
      else if kind = 7 then
        bindG unpickleLocOffsets (\<lambda>loc. bindG rec (\<lambda>e. returnG (Break loc e)))
      else if kind = 8 then
        bindG unpickleLocOffsets (\<lambda>loc. returnG (Retry loc))
      else if kind = 22 then
        bindG unpickleLocOffsets (\<lambda>loc. bindG getUSize (\<lambda>sz. bindG (repeatG sz rec) (\<lambda>values.
        bindG (repeatG sz rec) (\<lambda>keys. returnG (Hash loc keys values)))))
      else if kind = 23 then
        bindG unpickleLocOffsets (\<lambda>loc. bindG getUSize (\<lambda>sz. bindG (repeatG sz rec) (\<lambda>elems.
          returnG (Array loc elems))))
      else if kind = 21 then
        bindG unpickleLocOffsets (\<lambda>loc. bindG getU4 (\<lambda>cast. bindG type (\<lambda>tpe. bindG rec (\<lambda>arg.
        bindG rec (\<lambda>typeExpr. returnG (Cast loc tpe arg cast typeExpr))))))
      else if kind = 1 then returnG EmptyTree
      else if kind = 3 then
        bindG unpickleLocOffsets (\<lambda>loc. bindG unpickleLocOffsets (\<lambda>declLoc. bindG getU1 (\<lambda>ckind.
        bindG getU4 (\<lambda>symbol. bindG getUSize (\<lambda>n1. bindG getUSize (\<lambda>n2. bindG getUSize (\<lambda>n3.
        bindG rec (\<lambda>name. bindG (repeatG n1 rec) (\<lambda>ancestors. bindG (repeatG n2 rec) (\<lambda>singletonAncestors.
        bindG (repeatG n3 rec) (\<lambda>rhs.
          returnG (ClassDef loc declLoc ckind symbol name ancestors singletonAncestors rhs))))))))))))
      else if kind = 4 then
        bindG unpickleLocOffsets (\<lambda>loc. bindG unpickleLocOffsets (\<lambda>declLoc. bindG unpickleLocOffsets (\<lambda>nameLoc.
        bindG getU1 (\<lambda>flags. bindG getU4 (\<lambda>name. bindG getU4 (\<lambda>symbol. bindG getUSize (\<lambda>argsSize.
        bindG rec (\<lambda>rhs. bindG (repeatG argsSize rec) (\<lambda>params.
          returnG (MK_Method blkArg loc declLoc nameLoc flags name symbol params rhs))))))))))
      else if kind = 12 then
        bindG unpickleLocOffsets (\<lambda>loc. bindG getUSize (\<lambda>n. bindG rec (\<lambda>ensure. bindG rec (\<lambda>elseb.
        bindG rec (\<lambda>body. bindG (repeatG n rec) (\<lambda>cases. returnG (Rescue loc body cases elseb ensure)))))))
      else if kind = 11 then
        bindG unpickleLocOffsets (\<lambda>loc. bindG getUSize (\<lambda>n. bindG rec (\<lambda>var. bindG rec (\<lambda>body.
        bindG (repeatG n rec) (\<lambda>exceptions. returnG (RescueCase loc exceptions var body))))))
      else if kind = 15 then
        bindG unpickleLocOffsets (\<lambda>loc. bindG rec (\<lambda>ref. returnG (RestParam loc ref)))
      else if kind = 16 then
        bindG unpickleLocOffsets (\<lambda>loc. bindG rec (\<lambda>ref. returnG (KeywordArg loc ref)))
      else if kind = 19 then
        bindG unpickleLocOffsets (\<lambda>loc. bindG rec (\<lambda>ref. returnG (ShadowArg loc ref)))
      else if kind = 18 then
        bindG unpickleLocOffsets (\<lambda>loc. bindG rec (\<lambda>ref. returnG (BlockParam loc ref)))
      else if kind = 17 then
        bindG unpickleLocOffsets (\<lambda>loc. bindG rec (\<lambda>ref. bindG rec (\<lambda>dflt. returnG (OptionalParam loc ref dflt))))
      else if kind = 27 then
        bindG unpickleLocOffsets (\<lambda>loc. returnG (ZSuperArgs loc))
      else if kind = 14 then
        bindG unpickleLocOffsets (\<lambda>loc. bindG getU1 (\<lambda>ikind. bindG getU4 (\<lambda>name.
          returnG (UnresolvedIdent loc ikind name))))
      else if kind = 26 then
        bindG unpickleLocOffsets (\<lambda>loc. bindG getU4 (\<lambda>sym. bindG getU4 (\<lambda>litTag.
          if litTag = 25 then
            bindG unpickleLocOffsets (\<lambda>oloc. bindG getU4 (\<lambda>cnst. bindG rec (\<lambda>scope.
              returnG (ResolvedConstantLit sym oloc scope cnst))))
          else if litTag \<noteq> 0 then failG (UnknownTag litTag)
          else returnG (ConstantLit loc sym))))
      else if kind = 30 then
        bindG unpickleLocOffsets (\<lambda>loc. bindG getU4 (\<lambda>name. bindG getU1 (\<lambda>isSelfMethod.
          returnG (RuntimeMethodDefinition loc name (byte_bool isSelfMethod)))))
      else if kind = 31 then
        bindG unpickleLocOffsets (\<lambda>loc. returnG (Self loc))
      else failG (UnknownTag kind))"

text \<open>The reader recurses on the input; \<open>fuel\<close> bounds the depth of the trees and of the types in them.\<close>

fun unpickleExpr :: "u32 \<Rightarrow> nat \<Rightarrow> expr get" where
  "unpickleExpr blkArg 0 = failG OutOfFuel"
| "unpickleExpr blkArg (Suc fuel) =
     bindG getU4 (unpickleExprTag blkArg (unpickleType fuel) (unpickleExpr blkArg fuel))"

section \<open>Round trip\<close>

fun children :: "expr \<Rightarrow> expr list" where
  "children (Send _ recv _ _ _ _ args) = recv # args"
| "children (ClassDef _ _ _ _ name ancestors singletonAncestors rhs) = name # ancestors @ singletonAncestors @ rhs"
| "children (MethodDef _ _ _ _ _ _ params rhs) = rhs # params"
| "children (If _ cond thenp elsep) = [cond, thenp, elsep]"
| "children (While _ cond body) = [cond, body]"
| "children (Break _ e) = [e]"
| "children (Next _ e) = [e]"
| "children (Return _ e) = [e]"
| "children (RescueCase _ exceptions var body) = var # body # exceptions"
| "children (Rescue _ body rescueCases elseb ensure) = ensure # elseb # body # rescueCases"
| "children (RestParam _ e) = [e]"
| "children (KeywordArg _ e) = [e]"
| "children (OptionalParam _ e dflt) = [e, dflt]"
| "children (BlockParam _ e) = [e]"
| "children (ShadowArg _ e) = [e]"
| "children (Assign _ lhs rhs) = [lhs, rhs]"
| "children (Cast _ _ arg _ typeExpr) = [arg, typeExpr]"
| "children (Hash _ keys values) = keys @ values"
| "children (Array _ elems) = elems"
| "children (UnresolvedConstantLit _ scope _) = [scope]"
| "children (ResolvedConstantLit _ _ scope _) = [scope]"
| "children (Block _ params body) = body # params"
| "children (InsSeq _ stats e) = e # stats"
| "children _ = []"

text \<open>
  A node the reader rebuilds as it was: the \<open>MK\<close> helpers have nothing to normalise, the argument vector of
  a call has its block and fits the 16-bit counts, and no constant is a stub.
\<close>

fun node_ok :: "u32 \<Rightarrow> nat \<Rightarrow> expr \<Rightarrow> bool" where
  "node_ok stub fuel (Send _ _ _ _ flags numPosArgs args) \<longleftrightarrow> length args < 2 ^ 16
     \<and> unat numPosArgs + (if send_hasBlock flags then 1 else 0) \<le> length args"
| "node_ok stub fuel (ClassDef _ _ _ _ _ ancestors singletonAncestors rhs) \<longleftrightarrow>
     length ancestors < 2 ^ 32 \<and> length singletonAncestors < 2 ^ 32 \<and> length rhs < 2 ^ 32"
| "node_ok stub fuel (MethodDef _ _ _ _ _ _ params _) \<longleftrightarrow>
     params \<noteq> [] \<and> isa_blockParam (last params) \<and> length params < 2 ^ 32"
| "node_ok stub fuel (RescueCase _ exceptions _ _) \<longleftrightarrow> length exceptions < 2 ^ 32"
| "node_ok stub fuel (Rescue _ _ rescueCases _ _) \<longleftrightarrow> length rescueCases < 2 ^ 32"
| "node_ok stub fuel (Assign loc lhs rhs) \<longleftrightarrow> MK_Assign loc lhs rhs = Assign loc lhs rhs"
| "node_ok stub fuel (Cast _ type _ _ _) \<longleftrightarrow> type_fits fuel type"
| "node_ok stub fuel (Hash _ keys values) \<longleftrightarrow> length keys = length values \<and> length values < 2 ^ 32"
| "node_ok stub fuel (Array _ elems) \<longleftrightarrow> length elems < 2 ^ 32"
| "node_ok stub fuel (Literal _ type) \<longleftrightarrow> type_fits fuel type"
| "node_ok stub fuel (ConstantLit _ symbol) \<longleftrightarrow> symbol \<noteq> stub"
| "node_ok stub fuel (ResolvedConstantLit symbol _ _ _) \<longleftrightarrow> symbol \<noteq> stub"
| "node_ok stub fuel (Block _ params _) \<longleftrightarrow> length params < 2 ^ 32"
| "node_ok stub fuel (InsSeq _ stats _) \<longleftrightarrow> stats \<noteq> [] \<and> length stats < 2 ^ 32"
| "node_ok stub fuel _ \<longleftrightarrow> True"

text \<open>A tree less than \<open>fuel\<close> deep whose nodes are all of this kind.\<close>

fun wf_tree :: "u32 \<Rightarrow> nat \<Rightarrow> expr \<Rightarrow> bool" where
  "wf_tree stub 0 e = False"
| "wf_tree stub (Suc fuel) e \<longleftrightarrow> node_ok stub fuel e \<and> list_all (wf_tree stub fuel) (children e)"

lemma numNonBlockArgs_all:
  assumes "n < 2 ^ 16" and "unat numPosArgs + (if hasBlock then 1 else 0) \<le> n"
  shows "unat (numNonBlockArgs numPosArgs hasBlock n) = n - (if hasBlock then 1 else 0)"
proof -
  let ?b = "if hasBlock then 1 else 0 :: nat"
  define d where "d = n - unat numPosArgs - ?b"
  define sp where "sp = (if odd d then 1 else 0 :: nat)"
  have n: "n = unat numPosArgs + d + ?b"
    using assms(2) by (simp add: d_def)
  then have "int n - int (unat numPosArgs) - (if hasBlock then 1 else 0) = int d"
    by simp
  then have splat: "hasKwSplat numPosArgs hasBlock n \<longleftrightarrow> odd d"
    by (simp only: hasKwSplat_def even_of_nat)
  have sp_le: "sp \<le> d" and ev: "even (d - sp)"
    by (auto simp: sp_def dest: odd_pos)
  have conv: "(if hasKwSplat numPosArgs hasBlock n then 1 else 0 :: u16) = of_nat sp"
    "(if hasBlock then 1 else 0 :: u16) = of_nat ?b"
    by (auto simp: splat sp_def)
  have "(of_nat n - numPosArgs - of_nat sp - of_nat ?b :: u16) = of_nat (d - sp)"
    using sp_le by (subst n) (simp add: of_nat_diff)
  then have "numKwArgs numPosArgs hasBlock n = of_nat (d - sp) div 2"
    unfolding numKwArgs_def conv by simp
  moreover have "unat (of_nat (d - sp) :: u16) = d - sp"
    using assms(1) n by (simp add: unat_of_nat take_bit_nat_eq_self)
  ultimately have kw: "unat (numKwArgs numPosArgs hasBlock n) = (d - sp) div 2"
    by (simp add: unat_div)
  have "numKwArgs numPosArgs hasBlock n = of_nat ((d - sp) div 2)"
    by (simp flip: kw)
  then have "numNonBlockArgs numPosArgs hasBlock n = of_nat (unat numPosArgs + (d - sp) div 2 * 2 + sp)"
    unfolding numNonBlockArgs_def conv by simp
  also have "unat numPosArgs + (d - sp) div 2 * 2 + sp = n - ?b"
    using ev sp_le n by simp
  finally show ?thesis
    using assms(1) by (simp add: unat_of_nat take_bit_nat_eq_self)
qed

lemma writtenArgs_all:
  assumes "length args < 2 ^ 16" and "unat numPosArgs + (if send_hasBlock flags then 1 else 0) \<le> length args"
  shows "writtenArgs flags numPosArgs (map f args) = map f args"
    and "unat (numNonBlockArgs numPosArgs (send_hasBlock flags) (length args))
      + (if send_hasBlock flags then 1 else 0) = length args"
proof -
  note all = numNonBlockArgs_all [OF assms]
  show "unat (numNonBlockArgs numPosArgs (send_hasBlock flags) (length args))
      + (if send_hasBlock flags then 1 else 0) = length args"
    using all assms(2) by simp
  show "writtenArgs flags numPosArgs (map f args) = map f args"
  proof (cases "send_hasBlock flags")
    case True
    with assms(2) have "map f args \<noteq> []" by auto
    then show ?thesis
      using all True by (simp add: writtenArgs_def flip: butlast_conv_take [of "map f args", simplified])
  next
    case False
    with all show ?thesis by (simp add: writtenArgs_def)
  qed
qed

lemma agrees_USize: "n < 2 ^ 32 \<Longrightarrow> agrees (wSize n) getUSize n"
  unfolding getUSize_def
  by (rule agrees_bind [where Q = "writes []", OF agrees_wSizeU4]) (simp_all add: agrees_return)

lemma writes_map: "writes (map f xs) = forEach xs f"
proof
  show "writes (map f xs) p = forEach xs f p" for p
    by (induction xs arbitrary: p) (auto split: sum.splits)
qed

lemma agrees_children:
  "(\<And>x. x \<in> set xs \<Longrightarrow> agrees (f x) g x) \<Longrightarrow> agrees (writes (map f xs)) (repeatG (length xs) g) xs"
  unfolding writes_map by (rule agrees_forEach)

lemma ucast16 [simp]: "ucast (ucast (w :: u16) :: u32) = w"
  by (simp add: ucast_up_down)

lemma agrees_ExprTag:
  assumes ok: "node_ok stub n e" and "e \<noteq> NullTree"
    and rec: "\<And>c. c \<in> set (children e) \<Longrightarrow> agrees (pickleExpr stub c) rec c"
    and type: "\<And>t. type_fits n t \<Longrightarrow> agrees (pickleType t) type t"
  shows "agrees (pickleExpr stub e) (bindG getU4 (unpickleExprTag blkArg type rec)) e"
proof -
  note tag = agrees_Cons [OF agrees_U4, of _ "unpickleExprTag blkArg type rec"]
  note step = agrees_rules agrees_LocOffsets agrees_USize agrees_children
  show ?thesis
    using ok assms(2)
  proof (cases e)
    case (Send loc recv fn funLoc flags numPosArgs args)
    have args: "length args < 2 ^ 16"
      "unat numPosArgs + (if send_hasBlock flags then 1 else 0) \<le> length args"
      using ok Send by auto
    have "agrees (writes (map (pickleExpr stub) args)) (repeatG (length args) rec) args"
      using rec Send by (intro agrees_children) simp
    moreover have "agrees (pickleExpr stub recv) rec recv"
      using rec Send by simp
    ultimately show ?thesis
      unfolding Send pickleExpr.simps writtenArgs_all [OF args]
      using args(1) by - (rule tag, simp add: unpickleExprTag_def, (assumption | rule step | simp)+)
  next
    case (Hash loc keys vals)
    have len: "length keys = length vals" "length vals < 2 ^ 32"
      using ok Hash by auto
    have "agrees (writes (map (pickleExpr stub) keys)) (repeatG (length keys) rec) keys"
      "agrees (writes (map (pickleExpr stub) vals)) (repeatG (length vals) rec) vals"
      using rec Hash by (auto intro!: agrees_children)
    with len Hash show ?thesis
      by (simp, intro tag, simp add: unpickleExprTag_def) (assumption | rule step | simp)+
  next
    case (InsSeq loc stats x)
    then show ?thesis
      using ok by (simp, intro tag, simp add: unpickleExprTag_def) (rule step rec | simp add: MK_InsSeq_def)+
  next
    case (MethodDef loc declLoc nameLoc flags name symbol params rhs)
    then show ?thesis
      using ok by (simp, intro tag, simp add: unpickleExprTag_def) (rule step rec | simp add: MK_Method_def)+
  qed ((simp; fail) | (simp, intro tag, simp add: unpickleExprTag_def, ((rule step rec type | simp)+)[1]))+
qed

lemma agrees_Expr: "wf_tree stub n e \<Longrightarrow> agrees (pickleExpr stub e) (unpickleExpr blkArg n) e"
proof (induction n arbitrary: e)
  case 0
  then show ?case by simp
next
  case (Suc n)
  show ?case
  proof (cases "e = NullTree")
    case True
    have "agrees (wU4 0) (bindG getU4 (unpickleExprTag blkArg (unpickleType n) (unpickleExpr blkArg n))) NullTree"
      by (rule agrees_bind [OF agrees_U4, where Q = "writes []"])
         (simp_all add: wU4_def agrees_done unpickleExprTag_def)
    with True show ?thesis by simp
  next
    case False
    then show ?thesis
      unfolding unpickleExpr.simps
      using Suc by (intro agrees_ExprTag [where n = n]) (auto simp: list_all_iff agrees_fits)
  qed
qed

interpretation tree: codec "pickleExpr stub" "unpickleExpr blkArg n" "wf_tree stub n" for stub blkArg n
  by unfold_locales (rule agrees_Expr)

section \<open>Cached trees\<close>

text \<open>
  \<open>storeTree\<close> prefixes the tree with the size and the hash of the source (\<open>File::sourceHash\<close>, a BLAKE3
  digest, given by \<open>digest\<close>) and with the file hash; \<open>loadTree\<close> returns no tree when they are not those of
  the file at hand, and otherwise sets its file hash where it has none yet.
\<close>

definition storeTree :: "(string \<Rightarrow> u8 list) \<Rightarrow> u32 \<Rightarrow> src_file \<Rightarrow> expr \<Rightarrow> put" where
  "storeTree digest stub f tree = writes
     [wSize (length (source f)), wBytes (digest (source f)), pickleFileHash (fileHash f), pickleExpr stub tree]"

definition loadTree :: "(string \<Rightarrow> u8 list) \<Rightarrow> u32 \<Rightarrow> nat \<Rightarrow> src_file \<Rightarrow> (expr option \<times> src_file) get" where
  "loadTree digest blkArg fuel f =
     bindG getU4 (\<lambda>fileSrcLen.
       if length (source f) \<noteq> unat fileSrcLen then returnG (None, f)
       else bindG getBytes (\<lambda>hashBytes.
         if hashBytes \<noteq> digest (source f) then returnG (None, f)
         else bindG unpickleFileHash (\<lambda>fh. bindG (unpickleExpr blkArg fuel) (\<lambda>tree.
           returnG (Some tree, setFileHash fh f)))))"

lemma agrees_Tree:
  assumes "wf_tree stub n tree" and "length (source f) < 2 ^ 32" and "length (digest (source f)) < 2 ^ 31"
    and "\<And>h. fileHash f = Some h \<Longrightarrow> wf_file_hash h" and "source f' = source f"
  shows "agrees (storeTree digest stub f tree) (loadTree digest blkArg n f')
     (Some tree, setFileHash (fileHash f) f')"
proof -
  have "unat (of_nat (length (source f)) :: u32) = length (source f)"
    by (rule unat_of_nat_u32 [OF assms(2)])
  then show ?thesis
    unfolding storeTree_def loadTree_def
    using agrees_FileHash [OF assms(4)] agrees_Expr [OF assms(1)] assms(3,5)
    by - (rule agrees_wSizeU4 agrees_Bytes agrees_Cons agrees_return | assumption | simp)+
qed

section \<open>Properties\<close>

lemma agrees_prefix:
  assumes "agrees (writes Ps) g x" and "agrees (writes Qs) h y"
  shows "\<exists>u'. g (mk_unpickler (bytes_of (writes (Ps @ Qs)))) = Inr (x, u')"
proof -
  from assms obtain ts ts' where P: "writes Ps = (\<lambda>p. Inr (put_tokens ts p))" "reads g ts x"
    and Q: "writes Qs = (\<lambda>p. Inr (put_tokens ts' p))"
    by (auto simp: agrees_def)
  have "bytes_of (writes (Ps @ Qs)) = finish (put_tokens (ts @ ts') empty_pickler)"
    by (simp add: bytes_of_def writes_append P Q put_tokens_append)
  then have "decodes (mk_unpickler (bytes_of (writes (Ps @ Qs)))) (ts @ ts')"
    by (simp add: decodes_mk_unpickler)
  from readsD [OF P(2) this] show ?thesis by blast
qed

text \<open>C2: A tree stored for a file and loaded for a file with the same source is the tree that was stored,
  and the stored file hash becomes the hash of the file when it has none, while a hash the file already has
  is kept, for any compression library that restores what it compressed.\<close>

theorem tree_cache_roundtrip:
  assumes "wf_tree stub n tree" and "wf_file f" and "length (digest (source f)) < 2 ^ 31" and "source f' = source f"
    and "lz4_ok compress decompress (bytes_of (storeTree digest stub f tree))"
  shows "\<exists>bytes. store_with compress (storeTree digest stub f tree) = Inr bytes
     \<and> load_with decompress (loadTree digest blkArg n f') bytes
         = Inr (Some tree, f'\<lparr>fileHash := (case fileHash f' of None \<Rightarrow> fileHash f | Some h \<Rightarrow> Some h)\<rparr>)"
proof -
  have "length (source f) < 2 ^ 32" "\<And>h. fileHash f = Some h \<Longrightarrow> wf_file_hash h"
    using assms(2) by (auto simp: wf_file_def)
  from agrees_Tree [where digest = digest, OF assms(1) this(1) assms(3) this(2) assms(4)] assms(5)
  have "\<exists>bytes. store_with compress (storeTree digest stub f tree) = Inr bytes
     \<and> load_with decompress (loadTree digest blkArg n f') bytes = Inr (Some tree, setFileHash (fileHash f) f')"
    by (rule store_load)
  then show ?thesis
    by (cases "fileHash f'") (auto simp: setFileHash_def)
qed

definition example_tree :: expr where
  "example_tree = MethodDef loc_none loc_none loc_none 0 5 0
     [Local loc_none 9 0, BlockParam loc_none (Local loc_none 13 0)]
     (InsSeq loc_none [Send loc_none (Self loc_none) 17 loc_none 1 1 [Literal loc_none (ClassType 3)]]
        (Assign loc_none (Local loc_none 9 0) (ConstantLit loc_none 21)))"

lemma wf_example_tree: "wf_tree 30 5 example_tree"
proof -
  have "wf_tree 30 (Suc (Suc (Suc (Suc (Suc 0))))) example_tree"
    by (simp add: example_tree_def isa_blockParam_def MK_Assign_def send_hasBlock_def type_fits_def)
  moreover have "(5 :: nat) = Suc (Suc (Suc (Suc (Suc 0))))"
    by simp
  ultimately show ?thesis
    by (simp only:)
qed

theorem tree_cache_roundtrip_witness:
  "wf_tree 30 5 example_tree \<and>
   (\<exists>bytes. store_with (\<lambda>d. 0 # d) (storeTree (\<lambda>s. [of_nat (length s)]) 30 (example_file ''a.rb'') example_tree) = Inr bytes
     \<and> load_with (\<lambda>c n. Some (tl c)) (loadTree (\<lambda>s. [of_nat (length s)]) 77 5 (example_file ''b.rb'')) bytes
         = Inr (Some example_tree, example_file ''b.rb''))"
proof -
  let ?P = "storeTree (\<lambda>s. [of_nat (length s)]) 30 (example_file ''a.rb'') example_tree"
  have "\<exists>n < 1000. puts_at_most n ?P"
    unfolding storeTree_def
    by (intro exI conjI [rotated], (rule at_most | simp add: pickleFileHash_def example_file_def example_tree_def
        pickleLocOffsets_def writtenArgs_def send_hasBlock_def numNonBlockArgs_def numKwArgs_def hasKwSplat_def
        del: writes.simps forEach.simps)+)
  then have "length (bytes_of ?P) + 1 < 2 ^ 31"
    using bytes_of_bound [of _ ?P] by fastforce
  from lz4_ok_stored [OF this] wf_example_tree
    tree_cache_roundtrip [of 30 5 example_tree "example_file ''a.rb''" "\<lambda>s. [of_nat (length s)]" "example_file ''b.rb''"
      "\<lambda>d. 0 # d" "\<lambda>c n. Some (tl c)" 77]
  show ?thesis
    by (simp add: example_file_def wf_file_def)
qed

text \<open>C25: A cached tree is never returned for a file whose source has another size or another hash: \<open>loadTree\<close>
  returns no tree and leaves the file as it is.\<close>

theorem stale_tree_rejected:
  assumes "wf_tree stub n tree" and "wf_file f" and "length (digest (source f)) < 2 ^ 31"
    and "length (source f') \<noteq> length (source f) \<or> digest (source f') \<noteq> digest (source f)"
  shows "\<exists>u'. loadTree digest blkArg m f' (mk_unpickler (bytes_of (storeTree digest stub f tree))) = Inr ((None, f'), u')"
proof -
  let ?size = "wSize (length (source f))" and ?hash = "wBytes (digest (source f))"
  let ?rest = "[pickleFileHash (fileHash f), pickleExpr stub tree]"
  let ?u = "mk_unpickler (bytes_of (storeTree digest stub f tree))"
  have "length (source f) < 2 ^ 32"
    using assms(2) by (simp add: wf_file_def)
  then have sz: "unat (of_nat (length (source f)) :: u32) = length (source f)"
    by (rule unat_of_nat_u32)
  have "agrees (pickleFileHash (fileHash f)) unpickleFileHash (fileHash f)"
    using assms(2) by (intro agrees_FileHash) (simp add: wf_file_def)
  then have rest: "agrees (writes ?rest) (bindG unpickleFileHash (\<lambda>_. unpickleExpr blkArg n)) tree"
    by (rule agrees_Cons) (rule agrees_single [OF agrees_Expr [OF assms(1)]])
  have two: "agrees (writes [?size, ?hash]) (bindG getU4 (\<lambda>l. bindG getBytes (\<lambda>b. returnG (l, b))))
      (of_nat (length (source f)), digest (source f))"
    by (rule agrees_wSizeU4 agrees_Bytes agrees_Cons agrees_return assms(3) refl)+
  obtain u2 where u2: "bindG getU4 (\<lambda>l. bindG getBytes (\<lambda>b. returnG (l, b))) ?u
      = Inr ((of_nat (length (source f)), digest (source f)), u2)"
    using agrees_prefix [OF two rest] by (auto simp: storeTree_def)
  then obtain u1 where "getU4 ?u = Inr (of_nat (length (source f)), u1)" "getBytes u1 = Inr (digest (source f), u2)"
    by (auto simp: bindG_def returnG_def split: sum.splits prod.splits)
  with assms(4) sz show ?thesis
    by (auto simp: loadTree_def bindG_def returnG_def)
qed

theorem stale_tree_rejected_witness:
  "\<exists>u'. loadTree (\<lambda>s. map byte_of_char s) 77 5 ((example_file ''a.rb'')\<lparr>source := ''2''\<rparr>)
     (mk_unpickler (bytes_of (storeTree (\<lambda>s. map byte_of_char s) 30 (example_file ''a.rb'') example_tree)))
     = Inr ((None, (example_file ''a.rb'')\<lparr>source := ''2''\<rparr>), u')"
proof -
  have "byte_of_char CHR ''1'' \<noteq> byte_of_char CHR ''2''"
  proof
    assume "byte_of_char CHR ''1'' = byte_of_char CHR ''2''"
    then have "char_of_byte (byte_of_char CHR ''1'') = char_of_byte (byte_of_char CHR ''2'')"
      by (rule arg_cong)
    then show False by simp
  qed
  then show ?thesis
    using stale_tree_rejected [OF wf_example_tree, of "example_file ''a.rb''" "\<lambda>s. map byte_of_char s"
      "(example_file ''a.rb'')\<lparr>source := ''2''\<rparr>" 77 5]
    by (simp add: example_file_def wf_file_def)
qed

text \<open>The reader is not a mirror of the writer on every tree: an instruction sequence without statements
  comes back as its expression alone.\<close>

lemma empty_insSeq_collapses:
  assumes "wf_tree stub n e"
  shows "\<exists>u'. unpickleExpr blkArg (Suc n) (mk_unpickler (bytes_of (pickleExpr stub (InsSeq loc [] e)))) = Inr (e, u')"
proof -
  have "agrees (pickleExpr stub (InsSeq loc [] e)) (unpickleExpr blkArg (Suc n)) e"
    unfolding pickleExpr.simps unpickleExpr.simps
    by (rule agrees_Cons [OF agrees_U4], simp add: unpickleExprTag_def)
       (rule agrees_rules agrees_LocOffsets agrees_USize agrees_Expr [OF assms]
          agrees_children [of "[]", simplified] | simp add: MK_InsSeq_def)+
  then show ?thesis
    by (rule agrees_finish(2))
qed

end
