(* ===== verification/SourceFiles.thy ===== *)
theory SourceFiles
  imports SymbolCodec
begin

text \<open>
  Source files (\<open>core/Files.cc\<close>, \<open>core/StrictLevel.h\<close>) and the path helpers they use
  (\<open>common/common.cc\<close>): the table of line ends, the strictness sigil, single lines, the flags derived
  from a path, censored paths, ignore patterns and the line reader of the language server.

  \<open>std::string_view::find\<close> and its relatives return \<open>None\<close> for \<open>npos\<close>.
\<close>

section \<open>Searching in strings\<close>

text \<open>The first position from \<open>p\<close> on whose suffix satisfies \<open>P\<close>; positions are at most the length of
  the string.\<close>

function find_from :: "(string \<Rightarrow> bool) \<Rightarrow> string \<Rightarrow> nat \<Rightarrow> nat option" where
  "find_from P s p =
     (if length s < p then None else if P (drop p s) then Some p else find_from P s (Suc p))"
  by pat_completeness auto

termination
  by (relation "measure (\<lambda>(P, s, p). Suc (length s) - p)") auto

declare find_from.simps [simp del]

definition starts_with :: "string \<Rightarrow> string \<Rightarrow> bool" where
  "starts_with pre s \<longleftrightarrow> take (length pre) s = pre"

definition ends_with :: "string \<Rightarrow> string \<Rightarrow> bool" where
  "ends_with suf s \<longleftrightarrow> length suf \<le> length s \<and> drop (length s - length suf) s = suf"

definition find_string :: "string \<Rightarrow> string \<Rightarrow> nat \<Rightarrow> nat option" where
  "find_string pat s p = find_from (starts_with pat) s p"

definition find_char :: "char \<Rightarrow> string \<Rightarrow> nat \<Rightarrow> nat option" where
  "find_char c s p = find_string [c] s p"

definition substr :: "string \<Rightarrow> nat \<Rightarrow> nat \<Rightarrow> string" where
  "substr s pos n = take n (drop pos s)"

lemma find_from_unfold:
  "length s < p \<Longrightarrow> find_from P s p = None"
  "p \<le> length s \<Longrightarrow> P (drop p s) \<Longrightarrow> find_from P s p = Some p"
  "p \<le> length s \<Longrightarrow> \<not> P (drop p s) \<Longrightarrow> find_from P s p = find_from P s (Suc p)"
  by (simp_all add: find_from.simps [of P s p])

lemma find_from_SomeD:
  "find_from P s p = Some q \<Longrightarrow>
     p \<le> q \<and> q \<le> length s \<and> P (drop q s) \<and> (\<forall>i. p \<le> i \<and> i < q \<longrightarrow> \<not> P (drop i s))"
proof (induction P s p rule: find_from.induct)
  case (1 P s p)
  consider "length s < p" | "p \<le> length s" "P (drop p s)" | "p \<le> length s" "\<not> P (drop p s)"
    by linarith
  then show ?case
  proof cases
    case 3
    with 1 have "Suc p \<le> q \<and> q \<le> length s \<and> P (drop q s)
        \<and> (\<forall>i. Suc p \<le> i \<and> i < q \<longrightarrow> \<not> P (drop i s))"
      by (simp add: find_from_unfold(3))
    moreover have "i = p \<or> Suc p \<le> i" if "p \<le> i" for i
      using that by linarith
    ultimately show ?thesis
      using 3 by (metis Suc_leD)
  qed (use 1 in \<open>auto simp: find_from_unfold\<close>)
qed

lemma find_from_NoneD: "find_from P s p = None \<Longrightarrow> p \<le> i \<Longrightarrow> i \<le> length s \<Longrightarrow> \<not> P (drop i s)"
proof (induction P s p rule: find_from.induct)
  case (1 P s p)
  then have "\<not> P (drop p s)" "p \<le> length s"
    using find_from_unfold(2) [of p s P] by auto
  with 1 have "i = p \<or> \<not> P (drop i s)"
    using find_from_unfold(3) [of p s P] by (metis le_antisym not_less not_less_eq_eq)
  with \<open>\<not> P (drop p s)\<close> show ?case by auto
qed

lemma find_from_None: "find_from P s p = None \<longleftrightarrow> (\<forall>i. p \<le> i \<and> i \<le> length s \<longrightarrow> \<not> P (drop i s))"
  by (cases "find_from P s p") (auto dest: find_from_NoneD find_from_SomeD)

lemma find_from_Some:
  "find_from P s p = Some q \<longleftrightarrow>
     p \<le> q \<and> q \<le> length s \<and> P (drop q s) \<and> (\<forall>i. p \<le> i \<and> i < q \<longrightarrow> \<not> P (drop i s))"
  (is "_ \<longleftrightarrow> ?first q")
proof
  assume q: "?first q"
  then have "find_from P s p \<noteq> None"
    by (auto simp: find_from_None)
  then obtain r where r: "find_from P s p = Some r"
    by auto
  with find_from_SomeD have "?first r" by blast
  with q r show "find_from P s p = Some q"
    by (metis linorder_neqE_nat)
qed (rule find_from_SomeD)

lemma starts_with_iff: "starts_with pre s \<longleftrightarrow> (\<exists>t. s = pre @ t)"
  unfolding starts_with_def by (metis append_eq_conv_conj append_take_drop_id)

lemma ends_with_iff: "ends_with suf s \<longleftrightarrow> (\<exists>t. s = t @ suf)"
  unfolding ends_with_def
  by (metis append_eq_conv_conj append_take_drop_id diff_add_inverse2 le_add2 length_append)

lemma starts_with_char: "starts_with [c] (drop i s) \<longleftrightarrow> i < length s \<and> s ! i = c"
  by (cases "i < length s") (auto simp: starts_with_def Cons_nth_drop_Suc [symmetric])

lemma find_char_None: "find_char c s p = None \<longleftrightarrow> (\<forall>i. p \<le> i \<and> i < length s \<longrightarrow> s ! i \<noteq> c)"
  by (auto simp: find_char_def find_string_def find_from_None starts_with_char)

lemma find_char_Some:
  "find_char c s p = Some q \<longleftrightarrow>
     p \<le> q \<and> q < length s \<and> s ! q = c \<and> (\<forall>i. p \<le> i \<and> i < q \<longrightarrow> s ! i \<noteq> c)"
  by (auto simp: find_char_def find_string_def find_from_Some starts_with_char)

section \<open>Line ends\<close>

definition newline :: char where
  "newline = CHR 0x0A"

function lineBreakLoop :: "string \<Rightarrow> nat \<Rightarrow> u32 list" where
  "lineBreakLoop s next_pos =
     (case find_char newline s next_pos of
        None \<Rightarrow> []
      | Some pos \<Rightarrow> of_nat pos # lineBreakLoop s (pos + 1))"
  by pat_completeness auto

termination
  by (relation "measure (\<lambda>(s, p). length s - p)") (auto simp: find_char_Some)

declare lineBreakLoop.simps [simp del]

definition findLineBreaks :: "string \<Rightarrow> u32 list" where
  "findLineBreaks s = lineBreakLoop s 0 @ [of_nat (length s)]"

text \<open>The reference: the positions of the newlines, then the end of the file.\<close>

definition newline_positions :: "string \<Rightarrow> nat list" where
  "newline_positions s = filter (\<lambda>i. s ! i = newline) [0..<length s]"

definition line_ends :: "string \<Rightarrow> nat list" where
  "line_ends s = map unat (findLineBreaks s)"

lemma lineBreakLoop_eq:
  "lineBreakLoop s p = map of_nat (filter (\<lambda>i. s ! i = newline) [p..<length s])"
proof (induction s p rule: lineBreakLoop.induct)
  case (1 s p)
  show ?case
  proof (cases "find_char newline s p")
    case None
    then have "\<forall>i. p \<le> i \<and> i < length s \<longrightarrow> s ! i \<noteq> newline"
      by (simp add: find_char_None)
    with None show ?thesis
      by (simp add: lineBreakLoop.simps [of s p])
  next
    case (Some q)
    then have q: "p \<le> q" "q < length s" "s ! q = newline" "\<forall>i. p \<le> i \<and> i < q \<longrightarrow> s ! i \<noteq> newline"
      by (auto simp: find_char_Some)
    then have "[p..<length s] = [p..<q] @ q # [Suc q..<length s]"
      by (metis le_add_diff_inverse less_imp_le_nat upt_add_eq_append upt_conv_Cons)
    moreover have "filter (\<lambda>i. s ! i = newline) [p..<q] = []"
      using q by (simp add: filter_empty_conv)
    ultimately show ?thesis
      using Some q 1 [of q] by (simp add: lineBreakLoop.simps [of s p])
  qed
qed

lemma findLineBreaks_eq:
  assumes "length s < 2 ^ 32"
  shows "line_ends s = newline_positions s @ [length s]"
proof -
  have "map (unat \<circ> (of_nat :: nat \<Rightarrow> u32)) (newline_positions s) = newline_positions s"
    using assms by (intro map_idI) (auto simp: newline_positions_def)
  with assms show ?thesis
    by (simp add: line_ends_def findLineBreaks_def lineBreakLoop_eq newline_positions_def)
qed

lemma newline_positions_sorted: "sorted_wrt (<) (newline_positions s)"
  by (simp add: newline_positions_def sorted_wrt_filter)

section \<open>Tables of line ends\<close>

text \<open>What the position arithmetic of \<open>core/Loc.cc\<close> needs of a table of line ends: it is strictly
  increasing and ends with the size of the text.\<close>

definition line_begin :: "nat list \<Rightarrow> nat \<Rightarrow> nat" where
  "line_begin ends k = (if k = 0 then 0 else ends ! (k - 1) + 1)"

locale line_index =
  fixes ends :: "'s \<Rightarrow> nat list" and extent :: "'s \<Rightarrow> nat" and valid :: "'s \<Rightarrow> bool"
  assumes ends_sorted: "valid s \<Longrightarrow> sorted_wrt (<) (ends s)"
    and ends_last: "valid s \<Longrightarrow> ends s \<noteq> [] \<and> last (ends s) = extent s"
begin

lemma ends_less:
  assumes "valid s" "i < j" "j < length (ends s)"
  shows "ends s ! i < ends s ! j"
  using assms ends_sorted sorted_wrt_nth_less by blast

lemma ends_le_extent:
  assumes "valid s" "k < length (ends s)"
  shows "ends s ! k \<le> extent s"
proof -
  have l: "extent s = ends s ! (length (ends s) - 1)"
    using ends_last [OF assms(1)] last_conv_nth by metis
  show ?thesis
  proof (cases "k = length (ends s) - 1")
    case False
    with assms have "ends s ! k < ends s ! (length (ends s) - 1)"
      by (intro ends_less) auto
    with l show ?thesis by simp
  qed (simp add: l)
qed

lemma line_begin_le:
  assumes "valid s" "k < length (ends s)"
  shows "line_begin (ends s) k \<le> ends s ! k"
  using ends_less [OF assms(1), of "k - 1" k] assms(2) by (simp add: line_begin_def Suc_le_eq)

text \<open>The number of line ends before an offset is the only line the offset can be on.\<close>

lemma line_of_offset:
  assumes "valid s" "off \<le> extent s"
  defines "k \<equiv> length (takeWhile (\<lambda>b. b < off) (ends s))"
  shows "k < length (ends s) \<and> line_begin (ends s) k \<le> off \<and> off \<le> ends s ! k"
proof -
  have k: "k < length (ends s)"
  proof (rule ccontr)
    assume "\<not> k < length (ends s)"
    then have "takeWhile (\<lambda>b. b < off) (ends s) = ends s"
      using length_takeWhile_le [of "\<lambda>b. b < off" "ends s"] unfolding k_def
      by (metis le_antisym not_less takeWhile_eq_take take_all)
    then have "\<forall>b\<in>set (ends s). b < off"
      by (simp only: takeWhile_eq_all_conv)
    with ends_last [OF assms(1)] assms(2) show False by (metis last_in_set not_less)
  qed
  then have "\<not> ends s ! k < off"
    unfolding k_def by (rule nth_length_takeWhile)
  moreover have "ends s ! (k - 1) < off" if "k \<noteq> 0"
    using that set_takeWhileD [of _ "\<lambda>b. b < off" "ends s"] unfolding k_def
    by (metis One_nat_def diff_less length_greater_0_conv length_0_conv nth_mem takeWhile_nth zero_less_one)
  ultimately show ?thesis
    using k by (auto simp: line_begin_def Suc_le_eq)
qed

lemma line_unique:
  assumes "valid s" "k < length (ends s)" "line_begin (ends s) k \<le> off" "off \<le> ends s ! k"
  shows "length (takeWhile (\<lambda>b. b < off) (ends s)) = k"
proof -
  let ?j = "length (takeWhile (\<lambda>b. b < off) (ends s))"
  have "off \<le> extent s"
    using assms ends_le_extent le_trans by blast
  from line_of_offset [OF assms(1) this]
  have j: "?j < length (ends s)" "line_begin (ends s) ?j \<le> off" "off \<le> ends s ! ?j"
    by auto
  have later: "off < line_begin (ends s) b" if "a < b" "b < length (ends s)" "off \<le> ends s ! a" for a b
  proof -
    have "ends s ! a \<le> ends s ! (b - 1)"
      using that ends_less [OF assms(1), of a "b - 1"]
      by (cases "a = b - 1") (simp_all add: less_imp_le)
    with that show ?thesis by (simp add: line_begin_def)
  qed
  show ?thesis
    using later [of ?j k] later [of k ?j] j assms by (metis linorder_neqE_nat not_less)
qed

end

lemma fits_ends:
  assumes "length s < 2 ^ 32 - 1"
  shows "sorted_wrt (<) (line_ends s)" "line_ends s \<noteq> [] \<and> last (line_ends s) = length s"
  using assms newline_positions_sorted [of s]
  by (auto simp: findLineBreaks_eq sorted_wrt_append newline_positions_def)

interpretation fileLines: line_index line_ends length "\<lambda>s. length s < 2 ^ 32 - 1"
  by unfold_locales (fact fits_ends)+

section \<open>Single lines\<close>

text \<open>\<open>File::getLine\<close> takes a 1-based line number; outside the table its \<open>ENFORCE\<close>s fail.\<close>

definition getLine :: "src_file \<Rightarrow> nat \<Rightarrow> string option" where
  "getLine f i = (let lineBreaks = findLineBreaks (source f) in
     if i \<le> length lineBreaks \<and> i > 0 then
       (let start = (if i = 1 then 0 else lineBreaks ! (i - 2) + 1);
            endPos = lineBreaks ! (i - 1)
        in Some (substr (source f) (unat start) (unat (endPos - start))))
     else None)"

definition lineCount :: "src_file \<Rightarrow> nat" where
  "lineCount f = length (findLineBreaks (source f))"

fun joinLines :: "string list \<Rightarrow> string" where
  "joinLines [] = []"
| "joinLines [l] = l"
| "joinLines (l # m # ls) = l @ newline # joinLines (m # ls)"

lemma joinLines_snoc: "ls \<noteq> [] \<Longrightarrow> joinLines (ls @ [l]) = joinLines ls @ newline # l"
  by (induction ls rule: joinLines.induct) auto

definition line_text :: "string \<Rightarrow> nat \<Rightarrow> string" where
  "line_text s k = substr s (line_begin (line_ends s) k) (line_ends s ! k - line_begin (line_ends s) k)"

lemma line_ends_nth: "k < length (findLineBreaks s) \<Longrightarrow> line_ends s ! k = unat (findLineBreaks s ! k)"
  by (simp add: line_ends_def)

lemma length_line_ends [simp]: "length (line_ends s) = length (findLineBreaks s)"
  by (simp add: line_ends_def)

lemma unat_line_begin:
  assumes "length s < 2 ^ 32 - 1" "k < length (findLineBreaks s)"
  shows "unat (if k = 0 then 0 else findLineBreaks s ! (k - 1) + 1 :: u32) = line_begin (line_ends s) k"
proof (cases "k = 0")
  case False
  have "k - 1 < length (findLineBreaks s)"
    using assms(2) by linarith
  then have "unat (findLineBreaks s ! (k - 1)) < 2 ^ 32 - 1"
    using fileLines.ends_le_extent [OF assms(1), of "k - 1"] assms(1)
    by (simp add: line_ends_nth)
  then have "unat (findLineBreaks s ! (k - 1) + 1) = unat (findLineBreaks s ! (k - 1)) + 1"
    by (simp add: unat_word_ariths)
  with False assms(2) show ?thesis
    by (simp add: line_begin_def line_ends_nth)
qed (simp add: line_begin_def)

lemma getLine_text:
  assumes "length (source f) < 2 ^ 32 - 1" "k < lineCount f"
  shows "getLine f (Suc k) = Some (line_text (source f) k)"
proof -
  let ?lb = "findLineBreaks (source f)"
  let ?st = "if k = 0 then 0 else ?lb ! (k - 1) + 1 :: u32"
  have k: "k < length ?lb"
    using assms by (simp add: lineCount_def)
  have st: "unat ?st = line_begin (line_ends (source f)) k"
    using unat_line_begin [OF assms(1) k] .
  have "unat ?st \<le> unat (?lb ! k)"
    unfolding st using fileLines.line_begin_le [OF assms(1), of k] k by (simp add: line_ends_nth)
  then have "unat (?lb ! k - ?st) = unat (?lb ! k) - unat ?st"
    by (simp add: unat_sub word_le_nat_alt)
  moreover have "(if Suc k = 1 then 0 else ?lb ! (Suc k - 2) + 1) = ?st"
    by (simp add: numeral_2_eq_2)
  ultimately show ?thesis
    using k st unfolding getLine_def line_text_def Let_def
    by (simp add: line_ends_nth)
qed

lemma newline_at_end:
  assumes "length s < 2 ^ 32 - 1" "Suc k < length (line_ends s)"
  shows "line_ends s ! k < length s \<and> s ! (line_ends s ! k) = newline"
proof -
  have e: "line_ends s = newline_positions s @ [length s]"
    using assms by (intro findLineBreaks_eq) simp
  with assms have "k < length (newline_positions s)"
    by simp
  then have "newline_positions s ! k \<in> set (newline_positions s)"
    by simp
  with e \<open>k < length (newline_positions s)\<close> show ?thesis
    by (auto simp: nth_append newline_positions_def)
qed

lemma joinLines_take:
  assumes "length s < 2 ^ 32 - 1" "k < length (line_ends s)"
  shows "joinLines (map (line_text s) [0..<Suc k]) = take (line_ends s ! k) s"
  using assms(2)
proof (induction k)
  case 0
  then show ?case by (simp add: line_text_def line_begin_def substr_def)
next
  case (Suc k)
  let ?b = "line_ends s ! k" and ?e = "line_ends s ! Suc k"
  have nl: "?b < length s" "s ! ?b = newline"
    using newline_at_end [OF assms(1) Suc.prems] by auto
  have lt: "?b < ?e"
    using fileLines.ends_less [OF assms(1), of k "Suc k"] Suc.prems by simp
  have "take ?e s = take (?b + 1 + (?e - (?b + 1))) s"
    using lt by simp
  also have "\<dots> = take (?b + 1) s @ substr s (?b + 1) (?e - (?b + 1))"
    unfolding substr_def by (rule take_add)
  also have "\<dots> = take ?b s @ newline # line_text s (Suc k)"
    using nl by (simp add: take_Suc_conv_app_nth line_text_def line_begin_def)
  finally have "take ?e s = take ?b s @ newline # line_text s (Suc k)" .
  moreover have "joinLines (map (line_text s) [0..<Suc (Suc k)])
      = joinLines (map (line_text s) [0..<Suc k]) @ newline # line_text s (Suc k)"
    using joinLines_snoc [of "map (line_text s) [0..<Suc k]" "line_text s (Suc k)"] by simp
  moreover have "joinLines (map (line_text s) [0..<Suc k]) = take ?b s"
    using Suc by (simp del: upt_Suc)
  ultimately show ?case
    by (simp only:)
qed

text \<open>C36: splitting a file into lines loses nothing: the lines \<open>getLine\<close> returns for 1 up to
  \<open>lineCount\<close>, joined with newlines, are the source.\<close>

theorem lines_join_to_source:
  assumes "length (source f) < 2 ^ 32 - 1"
  shows "\<exists>ls. map (getLine f) [1..<Suc (lineCount f)] = map Some ls \<and> joinLines ls = source f"
proof -
  let ?s = "source f"
  have ne: "line_ends ?s \<noteq> []" "last (line_ends ?s) = length ?s"
    using fileLines.ends_last [OF assms] by auto
  have l: "length (line_ends ?s) = lineCount f"
    by (simp add: lineCount_def)
  have pos: "0 < lineCount f"
    using ne l by (metis length_greater_0_conv)
  have "map (getLine f) [1..<Suc (lineCount f)] = map (\<lambda>k. getLine f (Suc k)) [0..<lineCount f]"
    by (simp add: map_Suc_upt [symmetric] del: upt_Suc)
  also have "\<dots> = map Some (map (line_text ?s) [0..<lineCount f])"
    using getLine_text [OF assms] by simp
  finally have "map (getLine f) [1..<Suc (lineCount f)] = map Some (map (line_text ?s) [0..<lineCount f])" .
  moreover have "joinLines (map (line_text ?s) [0..<lineCount f]) = ?s"
    using joinLines_take [OF assms, of "lineCount f - 1"] pos l ne
    by (simp add: last_conv_nth del: upt_Suc)
  ultimately show ?thesis by blast
qed

theorem lines_join_to_source_witness:
  "\<exists>ls. map (getLine \<lparr>sourceType = File_Normal, path = ''a.rb'', source = [CHR ''a'', newline],
           fileHash = None\<rparr>) [1..<Suc (lineCount \<lparr>sourceType = File_Normal, path = ''a.rb'',
           source = [CHR ''a'', newline], fileHash = None\<rparr>)] = map Some ls
        \<and> joinLines ls = [CHR ''a'', newline]"
  using lines_join_to_source [of "\<lparr>sourceType = File_Normal, path = ''a.rb'',
    source = [CHR ''a'', newline], fileHash = None\<rparr>"] by simp

section \<open>The strictness sigil\<close>

datatype strict_level =
    SL_Internal | SL_None | SL_Ignore | SL_False | SL_True | SL_Strict | SL_Strong | SL_Max
  | SL_Autogenerated | SL_Stdlib

text \<open>The levels are ordered by their numbers.\<close>

fun level_no :: "strict_level \<Rightarrow> nat" where
  "level_no SL_Internal = 0"
| "level_no SL_None = 1"
| "level_no SL_Ignore = 2"
| "level_no SL_False = 3"
| "level_no SL_True = 4"
| "level_no SL_Strict = 5"
| "level_no SL_Strong = 6"
| "level_no SL_Max = 7"
| "level_no SL_Autogenerated = 10"
| "level_no SL_Stdlib = 11"

lemma level_no_inject: "level_no a = level_no b \<Longrightarrow> a = b"
  by (cases a; cases b) simp_all

instantiation strict_level :: linorder
begin

definition less_eq_strict_level :: "strict_level \<Rightarrow> strict_level \<Rightarrow> bool" where
  "less_eq_strict_level a b \<longleftrightarrow> level_no a \<le> level_no b"

definition less_strict_level :: "strict_level \<Rightarrow> strict_level \<Rightarrow> bool" where
  "less_strict_level a b \<longleftrightarrow> level_no a < level_no b"

instance
  by standard (auto simp: less_eq_strict_level_def less_strict_level_def level_no_inject)

end

definition fromString :: "string \<Rightarrow> strict_level" where
  "fromString s =
     (if s = ''ignore'' then SL_Ignore
      else if s = ''false'' then SL_False
      else if s = ''true'' then SL_True
      else if s = ''strict'' then SL_Strict
      else if s = ''strong'' then SL_Strong
      else if s = ''autogenerated'' then SL_Autogenerated
      else if s = ''__STDLIB_INTERNAL'' then SL_Stdlib
      else SL_None)"

fun toString :: "strict_level \<Rightarrow> string" where
  "toString SL_Internal = ''internal''"
| "toString SL_None = ''none''"
| "toString SL_Ignore = ''ignore''"
| "toString SL_False = ''false''"
| "toString SL_True = ''true''"
| "toString SL_Strict = ''strict''"
| "toString SL_Strong = ''strong''"
| "toString SL_Max = ''max''"
| "toString SL_Autogenerated = ''autogenerated''"
| "toString SL_Stdlib = ''__STDLIB_INTERNAL''"

definition SIGIL_PREFIX :: string where
  "SIGIL_PREFIX = ''typed:''"

lemma length_SIGIL_PREFIX: "length SIGIL_PREFIX = 6"
  by (simp add: SIGIL_PREFIX_def)

text \<open>The position the inner loop over blanks before the prefix stops at.\<close>

primrec comment_start :: "string \<Rightarrow> nat \<Rightarrow> nat" where
  "comment_start s 0 = 0"
| "comment_start s (Suc n) = (if s ! n = CHR '' '' then comment_start s n else n)"

text \<open>\<open>while (i < size && P(source[i])) ++i\<close>.\<close>

definition skip_while :: "(char \<Rightarrow> bool) \<Rightarrow> string \<Rightarrow> nat \<Rightarrow> nat" where
  "skip_while P s i = i + length (takeWhile P (drop i s))"

definition sigil_end :: "string \<Rightarrow> nat \<Rightarrow> nat" where
  "sigil_end s start =
     (let e = skip_while (\<lambda>c. c \<noteq> CHR '' '' \<and> c \<noteq> newline) s (start + 1)
      in if s ! (e - 1) = CHR 0x0D then e - 1 else e)"

lemma skip_while_ge: "i \<le> skip_while P s i"
  by (simp add: skip_while_def)

lemma sigil_end_ge: "start \<le> sigil_end s start"
proof -
  have "Suc start \<le> skip_while (\<lambda>c. c \<noteq> CHR '' '' \<and> c \<noteq> newline) s (start + 1)"
    using skip_while_ge [of "start + 1"] by simp
  then show ?thesis
    unfolding sigil_end_def Let_def by (simp split: if_split, linarith)
qed

function parseSigil :: "string \<Rightarrow> nat \<Rightarrow> strict_level" where
  "parseSigil s start =
     (case find_string SIGIL_PREFIX s start of
        None \<Rightarrow> SL_None
      | Some found \<Rightarrow>
          if s ! comment_start s found \<noteq> CHR ''#'' then parseSigil s (found + 1)
          else (let first = skip_while (\<lambda>c. c = CHR '' '') s (found + length SIGIL_PREFIX) in
            if length s \<le> first then SL_None
            else (let stop = sigil_end s first;
                      level = fromString (substr s first (stop - first))
                  in if level \<noteq> SL_None then level else parseSigil s stop)))"
  by pat_completeness auto

termination
proof (relation "measure (\<lambda>(s, p). Suc (length s) - p)", goal_cases)
  case (2 s start found)
  then show ?case by (auto simp: find_string_def find_from_Some)
next
  case (3 s start found first stop level)
  then have f: "start \<le> found" "found \<le> length s"
    by (auto simp: find_string_def find_from_Some)
  have "found + 6 \<le> first"
    using 3(3) skip_while_ge [of "found + length SIGIL_PREFIX"] by (simp only: length_SIGIL_PREFIX)
  with 3(5) have "found + 6 \<le> stop"
    using sigil_end_ge [of first s] by simp
  with f show ?case by simp
qed simp

declare parseSigil.simps [simp del]

definition fileStrictSigil :: "string \<Rightarrow> strict_level" where
  "fileStrictSigil src = parseSigil src 0"

text \<open>The levels a user can write.\<close>

definition user_levels :: "strict_level set" where
  "user_levels = {SL_Ignore, SL_False, SL_True, SL_Strict, SL_Strong, SL_Autogenerated, SL_Stdlib}"

lemma fromString_toString: "l \<in> user_levels \<Longrightarrow> fromString (toString l) = l"
  by (auto simp: user_levels_def fromString_def)

lemma fromString_cases:
  "fromString s = SL_None \<or> s \<in> toString ` user_levels"
  unfolding fromString_def user_levels_def by (simp split: if_split)

lemma toString_fromString: "fromString s \<noteq> SL_None \<Longrightarrow> toString (fromString s) = s"
  using fromString_cases [of s] fromString_toString by auto

lemma fromString_user: "fromString s \<noteq> SL_None \<Longrightarrow> fromString s \<in> user_levels"
  using fromString_cases [of s] fromString_toString by auto

definition sigil_comment :: "nat \<Rightarrow> nat \<Rightarrow> strict_level \<Rightarrow> string" where
  "sigil_comment k j l = CHR ''#'' # replicate k (CHR '' '') @ SIGIL_PREFIX @ replicate j (CHR '' '') @ toString l"

lemma comment_start_back:
  assumes "i \<le> n" "\<forall>m. i \<le> m \<and> m < n \<longrightarrow> s ! m = CHR '' ''" "i > 0" "s ! (i - 1) \<noteq> CHR '' ''"
  shows "comment_start s n = i - 1"
  using assms
proof (induction n)
  case (Suc n)
  then show ?case
    by (cases "i = Suc n") (simp_all add: le_Suc_eq)
qed simp

lemma comment_start_spec:
  "0 < n \<Longrightarrow> s ! comment_start s n \<noteq> CHR '' '' \<Longrightarrow>
     comment_start s n < n \<and> (\<forall>m. comment_start s n < m \<and> m < n \<longrightarrow> s ! m = CHR '' '')"
proof (induction n)
  case (Suc n)
  show ?case
  proof (cases "s ! n = CHR '' ''")
    case True
    with Suc.prems have "0 < n" by (cases n) auto
    moreover have "s ! comment_start s n \<noteq> CHR '' ''"
      using Suc.prems(2) True by simp
    ultimately have IH: "comment_start s n < n \<and> (\<forall>m. comment_start s n < m \<and> m < n \<longrightarrow> s ! m = CHR '' '')"
      by (rule Suc.IH)
    have "s ! m = CHR '' ''" if "comment_start s n < m" "m < Suc n" for m
      using that IH True by (cases "m = n") auto
    with IH True show ?thesis
      by (auto simp only: comment_start.simps if_True)
  qed auto
qed simp

lemma toString_chars:
  "l \<in> user_levels \<Longrightarrow> toString l \<noteq> [] \<and> (\<forall>c\<in>set (toString l). c \<noteq> CHR '' '' \<and> c \<noteq> newline \<and> c \<noteq> CHR 0x0D)"
  by (auto simp: user_levels_def newline_def)

lemma skip_while_app:
  assumes "\<forall>c\<in>set xs. P c" "ys = [] \<or> \<not> P (hd ys)" "drop i s = xs @ ys"
  shows "skip_while P s i = i + length xs"
proof -
  have "takeWhile P ys = []"
    using assms(2) by (cases ys) auto
  with assms show ?thesis
    by (simp add: skip_while_def takeWhile_append2)
qed

lemma sigil_end_at:
  assumes "drop i s = w @ rest" "w \<noteq> []" "\<forall>c\<in>set w. c \<noteq> CHR '' '' \<and> c \<noteq> newline \<and> c \<noteq> CHR 0x0D"
    and "rest = [] \<or> hd rest = CHR '' '' \<or> hd rest = newline"
  shows "sigil_end s i = i + length w"
proof -
  let ?P = "\<lambda>c. c \<noteq> CHR '' '' \<and> c \<noteq> newline"
  obtain a v where w: "w = a # v"
    using assms(2) by (cases w) auto
  then have "drop (i + 1) s = v @ rest"
    using assms(1) by (metis add.commute append_Cons drop_drop drop_Suc_Cons drop0 Suc_eq_plus1_left)
  then have e: "skip_while ?P s (i + 1) = i + length w"
    using assms(3,4) w by (subst skip_while_app [where xs = v and ys = rest]) auto
  have "s ! (i + length w - 1) = drop i s ! (length w - 1)"
    using assms(1) w
    by (subst nth_drop) (simp_all, metis drop_eq_Nil list.discI nle_le)
  also have "\<dots> = last w"
    using assms(1,2) by (simp add: nth_append last_conv_nth)
  finally have "s ! (i + length w - 1) \<noteq> CHR 0x0D"
    using assms(2,3) last_in_set by metis
  then show ?thesis
    by (simp only: sigil_end_def Let_def e if_False)
qed

lemma parseSigil_hit:
  assumes "find_string SIGIL_PREFIX s p = Some found" "s ! comment_start s found = CHR ''#''"
    and "skip_while (\<lambda>c. c = CHR '' '') s (found + length SIGIL_PREFIX) = b" "b < length s"
    and "sigil_end s b = e" "fromString (substr s b (e - b)) = l" "l \<noteq> SL_None"
  shows "parseSigil s p = l"
  using assms by (subst parseSigil.simps) (simp add: Let_def)

text \<open>When the first occurrence of \<open>typed:\<close> in a file stands in a comment made of a hash sign,
  blanks, the prefix, blanks and a level that ends at a blank, a newline or the end of the file,
  then the strictness of the file is that level.\<close>

lemma sigil_is_read:
  assumes src: "src = pre @ sigil_comment k j l @ rest"
    and "l \<in> user_levels"
    and "rest = [] \<or> hd rest = CHR '' '' \<or> hd rest = newline"
    and first: "find_string SIGIL_PREFIX src 0 = Some (length pre + 1 + k)"
  shows "fileStrictSigil src = l"
proof -
  let ?found = "length pre + 1 + k"
  let ?start = "?found + length SIGIL_PREFIX + j"
  have w: "toString l \<noteq> []" "\<forall>c\<in>set (toString l). c \<noteq> CHR '' '' \<and> c \<noteq> newline \<and> c \<noteq> CHR 0x0D"
    using toString_chars [OF assms(2)] by auto
  have "comment_start src ?found = length pre + 1 - 1"
    using src by (intro comment_start_back) (auto simp: sigil_comment_def nth_append)
  then have c: "src ! comment_start src ?found = CHR ''#''"
    using src by (simp add: sigil_comment_def nth_append)
  have "drop (?found + length SIGIL_PREFIX) src = replicate j (CHR '' '') @ toString l @ rest"
    using src by (simp add: sigil_comment_def)
  then have b: "skip_while (\<lambda>c. c = CHR '' '') src (?found + length SIGIL_PREFIX) = ?start"
    using w by (subst skip_while_app [where xs = "replicate j (CHR '' '')" and ys = "toString l @ rest"]) auto
  have d: "drop ?start src = toString l @ rest"
    using src by (simp add: sigil_comment_def)
  have e: "sigil_end src ?start = ?start + length (toString l)"
    using sigil_end_at [OF d w assms(3)] .
  have "?start < length src"
    using d w(1) by (metis append_is_Nil_conv drop_eq_Nil not_less)
  moreover have "substr src ?start (?start + length (toString l) - ?start) = toString l"
    by (simp only: substr_def d) simp
  moreover have "fromString (toString l) = l" "l \<noteq> SL_None"
    using assms(2) fromString_toString by (auto simp: user_levels_def)
  ultimately show ?thesis
    unfolding fileStrictSigil_def by (intro parseSigil_hit [OF first c b _ e]) simp_all
qed

end
