(* ===== verification/FilePaths.thy ===== *)
theory FilePaths
  imports SourceFiles
begin

text \<open>
  Paths and the file objects built from them: the path helpers and ignore patterns of \<open>FileOps\<close>
  (\<open>common/common.cc\<close>), the reader of single lines from a descriptor, and the constructor, flags and
  predicates of \<open>File\<close> (\<open>core/Files.cc\<close>).
\<close>

section \<open>Path components\<close>

text \<open>\<open>find_last_of\<close> and \<open>rfind\<close> of single characters: the last position that satisfies \<open>P\<close>.\<close>

definition find_last :: "(char \<Rightarrow> bool) \<Rightarrow> string \<Rightarrow> nat option" where
  "find_last P s = (let n = length (takeWhile (\<lambda>c. \<not> P c) (rev s)) in
     if n = length s then None else Some (length s - 1 - n))"

definition getFileName :: "string \<Rightarrow> string" where
  "getFileName p = (case find_last (\<lambda>c. c = CHR ''/'' \<or> c = CHR 0x5C) p of
     None \<Rightarrow> p
   | Some found \<Rightarrow> drop (found + 1) p)"

definition getExtension :: "string \<Rightarrow> string" where
  "getExtension p = (case find_last (\<lambda>c. c = CHR ''.'') p of
     None \<Rightarrow> []
   | Some found \<Rightarrow> drop (found + 1) p)"

definition hasAllowedExtension :: "string \<Rightarrow> string list \<Rightarrow> bool" where
  "hasAllowedExtension p extensions = (case find_last (\<lambda>c. c = CHR ''.'') p of
     None \<Rightarrow> False
   | Some dotLocation \<Rightarrow> drop dotLocation p \<in> set extensions)"

definition isRBIPath :: "string \<Rightarrow> bool" where
  "isRBIPath p = ends_with ''.rbi'' p"

definition isPackageRBIPath :: "string \<Rightarrow> bool" where
  "isPackageRBIPath p = ends_with ''.package.rbi'' p"

definition isPackagePath :: "string \<Rightarrow> bool" where
  "isPackagePath p =
     ((case find_last (\<lambda>c. c = CHR ''/'') p of
         None \<Rightarrow> p
       | Some pos \<Rightarrow> drop (pos + 1) p) = ''__package.rb'')"

lemma find_last_None: "find_last P s = None \<longleftrightarrow> (\<forall>c\<in>set s. \<not> P c)"
proof -
  have "length (takeWhile (\<lambda>c. \<not> P c) (rev s)) = length s \<longleftrightarrow> takeWhile (\<lambda>c. \<not> P c) (rev s) = rev s"
    by (metis length_rev takeWhile_eq_take take_all_iff order_refl)
  then show ?thesis
    by (simp add: find_last_def Let_def takeWhile_eq_all_conv)
qed

lemma find_last_Some:
  assumes "find_last P s = Some i"
  shows "i < length s \<and> P (s ! i) \<and> (\<forall>c\<in>set (drop (Suc i) s). \<not> P c)"
proof -
  let ?t = "takeWhile (\<lambda>c. \<not> P c) (rev s)"
  have n: "length ?t < length s" "i = length s - 1 - length ?t"
    using assms length_takeWhile_le [of "\<lambda>c. \<not> P c" "rev s"]
    by (auto simp: find_last_def Let_def split: if_splits)
  have "P (rev s ! length ?t)"
    using nth_length_takeWhile [of "\<lambda>c. \<not> P c" "rev s"] n by simp
  then have "P (s ! i)"
    using n by (simp add: rev_nth)
  moreover have "drop (Suc i) s = rev ?t"
  proof -
    have "rev ?t = rev (take (length ?t) (rev s))"
      by (metis takeWhile_eq_take)
    also have "\<dots> = drop (length s - length ?t) s"
      by (simp add: take_rev)
    also have "length s - length ?t = Suc i"
      using n by linarith
    finally show ?thesis by simp
  qed
  ultimately show ?thesis
    using n set_takeWhileD [of _ "\<lambda>c. \<not> P c" "rev s"] by auto
qed

lemma basename_eq:
  assumes "\<forall>c\<in>set b. \<not> P c"
  shows "(case find_last P s of None \<Rightarrow> s | Some i \<Rightarrow> drop (i + 1) s) = b \<longleftrightarrow>
     s = b \<or> (\<exists>d c. P c \<and> s = d @ c # b)"
proof (cases "find_last P s")
  case None
  then have "\<forall>c\<in>set s. \<not> P c" by (simp add: find_last_None)
  with None show ?thesis by auto
next
  case (Some i)
  then have i: "i < length s" "P (s ! i)" "\<forall>c\<in>set (drop (Suc i) s). \<not> P c"
    using find_last_Some by blast+
  then have s: "s = take i s @ s ! i # drop (Suc i) s"
    by (simp add: id_take_nth_drop)
  have "drop (Suc i) s = b" if e: "s = d @ c # b" "P c" for d c
  proof (cases "i = length d")
    case False
    moreover have "\<not> length d < i"
    proof
      assume "length d < i"
      then have "s ! i \<in> set b"
        using e i(1) by (auto simp: nth_append nth_Cons')
      with assms i(2) show False by blast
    qed
    moreover have "\<not> i < length d"
    proof
      assume "i < length d"
      then have "c \<in> set (drop (Suc i) s)"
        using e(1) by (simp add: Suc_leI)
      with i(3) e(2) show False by blast
    qed
    ultimately show ?thesis by simp
  qed (use e in simp)
  moreover have "s \<noteq> b"
    using assms i by (auto dest: nth_mem)
  ultimately show ?thesis
    using Some s i(2) by auto
qed

text \<open>A path names a package file exactly when its last component is \<open>__package.rb\<close>; a file
  whose name merely ends with these characters is none.\<close>

lemma isPackagePath_iff:
  "isPackagePath p \<longleftrightarrow> p = ''__package.rb'' \<or> (\<exists>dir. p = dir @ ''/__package.rb'')"
  unfolding isPackagePath_def by (subst basename_eq) auto

section \<open>Ignore patterns\<close>

definition isFile :: "string \<Rightarrow> string \<Rightarrow> nat \<Rightarrow> bool" where
  "isFile p ignorePattern pos \<longleftrightarrow> pos + length ignorePattern = length p"

text \<open>\<open>at\<close> raises \<open>out_of_range\<close>, here \<open>None\<close>.\<close>

definition isFolder :: "string \<Rightarrow> string \<Rightarrow> nat \<Rightarrow> bool option" where
  "isFolder p ignorePattern pos = (let endPos = pos + length ignorePattern in
     if endPos < length p then Some (p ! endPos = CHR ''/'') else None)"

definition isFileOrFolder :: "string \<Rightarrow> string \<Rightarrow> nat \<Rightarrow> bool option" where
  "isFileOrFolder p ignorePattern pos =
     (if isFile p ignorePattern pos then Some True else isFolder p ignorePattern pos)"

text \<open>The loop over the occurrences of a relative pattern does not end for every argument; a loop
  that goes on for ever is \<open>None\<close>, as is a raised \<open>out_of_range\<close>.\<close>

partial_function (option) relativeIgnored :: "string \<Rightarrow> string \<Rightarrow> nat \<Rightarrow> bool option" where
  "relativeIgnored p pat pos =
     (case find_string pat p pos of
        None \<Rightarrow> Some False
      | Some q \<Rightarrow> Option.bind (isFileOrFolder p pat q)
          (\<lambda>b. if b then Some True else relativeIgnored p pat (q + length pat)))"

primrec absoluteIgnored :: "string \<Rightarrow> string list \<Rightarrow> bool option" where
  "absoluteIgnored rel [] = Some False"
| "absoluteIgnored rel (pat # pats) =
     (if starts_with pat rel then
        Option.bind (isFileOrFolder rel pat 0) (\<lambda>b. if b then Some True else absoluteIgnored rel pats)
      else absoluteIgnored rel pats)"

primrec relativesIgnored :: "string \<Rightarrow> string list \<Rightarrow> bool option" where
  "relativesIgnored rel [] = Some False"
| "relativesIgnored rel (pat # pats) =
     Option.bind (relativeIgnored rel pat 0) (\<lambda>b. if b then Some True else relativesIgnored rel pats)"

text \<open>\<open>substr\<close> raises when the base path is longer than the path.\<close>

definition isFileIgnored :: "string \<Rightarrow> string \<Rightarrow> string list \<Rightarrow> string list \<Rightarrow> bool option" where
  "isFileIgnored basePath filePath absoluteIgnorePatterns relativeIgnorePatterns =
     (if length filePath < length basePath then None
      else let relative_path = drop (length basePath) filePath in
      Option.bind (absoluteIgnored relative_path absoluteIgnorePatterns)
        (\<lambda>b. if b then Some True else relativesIgnored relative_path relativeIgnorePatterns))"

text \<open>What the patterns mean: an occurrence of the pattern at \<open>q\<close> that ends at the end of the path or
  before a slash.\<close>

definition matches_at :: "string \<Rightarrow> string \<Rightarrow> nat \<Rightarrow> bool" where
  "matches_at pat p q \<longleftrightarrow> q \<le> length p \<and> starts_with pat (drop q p)
     \<and> (q + length pat = length p \<or> (q + length pat < length p \<and> p ! (q + length pat) = CHR ''/''))"

lemma starts_with_length: "starts_with pat (drop q p) \<Longrightarrow> q \<le> length p \<Longrightarrow> q + length pat \<le> length p"
  by (metis append_eq_conv_conj append_take_drop_id le_add1 length_append length_drop
      nat_add_left_cancel_le ordered_cancel_comm_monoid_diff_class.le_diff_conv2 starts_with_iff add.commute)

lemma isFileOrFolder_total:
  assumes "starts_with pat (drop q p)" "q \<le> length p"
  shows "isFileOrFolder p pat q = Some (matches_at pat p q)"
  using assms starts_with_length [OF assms]
  by (auto simp: isFileOrFolder_def isFile_def isFolder_def Let_def matches_at_def)

lemma relativeIgnored_total:
  assumes "pat \<noteq> []"
  shows "\<exists>b. relativeIgnored p pat pos = Some b \<and> (b \<longrightarrow> (\<exists>q\<ge>pos. matches_at pat p q))"
proof (induction "Suc (length p) - pos" arbitrary: pos rule: less_induct)
  case less
  show ?case
  proof (cases "find_string pat p pos")
    case None
    then show ?thesis by (subst relativeIgnored.simps) auto
  next
    case (Some q)
    then have q: "pos \<le> q" "q \<le> length p" "starts_with pat (drop q p)"
      by (auto simp: find_string_def find_from_Some)
    show ?thesis
    proof (cases "matches_at pat p q")
      case True
      with Some q show ?thesis
        by (subst relativeIgnored.simps) (auto simp: isFileOrFolder_total)
    next
      case False
      have "Suc (length p) - (q + length pat) < Suc (length p) - pos"
        using q assms by (cases pat) auto
      then obtain b where "relativeIgnored p pat (q + length pat) = Some b"
        "b \<longrightarrow> (\<exists>r\<ge>q + length pat. matches_at pat p r)"
        using less by blast
      moreover have "relativeIgnored p pat pos = relativeIgnored p pat (q + length pat)"
        using Some q False by (subst relativeIgnored.simps) (simp add: isFileOrFolder_total)
      ultimately show ?thesis
        using q(1) by (metis add_leE order_trans)
    qed
  qed
qed

text \<open>A pattern with a single component, \<open>/name\<close>, does not overlap itself, so skipping whole
  occurrences misses nothing.\<close>

lemma single_component_no_overlap:
  assumes "CHR ''/'' \<notin> set w" "starts_with (CHR ''/'' # w) (drop q p)"
    and "starts_with (CHR ''/'' # w) (drop r p)" "q < r"
  shows "q + length (CHR ''/'' # w) \<le> r"
proof (rule ccontr)
  assume "\<not> ?thesis"
  then obtain d where d: "r = q + Suc d" "d < length w"
    using assms(4) by (metis add_Suc_right length_Cons less_iff_Suc_add nat_add_left_cancel_less not_less Suc_less_eq)
  obtain t where t: "drop q p = CHR ''/'' # w @ t"
    using assms(2) by (auto simp: starts_with_iff)
  have "drop r p = drop (Suc d) (drop q p)"
    using d by (simp add: add.commute)
  also have "\<dots> = w ! d # drop (Suc d) w @ t"
    using t d by (simp add: Cons_nth_drop_Suc)
  finally have "w ! d = CHR ''/''"
    using assms(3) by (auto simp: starts_with_iff)
  with d assms(1) show False by (metis nth_mem)
qed

lemma relativeIgnored_complete:
  assumes "CHR ''/'' \<notin> set w" "matches_at (CHR ''/'' # w) p r" "pos \<le> r"
  shows "relativeIgnored p (CHR ''/'' # w) pos = Some True"
  using assms(3)
proof (induction "Suc (length p) - pos" arbitrary: pos rule: less_induct)
  case less
  let ?pat = "CHR ''/'' # w"
  have r: "r \<le> length p" "starts_with ?pat (drop r p)"
    using assms(2) by (auto simp: matches_at_def)
  then have "find_string ?pat p pos \<noteq> None"
    using less.prems by (auto simp: find_string_def find_from_None)
  then obtain q where Some: "find_string ?pat p pos = Some q" by auto
  then have q: "pos \<le> q" "q \<le> length p" "starts_with ?pat (drop q p)" "q \<le> r"
    using r less.prems by (auto simp: find_string_def find_from_Some not_less [symmetric])
  show ?case
  proof (cases "matches_at ?pat p q")
    case True
    with Some q show ?thesis
      by (subst relativeIgnored.simps) (auto simp: isFileOrFolder_total)
  next
    case False
    with assms(2) q(4) have "q < r" by (cases "q = r") auto
    then have "q + length ?pat \<le> r"
      using single_component_no_overlap [OF assms(1) q(3) r(2)] by blast
    then have "relativeIgnored p ?pat (q + length ?pat) = Some True"
      using less.hyps [of "q + length ?pat"] q r by simp
    then show ?thesis
      using Some q False by (subst relativeIgnored.simps) (simp add: isFileOrFolder_total)
  qed
qed

lemma absoluteIgnored_eq:
  "absoluteIgnored rel pats = Some (\<exists>pat\<in>set pats. matches_at pat rel 0)"
proof (induction pats)
  case (Cons pat pats)
  then show ?case
    using isFileOrFolder_total [of pat 0 rel] by (auto simp: matches_at_def)
qed simp

lemma relativeIgnored_eq:
  assumes "CHR ''/'' \<notin> set w"
  shows "relativeIgnored p (CHR ''/'' # w) 0 = Some (\<exists>q. matches_at (CHR ''/'' # w) p q)"
  using relativeIgnored_total [of "CHR ''/'' # w" p 0] relativeIgnored_complete [OF assms, of p _ 0]
  by (cases "\<exists>q. matches_at (CHR ''/'' # w) p q") auto

lemma relativesIgnored_eq:
  assumes "\<forall>pat\<in>set pats. \<exists>w. pat = CHR ''/'' # w \<and> CHR ''/'' \<notin> set w"
  shows "relativesIgnored rel pats = Some (\<exists>pat\<in>set pats. \<exists>q. matches_at pat rel q)"
  using assms
proof (induction pats)
  case (Cons pat pats)
  then obtain w where "pat = CHR ''/'' # w" "CHR ''/'' \<notin> set w" by auto
  with Cons show ?case
    by (auto simp: relativeIgnored_eq)
qed simp

text \<open>C37: when every relative pattern is a single component \<open>/name\<close>, \<open>isFileIgnored\<close> terminates
  and answers exactly whether an absolute pattern matches whole components at the start of the
  relative path or a relative pattern does so anywhere; it raises only when the path is shorter than the base path.\<close>

theorem isFileIgnored_exact:
  assumes "\<forall>pat\<in>set rels. \<exists>w. pat = CHR ''/'' # w \<and> CHR ''/'' \<notin> set w"
  shows "isFileIgnored base p abss rels = (if length p < length base then None else
     Some ((\<exists>pat\<in>set abss. matches_at pat (drop (length base) p) 0)
       \<or> (\<exists>pat\<in>set rels. \<exists>q. matches_at pat (drop (length base) p) q)))"
  by (auto simp: isFileIgnored_def Let_def absoluteIgnored_eq relativesIgnored_eq [OF assms])

theorem isFileIgnored_exact_witness:
  "isFileIgnored ''src'' ''src/x/vendor/y.rb'' [''/lib''] [''/vendor''] = Some True"
proof -
  have "matches_at ''/vendor'' (drop (length ''src'') ''src/x/vendor/y.rb'') 2"
    by code_simp
  then show ?thesis
    using isFileIgnored_exact [of "[''/vendor'']" "''src''" "''src/x/vendor/y.rb''" "[''/lib'']"]
    by (auto simp del: isFileIgnored_def)
qed

text \<open>A relative pattern with several components can be missed: the search goes on behind a
  failed occurrence, so a matching one that overlaps it is never tried.\<close>

lemma overlapping_pattern_missed:
  "matches_at ''/abc/a'' ''/abc/abc/a'' 4
     \<and> isFileIgnored [] ''/abc/abc/a'' [] [''/abc/a''] = Some False"
proof -
  have m: "matches_at ''/abc/a'' ''/abc/abc/a'' 4" "\<not> matches_at ''/abc/a'' ''/abc/abc/a'' 0"
    and f: "find_string ''/abc/a'' ''/abc/abc/a'' 0 = Some 0" "find_string ''/abc/a'' ''/abc/abc/a'' 6 = None"
    and i: "isFileOrFolder ''/abc/abc/a'' ''/abc/a'' 0 = Some False"
    by code_simp+
  have "relativeIgnored ''/abc/abc/a'' ''/abc/a'' 6 = Some False"
    using f(2) by (subst relativeIgnored.simps) simp
  then have "relativeIgnored ''/abc/abc/a'' ''/abc/a'' 0 = Some False"
    using f(1) i by (subst relativeIgnored.simps) (simp add: eval_nat_numeral)
  with m show ?thesis
    by (simp add: isFileIgnored_def)
qed

section \<open>Reading lines from a descriptor\<close>

text \<open>One call of \<open>readFd\<close> is a value of the type below: the bytes that arrived, a timeout (0), or an
  error or the end of the input (negative).\<close>

datatype fd_event = FdData string | FdTimeout | FdError

datatype read_result = ReadSuccess string | ReadTimeout | ReadErrorOrEof

text \<open>The descriptor is the list of what the next calls of \<open>readFd\<close> give; after the last one it is at
  its end.\<close>

definition readFd :: "fd_event list \<Rightarrow> fd_event \<times> fd_event list" where
  "readFd fd = (case fd of [] \<Rightarrow> (FdError, []) | e # rest \<Rightarrow> (e, rest))"

definition readLineFromFd :: "fd_event list \<Rightarrow> string \<Rightarrow> read_result \<times> fd_event list \<times> string" where
  "readLineFromFd fd buffer =
     (case find_char newline buffer 0 of
        Some bufferFnd \<Rightarrow> (ReadSuccess (take bufferFnd buffer), fd, drop (bufferFnd + 1) buffer)
      | None \<Rightarrow>
          (case readFd fd of
             (FdTimeout, fd') \<Rightarrow> (ReadTimeout, fd', buffer)
           | (FdError, fd') \<Rightarrow> (ReadErrorOrEof, fd', buffer)
           | (FdData buf, fd') \<Rightarrow>
               (case find_char newline buf 0 of
                  Some fnd \<Rightarrow> (ReadSuccess (buffer @ take fnd buf), fd', drop (fnd + 1) buf)
                | None \<Rightarrow> (ReadTimeout, fd', buffer @ buf))))"

fun fd_bytes :: "fd_event list \<Rightarrow> string" where
  "fd_bytes [] = []"
| "fd_bytes (FdData s # es) = s @ fd_bytes es"
| "fd_bytes (_ # es) = fd_bytes es"

fun result_bytes :: "read_result \<Rightarrow> string" where
  "result_bytes (ReadSuccess l) = l @ [newline]"
| "result_bytes _ = []"

text \<open>Reading until the first \<open>n\<close> calls are done.\<close>

primrec readLines :: "nat \<Rightarrow> fd_event list \<Rightarrow> string \<Rightarrow> read_result list \<times> fd_event list \<times> string" where
  "readLines 0 fd buffer = ([], fd, buffer)"
| "readLines (Suc n) fd buffer =
     (let (r, fd', buffer') = readLineFromFd fd buffer;
          (rs, rest) = readLines n fd' buffer'
      in (r # rs, rest))"

lemma find_char_split:
  assumes "find_char c s 0 = Some i"
  shows "s = take i s @ c # drop (i + 1) s \<and> c \<notin> set (take i s)"
  using assms by (auto simp: find_char_Some id_take_nth_drop in_set_conv_nth)

lemma find_char_0_None: "find_char c s 0 = None \<longleftrightarrow> c \<notin> set s"
  by (auto simp: find_char_None in_set_conv_nth)

lemma readLineFromFd_step:
  assumes "readLineFromFd fd buffer = (r, fd', buffer')"
  shows "result_bytes r @ buffer' @ fd_bytes fd' = buffer @ fd_bytes fd
     \<and> (\<forall>l. r = ReadSuccess l \<longrightarrow> newline \<notin> set l)"
proof (cases "find_char newline buffer 0")
  case (Some i)
  with assms find_char_split [OF Some] show ?thesis
    by (auto simp: readLineFromFd_def)
next
  case None
  then have nb: "newline \<notin> set buffer" by (simp add: find_char_0_None)
  show ?thesis
  proof (cases fd)
    case Nil
    with None assms show ?thesis by (auto simp: readLineFromFd_def readFd_def)
  next
    case (Cons e es)
    show ?thesis
    proof (cases e)
      case (FdData buf)
      show ?thesis
      proof (cases "find_char newline buf 0")
        case (Some i)
        with find_char_split [OF Some] nb None Cons FdData assms show ?thesis
          by (auto simp: readLineFromFd_def readFd_def)
      qed (use None Cons FdData assms in \<open>auto simp: readLineFromFd_def readFd_def\<close>)
    qed (use None Cons assms in \<open>auto simp: readLineFromFd_def readFd_def\<close>)
  qed
qed

text \<open>Reading lines loses, repeats and reorders no byte, however the input is cut into chunks:
  after any number of calls the lines returned so far (each followed by its newline), the buffer and
  the input still to come make up the input, and no returned line contains a newline.\<close>

lemma readLines_lossless:
  assumes "readLines n fd buffer = (rs, fd', buffer')"
  shows "concat (map result_bytes rs) @ buffer' @ fd_bytes fd' = buffer @ fd_bytes fd
     \<and> (\<forall>l. ReadSuccess l \<in> set rs \<longrightarrow> newline \<notin> set l)"
  using assms
proof (induction n arbitrary: fd buffer rs)
  case (Suc n)
  obtain r fd1 b1 where one: "readLineFromFd fd buffer = (r, fd1, b1)"
    by (metis prod_cases3)
  obtain rs1 where rs: "readLines n fd1 b1 = (rs1, fd', buffer')" "rs = r # rs1"
    using Suc.prems one by (auto simp: Let_def split: prod.splits)
  show ?case
    using Suc.IH [OF rs(1)] readLineFromFd_step [OF one] rs(2) by auto
qed simp

section \<open>File objects\<close>

record file_flags =
  hasIndexErrors_flag :: bool
  isTestPath_flag :: bool
  isTestFile_flag :: bool
  hasPackageRBIPath_flag :: bool
  hasPackageRbPath_flag :: bool
  isOpenInClient_flag :: bool

definition Flags :: "string \<Rightarrow> file_flags" where
  "Flags p = \<lparr>hasIndexErrors_flag = False,
     isTestPath_flag = (find_string ''/test/'' p 0 \<noteq> None),
     isTestFile_flag = ends_with ''.test.rb'' p,
     hasPackageRBIPath_flag = isPackageRBIPath p,
     hasPackageRbPath_flag = isPackagePath p,
     isOpenInClient_flag = False\<rparr>"

record file_obj = src_file +
  epoch :: u32
  flags :: file_flags
  minErrorLevel :: strict_level
  originalSigil :: strict_level
  strictLevel :: strict_level

datatype file_error = FileTooLarge nat

definition INVALID_POS_LOC :: nat where
  "INVALID_POS_LOC = 2 ^ 32 - 1"

definition mkFile :: "string \<Rightarrow> string \<Rightarrow> u8 \<Rightarrow> u32 \<Rightarrow> (file_error, file_obj) result" where
  "mkFile p src type ep =
     (if length src \<ge> INVALID_POS_LOC then Inl (FileTooLarge (length src))
      else Inr \<lparr>sourceType = type, path = p, source = src, fileHash = None, epoch = ep, flags = Flags p,
                minErrorLevel = SL_Max, originalSigil = fileStrictSigil src,
                strictLevel = fileStrictSigil src\<rparr>)"

text \<open>The table of line ends is a function of the source, so the copy of the cached table is not a
  field here.\<close>

definition deepCopy :: "file_obj \<Rightarrow> (file_error, file_obj) result" where
  "deepCopy f = (case mkFile (path f) (source f) (sourceType f) (epoch f) of
     Inl e \<Rightarrow> Inl e
   | Inr ret \<Rightarrow> Inr (ret\<lparr>minErrorLevel := minErrorLevel f, strictLevel := strictLevel f\<rparr>))"

definition isPayload :: "'a src_file_scheme \<Rightarrow> bool" where
  "isPayload f \<longleftrightarrow> sourceType f = File_PayloadGeneration \<or> sourceType f = File_Payload"

definition isStdlib :: "file_obj \<Rightarrow> bool" where
  "isStdlib f \<longleftrightarrow> originalSigil f = SL_Stdlib"

definition permitOverloadDefinitions :: "file_obj \<Rightarrow> bool" where
  "permitOverloadDefinitions f \<longleftrightarrow>
     isRBIPath (path f) \<or> getFileName (path f) = ''overloads_test.rb'' \<or> isStdlib f"

definition hasPackageRbPath :: "file_obj \<Rightarrow> bool" where
  "hasPackageRbPath f \<longleftrightarrow> hasPackageRbPath_flag (flags f) \<and> strictLevel f \<noteq> SL_Ignore"

text \<open>\<open>enabled\<close> stands for \<open>gs.packageDB().enabled()\<close>.\<close>

definition isPackage :: "bool \<Rightarrow> file_obj \<Rightarrow> bool" where
  "isPackage enabled f \<longleftrightarrow> hasPackageRbPath f \<and> enabled"

definition isTestPackage :: "bool \<Rightarrow> file_obj \<Rightarrow> bool" where
  "isTestPackage enabled f \<longleftrightarrow> hasPackageRbPath f \<and> isTestPath_flag (flags f) \<and> enabled"

definition isPackagedTest :: "file_obj \<Rightarrow> bool" where
  "isPackagedTest f \<longleftrightarrow> isTestFile_flag (flags f) \<or> isTestPath_flag (flags f)"

definition isPackagedTestHelper :: "file_obj \<Rightarrow> bool" where
  "isPackagedTestHelper f \<longleftrightarrow> isTestPath_flag (flags f) \<and> \<not> isTestFile_flag (flags f)"

definition EXTERNAL_PREFIX :: string where
  "EXTERNAL_PREFIX = ''external/com_stripe_ruby_typer/''"

definition URL_PREFIX :: string where
  "URL_PREFIX = ''https://github.com/sorbet/sorbet/tree/master/''"

definition strip_prefix :: "string \<Rightarrow> string \<Rightarrow> string" where
  "strip_prefix pre s = (if starts_with pre s then drop (length pre) s else s)"

definition censorFilePathForSnapshotTests :: "string \<Rightarrow> string" where
  "censorFilePathForSnapshotTests orig =
     (let r1 = strip_prefix EXTERNAL_PREFIX orig;
          r2 = (if starts_with URL_PREFIX r1
                then strip_prefix EXTERNAL_PREFIX (drop (length URL_PREFIX) r1) else r1)
      in if starts_with URL_PREFIX orig then URL_PREFIX @ r2 else r2)"

definition getPrintablePath :: "string \<Rightarrow> string \<Rightarrow> string" where
  "getPrintablePath pathPrefix p =
     (if take (length pathPrefix) p = pathPrefix then drop (length pathPrefix) p else p)"

lemma mkFile_fits: "mkFile p src t e = Inr f \<Longrightarrow> length (source f) < 2 ^ 32 - 1"
  by (auto simp: mkFile_def INVALID_POS_LOC_def split: if_splits)

lemma starts_with_append [simp]: "starts_with pre (pre @ s)"
  by (simp add: starts_with_def)

lemma starts_with_longer:
  "starts_with (pre @ w) (pre @ s) = starts_with w s"
  by (simp add: starts_with_def)

text \<open>A file of the repository has the same censored path whether it is named by its URL, by its
  URL inside the external workspace, or read from the workspace directly.\<close>

lemma censor_workspace:
  assumes "\<not> starts_with URL_PREFIX p" "\<not> starts_with EXTERNAL_PREFIX p"
  shows "censorFilePathForSnapshotTests p = p"
    and "censorFilePathForSnapshotTests (EXTERNAL_PREFIX @ p) = p"
    and "censorFilePathForSnapshotTests (URL_PREFIX @ p) = URL_PREFIX @ p"
    and "censorFilePathForSnapshotTests (URL_PREFIX @ EXTERNAL_PREFIX @ p) = URL_PREFIX @ p"
proof -
  have e: "\<not> starts_with URL_PREFIX (EXTERNAL_PREFIX @ p)" "\<not> starts_with EXTERNAL_PREFIX (URL_PREFIX @ q)" for q
    by (simp_all add: starts_with_def URL_PREFIX_def EXTERNAL_PREFIX_def)
  show "censorFilePathForSnapshotTests p = p"
    "censorFilePathForSnapshotTests (EXTERNAL_PREFIX @ p) = p"
    "censorFilePathForSnapshotTests (URL_PREFIX @ p) = URL_PREFIX @ p"
    "censorFilePathForSnapshotTests (URL_PREFIX @ EXTERNAL_PREFIX @ p) = URL_PREFIX @ p"
    using assms e by (simp_all add: censorFilePathForSnapshotTests_def strip_prefix_def)
qed

lemma deepCopy_result:
  assumes "mkFile p src t ep = Inr f"
  shows "deepCopy (setFileHash h (f\<lparr>strictLevel := l, flags := fl\<rparr>)) = Inr (f\<lparr>strictLevel := l\<rparr>)"
  using assms by (auto simp: deepCopy_def mkFile_def setFileHash_def split: if_splits)

end
