(* ===== verification/Locs.thy ===== *)
theory Locs
  imports FilePaths
begin

text \<open>
  Locations (\<open>core/LocOffsets.h\<close>, \<open>core/Loc.h\<close>, \<open>core/Loc.cc\<close>): joining and containment, conversion
  between byte offsets and lines and columns, adjusted and truncated locations and the printed forms.

  Offsets are 32-bit words and the code's arithmetic wraps; \<open>int64_t\<close> values are integers, since sums
  of 32-bit quantities stay in their range.  The file a location refers to in the global state
  (\<open>file().data(gs)\<close>) is an argument.  The \<open>ENFORCE\<close>s, which release builds drop, are hypotheses of
  the theorems.
\<close>

section \<open>Offsets\<close>

definition INVALID_POS :: u32 where
  "INVALID_POS = - 1"

definition offs_exists :: "loc_offsets \<Rightarrow> bool" where
  "offs_exists l \<longleftrightarrow> endLoc l \<noteq> INVALID_POS \<and> beginLoc l \<noteq> INVALID_POS"

definition offs_none :: loc_offsets where
  "offs_none = \<lparr>beginLoc = INVALID_POS, endLoc = INVALID_POS\<rparr>"

definition offs_length :: "loc_offsets \<Rightarrow> u32" where
  "offs_length l = endLoc l - beginLoc l"

definition offs_join :: "loc_offsets \<Rightarrow> loc_offsets \<Rightarrow> loc_offsets" where
  "offs_join l other =
     (if \<not> offs_exists l then other
      else if \<not> offs_exists other then l
      else \<lparr>beginLoc = min (beginLoc l) (beginLoc other), endLoc = max (endLoc l) (endLoc other)\<rparr>)"

definition offs_contains :: "loc_offsets \<Rightarrow> loc_offsets \<Rightarrow> bool" where
  "offs_contains l other \<longleftrightarrow> beginLoc other \<ge> beginLoc l \<and> endLoc other \<le> endLoc l"

definition copyWithZeroLength :: "loc_offsets \<Rightarrow> loc_offsets" where
  "copyWithZeroLength l = \<lparr>beginLoc = beginLoc l, endLoc = beginLoc l\<rparr>"

definition copyEndWithZeroLength :: "loc_offsets \<Rightarrow> loc_offsets" where
  "copyEndWithZeroLength l = \<lparr>beginLoc = endLoc l, endLoc = endLoc l\<rparr>"

text \<open>The invariant the constructor \<open>ENFORCE\<close>s.\<close>

definition wf_offs :: "loc_offsets \<Rightarrow> bool" where
  "wf_offs l \<longleftrightarrow> beginLoc l \<le> endLoc l"

lemma not_exists_none [simp]: "\<not> offs_exists offs_none"
  by (simp add: offs_exists_def offs_none_def)

lemma offs_join_exists: "offs_exists (offs_join a b) \<longleftrightarrow> offs_exists a \<or> offs_exists b"
  by (auto simp: offs_join_def offs_exists_def min_def max_def)

lemma offs_join_assoc: "offs_join (offs_join a b) c = offs_join a (offs_join b c)"
proof (cases "offs_exists a \<and> offs_exists b \<and> offs_exists c")
  case True
  then have "offs_exists (offs_join a b)" "offs_exists (offs_join b c)"
    by (simp_all add: offs_join_exists)
  with True show ?thesis
    by (simp add: offs_join_def min.assoc max.assoc)
next
  case False
  then show ?thesis
    using offs_join_exists [of a b] offs_join_exists [of b c]
    by (auto simp: offs_join_def)
qed

lemma offs_join_commute:
  "a = offs_none \<or> offs_exists a \<Longrightarrow> b = offs_none \<or> offs_exists b \<Longrightarrow> offs_join a b = offs_join b a"
  by (auto simp: offs_join_def min.commute max.commute)

lemma offs_join_wf: "wf_offs a \<Longrightarrow> wf_offs b \<Longrightarrow> wf_offs (offs_join a b)"
  by (auto simp: wf_offs_def offs_join_def min_def max_def)

lemma offs_join_least:
  "offs_exists a \<Longrightarrow> offs_exists b \<Longrightarrow>
     offs_contains c (offs_join a b) \<longleftrightarrow> offs_contains c a \<and> offs_contains c b"
  by (auto simp: offs_contains_def offs_join_def)

text \<open>On well-formed offsets \<open>join\<close> is associative, commutative and idempotent with the missing
  location as its unit, keeps the invariant, and of two existing locations it is the least one that
  contains both.\<close>

lemma join_semilattice:
  assumes "wf_offs a" "wf_offs b"
    and "a = offs_none \<or> offs_exists a" "b = offs_none \<or> offs_exists b"
  shows "offs_join (offs_join a b) c = offs_join a (offs_join b c)
    \<and> offs_join a b = offs_join b a \<and> offs_join a a = a \<and> offs_join offs_none a = a
    \<and> wf_offs (offs_join a b)
    \<and> (offs_exists a \<and> offs_exists b \<longrightarrow>
         (offs_contains c (offs_join a b) \<longleftrightarrow> offs_contains c a \<and> offs_contains c b))"
proof -
  have "offs_join a a = a" "offs_join offs_none a = a"
    by (simp_all add: offs_join_def)
  with offs_join_assoc offs_join_commute [OF assms(3,4)] offs_join_wf [OF assms(1,2)]
    offs_join_least [of a b c]
  show ?thesis by blast
qed

section \<open>Lines and columns\<close>

record detail =
  line :: u32
  column :: u32

text \<open>\<open>lower_bound\<close> on a sorted range: the index of the first element not below the argument.\<close>

definition lower_bound :: "u32 list \<Rightarrow> u32 \<Rightarrow> nat" where
  "lower_bound xs v = length (takeWhile (\<lambda>x. x < v) xs)"

definition pos2Detail :: "'a src_file_scheme \<Rightarrow> u32 \<Rightarrow> detail" where
  "pos2Detail f off =
     (let lineBreaks = findLineBreaks (source f); it = lower_bound lineBreaks off in
      if it = 0 then \<lparr>line = 1, column = off + 1\<rparr>
      else \<lparr>line = of_nat it + 1, column = off - lineBreaks ! (it - 1)\<rparr>)"

text \<open>\<open>lineStart\<close> and \<open>column0idx\<close> are 32-bit, \<open>lineEnd\<close> and \<open>lineLength\<close> are \<open>size_t\<close>.\<close>

definition detail2Pos :: "'a src_file_scheme \<Rightarrow> detail \<Rightarrow> u32 option" where
  "detail2Pos f d =
     (let line1idx = line d; lineBreaks = findLineBreaks (source f) in
      if \<not> (1 \<le> line1idx \<and> unat line1idx \<le> length lineBreaks + 1) then None
      else
        (let line0idx = unat (line1idx - 1);
             lineStart = (if line0idx = 0 then 0 else lineBreaks ! (line0idx - 1) + 1);
             lineEnd = (if line0idx < length lineBreaks then ucast (lineBreaks ! line0idx)
                        else of_nat (length (source f)));
             lineLength = (lineEnd - ucast lineStart :: u64);
             column1idx = column d
         in if ucast column1idx > lineLength + 1 then None
            else (let column0idx = column1idx - 1 in Some (lineStart + column0idx))))"

definition fromDetails :: "'a src_file_scheme \<Rightarrow> u32 \<Rightarrow> detail \<Rightarrow> detail \<Rightarrow> loc option" where
  "fromDetails f ref begin_d end_d =
     (case detail2Pos f begin_d of
        None \<Rightarrow> None
      | Some beginOff \<Rightarrow>
          (case detail2Pos f end_d of
             None \<Rightarrow> None
           | Some endOff \<Rightarrow> Some \<lparr>fileRef = ref, offsets = \<lparr>beginLoc = beginOff, endLoc = endOff\<rparr>\<rparr>))"

definition toDetails :: "'a src_file_scheme \<Rightarrow> loc \<Rightarrow> detail \<times> detail" where
  "toDetails f l = (pos2Detail f (beginLoc (offsets l)), pos2Detail f (endLoc (offsets l)))"

text \<open>The same conversions on natural numbers, without wrap-around.\<close>

definition line_of :: "string \<Rightarrow> nat \<Rightarrow> nat" where
  "line_of s off = length (takeWhile (\<lambda>b. b < off) (line_ends s))"

lemma lower_bound_eq: "lower_bound (findLineBreaks s) off = line_of s (unat off)"
proof -
  have "takeWhile (\<lambda>b. b < unat off) (map unat (findLineBreaks s))
      = map unat (takeWhile (\<lambda>x. unat x < unat off) (findLineBreaks s))"
    by (simp add: takeWhile_map comp_def)
  then show ?thesis
    by (simp add: lower_bound_def line_of_def line_ends_def word_less_nat_alt)
qed

lemma length_line_ends_le: "length s < 2 ^ 32 \<Longrightarrow> length (line_ends s) \<le> length s + 1"
  unfolding findLineBreaks_eq newline_positions_def
  using length_filter_le [of "\<lambda>i. s ! i = newline" "[0..<length s]"] by simp

lemma line_of_spec:
  assumes "length s < 2 ^ 32 - 1" "off \<le> length s"
  shows "line_of s off < length (line_ends s)" "line_begin (line_ends s) (line_of s off) \<le> off"
    "off \<le> line_ends s ! line_of s off"
  using fileLines.line_of_offset [OF assms] by (auto simp: line_of_def)

lemma pos2Detail_nat:
  assumes "length (source f) < 2 ^ 32 - 1" "unat off \<le> length (source f)"
  defines "k \<equiv> line_of (source f) (unat off)"
  shows "unat (line (pos2Detail f off)) = k + 1"
    and "unat (column (pos2Detail f off)) = unat off - line_begin (line_ends (source f)) k + 1"
proof -
  let ?s = "source f"
  have k: "k < length (line_ends ?s)" "line_begin (line_ends ?s) k \<le> unat off"
    using line_of_spec [OF assms(1,2)] by (simp_all add: k_def)
  have "length (line_ends ?s) \<le> length ?s + 1"
    using assms(1) by (intro length_line_ends_le) simp
  with k assms(1) have "k + 1 < 2 ^ 32" by simp
  then have "unat (of_nat k + 1 :: u32) = k + 1"
    using unat_of_nat_u32 [of "k + 1"] by (simp add: add.commute)
  then show "unat (line (pos2Detail f off)) = k + 1"
    by (auto simp: pos2Detail_def Let_def lower_bound_eq k_def)
  show "unat (column (pos2Detail f off)) = unat off - line_begin (line_ends ?s) k + 1"
  proof (cases "k = 0")
    case True
    have "unat off < 2 ^ 32 - 1" using assms by simp
    then have "unat (off + 1) = unat off + 1"
      by (simp add: unat_word_ariths)
    with True show ?thesis
      by (simp add: pos2Detail_def Let_def lower_bound_eq k_def line_begin_def)
  next
    case False
    then have b: "line_begin (line_ends ?s) k = unat (findLineBreaks ?s ! (k - 1)) + 1"
      using k(1) by (simp add: line_begin_def line_ends_nth)
    with k(2) have "unat (off - findLineBreaks ?s ! (k - 1)) = unat off - unat (findLineBreaks ?s ! (k - 1))"
      by (intro unat_sub) (simp add: word_le_nat_alt)
    with b k(2) False show ?thesis
      by (simp add: pos2Detail_def Let_def lower_bound_eq k_def)
  qed
qed

lemma detail2Pos_nat:
  assumes "length (source f) < 2 ^ 32 - 1"
    and "unat (line d) = Suc k" "k < length (line_ends (source f))"
    and "unat (column d) = Suc c"
  shows "detail2Pos f d =
     (if line_begin (line_ends (source f)) k + c \<le> line_ends (source f) ! k
      then Some (of_nat (line_begin (line_ends (source f)) k + c)) else None)"
proof -
  let ?s = "source f" and ?lb = "findLineBreaks (source f)"
  let ?st = "if k = 0 then 0 else ?lb ! (k - 1) + 1 :: u32"
  have k: "k < length ?lb" using assms(3) by simp
  have st: "unat ?st = line_begin (line_ends ?s) k"
    using unat_line_begin [OF assms(1) k] .
  have one: "1 \<le> line d" "unat (line d - 1) = k"
    using assms(2) by (auto simp: word_le_nat_alt unat_sub)
  have col: "column d = of_nat (Suc c)" "column d - 1 = of_nat c"
    using assms(4) of_nat_unat_word [of "column d"]
    by (metis, metis add_diff_cancel_left' of_nat_Suc)
  have le: "line_begin (line_ends ?s) k \<le> line_ends ?s ! k" "line_ends ?s ! k \<le> length ?s"
    using fileLines.line_begin_le [OF assms(1,3)] fileLines.ends_le_extent [OF assms(1,3)] by auto
  let ?len = "ucast (?lb ! k) - ucast ?st :: u64"
  have "unat (ucast ?st :: u64) \<le> unat (ucast (?lb ! k) :: u64)"
    using le(1) st k by (simp add: line_ends_nth unat_ucast_u64)
  then have "unat ?len = line_ends ?s ! k - line_begin (line_ends ?s) k"
    using st k by (simp add: unat_sub word_le_nat_alt unat_ucast_u64 line_ends_nth)
  then have "unat (?len + 1) = line_ends ?s ! k - line_begin (line_ends ?s) k + 1"
    using le assms(1) by (simp add: unat_word_ariths)
  then have "?len + 1 < ucast (column d) \<longleftrightarrow> \<not> line_begin (line_ends ?s) k + c \<le> line_ends ?s ! k"
    using le(1) assms(4) by (auto simp: word_less_nat_alt unat_ucast_u64)
  moreover have "?st + (column d - 1) = of_nat (line_begin (line_ends ?s) k + c)"
    using col(2) st by (metis of_nat_add of_nat_unat_word)
  moreover have "detail2Pos f d = (if ?len + 1 < ucast (column d) then None else Some (?st + (column d - 1)))"
    using k one assms(2) unfolding detail2Pos_def Let_def by simp
  ultimately show ?thesis by auto
qed

lemma pos2Detail_inverse:
  assumes "length (source f) < 2 ^ 32 - 1" "unat off \<le> length (source f)"
  shows "detail2Pos f (pos2Detail f off) = Some off"
proof -
  let ?s = "source f" and ?k = "line_of (source f) (unat off)"
  note k = line_of_spec [OF assms]
  have "detail2Pos f (pos2Detail f off) = Some (of_nat (unat off))"
    using k detail2Pos_nat [OF assms(1), of "pos2Detail f off" ?k "unat off - line_begin (line_ends ?s) ?k"]
      pos2Detail_nat [OF assms] by simp
  then show ?thesis by (simp add: of_nat_unat_word)
qed

lemma detail_eqI: "unat (line d) = unat (line e) \<Longrightarrow> unat (column d) = unat (column e) \<Longrightarrow> d = (e :: detail)"
  by (cases d, cases e) (simp add: word_unat_eq_iff)

lemma detail2Pos_line:
  assumes "length (source f) < 2 ^ 32 - 1" "detail2Pos f d = Some p" "column d \<noteq> 0"
  obtains k c where "unat (line d) = Suc k" "k < length (line_ends (source f))" "unat (column d) = Suc c"
proof -
  let ?lb = "findLineBreaks (source f)"
  have l: "1 \<le> line d" "unat (line d) \<le> length ?lb + 1"
    using assms(2) by (auto simp: detail2Pos_def Let_def split: if_splits)
  then obtain k where k: "unat (line d) = Suc k"
    using not0_implies_Suc [of "unat (line d)"] by (auto simp: word_le_nat_alt)
  have u: "unat (line d - 1) = k"
    using l(1) k by (simp add: unat_sub)
  obtain c where c: "unat (column d) = Suc c"
    using assms(3) not0_implies_Suc [of "unat (column d)"] by (auto simp: unat_eq_0)
  have "k \<noteq> length ?lb"
  proof
    assume e: "k = length ?lb"
    have ne: "?lb \<noteq> []" by (simp add: findLineBreaks_def)
    have "last ?lb = of_nat (length (source f))"
      by (simp add: findLineBreaks_def)
    then have st: "?lb ! (k - 1) + 1 = of_nat (Suc (length (source f)))"
      using ne e by (simp add: last_conv_nth)
    have "ucast (of_nat (Suc (length (source f))) :: u32) = (of_nat (Suc (length (source f))) :: u64)"
      using assms(1) by (intro word_unat_eq_iff [THEN iffD2])
        (simp add: unat_ucast_u64 unat_of_nat take_bit_nat_eq_self del: of_nat_Suc)
    then have "of_nat (length (source f)) - ucast (?lb ! (k - 1) + 1) + 1 = (0 :: u64)"
      by (simp only: st) (simp add: algebra_simps)
    moreover have "(0 :: u64) < ucast (column d)"
      using c by (simp add: word_less_nat_alt unat_ucast_u64)
    ultimately show False
      using assms(2) l u e ne by (simp add: detail2Pos_def Let_def)
  qed
  with l k have "k < length (line_ends (source f))" by simp
  with that k c show thesis by blast
qed

text \<open>C17: in every file the constructor of \<open>File\<close> accepts, offsets up to the end of the file and
  1-based lines and columns correspond one to one: converting an offset and back gives the offset,
  and a line and column with a column of at least 1 is converted to an offset exactly when it is the
  line and column of that offset.\<close>

theorem detail_pos_bijection:
  assumes "mkFile p src t ep = Inr f"
  shows "(unat off \<le> length (source f) \<longrightarrow> detail2Pos f (pos2Detail f off) = Some off)
    \<and> (column d \<noteq> 0 \<longrightarrow>
         (detail2Pos f d = Some off \<longleftrightarrow> unat off \<le> length (source f) \<and> pos2Detail f off = d))"
proof (intro conjI impI)
  let ?s = "source f"
  note fits = mkFile_fits [OF assms]
  show inv: "detail2Pos f (pos2Detail f off) = Some off" if "unat off \<le> length ?s"
    by (rule pos2Detail_inverse [OF fits that])
  assume c0: "column d \<noteq> 0"
  show "detail2Pos f d = Some off \<longleftrightarrow> unat off \<le> length ?s \<and> pos2Detail f off = d"
  proof
    assume d: "detail2Pos f d = Some off"
    then obtain k c where kc: "unat (line d) = Suc k" "k < length (line_ends ?s)" "unat (column d) = Suc c"
      using detail2Pos_line [OF fits _ c0] by blast
    let ?b = "line_begin (line_ends ?s) k"
    have le: "?b + c \<le> line_ends ?s ! k" and off: "off = of_nat (?b + c)"
      using d detail2Pos_nat [OF fits kc] by (auto split: if_splits)
    have len: "line_ends ?s ! k \<le> length ?s"
      using fileLines.ends_le_extent [OF fits kc(2)] .
    then have u: "unat off = ?b + c"
      using off le fits by (simp add: unat_of_nat take_bit_nat_eq_self del: of_nat_add)
    then have "line_of ?s (unat off) = k"
      using fileLines.line_unique [OF fits kc(2), of "?b + c"] le by (simp add: line_of_def)
    then have "pos2Detail f off = d"
      using pos2Detail_nat [OF fits, of off] u le len kc by (intro detail_eqI) auto
    with u le len show "unat off \<le> length ?s \<and> pos2Detail f off = d" by simp
  qed (use inv in auto)
qed

theorem detail_pos_bijection_witness:
  "\<exists>f. mkFile ''a.rb'' [CHR ''a'', newline, CHR ''b''] File_Normal 0 = Inr f
     \<and> detail2Pos f (pos2Detail f 3) = Some 3 \<and> pos2Detail f 3 = \<lparr>line = 2, column = 2\<rparr>"
proof -
  obtain f where f: "mkFile ''a.rb'' [CHR ''a'', newline, CHR ''b''] File_Normal 0 = Inr f"
    by (simp add: mkFile_def INVALID_POS_LOC_def)
  then have s: "source f = [CHR ''a'', newline, CHR ''b'']"
    by (auto simp: mkFile_def split: if_splits)
  then have "detail2Pos f (pos2Detail f 3) = Some 3"
    using detail_pos_bijection [OF f, of 3] by simp
  moreover have "findLineBreaks [CHR ''a'', newline, CHR ''b''] = [1, 3]"
    by code_simp
  then have "pos2Detail f 3 = \<lparr>line = 2, column = 2\<rparr>"
    by (simp add: pos2Detail_def s lower_bound_def)
  ultimately show ?thesis using f by blast
qed

text \<open>Column 0, which no offset has, is not rejected: on the first line of any file it is
  converted to the offset that marks a missing location.\<close>

lemma column_zero_accepted:
  "detail2Pos f \<lparr>line = 1, column = 0\<rparr> = Some INVALID_POS"
  by (simp add: detail2Pos_def Let_def INVALID_POS_def)

section \<open>Locations\<close>

definition loc_none :: "u32 \<Rightarrow> loc" where
  "loc_none ref = \<lparr>fileRef = ref, offsets = offs_none\<rparr>"

definition loc_exists :: "loc \<Rightarrow> bool" where
  "loc_exists l \<longleftrightarrow> fileRef l \<noteq> 0 \<and> offs_exists (offsets l)"

definition mkLoc :: "u32 \<Rightarrow> u32 \<Rightarrow> u32 \<Rightarrow> loc" where
  "mkLoc ref b e = \<lparr>fileRef = ref, offsets = \<lparr>beginLoc = b, endLoc = e\<rparr>\<rparr>"

definition loc_join :: "loc \<Rightarrow> loc \<Rightarrow> loc" where
  "loc_join l other =
     (if \<not> loc_exists l then other
      else if \<not> loc_exists other then l
      else mkLoc (fileRef l) (min (beginLoc (offsets l)) (beginLoc (offsets other)))
             (max (endLoc (offsets l)) (endLoc (offsets other))))"

definition loc_contains :: "loc \<Rightarrow> loc \<Rightarrow> bool" where
  "loc_contains l other \<longleftrightarrow> fileRef l = fileRef other \<and> offs_contains (offsets l) (offsets other)"

text \<open>\<open>substr\<close> raises \<open>out_of_range\<close> when the start is behind the end of the text.\<close>

datatype loc_error = OutOfRange | BadOptionalAccess

definition loc_source :: "'a src_file_scheme \<Rightarrow> loc \<Rightarrow> (loc_error, string option) result" where
  "loc_source f l =
     (if \<not> loc_exists l then Inr None
      else if length (source f) < unat (beginLoc (offsets l)) then Inl OutOfRange
      else Inr (Some (substr (source f) (unat (beginLoc (offsets l))) (unat (offs_length (offsets l))))))"

text \<open>\<open>begin\<close> and \<open>end\<close> are widened to \<open>int64_t\<close>; the comparison with the \<open>uint64_t\<close> file length
  converts the sum to an unsigned number.\<close>

definition adjust :: "'a src_file_scheme \<Rightarrow> loc \<Rightarrow> int \<Rightarrow> int \<Rightarrow> loc" where
  "adjust f l beginAdjust endAdjust =
     (let b = uint (beginLoc (offsets l)); e = uint (endLoc (offsets l));
          fileLength = (of_nat (length (source f)) :: u64) in
      if \<not> loc_exists l then loc_none (fileRef l)
      else if b + beginAdjust < 0 then loc_none (fileRef l)
      else if b + beginAdjust > e + endAdjust then loc_none (fileRef l)
      else if (of_int (e + endAdjust) :: u64) > fileLength then loc_none (fileRef l)
      else mkLoc (fileRef l) (of_int (b + beginAdjust)) (of_int (e + endAdjust)))"

definition adjustLen :: "'a src_file_scheme \<Rightarrow> loc \<Rightarrow> int \<Rightarrow> int \<Rightarrow> loc" where
  "adjustLen f l beginAdjust len =
     (let b = uint (beginLoc (offsets l)); fileLength = (of_nat (length (source f)) :: u64) in
      if \<not> loc_exists l then loc_none (fileRef l)
      else if b + beginAdjust < 0 then loc_none (fileRef l)
      else if (of_int (b + beginAdjust + len) :: u64) > fileLength then loc_none (fileRef l)
      else (let newBegin = of_int (b + beginAdjust) :: u32
            in mkLoc (fileRef l) newBegin (newBegin + of_int len)))"

definition is_blank :: "char \<Rightarrow> bool" where
  "is_blank c \<longleftrightarrow> c = CHR '' '' \<or> c = CHR 0x09"

definition findStartOfIndentation :: "'a src_file_scheme \<Rightarrow> loc \<Rightarrow> (loc_error, loc \<times> nat) result" where
  "findStartOfIndentation f l =
     (let startDetail = fst (toDetails f l) in
      case detail2Pos f \<lparr>line = line startDetail, column = 1\<rparr> of
        None \<Rightarrow> Inl BadOptionalAccess
      | Some lineStart \<Rightarrow>
          (if length (source f) < unat lineStart then Inl OutOfRange
           else (let lineView = drop (unat lineStart) (source f);
                     first = length (takeWhile is_blank lineView);
                     padding = (if first = length lineView then 0 else first);
                     startOffset = lineStart + of_nat padding
                 in Inr (mkLoc (fileRef l) startOffset startOffset, padding))))"

definition truncateToFirstLine :: "'a src_file_scheme \<Rightarrow> loc \<Rightarrow> loc" where
  "truncateToFirstLine f l =
     (let (beginDetail, endDetail) = toDetails f l in
      if line beginDetail = line endDetail then l
      else mkLoc (fileRef l) (beginLoc (offsets l))
             (findLineBreaks (source f) ! (unat (line beginDetail) - 1)))"

text \<open>A location inside a file.\<close>

definition loc_in :: "'a src_file_scheme \<Rightarrow> loc \<Rightarrow> bool" where
  "loc_in f l \<longleftrightarrow> length (source f) < 2 ^ 32 - 1 \<and> fileRef l \<noteq> 0
     \<and> beginLoc (offsets l) \<le> endLoc (offsets l) \<and> unat (endLoc (offsets l)) \<le> length (source f)"

lemma loc_in_bounds:
  assumes "loc_in f l"
  shows "length (source f) < 2 ^ 32 - 1" "unat (beginLoc (offsets l)) \<le> unat (endLoc (offsets l))"
    "unat (endLoc (offsets l)) \<le> length (source f)" "unat (beginLoc (offsets l)) \<le> length (source f)"
  using assms by (auto simp: loc_in_def word_le_nat_alt)

lemma unat_INVALID: "unat INVALID_POS = 2 ^ 32 - 1"
  by (simp add: INVALID_POS_def unsigned_minus_1_eq_mask mask_eq_exp_minus_1)

lemma loc_in_exists: "loc_in f l \<Longrightarrow> loc_exists l"
  using loc_in_bounds [of f l] unat_INVALID
  by (auto simp: loc_in_def loc_exists_def offs_exists_def)

lemma loc_in_source:
  assumes "loc_in f l"
  shows "loc_source f l = Inr (Some (substr (source f) (unat (beginLoc (offsets l)))
           (unat (endLoc (offsets l)) - unat (beginLoc (offsets l)))))"
  using loc_in_bounds [OF assms] loc_in_exists [OF assms]
  by (auto simp: loc_source_def offs_length_def unat_sub word_le_nat_alt)

text \<open>C35: adjusting a location of a file by two 32-bit signed amounts gives exactly the shifted
  location when that is a slice of the source, and a missing location otherwise; no amount makes
  the arithmetic wrap around.\<close>

theorem adjust_exact:
  assumes "loc_in f l" "- (2 ^ 31) \<le> ba" "ba < 2 ^ 31" "- (2 ^ 31) \<le> ea" "ea < 2 ^ 31"
  shows "let b = uint (beginLoc (offsets l)) + ba; e = uint (endLoc (offsets l)) + ea in
    if 0 \<le> b \<and> b \<le> e \<and> e \<le> int (length (source f))
    then loc_in f (adjust f l ba ea) \<and> uint (beginLoc (offsets (adjust f l ba ea))) = b
       \<and> uint (endLoc (offsets (adjust f l ba ea))) = e
    else adjust f l ba ea = loc_none (fileRef l)"
proof -
  let ?b = "uint (beginLoc (offsets l)) + ba" and ?e = "uint (endLoc (offsets l)) + ea"
  note bounds = loc_in_bounds [OF assms(1)] and ex = loc_in_exists [OF assms(1)]
  have hi: "?e < 2 ^ 63"
    using assms(5) unsigned_less [of "endLoc (offsets l)", where 'a = int] by simp
  have cmp: "(of_nat (length (source f)) :: u64) < of_int ?e \<longleftrightarrow> int (length (source f)) < ?e" if "0 \<le> ?e"
    using that hi bounds(1)
    by (simp add: word_less_def uint_word_of_int take_bit_int_eq_self unsigned_of_nat
        take_bit_nat_eq_self del: of_int_add)
  show ?thesis
  proof (cases "0 \<le> ?b \<and> ?b \<le> ?e \<and> ?e \<le> int (length (source f))")
    case True
    with cmp ex have a: "adjust f l ba ea = mkLoc (fileRef l) (of_int ?b) (of_int ?e)"
      by (simp add: adjust_def Let_def del: of_int_add)
    have "uint (of_int ?b :: u32) = ?b" "uint (of_int ?e :: u32) = ?e"
      using True bounds(1) by (simp_all add: uint_word_of_int take_bit_int_eq_self del: of_int_add)
    moreover from this have "unat (of_int ?e :: u32) \<le> length (source f)"
      using True nat_uint_eq [of "of_int ?e :: u32"] by linarith
    moreover from calculation have "loc_in f (mkLoc (fileRef l) (of_int ?b) (of_int ?e))"
      using assms(1) True unfolding loc_in_def mkLoc_def by (simp add: word_le_def del: of_int_add)
    ultimately show ?thesis
      using True a by (simp add: Let_def mkLoc_def)
  next
    case False
    with cmp ex show ?thesis
      by (auto simp: adjust_def Let_def simp del: of_int_add)
  qed
qed

definition example_file :: src_file where
  "example_file = \<lparr>sourceType = File_Normal, path = ''a.rb'',
     source = ''  x'' @ [newline] @ ''yz'', fileHash = None\<rparr>"

theorem adjust_exact_witness:
  "uint (beginLoc (offsets (adjust example_file (mkLoc 1 2 3) (- 1) 2))) = 1
   \<and> adjust example_file (mkLoc 1 2 3) (- 3) 0 = loc_none 1"
  using adjust_exact [of example_file "mkLoc 1 2 3" "- 1" 2]
    adjust_exact [of example_file "mkLoc 1 2 3" "- 3" 0]
  by (simp add: loc_in_def mkLoc_def example_file_def)

text \<open>Unlike \<open>adjust\<close>, \<open>adjustLen\<close> does not compare the new end with the new begin, so a negative
  length yields a location that ends before it begins.\<close>

lemma adjustLen_negative: "adjustLen example_file (mkLoc 1 2 3) 0 (- 1) = mkLoc 1 2 1"
  by (simp add: adjustLen_def loc_exists_def offs_exists_def INVALID_POS_def mkLoc_def example_file_def)

lemma no_newline_in_line:
  assumes "length s < 2 ^ 32 - 1" "k < length (line_ends s)"
    and "line_begin (line_ends s) k \<le> i" "i < line_ends s ! k"
  shows "s ! i \<noteq> newline"
proof
  assume "s ! i = newline"
  moreover have "i < length s"
    using assms(4) fileLines.ends_le_extent [OF assms(1,2)] by simp
  ultimately have "i \<in> set (line_ends s)"
    using assms(1) by (simp add: findLineBreaks_eq newline_positions_def)
  then obtain j where j: "j < length (line_ends s)" "line_ends s ! j = i"
    by (auto simp: in_set_conv_nth simp del: length_line_ends)
  have "length (takeWhile (\<lambda>b. b < i) (line_ends s)) = j"
    using fileLines.line_unique [OF assms(1) j(1)] fileLines.line_begin_le [OF assms(1) j(1)] j(2) by simp
  moreover have "length (takeWhile (\<lambda>b. b < i) (line_ends s)) = k"
    using fileLines.line_unique [OF assms(1-3)] assms(4) by simp
  ultimately show False using j(2) assms(4) by simp
qed

lemma takeWhile_line:
  assumes "length s < 2 ^ 32 - 1" "b \<le> e" "e \<le> length s"
  defines "k \<equiv> line_of s b"
  shows "takeWhile (\<lambda>c. c \<noteq> newline) (substr s b (e - b)) = substr s b (min e (line_ends s ! k) - b)"
proof -
  have k: "k < length (line_ends s)" "line_begin (line_ends s) k \<le> b" "b \<le> line_ends s ! k"
    using line_of_spec [OF assms(1), of b] assms(2,3) by (auto simp: k_def)
  have "takeWhile (\<lambda>c. c \<noteq> newline) (substr s b (e - b))
      = take (min e (line_ends s ! k) - b) (substr s b (e - b))"
  proof (rule takeWhile_eq_take_P_nth)
    fix i assume i: "i < min e (line_ends s ! k) - b" "i < length (substr s b (e - b))"
    then have "s ! (b + i) \<noteq> newline"
      using k(2) by (intro no_newline_in_line [OF assms(1) k(1)]) auto
    with i assms(2,3) show "substr s b (e - b) ! i \<noteq> newline"
      by (simp add: substr_def add.commute)
  next
    assume lt: "min e (line_ends s ! k) - b < length (substr s b (e - b))"
    then have "line_ends s ! k < e"
      using assms(2,3) k(3) by (auto simp: substr_def min_def split: if_splits)
    moreover from this have "Suc k < length (line_ends s)"
      using k(1) assms(3) fileLines.ends_last [OF assms(1)]
      by (metis Suc_lessI diff_Suc_1 last_conv_nth not_less)
    ultimately show "\<not> substr s b (e - b) ! (min e (line_ends s ! k) - b) \<noteq> newline"
      using newline_at_end [OF assms(1)] k(3) assms(3) by (simp add: substr_def)
  qed
  also have "\<dots> = substr s b (min e (line_ends s ! k) - b)"
    using assms(2) by (simp add: substr_def min_def)
  finally show ?thesis .
qed

lemma same_line_iff:
  assumes "loc_in f l"
  shows "line (fst (toDetails f l)) = line (snd (toDetails f l)) \<longleftrightarrow>
     unat (endLoc (offsets l)) \<le> line_ends (source f) ! line_of (source f) (unat (beginLoc (offsets l)))"
proof -
  let ?s = "source f" and ?b = "unat (beginLoc (offsets l))" and ?e = "unat (endLoc (offsets l))"
  note bd = loc_in_bounds [OF assms]
  note k = line_of_spec [OF bd(1,4)] and m = line_of_spec [OF bd(1,3)]
  have "line (fst (toDetails f l)) = line (snd (toDetails f l)) \<longleftrightarrow> line_of ?s ?b = line_of ?s ?e"
    using pos2Detail_nat(1) [OF bd(1,4)] pos2Detail_nat(1) [OF bd(1,3)]
    by (simp add: toDetails_def word_unat_eq_iff)
  also have "\<dots> \<longleftrightarrow> ?e \<le> line_ends ?s ! line_of ?s ?b"
  proof
    assume "?e \<le> line_ends ?s ! line_of ?s ?b"
    then have "line_of ?s ?e = line_of ?s ?b"
      using fileLines.line_unique [OF bd(1) k(1), of ?e] k(2) bd(2) by (simp add: line_of_def)
    then show "line_of ?s ?b = line_of ?s ?e" by simp
  qed (use m(3) in simp)
  finally show ?thesis .
qed

text \<open>Truncating a location of a file to its first line gives a location of the file whose text
  is the text of the original one up to its first newline.\<close>

lemma truncateToFirstLine_text:
  assumes "loc_in f l"
  shows "loc_in f (truncateToFirstLine f l)
    \<and> (\<exists>text. loc_source f l = Inr (Some text)
         \<and> loc_source f (truncateToFirstLine f l) = Inr (Some (takeWhile (\<lambda>c. c \<noteq> newline) text)))"
proof -
  let ?s = "source f" and ?b = "unat (beginLoc (offsets l))" and ?e = "unat (endLoc (offsets l))"
  let ?k = "line_of ?s ?b" and ?t = "truncateToFirstLine f l"
  note bd = loc_in_bounds [OF assms] and k = line_of_spec [OF loc_in_bounds(1) [OF assms] loc_in_bounds(4) [OF assms]]
  have kl: "unat (line (fst (toDetails f l))) - 1 = ?k"
    using pos2Detail_nat(1) [OF bd(1,4)] by (simp add: toDetails_def)
  have t: "loc_in f ?t \<and> beginLoc (offsets ?t) = beginLoc (offsets l)
      \<and> unat (endLoc (offsets ?t)) = min ?e (line_ends ?s ! ?k)"
  proof (cases "?e \<le> line_ends ?s ! ?k")
    case True
    then have "?t = l"
      using same_line_iff [OF assms] by (simp add: truncateToFirstLine_def case_prod_beta)
    with True assms show ?thesis by simp
  next
    case False
    then have "?t = mkLoc (fileRef l) (beginLoc (offsets l)) (findLineBreaks ?s ! ?k)"
      using same_line_iff [OF assms] kl by (simp add: truncateToFirstLine_def case_prod_beta)
    with False assms k bd show ?thesis
      by (simp add: mkLoc_def loc_in_def word_le_nat_alt line_ends_nth)
  qed
  then have "loc_source f ?t = Inr (Some (substr ?s ?b (min ?e (line_ends ?s ! ?k) - ?b)))"
    using loc_in_source [of f ?t] by simp
  with t loc_in_source [OF assms] takeWhile_line [OF bd(1-3)] show ?thesis by simp
qed

section \<open>Printed locations\<close>

text \<open>The terminal styles come from the \<open>rang\<close> library, which writes nothing or an escape sequence.\<close>

record rang_styles =
  fgB_black :: string
  style_reset :: string
  fg_cyan :: string
  fg_reset :: string

definition printTabs :: "nat \<Rightarrow> string" where
  "printTabs n = concat (replicate n ''  '')"

definition leftPad :: "string \<Rightarrow> nat \<Rightarrow> string" where
  "leftPad s l = (if length s < l then replicate (l - length s) (CHR '' '') @ s else take l s)"

definition WINDOW_SIZE :: nat where "WINDOW_SIZE = 10"
definition WINDOW_HALF_SIZE :: nat where "WINDOW_HALF_SIZE = WINDOW_SIZE div 2"

text \<open>Reading \<open>lineBreaks()\<close> outside its range is undefined and \<open>None\<close> here.\<close>

definition addLocLine :: "rang_styles \<Rightarrow> nat \<Rightarrow> 'a src_file_scheme \<Rightarrow> nat \<Rightarrow> nat \<Rightarrow> bool \<Rightarrow> string option" where
  "addLocLine c ln f tabs lineNumPadding censor =
     (let buf = printTabs tabs @ fgB_black c
            @ leftPad (if censor then ''NN'' else to_string (ln + 1)) lineNumPadding @ '' |'' @ style_reset c;
          lineBreaks = findLineBreaks (source f)
      in if length lineBreaks \<le> ln then None
         else (let endPos = lineBreaks ! ln;
                   offset = (if ln = 0 then 0 else lineBreaks ! (ln - 1) + 1)
               in if endPos \<le> offset then Some buf
                  else Some (buf @ substr (source f) (unat offset) (unat (endPos - offset)))))"

text \<open>The lines printed for a location whose details have the given line numbers: those of the first
  loop, whether lines are elided, and those of the second loop.  A loop that counts a 32-bit
  \<open>lineIt\<close> up to \<open>final\<close> runs \<open>final - lineIt\<close> times.\<close>

definition count_up :: "u32 \<Rightarrow> nat \<Rightarrow> u32 list" where
  "count_up l n = map (\<lambda>i. l + of_nat i) [0..<n]"

definition excerpt :: "u32 \<Rightarrow> u32 \<Rightarrow> u32 list \<times> bool \<times> u32 list" where
  "excerpt first final =
     (let firstLine = first - 1;
          n = min WINDOW_HALF_SIZE (unat (final - firstLine));
          lineIt = firstLine + of_nat n;
          elide = (lineIt \<noteq> final \<and> lineIt < final - of_nat WINDOW_HALF_SIZE);
          lineIt' = (if elide then final - of_nat WINDOW_HALF_SIZE else lineIt)
      in (count_up firstLine n, elide, count_up lineIt' (unat (final - lineIt'))))"

fun all_some :: "'a option list \<Rightarrow> 'a list option" where
  "all_some [] = Some []"
| "all_some (x # xs) = Option.bind x (\<lambda>v. Option.bind (all_some xs) (\<lambda>vs. Some (v # vs)))"

definition squiggle :: "rang_styles \<Rightarrow> nat \<Rightarrow> nat \<Rightarrow> detail \<times> detail \<Rightarrow> string" where
  "squiggle c tabs lineNumPadding details =
     (let (first, final) = details; p = unat (column first) in
      newline # printTabs tabs @ replicate (lineNumPadding + 1) (CHR '' '') @ replicate p (CHR '' '')
        @ fg_cyan c
        @ (if column final > column first then replicate (unat (column final) - p) (CHR ''^'')
           else [CHR ''^''])
        @ fg_reset c)"

definition toStringWithTabs ::
  "rang_styles \<Rightarrow> bool \<Rightarrow> 'a src_file_scheme \<Rightarrow> loc \<Rightarrow> nat \<Rightarrow> string option" where
  "toStringWithTabs c censorForSnapshotTests f l tabs =
     (let censor = (censorForSnapshotTests \<and> isPayload f);
          details = toDetails f l;
          final = line (snd details);
          lineNumPadding = (if final < 100 then 2 else if final < 10000 then 4 else 8 :: nat);
          (hs, elide, ts) = excerpt (line (fst details)) final;
          print = (\<lambda>ln. addLocLine c (unat ln) f tabs lineNumPadding censor);
          dots = newline # printTabs tabs @ replicate lineNumPadding (CHR '' '') @ fgB_black c
            @ '' |'' @ style_reset c @ ''...''
      in Option.bind (all_some (map print hs)) (\<lambda>as.
         Option.bind (all_some (map print ts)) (\<lambda>bs.
           Some (joinLines as @ (if elide then dots else []) @ concat (map (\<lambda>b. newline # b) bs)
             @ (if final = line (fst details) then squiggle c tabs lineNumPadding details else [])))))"

definition printLocDetails :: "detail \<times> detail \<Rightarrow> bool \<Rightarrow> bool \<Rightarrow> string" where
  "printLocDetails details showFull censor =
     (if censor then (if showFull then ''CENSORED:CENSORED-CENSORED:CENSORED'' else ''CENSORED'')
      else if showFull then
        to_string (unat (line (fst details))) @ '':'' @ to_string (unat (column (fst details))) @ ''-''
          @ to_string (unat (line (snd details))) @ '':'' @ to_string (unat (column (snd details)))
      else to_string (unat (line (fst details))))"

definition showRaw :: "bool \<Rightarrow> 'a src_file_scheme \<Rightarrow> loc \<Rightarrow> string" where
  "showRaw censorForSnapshotTests f l =
     (let p0 = (if fileRef l \<noteq> 0 then path f else ''???'');
          p = (if censorForSnapshotTests then censorFilePathForSnapshotTests p0 else p0)
      in if censorForSnapshotTests \<and> starts_with URL_PREFIX p0
         then ''Loc {file='' @ p @ '' start=removed end=removed}''
         else if \<not> loc_exists l then ''Loc {file='' @ p @ '' start=??? end=???}''
         else (let (s, e) = toDetails f l in
           ''Loc {file='' @ p @ '' start='' @ to_string (unat (line s)) @ '':'' @ to_string (unat (column s))
             @ '' end='' @ to_string (unat (line e)) @ '':'' @ to_string (unat (column e)) @ ''}''))"

definition fileShortPosToString :: "bool \<Rightarrow> 'a src_file_scheme \<Rightarrow> loc \<Rightarrow> string" where
  "fileShortPosToString censorForSnapshotTests f l =
     (if fileRef l = 0 then ''???''
      else if loc_exists l then
        printLocDetails (toDetails f l) True (censorForSnapshotTests \<and> isPayload f)
      else [])"

definition showRawLineColumn :: "'a src_file_scheme \<Rightarrow> loc \<Rightarrow> string" where
  "showRawLineColumn f l =
     (if \<not> loc_exists l then ''<>''
      else if beginLoc (offsets l) = endLoc (offsets l) then ''<_>''
      else (let (s, e) = toDetails f l in
        if line s = line e
        then to_string (unat (line s)) @ '':'' @ to_string (unat (column s)) @ ''-'' @ to_string (unat (column e))
        else to_string (unat (line s)) @ '':'' @ to_string (unat (column s)) @ ''-''
          @ to_string (unat (line e)) @ '':'' @ to_string (unat (column e))))"

definition filePosToString :: "bool \<Rightarrow> string \<Rightarrow> 'a src_file_scheme \<Rightarrow> loc \<Rightarrow> bool \<Rightarrow> string" where
  "filePosToString censorForSnapshotTests pathPrefix f l showFull =
     (if fileRef l = 0 then ''???''
      else (let p = getPrintablePath pathPrefix (path f) in
        (if censorForSnapshotTests then censorFilePathForSnapshotTests p else p)
        @ (if loc_exists l then
             (if starts_with ''https://'' p then ''#L'' else '':'')
             @ printLocDetails (toDetails f l) showFull (censorForSnapshotTests \<and> isPayload f)
           else [])))"

lemma count_up_nat:
  assumes "unat l + n < 2 ^ 32"
  shows "map unat (count_up l n) = [unat l..<unat l + n]"
proof -
  have "unat (l + of_nat i) = unat l + i" if "i < n" for i
    using assms that unat_of_nat_u32 [of i] by (simp add: unat_word_ariths)
  then show ?thesis
    by (simp add: count_up_def map_add_upt [symmetric] comp_def add.commute)
qed

lemma excerpt_nat:
  assumes "1 \<le> unat first" "unat first \<le> unat final"
  defines "a \<equiv> unat first - 1" and "z \<equiv> unat final"
  shows "(case excerpt first final of (hs, elide, ts) \<Rightarrow>
     (if a + 10 < z
      then elide \<and> map unat hs = [a..<a + 5] \<and> map unat ts = [z - 5..<z]
      else \<not> elide \<and> map unat hs @ map unat ts = [a..<z]))"
proof -
  let ?fl = "first - 1"
  have fl: "unat ?fl = a"
    using assms(1) by (simp add: a_def unat_sub word_le_nat_alt)
  have az: "a < z" using assms by (simp add: a_def z_def)
  have z32: "z < 2 ^ 32" unfolding z_def using unsigned_less [of final, where 'a = nat] by simp
  have d: "unat (final - ?fl) = z - a"
    using fl az by (simp add: unat_sub word_le_nat_alt z_def)
  define n where "n = min 5 (z - a)"
  let ?li = "?fl + of_nat n"
  have li: "unat ?li = a + n"
    using fl az z32 unat_of_nat_u32 [of n] by (simp add: unat_word_ariths n_def)
  have up: "map unat (count_up ?fl n) = [a..<a + n]"
    using count_up_nat [of ?fl n] fl az z32 by (simp add: n_def)
  have e: "excerpt first final = (let elide = (?li \<noteq> final \<and> ?li < final - 5);
       li' = (if elide then final - 5 else ?li) in (count_up ?fl n, elide, count_up li' (unat (final - li'))))"
    by (simp add: excerpt_def Let_def WINDOW_HALF_SIZE_def WINDOW_SIZE_def d n_def)
  show ?thesis
  proof (cases "a + 10 < z")
    case True
    then have n: "n = 5" by (simp add: n_def)
    have f5: "unat (final - 5) = z - 5"
      using True by (simp add: unat_sub word_le_nat_alt z_def)
    have "?li \<noteq> final" "?li < final - 5"
      using li f5 True n by (auto simp: word_less_nat_alt z_def)
    moreover have "map unat (count_up (final - 5) (unat (final - (final - 5)))) = [z - 5..<z]"
      using count_up_nat [of "final - 5" 5] f5 True z32 by simp
    ultimately show ?thesis
      using True up n e by simp
  next
    case False
    have ne: "\<not> (?li \<noteq> final \<and> ?li < final - 5)"
    proof
      assume lt: "?li \<noteq> final \<and> ?li < final - 5"
      then have "a + n \<noteq> z" using li by (auto simp: word_unat_eq_iff z_def)
      then have n5: "n = 5" "a + 5 < z" using az by (auto simp: n_def min_def split: if_splits)
      then have "unat (final - 5) = z - 5"
        by (simp add: unat_sub word_le_nat_alt z_def)
      with lt li n5 False show False unfolding word_less_nat_alt by linarith
    qed
    have "unat (final - ?li) = z - (a + n)"
      using li az by (simp add: unat_sub word_le_nat_alt z_def n_def)
    moreover have "a + n \<le> z" using az by (simp add: n_def)
    ultimately have "map unat (count_up ?li (unat (final - ?li))) = [a + n..<z]"
      using count_up_nat [of ?li "z - (a + n)"] li z32 by simp
    moreover have "[a..<a + n] @ [a + n..<z] = [a..<z]"
      using az by (metis le_add1 le_add_diff_inverse less_imp_le_nat min.cobounded2 n_def
          nat_add_left_cancel_le upt_add_eq_append)
    ultimately show ?thesis
      using False up e ne by (simp add: Let_def)
  qed
qed

lemma line_of_mono: "a \<le> b \<Longrightarrow> line_of s a \<le> line_of s b"
proof -
  assume "a \<le> b"
  then have "length (takeWhile (\<lambda>x. x < a) xs) \<le> length (takeWhile (\<lambda>x. x < b) xs)" for xs :: "nat list"
    by (induction xs) auto
  then show ?thesis by (simp add: line_of_def)
qed

lemma all_some_total: "\<forall>x\<in>set xs. f x \<noteq> None \<Longrightarrow> \<exists>ys. all_some (map f xs) = Some ys \<and> length ys = length xs"
  by (induction xs) auto

lemma addLocLine_total: "ln < length (findLineBreaks (source f)) \<Longrightarrow> addLocLine c ln f tabs pad cs \<noteq> None"
  by (simp add: addLocLine_def Let_def)

text \<open>Printing a location of a file never reads outside the table of line ends, and the excerpt
  shows every line of the location when there are at most ten, and otherwise the first five, a row
  of dots and the last five.\<close>

lemma toStringWithTabs_excerpt:
  assumes "loc_in f l"
  shows "toStringWithTabs c censor f l tabs \<noteq> None
    \<and> (let a = unat (line (fst (toDetails f l))) - 1; z = unat (line (snd (toDetails f l))) in
       case excerpt (line (fst (toDetails f l))) (line (snd (toDetails f l))) of (hs, elide, ts) \<Rightarrow>
         if z - a \<le> WINDOW_SIZE then \<not> elide \<and> map unat hs @ map unat ts = [a..<z]
         else elide \<and> map unat hs = [a..<a + 5] \<and> map unat ts = [z - 5..<z])"
proof -
  let ?s = "source f"
  let ?a = "unat (line (fst (toDetails f l)))" and ?z = "unat (line (snd (toDetails f l)))"
  note bd = loc_in_bounds [OF assms]
  note m = line_of_spec [OF bd(1,3)]
  have a: "?a = line_of ?s (unat (beginLoc (offsets l))) + 1"
    and z: "?z = line_of ?s (unat (endLoc (offsets l))) + 1"
    using pos2Detail_nat(1) [OF bd(1,4)] pos2Detail_nat(1) [OF bd(1,3)] by (simp_all add: toDetails_def)
  have az: "1 \<le> ?a" "?a \<le> ?z"
    using a z line_of_mono [OF bd(2), of ?s] by simp_all
  obtain hs elide ts where ex:
    "excerpt (line (fst (toDetails f l))) (line (snd (toDetails f l))) = (hs, elide, ts)"
    by (metis prod_cases3)
  have window: "if ?a - 1 + 10 < ?z
      then elide \<and> map unat hs = [?a - 1..<?a - 1 + 5] \<and> map unat ts = [?z - 5..<?z]
      else \<not> elide \<and> map unat hs @ map unat ts = [?a - 1..<?z]"
    using excerpt_nat [OF az] ex by simp
  have "set (map unat hs) \<union> set (map unat ts) \<subseteq> {..<?z}"
  proof (cases "?a - 1 + 10 < ?z")
    case False
    with window have "set (map unat hs @ map unat ts) = set [?a - 1..<?z]" by simp
    then show ?thesis by auto
  qed (use window in auto)
  then have "\<forall>ln\<in>set hs \<union> set ts. unat ln < length (findLineBreaks ?s)"
    using z m(1) by auto
  then have "addLocLine c (unat ln) f tabs pad cs \<noteq> None" if "ln \<in> set hs \<union> set ts" for ln pad cs
    using that addLocLine_total by blast
  then have "\<exists>as. all_some (map (\<lambda>ln. addLocLine c (unat ln) f tabs pad cs) xs) = Some as"
    if "xs = hs \<or> xs = ts" for xs pad cs
    using that all_some_total [of xs "\<lambda>ln. addLocLine c (unat ln) f tabs pad cs"] by auto
  then have "toStringWithTabs c censor f l tabs \<noteq> None"
    by (simp add: toStringWithTabs_def Let_def ex) (metis bind.bind_lunit option.distinct(1))
  moreover have "?z - (?a - 1) \<le> WINDOW_SIZE \<longleftrightarrow> \<not> ?a - 1 + 10 < ?z"
    unfolding WINDOW_SIZE_def by linarith
  ultimately show ?thesis
    using window by (simp add: Let_def ex split: if_splits)
qed

end
