(* ===== verification/ScipSymbols.thy ===== *)
theory ScipSymbols
  imports Prelude
begin

text \<open>
  The strings that name symbols in a SCIP index (\<open>scip_indexer/SCIPUtils.cc\<close>): escaping of descriptor
  names and package fields, the seven descriptor forms, whole symbols, names of local variables and
  the escaping of malformed UTF-8 in documentation.

  A reference reader of the printed form is defined beside the printer, and the strings of
  well-formed symbols are shown to be uniquely readable.
\<close>

section \<open>Descriptors and symbols\<close>

datatype descriptor_suffix =
    UnspecifiedSuffix | Namespace | TypeD | Term | MethodD | TypeParameterD | Parameter | Meta
  | LocalD | Macro

record descriptor =
  d_name :: string
  disambiguator :: string
  suffix :: descriptor_suffix

record package =
  package_name :: string
  package_version :: string

record scip_symbol =
  symbol_package :: "package option"
  descriptors :: "descriptor list"

datatype scip_error = InvalidArgumentError string

definition simple_char :: "char \<Rightarrow> bool" where
  "simple_char c \<longleftrightarrow> (let n = of_char c :: nat in
     (97 \<le> n \<and> n \<le> 122) \<or> (65 \<le> n \<and> n \<le> 90) \<or> (48 \<le> n \<and> n \<le> 57)
     \<or> c = CHR ''+'' \<or> c = CHR ''-'' \<or> c = CHR ''$'' \<or> c = CHR ''_'')"

definition backtick :: char where
  "backtick = CHR 0x60"

text \<open>\<open>StrReplaceAll\<close> of one character by two copies of it.\<close>

definition double_char :: "char \<Rightarrow> string \<Rightarrow> string" where
  "double_char c s = concat (map (\<lambda>x. if x = c then [c, c] else [x]) s)"

text \<open>The flags \<open>needsEscape\<close> and \<open>needsBacktickEscape\<close> after the loop over the characters: every
  special character overwrites the second one.\<close>

definition escape_flags :: "string \<Rightarrow> bool \<times> bool" where
  "escape_flags s =
     foldl (\<lambda>(needsEscape, needsBacktickEscape) c.
        if simple_char c then (needsEscape, needsBacktickEscape) else (True, c = backtick)) (False, False) s"

definition addEscaped :: "string \<Rightarrow> string \<Rightarrow> string" where
  "addEscaped out s =
     (let (needsEscape, needsBacktickEscape) = escape_flags s in
      if needsEscape then
        (if needsBacktickEscape then out @ [backtick] @ double_char backtick s @ [backtick]
         else out @ [backtick] @ s @ [backtick])
      else out @ s)"

definition addSpaceEscaped :: "string \<Rightarrow> string \<Rightarrow> string" where
  "addSpaceEscaped out s =
     (if CHR '' '' \<in> set s then out @ double_char (CHR '' '') s else out @ s)"

text \<open>\<open>Suffix_Name\<close> for the suffixes that have no syntax.  The message is built with \<open>StrCat\<close>, which keeps the
  \<open>%s\<close>.\<close>

definition Suffix_Name :: "descriptor_suffix \<Rightarrow> string" where
  "Suffix_Name x = (case x of UnspecifiedSuffix \<Rightarrow> ''UnspecifiedSuffix'' | LocalD \<Rightarrow> ''Local'' | Macro \<Rightarrow> ''Macro''
     | Namespace \<Rightarrow> ''Namespace'' | TypeD \<Rightarrow> ''Type'' | Term \<Rightarrow> ''Term'' | MethodD \<Rightarrow> ''Method''
     | TypeParameterD \<Rightarrow> ''TypeParameter'' | Parameter \<Rightarrow> ''Parameter'' | Meta \<Rightarrow> ''Meta'')"

definition emitDescriptorString :: "descriptor \<Rightarrow> string \<Rightarrow> (scip_error, string) result" where
  "emitDescriptorString d out = (case suffix d of
     Namespace \<Rightarrow> Inr (addEscaped out (d_name d) @ ''/'')
   | TypeD \<Rightarrow> Inr (addEscaped out (d_name d) @ ''#'')
   | Term \<Rightarrow> Inr (addEscaped out (d_name d) @ ''.'')
   | Meta \<Rightarrow> Inr (addEscaped out (d_name d) @ '':'')
   | MethodD \<Rightarrow> Inr (addEscaped (addEscaped out (d_name d) @ ''('') (disambiguator d) @ '').'')
   | TypeParameterD \<Rightarrow> Inr (addEscaped (out @ ''['') (d_name d) @ '']'')
   | Parameter \<Rightarrow> Inr (addEscaped (out @ ''('') (d_name d) @ '')'')
   | _ \<Rightarrow> Inl (InvalidArgumentError (''unexpected descriptor suffix %s'' @ Suffix_Name (suffix d))))"

fun emitDescriptors :: "descriptor list \<Rightarrow> string \<Rightarrow> (scip_error, string) result" where
  "emitDescriptors [] out = Inr out"
| "emitDescriptors (d # ds) out =
     (case emitDescriptorString d out of Inl e \<Rightarrow> Inl e | Inr out' \<Rightarrow> emitDescriptors ds out')"

definition emitField :: "string \<Rightarrow> string \<Rightarrow> string" where
  "emitField out f = (if f \<noteq> [] then addSpaceEscaped out f @ '' '' else out @ ''. '')"

definition emitSymbolString :: "scip_symbol \<Rightarrow> string \<Rightarrow> (scip_error, string) result" where
  "emitSymbolString s out =
     (let out1 = out @ ''scip-ruby gem '';
          out2 = (case symbol_package s of
             Some p \<Rightarrow> emitField (emitField out1 (package_name p)) (package_version p)
           | None \<Rightarrow> out1 @ ''. . '')
      in if descriptors s = [] then
           Inl (InvalidArgumentError ''expected symbol to have at least 1 descriptor'')
         else emitDescriptors (descriptors s) out2)"

section \<open>Reading descriptors\<close>

text \<open>The grammar of SCIP symbols: a name is a run of simple characters, or stands between
  backticks with its own backticks doubled.\<close>

fun read_quoted :: "string \<Rightarrow> (string \<times> string) option" where
  "read_quoted [] = None"
| "read_quoted [c] = (if c = backtick then Some ([], []) else None)"
| "read_quoted (c # d # s) =
     (if c = backtick then
        (if d = backtick then map_option (\<lambda>(n, r). (backtick # n, r)) (read_quoted s)
         else Some ([], d # s))
      else map_option (\<lambda>(n, r). (c # n, r)) (read_quoted (d # s)))"

definition read_name :: "string \<Rightarrow> (string \<times> string) option" where
  "read_name s = (case s of
     c # r \<Rightarrow> if c = backtick then read_quoted r else Some (takeWhile simple_char s, dropWhile simple_char s)
   | [] \<Rightarrow> Some ([], []))"

definition expect :: "string \<Rightarrow> string \<Rightarrow> string option" where
  "expect t s = (if take (length t) s = t then Some (drop (length t) s) else None)"

definition bracketed :: "descriptor_suffix \<Rightarrow> string \<Rightarrow> string \<Rightarrow> (descriptor \<times> string) option" where
  "bracketed x close s =
     Option.bind (read_name s) (\<lambda>(n, r). Option.bind (expect close r) (\<lambda>r'.
       Some (\<lparr>d_name = n, disambiguator = [], suffix = x\<rparr>, r')))"

definition read_suffix :: "string \<Rightarrow> string \<Rightarrow> (descriptor \<times> string) option" where
  "read_suffix n s = (case s of
     [] \<Rightarrow> None
   | c # r \<Rightarrow>
       if c = CHR ''/'' then Some (\<lparr>d_name = n, disambiguator = [], suffix = Namespace\<rparr>, r)
       else if c = CHR ''#'' then Some (\<lparr>d_name = n, disambiguator = [], suffix = TypeD\<rparr>, r)
       else if c = CHR ''.'' then Some (\<lparr>d_name = n, disambiguator = [], suffix = Term\<rparr>, r)
       else if c = CHR '':'' then Some (\<lparr>d_name = n, disambiguator = [], suffix = Meta\<rparr>, r)
       else if c = CHR ''('' then
         Option.bind (read_name r) (\<lambda>(m, r'). Option.bind (expect '').'' r') (\<lambda>r''.
           Some (\<lparr>d_name = n, disambiguator = m, suffix = MethodD\<rparr>, r'')))
       else None)"

definition read_descriptor :: "string \<Rightarrow> (descriptor \<times> string) option" where
  "read_descriptor s = (case s of
     [] \<Rightarrow> None
   | c # r \<Rightarrow>
       if c = CHR ''['' then bracketed TypeParameterD '']'' r
       else if c = CHR ''('' then bracketed Parameter '')'' r
       else Option.bind (read_name s) (\<lambda>(n, r'). read_suffix n r'))"

text \<open>Names the printer quotes correctly: without a backtick, or with a backtick as the last special
  character.\<close>

definition quotable :: "string \<Rightarrow> bool" where
  "quotable s \<longleftrightarrow> backtick \<notin> set s \<or> snd (escape_flags s)"

definition good_descriptor :: "descriptor \<Rightarrow> bool" where
  "good_descriptor d \<longleftrightarrow> d_name d \<noteq> [] \<and> quotable (d_name d) \<and> quotable (disambiguator d)
     \<and> suffix d \<in> {Namespace, TypeD, Term, Meta, MethodD, TypeParameterD, Parameter}
     \<and> (suffix d \<noteq> MethodD \<longrightarrow> disambiguator d = [])"

section \<open>Prefix codes\<close>

text \<open>A printer whose values can be read back from the front of any text.\<close>

locale prefix_code =
  fixes emit :: "'a \<Rightarrow> string" and read :: "string \<Rightarrow> ('a \<times> string) option" and good :: "'a \<Rightarrow> bool"
  assumes read_emit: "good x \<Longrightarrow> read (emit x @ rest) = Some (x, rest)"
begin

lemma emit_inject:
  assumes "good x" "good y" "emit x @ r = emit y @ t"
  shows "x = y \<and> r = t"
  using read_emit [OF assms(1), of r] read_emit [OF assms(2), of t] assms(3)
  by (metis Pair_inject option.inject)

text \<open>Sequences are uniquely readable as soon as no value is printed as the empty string.\<close>

lemma emit_list_inject:
  assumes "\<forall>x\<in>set xs. good x \<and> emit x \<noteq> []" "\<forall>y\<in>set ys. good y \<and> emit y \<noteq> []"
    and "concat (map emit xs) = concat (map emit ys)"
  shows "xs = ys"
  using assms
proof (induction xs arbitrary: ys)
  case Nil
  then show ?case by (cases ys) auto
next
  case (Cons x xs)
  have "ys \<noteq> []"
    using Cons.prems(1,3) by auto
  then obtain y ys' where ys: "ys = y # ys'"
    by (cases ys) simp_all
  have "emit x @ concat (map emit xs) = emit y @ concat (map emit ys')"
    using Cons.prems(3) unfolding ys by simp
  moreover have "good x" "good y"
    using Cons.prems(1,2) ys by simp_all
  ultimately have xy: "x = y" and rest: "concat (map emit xs) = concat (map emit ys')"
    using emit_inject by blast+
  have "xs = ys'"
    using Cons.prems(1,2) ys by (intro Cons.IH rest) simp_all
  with xy ys show ?case by simp
qed

end

section \<open>Names are read back\<close>

lemma escape_flags_snoc:
  "escape_flags (s @ [c]) = (if simple_char c then escape_flags s else (True, c = backtick))"
  by (simp add: escape_flags_def split: prod.split)

lemma escape_flags_fst: "fst (escape_flags s) \<longleftrightarrow> (\<exists>c\<in>set s. \<not> simple_char c)"
proof (induction s rule: rev_induct)
  case (snoc c s)
  then show ?case by (cases "simple_char c") (auto simp: escape_flags_snoc)
qed (simp add: escape_flags_def)

lemma escape_flags_snd: "snd (escape_flags s) \<Longrightarrow> backtick \<in> set s \<and> fst (escape_flags s)"
proof (induction s rule: rev_induct)
  case (snoc c s)
  then show ?case by (cases "simple_char c") (auto simp: escape_flags_snoc)
qed (simp add: escape_flags_def)

lemma special_chars:
  "\<not> simple_char backtick" "\<not> simple_char (CHR ''/'')" "\<not> simple_char (CHR ''#'')"
  "\<not> simple_char (CHR ''.'')" "\<not> simple_char (CHR '':'')" "\<not> simple_char (CHR ''('')"
  "\<not> simple_char (CHR '')'')" "\<not> simple_char (CHR ''['')" "\<not> simple_char (CHR '']'')"
  "\<not> simple_char (CHR '' '')"
  by (simp_all add: simple_char_def backtick_def)

lemma backtick_neq:
  "CHR ''/'' \<noteq> backtick" "CHR ''#'' \<noteq> backtick" "CHR ''.'' \<noteq> backtick" "CHR '':'' \<noteq> backtick"
  "CHR ''('' \<noteq> backtick" "CHR '')'' \<noteq> backtick" "CHR ''['' \<noteq> backtick" "CHR '']'' \<noteq> backtick"
  by (simp_all add: backtick_def)

lemma double_char_absent: "c \<notin> set s \<Longrightarrow> double_char c s = s"
  by (induction s) (auto simp: double_char_def)

lemma double_char_Cons: "double_char c (x # s) = (if x = c then [c, c] else [x]) @ double_char c s"
  by (simp add: double_char_def)

definition escaped :: "string \<Rightarrow> string" where
  "escaped s = addEscaped [] s"

lemma addEscaped_eq: "addEscaped out s = out @ escaped s"
  by (simp add: addEscaped_def escaped_def split: prod.split)

lemma escaped_quotable:
  assumes "quotable s"
  shows "escaped s = (if \<forall>c\<in>set s. simple_char c then s else backtick # double_char backtick s @ [backtick])"
proof -
  have "double_char backtick s = s" if "\<not> snd (escape_flags s)"
    using assms that by (auto simp: quotable_def double_char_absent)
  then show ?thesis
    using escape_flags_fst [of s]
    by (auto simp: escaped_def addEscaped_def split: prod.split)
qed

definition stops_name :: "string \<Rightarrow> bool" where
  "stops_name r \<longleftrightarrow> (\<exists>c t. r = c # t \<and> \<not> simple_char c \<and> c \<noteq> backtick)"

lemma read_quoted_double:
  assumes "stops_name r"
  shows "read_quoted (double_char backtick s @ backtick # r) = Some (s, r)"
proof (induction s)
  case Nil
  obtain c t where "r = c # t" "c \<noteq> backtick" using assms by (auto simp: stops_name_def)
  then show ?case by (simp add: double_char_def)
next
  case (Cons x s)
  obtain c t where ct: "double_char backtick s @ backtick # r = c # t"
    by (cases "double_char backtick s") auto
  show ?case
  proof (cases "x = backtick")
    case True
    with Cons show ?thesis by (simp add: double_char_Cons)
  next
    case False
    with Cons ct show ?thesis by (simp add: double_char_Cons)
  qed
qed

lemma read_name_escaped:
  assumes "quotable s" "stops_name r"
  shows "read_name (escaped s @ r) = Some (s, r)"
proof (cases "\<forall>c\<in>set s. simple_char c")
  case True
  obtain c t where r: "r = c # t" "\<not> simple_char c" "c \<noteq> backtick"
    using assms(2) by (auto simp: stops_name_def)
  have "\<exists>x y. s @ r = x # y \<and> x \<noteq> backtick"
    using r True special_chars(1) by (cases s) auto
  then have "read_name (s @ r) = Some (takeWhile simple_char (s @ r), dropWhile simple_char (s @ r))"
    by (auto simp only: read_name_def list.case if_False)
  moreover have "takeWhile simple_char (s @ r) = s" "dropWhile simple_char (s @ r) = r"
    using True r by (simp_all add: takeWhile_append2 dropWhile_append2)
  ultimately show ?thesis
    using True escaped_quotable [OF assms(1)] by simp
next
  case False
  then have "escaped s = backtick # double_char backtick s @ [backtick]"
    using escaped_quotable [OF assms(1)] by (simp only: if_False)
  then show ?thesis
    using read_quoted_double [OF assms(2), of s] by (simp add: read_name_def)
qed

lemma stops_suffix [simp]:
  "stops_name (CHR ''/'' # t)" "stops_name (CHR ''#'' # t)" "stops_name (CHR ''.'' # t)"
  "stops_name (CHR '':'' # t)" "stops_name (CHR ''('' # t)" "stops_name (CHR '')'' # t)"
  "stops_name (CHR '']'' # t)"
  by (simp_all add: stops_name_def special_chars backtick_neq)

lemma escaped_head:
  assumes "s \<noteq> []"
  obtains c t where "escaped s = c # t" "simple_char c \<or> c = backtick"
proof (cases "fst (escape_flags s)")
  case True
  then have "\<exists>t. escaped s = backtick # t"
    by (auto simp: escaped_def addEscaped_def split: prod.split)
  with that show thesis by blast
next
  case False
  then have "escaped s = s" "\<forall>c\<in>set s. simple_char c"
    using escape_flags_fst [of s] by (auto simp: escaped_def addEscaped_def split: prod.split)
  with assms that show thesis by (cases s) auto
qed

section \<open>Descriptors and symbols are read back\<close>

definition descriptor_string :: "descriptor \<Rightarrow> string" where
  "descriptor_string d = (case emitDescriptorString d [] of Inl e \<Rightarrow> [] | Inr s \<Rightarrow> s)"

lemma emitDescriptorString_good:
  "good_descriptor d \<Longrightarrow> emitDescriptorString d out = Inr (out @ descriptor_string d)"
  by (auto simp: good_descriptor_def descriptor_string_def emitDescriptorString_def addEscaped_eq)

lemma named_descriptor:
  assumes "n \<noteq> []" "quotable n" "stops_name r"
  shows "read_descriptor (escaped n @ r) = read_suffix n r"
proof -
  obtain c t where ct: "escaped n = c # t" "simple_char c \<or> c = backtick"
    using escaped_head [OF assms(1)] by blast
  then have "c \<noteq> CHR ''[''" "c \<noteq> CHR ''(''"
    using special_chars backtick_neq by auto
  then have "read_descriptor (escaped n @ r) = Option.bind (read_name (escaped n @ r)) (\<lambda>(n, r'). read_suffix n r')"
    using ct(1) by (simp add: read_descriptor_def)
  then show ?thesis
    using read_name_escaped [OF assms(2,3)] by simp
qed

lemma descriptor_reads:
  assumes "good_descriptor d"
  shows "read_descriptor (descriptor_string d @ rest) = Some (d, rest)"
proof -
  have n: "d_name d \<noteq> []" "quotable (d_name d)" "quotable (disambiguator d)"
    using assms by (auto simp: good_descriptor_def)
  note named = named_descriptor [OF n(1,2)] and name = read_name_escaped [OF n(2)]
    and dis = read_name_escaped [OF n(3)]
  have d: "suffix d \<in> {Namespace, TypeD, Term, Meta, MethodD, TypeParameterD, Parameter}"
    "suffix d \<noteq> MethodD \<longrightarrow> disambiguator d = []"
    using assms by (auto simp: good_descriptor_def)
  show ?thesis
  proof (cases "suffix d = TypeParameterD \<or> suffix d = Parameter")
    case True
    with d name show ?thesis
      by (auto simp: descriptor_string_def emitDescriptorString_def addEscaped_eq read_descriptor_def
          bracketed_def expect_def)
  next
    case False
    with d named dis show ?thesis
      by (auto simp: descriptor_string_def emitDescriptorString_def addEscaped_eq read_suffix_def expect_def)
  qed
qed

interpretation descr: prefix_code descriptor_string read_descriptor good_descriptor
  by unfold_locales (rule descriptor_reads)

lemma descriptor_string_nonempty:
  assumes "good_descriptor d"
  shows "\<exists>c t. descriptor_string d = c # t \<and> c \<noteq> CHR '' ''"
proof -
  obtain c t where "escaped (d_name d) = c # t" "simple_char c \<or> c = backtick"
    using escaped_head [of "d_name d"] assms by (auto simp: good_descriptor_def)
  moreover have "c \<noteq> CHR '' ''"
    using calculation(2) special_chars(10) by (auto simp: backtick_def)
  ultimately show ?thesis
    using assms by (auto simp: good_descriptor_def descriptor_string_def emitDescriptorString_def addEscaped_eq)
qed

lemma emitDescriptors_good:
  "\<forall>d\<in>set ds. good_descriptor d \<Longrightarrow> emitDescriptors ds out = Inr (out @ concat (map descriptor_string ds))"
  by (induction ds arbitrary: out) (auto simp: emitDescriptorString_good)

text \<open>Package fields: a field ends at a single space, doubled spaces stand for one.\<close>

fun read_field :: "string \<Rightarrow> (string \<times> string) option" where
  "read_field [] = None"
| "read_field [c] = (if c = CHR '' '' then Some ([], []) else None)"
| "read_field (c # d # s) =
     (if c = CHR '' '' then
        (if d = CHR '' '' then map_option (\<lambda>(n, r). (CHR '' '' # n, r)) (read_field s)
         else Some ([], d # s))
      else map_option (\<lambda>(n, r). (c # n, r)) (read_field (d # s)))"

lemma read_field_double:
  assumes "r = [] \<or> hd r \<noteq> CHR '' ''"
  shows "read_field (double_char (CHR '' '') s @ CHR '' '' # r) = Some (s, r)"
proof (induction s)
  case Nil
  show ?case using assms by (cases r) (auto simp: double_char_def)
next
  case (Cons x s)
  obtain c t where ct: "double_char (CHR '' '') s @ CHR '' '' # r = c # t"
    by (cases "double_char (CHR '' '') s") auto
  show ?case
    using Cons ct by (cases "x = CHR '' ''") (simp_all add: double_char_Cons)
qed

lemma emitField_eq: "f \<noteq> [] \<Longrightarrow> emitField out f = out @ double_char (CHR '' '') f @ '' ''"
  by (auto simp: emitField_def addSpaceEscaped_def double_char_absent)

text \<open>Well-formed symbols: a package with a name and a version, the version not beginning with a
  space, and at least one descriptor, all of them good.\<close>

definition good_symbol :: "scip_symbol \<Rightarrow> bool" where
  "good_symbol s \<longleftrightarrow> (case symbol_package s of
       None \<Rightarrow> False
     | Some p \<Rightarrow> package_name p \<noteq> [] \<and> package_version p \<noteq> [] \<and> hd (package_version p) \<noteq> CHR '' '')
     \<and> descriptors s \<noteq> [] \<and> (\<forall>d\<in>set (descriptors s). good_descriptor d)"

lemma double_char_hd: "s \<noteq> [] \<Longrightarrow> hd s \<noteq> c \<Longrightarrow> double_char c s \<noteq> [] \<and> hd (double_char c s) \<noteq> c"
  by (cases s) (auto simp: double_char_def)

lemma emitSymbolString_good:
  assumes "good_symbol s" "symbol_package s = Some p"
  shows "emitSymbolString s [] = Inr (''scip-ruby gem '' @ double_char (CHR '' '') (package_name p) @ CHR '' '' #
     double_char (CHR '' '') (package_version p) @ CHR '' '' # concat (map descriptor_string (descriptors s)))"
  using assms
  by (simp add: good_symbol_def emitSymbolString_def Let_def emitField_eq emitDescriptors_good)

lemma good_symbol_fields:
  assumes "good_symbol s" "symbol_package s = Some p"
  defines "ds \<equiv> concat (map descriptor_string (descriptors s))"
  shows "read_field (double_char (CHR '' '') (package_name p) @ CHR '' '' #
       double_char (CHR '' '') (package_version p) @ CHR '' '' # ds)
     = Some (package_name p, double_char (CHR '' '') (package_version p) @ CHR '' '' # ds)"
    and "read_field (double_char (CHR '' '') (package_version p) @ CHR '' '' # ds) = Some (package_version p, ds)"
proof -
  have "package_version p \<noteq> []" "hd (package_version p) \<noteq> CHR '' ''"
    using assms by (auto simp: good_symbol_def)
  then show "read_field (double_char (CHR '' '') (package_name p) @ CHR '' '' #
       double_char (CHR '' '') (package_version p) @ CHR '' '' # ds)
     = Some (package_name p, double_char (CHR '' '') (package_version p) @ CHR '' '' # ds)"
    using double_char_hd by (intro read_field_double) simp
  obtain d ds' where dd: "descriptors s = d # ds'" "good_descriptor d"
    using assms by (cases "descriptors s") (auto simp: good_symbol_def)
  obtain c t where "descriptor_string d = c # t" "c \<noteq> CHR '' ''"
    using descriptor_string_nonempty [OF dd(2)] by blast
  then show "read_field (double_char (CHR '' '') (package_version p) @ CHR '' '' # ds) = Some (package_version p, ds)"
    using dd(1) by (intro read_field_double) (simp add: ds_def)
qed

text \<open>C6: the strings of SCIP symbols identify the symbols: two well-formed symbols (with a package, a
  version that does not begin with a space, non-empty names, and in every name that contains a
  backtick a backtick as the last special character) get the same string only if they are equal,
  and emitting their strings never fails.\<close>

theorem symbol_string_identifies:
  assumes "good_symbol s" "good_symbol t"
  shows "(\<exists>str. emitSymbolString s [] = Inr str)
     \<and> (emitSymbolString s [] = emitSymbolString t [] \<longrightarrow> s = t)"
proof (intro conjI impI)
  obtain p q where pq: "symbol_package s = Some p" "symbol_package t = Some q"
    using assms by (auto simp: good_symbol_def split: option.splits)
  note es = emitSymbolString_good [OF assms(1) pq(1)] and et = emitSymbolString_good [OF assms(2) pq(2)]
  show "\<exists>str. emitSymbolString s [] = Inr str" using es by blast
  assume eq: "emitSymbolString s [] = emitSymbolString t []"
  have e: "double_char (CHR '' '') (package_name p) @ CHR '' '' #
       double_char (CHR '' '') (package_version p) @ CHR '' '' # concat (map descriptor_string (descriptors s))
     = double_char (CHR '' '') (package_name q) @ CHR '' '' #
       double_char (CHR '' '') (package_version q) @ CHR '' '' # concat (map descriptor_string (descriptors t))"
    using eq unfolding es et by simp
  have n: "package_name p = package_name q"
    and v: "double_char (CHR '' '') (package_version p) @ CHR '' '' # concat (map descriptor_string (descriptors s))
     = double_char (CHR '' '') (package_version q) @ CHR '' '' # concat (map descriptor_string (descriptors t))"
    using good_symbol_fields(1) [OF assms(1) pq(1)] good_symbol_fields(1) [OF assms(2) pq(2)]
    unfolding e by simp_all
  have w: "package_version p = package_version q"
    and d: "concat (map descriptor_string (descriptors s)) = concat (map descriptor_string (descriptors t))"
    using good_symbol_fields(2) [OF assms(1) pq(1)] good_symbol_fields(2) [OF assms(2) pq(2)]
    unfolding v by simp_all
  have "descriptors s = descriptors t"
    using descr.emit_list_inject [OF _ _ d] assms descriptor_string_nonempty
    by (fastforce simp: good_symbol_def)
  with n w pq show "s = t" by simp
qed

definition term_descriptor :: "string \<Rightarrow> descriptor" where
  "term_descriptor n = \<lparr>d_name = n, disambiguator = [], suffix = Term\<rparr>"

definition gem_symbol :: "descriptor list \<Rightarrow> scip_symbol" where
  "gem_symbol ds = \<lparr>symbol_package = Some \<lparr>package_name = ''my gem'', package_version = ''1.0''\<rparr>,
     descriptors = ds\<rparr>"

theorem symbol_string_identifies_witness:
  "emitSymbolString (gem_symbol [term_descriptor ''a b'']) [] \<noteq>
     emitSymbolString (gem_symbol [term_descriptor (''a '' @ [backtick])]) []"
proof -
  have "quotable ''a b''" "quotable (''a '' @ [backtick])" "quotable []"
    by (simp_all add: quotable_def escape_flags_def simple_char_def backtick_def)
  then have "good_symbol (gem_symbol [term_descriptor ''a b''])"
    "good_symbol (gem_symbol [term_descriptor (''a '' @ [backtick])])"
    by (simp_all add: good_symbol_def gem_symbol_def good_descriptor_def term_descriptor_def)
  from symbol_string_identifies [OF this] show ?thesis
    by (auto simp: gem_symbol_def term_descriptor_def backtick_def)
qed

text \<open>The restriction on backticks is needed: the flag that asks for doubling is overwritten by the
  next special character, so a single descriptor whose name holds a backtick before another special
  character gets the string of two other descriptors.\<close>

lemma backtick_collision:
  "\<exists>n m k. term_descriptor n \<noteq> term_descriptor m
     \<and> emitSymbolString (gem_symbol [term_descriptor n]) []
       = emitSymbolString (gem_symbol [term_descriptor m, term_descriptor k]) []"
proof -
  let ?n = "''x y'' @ [backtick] @ ''.'' @ [backtick] @ ''z w''"
  have f: "escape_flags ''x y'' = (True, False)" "escape_flags ''z w'' = (True, False)"
    "escape_flags ?n = (True, False)"
    by (simp_all add: escape_flags_def simple_char_def backtick_def)
  have "escaped ''x y'' = backtick # ''x y'' @ [backtick]" "escaped ''z w'' = backtick # ''z w'' @ [backtick]"
    "escaped ?n = backtick # ?n @ [backtick]"
    unfolding escaped_def addEscaped_def f by simp_all
  then have "emitSymbolString (gem_symbol [term_descriptor ?n]) []
      = emitSymbolString (gem_symbol [term_descriptor ''x y'', term_descriptor ''z w'']) []"
    by (simp add: emitSymbolString_def gem_symbol_def Let_def emitDescriptorString_def term_descriptor_def
        addEscaped_eq)
  moreover have "term_descriptor ?n \<noteq> term_descriptor ''x y''"
    by (simp add: term_descriptor_def)
  ultimately show ?thesis by blast
qed

section \<open>Local variables\<close>

text \<open>\<open>char\<close> is signed, so \<open>uint32_t(c)\<close> extends the sign.\<close>

definition fnv1a_32 :: "string \<Rightarrow> u32" where
  "fnv1a_32 s = foldl (\<lambda>h c. (h XOR scast (byte_of_char c)) * 16777619) 2166136261 s"

text \<open>\<open>showFullName\<close> of the owner is an argument.\<close>

definition toSCIPString :: "u32 \<Rightarrow> string \<Rightarrow> string" where
  "toSCIPString counter ownerFullName =
     ''local '' @ to_string (unat counter) @ ''$'' @ to_string (unat (fnv1a_32 ownerFullName))"

section \<open>Malformed UTF-8\<close>

text \<open>\<open>decode\<close> stands for \<open>rapidjson::UTF8<>::Decode\<close>: the number of bytes of the first character of a
  text, or \<open>None\<close>.  A decoder that consumed nothing would make the loop run for ever.\<close>

definition octal_escape :: "u8 \<Rightarrow> string" where
  "octal_escape b = [CHR 0x5C, char_of_byte (48 + (drop_bit 6 b AND 7)),
     char_of_byte (48 + (drop_bit 3 b AND 7)), char_of_byte (48 + (b AND 7))]"

partial_function (option) escapeInvalidUtf8 :: "(string \<Rightarrow> nat option) \<Rightarrow> string \<Rightarrow> string option" where
  "escapeInvalidUtf8 decode text =
     (case text of
        [] \<Rightarrow> Some []
      | c # rest \<Rightarrow>
          if byte_of_char c < 0x80 then Option.bind (escapeInvalidUtf8 decode rest) (\<lambda>r. Some (c # r))
          else (case decode text of
             Some n \<Rightarrow> Option.bind (escapeInvalidUtf8 decode (drop n text)) (\<lambda>r. Some (take n text @ r))
           | None \<Rightarrow> Option.bind (escapeInvalidUtf8 decode rest) (\<lambda>r. Some (octal_escape (byte_of_char c) @ r))))"

text \<open>What the code relies on: a successful decoding consumes at least one and at most all bytes, and
  depends only on the bytes it consumes.\<close>

definition consumes :: "(string \<Rightarrow> nat option) \<Rightarrow> bool" where
  "consumes decode \<longleftrightarrow> (\<forall>t n. decode t = Some n \<longrightarrow> 0 < n \<and> n \<le> length t)"

definition prefix_only :: "(string \<Rightarrow> nat option) \<Rightarrow> bool" where
  "prefix_only decode \<longleftrightarrow> (\<forall>t n r. decode t = Some n \<longrightarrow> decode (take n t @ r) = Some n)"

inductive valid_utf8 :: "(string \<Rightarrow> nat option) \<Rightarrow> string \<Rightarrow> bool" for decode where
  valid_nil: "valid_utf8 decode []"
| valid_ascii: "byte_of_char c < 0x80 \<Longrightarrow> valid_utf8 decode s \<Longrightarrow> valid_utf8 decode (c # s)"
| valid_multi: "\<not> byte_of_char c < 0x80 \<Longrightarrow> decode (c # s) = Some n \<Longrightarrow> valid_utf8 decode (drop n (c # s))
    \<Longrightarrow> valid_utf8 decode (c # s)"

lemma octal_digit: "byte_of_char (char_of_byte (48 + (b AND 7))) < (0x80 :: u8)"
proof -
  have "b AND 7 = take_bit 3 b"
    by (simp add: take_bit_eq_mask mask_eq_exp_minus_1)
  then have "b AND 7 \<le> 7"
    by (metis word_and_le1)
  then show ?thesis
    by (simp add: word_le_nat_alt word_less_nat_alt unat_word_ariths)
qed

lemma valid_octal: "valid_utf8 decode s \<Longrightarrow> valid_utf8 decode (octal_escape b @ s)"
  using octal_digit by (auto simp: octal_escape_def byte_of_char_def intro!: valid_ascii)

inductive_cases valid_ConsE: "valid_utf8 decode (c # s)"

lemma escapeInvalidUtf8_unfold:
  "escapeInvalidUtf8 decode [] = Some []"
  "byte_of_char c < 0x80 \<Longrightarrow> escapeInvalidUtf8 decode (c # s) =
     Option.bind (escapeInvalidUtf8 decode s) (\<lambda>r. Some (c # r))"
  "\<not> byte_of_char c < 0x80 \<Longrightarrow> decode (c # s) = Some n \<Longrightarrow> escapeInvalidUtf8 decode (c # s) =
     Option.bind (escapeInvalidUtf8 decode (drop n (c # s))) (\<lambda>r. Some (take n (c # s) @ r))"
  "\<not> byte_of_char c < 0x80 \<Longrightarrow> decode (c # s) = None \<Longrightarrow> escapeInvalidUtf8 decode (c # s) =
     Option.bind (escapeInvalidUtf8 decode s) (\<lambda>r. Some (octal_escape (byte_of_char c) @ r))"
  by (simp_all add: escapeInvalidUtf8.simps [of decode "c # s"] escapeInvalidUtf8.simps [of decode "[]"])

lemma valid_utf8_prefix:
  assumes "consumes decode" "prefix_only decode" "\<not> byte_of_char c < 0x80" "decode (c # s) = Some n"
    and "valid_utf8 decode q"
  shows "valid_utf8 decode (take n (c # s) @ q)"
proof -
  have n: "0 < n" "n \<le> length (c # s)"
    using assms(1,4) unfolding consumes_def by blast+
  obtain s' where s': "take n (c # s) @ q = c # s'"
    using n(1) by (cases n) auto
  have "decode (c # s') = Some n"
    using assms(2,4) s' by (metis prefix_only_def)
  moreover have "drop n (c # s') = q"
    using s' [symmetric] n(2) by simp
  ultimately show ?thesis
    using assms(3,5) unfolding s' by (metis valid_multi)
qed

text \<open>C38: escaping of documentation always terminates and yields well-formed UTF-8, and text that is
  well-formed already is left as it is.\<close>

theorem escapeInvalidUtf8_valid:
  assumes "consumes decode" "prefix_only decode"
  shows "\<exists>out. escapeInvalidUtf8 decode t = Some out \<and> valid_utf8 decode out
     \<and> (valid_utf8 decode t \<longrightarrow> out = t)"
proof (induction "length t" arbitrary: t rule: less_induct)
  case less
  show ?case
  proof (cases t)
    case Nil
    then show ?thesis by (simp add: escapeInvalidUtf8_unfold valid_nil)
  next
    case (Cons c s)
    obtain r where r: "escapeInvalidUtf8 decode s = Some r" "valid_utf8 decode r" "valid_utf8 decode s \<longrightarrow> r = s"
      using less [of s] Cons by auto
    consider "byte_of_char c < 0x80" | "\<not> byte_of_char c < 0x80" "decode (c # s) = None"
      | n where "\<not> byte_of_char c < 0x80" "decode (c # s) = Some n"
      by (cases "decode (c # s)") auto
    then show ?thesis
    proof cases
      case 1
      with r Cons show ?thesis
        by (auto simp: escapeInvalidUtf8_unfold intro: valid_ascii elim: valid_ConsE)
    next
      case 2
      with r Cons show ?thesis
        by (auto simp: escapeInvalidUtf8_unfold intro: valid_octal elim: valid_ConsE)
    next
      case 3
      then have n: "0 < n" "n \<le> length (c # s)"
        using assms(1) unfolding consumes_def by blast+
      obtain q where q: "escapeInvalidUtf8 decode (drop n (c # s)) = Some q" "valid_utf8 decode q"
        "valid_utf8 decode (drop n (c # s)) \<longrightarrow> q = drop n (c # s)"
        using less [of "drop n (c # s)"] Cons n by auto
      have "valid_utf8 decode (take n (c # s) @ q)"
        by (rule valid_utf8_prefix [OF assms 3 q(2)])
      moreover have "take n (c # s) @ q = c # s" if "valid_utf8 decode (c # s)"
        using that
      proof (rule valid_ConsE)
        fix m assume "decode (c # s) = Some m" "valid_utf8 decode (drop m (c # s))"
        with 3(2) q(3) show ?thesis by simp
      qed (use 3(1) in simp)
      ultimately show ?thesis
        using Cons q(1) 3 by (simp add: escapeInvalidUtf8_unfold)
    qed
  qed
qed

definition decode_latin :: "string \<Rightarrow> nat option" where
  "decode_latin t = (case t of a # b # r \<Rightarrow> if a = CHR 0xC3 then Some 2 else None | _ \<Rightarrow> None)"

theorem escapeInvalidUtf8_valid_witness:
  "\<exists>out. escapeInvalidUtf8 decode_latin [CHR ''a'', CHR 0xC3, CHR 0xA9, CHR 0xFF] = Some out
     \<and> valid_utf8 decode_latin out"
proof -
  have "consumes decode_latin" "prefix_only decode_latin"
    by (auto simp: consumes_def prefix_only_def decode_latin_def split: list.splits if_splits)
  from escapeInvalidUtf8_valid [OF this, of "[CHR ''a'', CHR 0xC3, CHR 0xA9, CHR 0xFF]"]
  show ?thesis by blast
qed

end
