(* ===== verification/ScipProto.thy ===== *)
theory ScipProto
  imports ScipSymbols "HOL-Library.Multiset"
begin

text \<open>
  The messages of a SCIP index and their comparison functions (\<open>scip_indexer/SCIPProtoExt.cc\<close>), by which
  the indexer sorts the occurrences, symbols and relationships it writes.

  Enumerators and the numbers of a range are integers; they are small and not negative, so that the
  32-bit differences of the code do not overflow.
\<close>

section \<open>Messages\<close>

record diagnostic =
  severity :: int
  diag_code :: string
  message :: string
  diag_source :: string
  tags :: "int list"

record occurrence =
  range :: "int list"
  occ_symbol :: string
  symbol_roles :: int
  override_documentation :: "string list"
  syntax_kind :: int
  diagnostics :: "diagnostic list"
  enclosing_range :: "int list"

record relationship =
  rel_symbol :: string
  is_reference :: bool
  is_implementation :: bool
  is_type_definition :: bool
  is_definition :: bool

record symbol_information =
  info_symbol :: string
  documentation :: "string list"
  relationships :: "relationship list"

section \<open>Comparison functions\<close>

text \<open>The macro \<open>CHECK_CMP\<close>: return the first comparison that is not 0, else go on.\<close>

definition check_cmp :: "int \<Rightarrow> int \<Rightarrow> int" where
  "check_cmp c rest = (if c \<noteq> 0 then c else rest)"

definition cmp_int :: "int \<Rightarrow> int \<Rightarrow> int" where
  "cmp_int a b = a - b"

text \<open>\<open>std::string::compare\<close> orders by the unsigned values of the bytes, a prefix first.\<close>

fun cmp_string :: "string \<Rightarrow> string \<Rightarrow> int" where
  "cmp_string [] [] = 0"
| "cmp_string [] (_ # _) = - 1"
| "cmp_string (_ # _) [] = 1"
| "cmp_string (a # s) (b # t) =
     check_cmp (int (of_char a) - int (of_char b)) (cmp_string s t)"

text \<open>The pattern used for every repeated field: the sizes first, then the elements in order.\<close>

fun cmp_elements :: "('a \<Rightarrow> 'a \<Rightarrow> int) \<Rightarrow> 'a list \<Rightarrow> 'a list \<Rightarrow> int" where
  "cmp_elements f (x # xs) (y # ys) = check_cmp (f x y) (cmp_elements f xs ys)"
| "cmp_elements f _ _ = 0"

definition cmp_repeated :: "('a \<Rightarrow> 'a \<Rightarrow> int) \<Rightarrow> 'a list \<Rightarrow> 'a list \<Rightarrow> int" where
  "cmp_repeated f xs ys = check_cmp (int (length xs) - int (length ys)) (cmp_elements f xs ys)"

definition compareBool :: "bool \<Rightarrow> bool \<Rightarrow> int" where
  "compareBool b1 b2 = of_bool b1 - of_bool b2"

definition compareDiagnostic :: "diagnostic \<Rightarrow> diagnostic \<Rightarrow> int" where
  "compareDiagnostic d1 d2 =
     check_cmp (cmp_int (severity d1) (severity d2))
     (check_cmp (cmp_string (diag_code d1) (diag_code d2))
     (check_cmp (cmp_string (message d1) (message d2))
     (check_cmp (cmp_string (diag_source d1) (diag_source d2))
     (cmp_repeated cmp_int (tags d1) (tags d2)))))"

definition compareOccurrence :: "occurrence \<Rightarrow> occurrence \<Rightarrow> int" where
  "compareOccurrence o1 o2 =
     check_cmp (cmp_repeated cmp_int (range o1) (range o2))
     (check_cmp (cmp_string (occ_symbol o1) (occ_symbol o2))
     (check_cmp (cmp_int (symbol_roles o1) (symbol_roles o2))
     (check_cmp (cmp_repeated cmp_string (override_documentation o1) (override_documentation o2))
     (check_cmp (cmp_int (syntax_kind o1) (syntax_kind o2))
     (cmp_repeated compareDiagnostic (diagnostics o1) (diagnostics o2))))))"

definition compareRelationship :: "relationship \<Rightarrow> relationship \<Rightarrow> int" where
  "compareRelationship r1 r2 =
     check_cmp (cmp_string (rel_symbol r1) (rel_symbol r2))
     (check_cmp (compareBool (is_reference r1) (is_reference r2))
     (check_cmp (compareBool (is_implementation r1) (is_implementation r2))
     (check_cmp (compareBool (is_type_definition r1) (is_type_definition r2))
     (compareBool (is_definition r1) (is_definition r2)))))"

definition compareSymbolInformation :: "symbol_information \<Rightarrow> symbol_information \<Rightarrow> int" where
  "compareSymbolInformation s1 s2 =
     check_cmp (cmp_string (info_symbol s1) (info_symbol s2))
     (check_cmp (cmp_repeated cmp_string (documentation s1) (documentation s2))
     (cmp_repeated compareRelationship (relationships s1) (relationships s2)))"

section \<open>Comparators\<close>

text \<open>What a sort needs of a three-way comparison: swapping the arguments swaps the sign, and
  \<open>\<le> 0\<close> is transitive.  Equality of the comparison is equality under a view \<open>key\<close> of the values.\<close>

locale comparator =
  fixes cmp :: "'a \<Rightarrow> 'a \<Rightarrow> int" and key :: "'a \<Rightarrow> 'k"
  assumes cmp_flip: "cmp y x < 0 \<longleftrightarrow> 0 < cmp x y"
    and cmp_trans: "cmp x y \<le> 0 \<Longrightarrow> cmp y z \<le> 0 \<Longrightarrow> cmp x z \<le> 0"
    and cmp_zero: "cmp x y = 0 \<longleftrightarrow> key x = key y"
begin

lemma cmp_less_trans:
  assumes "cmp x y < 0" "cmp y z \<le> 0"
  shows "cmp x z < 0"
proof (rule ccontr)
  assume "\<not> cmp x z < 0"
  then have "cmp z x \<le> 0" using cmp_flip by (metis not_less)
  with assms(2) have "cmp y x \<le> 0" using cmp_trans by blast
  with assms(1) show False using cmp_flip by (metis not_less)
qed

lemma cmp_le_less_trans:
  assumes "cmp x y \<le> 0" "cmp y z < 0"
  shows "cmp x z < 0"
proof (rule ccontr)
  assume "\<not> cmp x z < 0"
  then have "cmp z x \<le> 0" using cmp_flip by (metis not_less)
  with assms(1) have "cmp z y \<le> 0" using cmp_trans by blast
  with assms(2) show False using cmp_flip by (metis not_less)
qed

text \<open>A list sorted by the comparison; two sorted permutations agree on what the comparison sees.\<close>

lemma sorted_unique:
  assumes "sorted_wrt (\<lambda>x y. cmp x y \<le> 0) xs" "sorted_wrt (\<lambda>x y. cmp x y \<le> 0) ys"
    and "image_mset key (mset xs) = image_mset key (mset ys)"
  shows "map key xs = map key ys"
  using assms
proof (induction xs arbitrary: ys)
  case Nil
  then show ?case by (cases ys) auto
next
  case (Cons x xs)
  then obtain y ys' where ys: "ys = y # ys'"
    by (cases ys) auto
  have le: "cmp a b \<le> 0"
    if s: "sorted_wrt (\<lambda>x y. cmp x y \<le> 0) (a # as)" and k: "key b \<in> key ` set (a # as)" for a b as
  proof -
    obtain c where c: "c \<in> set (a # as)" "key b = key c" using k by auto
    then have "cmp a c \<le> 0" using s cmp_zero [of a a] by auto
    moreover have "cmp c b \<le> 0" using c(2) cmp_zero [of c b] by simp
    ultimately show ?thesis using cmp_trans by blast
  qed
  have sets: "key ` set (x # xs) = key ` set ys"
    using Cons.prems(3) by (metis set_image_mset set_mset_mset)
  have "key y \<in> key ` set (x # xs)" "key x \<in> key ` set (y # ys')"
    unfolding sets ys by (simp, metis sets ys image_eqI list.set_intros(1))
  then have "cmp x y \<le> 0" "cmp y x \<le> 0"
    using le [OF Cons.prems(1)] le [of y ys' x] Cons.prems(2) ys by auto
  then have k: "key x = key y"
    using cmp_flip cmp_zero by (metis le_less not_less)
  then have "map key xs = map key ys'"
    using Cons.prems ys by (intro Cons.IH) auto
  with k ys show ?case by simp
qed

end

lemma check_cmp_simps:
  "check_cmp a b = 0 \<longleftrightarrow> a = 0 \<and> b = 0"
  "check_cmp a b < 0 \<longleftrightarrow> a < 0 \<or> (a = 0 \<and> b < 0)"
  "0 < check_cmp a b \<longleftrightarrow> 0 < a \<or> (a = 0 \<and> 0 < b)"
  "check_cmp a b \<le> 0 \<longleftrightarrow> a < 0 \<or> (a = 0 \<and> b \<le> 0)"
  by (auto simp: check_cmp_def)

text \<open>Comparators compose: comparing a field, and comparing first one way and then another.\<close>

lemma comparator_field:
  assumes "comparator f k"
  shows "comparator (\<lambda>x y. f (p x) (p y)) (\<lambda>x. k (p x))"
  using assms unfolding comparator_def by blast

lemma check_flip:
  assumes "comparator f k" "a < 0 \<longleftrightarrow> 0 < b"
  shows "check_cmp (f y x) a < 0 \<longleftrightarrow> 0 < check_cmp (f x y) b"
  using comparator.cmp_flip [OF assms(1), of y x] comparator.cmp_zero [OF assms(1), of x y]
    comparator.cmp_zero [OF assms(1), of y x] assms(2)
  by (auto simp: check_cmp_simps)

lemma check_trans:
  assumes "comparator f k" "check_cmp (f x y) a \<le> 0" "check_cmp (f y z) b \<le> 0"
    and "a \<le> 0 \<Longrightarrow> b \<le> 0 \<Longrightarrow> c \<le> 0"
  shows "check_cmp (f x z) c \<le> 0"
proof -
  have "f x y < 0 \<or> (f x y = 0 \<and> a \<le> 0)" "f y z < 0 \<or> (f y z = 0 \<and> b \<le> 0)"
    using assms(2,3) by (simp_all add: check_cmp_simps)
  then consider "f x y < 0" "f y z \<le> 0" | "f x y \<le> 0" "f y z < 0" | "f x y = 0" "f y z = 0" "c \<le> 0"
    using assms(4) by fastforce
  then show ?thesis
  proof cases
    case 3
    then have "f x z = 0" using comparator.cmp_zero [OF assms(1)] by metis
    with 3 show ?thesis by (simp add: check_cmp_simps)
  qed (use comparator.cmp_less_trans [OF assms(1), of x y z]
      comparator.cmp_le_less_trans [OF assms(1), of x y z] in \<open>simp_all add: check_cmp_simps\<close>)
qed

lemma comparator_then:
  assumes "comparator f k" "comparator g l"
  shows "comparator (\<lambda>x y. check_cmp (f x y) (g x y)) (\<lambda>x. (k x, l x))"
proof
  fix x y z
  show "check_cmp (f y x) (g y x) < 0 \<longleftrightarrow> 0 < check_cmp (f x y) (g x y)"
    by (rule check_flip [OF assms(1) comparator.cmp_flip [OF assms(2)]])
  show "check_cmp (f x y) (g x y) = 0 \<longleftrightarrow> (k x, l x) = (k y, l y)"
    using comparator.cmp_zero [OF assms(1)] comparator.cmp_zero [OF assms(2)]
    by (simp add: check_cmp_simps)
  show "check_cmp (f x z) (g x z) \<le> 0"
    if "check_cmp (f x y) (g x y) \<le> 0" "check_cmp (f y z) (g y z) \<le> 0"
    using check_trans [OF assms(1) that] comparator.cmp_trans [OF assms(2)] by blast
qed

interpretation ints: comparator cmp_int "\<lambda>x. x"
  by unfold_locales (auto simp: cmp_int_def)

interpretation bools: comparator compareBool "\<lambda>x. x"
  by unfold_locales (auto simp: compareBool_def)

interpretation bytes: comparator "\<lambda>a b. int (of_char a) - int (of_char b)" "\<lambda>x :: char. x"
  by unfold_locales auto

lemma cmp_string_flip: "cmp_string t s < 0 \<longleftrightarrow> 0 < cmp_string s t"
proof (induction s t rule: cmp_string.induct)
  case (4 a s b t)
  then show ?case using check_flip [OF bytes.comparator_axioms 4] by simp
qed auto

lemma cmp_string_zero: "cmp_string s t = 0 \<longleftrightarrow> s = t"
  by (induction s t rule: cmp_string.induct) (auto simp: check_cmp_simps)

lemma cmp_string_trans: "cmp_string s t \<le> 0 \<Longrightarrow> cmp_string t u \<le> 0 \<Longrightarrow> cmp_string s u \<le> 0"
proof (induction s u arbitrary: t rule: cmp_string.induct)
  case (4 a s b u)
  then obtain c r where t: "t = c # r" by (cases t) auto
  show ?case
    using check_trans [OF bytes.comparator_axioms, of a c "cmp_string s r" b "cmp_string r u" "cmp_string s u"]
      4 t by auto
next
  case (3 a s)
  then show ?case by (cases t) auto
qed auto

interpretation strings: comparator cmp_string "\<lambda>x. x"
  by unfold_locales (auto simp: cmp_string_flip cmp_string_zero intro: cmp_string_trans)

lemma cmp_elements_flip:
  assumes "comparator f k"
  shows "cmp_elements f ys xs < 0 \<longleftrightarrow> 0 < cmp_elements f xs ys"
proof (induction xs arbitrary: ys)
  case (Cons x xs)
  then show ?case
    by (cases ys) (auto simp: check_flip [OF assms Cons])
qed simp

lemma cmp_elements_zero:
  assumes "comparator f k"
  shows "length xs = length ys \<Longrightarrow> cmp_elements f xs ys = 0 \<longleftrightarrow> map k xs = map k ys"
  by (induction xs ys rule: list_induct2) (auto simp: check_cmp_simps comparator.cmp_zero [OF assms])

lemma cmp_elements_trans:
  assumes "comparator f k"
  shows "length xs = length ys \<Longrightarrow> length ys = length zs \<Longrightarrow> cmp_elements f xs ys \<le> 0
      \<Longrightarrow> cmp_elements f ys zs \<le> 0 \<Longrightarrow> cmp_elements f xs zs \<le> 0"
proof (induction xs ys zs rule: list_induct3)
  case (Cons x xs y ys z zs)
  then show ?case
    using check_trans [OF assms, of x y "cmp_elements f xs ys" z "cmp_elements f ys zs" "cmp_elements f xs zs"]
    by auto
qed simp

lemma comparator_repeated:
  assumes "comparator f k"
  shows "comparator (cmp_repeated f) (map k)"
proof
  fix xs ys zs
  let ?d = "\<lambda>xs ys. int (length xs) - int (length ys)"
  note e = cmp_elements_flip [OF assms] and z = cmp_elements_zero [OF assms] and t = cmp_elements_trans [OF assms]
  show "cmp_repeated f ys xs < 0 \<longleftrightarrow> 0 < cmp_repeated f xs ys"
    using e [of ys xs] by (auto simp: cmp_repeated_def check_cmp_simps)
  show "cmp_repeated f xs ys = 0 \<longleftrightarrow> map k xs = map k ys"
    using z [of xs ys] by (auto simp: cmp_repeated_def check_cmp_simps dest: map_eq_imp_length_eq)
  show "cmp_repeated f xs zs \<le> 0" if "cmp_repeated f xs ys \<le> 0" "cmp_repeated f ys zs \<le> 0"
    using that t [of xs ys zs] by (auto simp: cmp_repeated_def check_cmp_simps)
qed

section \<open>The comparisons of the messages\<close>

lemmas cmp_int_field = comparator_field [OF ints.comparator_axioms]
lemmas cmp_bool_field = comparator_field [OF bools.comparator_axioms]
lemmas cmp_string_field = comparator_field [OF strings.comparator_axioms]
lemmas cmp_ints_field = comparator_field [OF comparator_repeated [OF ints.comparator_axioms], simplified]
lemmas cmp_strings_field = comparator_field [OF comparator_repeated [OF strings.comparator_axioms], simplified]

definition diag_key :: "diagnostic \<Rightarrow> _" where
  "diag_key d = (severity d, diag_code d, message d, diag_source d, tags d)"

interpretation diags: comparator compareDiagnostic diag_key
  unfolding compareDiagnostic_def diag_key_def
  by (rule comparator_then [OF cmp_int_field [of severity] comparator_then [OF cmp_string_field [of diag_code]
      comparator_then [OF cmp_string_field [of message] comparator_then [OF cmp_string_field [of diag_source]
      cmp_ints_field [of tags]]]]])

lemmas cmp_diags_field = comparator_field [OF comparator_repeated [OF diags.comparator_axioms]]

text \<open>All that the comparison of occurrences looks at: everything but the enclosing range.\<close>

definition occ_key :: "occurrence \<Rightarrow> _" where
  "occ_key oc = (range oc, occ_symbol oc, symbol_roles oc, override_documentation oc, syntax_kind oc,
     map diag_key (diagnostics oc))"

interpretation occs: comparator compareOccurrence occ_key
  unfolding compareOccurrence_def occ_key_def
  by (rule comparator_then [OF cmp_ints_field [of range] comparator_then [OF cmp_string_field [of occ_symbol]
      comparator_then [OF cmp_int_field [of symbol_roles] comparator_then [OF
      cmp_strings_field [of override_documentation] comparator_then [OF cmp_int_field [of syntax_kind]
      cmp_diags_field [of diagnostics]]]]]])

definition rel_key :: "relationship \<Rightarrow> _" where
  "rel_key r = (rel_symbol r, is_reference r, is_implementation r, is_type_definition r, is_definition r)"

interpretation rels: comparator compareRelationship rel_key
  unfolding compareRelationship_def rel_key_def
  by (rule comparator_then [OF cmp_string_field [of rel_symbol] comparator_then [OF cmp_bool_field [of is_reference]
      comparator_then [OF cmp_bool_field [of is_implementation] comparator_then [OF
      cmp_bool_field [of is_type_definition] cmp_bool_field [of is_definition]]]]])

lemmas cmp_rels_field = comparator_field [OF comparator_repeated [OF rels.comparator_axioms]]

definition info_key :: "symbol_information \<Rightarrow> _" where
  "info_key s = (info_symbol s, documentation s, map rel_key (relationships s))"

interpretation infos: comparator compareSymbolInformation info_key
  unfolding compareSymbolInformation_def info_key_def
  by (rule comparator_then [OF cmp_string_field [of info_symbol] comparator_then [OF
      cmp_strings_field [of documentation] cmp_rels_field [of relationships]]])

lemma diag_key_inj: "diag_key d = diag_key e \<longleftrightarrow> d = (e :: diagnostic)"
  by (cases d, cases e) (auto simp: diag_key_def)

lemma rel_key_inj: "rel_key r = rel_key t \<longleftrightarrow> r = (t :: relationship)"
  by (cases r, cases t) (auto simp: rel_key_def)

lemma info_key_inj: "info_key s = info_key t \<longleftrightarrow> s = (t :: symbol_information)"
proof -
  have "inj rel_key" by (auto simp: inj_def rel_key_inj)
  then show ?thesis
    by (cases s, cases t) (auto simp: info_key_def inj_map_eq_map)
qed

lemma occ_key_inj:
  "occ_key a = occ_key b \<longleftrightarrow> a\<lparr>enclosing_range := []\<rparr> = (b\<lparr>enclosing_range := []\<rparr> :: occurrence)"
proof -
  have "inj diag_key" by (auto simp: inj_def diag_key_inj)
  then show ?thesis
    by (cases a, cases b) (auto simp: occ_key_def inj_map_eq_map)
qed

section \<open>Sorting\<close>

text \<open>\<open>fast_sort\<close> (an unstable comparison sort of the library) is modelled by insertion into a sorted
  list; any other sorted permutation agrees with it up to values the comparison identifies.\<close>

primrec insert_by :: "('a \<Rightarrow> 'a \<Rightarrow> int) \<Rightarrow> 'a \<Rightarrow> 'a list \<Rightarrow> 'a list" where
  "insert_by cmp x [] = [x]"
| "insert_by cmp x (y # ys) = (if cmp y x < 0 then y # insert_by cmp x ys else x # y # ys)"

definition fast_sort :: "('a \<Rightarrow> 'a \<Rightarrow> int) \<Rightarrow> 'a list \<Rightarrow> 'a list" where
  "fast_sort cmp xs = foldr (insert_by cmp) xs []"

context comparator
begin

lemma mset_insert_by: "mset (insert_by cmp x ys) = add_mset x (mset ys)"
  by (induction ys) auto

lemma set_insert_by [simp]: "set (insert_by cmp x ys) = insert x (set ys)"
  using mset_insert_by [of x ys] by (metis set_mset_add_mset_insert set_mset_mset)

lemma sorted_insert_by:
  "sorted_wrt (\<lambda>x y. cmp x y \<le> 0) ys \<Longrightarrow> sorted_wrt (\<lambda>x y. cmp x y \<le> 0) (insert_by cmp x ys)"
proof (induction ys)
  case (Cons y ys)
  show ?case
  proof (cases "cmp y x < 0")
    case True
    with Cons show ?thesis by auto
  next
    case False
    then have "cmp x y \<le> 0" using cmp_flip by (metis not_less)
    with Cons False show ?thesis using cmp_trans by auto
  qed
qed simp

lemma fast_sort_sorted: "sorted_wrt (\<lambda>x y. cmp x y \<le> 0) (fast_sort cmp xs)"
  unfolding fast_sort_def by (induction xs) (auto intro: sorted_insert_by)

lemma fast_sort_mset: "mset (fast_sort cmp xs) = mset xs"
  unfolding fast_sort_def by (induction xs) (auto simp: mset_insert_by)

text \<open>Any sort: a sorted permutation is the modelled one, up to what the comparison identifies.\<close>

lemma fast_sort_unique:
  assumes "mset ys = mset xs" "sorted_wrt (\<lambda>x y. cmp x y \<le> 0) ys"
  shows "map key ys = map key (fast_sort cmp xs)"
  using sorted_unique [OF assms(2) fast_sort_sorted [of xs]] assms(1) by (simp add: fast_sort_mset)

end

text \<open>C33: sorting makes the written index independent of the order in which the indexer met the
  symbols: two runs that collect the same symbol information in different orders write the same
  list, whatever sorting algorithm is used.\<close>

theorem symbols_written_in_one_order:
  assumes "mset xs = mset ys"
    and "mset zs = mset ys" "sorted_wrt (\<lambda>a b. compareSymbolInformation a b \<le> 0) zs"
  shows "fast_sort compareSymbolInformation xs = zs"
proof -
  have "map info_key zs = map info_key (fast_sort compareSymbolInformation xs)"
    using infos.fast_sort_unique [OF _ assms(3), of xs] assms(1,2) by simp
  moreover have "inj info_key"
    by (auto simp: inj_def info_key_inj)
  ultimately show ?thesis by (metis inj_map_eq_map)
qed

definition info_named :: "string \<Rightarrow> symbol_information" where
  "info_named n = \<lparr>info_symbol = n, documentation = [], relationships = []\<rparr>"

theorem symbols_written_in_one_order_witness:
  "fast_sort compareSymbolInformation [info_named ''b'', info_named ''a''] = [info_named ''a'', info_named ''b'']"
  by (rule symbols_written_in_one_order [where ys = "[info_named ''a'', info_named ''b'']"])
    (simp_all add: info_named_def compareSymbolInformation_def check_cmp_def cmp_repeated_def)

end
