(* ===== verification/ScipGems.thy ===== *)
theory ScipGems
  imports FilePaths
begin

text \<open>
  Names and versions of gems (\<open>scip_indexer/SCIPGemMetadata.cc\<close>): parsing \<open>name@version\<close>, lockfiles and
  gemspecs, choosing the metadata of the indexed project and the gem that owns a file.

  The file system is an argument: the listed paths, the contents of a file, the current directory.
  The regular expressions of the source are written as the matchers below; each is anchored at both
  ends and its groups are determined by the line.
\<close>

section \<open>Splitting text\<close>

text \<open>\<open>std::getline\<close> until the stream is exhausted: a final line without a newline counts if it is not
  empty.\<close>

function lines_of :: "string \<Rightarrow> string list" where
  "lines_of s = (if s = [] then []
     else takeWhile (\<lambda>c. c \<noteq> newline) s # lines_of (drop 1 (dropWhile (\<lambda>c. c \<noteq> newline) s)))"
  by pat_completeness auto

termination
proof (relation "measure length", goal_cases)
  case (2 s)
  then show ?case
    using length_dropWhile_le [of "\<lambda>c. c \<noteq> newline" s] by (cases s) auto
qed simp

declare lines_of.simps [simp del]

text \<open>\<open>absl::StrSplit\<close> at a character.\<close>

fun str_split :: "char \<Rightarrow> string \<Rightarrow> string list" where
  "str_split c [] = [[]]"
| "str_split c (x # s) = (if x = c then [] # str_split c s
     else (case str_split c s of [] \<Rightarrow> [[x]] | p # ps \<Rightarrow> (x # p) # ps))"

definition contains :: "string \<Rightarrow> string \<Rightarrow> bool" where
  "contains pat s \<longleftrightarrow> find_string pat s 0 \<noteq> None"

section \<open>Gem metadata\<close>

record gem_metadata =
  gem_name :: string
  gem_version :: string

text \<open>The constants of type \<open>GemMetadataError\<close>; only the first has kind \<open>Error\<close>.\<close>

datatype gem_error =
    configNotFoundError | multipleGemspecWarning | failedToParseGemspecWarning
  | failedToParseNameFromGemspecWarning | failedToParseVersionFromGemspecWarning
  | failedToParseGemfileLockWarning

definition tryParse :: "string \<Rightarrow> gem_metadata option" where
  "tryParse nameAndVersion = (case str_split (CHR ''@'') nameAndVersion of
     [n, v] \<Rightarrow> if n = [] \<or> v = [] then None else Some \<lparr>gem_name = n, gem_version = v\<rparr>
   | _ \<Rightarrow> None)"

lemma str_split_ne: "str_split c s \<noteq> []"
  by (cases s) (auto split: list.split)

lemma str_split_absent: "c \<notin> set s \<Longrightarrow> str_split c s = [s]"
  by (induction s) auto

lemma str_split_append: "c \<notin> set s \<Longrightarrow> str_split c (s @ c # t) = s # str_split c t"
  by (induction s) auto

lemma str_split_parts: "p \<in> set (str_split c s) \<Longrightarrow> c \<notin> set p"
  by (induction s arbitrary: p) (auto split: if_splits list.splits)

lemma str_split_two: "str_split c s = [a, b] \<Longrightarrow> s = a @ c # b"
proof (induction s arbitrary: a)
  case (Cons x s)
  show ?case
  proof (cases "x = c")
    case True
    with Cons.prems have "a = []" "str_split c s = [b]" by auto
    moreover have "str_split c s = [b] \<Longrightarrow> s = b" for s
      by (induction s arbitrary: b) (auto split: if_splits list.splits simp: str_split_ne)
    ultimately show ?thesis using True by simp
  next
    case False
    with Cons.prems obtain p where "str_split c s = [p, b]" "a = x # p"
      by (auto split: list.splits simp: str_split_ne)
    with Cons.IH show ?thesis by simp
  qed
qed simp

text \<open>\<open>tryParse\<close> accepts exactly the strings with a single at sign and something on both sides of
  it, and splits them there.\<close>

lemma tryParse_iff:
  "tryParse s = Some g \<longleftrightarrow>
     s = gem_name g @ CHR ''@'' # gem_version g \<and> gem_name g \<noteq> [] \<and> gem_version g \<noteq> []
     \<and> CHR ''@'' \<notin> set (gem_name g) \<and> CHR ''@'' \<notin> set (gem_version g)"
  (is "_ \<longleftrightarrow> ?r")
proof
  assume "tryParse s = Some g"
  then obtain n v where nv: "str_split (CHR ''@'') s = [n, v]" "n \<noteq> []" "v \<noteq> []"
    "g = \<lparr>gem_name = n, gem_version = v\<rparr>"
    by (auto simp: tryParse_def split: list.splits if_splits)
  with str_split_two [OF nv(1)] str_split_parts [of n "CHR ''@''" s] str_split_parts [of v "CHR ''@''" s]
  show ?r by simp
next
  assume r: ?r
  then have "str_split (CHR ''@'') s = [gem_name g, gem_version g]"
    using str_split_append str_split_absent by metis
  with r show "tryParse s = Some g"
    by (simp add: tryParse_def)
qed

section \<open>Lockfiles and gemspecs\<close>

definition is_space :: "char \<Rightarrow> bool" where
  "is_space c \<longleftrightarrow> of_char c \<in> {9, 10, 11, 12, 13, 32 :: nat}"

definition word_char :: "char \<Rightarrow> bool" where
  "word_char c \<longleftrightarrow> (let n = of_char c :: nat in (65 \<le> n \<and> n \<le> 90) \<or> (97 \<le> n \<and> n \<le> 122)
     \<or> (48 \<le> n \<and> n \<le> 57) \<or> c = CHR ''_'' \<or> c = CHR ''-'')"

text \<open>Blanks, a name of word characters, blanks, and a non-empty text in parentheses that are the last
  thing on the line but blanks.  A dot of a regular expression matches no line terminator.\<close>

definition match_spec_line :: "string \<Rightarrow> (string \<times> string) option" where
  "match_spec_line l =
     (let r1 = dropWhile is_space l;
          n = takeWhile word_char r1;
          r2 = dropWhile is_space (dropWhile word_char r1);
          r3 = rev (dropWhile is_space (rev r2));
          body = drop 1 (butlast r3)
      in if l = r1 \<or> n = [] \<or> r2 = [] \<or> hd r2 \<noteq> CHR ''('' \<or> length r3 < 3 \<or> last r3 \<noteq> CHR '')''
           \<or> CHR 0x0D \<in> set body \<or> newline \<in> set body
         then None else Some (n, body))"

fun lockLoop :: "string list \<Rightarrow> bool \<Rightarrow> bool \<Rightarrow> (string \<times> string) option" where
  "lockLoop [] sawPATH sawSpecs = None"
| "lockLoop (l # ls) sawPATH sawSpecs =
     (if starts_with ''PATH'' l then lockLoop ls True sawSpecs
      else if sawPATH \<and> contains ''specs:'' l then lockLoop ls sawPATH True
      else if sawSpecs then match_spec_line l
      else lockLoop ls sawPATH sawSpecs)"

definition readFromGemfileLock :: "string \<Rightarrow> gem_metadata \<times> gem_error list" where
  "readFromGemfileLock contents = (case lockLoop (lines_of contents) False False of
     Some (n, v) \<Rightarrow> (\<lparr>gem_name = n, gem_version = v\<rparr>, [])
   | None \<Rightarrow> (\<lparr>gem_name = [], gem_version = []\<rparr>, [failedToParseGemfileLockWarning]))"

definition is_quote :: "char \<Rightarrow> bool" where
  "is_quote c \<longleftrightarrow> c = CHR 0x22 \<or> c = CHR 0x27"

definition no_line_end :: "string \<Rightarrow> bool" where
  "no_line_end s \<longleftrightarrow> CHR 0x0D \<notin> set s \<and> newline \<notin> set s"

text \<open>Blanks, a quote, a non-empty text, a quote, and optionally one character and \<open>freeze\<close>.\<close>

definition match_string_key :: "string \<Rightarrow> string option" where
  "match_string_key e =
     (let r = dropWhile is_space e; n = length r in
      if r = [] \<or> \<not> is_quote (hd r) then None
      else if n \<ge> 3 \<and> is_quote (last r) \<and> no_line_end (drop 1 (butlast r)) then Some (drop 1 (butlast r))
      else if n \<ge> 10 \<and> ends_with ''freeze'' r \<and> is_quote (r ! (n - 8)) \<and> no_line_end [r ! (n - 7)]
           \<and> no_line_end (drop 1 (take (n - 8) r))
      then Some (drop 1 (take (n - 8) r))
      else None)"

definition readValue :: "string \<Rightarrow> string" where
  "readValue l = (case str_split (CHR ''='') l of
     [a, b] \<Rightarrow> (case match_string_key b of Some v \<Rightarrow> v | None \<Rightarrow> [])
   | _ \<Rightarrow> [])"

fun gemspecLoop ::
  "string list \<Rightarrow> string option \<Rightarrow> string option \<Rightarrow> gem_error list
    \<Rightarrow> string option \<times> string option \<times> gem_error list" where
  "gemspecLoop [] nm ver errors = (nm, ver, errors)"
| "gemspecLoop (l # ls) nm ver errors =
     (if nm \<noteq> None \<and> ver \<noteq> None then (nm, ver, errors)
      else (let readName = (nm = None \<and> contains ''.name ='' l);
                nm' = (if readName then Some (readValue l) else nm)
            in if readName \<and> readValue l = []
               then gemspecLoop ls nm' ver (errors @ [failedToParseNameFromGemspecWarning])
               else (let readVersion = (ver = None \<and> contains ''.version ='' l);
                         ver' = (if readVersion then Some (readValue l) else ver)
                     in if readVersion \<and> readValue l = []
                        then gemspecLoop ls nm' ver' (errors @ [failedToParseVersionFromGemspecWarning])
                        else gemspecLoop ls nm' ver' errors)))"

definition value_or :: "'a option \<Rightarrow> 'a \<Rightarrow> 'a" where
  "value_or x d = (case x of Some v \<Rightarrow> v | None \<Rightarrow> d)"

definition readFromGemspec :: "string \<Rightarrow> gem_metadata \<times> gem_error list" where
  "readFromGemspec contents =
     (let (nm, ver, errors) = gemspecLoop (lines_of contents) None None [];
          errors' = (if nm = None \<or> ver = None then errors @ [failedToParseGemspecWarning] else errors)
      in (\<lparr>gem_name = value_or nm [], gem_version = value_or ver []\<rparr>, errors'))"

section \<open>The metadata of the project\<close>

text \<open>The last component of the current directory once trailing slashes are removed.\<close>

definition currentDirName :: "string \<Rightarrow> string" where
  "currentDirName dir = rev (takeWhile (\<lambda>c. c \<noteq> CHR ''/'') (dropWhile (\<lambda>c. c = CHR ''/'') (rev dir)))"

definition strip_suffix :: "string \<Rightarrow> string \<Rightarrow> string" where
  "strip_suffix suf s = (if ends_with suf s then take (length s - length suf) s else s)"

definition nonempty_or :: "string \<Rightarrow> string option \<Rightarrow> string option" where
  "nonempty_or s old = (if s = [] then old else Some s)"

definition readFromConfig :: "string list \<Rightarrow> (string \<Rightarrow> string) \<Rightarrow> string \<Rightarrow> gem_metadata \<times> gem_error list" where
  "readFromConfig paths readFile currentDir =
     (if paths = [] then (\<lparr>gem_name = currentDirName currentDir, gem_version = ''latest''\<rparr>, [configNotFoundError])
      else
        (let lock = find (ends_with ''Gemfile.lock'') paths;
             spec = find (ends_with ''.gemspec'') paths;
             (m1, e1) = (case lock of Some p \<Rightarrow> readFromGemfileLock (readFile p)
                | None \<Rightarrow> (\<lparr>gem_name = [], gem_version = []\<rparr>, []))
         in if lock \<noteq> None \<and> gem_name m1 \<noteq> [] \<and> gem_version m1 \<noteq> [] then (m1, [])
            else
              (let nm1 = nonempty_or (gem_name m1) None; ver1 = nonempty_or (gem_version m1) None;
                   (m2, e2) = (case spec of Some p \<Rightarrow> readFromGemspec (readFile p)
                      | None \<Rightarrow> (\<lparr>gem_name = [], gem_version = []\<rparr>, []))
               in if spec \<noteq> None \<and> gem_name m2 \<noteq> [] \<and> gem_version m2 \<noteq> [] then (m2, [])
                  else
                    (let nm2 = nonempty_or (gem_name m2) nm1; ver2 = nonempty_or (gem_version m2) ver1;
                         errors = (if nm2 \<noteq> None \<and> ver2 \<noteq> None then [] else e1 @ e2);
                         gemspecPath = value_or spec [];
                         nm3 = (if nm2 = None \<and> gemspecPath \<noteq> []
                                then Some (strip_suffix ''.gemspec'' (last (str_split (CHR ''/'') gemspecPath)))
                                else nm2)
                     in (\<lparr>gem_name = value_or nm3 (currentDirName currentDir),
                          gem_version = value_or ver2 ''latest''\<rparr>, errors)))))"

lemma str_split_app:
  "c \<notin> set w \<Longrightarrow> str_split c (q @ w) = butlast (str_split c q) @ [last (str_split c q) @ w]"
proof (induction q)
  case (Cons x q)
  show ?case
  proof (cases "str_split c q")
    case (Cons p ps)
    with Cons.IH Cons.prems show ?thesis by (cases ps) auto
  qed (simp add: str_split_ne)
qed (simp add: str_split_absent)

lemma str_split_last: "c \<notin> set w \<Longrightarrow> last (str_split c (q @ w)) = last (str_split c q) @ w"
  by (simp add: str_split_app)

lemma strip_suffix_app: "strip_suffix suf (t @ suf) = t"
  by (auto simp: strip_suffix_def ends_with_iff)

lemma nonempty_or_ne: "nonempty_or s old = Some v \<Longrightarrow> old \<noteq> Some [] \<Longrightarrow> v \<noteq> []"
  by (auto simp: nonempty_or_def split: if_splits)

text \<open>The project always gets a version; it gets a name too, unless the current directory is the
  root or the gemspec has no name but its extension.\<close>

lemma readFromConfig_named:
  "gem_version (fst (readFromConfig paths readFile dir)) \<noteq> []
   \<and> (gem_name (fst (readFromConfig paths readFile dir)) = [] \<longrightarrow>
        currentDirName dir = []
        \<or> (\<exists>p\<in>set paths. last (str_split (CHR ''/'') p) = ''.gemspec''))"
proof (cases "paths = []")
  case True
  then show ?thesis by (simp add: readFromConfig_def)
next
  case False
  define lock where "lock = find (ends_with ''Gemfile.lock'') paths"
  define spec where "spec = find (ends_with ''.gemspec'') paths"
  define r1 where "r1 = (case lock of Some p \<Rightarrow> readFromGemfileLock (readFile p)
    | None \<Rightarrow> (\<lparr>gem_name = [], gem_version = []\<rparr>, []))"
  define r2 where "r2 = (case spec of Some p \<Rightarrow> readFromGemspec (readFile p)
    | None \<Rightarrow> (\<lparr>gem_name = [], gem_version = []\<rparr>, []))"
  define nm2 where "nm2 = nonempty_or (gem_name (fst r2)) (nonempty_or (gem_name (fst r1)) None)"
  define ver2 where "ver2 = nonempty_or (gem_version (fst r2)) (nonempty_or (gem_version (fst r1)) None)"
  define nm3 where "nm3 = (if nm2 = None \<and> value_or spec [] \<noteq> []
    then Some (strip_suffix ''.gemspec'' (last (str_split (CHR ''/'') (value_or spec [])))) else nm2)"
  have result: "fst (readFromConfig paths readFile dir) =
     (if lock \<noteq> None \<and> gem_name (fst r1) \<noteq> [] \<and> gem_version (fst r1) \<noteq> [] then fst r1
      else if spec \<noteq> None \<and> gem_name (fst r2) \<noteq> [] \<and> gem_version (fst r2) \<noteq> [] then fst r2
      else \<lparr>gem_name = value_or nm3 (currentDirName dir), gem_version = value_or ver2 ''latest''\<rparr>)"
    using False unfolding readFromConfig_def nm3_def nm2_def ver2_def Let_def lock_def [symmetric]
      spec_def [symmetric] r1_def [symmetric] r2_def [symmetric]
    by (simp add: case_prod_beta)
  have "value_or ver2 ''latest'' \<noteq> []"
    by (auto simp: ver2_def value_or_def nonempty_or_def)
  moreover have "\<exists>p\<in>set paths. last (str_split (CHR ''/'') p) = ''.gemspec''"
    if "value_or nm3 (currentDirName dir) = []" "currentDirName dir \<noteq> []"
  proof -
    have "nm2 \<noteq> Some []" by (auto simp: nm2_def nonempty_or_def)
    with that have sp: "value_or spec [] \<noteq> []"
      "strip_suffix ''.gemspec'' (last (str_split (CHR ''/'') (value_or spec []))) = []"
      by (auto simp: nm3_def value_or_def split: if_splits option.splits)
    then obtain p where p: "spec = Some p" by (auto simp: value_or_def split: option.splits)
    then have "p \<in> set paths" "ends_with ''.gemspec'' p"
      unfolding spec_def by (auto simp: find_Some_iff)
    moreover have "last (str_split (CHR ''/'') p) = ''.gemspec''"
    proof -
      obtain q where "p = q @ ''.gemspec''"
        using \<open>ends_with ''.gemspec'' p\<close> by (auto simp: ends_with_iff)
      then have "last (str_split (CHR ''/'') p) = last (str_split (CHR ''/'') q) @ ''.gemspec''"
        using str_split_last [of "CHR ''/''" "''.gemspec''" q] by simp
      then show ?thesis
        using sp(2) p strip_suffix_app by (metis append_Nil option.simps(5) value_or_def)
    qed
    ultimately show ?thesis by blast
  qed
  ultimately have d: "value_or ver2 ''latest'' \<noteq> [] \<and> (value_or nm3 (currentDirName dir) = [] \<longrightarrow>
      currentDirName dir = [] \<or> (\<exists>p\<in>set paths. last (str_split (CHR ''/'') p) = ''.gemspec''))"
    by blast
  consider "lock \<noteq> None \<and> gem_name (fst r1) \<noteq> [] \<and> gem_version (fst r1) \<noteq> []"
    | "\<not> (lock \<noteq> None \<and> gem_name (fst r1) \<noteq> [] \<and> gem_version (fst r1) \<noteq> [])"
      "spec \<noteq> None \<and> gem_name (fst r2) \<noteq> [] \<and> gem_version (fst r2) \<noteq> []"
    | "\<not> (lock \<noteq> None \<and> gem_name (fst r1) \<noteq> [] \<and> gem_version (fst r1) \<noteq> [])"
      "\<not> (spec \<noteq> None \<and> gem_name (fst r2) \<noteq> [] \<and> gem_version (fst r2) \<noteq> [])"
    by blast
  then show ?thesis
  proof cases
    case 3
    with d show ?thesis unfolding result by (simp only: if_False gem_metadata.simps) simp
  qed (simp_all add: result)
qed

section \<open>Compatibility with old runtimes\<close>

definition is_digit :: "char \<Rightarrow> bool" where
  "is_digit c \<longleftrightarrow> 48 \<le> (of_char c :: nat) \<and> (of_char c :: nat) \<le> 57"

definition decimal :: "string \<Rightarrow> nat" where
  "decimal s = foldl (\<lambda>n c. 10 * n + (of_char c - 48)) 0 s"

text \<open>\<open>SimpleAtoi\<close> into a \<open>uint32_t\<close>, on a non-empty run of digits.\<close>

definition SimpleAtoi :: "string \<Rightarrow> nat option" where
  "SimpleAtoi s = (if decimal s < 2 ^ 32 then Some (decimal s) else None)"

definition runtime_prefix :: string where
  "runtime_prefix = ''    sorbet-runtime (''"

text \<open>Three runs of digits between the prefix and a final parenthesis.\<close>

definition released_version :: "string \<Rightarrow> (string \<times> string \<times> string) option" where
  "released_version l =
     (let r = drop (length runtime_prefix) l;
          a = takeWhile is_digit r; r1 = dropWhile is_digit r;
          b = takeWhile is_digit (drop 1 r1); r2 = dropWhile is_digit (drop 1 r1);
          c = takeWhile is_digit (drop 1 r2); r3 = dropWhile is_digit (drop 1 r2)
      in if starts_with runtime_prefix l \<and> a \<noteq> [] \<and> take 1 r1 = ''.'' \<and> b \<noteq> [] \<and> take 1 r2 = ''.''
           \<and> c \<noteq> [] \<and> r3 = '')''
         then Some (a, b, c) else None)"

definition pinned :: "string \<Rightarrow> (nat \<times> nat \<times> nat) option" where
  "pinned l = Option.bind (released_version l) (\<lambda>(a, b, c).
     Option.bind (SimpleAtoi a) (\<lambda>x. Option.bind (SimpleAtoi b) (\<lambda>y. Option.bind (SimpleAtoi c) (\<lambda>z.
       Some (x, y, z)))))"

definition version_less :: "nat \<times> nat \<times> nat \<Rightarrow> nat \<times> nat \<times> nat \<Rightarrow> bool" where
  "version_less v w = (case (v, w) of ((a, b, c), (x, y, z)) \<Rightarrow>
     a < x \<or> (a = x \<and> (b < y \<or> (b = y \<and> c < z))))"

definition chop_cr :: "string \<Rightarrow> string" where
  "chop_cr l = (if l \<noteq> [] \<and> last l = CHR 0x0D then butlast l else l)"

text \<open>The loop returns \<open>None\<close> for the early \<open>return false\<close>, and otherwise the final pin.\<close>

fun legacyLoop :: "string list \<Rightarrow> string \<Rightarrow> bool \<Rightarrow> (nat \<times> nat \<times> nat) option \<Rightarrow> (nat \<times> nat \<times> nat) option option" where
  "legacyLoop [] sect specs pin = Some pin"
| "legacyLoop (l0 # ls) sect specs pin =
     (let l = chop_cr l0 in
      if l \<noteq> [] \<and> hd l \<noteq> CHR '' '' then legacyLoop ls l False pin
      else if l = ''  specs:'' then legacyLoop ls sect True pin
      else if specs \<and> starts_with runtime_prefix l then
        (case pinned l of
           None \<Rightarrow> None
         | Some v \<Rightarrow> if sect \<noteq> ''GEM'' \<or> (pin \<noteq> None \<and> pin \<noteq> Some v) then None
                     else legacyLoop ls sect specs (Some v))
      else legacyLoop ls sect specs pin)"

definition usesLegacyTModule :: "string option \<Rightarrow> bool" where
  "usesLegacyTModule lockfile = (case lockfile of
     None \<Rightarrow> False
   | Some contents \<Rightarrow> (case legacyLoop (lines_of contents) [] False None of
       Some (Some v) \<Rightarrow> version_less v (0, 6, 12698)
     | _ \<Rightarrow> False))"

text \<open>The specification: every line that lists the runtime inside a \<open>specs:\<close> block, with the section
  it stands in.\<close>

fun runtime_lines :: "string list \<Rightarrow> string \<Rightarrow> bool \<Rightarrow> (string \<times> string) list" where
  "runtime_lines [] sect specs = []"
| "runtime_lines (l0 # ls) sect specs =
     (let l = chop_cr l0 in
      if l \<noteq> [] \<and> hd l \<noteq> CHR '' '' then runtime_lines ls l False
      else if l = ''  specs:'' then runtime_lines ls sect True
      else if specs \<and> starts_with runtime_prefix l then (sect, l) # runtime_lines ls sect specs
      else runtime_lines ls sect specs)"

lemma legacyLoop_spec:
  "legacyLoop ls sect specs pin = Some res \<longleftrightarrow>
     (\<forall>(s, l)\<in>set (runtime_lines ls sect specs). s = ''GEM'' \<and> pinned l = res \<and> res \<noteq> None)
     \<and> (pin = None \<or> res = pin) \<and> (runtime_lines ls sect specs = [] \<longrightarrow> res = pin)"
proof (induction ls sect specs pin rule: legacyLoop.induct)
  case (2 l0 ls sect specs pin)
  let ?l = "chop_cr l0"
  consider "?l \<noteq> [] \<and> hd ?l \<noteq> CHR '' ''" | "\<not> (?l \<noteq> [] \<and> hd ?l \<noteq> CHR '' '')" "?l = ''  specs:''"
    | "\<not> (?l \<noteq> [] \<and> hd ?l \<noteq> CHR '' '')" "?l \<noteq> ''  specs:''" "specs \<and> starts_with runtime_prefix ?l"
    | "\<not> (?l \<noteq> [] \<and> hd ?l \<noteq> CHR '' '')" "?l \<noteq> ''  specs:''" "\<not> (specs \<and> starts_with runtime_prefix ?l)"
    by blast
  then show ?case
  proof cases
    case 3
    show ?thesis
    proof (cases "pinned ?l")
      case None
      with 3 show ?thesis by (auto simp: Let_def)
    next
      case (Some v)
      show ?thesis
      proof (cases "sect \<noteq> ''GEM'' \<or> (pin \<noteq> None \<and> pin \<noteq> Some v)")
        case True
        with 3 Some show ?thesis by (auto simp: Let_def)
      next
        case False
        have "legacyLoop (l0 # ls) sect specs pin = legacyLoop ls sect specs (Some v)"
          "runtime_lines (l0 # ls) sect specs = (sect, ?l) # runtime_lines ls sect specs"
          using 3 Some False by (auto simp: Let_def)
        moreover note 2(3) [OF refl 3 Some False]
        moreover define P where "P = (\<lambda>(s, l). s = ''GEM'' \<and> pinned l = res \<and> res \<noteq> None)"
        moreover have "P (sect, ?l) \<longleftrightarrow> res = Some v"
          using Some False by (auto simp only: P_def case_prod_conv option.distinct)
        ultimately show ?thesis
          using False by (simp only: list.set ball_simps) blast
      qed
    qed
  qed (use 2 in \<open>auto simp: Let_def\<close>)
qed auto

text \<open>A lockfile enables the old behaviour exactly when it lists the runtime at all, only in the
  \<open>GEM\<close> section, always with the same released version, and that version is older than 0.6.12698.\<close>

lemma usesLegacyTModule_iff:
  "usesLegacyTModule (Some contents) \<longleftrightarrow>
     (\<exists>v. version_less v (0, 6, 12698) \<and> runtime_lines (lines_of contents) [] False \<noteq> []
        \<and> (\<forall>(s, l)\<in>set (runtime_lines (lines_of contents) [] False). s = ''GEM'' \<and> pinned l = Some v))"
proof -
  have "usesLegacyTModule (Some contents) \<longleftrightarrow>
      (\<exists>v. legacyLoop (lines_of contents) [] False None = Some (Some v) \<and> version_less v (0, 6, 12698))"
    by (auto simp: usesLegacyTModule_def split: option.splits)
  then show ?thesis
    by (auto simp: legacyLoop_spec)
qed

definition demo_lock :: string where
  "demo_lock = ''GEM'' @ [newline] @ ''  specs:'' @ [newline] @ ''    sorbet-runtime (0.5.1)'' @ [newline]"

lemma digits:
  "of_char (CHR ''0'') = (48 :: nat)" "of_char (CHR ''5'') = (53 :: nat)" "of_char (CHR ''1'') = (49 :: nat)"
  "of_char (CHR ''.'') = (46 :: nat)" "of_char (CHR '')'') = (41 :: nat)"
  by (simp_all add: of_char_def)

lemma demo_version: "released_version ''    sorbet-runtime (0.5.1)'' = Some (''0'', ''5'', ''1'')"
proof -
  have "drop (length runtime_prefix) ''    sorbet-runtime (0.5.1)'' = ''0.5.1)''"
    "starts_with runtime_prefix ''    sorbet-runtime (0.5.1)''"
    by (simp_all add: runtime_prefix_def starts_with_iff)
  moreover have "is_digit (CHR ''0'')" "is_digit (CHR ''5'')" "is_digit (CHR ''1'')" "\<not> is_digit (CHR ''.'')"
    "\<not> is_digit (CHR '')'')"
    unfolding is_digit_def digits by simp_all
  ultimately show ?thesis
    by (simp add: released_version_def)
qed

section \<open>The gem that owns a file\<close>

datatype gem_lookup_error = BadOptionalAccess

text \<open>\<open>.value()\<close> of a failed \<open>tryParse\<close> raises.\<close>

definition tryParseFilepath :: "string \<Rightarrow> (gem_lookup_error, gem_metadata option) result" where
  "tryParseFilepath filepath =
     (let filename = (case find_last (\<lambda>c. c = CHR ''/'') filepath of
        None \<Rightarrow> filepath | Some i \<Rightarrow> drop (i + 1) filepath) in
      case find_last (\<lambda>c. c = CHR ''.'') filename of
        None \<Rightarrow> Inr None
      | Some dotIndex \<Rightarrow>
          (let basename = take dotIndex filename in
           if CHR ''@'' \<in> set basename then
             (case tryParse basename of None \<Rightarrow> Inl BadOptionalAccess | Some g \<Rightarrow> Inr (Some g))
           else Inr (Some \<lparr>gem_name = basename, gem_version = ''latest''\<rparr>)))"

record gem_mapping =
  currentGem :: "gem_metadata option"
  gem_map :: "u32 \<rightharpoonup> gem_metadata"
  stdlibGem :: gem_metadata
  globalPlaceholderGem :: gem_metadata

definition new_gem_mapping :: gem_mapping where
  "new_gem_mapping = \<lparr>currentGem = None, gem_map = Map.empty,
     stdlibGem = \<lparr>gem_name = ''ruby'', gem_version = ''latest''\<rparr>,
     globalPlaceholderGem = \<lparr>gem_name = ''_global_'', gem_version = ''latest''\<rparr>\<rparr>"

definition lookupGemForFile :: "gem_mapping \<Rightarrow> u32 \<Rightarrow> string \<Rightarrow> (gem_lookup_error, gem_metadata option) result" where
  "lookupGemForFile m ref filepath =
     (case gem_map m ref of
        Some g \<Rightarrow> Inr (Some g)
      | None \<Rightarrow>
          if starts_with URL_PREFIX filepath then Inr (Some (stdlibGem m))
          else if contains ''sorbet/rbi/'' filepath
               \<and> (contains ''sorbet/rbi/gems/'' filepath \<or> contains ''sorbet/rbi/annotations/'' filepath
                  \<or> contains ''sorbet/rbi/dsl/'' filepath)
          then (case tryParseFilepath filepath of
                  Inl e \<Rightarrow> Inl e
                | Inr (Some g) \<Rightarrow> Inr (Some g)
                | Inr None \<Rightarrow> Inr (currentGem m))
          else Inr (currentGem m))"

definition markCurrentGem :: "gem_metadata \<Rightarrow> gem_mapping \<Rightarrow> gem_mapping" where
  "markCurrentGem g m = m\<lparr>currentGem := Some g\<rparr>"

text \<open>A generated definition file \<open>sorbet/rbi/gems/NAME@VERSION.rbi\<close> belongs to that gem, whatever the
  directory before it.\<close>

lemma contains_middle: "contains pat (a @ pat @ b)"
proof -
  have "starts_with pat (drop (length a) (a @ pat @ b))" "length a \<le> length (a @ pat @ b)"
    by (simp_all add: starts_with_def)
  then show ?thesis
    unfolding contains_def find_string_def find_from_None by blast
qed

lemma find_last_split:
  assumes "\<forall>c\<in>set b. \<not> P c" "P x"
  shows "find_last P (a @ x # b) = Some (length a)"
proof -
  have "takeWhile (\<lambda>c. \<not> P c) (rev b @ x # rev a) = rev b"
    using assms by (subst takeWhile_append2) auto
  then show ?thesis by (simp add: find_last_def Let_def)
qed

text \<open>Generated definition files are attributed to the gem and version in their file name, unless
  the file has an explicit entry or is part of the standard library; a file name with a misplaced at
  sign raises.\<close>

lemma lookupGem_rbi:
  assumes "gem_map m ref = None" "\<not> starts_with URL_PREFIX (dir @ ''sorbet/rbi/gems/'' @ b @ ''.rbi'')"
    and "CHR ''/'' \<notin> set b" "CHR ''@'' \<in> set b"
  shows "lookupGemForFile m ref (dir @ ''sorbet/rbi/gems/'' @ b @ ''.rbi'') =
     (case tryParse b of None \<Rightarrow> Inl BadOptionalAccess | Some g \<Rightarrow> Inr (Some g))"
proof -
  let ?p = "dir @ ''sorbet/rbi/gems/'' @ b @ ''.rbi''"
  have c: "contains ''sorbet/rbi/gems/'' ?p" "contains ''sorbet/rbi/'' ?p"
    using contains_middle [of "''sorbet/rbi/gems/''" dir] contains_middle [of "''sorbet/rbi/''" dir "''gems/'' @ b @ ''.rbi''"]
    by simp_all
  have "find_last (\<lambda>c. c = CHR ''/'') ((dir @ ''sorbet/rbi/gems'') @ CHR ''/'' # (b @ ''.rbi''))
      = Some (length (dir @ ''sorbet/rbi/gems''))"
    using assms(3) by (intro find_last_split) auto
  moreover have p: "?p = (dir @ ''sorbet/rbi/gems'') @ CHR ''/'' # (b @ ''.rbi'')"
    by simp
  moreover have "drop (length (dir @ ''sorbet/rbi/gems'') + 1)
      ((dir @ ''sorbet/rbi/gems'') @ CHR ''/'' # (b @ ''.rbi'')) = b @ ''.rbi''"
    by simp
  moreover have "find_last (\<lambda>c. c = CHR ''.'') (b @ CHR ''.'' # ''rbi'') = Some (length b)"
    by (intro find_last_split) auto
  ultimately have "tryParseFilepath ?p =
      (case tryParse b of None \<Rightarrow> Inl BadOptionalAccess | Some g \<Rightarrow> Inr (Some g))"
    using assms(4) unfolding tryParseFilepath_def p Let_def by (simp only: option.case) simp
  with assms c show ?thesis
    by (auto simp: lookupGemForFile_def split: option.split)
qed

end
