(* ===== verification/Effects.thy ===== *)
theory Effects
  imports Prelude
begin

text \<open>
  Sequencing of calls that may raise, with and without a state: the code of the components is composed
  with these operators the way the C++ statements follow each other.  For operations on a state there
  is a small Hoare logic: \<open>hoare\<close> for partial and \<open>succeeds\<close> for total correctness.
\<close>

section \<open>Results\<close>

definition bindL :: "('e, 'a) result \<Rightarrow> ('a \<Rightarrow> ('e, 'b) result) \<Rightarrow> ('e, 'b) result" where
  "bindL x f = (case x of Inl e \<Rightarrow> Inl e | Inr a \<Rightarrow> f a)"

lemma bindL_simps [simp]: "bindL (Inl e) f = Inl e" "bindL (Inr a) f = f a"
  by (simp_all add: bindL_def)

primrec foldL :: "('a \<Rightarrow> 'b \<Rightarrow> ('e, 'b) result) \<Rightarrow> 'a list \<Rightarrow> 'b \<Rightarrow> ('e, 'b) result" where
  "foldL f [] b = Inr b"
| "foldL f (x # xs) b = bindL (f x b) (foldL f xs)"

text \<open>A loop that returns at the first hit.\<close>

primrec anyL :: "('a \<Rightarrow> ('e, bool) result) \<Rightarrow> 'a list \<Rightarrow> ('e, bool) result" where
  "anyL f [] = Inr False"
| "anyL f (x # xs) = bindL (f x) (\<lambda>hit. if hit then Inr True else anyL f xs)"

lemma anyL_Inr: "(\<And>x. x \<in> set xs \<Longrightarrow> f x = Inr (P x)) \<Longrightarrow> anyL f xs = Inr (\<exists>x\<in>set xs. P x)"
  by (induction xs) auto

text \<open>Loops: an invariant over the elements processed so far.\<close>

lemma foldL_rule:
  assumes "I [] b" and "\<And>ys x zs b. xs = ys @ x # zs \<Longrightarrow> I ys b \<Longrightarrow> \<exists>b'. f x b = Inr b' \<and> I (ys @ [x]) b'"
  shows "\<exists>b'. foldL f xs b = Inr b' \<and> I xs b'"
proof -
  have "\<exists>b'. foldL f zs b = Inr b' \<and> I xs b'" if "xs = ys @ zs" "I ys b" for ys zs b
    using that
  proof (induction zs arbitrary: ys b)
    case (Cons z zs)
    obtain b' where "f z b = Inr b'" "I (ys @ [z]) b'"
      using assms(2) [OF Cons.prems] by blast
    with Cons.IH [of "ys @ [z]" b'] Cons.prems(1) show ?case by simp
  qed simp
  from this [of "[]" xs b] assms(1) show ?thesis by simp
qed

section \<open>Operations on a state\<close>

type_synonym ('s, 'e, 'a) op = "'s \<Rightarrow> ('e, 'a \<times> 's) result"

definition returnS :: "'a \<Rightarrow> ('s, 'e, 'a) op" where
  "returnS x = (\<lambda>s. Inr (x, s))"

definition failS :: "'e \<Rightarrow> ('s, 'e, 'a) op" where
  "failS e = (\<lambda>s. Inl e)"

definition bindS :: "('s, 'e, 'a) op \<Rightarrow> ('a \<Rightarrow> ('s, 'e, 'b) op) \<Rightarrow> ('s, 'e, 'b) op" where
  "bindS m k = (\<lambda>s. case m s of Inl e \<Rightarrow> Inl e | Inr (x, s') \<Rightarrow> k x s')"

definition readS :: "('s \<Rightarrow> 'a) \<Rightarrow> ('s, 'e, 'a) op" where
  "readS f = (\<lambda>s. Inr (f s, s))"

definition modifyS :: "('s \<Rightarrow> 's) \<Rightarrow> ('s, 'e, unit) op" where
  "modifyS f = (\<lambda>s. Inr ((), f s))"

definition liftS :: "('x, 'a) result \<Rightarrow> 'e \<Rightarrow> ('s, 'e, 'a) op" where
  "liftS r e = (case r of Inl x \<Rightarrow> failS e | Inr v \<Rightarrow> returnS v)"

text \<open>\<open>ENFORCE\<close>.\<close>

definition guardS :: "bool \<Rightarrow> 'e \<Rightarrow> ('s, 'e, unit) op" where
  "guardS b e = (if b then returnS () else failS e)"

lemmas effects_defs = returnS_def failS_def bindS_def readS_def modifyS_def liftS_def guardS_def

subsection \<open>Partial correctness\<close>

text \<open>From a state that satisfies \<open>P\<close>, if the operation does not raise, result and new state
  satisfy \<open>Q\<close>.\<close>

definition hoare :: "('s \<Rightarrow> bool) \<Rightarrow> ('s, 'e, 'a) op \<Rightarrow> ('a \<Rightarrow> 's \<Rightarrow> bool) \<Rightarrow> bool" where
  "hoare P m Q \<longleftrightarrow> (\<forall>s x s'. P s \<longrightarrow> m s = Inr (x, s') \<longrightarrow> Q x s')"

lemma hoare_return: "(\<And>s. P s \<Longrightarrow> Q x s) \<Longrightarrow> hoare P (returnS x) Q"
  by (simp add: hoare_def returnS_def)

lemma hoare_fail: "hoare P (failS e) Q"
  by (simp add: hoare_def failS_def)

lemma hoare_read: "(\<And>s. P s \<Longrightarrow> Q (f s) s) \<Longrightarrow> hoare P (readS f) Q"
  by (simp add: hoare_def readS_def)

lemma hoare_modify: "(\<And>s. P s \<Longrightarrow> Q () (f s)) \<Longrightarrow> hoare P (modifyS f) Q"
  by (simp add: hoare_def modifyS_def)

lemma hoare_bind:
  "hoare P m R \<Longrightarrow> (\<And>x. hoare (R x) (k x) Q) \<Longrightarrow> hoare P (bindS m k) Q"
  unfolding hoare_def bindS_def by (fastforce split: sum.splits)

lemma hoare_lift: "(\<And>x s. P s \<Longrightarrow> Q x s) \<Longrightarrow> hoare P (liftS r e) Q"
  by (cases r) (auto simp: liftS_def intro: hoare_fail hoare_return)

lemma hoare_pre: "hoare P m Q \<Longrightarrow> (\<And>s. P' s \<Longrightarrow> P s) \<Longrightarrow> hoare P' m Q"
  by (auto simp: hoare_def)

end
