(* ===== verification/SymbolRefs.thy ===== *)
theory SymbolRefs
  imports Prelude
begin

text \<open>
  References to symbols (\<open>core/SymbolRef.h\<close>).  A \<open>SymbolRef\<close> is a word whose low three bits hold the kind of
  the symbol and whose other bits hold its index in the table of that kind; index 0 is the symbol
  that does not exist.  References of one kind (\<open>ClassOrModuleRef\<close> and so on) are plain indices.
\<close>

definition KIND_MASK :: u32 where "KIND_MASK = 7"

datatype symbol_kind = SK_ClassOrModule | SK_Method | SK_FieldOrStaticField | SK_TypeParameter | SK_TypeMember

definition sym_kind :: "u32 \<Rightarrow> symbol_kind option" where
  "sym_kind ref = (let k = ref AND KIND_MASK in
     if k = 0 then Some SK_ClassOrModule else if k = 1 then Some SK_Method
     else if k = 2 then Some SK_FieldOrStaticField else if k = 3 then Some SK_TypeParameter
     else if k = 4 then Some SK_TypeMember else None)"

text \<open>\<open>Symbols::root()\<close>: class number 3.\<close>

definition sym_root :: u32 where "sym_root = push_bit 3 3"

definition unsafeTableIndex :: "u32 \<Rightarrow> u32" where
  "unsafeTableIndex s = drop_bit 3 s"

definition sym_exists :: "u32 \<Rightarrow> bool" where
  "sym_exists s \<longleftrightarrow> unsafeTableIndex s \<noteq> 0"

fun kind_no :: "symbol_kind \<Rightarrow> u32" where
  "kind_no SK_ClassOrModule = 0"
| "kind_no SK_Method = 1"
| "kind_no SK_FieldOrStaticField = 2"
| "kind_no SK_TypeParameter = 3"
| "kind_no SK_TypeMember = 4"

text \<open>The constructors of \<open>SymbolRef\<close>.\<close>

definition mkSymbolRef :: "symbol_kind \<Rightarrow> u32 \<Rightarrow> u32" where
  "mkSymbolRef k i = push_bit 3 i OR kind_no k"

section \<open>Reading a reference back\<close>

definition MAX_ID :: u32 where "MAX_ID = 2 ^ 29 - 1"

text \<open>The conversion of a reference of one kind, whose \<open>ENFORCE(id <= MAX_ID)\<close> fails on large ids: the result
  then has no kind.\<close>

definition symbolRefOf :: "symbol_kind \<Rightarrow> u32 \<Rightarrow> u32" where
  "symbolRefOf k i = (if i \<le> MAX_ID then mkSymbolRef k i else 7)"

lemma kind_no_low: "drop_bit 3 (kind_no k) = 0" "kind_no k AND 7 = kind_no k"
  by (cases k; simp)+

lemma mask3: "(7 :: u32) = mask 3"
  by (simp add: mask_eq_exp_minus_1)

lemma mkSymbolRef_low: "mkSymbolRef k i AND KIND_MASK = kind_no k"
proof -
  have "push_bit 3 i AND (7 :: u32) = 0"
    unfolding mask3 by (rule bit_word_eqI) (auto simp: bit_simps)
  then show ?thesis
    unfolding mkSymbolRef_def KIND_MASK_def
    by (simp only: bit.conj_disj_distrib2 kind_no_low) (simp add: kind_no_low)
qed

lemma sym_kind_mkSymbolRef [simp]: "sym_kind (mkSymbolRef k i) = Some k"
  by (cases k) (simp_all add: sym_kind_def mkSymbolRef_low)

lemma unsafeTableIndex_mkSymbolRef:
  assumes "i \<le> MAX_ID"
  shows "unsafeTableIndex (mkSymbolRef k i) = i"
proof -
  have "unat i < 2 ^ 29"
    using assms by (simp add: MAX_ID_def word_le_nat_alt)
  then have i: "take_bit 29 i = i"
    by (simp add: word_unat_eq_iff unsigned_take_bit_eq take_bit_nat_eq_self)
  have "drop_bit 3 (push_bit 3 i) = take_bit 29 i"
    by (rule bit_word_eqI) (auto simp: bit_simps)
  then show ?thesis
    by (simp add: unsafeTableIndex_def mkSymbolRef_def drop_bit_or kind_no_low i)
qed

lemma mkSymbolRef_inject:
  assumes "i \<le> MAX_ID" "j \<le> MAX_ID"
  shows "mkSymbolRef k i = mkSymbolRef l j \<longleftrightarrow> k = l \<and> i = j"
  using assms by (metis option.inject sym_kind_mkSymbolRef unsafeTableIndex_mkSymbolRef)

lemma sym_exists_mkSymbolRef: "i \<le> MAX_ID \<Longrightarrow> sym_exists (mkSymbolRef k i) \<longleftrightarrow> i \<noteq> 0"
  by (simp add: sym_exists_def unsafeTableIndex_mkSymbolRef)

text \<open>Every reference of a known kind is built by a constructor.\<close>

lemma mkSymbolRef_surj:
  assumes "sym_kind s = Some k"
  shows "mkSymbolRef k (unsafeTableIndex s) = s" "unsafeTableIndex s \<le> MAX_ID"
proof -
  have low: "s AND 7 = kind_no k"
    using assms by (auto simp: sym_kind_def KIND_MASK_def Let_def split: if_splits)
  have "push_bit 3 (drop_bit 3 s) OR (s AND mask 3) = s"
    by (rule bit_word_eqI) (auto simp: bit_simps)
  then show "mkSymbolRef k (unsafeTableIndex s) = s"
    by (simp add: mkSymbolRef_def unsafeTableIndex_def low [symmetric] mask3)
  have "unat (drop_bit 3 s) = unat s div 8"
    using unsigned_less [of s, where 'a = nat]
    by (simp only: unsigned_drop_bit_eq) (simp add: drop_bit_eq_div take_bit_nat_eq_self)
  also have "\<dots> < 2 ^ 29"
    using unsigned_less [of s, where 'a = nat] by simp
  finally show "unsafeTableIndex s \<le> MAX_ID"
    by (simp add: MAX_ID_def word_le_nat_alt unsafeTableIndex_def)
qed

lemma symbolRefOf_small: "i \<le> MAX_ID \<Longrightarrow> symbolRefOf k i = mkSymbolRef k i"
  by (simp add: symbolRefOf_def)

lemma symbolRefOf_kind: "sym_kind (symbolRefOf k i) = Some j \<longleftrightarrow> i \<le> MAX_ID \<and> j = k"
proof -
  have "sym_kind 7 = None" by (simp add: sym_kind_def KIND_MASK_def)
  then show ?thesis by (auto simp: symbolRefOf_def)
qed

end
