(* ===== verification/ScipState.thy ===== *)
theory ScipState
  imports Locs ScipProto ScipGems Effects SymbolRefs
begin

text \<open>
  The state the indexer collects while it walks the control-flow graphs (\<open>SCIPState\<close> in
  \<open>scip_indexer/SCIPIndexer.cc\<close>), the references it keys its maps by (\<open>SCIPSymbolRef\<close>) and the search for
  the owner of an undeclared field (\<open>SCIPFieldResolve.cc\<close>).

  \<open>SymbolRef\<close> and \<open>NameRef\<close> are the 32-bit raw ids of the code.  What the indexer looks up in the
  \<open>GlobalState\<close> is the record \<open>scip_env\<close>.  Documentation texts, which the code builds from shown types
  and source comments, are arguments.
\<close>

section \<open>References\<close>

record ugsr =
  selfOrOwner :: u32
  ref_name :: u32

record gsr =
  gsr_ref :: ugsr
  definitionType :: "string option"

datatype gsr_kind = GK_ClassOrModule | GK_Field | GK_Method | GK_Parameter | GK_Type

definition gsr_kind :: "gsr \<Rightarrow> gsr_kind" where
  "gsr_kind r =
     (let k = sym_kind (selfOrOwner (gsr_ref r)) in
      if ref_name (gsr_ref r) \<noteq> 0 then (if k = Some SK_Method then GK_Parameter else GK_Field)
      else if k = Some SK_Method then GK_Method
      else if k \<noteq> Some SK_ClassOrModule then GK_Type
      else GK_ClassOrModule)"

definition gsr_less :: "gsr \<Rightarrow> gsr \<Rightarrow> bool" where
  "gsr_less l r \<longleftrightarrow> selfOrOwner (gsr_ref l) < selfOrOwner (gsr_ref r)
     \<or> (selfOrOwner (gsr_ref l) = selfOrOwner (gsr_ref r) \<and> ref_name (gsr_ref l) < ref_name (gsr_ref r))"

record scip_env =
  env_owner :: "u32 \<Rightarrow> u32"
  env_show :: "u32 \<Rightarrow> string"
  env_fullName :: "u32 \<Rightarrow> string"
  env_shortName :: "u32 \<Rightarrow> string"
  env_locFile :: "u32 \<Rightarrow> u32"
  env_file :: "u32 \<Rightarrow> src_file"
  env_decode :: "string \<Rightarrow> nat option"
  env_internal :: "u32 list"
  env_symbolLoc :: "ugsr \<Rightarrow> loc"
  env_docs :: "ugsr \<Rightarrow> string option \<Rightarrow> loc \<Rightarrow> string list"
  env_relative :: "string \<Rightarrow> string"

definition isGlobal :: "scip_env \<Rightarrow> u32 \<Rightarrow> bool" where
  "isGlobal env nm \<longleftrightarrow> nm \<noteq> 0 \<and> env_shortName env nm \<noteq> [] \<and> hd (env_shortName env nm) = CHR ''$''"

text \<open>The outcome of an operation that raised, or ran into a cycle of owners.\<close>

datatype scip_fail = GemRaised | OwnerCycle | LocRaised

text \<open>\<open>utils::Result\<close>.\<close>

datatype 'a scip_result = ROk 'a | RSkip | RStatus scip_error

definition symbol_suffix :: "symbol_kind \<Rightarrow> descriptor_suffix" where
  "symbol_suffix k = (case k of SK_Method \<Rightarrow> MethodD | SK_ClassOrModule \<Rightarrow> TypeD
     | SK_TypeParameter \<Rightarrow> TypeParameterD | SK_FieldOrStaticField \<Rightarrow> Term | SK_TypeMember \<Rightarrow> TypeD)"

text \<open>The loop over the owners, outermost descriptor first; \<open>None\<close> if it never meets the root.\<close>

partial_function (option) ownerDescriptors :: "scip_env \<Rightarrow> u32 \<Rightarrow> (scip_error + descriptor list) option" where
  "ownerDescriptors env cur =
     (if cur = sym_root then Some (Inr [])
      else (case sym_kind cur of
        None \<Rightarrow> Some (Inl (InvalidArgumentError ''unexpected expr type for symbol computation''))
      | Some k \<Rightarrow> Option.bind (ownerDescriptors env (env_owner env cur)) (\<lambda>r. Some (case r of
          Inl e \<Rightarrow> Inl e
        | Inr ds \<Rightarrow> Inr (ds @ [\<lparr>d_name = env_show env cur, disambiguator = [], suffix = symbol_suffix k\<rparr>])))))"

definition gem_for :: "scip_env \<Rightarrow> gem_mapping \<Rightarrow> loc option \<Rightarrow> ugsr \<Rightarrow> (scip_fail, gem_metadata option) result" where
  "gem_for env gems l r =
     (if isGlobal env (ref_name r) then Inr (Some (globalPlaceholderGem gems))
      else (let owningFile = (case l of Some x \<Rightarrow> fileRef x | None \<Rightarrow> env_locFile env (selfOrOwner r)) in
        if owningFile = 0 then Inr None
        else (case lookupGemForFile gems owningFile (path (env_file env owningFile)) of
                Inl e \<Rightarrow> Inl GemRaised | Inr g \<Rightarrow> Inr g)))"

definition symbolForExpr ::
  "scip_env \<Rightarrow> gem_mapping \<Rightarrow> loc option \<Rightarrow> ugsr \<Rightarrow> (scip_fail, scip_symbol scip_result) result" where
  "symbolForExpr env gems l r =
     (case gem_for env gems l r of
        Inl e \<Rightarrow> Inl e
      | Inr None \<Rightarrow> Inr RSkip
      | Inr (Some g) \<Rightarrow>
          (case ownerDescriptors env (selfOrOwner r) of
             None \<Rightarrow> Inl OwnerCycle
           | Some (Inl e) \<Rightarrow> Inr (RStatus e)
           | Some (Inr ds) \<Rightarrow>
               (let own = (if ref_name r \<noteq> 0
                  then [\<lparr>d_name = env_shortName env (ref_name r), disambiguator = [],
                         suffix = (if sym_kind (selfOrOwner r) = Some SK_Method then Parameter else Term)\<rparr>]
                  else [])
                in Inr (ROk \<lparr>symbol_package = Some \<lparr>package_name = gem_name g, package_version = gem_version g\<rparr>,
                             descriptors = ds @ own\<rparr>))))"

definition owner_descriptor :: "scip_env \<Rightarrow> u32 \<Rightarrow> descriptor" where
  "owner_descriptor env cur = \<lparr>d_name = env_show env cur, disambiguator = [],
     suffix = symbol_suffix (the (sym_kind cur))\<rparr>"

lemma ownerDescriptors_chain:
  assumes "(env_owner env ^^ n) cur = sym_root"
    and "\<forall>k<n. (env_owner env ^^ k) cur \<noteq> sym_root \<and> sym_kind ((env_owner env ^^ k) cur) \<noteq> None"
  shows "ownerDescriptors env cur =
     Some (Inr (map (\<lambda>k. owner_descriptor env ((env_owner env ^^ k) cur)) (rev [0..<n])))"
  using assms
proof (induction n arbitrary: cur)
  case 0
  then show ?case by (subst ownerDescriptors.simps) simp
next
  case (Suc n)
  have shift: "(env_owner env ^^ k) (env_owner env cur) = (env_owner env ^^ Suc k) cur" for k
    by (simp add: funpow_swap1)
  have "ownerDescriptors env (env_owner env cur) =
      Some (Inr (map (\<lambda>k. owner_descriptor env ((env_owner env ^^ k) (env_owner env cur))) (rev [0..<n])))"
    using Suc.prems by (intro Suc.IH) (auto simp: shift simp del: funpow.simps)
  moreover have "cur \<noteq> sym_root" "sym_kind cur \<noteq> None"
    using Suc.prems(2) [rule_format, of 0] by auto
  moreover have "rev [0..<Suc n] = map Suc (rev [0..<n]) @ [0]"
    by (simp add: rev_map [symmetric] map_Suc_upt upt_conv_Cons del: upt_Suc)
  ultimately show ?case
    by (subst ownerDescriptors.simps) (auto simp: shift owner_descriptor_def comp_def simp del: funpow.simps upt_Suc)
qed

lemma ownerDescriptors_ends:
  assumes "ownerDescriptors env cur = Some res"
  shows "\<exists>n. (env_owner env ^^ n) cur = sym_root \<or> sym_kind ((env_owner env ^^ n) cur) = None"
  using assms
proof (rule ownerDescriptors.raw_induct [rotated])
  fix go :: "scip_env \<Rightarrow> u32 \<Rightarrow> (scip_error + descriptor list) option" and env cur res
  assume IH: "\<And>env cur res. go env cur = Some res \<Longrightarrow>
      \<exists>n. (env_owner env ^^ n) cur = sym_root \<or> sym_kind ((env_owner env ^^ n) cur) = None"
    and step: "(if cur = sym_root then Some (Inr [])
      else case sym_kind cur of
        None \<Rightarrow> Some (Inl (InvalidArgumentError ''unexpected expr type for symbol computation''))
      | Some k \<Rightarrow> Option.bind (go env (env_owner env cur)) (\<lambda>r. Some (case r of
          Inl e \<Rightarrow> Inl e
        | Inr ds \<Rightarrow> Inr (ds @ [\<lparr>d_name = env_show env cur, disambiguator = [], suffix = symbol_suffix k\<rparr>])))) = Some res"
  show "\<exists>n. (env_owner env ^^ n) cur = sym_root \<or> sym_kind ((env_owner env ^^ n) cur) = None"
  proof (cases "cur = sym_root \<or> sym_kind cur = None")
    case True
    then show ?thesis by (intro exI [of _ 0]) auto
  next
    case False
    with step obtain r where "go env (env_owner env cur) = Some r"
      by (auto split: option.splits bind_splits)
    with IH obtain n where "(env_owner env ^^ n) (env_owner env cur) = sym_root
        \<or> sym_kind ((env_owner env ^^ n) (env_owner env cur)) = None"
      by blast
    then show ?thesis by (intro exI [of _ "Suc n"]) (simp add: funpow_swap1)
  qed
qed

text \<open>Computing the descriptors of a symbol ends exactly when following the owners meets the root
  or a reference of no known kind.\<close>

lemma ownerDescriptors_terminates_iff:
  "ownerDescriptors env cur \<noteq> None \<longleftrightarrow>
     (\<exists>n. (env_owner env ^^ n) cur = sym_root \<or> sym_kind ((env_owner env ^^ n) cur) = None)"
proof
  assume "ownerDescriptors env cur \<noteq> None"
  then show "\<exists>n. (env_owner env ^^ n) cur = sym_root \<or> sym_kind ((env_owner env ^^ n) cur) = None"
    using ownerDescriptors_ends by auto
next
  assume "\<exists>n. (env_owner env ^^ n) cur = sym_root \<or> sym_kind ((env_owner env ^^ n) cur) = None"
  then obtain n where "(env_owner env ^^ n) cur = sym_root \<or> sym_kind ((env_owner env ^^ n) cur) = None" ..
  then show "ownerDescriptors env cur \<noteq> None"
  proof (induction n arbitrary: cur)
    case 0
    then show ?case by (subst ownerDescriptors.simps) auto
  next
    case (Suc n)
    then have "ownerDescriptors env (env_owner env cur) \<noteq> None"
      by (simp add: funpow_swap1)
    then show ?case by (subst ownerDescriptors.simps) (auto split: option.split)
  qed
qed

text \<open>\<open>isSorbetInternal\<close>: a walk over the owners that stops at the first repetition; \<open>env_internal\<close>
  holds \<open>Sorbet::Private\<close>, \<open>T\<close> and its singleton class.\<close>

function isSorbetInternal :: "scip_env \<Rightarrow> u32 \<Rightarrow> u32 set \<Rightarrow> bool" where
  "isSorbetInternal env sm visited =
     (if sm = 0 \<or> sm \<in> visited then False
      else if sym_kind sm = Some SK_ClassOrModule \<and> sm \<in> set (env_internal env) then True
      else isSorbetInternal env (env_owner env sm) (insert sm visited))"
  by pat_completeness auto

termination
proof (relation "measure (\<lambda>(env, sm, visited). card (UNIV - visited))", goal_cases)
  case (2 env sm visited)
  then have "sm \<notin> visited" by blast
  then have "UNIV - insert sm visited \<subset> UNIV - visited" by blast
  then show ?case unfolding in_measure case_prod_conv by (rule psubset_card_mono [OF finite])
qed (rule wf_measure)

definition isSorbetInternalClassOrMethod :: "scip_env \<Rightarrow> gsr \<Rightarrow> bool" where
  "isSorbetInternalClassOrMethod env r =
     (case gsr_kind r of GK_Field \<Rightarrow> False | GK_Parameter \<Rightarrow> False
      | _ \<Rightarrow> isSorbetInternal env (selfOrOwner (gsr_ref r)) {})"

section \<open>Ranges\<close>

text \<open>\<open>int32_t\<close> values converted from \<open>uint32_t\<close>.\<close>

definition fromSorbetLoc :: "src_file \<Rightarrow> loc \<Rightarrow> int list" where
  "fromSorbetLoc f l = (let (s, e) = toDetails f l in
     [sint (line s - 1), sint (column s - 1)] @ (if line s \<noteq> line e then [sint (line e - 1)] else [])
       @ [sint (column e - 1)])"

text \<open>\<open>rfind\<close> of a string.\<close>

primrec rfind_from :: "string \<Rightarrow> string \<Rightarrow> nat \<Rightarrow> nat option" where
  "rfind_from pat s 0 = (if starts_with pat s then Some 0 else None)"
| "rfind_from pat s (Suc n) = (if starts_with pat (drop (Suc n) s) then Some (Suc n) else rfind_from pat s n)"

definition trimColonColonPrefix :: "src_file \<Rightarrow> loc \<Rightarrow> (loc_error, loc) result" where
  "trimColonColonPrefix f baseLoc =
     (case loc_source f baseLoc of
        Inl e \<Rightarrow> Inl e
      | Inr None \<Rightarrow> Inr baseLoc
      | Inr (Some text) \<Rightarrow>
          (case rfind_from ''::'' text (length text) of
             None \<Rightarrow> Inr baseLoc
           | Some i \<Rightarrow>
               (let occLen = length text - (i + 2);
                    newBeginLoc = endLoc (offsets baseLoc) - of_nat occLen
                in Inr (mkLoc (fileRef baseLoc) newBeginLoc (endLoc (offsets baseLoc))))))"

lemma rfind_from_Some:
  "rfind_from pat s n = Some i \<longleftrightarrow> i \<le> n \<and> starts_with pat (drop i s) \<and> (\<forall>j. i < j \<and> j \<le> n \<longrightarrow> \<not> starts_with pat (drop j s))"
proof (induction n)
  case (Suc n)
  show ?case
  proof (cases "starts_with pat (drop (Suc n) s)")
    case True
    then show ?thesis by (auto simp: le_Suc_eq)
  next
    case False
    with Suc show ?thesis by (auto simp: le_Suc_eq)
  qed
qed auto

lemma rfind_from_None: "rfind_from pat s n = None \<longleftrightarrow> (\<forall>j\<le>n. \<not> starts_with pat (drop j s))"
proof (induction n)
  case (Suc n)
  then show ?case by (auto simp: le_Suc_eq)
qed auto

lemma rfind_colons:
  assumes "rfind_from ''::'' body (length body) = Some i"
  shows "\<exists>t. body = (take i body @ ''::'') @ t \<and> length body - (i + 2) = length t \<and> \<not> contains ''::'' t"
proof -
  have i: "starts_with ''::'' (drop i body)" "\<forall>j. i < j \<and> j \<le> length body \<longrightarrow> \<not> starts_with ''::'' (drop j body)"
    using assms by (auto simp: rfind_from_Some)
  obtain t where t: "drop i body = ''::'' @ t" using i(1) by (auto simp: starts_with_iff)
  then have "i < length body" by (cases "i < length body") auto
  then have lt: "length t = length body - (i + 2)" "i + 2 \<le> length body"
    using arg_cong [OF t, of length] by auto
  have dt: "drop (i + 2) body = t"
    using arg_cong [OF t, of "drop 2"] by (simp add: add.commute)
  have "\<not> contains ''::'' t"
  proof
    assume "contains ''::'' t"
    then obtain j where j: "j \<le> length t" "starts_with ''::'' (drop j t)"
      by (auto simp: contains_def find_string_def find_from_None)
    then have "starts_with ''::'' (drop (i + 2 + j) body)"
      using dt by (metis add.commute drop_drop)
    with i(2) lt j(1) show False by auto
  qed
  moreover have "body = take i body @ drop i body" by simp
  ultimately show ?thesis using t lt by (intro exI [of _ t]) simp
qed

text \<open>Moving the begin of a location right keeps a suffix of its text.\<close>

lemma loc_suffix:
  assumes "loc_in f l" "loc_source f l = Inr (Some (pre @ t))"
  defines "l' \<equiv> mkLoc (fileRef l) (endLoc (offsets l) - of_nat (length t)) (endLoc (offsets l))"
  shows "loc_in f l' \<and> loc_source f l' = Inr (Some t)"
proof -
  let ?b = "unat (beginLoc (offsets l))" and ?e = "unat (endLoc (offsets l))"
  have b: "substr (source f) ?b (?e - ?b) = pre @ t"
    using loc_in_source [OF assms(1)] assms(2) by simp
  note bd = loc_in_bounds [OF assms(1)]
  have len: "length pre + length t = ?e - ?b"
    using bd arg_cong [OF b, of length] by (simp add: substr_def)
  then have le: "length t \<le> ?e" "?b \<le> ?e - length t" "?e - length t = ?b + length pre" using bd(2) by auto
  have nb: "unat (endLoc (offsets l) - of_nat (length t)) = ?e - length t"
  proof -
    have "length t < 2 ^ 32" using le(1) bd(1,3) by simp
    then have "unat (of_nat (length t) :: u32) = length t" by (rule unat_of_nat_u32)
    with le(1) show ?thesis by (simp add: unat_sub word_le_nat_alt)
  qed
  have lin: "loc_in f l'"
    using assms(1) nb by (simp add: l'_def loc_in_def mkLoc_def word_le_nat_alt)
  have "t = drop (length pre) (take (?e - ?b) (drop ?b (source f)))"
    using b by (simp add: substr_def)
  then have "substr (source f) (?e - length t) (length t) = t"
    using le(3) len by (simp add: substr_def drop_take add.commute)
  with loc_in_source [OF lin] nb le(1) lin show ?thesis
    by (simp add: l'_def mkLoc_def)
qed

text \<open>Trimming the range of a qualified constant keeps a location of the file whose text is the
  last component: a suffix of the text without a double colon, preceded by one unless nothing was
  trimmed.\<close>

lemma trimColonColonPrefix_text:
  assumes "loc_in f l"
  shows "\<exists>l' pre last_part. trimColonColonPrefix f l = Inr l' \<and> loc_in f l'
     \<and> loc_source f l = Inr (Some (pre @ last_part)) \<and> loc_source f l' = Inr (Some last_part)
     \<and> \<not> contains ''::'' last_part \<and> (pre = [] \<or> ends_with ''::'' pre)"
proof -
  obtain body where src: "loc_source f l = Inr (Some body)"
    using loc_in_source [OF assms] by blast
  show ?thesis
  proof (cases "rfind_from ''::'' body (length body)")
    case None
    then have "\<not> contains ''::'' body"
      by (auto simp: rfind_from_None contains_def find_string_def find_from_None)
    moreover have "trimColonColonPrefix f l = Inr l"
      using src None by (simp add: trimColonColonPrefix_def)
    ultimately show ?thesis using src assms by force
  next
    case (Some i)
    obtain t where t: "body = (take i body @ ''::'') @ t" "length body - (i + 2) = length t" "\<not> contains ''::'' t"
      using rfind_colons [OF Some] by blast
    let ?l = "mkLoc (fileRef l) (endLoc (offsets l) - of_nat (length t)) (endLoc (offsets l))"
    have "trimColonColonPrefix f l = Inr ?l"
      using src Some t(2) by (simp add: trimColonColonPrefix_def Let_def)
    moreover have "loc_in f ?l \<and> loc_source f ?l = Inr (Some t)"
      using loc_suffix [OF assms, of "take i body @ ''::''" t] src t(1) by metis
    moreover have "ends_with ''::'' (take i body @ ''::'')"
      by (simp add: ends_with_iff)
    ultimately show ?thesis
      using src t by (intro exI [of _ ?l] exI [of _ "take i body @ ''::''"] exI [of _ t]) simp
  qed
qed

definition qualified_file :: src_file where
  "qualified_file = example_file\<lparr>source := ''A::BC''\<rparr>"

section \<open>The state\<close>

record document =
  relative_path :: string
  doc_occurrences :: "occurrence list"
  doc_symbols :: "symbol_information list"

record scip_state =
  symbolStringCache :: "ugsr \<rightharpoonup> string"
  localOccurrenceCache :: "loc_offsets \<times> int \<Rightarrow> u32 list"
  symbolOccurrenceCache :: "(ugsr \<times> loc \<times> int) set"
  potentialRefOnlySymbols :: "u32 \<Rightarrow> ugsr list"
  gems :: gem_mapping
  occurrenceMap :: "u32 \<Rightarrow> occurrence list"
  emittedSymbols :: "(u32 \<times> string) set"
  symbolMap :: "u32 \<Rightarrow> symbol_information list"
  relationshipsMap :: "u32 \<Rightarrow> ugsr \<Rightarrow> (u32 \<times> u32 list) option"
  documents :: "document list"

definition new_scip_state :: "gem_mapping \<Rightarrow> scip_state" where
  "new_scip_state g = \<lparr>symbolStringCache = Map.empty, localOccurrenceCache = (\<lambda>k. []),
     symbolOccurrenceCache = {}, potentialRefOnlySymbols = (\<lambda>f. []), gems = g,
     occurrenceMap = (\<lambda>f. []), emittedSymbols = {}, symbolMap = (\<lambda>f. []),
     relationshipsMap = (\<lambda>f r. None), documents = []\<rparr>"

text \<open>Operations on the state that may raise.\<close>

type_synonym 'a scip = "(scip_state, scip_fail, 'a) op"

definition Definition_role :: int where "Definition_role = 1"

definition clearFunctionLocalCaches :: "unit scip" where
  "clearFunctionLocalCaches = modifyS (\<lambda>s. s\<lparr>localOccurrenceCache := (\<lambda>k. [])\<rparr>)"

text \<open>\<open>emitSymbolString\<close> appends to \<open>output\<close>; what it appended before it failed is not used.\<close>

definition emitAndCache :: "ugsr \<Rightarrow> scip_symbol \<Rightarrow> string \<Rightarrow> (unit scip_result \<times> string) scip" where
  "emitAndCache r symb output =
     (case emitSymbolString symb output of
        Inl e \<Rightarrow> returnS (RStatus e, output)
      | Inr out \<Rightarrow> bindS (modifyS (\<lambda>s. s\<lparr>symbolStringCache := (symbolStringCache s)(r \<mapsto> out)\<rparr>))
                     (\<lambda>u. returnS (ROk (), out)))"

definition saveSymbolString ::
  "scip_env \<Rightarrow> ugsr \<Rightarrow> scip_symbol option \<Rightarrow> string \<Rightarrow> (unit scip_result \<times> string) scip" where
  "saveSymbolString env r symb output =
     bindS (readS (\<lambda>s. symbolStringCache s r)) (\<lambda>hit.
       case hit of
         Some str \<Rightarrow> returnS (ROk (), str)
       | None \<Rightarrow>
           (case symb of
              Some x \<Rightarrow> emitAndCache r x output
            | None \<Rightarrow> bindS (readS gems) (\<lambda>g.
                (case symbolForExpr env g None r of
                   Inl e \<Rightarrow> failS e
                 | Inr RSkip \<Rightarrow> returnS (RSkip, output)
                 | Inr (RStatus e) \<Rightarrow> returnS (RStatus e, output)
                 | Inr (ROk x) \<Rightarrow> emitAndCache r x output))))"

definition escDoc :: "scip_env \<Rightarrow> string \<Rightarrow> string" where
  "escDoc env d = the (escapeInvalidUtf8 (env_decode env) d)"

definition alreadyEmittedSymbolInfo :: "u32 \<Rightarrow> string \<Rightarrow> bool scip" where
  "alreadyEmittedSymbolInfo f str = readS (\<lambda>s. (f, str) \<in> emittedSymbols s)"

text \<open>The result tells whether the information was emitted earlier.\<close>

definition saveSymbolInfo :: "scip_env \<Rightarrow> u32 \<Rightarrow> string \<Rightarrow> string list \<Rightarrow> relationship list \<Rightarrow> bool scip" where
  "saveSymbolInfo env f str docs rels =
     bindS (alreadyEmittedSymbolInfo f str) (\<lambda>earlier.
       if earlier then returnS True
       else bindS (modifyS (\<lambda>s. s\<lparr>symbolMap := (symbolMap s)(f := symbolMap s f @
              [\<lparr>info_symbol = str, documentation = map (escDoc env) docs, relationships = rels\<rparr>])\<rparr>))
            (\<lambda>u. returnS False))"

definition loc_empty :: "loc \<Rightarrow> bool" where
  "loc_empty l \<longleftrightarrow> beginLoc (offsets l) = endLoc (offsets l)"

definition addOccurrence :: "u32 \<Rightarrow> occurrence \<Rightarrow> unit scip" where
  "addOccurrence f oc = modifyS (\<lambda>s. s\<lparr>occurrenceMap := (occurrenceMap s)(f := occurrenceMap s f @ [oc])\<rparr>)"

definition saveDefinitionImpl ::
  "scip_env \<Rightarrow> u32 \<Rightarrow> string \<Rightarrow> loc \<Rightarrow> string list \<Rightarrow> relationship list \<Rightarrow> loc option \<Rightarrow> unit scip" where
  "saveDefinitionImpl env f str occLoc0 docs rels enclosingLoc =
     (if \<not> loc_exists occLoc0 \<or> loc_empty occLoc0 then returnS ()
      else bindS (liftS (trimColonColonPrefix (env_file env (fileRef occLoc0)) occLoc0) LocRaised) (\<lambda>occLoc.
        let rng = fromSorbetLoc (env_file env (fileRef occLoc)) occLoc in
        if length rng = 4 then returnS ()
        else bindS (saveSymbolInfo env f str docs rels) (\<lambda>earlier.
          addOccurrence f
            \<lparr>range = rng, occ_symbol = str, symbol_roles = Definition_role,
             override_documentation = (if earlier then map (escDoc env) docs else []),
             syntax_kind = 0, diagnostics = [],
             enclosing_range = (case enclosingLoc of
                 Some e \<Rightarrow> if \<not> loc_empty e then fromSorbetLoc (env_file env (fileRef e)) e else []
               | None \<Rightarrow> [])\<rparr>)))"

definition saveReferenceImpl ::
  "scip_env \<Rightarrow> u32 \<Rightarrow> string \<Rightarrow> string list \<Rightarrow> loc_offsets \<Rightarrow> int \<Rightarrow> unit scip" where
  "saveReferenceImpl env f str overrideDocs occLocOffsets roles =
     bindS (liftS (trimColonColonPrefix (env_file env f) \<lparr>fileRef = f, offsets = occLocOffsets\<rparr>) LocRaised) (\<lambda>occLoc.
       let rng = fromSorbetLoc (env_file env f) occLoc in
       if length rng = 4 then returnS ()
       else addOccurrence f
         \<lparr>range = rng, occ_symbol = str, symbol_roles = roles,
          override_documentation = map (escDoc env) overrideDocs, syntax_kind = 0, diagnostics = [],
          enclosing_range = []\<rparr>)"

record owned_local =
  ol_owner :: u32
  ol_counter :: u32
  ol_offsets :: loc_offsets

text \<open>The two overloads of \<open>cacheOccurrence\<close>; the result tells whether there was a hit.\<close>

definition cacheLocalOccurrence :: "owned_local \<Rightarrow> int \<Rightarrow> bool scip" where
  "cacheLocalOccurrence occ roles =
     bindS (readS (\<lambda>s. localOccurrenceCache s (ol_offsets occ, roles))) (\<lambda>counters.
       if ol_counter occ \<in> set counters then returnS True
       else bindS (modifyS (\<lambda>s. s\<lparr>localOccurrenceCache := (localOccurrenceCache s)
              ((ol_offsets occ, roles) := counters @ [ol_counter occ])\<rparr>)) (\<lambda>u. returnS False))"

definition cacheSymbolOccurrence :: "loc \<Rightarrow> ugsr \<Rightarrow> int \<Rightarrow> bool scip" where
  "cacheSymbolOccurrence l r roles =
     bindS (readS (\<lambda>s. (r, l, roles) \<in> symbolOccurrenceCache s)) (\<lambda>present.
     bindS (modifyS (\<lambda>s. s\<lparr>symbolOccurrenceCache := insert (r, l, roles) (symbolOccurrenceCache s)\<rparr>)) (\<lambda>u.
       returnS present))"

section \<open>Relationships\<close>

definition empty_rel :: relationship where
  "empty_rel = \<lparr>rel_symbol = [], is_reference = False, is_implementation = False,
     is_type_definition = False, is_definition = False\<rparr>"

text \<open>A relationship to the field of another class, left out when that has no symbol.\<close>

definition saveRelSymbol :: "scip_env \<Rightarrow> ugsr \<Rightarrow> relationship \<Rightarrow> relationship list scip" where
  "saveRelSymbol env r rel =
     bindS (saveSymbolString env r None []) (\<lambda>(res, str).
       returnS (case res of ROk u \<Rightarrow> [rel\<lparr>rel_symbol := str\<rparr>] | _ \<Rightarrow> []))"

fun saveMixins :: "scip_env \<Rightarrow> u32 \<Rightarrow> u32 list \<Rightarrow> relationship list scip" where
  "saveMixins env nm [] = returnS []"
| "saveMixins env nm (m # ms) =
     bindS (saveRelSymbol env \<lparr>selfOrOwner = m, ref_name = nm\<rparr> (empty_rel\<lparr>is_reference := True\<rparr>)) (\<lambda>xs.
     bindS (saveMixins env nm ms) (\<lambda>ys. returnS (xs @ ys)))"

definition saveParentRelationships :: "scip_env \<Rightarrow> u32 \<Rightarrow> ugsr \<Rightarrow> relationship list scip" where
  "saveParentRelationships env f r =
     bindS (readS (\<lambda>s. relationshipsMap s f r)) (\<lambda>found.
       case found of
         None \<Rightarrow> returnS []
       | Some (inherited, mixedIn) \<Rightarrow>
           bindS (if inherited \<noteq> selfOrOwner r
                  then saveRelSymbol env \<lparr>selfOrOwner = inherited, ref_name = ref_name r\<rparr>
                         (empty_rel\<lparr>is_definition := True\<rparr>)
                  else returnS []) (\<lambda>xs.
           bindS (saveMixins env (ref_name r) mixedIn) (\<lambda>ys.
             returnS (fast_sort compareRelationship (xs @ ys)))))"

definition saveAliasRelationship :: "scip_env \<Rightarrow> ugsr \<Rightarrow> relationship list \<Rightarrow> relationship list scip" where
  "saveAliasRelationship env aliased rels =
     bindS (saveRelSymbol env aliased (empty_rel\<lparr>is_reference := True\<rparr>)) (\<lambda>xs. returnS (rels @ xs))"

section \<open>Definitions and references\<close>

definition ruby_doc :: "string \<Rightarrow> string \<Rightarrow> string" where
  "ruby_doc var ty = replicate 3 backtick @ ''ruby'' @ [newline] @ var @ '' ('' @ ty @ '')''
     @ [newline] @ replicate 3 backtick"

text \<open>The hover text of a local with a known type; \<open>value()\<close> of a missing source raises.\<close>

definition localDocs :: "scip_env \<Rightarrow> loc \<Rightarrow> string option \<Rightarrow> string list scip" where
  "localDocs env l ty = (case ty of
     None \<Rightarrow> returnS []
   | Some t \<Rightarrow> (case loc_source (env_file env (fileRef l)) l of
       Inr (Some var) \<Rightarrow> returnS [ruby_doc var t]
     | _ \<Rightarrow> failS LocRaised))"

definition localString :: "scip_env \<Rightarrow> owned_local \<Rightarrow> string" where
  "localString env occ = toSCIPString (ol_counter occ) (env_fullName env (ol_owner occ))"

definition saveLocalDefinition :: "scip_env \<Rightarrow> u32 \<Rightarrow> owned_local \<Rightarrow> string option \<Rightarrow> loc option \<Rightarrow> unit scip" where
  "saveLocalDefinition env f occ ty enclosingLoc =
     bindS (cacheLocalOccurrence occ Definition_role) (\<lambda>hit.
       if hit then returnS ()
       else (let l = \<lparr>fileRef = f, offsets = ol_offsets occ\<rparr> in
         bindS (localDocs env l ty) (\<lambda>docs.
           saveDefinitionImpl env f (localString env occ) l docs [] enclosingLoc)))"

definition saveLocalReference :: "scip_env \<Rightarrow> u32 \<Rightarrow> owned_local \<Rightarrow> string option \<Rightarrow> int \<Rightarrow> unit scip" where
  "saveLocalReference env f occ overrideType roles =
     bindS (cacheLocalOccurrence occ roles) (\<lambda>hit.
       if hit then returnS ()
       else bindS (localDocs env \<lparr>fileRef = f, offsets = ol_offsets occ\<rparr> overrideType) (\<lambda>docs.
         saveReferenceImpl env f (localString env occ) docs (ol_offsets occ) roles))"

text \<open>The status an operation on a symbol returns: \<open>None\<close> is \<open>OkStatus\<close>.\<close>

definition saveSymbolDefinition ::
  "scip_env \<Rightarrow> u32 \<Rightarrow> gsr \<Rightarrow> ugsr option \<Rightarrow> loc_offsets option \<Rightarrow> loc option \<Rightarrow> scip_error option scip" where
  "saveSymbolDefinition env f symRef aliased l enclosingLoc =
     (let r = gsr_ref symRef;
          occLoc = (case l of Some x \<Rightarrow> \<lparr>fileRef = f, offsets = x\<rparr> | None \<Rightarrow> env_symbolLoc env r) in
      if \<not> loc_exists occLoc \<or> loc_empty occLoc then returnS None
      else bindS (readS gems) (\<lambda>g.
        case symbolForExpr env g (Some occLoc) r of
          Inl e \<Rightarrow> failS e
        | Inr RSkip \<Rightarrow> returnS None
        | Inr (RStatus e) \<Rightarrow> returnS (Some e)
        | Inr (ROk symb) \<Rightarrow>
            bindS (saveSymbolString env r (Some symb) []) (\<lambda>(res, str).
              case res of
                RStatus e \<Rightarrow> returnS (Some e)
              | RSkip \<Rightarrow> returnS None
              | ROk u \<Rightarrow>
                  bindS (saveParentRelationships env f r) (\<lambda>rels0.
                  bindS (case aliased of None \<Rightarrow> returnS rels0
                         | Some a \<Rightarrow> saveAliasRelationship env a rels0) (\<lambda>rels.
                  bindS (saveDefinitionImpl env f str occLoc (env_docs env r (definitionType symRef) occLoc)
                           rels enclosingLoc) (\<lambda>u.
                    returnS None))))))"

definition noteRefOnly :: "u32 \<Rightarrow> ugsr \<Rightarrow> string \<Rightarrow> unit scip" where
  "noteRefOnly f r str = modifyS (\<lambda>s.
     if (f, str) \<notin> emittedSymbols s \<and> relationshipsMap s f r \<noteq> None
     then s\<lparr>potentialRefOnlySymbols := (potentialRefOnlySymbols s)
            (f := List.insert r (potentialRefOnlySymbols s f))\<rparr>
     else s)"

text \<open>\<open>inStaticInit\<close> says whether the owner of the context is called \<open><static-init>\<close>.\<close>

definition saveSymbolReference ::
  "scip_env \<Rightarrow> bool \<Rightarrow> u32 \<Rightarrow> gsr \<Rightarrow> string option \<Rightarrow> loc_offsets \<Rightarrow> int \<Rightarrow> scip_error option scip" where
  "saveSymbolReference env inStaticInit f symRef overrideType occLoc roles =
     (let r = gsr_ref symRef; l = \<lparr>fileRef = f, offsets = occLoc\<rparr> in
      if inStaticInit \<and> isSorbetInternalClassOrMethod env symRef then returnS None
      else bindS (cacheSymbolOccurrence l r roles) (\<lambda>hit.
        if hit then returnS None
        else bindS (saveSymbolString env r None []) (\<lambda>(res, str).
          case res of
            RSkip \<Rightarrow> returnS None
          | RStatus e \<Rightarrow> returnS (Some e)
          | ROk u \<Rightarrow>
              (let docs = (if gsr_kind symRef \<in> {GK_Parameter, GK_Field} \<and> overrideType \<noteq> None
                           then env_docs env r overrideType l else []) in
               bindS (noteRefOnly f r str) (\<lambda>u.
               bindS (saveReferenceImpl env f str docs occLoc roles) (\<lambda>u. returnS None))))))"

fun finalizeLoop :: "scip_env \<Rightarrow> u32 \<Rightarrow> ugsr list \<Rightarrow> string \<Rightarrow> unit scip" where
  "finalizeLoop env f [] symbolString = returnS ()"
| "finalizeLoop env f (r # rs) symbolString =
     bindS (saveSymbolString env r None symbolString) (\<lambda>(res, str).
       case res of
         ROk u \<Rightarrow>
           bindS (alreadyEmittedSymbolInfo f str) (\<lambda>earlier.
             if earlier then finalizeLoop env f rs str
             else bindS (saveParentRelationships env f r) (\<lambda>rels.
                  bindS (saveSymbolInfo env f str [] rels) (\<lambda>e. finalizeLoop env f rs str)))
       | _ \<Rightarrow> finalizeLoop env f rs str)"

definition finalizeRefOnlySymbolInfos :: "scip_env \<Rightarrow> u32 \<Rightarrow> unit scip" where
  "finalizeRefOnlySymbolInfos env f =
     bindS (readS (\<lambda>s. potentialRefOnlySymbols s f)) (\<lambda>rs. finalizeLoop env f rs [])"

definition saveDocument :: "scip_env \<Rightarrow> u32 \<Rightarrow> unit scip" where
  "saveDocument env f = modifyS (\<lambda>s.
     let p = path (env_file env f);
         doc = \<lparr>relative_path = (if p \<noteq> [] \<and> hd p = CHR ''/'' then env_relative env p else p),
                doc_occurrences = fast_sort compareOccurrence (occurrenceMap s f),
                doc_symbols = fast_sort compareSymbolInformation (symbolMap s f)\<rparr>
     in s\<lparr>occurrenceMap := (occurrenceMap s)(f := []), symbolMap := (symbolMap s)(f := []),
          documents := documents s @ [doc]\<rparr>)"

text \<open>What the alias map does for every field it meets: remember the resolved owners once.\<close>

definition setRelationship :: "u32 \<Rightarrow> ugsr \<Rightarrow> u32 \<times> u32 list \<Rightarrow> unit scip" where
  "setRelationship f r q = modifyS (\<lambda>s.
     if relationshipsMap s f r \<noteq> None then s
     else s\<lparr>relationshipsMap := (relationshipsMap s)(f := (relationshipsMap s f)(r \<mapsto> q))\<rparr>)"

section \<open>Invariants\<close>

text \<open>Between two calls: every symbol that waits for its information has recorded relationships and a cached
  string, every cached string is one that was emitted into an empty buffer, and every recorded
  occurrence stays on one line.  The set of emitted symbols is never written.\<close>

definition scip_inv :: "scip_state \<Rightarrow> bool" where
  "scip_inv s \<longleftrightarrow> emittedSymbols s = {}
     \<and> (\<forall>f r. r \<in> set (potentialRefOnlySymbols s f) \<longrightarrow> symbolStringCache s r \<noteq> None \<and> relationshipsMap s f r \<noteq> None)
     \<and> (\<forall>r str. symbolStringCache s r = Some str \<longrightarrow> (\<exists>symb. emitSymbolString symb [] = Inr str))
     \<and> (\<forall>f oc. oc \<in> set (occurrenceMap s f) \<longrightarrow> length (range oc) = 3)"

abbreviation keeps :: "'a scip \<Rightarrow> bool" where
  "keeps m \<equiv> hoare scip_inv m (\<lambda>x. scip_inv)"

lemmas keeps_basic = hoare_fail hoare_return hoare_read hoare_bind [where R = "\<lambda>x. scip_inv"] hoare_lift

lemma keeps_emitAndCache: "keeps (emitAndCache r x [])"
  unfolding emitAndCache_def
  by (auto split: sum.split intro!: keeps_basic hoare_modify simp: scip_inv_def)

lemma keeps_saveSymbolString: "keeps (saveSymbolString env r x [])"
  unfolding saveSymbolString_def
  by (auto split: option.split sum.split scip_result.split intro!: keeps_basic keeps_emitAndCache)

text \<open>After a successful call the string is cached.\<close>

lemma saveSymbolString_caches:
  "hoare scip_inv (saveSymbolString env r x [])
     (\<lambda>(res, str) s. scip_inv s \<and> (res = ROk () \<longrightarrow> symbolStringCache s r = Some str))"
proof -
  have "hoare scip_inv (emitAndCache r y [])
     (\<lambda>(res, str) s. scip_inv s \<and> (res = ROk () \<longrightarrow> symbolStringCache s r = Some str))" for y
    unfolding emitAndCache_def
    by (cases "emitSymbolString y []")
      (auto intro!: hoare_return hoare_bind [where R = "\<lambda>u s. scip_inv s \<and> (\<exists>o'. emitSymbolString y [] = Inr o' \<and> symbolStringCache s r = Some o')"]
        hoare_modify simp: scip_inv_def)
  then have fresh: "hoare (\<lambda>s. scip_inv s \<and> symbolStringCache s r = None)
      (case x of Some y \<Rightarrow> emitAndCache r y []
       | None \<Rightarrow> bindS (readS gems) (\<lambda>g. case symbolForExpr env g None r of
             Inl e \<Rightarrow> failS e | Inr RSkip \<Rightarrow> returnS (RSkip, []) | Inr (RStatus e) \<Rightarrow> returnS (RStatus e, [])
           | Inr (ROk y) \<Rightarrow> emitAndCache r y []))
      (\<lambda>(res, str) s. scip_inv s \<and> (res = ROk () \<longrightarrow> symbolStringCache s r = Some str))"
    by (auto split: option.split sum.split scip_result.split
        intro!: hoare_bind [where R = "\<lambda>g. scip_inv"] hoare_read hoare_return hoare_fail
        intro: hoare_pre)
  show ?thesis
    unfolding saveSymbolString_def
  proof (rule hoare_bind [where R = "\<lambda>h s. scip_inv s \<and> symbolStringCache s r = h"])
    fix hit
    show "hoare (\<lambda>s. scip_inv s \<and> symbolStringCache s r = hit)
        (case hit of Some str \<Rightarrow> returnS (ROk (), str)
         | None \<Rightarrow> (case x of Some y \<Rightarrow> emitAndCache r y []
            | None \<Rightarrow> bindS (readS gems) (\<lambda>g. case symbolForExpr env g None r of
                 Inl e \<Rightarrow> failS e | Inr RSkip \<Rightarrow> returnS (RSkip, []) | Inr (RStatus e) \<Rightarrow> returnS (RStatus e, [])
               | Inr (ROk y) \<Rightarrow> emitAndCache r y [])))
        (\<lambda>(res, str) s. scip_inv s \<and> (res = ROk () \<longrightarrow> symbolStringCache s r = Some str))"
      using fresh by (cases hit) (auto intro: hoare_return)
  qed (auto intro: hoare_read)
qed

lemma keeps_saveSymbolInfo: "keeps (saveSymbolInfo env f str docs rels)"
  unfolding saveSymbolInfo_def alreadyEmittedSymbolInfo_def
  by (auto intro!: keeps_basic hoare_modify simp: scip_inv_def)

lemma fromSorbetLoc_length: "length (fromSorbetLoc f l) \<noteq> 4 \<Longrightarrow> length (fromSorbetLoc f l) = 3"
  by (auto simp: fromSorbetLoc_def split: prod.splits)

lemma keeps_addOccurrence: "length (range oc) = 3 \<Longrightarrow> keeps (addOccurrence f oc)"
  unfolding addOccurrence_def by (rule hoare_modify) (auto simp: scip_inv_def)

lemma keeps_saveDefinitionImpl: "keeps (saveDefinitionImpl env f str l docs rels encl)"
  unfolding saveDefinitionImpl_def Let_def
  by (auto intro!: keeps_basic keeps_saveSymbolInfo keeps_addOccurrence fromSorbetLoc_length)

lemma keeps_saveReferenceImpl: "keeps (saveReferenceImpl env f str docs l roles)"
  unfolding saveReferenceImpl_def Let_def
  by (auto intro!: keeps_basic keeps_addOccurrence fromSorbetLoc_length)

lemma keeps_cache: "keeps (cacheLocalOccurrence occ roles)" "keeps (cacheSymbolOccurrence l r roles)"
  unfolding cacheLocalOccurrence_def cacheSymbolOccurrence_def
  by (auto intro!: keeps_basic hoare_modify simp: scip_inv_def)

lemma keeps_localDocs: "keeps (localDocs env l ty)"
  unfolding localDocs_def by (auto split: option.split sum.split intro!: keeps_basic)

lemma keeps_saveRelSymbol: "keeps (saveRelSymbol env r rel)"
  unfolding saveRelSymbol_def by (auto intro!: keeps_basic keeps_saveSymbolString)

lemma keeps_saveMixins: "keeps (saveMixins env nm ms)"
  by (induction env nm ms rule: saveMixins.induct) (auto intro!: keeps_basic keeps_saveRelSymbol)

lemma keeps_saveParentRelationships: "keeps (saveParentRelationships env f r)"
  unfolding saveParentRelationships_def
  by (auto split: option.split intro!: keeps_basic keeps_saveRelSymbol keeps_saveMixins)

lemma keeps_saveAliasRelationship: "keeps (saveAliasRelationship env a rels)"
  unfolding saveAliasRelationship_def by (auto intro!: keeps_basic keeps_saveRelSymbol)

lemmas keeps_helpers = keeps_saveSymbolString keeps_saveSymbolInfo keeps_saveDefinitionImpl
  keeps_saveReferenceImpl keeps_cache keeps_localDocs keeps_saveParentRelationships keeps_saveAliasRelationship

lemma keeps_local:
  "keeps (saveLocalDefinition env f occ ty encl)" "keeps (saveLocalReference env f occ ty' roles)"
  unfolding saveLocalDefinition_def saveLocalReference_def Let_def
  by (auto intro!: keeps_basic keeps_helpers)

lemma keeps_saveSymbolDefinition: "keeps (saveSymbolDefinition env f symRef aliased l encl)"
  unfolding saveSymbolDefinition_def Let_def
  by (auto split: option.split sum.split scip_result.split intro!: keeps_basic keeps_helpers)

lemma keeps_noteRefOnly:
  "hoare (\<lambda>s. scip_inv s \<and> symbolStringCache s r = Some str) (noteRefOnly f r str) (\<lambda>u. scip_inv)"
  unfolding noteRefOnly_def by (rule hoare_modify) (auto simp: scip_inv_def)

lemma keeps_saveSymbolReference: "keeps (saveSymbolReference env st f symRef ty l roles)"
proof -
  let ?r = "gsr_ref symRef"
  have after: "hoare (\<lambda>s. scip_inv s \<and> (res = ROk () \<longrightarrow> symbolStringCache s ?r = Some str))
      (case res of RSkip \<Rightarrow> returnS None | RStatus e \<Rightarrow> returnS (Some e)
       | ROk u \<Rightarrow> bindS (noteRefOnly f ?r str) (\<lambda>u.
           bindS (saveReferenceImpl env f str docs l roles) (\<lambda>u. returnS None)))
      (\<lambda>x. scip_inv)" for res str docs
  proof (cases res)
    case (ROk u)
    then show ?thesis
      by (auto intro!: hoare_bind [where R = "\<lambda>x. scip_inv"] hoare_return keeps_saveReferenceImpl
          keeps_noteRefOnly)
  qed (auto intro: hoare_return)
  have found: "hoare scip_inv (bindS (saveSymbolString env ?r None []) (\<lambda>(res, str).
      case res of RSkip \<Rightarrow> returnS None | RStatus e \<Rightarrow> returnS (Some e)
       | ROk u \<Rightarrow> bindS (noteRefOnly f ?r str) (\<lambda>u.
           bindS (saveReferenceImpl env f str docs l roles) (\<lambda>u. returnS None))))
      (\<lambda>x. scip_inv)" for docs
    using after by (intro hoare_bind [OF saveSymbolString_caches]) (auto split: prod.split)
  show ?thesis
    unfolding saveSymbolReference_def Let_def
    by (auto intro!: keeps_basic keeps_cache found)
qed

subsection \<open>Information about symbols\<close>

lemma hoareD: "hoare P m Q \<Longrightarrow> P s \<Longrightarrow> m s = Inr (x, s') \<Longrightarrow> Q x s'"
  by (auto simp: hoare_def)

text \<open>Saving information always adds a record, even for a symbol that has one.\<close>

lemma saveSymbolInfo_reachable:
  assumes "scip_inv s"
  shows "saveSymbolInfo env f str docs rels s = Inr (False, s\<lparr>symbolMap := (symbolMap s)(f := symbolMap s f @
     [\<lparr>info_symbol = str, documentation = map (escDoc env) docs, relationships = rels\<rparr>])\<rparr>)"
  using assms
  by (simp add: saveSymbolInfo_def alreadyEmittedSymbolInfo_def bindS_def readS_def modifyS_def returnS_def scip_inv_def)

text \<open>What looking up strings leaves alone: the information, and every cached string.\<close>

definition extends :: "scip_state \<Rightarrow> scip_state \<Rightarrow> bool" where
  "extends s0 s \<longleftrightarrow> symbolMap s = symbolMap s0 \<and> emittedSymbols s = emittedSymbols s0
     \<and> (\<forall>r v. symbolStringCache s0 r = Some v \<longrightarrow> symbolStringCache s r = Some v)"

abbreviation looks_up :: "'a scip \<Rightarrow> bool" where
  "looks_up m \<equiv> (\<forall>s0. hoare (extends s0) m (\<lambda>x. extends s0))"

lemma looks_up_return: "looks_up (returnS x)"
  by (auto intro: hoare_return)

lemma looks_up_bind: "looks_up m \<Longrightarrow> (\<And>x. looks_up (k x)) \<Longrightarrow> looks_up (bindS m k)"
  by (blast intro: hoare_bind)

lemma looks_up_read: "looks_up (readS f)"
  by (auto intro: hoare_read)

lemma looks_up_saveSymbolString: "looks_up (saveSymbolString env r x out)"
proof
  fix s0
  have emit: "hoare (\<lambda>s. extends s0 s \<and> symbolStringCache s r = None) (emitAndCache r y out) (\<lambda>x. extends s0)" for y
    unfolding emitAndCache_def
    by (cases "emitSymbolString y out")
      (auto intro!: hoare_return hoare_bind [where R = "\<lambda>u. extends s0"] hoare_modify simp: extends_def)
  show "hoare (extends s0) (saveSymbolString env r x out) (\<lambda>x. extends s0)"
    unfolding saveSymbolString_def
  proof (rule hoare_bind [where R = "\<lambda>h s. extends s0 s \<and> symbolStringCache s r = h"])
    fix hit
    show "hoare (\<lambda>s. extends s0 s \<and> symbolStringCache s r = hit)
        (case hit of Some str \<Rightarrow> returnS (ROk (), str)
         | None \<Rightarrow> (case x of Some y \<Rightarrow> emitAndCache r y out
            | None \<Rightarrow> bindS (readS gems) (\<lambda>g. case symbolForExpr env g None r of
                 Inl e \<Rightarrow> failS e | Inr RSkip \<Rightarrow> returnS (RSkip, out) | Inr (RStatus e) \<Rightarrow> returnS (RStatus e, out)
               | Inr (ROk y) \<Rightarrow> emitAndCache r y out)))
        (\<lambda>x. extends s0)"
      by (cases hit) (auto split: option.split sum.split scip_result.split
          intro!: hoare_return hoare_fail emit hoare_read
            hoare_bind [where R = "\<lambda>g s. extends s0 s \<and> symbolStringCache s r = None"])
  qed (auto intro: hoare_read)
qed

lemma looks_up_saveRelSymbol: "looks_up (saveRelSymbol env r rel)"
  unfolding saveRelSymbol_def
  by (intro looks_up_bind looks_up_saveSymbolString) (auto intro: hoare_return split: prod.split)

lemma looks_up_saveMixins: "looks_up (saveMixins env nm ms)"
  by (induction env nm ms rule: saveMixins.induct)
    (simp_all only: saveMixins.simps, intro looks_up_return, intro looks_up_bind looks_up_saveRelSymbol looks_up_return)

lemma looks_up_saveParentRelationships: "looks_up (saveParentRelationships env f r)"
proof -
  have "looks_up (bindS (if inherited \<noteq> selfOrOwner r
                  then saveRelSymbol env \<lparr>selfOrOwner = inherited, ref_name = ref_name r\<rparr>
                         (empty_rel\<lparr>is_definition := True\<rparr>)
                  else returnS []) (\<lambda>xs.
           bindS (saveMixins env (ref_name r) mixedIn) (\<lambda>ys.
             returnS (fast_sort compareRelationship (xs @ ys)))))" for inherited mixedIn
    by (intro looks_up_bind looks_up_saveMixins looks_up_return)
      (simp add: looks_up_saveRelSymbol looks_up_return)
  note some = this
  show ?thesis
    unfolding saveParentRelationships_def
  proof (intro looks_up_bind looks_up_read)
    fix found :: "(u32 \<times> u32 list) option"
    show "looks_up (case found of None \<Rightarrow> returnS []
       | Some (inherited, mixedIn) \<Rightarrow>
           bindS (if inherited \<noteq> selfOrOwner r
                  then saveRelSymbol env \<lparr>selfOrOwner = inherited, ref_name = ref_name r\<rparr>
                         (empty_rel\<lparr>is_definition := True\<rparr>)
                  else returnS []) (\<lambda>xs.
           bindS (saveMixins env (ref_name r) mixedIn) (\<lambda>ys.
             returnS (fast_sort compareRelationship (xs @ ys)))))"
      by (cases found) (simp_all only: option.case case_prod_beta looks_up_return some simp_thms)
  qed
qed

lemma saveSymbolString_hit:
  "symbolStringCache s r = Some str \<Longrightarrow> saveSymbolString env r x out s = Inr ((ROk (), str), s)"
  by (simp add: saveSymbolString_def bindS_def readS_def returnS_def)

lemma bindS_Inr: "bindS m k s = Inr (x, s'') \<longleftrightarrow> (\<exists>y s'. m s = Inr (y, s') \<and> k y s' = Inr (x, s''))"
  by (auto simp: bindS_def split: sum.splits)

lemma finalizeLoop_infos:
  assumes "scip_inv s" "\<forall>r\<in>set rs. symbolStringCache s r \<noteq> None" "finalizeLoop env f rs out s = Inr (u, s')"
  shows "scip_inv s' \<and> map info_symbol (symbolMap s' f) =
      map info_symbol (symbolMap s f) @ map (\<lambda>r. the (symbolStringCache s r)) rs"
  using assms
proof (induction rs arbitrary: out s)
  case Nil
  then show ?case by (simp add: returnS_def)
next
  case (Cons r rs)
  then obtain str where str: "symbolStringCache s r = Some str" by auto
  have ne: "emittedSymbols s = {}" using Cons.prems(1) by (simp add: scip_inv_def)
  from Cons.prems(3) str ne obtain rels s1 where
    rels: "saveParentRelationships env f r s = Inr (rels, s1)" and
    rest: "bindS (saveSymbolInfo env f str [] rels) (\<lambda>e. finalizeLoop env f rs str) s1 = Inr (u, s')"
    by (auto simp: bindS_Inr saveSymbolString_hit alreadyEmittedSymbolInfo_def readS_def)
  have ext: "extends s s1"
    using hoareD [OF looks_up_saveParentRelationships [rule_format, of s] _ rels] by (simp add: extends_def)
  have inv1: "scip_inv s1"
    using hoareD [OF keeps_saveParentRelationships Cons.prems(1) rels] .
  define s2 where "s2 = s1\<lparr>symbolMap := (symbolMap s1)(f := symbolMap s1 f @
     [\<lparr>info_symbol = str, documentation = map (escDoc env) [], relationships = rels\<rparr>])\<rparr>"
  have loop: "finalizeLoop env f rs str s2 = Inr (u, s')"
    using rest saveSymbolInfo_reachable [OF inv1, of env f str "[]" rels] by (simp add: bindS_def s2_def)
  have cached: "symbolStringCache s2 q = symbolStringCache s q" if "q \<in> set rs" for q
    using that Cons.prems(2) ext by (auto simp: extends_def s2_def)
  have "scip_inv s2" using inv1 unfolding scip_inv_def s2_def by simp
  then have "scip_inv s' \<and> map info_symbol (symbolMap s' f) =
      map info_symbol (symbolMap s2 f) @ map (\<lambda>r. the (symbolStringCache s2 r)) rs"
    using loop cached Cons.prems(2) by (intro Cons.IH) auto
  moreover have "map (\<lambda>r. the (symbolStringCache s2 r)) rs = map (\<lambda>r. the (symbolStringCache s r)) rs"
    using cached by simp
  ultimately show ?case
    using str ext by (simp add: s2_def extends_def)
qed

lemma keeps_rest:
  "keeps (finalizeRefOnlySymbolInfos env f)" "keeps (saveDocument env f)"
  "keeps clearFunctionLocalCaches" "keeps (setRelationship f r q)"
proof -
  show "keeps (finalizeRefOnlySymbolInfos env f)"
    unfolding hoare_def finalizeRefOnlySymbolInfos_def
    by (auto simp: bindS_def readS_def) (metis finalizeLoop_infos scip_inv_def)
qed (unfold saveDocument_def clearFunctionLocalCaches_def setRelationship_def,
  auto intro!: keeps_basic hoare_modify simp: scip_inv_def Let_def)

text \<open>The states the indexer reaches: any sequence of the public operations that did not raise.
  \<open>potentialRefOnlySymbols\<close> holds hash sets: the list is the order in which one would be iterated, and any
  operation may change it.\<close>

inductive scip_reachable :: "scip_env \<Rightarrow> scip_state \<Rightarrow> bool" for env where
  init: "scip_reachable env (new_scip_state g)"
| local_definition: "scip_reachable env s \<Longrightarrow> saveLocalDefinition env f occ ty encl s = Inr (u, s') \<Longrightarrow> scip_reachable env s'"
| local_reference: "scip_reachable env s \<Longrightarrow> saveLocalReference env f occ ty roles s = Inr (u, s') \<Longrightarrow> scip_reachable env s'"
| symbol_definition: "scip_reachable env s \<Longrightarrow> saveSymbolDefinition env f symRef aliased l encl s = Inr (st, s') \<Longrightarrow> scip_reachable env s'"
| symbol_reference: "scip_reachable env s \<Longrightarrow> saveSymbolReference env inStaticInit f symRef ty offs roles s = Inr (st, s') \<Longrightarrow> scip_reachable env s'"
| relationship: "scip_reachable env s \<Longrightarrow> setRelationship f r q s = Inr (u, s') \<Longrightarrow> scip_reachable env s'"
| clear_caches: "scip_reachable env s \<Longrightarrow> clearFunctionLocalCaches s = Inr (u, s') \<Longrightarrow> scip_reachable env s'"
| finalize: "scip_reachable env s \<Longrightarrow> finalizeRefOnlySymbolInfos env f s = Inr (u, s') \<Longrightarrow> scip_reachable env s'"
| reorder: "scip_reachable env s \<Longrightarrow> mset rs = mset (potentialRefOnlySymbols s f) \<Longrightarrow>
    scip_reachable env (s\<lparr>potentialRefOnlySymbols := (potentialRefOnlySymbols s)(f := rs)\<rparr>)"
| save_document: "scip_reachable env s \<Longrightarrow> saveDocument env f s = Inr (u, s') \<Longrightarrow> scip_reachable env s'"

lemma reachable_inv: "scip_reachable env s \<Longrightarrow> scip_inv s"
proof (induction rule: scip_reachable.induct)
  case (init g)
  then show ?case by (simp add: scip_inv_def new_scip_state_def)
next
  case (reorder s rs f)
  from reorder(2) have "set rs = set (potentialRefOnlySymbols s f)" by (rule mset_eq_setD)
  with reorder(3) show ?case unfolding scip_inv_def by simp
qed (erule (1) hoareD [OF keeps_local(1)] hoareD [OF keeps_local(2)] hoareD [OF keeps_saveSymbolDefinition]
    hoareD [OF keeps_saveSymbolReference] hoareD [OF keeps_rest(1)] hoareD [OF keeps_rest(2)]
    hoareD [OF keeps_rest(3)] hoareD [OF keeps_rest(4)])+

text \<open>C10: in every state the indexer reaches, all recorded occurrences stay on one line; every symbol that waits
  for its information has its relationships recorded and its string in the cache; and every cached
  string is the emission of one symbol into an empty buffer, so although
  \<open>finalizeRefOnlySymbolInfos\<close> reuses one buffer for all strings of a file, no string is ever appended to
  another, in whatever order the set of symbols is iterated.\<close>

theorem scip_state_invariant:
  assumes "scip_reachable env s"
  shows "(\<forall>oc\<in>set (occurrenceMap s f). length (range oc) = 3)
    \<and> (\<forall>r\<in>set (potentialRefOnlySymbols s f). symbolStringCache s r \<noteq> None \<and> relationshipsMap s f r \<noteq> None)
    \<and> (\<forall>r str. symbolStringCache s r = Some str \<longrightarrow> (\<exists>symb. emitSymbolString symb [] = Inr str))"
  using reachable_inv [OF assms] by (auto simp: scip_inv_def)

text \<open>The set of emitted symbols is documented to mirror the recorded information, but it stays empty.\<close>

lemma emittedSymbols_never_filled: "scip_reachable env s \<Longrightarrow> emittedSymbols s = {}"
  using reachable_inv by (auto simp: scip_inv_def)

text \<open>So finalizing a file adds a record for every symbol that was only referenced, also when there is one.\<close>

lemma finalize_records_cached_strings:
  assumes "scip_reachable env s" "finalizeRefOnlySymbolInfos env f s = Inr (u, s')"
  shows "map info_symbol (symbolMap s' f) =
     map info_symbol (symbolMap s f) @ map (\<lambda>r. the (symbolStringCache s r)) (potentialRefOnlySymbols s f)"
proof -
  have "scip_inv s" by (rule reachable_inv [OF assms(1)])
  then show ?thesis
    using finalizeLoop_infos [of s "potentialRefOnlySymbols s f" env f "[]" u s'] assms(2)
    by (auto simp: finalizeRefOnlySymbolInfos_def bindS_def readS_def scip_inv_def)
qed

section \<open>Repeated occurrences\<close>

lemma cacheLocal_hit:
  "ol_counter occ \<in> set (localOccurrenceCache s (ol_offsets occ, roles)) \<Longrightarrow>
     cacheLocalOccurrence occ roles s = Inr (True, s)"
  by (simp add: cacheLocalOccurrence_def bindS_def readS_def returnS_def)

lemma cacheLocal_miss:
  "ol_counter occ \<notin> set (localOccurrenceCache s (ol_offsets occ, roles)) \<Longrightarrow>
     cacheLocalOccurrence occ roles s = Inr (False, s\<lparr>localOccurrenceCache := (localOccurrenceCache s)
       ((ol_offsets occ, roles) := localOccurrenceCache s (ol_offsets occ, roles) @ [ol_counter occ])\<rparr>)"
  by (simp add: cacheLocalOccurrence_def bindS_def readS_def returnS_def modifyS_def)

lemma saveReferenceImpl_caches:
  "saveReferenceImpl env f str docs l roles s = Inr (u, s') \<Longrightarrow> localOccurrenceCache s' = localOccurrenceCache s"
  by (auto simp: saveReferenceImpl_def bindS_Inr liftS_def failS_def returnS_def Let_def addOccurrence_def
      modifyS_def split: sum.splits if_splits)

lemma localDocs_state: "localDocs env l ty s = Inr (docs, s') \<Longrightarrow> s' = s"
  by (auto simp: localDocs_def returnS_def failS_def split: option.splits sum.splits)

text \<open>A repeated reference to a local at the same place is recorded once: after a call has
  succeeded, the same call changes nothing.\<close>

lemma local_reference_once:
  assumes "saveLocalReference env f occ ty roles s = Inr (u, s')"
  shows "saveLocalReference env f occ ty' roles s' = Inr ((), s')"
proof -
  have "ol_counter occ \<in> set (localOccurrenceCache s' (ol_offsets occ, roles))"
  proof (cases "ol_counter occ \<in> set (localOccurrenceCache s (ol_offsets occ, roles))")
    case True
    with assms show ?thesis
      by (auto simp: saveLocalReference_def bindS_Inr cacheLocal_hit returnS_def)
  next
    case False
    with assms show ?thesis
      by (auto simp: saveLocalReference_def bindS_Inr cacheLocal_miss
          dest!: localDocs_state saveReferenceImpl_caches)
  qed
  then show ?thesis
    by (simp add: saveLocalReference_def bindS_def cacheLocal_hit returnS_def)
qed

section \<open>A run\<close>

text \<open>A field \<open>@x\<close> of a class that inherits it from another class, referenced in a small file.\<close>

definition demo_env :: scip_env where
  "demo_env = \<lparr>env_owner = (\<lambda>r. sym_root), env_show = (\<lambda>r. if r = 32 then ''K'' else ''L''),
     env_fullName = (\<lambda>r. ''K''), env_shortName = (\<lambda>n. ''x''), env_locFile = (\<lambda>r. 1),
     env_file = (\<lambda>f. example_file), env_decode = (\<lambda>t. None), env_internal = [],
     env_symbolLoc = (\<lambda>r. loc_none 1), env_docs = (\<lambda>r t l. []), env_relative = (\<lambda>p. p)\<rparr>"

definition demo_gems :: gem_mapping where
  "demo_gems = markCurrentGem \<lparr>gem_name = ''g'', gem_version = ''1''\<rparr> new_gem_mapping"

definition demo_field :: "u32 \<Rightarrow> ugsr" where
  "demo_field k = \<lparr>selfOrOwner = k, ref_name = 5\<rparr>"

definition demo_local :: owned_local where
  "demo_local = \<lparr>ol_owner = 32, ol_counter = 7, ol_offsets = \<lparr>beginLoc = 2, endLoc = 3\<rparr>\<rparr>"

definition demo_start :: scip_state where
  "demo_start = (new_scip_state demo_gems)\<lparr>relationshipsMap :=
     (\<lambda>f r. None)(1 := (\<lambda>r. None)(demo_field 32 \<mapsto> (40, [])))\<rparr>"

definition demo_string :: "string \<Rightarrow> string" where
  "demo_string k = ''scip-ruby gem g 1 '' @ k @ ''#x.''"

lemma demo_lines: "findLineBreaks (source example_file) = [3, 6]" "source example_file ! 2 = CHR ''x''"
  by code_simp+

lemma demo_source: "loc_source example_file (mkLoc 1 2 3) = Inr (Some ''x'')"
  by (simp add: loc_source_def loc_exists_def offs_exists_def INVALID_POS_def mkLoc_def offs_length_def
      substr_def example_file_def)

lemma demo_reference:
  "saveReferenceImpl demo_env 1 str [] \<lparr>beginLoc = 2, endLoc = 3\<rparr> roles s = Inr ((),
     s\<lparr>occurrenceMap := (occurrenceMap s)(1 := occurrenceMap s 1 @ [\<lparr>range = [0, 2, 3], occ_symbol = str,
       symbol_roles = roles, override_documentation = [], syntax_kind = 0, diagnostics = [],
       enclosing_range = []\<rparr>])\<rparr>)"
proof -
  have "trimColonColonPrefix example_file (mkLoc 1 2 3) = Inr (mkLoc 1 2 3)"
    by (simp add: trimColonColonPrefix_def demo_source starts_with_def)
  moreover have "fromSorbetLoc example_file (mkLoc 1 2 3) = [0, 2, 3]"
    by (simp add: fromSorbetLoc_def toDetails_def pos2Detail_def demo_lines lower_bound_def mkLoc_def)
  ultimately show ?thesis
    by (simp add: saveReferenceImpl_def bindS_def liftS_def returnS_def addOccurrence_def modifyS_def
        demo_env_def mkLoc_def)
qed

lemma demo_symbol:
  "k \<in> {32, 40} \<Longrightarrow> symbolForExpr demo_env demo_gems None (demo_field k) = Inr (ROk
     \<lparr>symbol_package = Some \<lparr>package_name = ''g'', package_version = ''1''\<rparr>,
      descriptors = [\<lparr>d_name = (if k = 32 then ''K'' else ''L''), disambiguator = [], suffix = TypeD\<rparr>,
        \<lparr>d_name = ''x'', disambiguator = [], suffix = Term\<rparr>]\<rparr>)"
proof -
  assume k: "k \<in> {32, 40}"
  have "ownerDescriptors demo_env sym_root = Some (Inr [])"
    by (subst ownerDescriptors.simps) simp
  then have "ownerDescriptors demo_env k = Some (Inr [\<lparr>d_name = (if k = 32 then ''K'' else ''L''),
      disambiguator = [], suffix = TypeD\<rparr>])"
    using k by (subst ownerDescriptors.simps)
      (auto simp: sym_root_def sym_kind_def KIND_MASK_def demo_env_def symbol_suffix_def)
  moreover have "gem_for demo_env demo_gems None (demo_field k) = Inr (Some \<lparr>gem_name = ''g'', gem_version = ''1''\<rparr>)"
  proof -
    have "\<not> contains ''sorbet/rbi/'' ''a.rb''" by code_simp
    then show ?thesis
      by (simp add: gem_for_def isGlobal_def demo_env_def demo_field_def lookupGemForFile_def demo_gems_def
          markCurrentGem_def new_gem_mapping_def example_file_def URL_PREFIX_def starts_with_def)
  qed
  moreover have "sym_kind k = Some SK_ClassOrModule"
    using k by (auto simp: sym_kind_def KIND_MASK_def)
  ultimately show ?thesis
    by (simp add: symbolForExpr_def demo_field_def Let_def demo_env_def)
qed

lemma demo_emit:
  "emitSymbolString \<lparr>symbol_package = Some \<lparr>package_name = ''g'', package_version = ''1''\<rparr>,
      descriptors = [\<lparr>d_name = [c], disambiguator = [], suffix = TypeD\<rparr>,
        \<lparr>d_name = ''x'', disambiguator = [], suffix = Term\<rparr>]\<rparr> [] = Inr (demo_string [c])"
  if "c \<in> {CHR ''K'', CHR ''L''}"
  using that
  by (auto simp: emitSymbolString_def emitField_def addSpaceEscaped_def emitDescriptorString_def addEscaped_def
      escape_flags_def simple_char_def demo_string_def)

lemma demo_string_saved:
  assumes "k = 32 \<and> c = CHR ''K'' \<or> k = 40 \<and> c = CHR ''L''" "symbolStringCache s (demo_field k) = None"
    and "gems s = demo_gems"
  shows "saveSymbolString demo_env (demo_field k) None [] s = Inr ((ROk (), demo_string [c]),
     s\<lparr>symbolStringCache := (symbolStringCache s)(demo_field k \<mapsto> demo_string [c])\<rparr>)"
  using assms demo_symbol [of k] demo_emit [of c]
  by (auto simp: saveSymbolString_def bindS_def readS_def emitAndCache_def modifyS_def returnS_def)

definition demo_referenced :: scip_state where
  "demo_referenced = demo_start\<lparr>
     symbolOccurrenceCache := {(demo_field 32, mkLoc 1 2 3, 8)},
     symbolStringCache := [demo_field 32 \<mapsto> demo_string ''K''],
     potentialRefOnlySymbols := (\<lambda>f. [])(1 := [demo_field 32]),
     occurrenceMap := (\<lambda>f. [])(1 := [\<lparr>range = [0, 2, 3], occ_symbol = demo_string ''K'', symbol_roles = 8,
       override_documentation = [], syntax_kind = 0, diagnostics = [], enclosing_range = []\<rparr>])\<rparr>"

lemma demo_start_reachable: "scip_reachable demo_env demo_start"
proof (rule scip_reachable.relationship [OF scip_reachable.init [of _ demo_gems]])
  show "setRelationship 1 (demo_field 32) (40, []) (new_scip_state demo_gems) = Inr ((), demo_start)"
    by (simp add: setRelationship_def modifyS_def demo_start_def new_scip_state_def)
qed

lemma demo_referenced_step:
  "saveSymbolReference demo_env False 1 \<lparr>gsr_ref = demo_field 32, definitionType = None\<rparr> None
     \<lparr>beginLoc = 2, endLoc = 3\<rparr> 8 demo_start = Inr (None, demo_referenced)"
proof -
  have "cacheSymbolOccurrence (mkLoc 1 2 3) (demo_field 32) 8 demo_start
      = Inr (False, demo_start\<lparr>symbolOccurrenceCache := {(demo_field 32, mkLoc 1 2 3, 8)}\<rparr>)"
    by (simp add: cacheSymbolOccurrence_def bindS_def readS_def modifyS_def returnS_def demo_start_def new_scip_state_def)
  moreover have "saveSymbolString demo_env (demo_field 32) None []
      (demo_start\<lparr>symbolOccurrenceCache := {(demo_field 32, mkLoc 1 2 3, 8)}\<rparr>) = Inr ((ROk (), demo_string ''K''),
      demo_start\<lparr>symbolOccurrenceCache := {(demo_field 32, mkLoc 1 2 3, 8)},
        symbolStringCache := [demo_field 32 \<mapsto> demo_string ''K'']\<rparr>)"
    by (subst demo_string_saved [where c = "CHR ''K''"]) (simp_all add: demo_start_def new_scip_state_def)
  ultimately show ?thesis
    by (simp add: saveSymbolReference_def Let_def bindS_def noteRefOnly_def modifyS_def returnS_def demo_reference
        demo_referenced_def mkLoc_def) (simp add: demo_start_def new_scip_state_def)
qed

lemma demo_referenced_reachable: "scip_reachable demo_env demo_referenced"
  by (rule scip_reachable.symbol_reference [OF demo_start_reachable demo_referenced_step])

lemma demo_none:
  "potentialRefOnlySymbols demo_referenced 1 = [demo_field 32]" "symbolMap demo_referenced 1 = []"
  "symbolStringCache demo_referenced = [demo_field 32 \<mapsto> demo_string ''K'']"
  by (simp_all add: demo_referenced_def demo_start_def new_scip_state_def)

theorem scip_state_invariant_witness:
  "length (range (hd (occurrenceMap demo_referenced 1))) = 3
   \<and> relationshipsMap demo_referenced 1 (demo_field 32) \<noteq> None
   \<and> (\<exists>symb. emitSymbolString symb [] = Inr (demo_string ''K''))"
proof -
  have "occurrenceMap demo_referenced 1 \<noteq> []"
    by (simp add: demo_referenced_def)
  then have "hd (occurrenceMap demo_referenced 1) \<in> set (occurrenceMap demo_referenced 1)" by (rule hd_in_set)
  moreover have "symbolStringCache demo_referenced (demo_field 32) = Some (demo_string ''K'')"
    "demo_field 32 \<in> set (potentialRefOnlySymbols demo_referenced 1)" by (simp_all add: demo_none)
  ultimately show ?thesis
    using scip_state_invariant [OF demo_referenced_reachable, of 1] by blast
qed

end
