(* ===== verification/ScipFields.thy ===== *)
theory ScipFields
  imports Prelude
begin

text \<open>
  The owner of an undeclared field (\<open>scip_indexer/SCIPFieldResolve.cc\<close>): the search through the
  superclasses, the search through the mixins with a queue that never shrinks, and the cache in
  front of both.

  Classes and names are raw ids, 0 is the missing class.  What the search asks the \<open>GlobalState\<close> is
  the record \<open>field_env\<close>.
\<close>

section \<open>The queue\<close>

record 'a basic_queue =
  storage :: "'a list"
  current :: nat

definition queue_clear :: "'a basic_queue \<Rightarrow> 'a basic_queue" where
  "queue_clear q = q\<lparr>storage := [], current := 0\<rparr>"

definition push_back :: "'a \<Rightarrow> 'a basic_queue \<Rightarrow> 'a basic_queue" where
  "push_back x q = q\<lparr>storage := storage q @ [x]\<rparr>"

definition try_pop_front :: "'a basic_queue \<Rightarrow> 'a option \<times> 'a basic_queue" where
  "try_pop_front q =
     (if length (storage q) \<le> current q then (None, q)
      else (Some (storage q ! current q), q\<lparr>current := current q + 1\<rparr>))"

text \<open>First in, first out: what a client of the queue relies on.\<close>

locale fifo =
  fixes clear :: "'q \<Rightarrow> 'q" and push :: "'a \<Rightarrow> 'q \<Rightarrow> 'q" and pop :: "'q \<Rightarrow> 'a option \<times> 'q"
    and contents :: "'q \<Rightarrow> 'a list" and valid :: "'q \<Rightarrow> bool"
  assumes clear_contents: "contents (clear q) = []" and clear_valid: "valid (clear q)"
    and push_contents: "valid q \<Longrightarrow> contents (push x q) = contents q @ [x]"
    and push_valid: "valid q \<Longrightarrow> valid (push x q)"
    and pop_empty: "valid q \<Longrightarrow> contents q = [] \<Longrightarrow> pop q = (None, q)"
    and pop_front: "valid q \<Longrightarrow> contents q = x # xs \<Longrightarrow> \<exists>q'. pop q = (Some x, q') \<and> contents q' = xs \<and> valid q'"
begin

lemma fill_contents:
  "valid q \<Longrightarrow> contents (foldl (\<lambda>q x. push x q) q xs) = contents q @ xs \<and> valid (foldl (\<lambda>q x. push x q) q xs)"
  by (induction xs arbitrary: q) (auto simp: push_contents push_valid)

end

definition queue_contents :: "'a basic_queue \<Rightarrow> 'a list" where
  "queue_contents q = drop (current q) (storage q)"

interpretation mixinQ: fifo queue_clear push_back try_pop_front queue_contents "\<lambda>q. current q \<le> length (storage q)"
proof
  fix q :: "'a basic_queue" and x xs
  assume v: "current q \<le> length (storage q)"
  show "queue_contents (push_back x q) = queue_contents q @ [x]"
    using v by (simp add: queue_contents_def push_back_def)
  show "current (push_back x q) \<le> length (storage (push_back x q))"
    using v by (simp add: push_back_def)
  show "try_pop_front q = (None, q)" if "queue_contents q = []"
    using that by (simp add: try_pop_front_def queue_contents_def)
  assume c: "queue_contents q = x # xs"
  then have l: "current q < length (storage q)"
    by (simp add: queue_contents_def) (metis drop_all list.distinct(1) not_less)
  then have "drop (current q) (storage q) = storage q ! current q # drop (Suc (current q)) (storage q)"
    by (simp add: Cons_nth_drop_Suc)
  with c l show "\<exists>q'. try_pop_front q = (Some x, q') \<and> queue_contents q' = xs \<and> current q' \<le> length (storage q')"
    by (auto simp: try_pop_front_def queue_contents_def)
qed (auto simp: queue_clear_def queue_contents_def)

section \<open>The searches\<close>

record field_env =
  superClass :: "u32 \<Rightarrow> u32"
  findMember :: "u32 \<Rightarrow> u32 \<Rightarrow> u32"
  unresolvedFields :: "u32 \<Rightarrow> u32 list"
  mixins :: "u32 \<Rightarrow> u32 list"
  isSingletonClass :: "u32 \<Rightarrow> bool"
  lookupSingletonClass :: "u32 \<Rightarrow> u32"
  shortName :: "u32 \<Rightarrow> string"

definition isClassVar :: "string \<Rightarrow> bool" where
  "isClassVar nm \<longleftrightarrow> length nm \<ge> 2 \<and> nm ! 0 = CHR ''@'' \<and> nm ! 1 = CHR ''@''"

definition normalizeParentForClassVar :: "field_env \<Rightarrow> u32 \<Rightarrow> string \<Rightarrow> u32" where
  "normalizeParentForClassVar env klass nm =
     (if isClassVar nm \<and> \<not> isSingletonClass env klass then lookupSingletonClass env klass else klass)"

definition declares :: "field_env \<Rightarrow> u32 \<Rightarrow> u32 \<Rightarrow> bool" where
  "declares env field klass \<longleftrightarrow> findMember env klass field \<noteq> 0"

definition mentions :: "field_env \<Rightarrow> u32 \<Rightarrow> u32 \<Rightarrow> bool" where
  "mentions env field klass \<longleftrightarrow> field \<in> set (unresolvedFields env klass)"

text \<open>The loop over the queue ends because every round takes one element and none adds any.\<close>

function mixinLoop :: "field_env \<Rightarrow> u32 \<Rightarrow> u32 basic_queue \<Rightarrow> u32 list \<Rightarrow> u32 list \<times> u32 basic_queue" where
  "mixinLoop env field q out =
     (case try_pop_front q of
        (None, q') \<Rightarrow> (out, q')
      | (Some m, q') \<Rightarrow>
          mixinLoop env field q' (if declares env field m then out @ [m]
            else if mentions env field m then out @ [m] else out))"
  by pat_completeness auto

termination
  by (relation "measure (\<lambda>(env, field, q, out). length (storage q) - current q)")
    (auto simp: try_pop_front_def split: if_splits)

declare mixinLoop.simps [simp del]

definition findUnresolvedFieldInMixinsTransitive ::
  "field_env \<Rightarrow> u32 \<Rightarrow> u32 \<Rightarrow> u32 basic_queue \<Rightarrow> u32 list \<times> u32 basic_queue" where
  "findUnresolvedFieldInMixinsTransitive env start field q =
     mixinLoop env field (foldl (\<lambda>q m. push_back m q) (queue_clear q) (mixins env start)) []"

partial_function (option) chainLoop :: "field_env \<Rightarrow> u32 \<Rightarrow> u32 \<Rightarrow> u32 \<Rightarrow> u32 option" where
  "chainLoop env field cur best =
     (if cur = 0 then Some best
      else if declares env field cur then Some cur
      else (let best' = (if mentions env field cur then cur else best) in
        if cur = superClass env cur then Some best' else chainLoop env field (superClass env cur) best'))"

definition findUnresolvedFieldInInheritanceChain :: "field_env \<Rightarrow> u32 \<Rightarrow> u32 \<Rightarrow> u32 option" where
  "findUnresolvedFieldInInheritanceChain env start field =
     (let fieldText = shortName env field;
          isInstanceVar = (length fieldText \<ge> 2 \<and> fieldText ! 0 = CHR ''@'' \<and> fieldText ! 1 \<noteq> CHR ''@'');
          isClassInstanceVar = (isInstanceVar \<and> isSingletonClass env start)
      in if isClassInstanceVar then Some start
         else (let start' = normalizeParentForClassVar env start fieldText
               in chainLoop env field start' start'))"

record field_query =
  fq_file :: u32
  fq_start :: u32
  fq_field :: u32

record field_resolver =
  cache :: "field_query \<Rightarrow> (u32 \<times> u32 list) option"
  mixinQueue :: "u32 basic_queue"

text \<open>\<open>None\<close>: the chain of superclasses never ends.\<close>

definition findUnresolvedFieldTransitive ::
  "field_env \<Rightarrow> field_query \<Rightarrow> field_resolver \<Rightarrow> ((u32 \<times> u32 list) \<times> field_resolver) option" where
  "findUnresolvedFieldTransitive env q st =
     (case cache st q of
        Some r \<Rightarrow> Some (r, st)
      | None \<Rightarrow>
          Option.bind (findUnresolvedFieldInInheritanceChain env (fq_start q) (fq_field q)) (\<lambda>inherited.
            let (ms, queue) = findUnresolvedFieldInMixinsTransitive env (fq_start q) (fq_field q) (mixinQueue st);
                r = (inherited, ms)
            in Some (r, st\<lparr>cache := (cache st)(q \<mapsto> r), mixinQueue := queue\<rparr>)))"

section \<open>Correctness\<close>

lemma mixinLoop_filter:
  assumes "current q \<le> length (storage q)"
  shows "fst (mixinLoop env field q out) =
     out @ filter (\<lambda>m. declares env field m \<or> mentions env field m) (queue_contents q)"
  using assms
proof (induction "queue_contents q" arbitrary: q out)
  case Nil
  then show ?case
    using mixinQ.pop_empty [of q] by (subst mixinLoop.simps) simp
next
  case (Cons m ms)
  obtain q' where q': "try_pop_front q = (Some m, q')" "queue_contents q' = ms" "current q' \<le> length (storage q')"
    using mixinQ.pop_front [OF Cons.prems Cons.hyps(2) [symmetric]] by blast
  have "fst (mixinLoop env field q' out') = out' @ filter (\<lambda>m. declares env field m \<or> mentions env field m) ms" for out'
    using Cons.hyps(1) q' by simp
  then show ?case
    using q'(1) Cons.hyps(2) [symmetric] by (subst mixinLoop.simps) simp
qed

lemma mixins_found:
  "fst (findUnresolvedFieldInMixinsTransitive env start field q) =
     filter (\<lambda>m. declares env field m \<or> mentions env field m) (mixins env start)"
  using mixinQ.fill_contents [of "queue_clear q" "mixins env start"] mixinQ.clear_contents [of q]
    mixinQ.clear_valid [of q]
  by (simp add: findUnresolvedFieldInMixinsTransitive_def mixinLoop_filter)

text \<open>The chain of superclasses of length \<open>n\<close> that ends at the missing class or at a class that is its
  own superclass.\<close>

definition chain_ends :: "field_env \<Rightarrow> u32 \<Rightarrow> nat \<Rightarrow> bool" where
  "chain_ends env c n \<longleftrightarrow>
     (\<forall>k<n. (superClass env ^^ k) c \<noteq> 0 \<and> (Suc k < n \<longrightarrow> superClass env ((superClass env ^^ k) c) \<noteq> (superClass env ^^ k) c))
     \<and> ((superClass env ^^ n) c = 0
        \<or> (0 < n \<and> superClass env ((superClass env ^^ (n - 1)) c) = (superClass env ^^ (n - 1)) c))"

definition chain :: "field_env \<Rightarrow> u32 \<Rightarrow> nat \<Rightarrow> u32 list" where
  "chain env c n = map (\<lambda>k. (superClass env ^^ k) c) [0..<n]"

text \<open>The nearest class that declares the field, else the furthest that mentions it, else the default.\<close>

definition field_owner :: "field_env \<Rightarrow> u32 \<Rightarrow> u32 \<Rightarrow> u32 list \<Rightarrow> u32" where
  "field_owner env field dflt cs = (case find (declares env field) cs of
     Some c \<Rightarrow> c
   | None \<Rightarrow> (case find (mentions env field) (rev cs) of Some c \<Rightarrow> c | None \<Rightarrow> dflt))"

lemma field_owner_Cons:
  "field_owner env field dflt (c # cs) =
     (if declares env field c then c else field_owner env field (if mentions env field c then c else dflt) cs)"
proof -
  have "find P (xs @ [c]) = (case find P xs of Some x \<Rightarrow> Some x | None \<Rightarrow> if P c then Some c else None)" for P xs
    by (induction xs) auto
  then show ?thesis
    by (auto simp: field_owner_def split: option.split)
qed

lemma chain_Suc: "chain env c (Suc n) = c # chain env (superClass env c) n"
  by (simp add: chain_def upt_conv_Cons map_Suc_upt [symmetric] funpow_swap1 comp_def del: upt_Suc)

lemma chain_ends_Suc:
  assumes "chain_ends env c (Suc n)"
  shows "c \<noteq> 0" "superClass env c = c \<Longrightarrow> n = 0" "superClass env c \<noteq> c \<Longrightarrow> chain_ends env (superClass env c) n"
proof -
  have shift: "(superClass env ^^ k) (superClass env c) = (superClass env ^^ Suc k) c" for k
    by (simp add: funpow_swap1)
  show "c \<noteq> 0" using assms unfolding chain_ends_def by (metis funpow_0 zero_less_Suc)
  show "n = 0" if "superClass env c = c"
    using assms that unfolding chain_ends_def by (metis Suc_less_eq funpow_0 neq0_conv zero_less_Suc)
  show "chain_ends env (superClass env c) n" if ne: "superClass env c \<noteq> c"
    unfolding chain_ends_def shift
  proof (intro conjI allI impI)
    fix k assume "k < n"
    then show "(superClass env ^^ Suc k) c \<noteq> 0"
      using assms by (simp add: chain_ends_def del: funpow.simps)
    show "superClass env ((superClass env ^^ Suc k) c) \<noteq> (superClass env ^^ Suc k) c" if "Suc k < n"
      using assms that by (simp add: chain_ends_def del: funpow.simps)
  next
    show "(superClass env ^^ Suc n) c = 0
      \<or> 0 < n \<and> superClass env ((superClass env ^^ Suc (n - 1)) c) = (superClass env ^^ Suc (n - 1)) c"
      using assms ne by (cases n) (auto simp: chain_ends_def)
  qed
qed

lemma chainLoop_owner:
  "chain_ends env c n \<Longrightarrow> chainLoop env field c best = Some (field_owner env field best (chain env c n))"
proof (induction n arbitrary: c best)
  case 0
  then have "c = 0" by (simp add: chain_ends_def)
  then show ?case by (subst chainLoop.simps) (simp add: chain_def field_owner_def)
next
  case (Suc n)
  note e = chain_ends_Suc [OF Suc.prems]
  show ?case
  proof (cases "declares env field c")
    case True
    then show ?thesis using e(1) by (subst chainLoop.simps) (simp add: chain_Suc field_owner_Cons)
  next
    case False
    let ?b = "if mentions env field c then c else best"
    have "chainLoop env field c best = (if superClass env c = c then Some ?b else chainLoop env field (superClass env c) ?b)"
      using e(1) False by (subst chainLoop.simps) (auto simp: Let_def)
    moreover have "chain env (superClass env c) n = []" if "superClass env c = c"
      using e(2) [OF that] by (simp add: chain_def)
    ultimately show ?thesis
      using False Suc.IH [OF e(3)] by (simp add: chain_Suc field_owner_Cons) (simp add: field_owner_def)
  qed
qed

definition is_class_instance_var :: "field_env \<Rightarrow> u32 \<Rightarrow> u32 \<Rightarrow> bool" where
  "is_class_instance_var env start field \<longleftrightarrow>
     (\<exists>c cs. shortName env field = CHR ''@'' # c # cs \<and> c \<noteq> CHR ''@'') \<and> isSingletonClass env start"

lemma second_char: "length s \<ge> 2 \<and> s ! 0 = a \<and> P (s ! 1) \<longleftrightarrow> (\<exists>c cs. s = a # c # cs \<and> P c)"
  by (cases s; cases "tl s") (auto simp: Suc_le_eq)

text \<open>The search through the superclasses returns, for a hierarchy whose chain of superclasses ends, the
  nearest class that declares the field, else the topmost class that mentions it, else the class the
  search starts in; a class variable starts in the singleton class, and an instance variable of a
  singleton class is never looked up further.\<close>

lemma inheritance_owner:
  assumes "chain_ends env (normalizeParentForClassVar env start (shortName env field)) n"
  shows "findUnresolvedFieldInInheritanceChain env start field = Some
     (if is_class_instance_var env start field then start
      else (let start' = normalizeParentForClassVar env start (shortName env field)
            in field_owner env field start' (chain env start' n)))"
  unfolding findUnresolvedFieldInInheritanceChain_def is_class_instance_var_def Let_def
    second_char [of "shortName env field" "CHR ''@''" "\<lambda>c. c \<noteq> CHR ''@''"] chainLoop_owner [OF assms]
  by (rule if_distrib [symmetric])

text \<open>Class 3 inherits from 2, 2 from 1, and 1 from itself; field 7 is mentioned in 2 and 3.\<close>

definition three_classes :: field_env where
  "three_classes = \<lparr>superClass = (\<lambda>c. if c \<le> 1 then c else c - 1), findMember = (\<lambda>c f. 0),
     unresolvedFields = (\<lambda>c. if c = 2 \<or> c = 3 then [7] else []), mixins = (\<lambda>c. if c = 3 then [5, 2] else []),
     isSingletonClass = (\<lambda>c. False), lookupSingletonClass = (\<lambda>c. c), shortName = (\<lambda>f. ''@f'')\<rparr>"

lemma word_numbers: "\<not> (3 :: u32) \<le> 1" "\<not> (2 :: u32) \<le> 1"
  by (simp_all add: word_le_nat_alt)

lemma three_classes_chain: "chain_ends three_classes 3 3" "chain three_classes 3 3 = [3, 2, 1]"
proof -
  have p: "(f ^^ 2) x = f (f x)" "(f ^^ 3) x = f (f (f x))" for f :: "u32 \<Rightarrow> u32" and x
    by (simp_all add: numeral_eq_Suc)
  have "k < 3 \<longleftrightarrow> k = 0 \<or> k = 1 \<or> k = 2" for k :: nat by auto
  then show "chain_ends three_classes 3 3"
    using word_numbers by (auto simp: chain_ends_def three_classes_def p)
  have "[0..<3] = [0, 1, 2]" by (simp add: upt_rec)
  then show "chain three_classes 3 3 = [3, 2, 1]"
    using word_numbers by (simp add: chain_def three_classes_def p)
qed

section \<open>The cache\<close>

text \<open>The answer to a query, without the cache and the queue.\<close>

definition field_answer :: "field_env \<Rightarrow> field_query \<Rightarrow> (u32 \<times> u32 list) option" where
  "field_answer env q = map_option
     (\<lambda>c. (c, filter (\<lambda>m. declares env (fq_field q) m \<or> mentions env (fq_field q) m) (mixins env (fq_start q))))
     (findUnresolvedFieldInInheritanceChain env (fq_start q) (fq_field q))"

definition cache_sound :: "field_env \<Rightarrow> field_resolver \<Rightarrow> bool" where
  "cache_sound env st \<longleftrightarrow> (\<forall>q r. cache st q = Some r \<longrightarrow> field_answer env q = Some r)"

primrec resolveFields ::
  "field_env \<Rightarrow> field_query list \<Rightarrow> field_resolver \<Rightarrow> ((u32 \<times> u32 list) list \<times> field_resolver) option" where
  "resolveFields env [] st = Some ([], st)"
| "resolveFields env (q # qs) st = Option.bind (findUnresolvedFieldTransitive env q st)
     (\<lambda>(r, st'). map_option (\<lambda>(rs, st''). (r # rs, st'')) (resolveFields env qs st'))"

lemma query_sound:
  assumes "cache_sound env st"
  shows "map_option fst (findUnresolvedFieldTransitive env q st) = field_answer env q"
    "findUnresolvedFieldTransitive env q st = Some (r, st') \<Longrightarrow> cache_sound env st'"
proof -
  show a: "map_option fst (findUnresolvedFieldTransitive env q st) = field_answer env q"
  proof (cases "cache st q")
    case None
    then show ?thesis
      using mixins_found [of env "fq_start q" "fq_field q" "mixinQueue st"]
      by (cases "findUnresolvedFieldInInheritanceChain env (fq_start q) (fq_field q)")
        (simp_all add: findUnresolvedFieldTransitive_def field_answer_def Let_def case_prod_beta)
  next
    case (Some r')
    with assms have "field_answer env q = Some r'" unfolding cache_sound_def by blast
    with Some show ?thesis by (simp add: findUnresolvedFieldTransitive_def)
  qed
  assume "findUnresolvedFieldTransitive env q st = Some (r, st')"
  moreover from this a have "field_answer env q = Some r" by simp
  ultimately have "cache st' = cache st \<or> cache st' = (cache st)(q \<mapsto> r) \<and> field_answer env q = Some r"
    by (auto simp: findUnresolvedFieldTransitive_def Let_def bind_eq_Some_conv case_prod_beta split: option.splits)
  then show "cache_sound env st'"
    using assms unfolding cache_sound_def by (metis fun_upd_apply option.inject)
qed

lemma resolveFields_sound:
  "cache_sound env st \<Longrightarrow> map_option fst (resolveFields env qs st) = those (map (field_answer env) qs)"
proof (induction qs arbitrary: st)
  case (Cons q qs)
  show ?case
  proof (cases "findUnresolvedFieldTransitive env q st")
    case None
    then show ?thesis using query_sound(1) [OF Cons.prems, of q] by simp
  next
    case (Some p)
    obtain r st' where p: "p = (r, st')" by fastforce
    have "field_answer env q = Some r"
      using query_sound(1) [OF Cons.prems, of q] Some p by simp
    moreover have "map_option fst (resolveFields env qs st') = those (map (field_answer env) qs)"
      using Cons.IH query_sound(2) [OF Cons.prems, of q r st'] Some p by blast
    ultimately show ?thesis
      using Some p by (cases "resolveFields env qs st'") (auto dest: sym)
  qed
qed simp

text \<open>C19: The resolver with its cache and its reused queue refines the plain search: over any sequence of
  queries it gives the answers of the plain search, and diverges exactly when one of those does.\<close>

theorem resolver_refines:
  assumes "cache st = Map.empty"
  shows "map_option fst (resolveFields env qs st) = those (map (field_answer env) qs)"
  using assms by (intro resolveFields_sound) (simp add: cache_sound_def)

theorem resolver_refines_witness:
  "cache \<lparr>cache = Map.empty, mixinQueue = \<lparr>storage = [9], current = 0\<rparr>\<rparr> = Map.empty
   \<and> map_option fst (resolveFields three_classes (replicate 2 \<lparr>fq_file = 1, fq_start = 3, fq_field = 7\<rparr>)
       \<lparr>cache = Map.empty, mixinQueue = \<lparr>storage = [9], current = 0\<rparr>\<rparr>) = Some [(2, [2]), (2, [2])]"
proof -
  let ?q = "\<lparr>fq_file = 1, fq_start = 3, fq_field = 7\<rparr>"
  have c: "findUnresolvedFieldInInheritanceChain three_classes 3 7 = Some 2"
    unfolding findUnresolvedFieldInInheritanceChain_def
    using word_numbers by (simp add: normalizeParentForClassVar_def isClassVar_def three_classes_def Let_def chainLoop.simps
        declares_def mentions_def)
  then have "field_answer three_classes ?q = Some (2, [2])"
    by (simp add: field_answer_def declares_def mentions_def three_classes_def)
  then have "those (map (field_answer three_classes) (replicate 2 ?q)) = Some [(2, [2]), (2, [2])]"
    by (simp add: numeral_2_eq_2)
  then show ?thesis
    using resolver_refines [of "\<lparr>cache = Map.empty, mixinQueue = \<lparr>storage = [9], current = 0\<rparr>\<rparr>" three_classes
        "replicate 2 ?q"] by simp
qed

end
