(* ===== verification/LspEpochs.thy ===== *)
theory LspEpochs
  imports Prelude
begin

text \<open>
  The coordination of the two threads of the language server: \<open>TypecheckEpochManager\<close> (starting,
  canceling and committing slow paths) and \<open>PreemptionTaskManager\<close> (running a task in the middle of
  a slow path), both in \<open>core/lsp/\<close>.

  The operations are functions on the state of the two managers.  Where the code holds a mutex, the
  function is the critical section; where it does not, it is split at its atomic accesses, and the
  step relation interleaves the pieces of both threads.  An \<open>ENFORCE\<close> has no effect on the state; the
  ones that state what the caller has to provide are the guards of the steps.
\<close>

section \<open>The epoch manager\<close>

type_synonym thread_id = nat
type_synonym stratum = "16 word"
type_synonym task = nat

datatype lsp_error = WrongThread string

record epoch_manager =
  currentlyProcessingLSPEpoch :: u32
  lspEpochInvalidator :: u32
  lastCommittedLSPEpoch :: u32
  typecheckingThreadId :: "thread_id option"
  messageProcessingThreadId :: "thread_id option"

definition new_epoch_manager :: epoch_manager where
  "new_epoch_manager = \<lparr>currentlyProcessingLSPEpoch = 0, lspEpochInvalidator = 0, lastCommittedLSPEpoch = 0,
     typecheckingThreadId = None, messageProcessingThreadId = None\<rparr>"

definition assertConsistentThread ::
  "thread_id option \<Rightarrow> thread_id \<Rightarrow> string \<Rightarrow> (lsp_error, thread_id option) result" where
  "assertConsistentThread expectedThreadId self meth = (case expectedThreadId of
     None \<Rightarrow> Inr (Some self)
   | Some t \<Rightarrow> if t \<noteq> self then Inl (WrongThread meth) else Inr expectedThreadId)"

definition startCommitEpoch :: "thread_id \<Rightarrow> u32 \<Rightarrow> epoch_manager \<Rightarrow> (lsp_error, epoch_manager) result" where
  "startCommitEpoch self epoch em =
     (case assertConsistentThread (typecheckingThreadId em) self ''TypecheckEpochManager::startCommitEpoch'' of
        Inl e \<Rightarrow> Inl e
      | Inr t \<Rightarrow> Inr (em\<lparr>typecheckingThreadId := t, currentlyProcessingLSPEpoch := epoch,
          lspEpochInvalidator := epoch\<rparr>))"

definition wasTypecheckingCanceled :: "epoch_manager \<Rightarrow> bool" where
  "wasTypecheckingCanceled em \<longleftrightarrow> lspEpochInvalidator em \<noteq> currentlyProcessingLSPEpoch em"

record typechecking_status =
  slowPathRunning :: bool
  slowPathWasCanceled :: bool
  status_epoch :: u32

definition getStatus :: "epoch_manager \<Rightarrow> typechecking_status" where
  "getStatus em =
     (let processing = currentlyProcessingLSPEpoch em
      in \<lparr>slowPathRunning = (processing \<noteq> lastCommittedLSPEpoch em),
          slowPathWasCanceled = (processing \<noteq> lspEpochInvalidator em), status_epoch = processing\<rparr>)"

definition tryCancelSlowPath :: "thread_id \<Rightarrow> u32 \<Rightarrow> epoch_manager \<Rightarrow> (lsp_error, bool \<times> epoch_manager) result" where
  "tryCancelSlowPath self newEpoch em =
     (case assertConsistentThread (messageProcessingThreadId em) self ''TypecheckEpochManager::tryCancelSlowPath'' of
        Inl e \<Rightarrow> Inl e
      | Inr t \<Rightarrow>
          let em = em\<lparr>messageProcessingThreadId := t\<rparr>; processing = currentlyProcessingLSPEpoch em
          in if processing = lastCommittedLSPEpoch em \<or> newEpoch = processing then Inr (False, em)
             else Inr (True, em\<lparr>lspEpochInvalidator := newEpoch\<rparr>))"

text \<open>The critical section of \<open>tryCommitEpoch\<close>.\<close>

definition commitLocked :: "epoch_manager \<Rightarrow> bool \<times> epoch_manager" where
  "commitLocked em =
     (let processing = currentlyProcessingLSPEpoch em
      in if processing = lspEpochInvalidator em then (True, em\<lparr>lastCommittedLSPEpoch := processing\<rparr>)
         else (let lastCommitted = lastCommittedLSPEpoch em
               in (False, em\<lparr>currentlyProcessingLSPEpoch := lastCommitted, lspEpochInvalidator := lastCommitted\<rparr>)))"

section \<open>The preemption task manager\<close>

record run_result =
  tasksHandled :: bool
  wasRescheduled :: bool
  rescheduled :: stratum

definition default_result :: run_result where
  "default_result = \<lparr>tasksHandled = False, wasRescheduled = False, rescheduled = 0\<rparr>"

definition setRescheduledStratum :: "stratum \<Rightarrow> run_result \<Rightarrow> run_result" where
  "setRescheduledStratum s r = r\<lparr>wasRescheduled := True, rescheduled := s\<rparr>"

record preemption_manager =
  preemptTask :: "task option"
  runnableAt :: stratum
  pm_typecheckingThreadId :: "thread_id option"
  processingThreadId :: "thread_id option"

definition new_preemption_manager :: preemption_manager where
  "new_preemption_manager = \<lparr>preemptTask = None, runnableAt = 0, pm_typecheckingThreadId = None, processingThreadId = None\<rparr>"

definition compare_exchange :: "task option \<Rightarrow> task option \<Rightarrow> preemption_manager \<Rightarrow> bool \<times> preemption_manager" where
  "compare_exchange expected desired pm =
     (if preemptTask pm = expected then (True, pm\<lparr>preemptTask := desired\<rparr>) else (False, pm))"

text \<open>\<open>trySchedulePreemptionTask\<close> up to the exchange, under the epoch lock, and as a whole.\<close>

definition scheduleCheck ::
  "thread_id \<Rightarrow> epoch_manager \<Rightarrow> preemption_manager \<Rightarrow> (lsp_error, bool \<times> preemption_manager) result" where
  "scheduleCheck self em pm =
     (case assertConsistentThread (processingThreadId pm) self ''PreemptionTaskManager::trySchedulePreemptionTask'' of
        Inl e \<Rightarrow> Inl e
      | Inr t \<Rightarrow>
          let pm = pm\<lparr>processingThreadId := t\<rparr>; st = getStatus em
          in if \<not> slowPathRunning st \<or> slowPathWasCanceled st \<or> preemptTask pm \<noteq> None then Inr (False, pm)
             else Inr (True, pm\<lparr>runnableAt := 0\<rparr>))"

definition trySchedulePreemptionTask ::
  "thread_id \<Rightarrow> task \<Rightarrow> epoch_manager \<Rightarrow> preemption_manager \<Rightarrow> (lsp_error, bool \<times> preemption_manager) result" where
  "trySchedulePreemptionTask self tsk em pm =
     (case scheduleCheck self em pm of
        Inl e \<Rightarrow> Inl e
      | Inr (ok, pm') \<Rightarrow> if ok then Inr (compare_exchange None (Some tsk) pm') else Inr (False, pm'))"

definition tryCancelScheduledPreemptionTask ::
  "thread_id \<Rightarrow> task \<Rightarrow> preemption_manager \<Rightarrow> (lsp_error, bool \<times> preemption_manager) result" where
  "tryCancelScheduledPreemptionTask self tsk pm =
     (case assertConsistentThread (processingThreadId pm) self ''PreemptionTaskManager::tryCancelScheduledPreemptionTask'' of
        Inl e \<Rightarrow> Inl e
      | Inr t \<Rightarrow> Inr (compare_exchange (Some tsk) None (pm\<lparr>processingThreadId := t\<rparr>)))"

text \<open>\<open>tryRunScheduledPreemptionTask\<close> up to the exchange that takes the task; then, once the task has
  run, putting it back or finishing it.  The result lists the finished tasks.\<close>

definition deferred :: "bool \<Rightarrow> stratum \<Rightarrow> preemption_manager \<Rightarrow> bool" where
  "deferred allowReschedule currentStratum pm \<longleftrightarrow> allowReschedule \<and> currentStratum < runnableAt pm"

definition putBack :: "task \<Rightarrow> preemption_manager \<Rightarrow> preemption_manager" where
  "putBack tsk pm = snd (compare_exchange (preemptTask pm) (Some tsk) pm)"

definition tryRunScheduledPreemptionTask ::
  "thread_id \<Rightarrow> (task \<Rightarrow> stratum \<Rightarrow> run_result) \<Rightarrow> stratum \<Rightarrow> bool \<Rightarrow> preemption_manager
     \<Rightarrow> (lsp_error, run_result \<times> task list \<times> preemption_manager) result" where
  "tryRunScheduledPreemptionTask self run currentStratum allowReschedule pm =
     (case assertConsistentThread (pm_typecheckingThreadId pm) self ''PreemptionTaskManager::tryRunScheduledPreemptionTask'' of
        Inl e \<Rightarrow> Inl e
      | Inr t \<Rightarrow>
          let pm = pm\<lparr>pm_typecheckingThreadId := t\<rparr>
          in case preemptTask pm of
               None \<Rightarrow> Inr (default_result, [], pm)
             | Some tsk \<Rightarrow>
                 if deferred allowReschedule currentStratum pm
                 then Inr (setRescheduledStratum (runnableAt pm) default_result, [], pm)
                 else (case compare_exchange (Some tsk) None pm of
                     (False, pm) \<Rightarrow> Inr (default_result, [], pm)
                   | (True, pm) \<Rightarrow>
                       let r = run tsk currentStratum
                       in if allowReschedule \<and> wasRescheduled r
                          then Inr (r, [], putBack tsk (pm\<lparr>runnableAt := rescheduled r\<rparr>))
                          else Inr (r, [tsk], pm)))"

text \<open>\<open>tryCommitEpoch\<close>: typechecking runs outside the lock, so the caller's function may leave any
  state behind.  The epoch the code takes as an argument is only compared in an \<open>ENFORCE\<close>.\<close>

definition tryCommitEpoch ::
  "thread_id \<Rightarrow> bool \<Rightarrow> bool \<Rightarrow> (task \<Rightarrow> stratum \<Rightarrow> run_result)
    \<Rightarrow> (epoch_manager \<times> preemption_manager \<Rightarrow> stratum \<times> epoch_manager \<times> preemption_manager)
    \<Rightarrow> epoch_manager \<times> preemption_manager
    \<Rightarrow> (lsp_error, bool \<times> task list \<times> epoch_manager \<times> preemption_manager) result" where
  "tryCommitEpoch self isCancelable preemptible run typecheck = (\<lambda>(em, pm).
     case assertConsistentThread (typecheckingThreadId em) self ''TypecheckEpochManager::tryCommitEpoch'' of
       Inl e \<Rightarrow> Inl e
     | Inr t \<Rightarrow>
         let (finalStratum, em, pm) = typecheck (em\<lparr>typecheckingThreadId := t\<rparr>, pm)
         in if \<not> isCancelable then Inr (True, [], em, pm)
            else (let (committed, em) = commitLocked em
                  in if preemptible then
                       (case tryRunScheduledPreemptionTask self run finalStratum False pm of
                          Inl e \<Rightarrow> Inl e
                        | Inr (r, fin, pm) \<Rightarrow> Inr (committed, fin, em, pm))
                     else Inr (committed, [], em, pm)))"

end
