(* ===== verification/LspThreads.thy ===== *)
theory LspThreads
  imports LspEpochs
begin

text \<open>
  The typechecking thread and the message processing thread of the language server as interleaved
  steps over the two managers.  The program counters follow \<open>tryCommitEpoch\<close> and
  \<open>tryRunScheduledPreemptionTask\<close> on one side and the part of \<open>LSPLoop::runLSP\<close> that schedules a
  preemption, tries to cancel it and waits for it on the other.
\<close>

section \<open>Threads and steps\<close>

datatype typechecker_pc =
    T_Idle
  | T_Checking
  | T_Peeked task stratum bool
  | T_Loaded task stratum bool
  | T_Exec task stratum bool
  | T_Requeue task
  | T_Committed stratum

text \<open>\<open>M_Scheduling\<close> holds the epoch lock.\<close>

datatype processor_pc =
    M_Ready
  | M_Scheduling task
  | M_Scheduled task
  | M_Waiting task

record lsp_state =
  epochs :: epoch_manager
  preempt :: preemption_manager
  tpc :: typechecker_pc
  mpc :: processor_pc
  finishedTasks :: "task list"
  canceledTasks :: "task list"

definition initial_lsp :: lsp_state where
  "initial_lsp = \<lparr>epochs = new_epoch_manager, preempt = new_preemption_manager, tpc = T_Idle, mpc = M_Ready,
     finishedTasks = [], canceledTasks = []\<rparr>"

definition typechecking_thread :: thread_id where "typechecking_thread = 1"

definition processing_thread :: thread_id where "processing_thread = 0"

definition lock_free :: "lsp_state \<Rightarrow> bool" where
  "lock_free s \<longleftrightarrow> (\<forall>t. mpc s \<noteq> M_Scheduling t)"

text \<open>Where \<open>tryRunScheduledPreemptionTask\<close> returns to.\<close>

definition return_pc :: "bool \<Rightarrow> typechecker_pc" where
  "return_pc allowReschedule = (if allowReschedule then T_Checking else T_Idle)"

definition peek :: "stratum \<Rightarrow> bool \<Rightarrow> lsp_state \<Rightarrow> lsp_state" where
  "peek str allowReschedule s = s\<lparr>preempt := (preempt s)\<lparr>pm_typecheckingThreadId := Some typechecking_thread\<rparr>,
     tpc := (case preemptTask (preempt s) of
       None \<Rightarrow> return_pc allowReschedule | Some t \<Rightarrow> T_Peeked t str allowReschedule)\<rparr>"

datatype actor = Typechecker | Processor

inductive lsp_step :: "actor \<Rightarrow> lsp_state \<Rightarrow> lsp_state \<Rightarrow> bool" where
  start: "tpc s = T_Idle \<Longrightarrow> lock_free s \<Longrightarrow>
    e \<noteq> currentlyProcessingLSPEpoch (epochs s) \<Longrightarrow> e \<noteq> lastCommittedLSPEpoch (epochs s) \<Longrightarrow>
    startCommitEpoch typechecking_thread e (epochs s) = Inr em \<Longrightarrow>
    lsp_step Typechecker s (s\<lparr>epochs := em, tpc := T_Checking\<rparr>)"
| peek: "tpc s = T_Checking \<and> allow \<or> tpc s = T_Committed str \<and> \<not> allow \<Longrightarrow>
    assertConsistentThread (pm_typecheckingThreadId (preempt s)) typechecking_thread
      ''PreemptionTaskManager::tryRunScheduledPreemptionTask'' = Inr tid \<Longrightarrow>
    lsp_step Typechecker s (peek str allow s)"
| check: "tpc s = T_Peeked t str allow \<Longrightarrow>
    lsp_step Typechecker s (s\<lparr>tpc :=
      if deferred allow str (preempt s) then return_pc allow else T_Loaded t str allow\<rparr>)"
| take: "tpc s = T_Loaded t str allow \<Longrightarrow> compare_exchange (Some t) None (preempt s) = (ok, pm) \<Longrightarrow>
    lsp_step Typechecker s (s\<lparr>preempt := pm, tpc := if ok then T_Exec t str allow else return_pc allow\<rparr>)"
| reschedule: "tpc s = T_Exec t str True \<Longrightarrow> wasRescheduled (r :: run_result) \<Longrightarrow>
    lsp_step Typechecker s (s\<lparr>preempt := (preempt s)\<lparr>runnableAt := rescheduled r\<rparr>, tpc := T_Requeue t\<rparr>)"
| requeue: "tpc s = T_Requeue t \<Longrightarrow>
    lsp_step Typechecker s (s\<lparr>preempt := putBack t (preempt s), tpc := T_Checking\<rparr>)"
| finish: "tpc s = T_Exec t str allow \<Longrightarrow> \<not> (allow \<and> wasRescheduled (r :: run_result)) \<Longrightarrow>
    lsp_step Typechecker s (s\<lparr>finishedTasks := t # finishedTasks s, tpc := return_pc allow\<rparr>)"
| commit: "tpc s = T_Checking \<Longrightarrow> lock_free s \<Longrightarrow> commitLocked (epochs s) = (committed, em) \<Longrightarrow>
    lsp_step Typechecker s (s\<lparr>epochs := em, tpc := T_Committed str\<rparr>)"
| cancel_slow_path: "mpc s = M_Ready \<Longrightarrow>
    tryCancelSlowPath processing_thread e (epochs s) = Inr (ok, em) \<Longrightarrow>
    lsp_step Processor s (s\<lparr>epochs := em\<rparr>)"
| schedule: "mpc s = M_Ready \<Longrightarrow> t \<notin> set (finishedTasks s) \<Longrightarrow> t \<notin> set (canceledTasks s) \<Longrightarrow>
    scheduleCheck processing_thread (epochs s) (preempt s) = Inr (ok, pm) \<Longrightarrow>
    lsp_step Processor s (s\<lparr>preempt := pm, mpc := if ok then M_Scheduling t else M_Ready\<rparr>)"
| scheduled: "mpc s = M_Scheduling t \<Longrightarrow> compare_exchange None (Some t) (preempt s) = (ok, pm) \<Longrightarrow>
    lsp_step Processor s (s\<lparr>preempt := pm, mpc := if ok then M_Scheduled t else M_Ready\<rparr>)"
| cancel: "mpc s = M_Scheduled t \<Longrightarrow>
    tryCancelScheduledPreemptionTask processing_thread t (preempt s) = Inr (ok, pm) \<Longrightarrow>
    lsp_step Processor s (s\<lparr>preempt := pm, mpc := if ok then M_Ready else M_Waiting t,
      canceledTasks := if ok then t # canceledTasks s else canceledTasks s\<rparr>)"
| notified: "mpc s = M_Waiting t \<Longrightarrow> t \<in> set (finishedTasks s) \<Longrightarrow>
    lsp_step Processor s (s\<lparr>mpc := M_Ready\<rparr>)"

inductive lsp_reachable :: "lsp_state \<Rightarrow> bool" where
  init: "lsp_reachable initial_lsp"
| step: "lsp_reachable s \<Longrightarrow> lsp_step a s s' \<Longrightarrow> lsp_reachable s'"

section \<open>The invariant\<close>

text \<open>Whether a slow path is under way, and the task the typechecking thread has taken.\<close>

fun in_slow_path :: "typechecker_pc \<Rightarrow> bool" where
  "in_slow_path T_Idle = False"
| "in_slow_path T_Checking = True"
| "in_slow_path (T_Peeked _ _ allow) = allow"
| "in_slow_path (T_Loaded _ _ allow) = allow"
| "in_slow_path (T_Exec _ _ allow) = allow"
| "in_slow_path (T_Requeue _) = True"
| "in_slow_path (T_Committed _) = False"

fun taken :: "typechecker_pc \<Rightarrow> task option" where
  "taken (T_Exec t _ _) = Some t"
| "taken (T_Requeue t) = Some t"
| "taken _ = None"

definition epochs_ok :: "lsp_state \<Rightarrow> bool" where
  "epochs_ok s \<longleftrightarrow>
     (in_slow_path (tpc s) \<longleftrightarrow> currentlyProcessingLSPEpoch (epochs s) \<noteq> lastCommittedLSPEpoch (epochs s))
     \<and> (\<not> in_slow_path (tpc s) \<longrightarrow> lspEpochInvalidator (epochs s) = lastCommittedLSPEpoch (epochs s))"

definition threads_ok :: "lsp_state \<Rightarrow> bool" where
  "threads_ok s \<longleftrightarrow>
     typecheckingThreadId (epochs s) \<in> {None, Some typechecking_thread}
     \<and> messageProcessingThreadId (epochs s) \<in> {None, Some processing_thread}
     \<and> pm_typecheckingThreadId (preempt s) \<in> {None, Some typechecking_thread}
     \<and> processingThreadId (preempt s) \<in> {None, Some processing_thread}"

text \<open>A scheduled task is in the slot, taken, or finished, and in one of these places only.\<close>

definition placed :: "lsp_state \<Rightarrow> task \<Rightarrow> bool" where
  "placed s t \<longleftrightarrow> t \<notin> set (canceledTasks s)
     \<and> (preemptTask (preempt s) = Some t \<and> taken (tpc s) = None \<and> t \<notin> set (finishedTasks s)
      \<or> preemptTask (preempt s) = None \<and> taken (tpc s) = Some t \<and> t \<notin> set (finishedTasks s)
      \<or> preemptTask (preempt s) = None \<and> taken (tpc s) = None \<and> t \<in> set (finishedTasks s))"

definition tasks_ok :: "lsp_state \<Rightarrow> bool" where
  "tasks_ok s \<longleftrightarrow> distinct (finishedTasks s) \<and> set (finishedTasks s) \<inter> set (canceledTasks s) = {}
     \<and> (case mpc s of
          M_Ready \<Rightarrow> preemptTask (preempt s) = None \<and> taken (tpc s) = None
        | M_Scheduling t \<Rightarrow> preemptTask (preempt s) = None \<and> taken (tpc s) = None \<and> in_slow_path (tpc s)
            \<and> t \<notin> set (finishedTasks s) \<and> t \<notin> set (canceledTasks s)
        | M_Scheduled t \<Rightarrow> placed s t
        | M_Waiting t \<Rightarrow> placed s t)"

text \<open>Once the slow path is over, only the task that was looked at can be in the slot, and at the end
  none.\<close>

fun slot_ok :: "typechecker_pc \<Rightarrow> task option \<Rightarrow> bool" where
  "slot_ok T_Idle slot \<longleftrightarrow> slot = None"
| "slot_ok (T_Peeked t _ allow) slot \<longleftrightarrow> allow \<or> slot = None \<or> slot = Some t"
| "slot_ok (T_Loaded t _ allow) slot \<longleftrightarrow> allow \<or> slot = None \<or> slot = Some t"
| "slot_ok (T_Exec t _ allow) slot \<longleftrightarrow> allow \<or> slot = None"
| "slot_ok _ slot \<longleftrightarrow> True"

definition lsp_inv :: "lsp_state \<Rightarrow> bool" where
  "lsp_inv s \<longleftrightarrow> epochs_ok s \<and> threads_ok s \<and> tasks_ok s \<and> slot_ok (tpc s) (preemptTask (preempt s))"

lemmas lsp_op_defs = startCommitEpoch_def commitLocked_def tryCancelSlowPath_def scheduleCheck_def getStatus_def
  compare_exchange_def tryCancelScheduledPreemptionTask_def assertConsistentThread_def putBack_def peek_def
  return_pc_def deferred_def Let_def

lemma epochs_ok_step:
  assumes "lsp_step a s s'" "epochs_ok s"
  shows "epochs_ok s'"
  using assms
  by (induction rule: lsp_step.induct)
    (auto simp: epochs_ok_def lsp_op_defs split: option.splits if_splits)

lemma threads_ok_step:
  assumes "lsp_step a s s'" "threads_ok s"
  shows "threads_ok s'"
  using assms
  by (induction rule: lsp_step.induct)
    (auto simp: threads_ok_def lsp_op_defs split: option.splits if_splits)

lemma slot_ok_step:
  assumes "lsp_step a s s'" "slot_ok (tpc s) (preemptTask (preempt s))"
    and "\<And>t. mpc s = M_Scheduling t \<Longrightarrow> in_slow_path (tpc s)"
  shows "slot_ok (tpc s') (preemptTask (preempt s'))"
  using assms
proof (induction rule: lsp_step.induct)
  case (scheduled s t ok pm)
  then show ?case by (cases "tpc s") (auto simp: compare_exchange_def split: if_splits)
next
  case (cancel s t ok pm)
  then show ?case by (cases "tpc s") (auto simp: lsp_op_defs split: option.splits if_splits)
qed (auto simp: lsp_op_defs split: option.splits if_splits)

lemma tasks_ok_step:
  assumes "lsp_step a s s'" "tasks_ok s" "epochs_ok s"
  shows "tasks_ok s'"
  using assms
proof (induction rule: lsp_step.induct)
  case (commit s committed em str)
  then show ?case
    by (cases "mpc s") (auto simp: tasks_ok_def placed_def lock_free_def)
next
  case (schedule s t ok pm)
  then show ?case
    by (auto simp: tasks_ok_def epochs_ok_def scheduleCheck_def getStatus_def assertConsistentThread_def Let_def
        split: option.splits if_splits)
next
  case (scheduled s t ok pm)
  then show ?case
    by (auto simp: tasks_ok_def placed_def compare_exchange_def split: if_splits)
next
  case (cancel s t ok pm)
  then show ?case
    by (auto simp: tasks_ok_def placed_def tryCancelScheduledPreemptionTask_def compare_exchange_def
        assertConsistentThread_def split: option.splits if_splits)
next
  case (notified s t)
  then show ?case
    by (auto simp: tasks_ok_def placed_def)
next
  case (cancel_slow_path s e ok em)
  then show ?case
    by (auto simp: tasks_ok_def)
next
  case (start s e em)
  then show ?case
    by (cases "mpc s") (auto simp: tasks_ok_def placed_def)
next
  case (peek s allow str tid)
  then show ?case
    by (cases "mpc s") (auto simp: tasks_ok_def placed_def peek_def return_pc_def split: option.splits)
next
  case (check s t str allow)
  then show ?case
    by (cases "mpc s") (auto simp: tasks_ok_def placed_def deferred_def return_pc_def)
next
  case (take s t str allow ok pm)
  then show ?case
    by (cases "mpc s") (auto simp: tasks_ok_def placed_def compare_exchange_def return_pc_def split: if_splits)
next
  case (reschedule s t str r)
  then show ?case
    by (cases "mpc s") (auto simp: tasks_ok_def placed_def)
next
  case (requeue s t)
  then show ?case
    by (cases "mpc s") (auto simp: tasks_ok_def placed_def putBack_def compare_exchange_def)
next
  case (finish s t str allow r)
  then show ?case
    by (cases "mpc s") (auto simp: tasks_ok_def placed_def return_pc_def)
qed

lemma lsp_inv_step:
  assumes "lsp_step a s s'" "lsp_inv s"
  shows "lsp_inv s'"
proof -
  have "in_slow_path (tpc s)" if "mpc s = M_Scheduling t" for t
    using assms(2) that by (simp add: lsp_inv_def tasks_ok_def)
  with assms show ?thesis
    unfolding lsp_inv_def using epochs_ok_step threads_ok_step tasks_ok_step slot_ok_step by blast
qed

lemma lsp_inv_reachable: "lsp_reachable s \<Longrightarrow> lsp_inv s"
proof (induction rule: lsp_reachable.induct)
  case init
  then show ?case
    by (simp add: initial_lsp_def lsp_inv_def epochs_ok_def threads_ok_def tasks_ok_def new_epoch_manager_def
        new_preemption_manager_def)
qed (rule lsp_inv_step)

section \<open>Slow paths\<close>

text \<open>What the three epochs stand for: the last committed epoch, and, while a slow path runs, its epoch
  and whether it was canceled.\<close>

datatype slow_path = Quiet u32 | Running u32 u32 bool

inductive slow_path_step :: "actor \<Rightarrow> slow_path \<Rightarrow> slow_path \<Rightarrow> bool" where
  "e \<noteq> c \<Longrightarrow> slow_path_step Typechecker (Quiet c) (Running c e False)"
| "slow_path_step Processor (Running c e b) (Running c e True)"
| "slow_path_step Typechecker (Running c e False) (Quiet e)"
| "slow_path_step Typechecker (Running c e True) (Quiet c)"

definition slow_path_of :: "lsp_state \<Rightarrow> slow_path" where
  "slow_path_of s =
     (let em = epochs s; st = getStatus em
      in if slowPathRunning st then Running (lastCommittedLSPEpoch em) (status_epoch st) (slowPathWasCanceled st)
         else Quiet (lastCommittedLSPEpoch em))"

locale simulation =
  fixes step :: "'l \<Rightarrow> 's \<Rightarrow> 's \<Rightarrow> bool" and astep :: "'l \<Rightarrow> 'a \<Rightarrow> 'a \<Rightarrow> bool"
    and view :: "'s \<Rightarrow> 'a" and inv :: "'s \<Rightarrow> bool"
  assumes inv_step: "inv s \<Longrightarrow> step l s s' \<Longrightarrow> inv s'"
    and sim: "inv s \<Longrightarrow> step l s s' \<Longrightarrow> view s' = view s \<or> astep l (view s) (view s')"
begin

text \<open>A property of the abstract state that abstract steps keep holds along every concrete run.\<close>

lemma stable:
  assumes "\<And>l x y. P x \<Longrightarrow> astep l x y \<Longrightarrow> P y \<or> Q x y"
    and "(\<lambda>s s'. \<exists>l. step l s s' \<and> \<not> Q (view s) (view s'))\<^sup>*\<^sup>* s s'" "inv s" "P (view s)"
  shows "inv s' \<and> P (view s')"
  using assms(2-4)
proof (induction rule: rtranclp_induct)
  case (step y z)
  then obtain l where l: "step l y z" "\<not> Q (view y) (view z)" "inv y" "P (view y)" by blast
  then show ?case
    using inv_step [OF l(3,1)] sim [OF l(3,1)] assms(1) by metis
qed auto

end

interpretation paths: simulation lsp_step slow_path_step slow_path_of lsp_inv
proof
  show "lsp_inv s'" if "lsp_inv s" "lsp_step l s s'" for l s s'
    using that lsp_inv_step by blast
  fix l s s'
  assume "lsp_inv s" and step: "lsp_step l s s'"
  then have e: "epochs_ok s" by (simp add: lsp_inv_def)
  from step e show "slow_path_of s' = slow_path_of s \<or> slow_path_step l (slow_path_of s) (slow_path_of s')"
  proof cases
    case (start e' em)
    with e show ?thesis
      by (auto simp: slow_path_of_def epochs_ok_def lsp_op_defs intro: slow_path_step.intros split: option.splits if_splits)
  next
    case (commit committed em str)
    with e show ?thesis
      by (auto simp: slow_path_of_def epochs_ok_def lsp_op_defs intro: slow_path_step.intros split: if_splits)
  next
    case (cancel_slow_path e' ok em)
    with e show ?thesis
      by (auto simp: slow_path_of_def epochs_ok_def lsp_op_defs intro: slow_path_step.intros split: option.splits if_splits)
  qed (auto simp: slow_path_of_def lsp_op_defs)
qed

text \<open>In particular a canceled slow path stays canceled until it is given up.\<close>

inductive_cases canceled_stepE: "slow_path_step a (Running c e True) y"

lemma canceled_until_given_up:
  assumes "lsp_reachable s" "slow_path_of s = Running c e True"
    and "(\<lambda>s s'. \<exists>a. lsp_step a s s' \<and> slow_path_of s' \<noteq> Quiet c)\<^sup>*\<^sup>* s s'"
  shows "slow_path_of s' = Running c e True"
  using paths.stable [where P = "\<lambda>x. x = Running c e True" and Q = "\<lambda>x y. y = Quiet c", OF _ assms(3)]
    lsp_inv_reachable [OF assms(1)] assms(2)
  by (auto elim: canceled_stepE)

text \<open>C8: The three epoch counters implement the life of a slow path: whatever the interleaving, every step
  of the two threads leaves the abstract slow path as it is or is one of its steps, so that a canceled
  slow path is never committed, one that was not canceled is, and only the processing thread cancels.
  The reported status tells whether the typechecking thread is inside a slow path.\<close>

theorem slow_path_refinement:
  assumes "lsp_reachable s" "lsp_step a s s'"
  shows "(slow_path_of s' = slow_path_of s \<or> slow_path_step a (slow_path_of s) (slow_path_of s'))
     \<and> (slowPathRunning (getStatus (epochs s)) \<longleftrightarrow> in_slow_path (tpc s))"
  using paths.sim [OF lsp_inv_reachable [OF assms(1)] assms(2)] lsp_inv_reachable [OF assms(1)]
  by (simp add: lsp_inv_def epochs_ok_def getStatus_def Let_def)

section \<open>Preemption tasks\<close>

text \<open>C9: A successfully scheduled preemption task is guaranteed to run: once the slow path is over and its
  thread idle, the slot is empty and a task the processing thread still waits for is finished.  A task
  finishes at most once, and never after it was canceled.\<close>

theorem scheduled_task_runs:
  assumes "lsp_reachable s"
  shows "(tpc s = T_Idle \<longrightarrow> preemptTask (preempt s) = None
       \<and> (mpc s = M_Scheduled t \<or> mpc s = M_Waiting t \<longrightarrow> t \<in> set (finishedTasks s)))
     \<and> distinct (finishedTasks s) \<and> set (finishedTasks s) \<inter> set (canceledTasks s) = {}"
  using lsp_inv_reachable [OF assms] by (auto simp: lsp_inv_def tasks_ok_def placed_def)

text \<open>How far the typechecking thread is from being idle.\<close>

fun distance :: "typechecker_pc \<Rightarrow> nat" where
  "distance T_Idle = 0"
| "distance (T_Exec _ _ allow) = (if allow then 6 else 1)"
| "distance (T_Loaded _ _ allow) = (if allow then 7 else 2)"
| "distance (T_Peeked _ _ allow) = (if allow then 8 else 3)"
| "distance (T_Committed _) = 4"
| "distance T_Checking = 5"
| "distance (T_Requeue _) = 6"

lemma typechecker_progress:
  assumes "lsp_inv s" "mpc s = M_Waiting t" "tpc s \<noteq> T_Idle"
  shows "\<exists>s'. lsp_step Typechecker s s' \<and> mpc s' = M_Waiting t \<and> distance (tpc s') < distance (tpc s)"
proof (cases "tpc s")
  case T_Checking
  obtain c em where "commitLocked (epochs s) = (c, em)" by fastforce
  from lsp_step.commit [OF T_Checking _ this] show ?thesis
    using assms(2) T_Checking by (fastforce simp: lock_free_def)
next
  case (T_Peeked t' str allow)
  from lsp_step.check [OF this] show ?thesis
    using assms(2) T_Peeked by (fastforce simp: return_pc_def deferred_def)
next
  case (T_Loaded t' str allow)
  obtain ok pm where "compare_exchange (Some t') None (preempt s) = (ok, pm)" by fastforce
  from lsp_step.take [OF T_Loaded this] show ?thesis
    using assms(2) T_Loaded by (fastforce simp: return_pc_def)
next
  case (T_Exec t' str allow)
  from lsp_step.finish [OF this, of default_result] show ?thesis
    using assms(2) T_Exec by (fastforce simp: default_result_def return_pc_def)
next
  case (T_Requeue t')
  from lsp_step.requeue [OF this] show ?thesis
    using assms(2) T_Requeue by fastforce
next
  case (T_Committed str)
  have "pm_typecheckingThreadId (preempt s) \<in> {None, Some typechecking_thread}"
    using assms(1) by (simp add: lsp_inv_def threads_ok_def)
  then obtain tid where "assertConsistentThread (pm_typecheckingThreadId (preempt s)) typechecking_thread
      ''PreemptionTaskManager::tryRunScheduledPreemptionTask'' = Inr tid"
    by (auto simp: assertConsistentThread_def)
  with T_Committed have "lsp_step Typechecker s (peek str False s)"
    by (intro lsp_step.peek) auto
  then show ?thesis
    using assms(2) T_Committed by (force simp: peek_def return_pc_def split: option.split)
qed (use assms(3) in simp)

lemma can_finish:
  assumes "lsp_inv s" "mpc s = M_Waiting t"
  shows "\<exists>s'. (lsp_step Typechecker)\<^sup>*\<^sup>* s s' \<and> mpc s' = M_Waiting t \<and> t \<in> set (finishedTasks s')"
  using assms
proof (induction "distance (tpc s)" arbitrary: s rule: less_induct)
  case less
  show ?case
  proof (cases "tpc s = T_Idle")
    case True
    then have "t \<in> set (finishedTasks s)"
      using less.prems by (auto simp: lsp_inv_def tasks_ok_def placed_def)
    with less.prems show ?thesis by blast
  next
    case False
    from typechecker_progress [OF less.prems False] obtain s1
      where s1: "lsp_step Typechecker s s1" "mpc s1 = M_Waiting t" "distance (tpc s1) < distance (tpc s)"
      by blast
    from less.hyps [OF s1(3) lsp_inv_step [OF s1(1) less.prems(1)] s1(2)]
    show ?thesis using s1(1) by (meson converse_rtranclp_into_rtranclp)
  qed
qed

text \<open>Any step, of either thread; runs are its powers.\<close>

definition any_step :: "lsp_state \<Rightarrow> lsp_state \<Rightarrow> bool" where
  "any_step s s' \<longleftrightarrow> (\<exists>a. lsp_step a s s')"

lemma finished_stays:
  "lsp_step a s s' \<Longrightarrow> t \<in> set (finishedTasks s) \<Longrightarrow> t \<in> set (finishedTasks s')"
  by (induction rule: lsp_step.induct) (auto simp: peek_def)

lemma finished_stays_run: "(any_step ^^ n) s s' \<Longrightarrow> t \<in> set (finishedTasks s) \<Longrightarrow> t \<in> set (finishedTasks s')"
  by (induction n arbitrary: s') (auto simp: any_step_def, meson finished_stays)

text \<open>While the task is not finished the processing thread waits, and once the slow path is over every step
  brings the typechecking thread closer to the end.\<close>

lemma waiting_step:
  assumes "lsp_step a s s'" "mpc s = M_Waiting t" "t \<notin> set (finishedTasks s)"
  shows "mpc s' = M_Waiting t"
  using assms by (cases rule: lsp_step.cases) (auto simp: peek_def)

lemma ending_step:
  assumes "lsp_step a s s'" "mpc s = M_Waiting t" "t \<notin> set (finishedTasks s)" "\<not> in_slow_path (tpc s)" "tpc s \<noteq> T_Idle"
  shows "\<not> in_slow_path (tpc s') \<and> distance (tpc s') < distance (tpc s)"
  using assms
  by (cases rule: lsp_step.cases) (auto simp: peek_def return_pc_def split: option.splits if_splits)

lemma run_ends:
  assumes "(any_step ^^ n) s s'" "lsp_inv s" "mpc s = M_Waiting t" "\<not> in_slow_path (tpc s)" "distance (tpc s) \<le> n"
  shows "t \<in> set (finishedTasks s')"
  using assms
proof (induction n arbitrary: s)
  case 0
  then have "tpc s = T_Idle" by (cases "tpc s") (auto split: if_splits)
  with 0 show ?case by (auto simp: lsp_inv_def tasks_ok_def placed_def)
next
  case (Suc n)
  obtain s1 where "any_step s s1" and run: "(any_step ^^ n) s1 s'"
    by (rule relpowp_Suc_E2 [OF Suc.prems(1)])
  then obtain a where step: "lsp_step a s s1" by (auto simp: any_step_def)
  note s1 = step run
  show ?case
  proof (cases "t \<in> set (finishedTasks s)")
    case True
    then show ?thesis using finished_stays [OF s1(1)] finished_stays_run [OF s1(2)] by blast
  next
    case False
    then have "tpc s \<noteq> T_Idle" using Suc.prems by (auto simp: lsp_inv_def tasks_ok_def placed_def)
    from Suc.IH [OF s1(2) lsp_inv_step [OF s1(1) Suc.prems(2)] waiting_step [OF s1(1) Suc.prems(3) False]]
      ending_step [OF s1(1) Suc.prems(3) False Suc.prems(4) this] Suc.prems(5)
    show ?thesis by simp
  qed
qed

text \<open>C18: The processing thread never waits in vain.  Whenever it waits for a preemption task that is not finished,
  the typechecking thread is not stuck; it can finish the task by its own steps; and once the slow path is
  over, on every continuation of four steps of any threads the task is finished, because the
  typechecking thread looks at the slot a last time after the commit and then runs what it finds.
  (While the slow path runs, how long it takes is up to typechecking and to the task, which may ask to
  be rescheduled.)\<close>

theorem waiting_ends:
  assumes "lsp_reachable s" "mpc s = M_Waiting t"
  shows "(t \<notin> set (finishedTasks s) \<longrightarrow> (\<exists>s'. lsp_step Typechecker s s'))
     \<and> (\<exists>s'. (lsp_step Typechecker)\<^sup>*\<^sup>* s s' \<and> mpc s' = M_Waiting t \<and> t \<in> set (finishedTasks s'))
     \<and> (\<forall>s'. \<not> in_slow_path (tpc s) \<and> (any_step ^^ 4) s s' \<longrightarrow> t \<in> set (finishedTasks s'))"
proof -
  have inv: "lsp_inv s" by (rule lsp_inv_reachable [OF assms(1)])
  have "\<exists>s'. lsp_step Typechecker s s'" if "t \<notin> set (finishedTasks s)"
  proof -
    have "tpc s \<noteq> T_Idle" using inv assms(2) that by (auto simp: lsp_inv_def tasks_ok_def placed_def)
    then show ?thesis using typechecker_progress [OF inv assms(2)] by blast
  qed
  moreover have "distance (tpc s) \<le> 4" if "\<not> in_slow_path (tpc s)"
    using that by (cases "tpc s") auto
  ultimately show ?thesis
    using can_finish [OF inv assms(2)] run_ends [OF _ inv assms(2)] by blast
qed

section \<open>The functions as runs\<close>

text \<open>The pieces the steps are made of compose to the functions of the code: what a call returns when no
  other thread interferes is a run of the typechecking thread.\<close>

abbreviation typechecker_run :: "lsp_state \<Rightarrow> lsp_state \<Rightarrow> bool" where
  "typechecker_run \<equiv> (lsp_step Typechecker)\<^sup>*\<^sup>*"

lemma run_step: "lsp_step Typechecker s u \<Longrightarrow> typechecker_run u v \<Longrightarrow> typechecker_run s v"
  by (rule converse_rtranclp_into_rtranclp)

lemma run_2: "lsp_step Typechecker s u \<Longrightarrow> lsp_step Typechecker u v \<Longrightarrow> typechecker_run s v"
  by (rule run_step, assumption, rule r_into_rtranclp)

lemma loaded_run:
  assumes "tpc s = T_Loaded t str allow" "preemptTask (preempt s) = Some t"
    and "pm = (preempt s)\<lparr>preemptTask := None\<rparr>" "r = (run t str :: run_result)"
  shows "typechecker_run s (if allow \<and> wasRescheduled r
     then s\<lparr>preempt := putBack t (pm\<lparr>runnableAt := rescheduled r\<rparr>), tpc := T_Checking\<rparr>
     else s\<lparr>preempt := pm, finishedTasks := t # finishedTasks s, tpc := return_pc allow\<rparr>)"
proof -
  let ?u = "s\<lparr>preempt := pm, tpc := T_Exec t str allow\<rparr>"
  have take: "lsp_step Typechecker s ?u"
    using lsp_step.take [OF assms(1), of True pm] assms(2,3) by (simp add: compare_exchange_def)
  show ?thesis
  proof (cases "allow \<and> wasRescheduled r")
    case True
    let ?v = "?u\<lparr>preempt := pm\<lparr>runnableAt := rescheduled r\<rparr>, tpc := T_Requeue t\<rparr>"
    have v: "lsp_step Typechecker ?u ?v"
      using lsp_step.reschedule [of ?u t str r] True by simp
    have "lsp_step Typechecker ?v (s\<lparr>preempt := putBack t (pm\<lparr>runnableAt := rescheduled r\<rparr>), tpc := T_Checking\<rparr>)"
      using lsp_step.requeue [of ?v t] by simp
    from run_step [OF take run_2 [OF v this]] show ?thesis
      using True by simp
  next
    case False
    have "lsp_step Typechecker ?u (s\<lparr>preempt := pm, finishedTasks := t # finishedTasks s, tpc := return_pc allow\<rparr>)"
      using lsp_step.finish [of ?u t str allow r] False by simp
    from run_2 [OF take this] False show ?thesis by (simp only: if_False)
  qed
qed

lemma tryRun_is_run:
  assumes "tpc s = T_Checking \<and> allow \<or> tpc s = T_Committed str \<and> \<not> allow"
    and call: "tryRunScheduledPreemptionTask typechecking_thread run str allow (preempt s) = Inr (r, fin, pm)"
  shows "typechecker_run s (s\<lparr>preempt := pm, finishedTasks := fin @ finishedTasks s, tpc := return_pc allow\<rparr>)"
proof -
  obtain tid where tid: "assertConsistentThread (pm_typecheckingThreadId (preempt s)) typechecking_thread
      ''PreemptionTaskManager::tryRunScheduledPreemptionTask'' = Inr tid"
    using call by (auto simp: tryRunScheduledPreemptionTask_def split: sum.splits)
  then have some: "tid = Some typechecking_thread"
    by (auto simp: assertConsistentThread_def split: option.splits if_splits)
  let ?pm = "(preempt s)\<lparr>pm_typecheckingThreadId := tid\<rparr>"
  have peek: "lsp_step Typechecker s (peek str allow s)"
    using lsp_step.peek [OF assms(1) tid] .
  show ?thesis
  proof (cases "preemptTask (preempt s)")
    case None
    then have "r = default_result \<and> fin = [] \<and> pm = ?pm"
      using call tid by (simp add: tryRunScheduledPreemptionTask_def)
    with None peek show ?thesis
      by (simp add: peek_def some r_into_rtranclp)
  next
    case (Some t)
    let ?u = "s\<lparr>preempt := ?pm, tpc := T_Peeked t str allow\<rparr>"
    have u: "lsp_step Typechecker s ?u"
      using peek Some by (simp add: peek_def some)
    show ?thesis
    proof (cases "deferred allow str ?pm")
      case True
      then have "fin = [] \<and> pm = ?pm"
        using call tid Some by (simp add: tryRunScheduledPreemptionTask_def)
      moreover have "lsp_step Typechecker ?u (s\<lparr>preempt := ?pm, tpc := return_pc allow\<rparr>)"
        using lsp_step.check [of ?u t str allow] True by simp
      ultimately show ?thesis using run_2 [OF u] by simp
    next
      case False
      let ?v = "s\<lparr>preempt := ?pm, tpc := T_Loaded t str allow\<rparr>"
      have "lsp_step Typechecker ?u ?v"
        using lsp_step.check [of ?u t str allow] False by simp
      moreover have "typechecker_run ?v (s\<lparr>preempt := pm, finishedTasks := fin @ finishedTasks s, tpc := return_pc allow\<rparr>)"
        using loaded_run [of ?v t str allow "?pm\<lparr>preemptTask := None\<rparr>" "run t str" run] call tid Some False
        by (auto simp: tryRunScheduledPreemptionTask_def compare_exchange_def Let_def return_pc_def split: if_splits)
      ultimately show ?thesis using run_step [OF u] run_step by blast
    qed
  qed
qed

lemma tryCommit_is_run:
  assumes "tpc s = T_Checking" "lock_free s" "typecheckingThreadId (epochs s) = Some typechecking_thread"
    and call: "tryCommitEpoch typechecking_thread True True run (\<lambda>(em, pm). (str, em, pm)) (epochs s, preempt s)
      = Inr (committed, fin, em, pm)"
  shows "typechecker_run s (s\<lparr>epochs := em, preempt := pm, finishedTasks := fin @ finishedTasks s, tpc := T_Idle\<rparr>)"
proof -
  have "epochs s = (epochs s)\<lparr>typecheckingThreadId := Some typechecking_thread\<rparr>"
    using assms(3) by (cases "epochs s") simp
  with call assms(3) obtain r where c: "commitLocked (epochs s) = (committed, em)"
    "tryRunScheduledPreemptionTask typechecking_thread run str False (preempt s) = Inr (r, fin, pm)"
    by (auto simp: tryCommitEpoch_def assertConsistentThread_def split: prod.splits sum.splits)
  let ?u = "s\<lparr>epochs := em, tpc := T_Committed str\<rparr>"
  have u: "lsp_step Typechecker s ?u"
    by (rule lsp_step.commit [OF assms(1,2) c(1)])
  have "typechecker_run ?u (?u\<lparr>preempt := pm, finishedTasks := fin @ finishedTasks ?u, tpc := return_pc False\<rparr>)"
    by (rule tryRun_is_run [where str = str and run = run and r = r]) (simp_all add: c(2))
  then have "typechecker_run ?u (s\<lparr>epochs := em, preempt := pm, finishedTasks := fin @ finishedTasks s, tpc := T_Idle\<rparr>)"
    by (simp add: return_pc_def)
  then show ?thesis by (rule run_step [OF u])
qed

section \<open>A run\<close>

text \<open>Epoch 1 starts, task 7 is scheduled and taken, and the processing thread, which fails to cancel it,
  waits.\<close>

definition demo_epochs :: epoch_manager where
  "demo_epochs = new_epoch_manager\<lparr>currentlyProcessingLSPEpoch := 1, lspEpochInvalidator := 1,
     typecheckingThreadId := Some typechecking_thread\<rparr>"

definition demo_preempt :: "task option \<Rightarrow> preemption_manager" where
  "demo_preempt t = \<lparr>preemptTask = t, runnableAt = 0, pm_typecheckingThreadId = Some typechecking_thread,
     processingThreadId = Some processing_thread\<rparr>"

definition demo_lsp :: "task option \<Rightarrow> typechecker_pc \<Rightarrow> processor_pc \<Rightarrow> lsp_state" where
  "demo_lsp t tp mp = \<lparr>epochs = demo_epochs, preempt = demo_preempt t, tpc = tp, mpc = mp,
     finishedTasks = [], canceledTasks = []\<rparr>"

lemmas demo_defs = demo_lsp_def demo_epochs_def demo_preempt_def new_epoch_manager_def new_preemption_manager_def
  initial_lsp_def

lemma reach_eq: "lsp_reachable s \<Longrightarrow> lsp_step a s u \<Longrightarrow> u = s' \<Longrightarrow> lsp_reachable s'"
  by (auto intro: lsp_reachable.step)

lemma demo_started: "lsp_reachable (initial_lsp\<lparr>epochs := demo_epochs, tpc := T_Checking\<rparr>)"
  by (rule reach_eq [OF lsp_reachable.init lsp_step.start [where e = 1 and em = demo_epochs]])
    (simp_all add: demo_defs lock_free_def startCommitEpoch_def assertConsistentThread_def)

lemma demo_run: "lsp_reachable (demo_lsp None (T_Exec 7 0 True) (M_Waiting 7))"
proof -
  have 2: "lsp_reachable (initial_lsp\<lparr>epochs := demo_epochs, tpc := T_Checking,
      preempt := (demo_preempt None)\<lparr>pm_typecheckingThreadId := None\<rparr>, mpc := M_Scheduling 7\<rparr>)"
    by (rule reach_eq [OF demo_started lsp_step.schedule [where t = 7 and ok = True
          and pm = "(demo_preempt None)\<lparr>pm_typecheckingThreadId := None\<rparr>"]])
      (simp_all add: demo_defs scheduleCheck_def getStatus_def assertConsistentThread_def)
  have 3: "lsp_reachable (initial_lsp\<lparr>epochs := demo_epochs, tpc := T_Checking,
      preempt := (demo_preempt (Some 7))\<lparr>pm_typecheckingThreadId := None\<rparr>, mpc := M_Scheduled 7\<rparr>)"
    by (rule reach_eq [OF 2 lsp_step.scheduled [where t = 7 and ok = True
          and pm = "(demo_preempt (Some 7))\<lparr>pm_typecheckingThreadId := None\<rparr>"]])
      (simp_all add: demo_defs compare_exchange_def)
  have 4: "lsp_reachable (demo_lsp (Some 7) (T_Peeked 7 0 True) (M_Scheduled 7))"
    by (rule reach_eq [OF 3 lsp_step.peek [where allow = True and str = 0 and tid = "Some typechecking_thread"]])
      (simp_all add: demo_defs peek_def assertConsistentThread_def)
  have 5: "lsp_reachable (demo_lsp (Some 7) (T_Loaded 7 0 True) (M_Scheduled 7))"
    by (rule reach_eq [OF 4 lsp_step.check [where t = 7 and str = 0 and allow = True]])
      (simp_all add: demo_defs deferred_def)
  have 6: "lsp_reachable (demo_lsp None (T_Exec 7 0 True) (M_Scheduled 7))"
    by (rule reach_eq [OF 5 lsp_step.take [where t = 7 and str = 0 and allow = True and ok = True
          and pm = "demo_preempt None"]])
      (simp_all add: demo_defs compare_exchange_def)
  show ?thesis
    by (rule reach_eq [OF 6 lsp_step.cancel [where t = 7 and ok = False and pm = "demo_preempt None"]])
      (simp_all add: demo_defs tryCancelScheduledPreemptionTask_def compare_exchange_def assertConsistentThread_def)
qed

lemma demo_cancel_slow_path:
  "lsp_step Processor (initial_lsp\<lparr>epochs := demo_epochs, tpc := T_Checking\<rparr>)
     (initial_lsp\<lparr>epochs := demo_epochs\<lparr>lspEpochInvalidator := 2, messageProcessingThreadId := Some processing_thread\<rparr>,
        tpc := T_Checking\<rparr>)"
proof -
  let ?s = "initial_lsp\<lparr>epochs := demo_epochs, tpc := T_Checking\<rparr>"
  have "lsp_step Processor ?s (?s\<lparr>epochs := demo_epochs\<lparr>lspEpochInvalidator := 2,
      messageProcessingThreadId := Some processing_thread\<rparr>\<rparr>)"
    by (rule lsp_step.cancel_slow_path [where e = 2 and ok = True])
      (simp_all add: demo_defs tryCancelSlowPath_def assertConsistentThread_def)
  then show ?thesis by (simp add: initial_lsp_def)
qed

theorem slow_path_refinement_witness:
  "slow_path_step Processor (Running 0 1 False) (Running 0 1 True)"
  using slow_path_refinement [OF demo_started demo_cancel_slow_path]
  by (simp add: slow_path_of_def getStatus_def demo_defs)

theorem scheduled_task_runs_witness:
  "distinct (finishedTasks (demo_lsp None (T_Exec 7 0 True) (M_Waiting 7)))
   \<and> preemptTask (preempt initial_lsp) = None"
  using scheduled_task_runs [OF demo_run] scheduled_task_runs [OF lsp_reachable.init]
  by (simp add: initial_lsp_def)

text \<open>The slow path commits while task 7 is in the slot; its last look takes the task, and the processing thread
  waits.\<close>

definition demo_last :: "task option \<Rightarrow> typechecker_pc \<Rightarrow> processor_pc \<Rightarrow> lsp_state" where
  "demo_last t tp mp = (demo_lsp t tp mp)\<lparr>epochs := demo_epochs\<lparr>lastCommittedLSPEpoch := 1\<rparr>\<rparr>"

lemma demo_last_run: "lsp_reachable (demo_last None (T_Exec 7 0 False) (M_Waiting 7))"
proof -
  have 1: "lsp_reachable (initial_lsp\<lparr>epochs := demo_epochs, tpc := T_Checking,
      preempt := (demo_preempt None)\<lparr>pm_typecheckingThreadId := None\<rparr>, mpc := M_Scheduling 7\<rparr>)"
    by (rule reach_eq [OF demo_started lsp_step.schedule [where t = 7 and ok = True
          and pm = "(demo_preempt None)\<lparr>pm_typecheckingThreadId := None\<rparr>"]])
      (simp_all add: demo_defs scheduleCheck_def getStatus_def assertConsistentThread_def)
  have 2: "lsp_reachable (initial_lsp\<lparr>epochs := demo_epochs, tpc := T_Checking,
      preempt := (demo_preempt (Some 7))\<lparr>pm_typecheckingThreadId := None\<rparr>, mpc := M_Scheduled 7\<rparr>)"
    by (rule reach_eq [OF 1 lsp_step.scheduled [where t = 7 and ok = True
          and pm = "(demo_preempt (Some 7))\<lparr>pm_typecheckingThreadId := None\<rparr>"]])
      (simp_all add: demo_defs compare_exchange_def)
  have 3: "lsp_reachable ((demo_last (Some 7) (T_Committed 0) (M_Scheduled 7))\<lparr>preempt :=
      (demo_preempt (Some 7))\<lparr>pm_typecheckingThreadId := None\<rparr>\<rparr>)"
    by (rule reach_eq [OF 2 lsp_step.commit [where committed = True and em = "demo_epochs\<lparr>lastCommittedLSPEpoch := 1\<rparr>" and str = 0]])
      (simp_all add: demo_defs demo_last_def lock_free_def commitLocked_def)
  have 4: "lsp_reachable (demo_last (Some 7) (T_Peeked 7 0 False) (M_Scheduled 7))"
    by (rule reach_eq [OF 3 lsp_step.peek [where allow = False and str = 0 and tid = "Some typechecking_thread"]])
      (simp_all add: demo_defs demo_last_def peek_def assertConsistentThread_def)
  have 5: "lsp_reachable (demo_last (Some 7) (T_Loaded 7 0 False) (M_Scheduled 7))"
    by (rule reach_eq [OF 4 lsp_step.check [where t = 7 and str = 0 and allow = False]])
      (simp_all add: demo_defs demo_last_def deferred_def)
  have 6: "lsp_reachable (demo_last None (T_Exec 7 0 False) (M_Scheduled 7))"
    by (rule reach_eq [OF 5 lsp_step.take [where t = 7 and str = 0 and allow = False and ok = True
          and pm = "demo_preempt None"]])
      (simp_all add: demo_defs demo_last_def compare_exchange_def)
  show ?thesis
    by (rule reach_eq [OF 6 lsp_step.cancel [where t = 7 and ok = False and pm = "demo_preempt None"]])
      (simp_all add: demo_defs demo_last_def tryCancelScheduledPreemptionTask_def compare_exchange_def assertConsistentThread_def)
qed

lemma step_eq: "lsp_step a s u \<Longrightarrow> u = s' \<Longrightarrow> any_step s s'"
  by (auto simp: any_step_def)

lemma demo_four_steps: "\<exists>s'. (any_step ^^ 4) (demo_last None (T_Exec 7 0 False) (M_Waiting 7)) s'"
proof -
  let ?s = "demo_last None (T_Exec 7 0 False) (M_Waiting 7)"
  let ?a = "?s\<lparr>finishedTasks := [7], tpc := T_Idle\<rparr>" and ?em = "demo_epochs\<lparr>lastCommittedLSPEpoch := 1,
      currentlyProcessingLSPEpoch := 2, lspEpochInvalidator := 2\<rparr>"
  let ?b = "?a\<lparr>mpc := M_Ready\<rparr>"
  let ?c = "?b\<lparr>epochs := ?em, tpc := T_Checking\<rparr>"
  have "any_step ?s ?a"
    by (rule step_eq [OF lsp_step.finish [where t = 7 and str = 0 and allow = False and r = default_result]])
      (simp_all add: demo_last_def demo_defs return_pc_def)
  moreover have "any_step ?a ?b"
    by (rule step_eq [OF lsp_step.notified [where t = 7]]) (simp_all add: demo_last_def demo_defs)
  moreover have "any_step ?b ?c"
    by (rule step_eq [OF lsp_step.start [where e = 2 and em = ?em]])
      (simp_all add: demo_last_def demo_defs lock_free_def startCommitEpoch_def assertConsistentThread_def)
  moreover obtain em ok where "commitLocked (epochs ?c) = (ok, em)" by fastforce
  then have "any_step ?c (?c\<lparr>epochs := em, tpc := T_Committed 0\<rparr>)"
    by (intro step_eq [OF lsp_step.commit]) (simp_all add: demo_last_def demo_defs lock_free_def)
  ultimately show ?thesis
    by (auto simp: numeral_eq_Suc relpowp_Suc_right [symmetric] OO_def)
qed

theorem waiting_ends_witness:
  "\<exists>s'. (any_step ^^ 4) (demo_last None (T_Exec 7 0 False) (M_Waiting 7)) s' \<and> 7 \<in> set (finishedTasks s')"
proof -
  have "mpc (demo_last None (T_Exec 7 0 False) (M_Waiting 7)) = M_Waiting 7"
    "\<not> in_slow_path (tpc (demo_last None (T_Exec 7 0 False) (M_Waiting 7)))"
    by (simp_all add: demo_last_def demo_lsp_def)
  then show ?thesis using waiting_ends [OF demo_last_run, of 7] demo_four_steps by blast
qed

end
