(* ===== verification/Linearization.thy ===== *)
theory Linearization
  imports Effects
begin

text \<open>
  The class hierarchy: superclasses, mixins and their linearization
  (\<open>core/GlobalState.cc\<close>, \<open>computeClassLinearization\<close>), the ancestor test, the mixin operations and the
  search for members (\<open>core/Symbols.cc\<close>).

  A hierarchy maps the raw id of a class or module to what the algorithms read and write of it; 0 is
  the missing class.  The recursion follows superclasses and mixins, so it carries fuel; fuel that
  exceeds the height of the hierarchy is enough.
\<close>

section \<open>The hierarchy\<close>

record class_data =
  superclass :: u32
  mixinRefs :: "u32 list"
  isModule :: bool
  isClass :: bool
  isLinearizationComputed :: bool

type_synonym hierarchy = "u32 \<Rightarrow> class_data"

datatype lin_error = LoopInMixins | MemberLoop | OutOfFuel

definition BasicObject :: u32 where "BasicObject = 20"
definition StubModule :: u32 where "StubModule = 43"
definition PlaceholderMixin :: u32 where "PlaceholderMixin = 45"
definition StubSuperClass :: u32 where "StubSuperClass = 46"

primrec derivesFrom :: "nat \<Rightarrow> hierarchy \<Rightarrow> u32 \<Rightarrow> u32 \<Rightarrow> (lin_error, bool) result" where
  "derivesFrom 0 H c s = Inl OutOfFuel"
| "derivesFrom (Suc n) H c s =
     bindL (anyL (\<lambda>a. if isLinearizationComputed (H c) then Inr (a = s)
                      else if a = s then Inr True else derivesFrom n H a s) (mixinRefs (H c)))
       (\<lambda>hit. if hit then Inr True
              else if superclass (H c) \<noteq> 0
              then (if s = superclass (H c) then Inr True else derivesFrom n H (superclass (H c)) s)
              else Inr False)"

section \<open>Linearization\<close>

definition maybeAddMixin ::
  "nat \<Rightarrow> hierarchy \<Rightarrow> u32 \<Rightarrow> u32 \<Rightarrow> u32 \<Rightarrow> u32 list \<times> nat \<Rightarrow> (lin_error, u32 list \<times> nat) result" where
  "maybeAddMixin n H forSym parent mixin = (\<lambda>(mixinList, pos).
     if forSym = mixin then Inl LoopInMixins
     else bindL (derivesFrom n H parent mixin) (\<lambda>d.
       if d then Inr (mixinList, pos)
       else if mixin \<in> set mixinList
       then (let newPos = length (takeWhile (\<lambda>m. m \<noteq> mixin) mixinList)
             in if newPos \<ge> pos then Inr (mixinList, newPos + 1) else Inr (mixinList, pos))
       else Inr (take pos mixinList @ mixin # drop pos mixinList, pos + 1)))"

text \<open>\<open>compute\<close> is \<open>computeClassLinearization\<close>.  The information on a linearized class is read from the
  hierarchy.\<close>

primrec fullLinearizationSlowImpl ::
  "nat \<Rightarrow> (u32 \<Rightarrow> hierarchy \<Rightarrow> (lin_error, hierarchy) result) \<Rightarrow> u32 \<Rightarrow> u32 list \<times> hierarchy
     \<Rightarrow> (lin_error, u32 list \<times> hierarchy) result" where
  "fullLinearizationSlowImpl 0 compute klass st = Inl OutOfFuel"
| "fullLinearizationSlowImpl (Suc n) compute klass st =
     (case st of (acc, H) \<Rightarrow> let super = superclass (H klass) in
       bindL (foldL (\<lambda>m (acc, H).
                if m \<in> set acc then Inr (acc, H)
                else if isModule (H m) then Inr (acc @ [m], H)
                else bindL (compute m H) (\<lambda>H. fullLinearizationSlowImpl n compute m (acc, H)))
              (mixinRefs (H klass)) (acc @ [klass], H))
         (\<lambda>(acc, H).
           if super \<noteq> 0 \<and> super \<notin> set acc
           then bindL (compute super H) (\<lambda>H. fullLinearizationSlowImpl n compute super (acc, H))
           else Inr (acc, H)))"

definition linearizeMixin ::
  "nat \<Rightarrow> (u32 \<Rightarrow> hierarchy \<Rightarrow> (lin_error, hierarchy) result) \<Rightarrow> u32 \<Rightarrow> u32 \<Rightarrow> u32 list \<times> hierarchy
     \<Rightarrow> (lin_error, u32 list \<times> hierarchy) result" where
  "linearizeMixin n compute ofClass mixin = (\<lambda>(newMixins, H).
     if mixin = superclass (H ofClass) then Inr (newMixins, H)
     else if superclass (H mixin) = StubSuperClass \<or> superclass (H mixin) = StubModule
     then Inr (newMixins @ [mixin], H)
     else bindL (compute mixin H) (\<lambda>H.
       if \<not> isModule (H mixin)
       then bindL (fullLinearizationSlowImpl n compute mixin ([], H)) (\<lambda>(allMixins, H). Inr (allMixins @ newMixins, H))
       else bindL (foldL (maybeAddMixin n H ofClass (superclass (H ofClass))) (mixin # mixinRefs (H mixin)) (newMixins, 0))
              (\<lambda>(newMixins, pos). Inr (newMixins, H))))"

primrec computeClassLinearization :: "nat \<Rightarrow> u32 \<Rightarrow> hierarchy \<Rightarrow> (lin_error, hierarchy) result" where
  "computeClassLinearization 0 ofClass H = Inl OutOfFuel"
| "computeClassLinearization (Suc n) ofClass H =
     (if isLinearizationComputed (H ofClass) then Inr H
      else bindL (if superclass (H ofClass) \<noteq> 0 then computeClassLinearization n (superclass (H ofClass)) H else Inr H)
        (\<lambda>H. bindL (foldL (linearizeMixin n (computeClassLinearization n) ofClass) (mixinRefs (H ofClass)) ([], H))
          (\<lambda>(newMixins, H). Inr (H(ofClass := (H ofClass)\<lparr>mixinRefs := newMixins, isLinearizationComputed := True\<rparr>)))))"

definition computeLinearization :: "nat \<Rightarrow> u32 list \<Rightarrow> hierarchy \<Rightarrow> (lin_error, hierarchy) result" where
  "computeLinearization n refs H = foldL (computeClassLinearization n) refs H"

section \<open>Ancestors\<close>

definition edges :: "hierarchy \<Rightarrow> (u32 \<times> u32) set" where
  "edges H = {(c, d). d \<in> set (mixinRefs (H c)) \<or> superclass (H c) \<noteq> 0 \<and> d = superclass (H c)}"

text \<open>\<open>(c, d)\<close> is in this relation if \<open>d\<close> is a proper ancestor of \<open>c\<close>.\<close>

abbreviation ancestry :: "hierarchy \<Rightarrow> (u32 \<times> u32) set" where
  "ancestry H \<equiv> (edges H)\<^sup>+"

text \<open>The mixins of a linearized class are all ancestors it does not have through its superclass.\<close>

definition above_super :: "hierarchy \<Rightarrow> u32 \<Rightarrow> u32 \<Rightarrow> bool" where
  "above_super H c y \<longleftrightarrow> superclass (H c) \<noteq> 0 \<and> (y = superclass (H c) \<or> (superclass (H c), y) \<in> ancestry H)"

definition complete :: "hierarchy \<Rightarrow> u32 \<Rightarrow> bool" where
  "complete H c \<longleftrightarrow> (\<forall>y. (c, y) \<in> ancestry H \<longrightarrow> y \<in> set (mixinRefs (H c)) \<or> above_super H c y)"

text \<open>A mixin whose superclass is a stub (it stands for a constant that did not resolve) is kept as it is,
  without what it includes.  So such a mixin must have no ancestors but those the class has through its
  superclass; for other mixins the superclass of a module (in practice \<open>BasicObject\<close>) must be shared with
  the class that includes it.  The lemma \<open>stub_mixin_loses_ancestor\<close> below shows that the first
  condition is needed.\<close>

definition stub_super :: "hierarchy \<Rightarrow> u32 \<Rightarrow> bool" where
  "stub_super H m \<longleftrightarrow> superclass (H m) = StubSuperClass \<or> superclass (H m) = StubModule"

definition ready :: "hierarchy \<Rightarrow> u32 \<Rightarrow> u32 \<Rightarrow> bool" where
  "ready H c m \<longleftrightarrow>
     (if stub_super H m then \<forall>y. (m, y) \<in> ancestry H \<longrightarrow> above_super H c y
      else isModule (H m) \<and> superclass (H m) \<noteq> 0 \<longrightarrow> above_super H c (superclass (H m)))"

text \<open>A well-formed hierarchy: \<open>rank\<close> decreases along superclasses and mixins; classes that are linearized
  already are so correctly; the mixins of the others are ready; superclasses are classes.\<close>

definition wf_hierarchy :: "(u32 \<Rightarrow> nat) \<Rightarrow> hierarchy \<Rightarrow> bool" where
  "wf_hierarchy rank H \<longleftrightarrow> superclass (H 0) = 0 \<and> mixinRefs (H 0) = []
     \<and> (\<forall>c d. (c, d) \<in> edges H \<longrightarrow> d \<noteq> 0 \<and> rank d < rank c)
     \<and> (\<forall>c. isLinearizationComputed (H c) \<longrightarrow> complete H c)
     \<and> (\<forall>c m. \<not> isLinearizationComputed (H c) \<and> m \<in> set (mixinRefs (H c)) \<longrightarrow> ready H c m)
     \<and> (\<forall>c. superclass (H c) \<noteq> 0 \<longrightarrow> \<not> isModule (H (superclass (H c))))"

lemma ancestry_unfold: "(c, y) \<in> ancestry H \<longleftrightarrow> (\<exists>d. (c, d) \<in> edges H \<and> (d = y \<or> (d, y) \<in> ancestry H))"
  by (meson r_into_trancl tranclD trancl_into_trancl2 rtranclD)

lemma ancestry_cases:
  "(c, y) \<in> ancestry H \<longleftrightarrow>
     (\<exists>m\<in>set (mixinRefs (H c)). y = m \<or> (m, y) \<in> ancestry H) \<or> above_super H c y"
  unfolding ancestry_unfold [of c y] by (auto simp: edges_def above_super_def)

lemma wf_rank:
  assumes "wf_hierarchy rank H"
  shows "(c, d) \<in> edges H \<Longrightarrow> rank d < rank c" "(c, d) \<in> ancestry H \<Longrightarrow> rank d < rank c"
proof -
  show e: "rank d < rank c" if "(c, d) \<in> edges H" for c d
    using assms that by (simp add: wf_hierarchy_def)
  show "rank d < rank c" if "(c, d) \<in> ancestry H"
    using that by (induction rule: trancl.induct) (auto dest: e intro: less_trans)
qed

lemma wf_0:
  assumes "wf_hierarchy rank H"
  shows "superclass (H 0) = 0" "mixinRefs (H 0) = []"
  using assms unfolding wf_hierarchy_def by blast+

lemma wf_complete: "wf_hierarchy rank H \<Longrightarrow> isLinearizationComputed (H c) \<Longrightarrow> complete H c"
  unfolding wf_hierarchy_def by blast

lemma wf_edges:
  assumes "wf_hierarchy rank H"
  shows "m \<in> set (mixinRefs (H c)) \<Longrightarrow> rank m < rank c"
    "0 \<notin> set (mixinRefs (H c))"
    "superclass (H c) \<noteq> 0 \<Longrightarrow> rank (superclass (H c)) < rank c"
    "(0, y) \<notin> ancestry H"
proof -
  show "rank m < rank c" if "m \<in> set (mixinRefs (H c))"
    using wf_rank(1) [OF assms] that by (simp add: edges_def)
  show "0 \<notin> set (mixinRefs (H c))"
    using assms by (auto simp: wf_hierarchy_def edges_def)
  show "rank (superclass (H c)) < rank c" if "superclass (H c) \<noteq> 0"
    using wf_rank(1) [OF assms] that by (simp add: edges_def)
  show "(0, y) \<notin> ancestry H"
    unfolding ancestry_cases [of 0] above_super_def by (simp add: wf_0 [OF assms])
qed

text \<open>Enough fuel makes the test for ancestors exact, before and after linearization.\<close>

lemma derivesFrom_ancestry:
  assumes "wf_hierarchy rank H"
  shows "rank c < n \<Longrightarrow> derivesFrom n H c s = Inr ((c, s) \<in> ancestry H)"
proof (induction n arbitrary: c)
  case (Suc n)
  note rk = wf_edges(1,3) [OF assms, where c = c]
  have super: "derivesFrom n H (superclass (H c)) s = Inr ((superclass (H c), s) \<in> ancestry H)" if "superclass (H c) \<noteq> 0"
    using Suc.IH Suc.prems rk(2) that by simp
  have mixed: "derivesFrom n H m s = Inr ((m, s) \<in> ancestry H)" if "m \<in> set (mixinRefs (H c))" for m
    using Suc.IH Suc.prems rk(1) [OF that] by simp
  show ?case
  proof (cases "isLinearizationComputed (H c)")
    case True
    then have "complete H c" by (rule wf_complete [OF assms])
    then have "(c, s) \<in> ancestry H \<longleftrightarrow> s \<in> set (mixinRefs (H c)) \<or> above_super H c s"
      by (auto simp: complete_def ancestry_cases [of c])
    moreover have "anyL (\<lambda>a. Inr (a = s) :: (lin_error, bool) result) (mixinRefs (H c)) = Inr (\<exists>a\<in>set (mixinRefs (H c)). a = s)"
      by (rule anyL_Inr) simp
    ultimately show ?thesis
      using True super by (auto simp: above_super_def)
  next
    case False
    have "anyL (\<lambda>a. if a = s then Inr True else derivesFrom n H a s) (mixinRefs (H c))
        = Inr (\<exists>a\<in>set (mixinRefs (H c)). a = s \<or> (a, s) \<in> ancestry H)"
      by (rule anyL_Inr) (simp add: mixed)
    then show ?thesis
      using False super by (auto simp: ancestry_cases [of c] above_super_def)
  qed
qed simp

lemma derivesFrom_parent:
  assumes "wf_hierarchy rank H" "0 < n" "p \<noteq> 0 \<Longrightarrow> rank p < n"
  shows "derivesFrom n H p s = Inr ((p, s) \<in> ancestry H)"
proof (cases "p = 0")
  case True
  with assms(2) wf_edges(4) [OF assms(1)] show ?thesis
    by (cases n) (simp_all add: wf_0 [OF assms(1)])
qed (use assms derivesFrom_ancestry in blast)

section \<open>Correctness of the linearization\<close>

text \<open>What a call may do to the hierarchy: it keeps the ancestors of every class, and changes only the
  mixins of classes below rank \<open>k\<close> that it linearizes.\<close>

definition evolves :: "(u32 \<Rightarrow> nat) \<Rightarrow> nat \<Rightarrow> hierarchy \<Rightarrow> hierarchy \<Rightarrow> bool" where
  "evolves rank k H H' \<longleftrightarrow> wf_hierarchy rank H' \<and> ancestry H' = ancestry H
     \<and> (\<forall>c. superclass (H' c) = superclass (H c) \<and> isModule (H' c) = isModule (H c))
     \<and> (\<forall>c. isLinearizationComputed (H c) \<or> \<not> isLinearizationComputed (H' c) \<or> k \<le> rank c \<longrightarrow> H' c = H c)"

lemma evolves_refl: "wf_hierarchy rank H \<Longrightarrow> evolves rank k H H"
  by (simp add: evolves_def)

lemma evolves_trans: "evolves rank k H H1 \<Longrightarrow> evolves rank k H1 H2 \<Longrightarrow> evolves rank k H H2"
  unfolding evolves_def by metis

lemma evolves_mono: "evolves rank j H H' \<Longrightarrow> j \<le> k \<Longrightarrow> evolves rank k H H'"
  unfolding evolves_def by (meson order_trans)

lemma evolvesD:
  assumes "evolves rank k H H'"
  shows "wf_hierarchy rank H'" "ancestry H' = ancestry H" "superclass (H' c) = superclass (H c)"
    "isModule (H' c) = isModule (H c)" "isLinearizationComputed (H c) \<Longrightarrow> H' c = H c"
    "k \<le> rank c \<Longrightarrow> H' c = H c" "above_super H' c y = above_super H c y"
proof -
  show "wf_hierarchy rank H'" "ancestry H' = ancestry H" and sup: "superclass (H' c) = superclass (H c)"
    "isModule (H' c) = isModule (H c)" "isLinearizationComputed (H c) \<Longrightarrow> H' c = H c" "k \<le> rank c \<Longrightarrow> H' c = H c"
    using assms unfolding evolves_def by blast+
  then show "above_super H' c y = above_super H c y"
    by (simp add: above_super_def)
qed

text \<open>What the algorithm relies on in its recursive calls.\<close>

definition linearizes :: "(u32 \<Rightarrow> nat) \<Rightarrow> nat \<Rightarrow> (u32 \<Rightarrow> hierarchy \<Rightarrow> (lin_error, hierarchy) result) \<Rightarrow> bool" where
  "linearizes rank n compute \<longleftrightarrow> (\<forall>c H. wf_hierarchy rank H \<and> rank c < n \<longrightarrow>
     (\<exists>H'. compute c H = Inr H' \<and> evolves rank (Suc (rank c)) H H' \<and> isLinearizationComputed (H' c)))"

lemma linearizesE:
  assumes "linearizes rank n compute" "wf_hierarchy rank H" "rank c < n"
  obtains H' where "compute c H = Inr H'" "evolves rank (Suc (rank c)) H H'" "isLinearizationComputed (H' c)"
  using assms unfolding linearizes_def by blast

lemma maybeAddMixin_adds:
  assumes "wf_hierarchy rank H" "0 < n" "p \<noteq> 0 \<Longrightarrow> rank p < n" "m \<noteq> c" "pos \<le> length l"
  shows "\<exists>l' pos'. maybeAddMixin n H c p m (l, pos) = Inr (l', pos') \<and> pos' \<le> length l'
     \<and> set l' = (if (p, m) \<in> ancestry H then set l else insert m (set l)) \<and> (distinct l \<longrightarrow> distinct l')"
proof -
  have d: "derivesFrom n H p m = Inr ((p, m) \<in> ancestry H)"
    by (rule derivesFrom_parent [OF assms(1,2,3)])
  have b: "length (takeWhile (\<lambda>x. x \<noteq> m) l) < length l" if "m \<in> set l"
    using that by (induction l) auto
  have "set (take pos l @ m # drop pos l) = insert m (set l)"
    by (metis append_take_drop_id list.simps(15) set_append Un_insert_right)
  moreover have "distinct (take pos l @ m # drop pos l)" if "distinct l" "m \<notin> set l"
    using that by (metis append_take_drop_id distinct_append distinct.simps(2) disjoint_insert(2) in_set_dropD in_set_takeD list.simps(15))
  ultimately show ?thesis
    using assms(4,5) d b by (auto simp: maybeAddMixin_def Let_def Suc_le_eq insert_absorb)
qed

lemma maybeAddMixins_add:
  assumes "wf_hierarchy rank H" "0 < n" "p \<noteq> 0 \<Longrightarrow> rank p < n" "c \<notin> set ms" "pos \<le> length l"
  shows "\<exists>l' pos'. foldL (maybeAddMixin n H c p) ms (l, pos) = Inr (l', pos')
     \<and> set l' = set l \<union> {m \<in> set ms. (p, m) \<notin> ancestry H} \<and> (distinct l \<longrightarrow> distinct l')"
proof -
  let ?I = "\<lambda>ys (l', pos'). pos' \<le> length l' \<and> set l' = set l \<union> {m \<in> set ys. (p, m) \<notin> ancestry H}
    \<and> (distinct l \<longrightarrow> distinct l')"
  have "\<exists>b'. foldL (maybeAddMixin n H c p) ms (l, pos) = Inr b' \<and> ?I ms b'"
  proof (rule foldL_rule)
    fix ys x zs and b :: "u32 list \<times> nat"
    assume "ms = ys @ x # zs" and I: "?I ys b"
    obtain l1 p1 where b: "b = (l1, p1)" by fastforce
    have "x \<noteq> c" using \<open>ms = ys @ x # zs\<close> assms(4) by auto
    from maybeAddMixin_adds [OF assms(1-3) this, of p1 l1] I b
    show "\<exists>b'. maybeAddMixin n H c p x b = Inr b' \<and> ?I (ys @ [x]) b'"
      by (fastforce split: if_splits)
  qed (use assms(5) in simp)
  then show ?thesis by auto
qed

subsection \<open>Collecting the ancestors of a class that is mixed in\<close>

text \<open>The accumulator of the depth-first search: a class in it that is not under way has its ancestors
  in it too; of a module only itself is recorded.\<close>

definition dfs_ok :: "hierarchy \<Rightarrow> u32 set \<Rightarrow> u32 list \<Rightarrow> bool" where
  "dfs_ok H under_way acc \<longleftrightarrow>
     (\<forall>x\<in>set acc. isModule (H x) \<or> x \<in> under_way \<or> (\<forall>y. (x, y) \<in> ancestry H \<longrightarrow> y \<in> set acc))"

lemma dfs_ok_empty: "dfs_ok H {} []"
  by (simp add: dfs_ok_def)

lemma dfs_ok_evolves: "evolves rank k H H' \<Longrightarrow> dfs_ok H' u acc = dfs_ok H u acc"
  by (simp add: dfs_ok_def evolvesD(2,4))

definition collected :: "hierarchy \<Rightarrow> u32 \<Rightarrow> u32 list \<Rightarrow> u32 list \<Rightarrow> bool" where
  "collected H c acc acc' \<longleftrightarrow> set acc' = set acc \<union> insert c {y. (c, y) \<in> ancestry H}"

definition collects :: "(u32 \<Rightarrow> nat) \<Rightarrow> nat \<Rightarrow> (u32 \<Rightarrow> hierarchy \<Rightarrow> (lin_error, hierarchy) result) \<Rightarrow> bool" where
  "collects rank n compute \<longleftrightarrow> (\<forall>c acc H u. wf_hierarchy rank H \<and> rank c < n \<and> isLinearizationComputed (H c)
     \<and> dfs_ok H u acc \<and> (\<forall>x\<in>u. (x, c) \<in> ancestry H) \<longrightarrow>
     (\<exists>acc' H'. fullLinearizationSlowImpl n compute c (acc, H) = Inr (acc', H') \<and> evolves rank (rank c) H H'
        \<and> collected H c acc acc' \<and> dfs_ok H u acc'))"

text \<open>Visiting one more class: the step of the loop over the mixins and the treatment of the superclass.\<close>

lemma visit:
  assumes "collects rank n compute" "linearizes rank m compute" "n \<le> m" "wf_hierarchy rank H" "rank d < n"
    and "dfs_ok H u acc" "\<forall>x\<in>u. (x, d) \<in> ancestry H"
  shows "\<exists>acc' H'. bindL (compute d H) (\<lambda>H. fullLinearizationSlowImpl n compute d (acc, H)) = Inr (acc', H')
    \<and> evolves rank (Suc (rank d)) H H' \<and> collected H d acc acc' \<and> dfs_ok H u acc'"
proof -
  obtain H1 where H1: "compute d H = Inr H1" "evolves rank (Suc (rank d)) H H1" "isLinearizationComputed (H1 d)"
    using linearizesE [OF assms(2,4)] assms(3,5) by (metis less_le_trans)
  have "dfs_ok H1 u acc" "\<forall>x\<in>u. (x, d) \<in> ancestry H1" "wf_hierarchy rank H1"
    using assms(6,7) dfs_ok_evolves [OF H1(2)] evolvesD(1,2) [OF H1(2)] by simp_all
  then obtain acc' H' where r: "fullLinearizationSlowImpl n compute d (acc, H1) = Inr (acc', H')"
    "evolves rank (rank d) H1 H'" "collected H1 d acc acc'" "dfs_ok H1 u acc'"
    using assms(1,5) H1(3) unfolding collects_def by blast
  have "evolves rank (Suc (rank d)) H H'"
    using evolves_trans [OF H1(2) evolves_mono [OF r(2)]] by simp
  with H1 r show ?thesis
    using evolvesD(2) [OF H1(2)] dfs_ok_evolves [OF H1(2)] by (simp add: collected_def)
qed

lemma dfs_ok_Un:
  "dfs_ok H (insert c u) acc \<Longrightarrow> (\<And>y. (c, y) \<in> ancestry H \<Longrightarrow> y \<in> set acc) \<Longrightarrow> dfs_ok H u acc"
  unfolding dfs_ok_def by blast

lemma visit_mixins:
  assumes "collects rank n compute" "linearizes rank k compute" "n \<le> k" "wf_hierarchy rank H" "rank c \<le> n"
    and "dfs_ok H u acc" "\<forall>x\<in>u. (x, c) \<in> ancestry H"
  shows "\<exists>acc' H'. foldL (\<lambda>m (acc, H). if m \<in> set acc then Inr (acc, H)
        else if isModule (H m) then Inr (acc @ [m], H)
        else bindL (compute m H) (\<lambda>H. fullLinearizationSlowImpl n compute m (acc, H)))
       (mixinRefs (H c)) (acc @ [c], H) = Inr (acc', H') \<and> evolves rank (rank c) H H'
     \<and> insert c (set acc \<union> set (mixinRefs (H c))) \<subseteq> set acc'
     \<and> set acc' \<subseteq> set acc \<union> insert c {y. (c, y) \<in> ancestry H} \<and> dfs_ok H (insert c u) acc'"
    (is "\<exists>acc' H'. foldL ?f _ _ = _ \<and> _")
proof -
  let ?I = "\<lambda>ys (acc', H'). evolves rank (rank c) H H' \<and> insert c (set acc \<union> set ys) \<subseteq> set acc'
    \<and> set acc' \<subseteq> set acc \<union> insert c {y. (c, y) \<in> ancestry H} \<and> dfs_ok H (insert c u) acc'"
  have "\<exists>b'. foldL ?f (mixinRefs (H c)) (acc @ [c], H) = Inr b' \<and> ?I (mixinRefs (H c)) b'"
  proof (rule foldL_rule)
    show "?I [] (acc @ [c], H)"
      using assms(4,6) by (auto simp: dfs_ok_def evolves_refl)
  next
    fix ys m zs and b :: "u32 list \<times> hierarchy"
    assume split: "mixinRefs (H c) = ys @ m # zs" and I: "?I ys b"
    obtain acc1 H1 where b: "b = (acc1, H1)" by fastforce
    have ev: "evolves rank (rank c) H H1" using I b by simp
    have m: "m \<in> set (mixinRefs (H c))" using split by simp
    then have cm: "(c, m) \<in> ancestry H" by (auto simp: ancestry_cases [of c])
    have rm: "rank m < rank c" by (rule wf_edges(1) [OF assms(4) m])
    consider "m \<in> set acc1" | "m \<notin> set acc1" "isModule (H1 m)" | "m \<notin> set acc1" "\<not> isModule (H1 m)" by blast
    then show "\<exists>b'. ?f m b = Inr b' \<and> ?I (ys @ [m]) b'"
    proof cases
      case 1
      then show ?thesis using I b by auto
    next
      case 2
      then have "isModule (H m)" using evolvesD(4) [OF ev] by simp
      with 2 I b cm show ?thesis by (auto simp: dfs_ok_def)
    next
      case 3
      have "\<forall>x\<in>insert c u. (x, m) \<in> ancestry H1"
        using assms(7) cm evolvesD(2) [OF ev] by (auto intro: trancl_trans)
      then obtain acc2 H2 where v: "bindL (compute m H1) (\<lambda>H. fullLinearizationSlowImpl n compute m (acc1, H)) = Inr (acc2, H2)"
        "evolves rank (Suc (rank m)) H1 H2" "collected H1 m acc1 acc2" "dfs_ok H1 (insert c u) acc2"
        using visit [OF assms(1-3) evolvesD(1) [OF ev], of m "insert c u" acc1] rm assms(5) I b dfs_ok_evolves [OF ev] by auto
      have "evolves rank (rank c) H H2"
        using evolves_trans [OF ev evolves_mono [OF v(2)]] rm by simp
      moreover have "set acc2 \<subseteq> set acc \<union> insert c {y. (c, y) \<in> ancestry H}" "insert c (set acc \<union> set (ys @ [m])) \<subseteq> set acc2"
        using v(3) I b cm evolvesD(2) [OF ev] by (auto simp: collected_def intro: trancl_trans)
      moreover have "dfs_ok H (insert c u) acc2"
        using v(4) dfs_ok_evolves [OF ev] by simp
      ultimately show ?thesis
        using v(1) 3 b by auto
    qed
  qed
  then show ?thesis by auto
qed

lemma visit_super:
  assumes "collects rank n compute" "linearizes rank k compute" "n \<le> k" "wf_hierarchy rank H" "rank c \<le> n"
    and u: "\<forall>x\<in>u. (x, c) \<in> ancestry H" and ev: "evolves rank (rank c) H H1" and ok: "dfs_ok H (insert c u) acc"
  defines "s \<equiv> superclass (H c)"
  shows "\<exists>acc' H'. (if s \<noteq> 0 \<and> s \<notin> set acc
        then bindL (compute s H1) (\<lambda>H. fullLinearizationSlowImpl n compute s (acc, H))
        else Inr (acc, H1)) = Inr (acc', H') \<and> evolves rank (rank c) H H'
      \<and> set acc' = set acc \<union> {y. above_super H c y} \<and> dfs_ok H (insert c u) acc'"
proof (cases "s \<noteq> 0 \<and> s \<notin> set acc")
  case True
  then have cs: "(c, s) \<in> ancestry H" by (auto simp: ancestry_cases [of c] above_super_def s_def)
  have rs: "rank s < rank c" using wf_rank(2) [OF assms(4) cs] .
  have "\<forall>x\<in>insert c u. (x, s) \<in> ancestry H1"
    using u cs evolvesD(2) [OF ev] by (auto intro: trancl_trans)
  then obtain acc2 H2 where v: "bindL (compute s H1) (\<lambda>H. fullLinearizationSlowImpl n compute s (acc, H)) = Inr (acc2, H2)"
    "evolves rank (Suc (rank s)) H1 H2" "collected H1 s acc acc2" "dfs_ok H1 (insert c u) acc2"
    using visit [OF assms(1-3) evolvesD(1) [OF ev], of s "insert c u" acc] rs assms(5) ok dfs_ok_evolves [OF ev] by auto
  have "evolves rank (rank c) H H2"
    using evolves_trans [OF ev evolves_mono [OF v(2)]] rs by simp
  with v True show ?thesis
    using evolvesD(2) [OF ev] dfs_ok_evolves [OF ev] by (auto simp: collected_def above_super_def s_def)
next
  case False
  have "y \<in> set acc" if y: "above_super H c y" for y
  proof -
    have s: "s \<noteq> 0" "s \<in> set acc" using False y by (auto simp: above_super_def s_def)
    then have cs: "(c, s) \<in> ancestry H" by (auto simp: ancestry_cases [of c] above_super_def s_def)
    have "\<not> isModule (H s)" using assms(4) s(1) unfolding wf_hierarchy_def s_def by blast
    moreover have "s \<notin> insert c u"
      using u cs wf_rank(2) [OF assms(4)] by (metis insert_iff less_asym less_irrefl)
    ultimately show ?thesis
      using ok s(2) y unfolding dfs_ok_def above_super_def s_def by blast
  qed
  then show ?thesis using False ev ok by auto
qed

lemma full_collects:
  assumes "linearizes rank k compute"
  shows "n \<le> k \<Longrightarrow> collects rank n compute"
proof (induction n)
  case (Suc n)
  show ?case
    unfolding collects_def
  proof (intro allI impI, elim conjE)
    fix c acc H u
    assume wf: "wf_hierarchy rank H" and rk: "rank c < Suc n" and lin: "isLinearizationComputed (H c)"
      and ok: "dfs_ok H u acc" and u: "\<forall>x\<in>u. (x, c) \<in> ancestry H"
    have IH: "collects rank n compute" and nk: "n \<le> k" and rk': "rank c \<le> n" using Suc rk by simp_all
    obtain acc1 H1 where loop: "foldL (\<lambda>m (acc, H). if m \<in> set acc then Inr (acc, H)
        else if isModule (H m) then Inr (acc @ [m], H)
        else bindL (compute m H) (\<lambda>H. fullLinearizationSlowImpl n compute m (acc, H)))
       (mixinRefs (H c)) (acc @ [c], H) = Inr (acc1, H1)"
      and ev: "evolves rank (rank c) H H1" and sub: "insert c (set acc \<union> set (mixinRefs (H c))) \<subseteq> set acc1"
      and sup: "set acc1 \<subseteq> set acc \<union> insert c {y. (c, y) \<in> ancestry H}" and ok1: "dfs_ok H (insert c u) acc1"
      using visit_mixins [OF IH assms nk wf rk' ok u] by auto
    obtain acc2 H2 where last: "(if superclass (H c) \<noteq> 0 \<and> superclass (H c) \<notin> set acc1
          then bindL (compute (superclass (H c)) H1) (\<lambda>H'. fullLinearizationSlowImpl n compute (superclass (H c)) (acc1, H'))
          else Inr (acc1, H1)) = Inr (acc2, H2)"
      and ev2: "evolves rank (rank c) H H2" and a: "set acc2 = set acc1 \<union> {y. above_super H c y}"
      and ok2: "dfs_ok H (insert c u) acc2"
      using visit_super [OF IH assms nk wf rk' u ev ok1] by blast
    have "y \<in> set acc2" if "(c, y) \<in> ancestry H" for y
      using wf_complete [OF wf lin] that a sub unfolding complete_def by blast
    moreover have "(c, y) \<in> ancestry H" if "above_super H c y" for y
      using that by (simp add: ancestry_cases [of c])
    ultimately have "collected H c acc acc2" "dfs_ok H u acc2"
      using a sub sup dfs_ok_Un [OF ok2] unfolding collected_def by auto
    moreover have "fullLinearizationSlowImpl (Suc n) compute c (acc, H) = Inr (acc2, H2)"
      using loop last by (simp add: Let_def)
    ultimately show "\<exists>acc' H'. fullLinearizationSlowImpl (Suc n) compute c (acc, H) = Inr (acc', H')
        \<and> evolves rank (rank c) H H' \<and> collected H c acc acc' \<and> dfs_ok H u acc'"
      using ev2 by blast
  qed
qed (simp add: collects_def)

subsection \<open>The linearization of a class\<close>

text \<open>The mixins found so far are ancestors, and an original mixin is covered once it and its ancestors
  are among them or above the superclass.\<close>

definition covered :: "hierarchy \<Rightarrow> u32 \<Rightarrow> u32 list \<Rightarrow> u32 \<Rightarrow> bool" where
  "covered H c new m \<longleftrightarrow> (\<forall>y. y = m \<or> (m, y) \<in> ancestry H \<longrightarrow> y \<in> set new \<or> above_super H c y)"

lemma covered_mono: "covered H c new m \<Longrightarrow> set new \<subseteq> set new' \<Longrightarrow> covered H c new' m"
  unfolding covered_def by blast

definition covers :: "(u32 \<Rightarrow> nat) \<Rightarrow> hierarchy \<Rightarrow> u32 \<Rightarrow> u32 \<Rightarrow> u32 list \<Rightarrow> u32 list \<times> hierarchy \<Rightarrow> bool" where
  "covers rank H c m new = (\<lambda>(new', H'). evolves rank (rank c) H H'
     \<and> set new \<subseteq> set new' \<and> set new' \<subseteq> set new \<union> {y. (c, y) \<in> ancestry H} \<and> covered H c new' m
     \<and> ((\<forall>x\<in>set (mixinRefs (H c)). isModule (H x) \<and> \<not> stub_super H x) \<and> distinct new \<longrightarrow> distinct new'))"

text \<open>A class that is mixed in brings all its ancestors.\<close>

lemma class_mixin_covers:
  assumes lin: "linearizes rank n compute" and rk: "rank c \<le> n" and cm: "(c, m) \<in> ancestry H" "rank m < rank c"
    and H1: "evolves rank (Suc (rank m)) H H1" "isLinearizationComputed (H1 m)"
    and kind: "m \<in> set (mixinRefs (H c))" "\<not> isModule (H m)"
  shows "\<exists>acc H2. fullLinearizationSlowImpl n compute m ([], H1) = Inr (acc, H2) \<and> covers rank H c m new (acc @ new, H2)"
proof -
  note ev = evolvesD [OF H1(1)]
  have "collects rank n compute" by (rule full_collects [OF lin order_refl])
  then obtain acc H2 where r: "fullLinearizationSlowImpl n compute m ([], H1) = Inr (acc, H2)"
    "evolves rank (rank m) H1 H2" "collected H1 m [] acc"
    using ev(1) H1(2) less_le_trans [OF cm(2) rk] dfs_ok_empty [of H1] unfolding collects_def by blast
  then have acc: "set acc = insert m {y. (m, y) \<in> ancestry H}" using ev(2) by (simp add: collected_def)
  have "evolves rank (rank c) H H2"
    using evolves_trans [OF H1(1) evolves_mono [OF r(2)]] evolves_mono cm(2) by (metis Suc_leI le_SucI order_refl)
  moreover have "set (acc @ new) \<subseteq> set new \<union> {y. (c, y) \<in> ancestry H}"
    using acc cm(1) by (auto intro: trancl_trans)
  moreover have "covered H c (acc @ new) m" using acc by (auto simp: covered_def)
  ultimately show ?thesis using r(1) kind by (auto simp: covers_def)
qed

text \<open>A module brings itself and its mixins, less what the superclass has.\<close>

lemma module_mixin_covers:
  assumes wf: "wf_hierarchy rank H" and rk: "rank c \<le> n" and cm: "(c, m) \<in> ancestry H" "rank m < rank c"
    and H1: "evolves rank (Suc (rank m)) H H1" "isLinearizationComputed (H1 m)"
    and module: "isModule (H m)" "ready H c m" "\<not> stub_super H m"
  shows "\<exists>new' pos. foldL (maybeAddMixin n H1 c (superclass (H c))) (m # mixinRefs (H1 m)) (new, 0) = Inr (new', pos)
     \<and> covers rank H c m new (new', H1)"
proof -
  let ?ms = "m # mixinRefs (H1 m)"
  note ev = evolvesD [OF H1(1)]
  have ms: "(c, x) \<in> ancestry H" if "x \<in> set ?ms" for x
    using that cm(1) ev(2) ancestry_cases [of m x H1] by (auto intro: trancl_trans)
  have "c \<notin> set ?ms" using ms wf_rank(2) [OF wf] less_irrefl by metis
  then obtain new' pos where r: "foldL (maybeAddMixin n H1 c (superclass (H c))) ?ms (new, 0) = Inr (new', pos)"
    "set new' = set new \<union> {x \<in> set ?ms. (superclass (H c), x) \<notin> ancestry H}" "distinct new \<longrightarrow> distinct new'"
    using maybeAddMixins_add [OF ev(1), of n "superclass (H c)" c ?ms 0 new] wf_edges(3) [OF wf, of c] cm(2) rk ev(2) by force
  have "covered H c new' m"
    unfolding covered_def
  proof (intro allI impI)
    fix y assume "y = m \<or> (m, y) \<in> ancestry H"
    then have "y \<in> set ?ms \<or> above_super H m y"
      using wf_complete [OF ev(1) H1(2)] ev(2,7) unfolding complete_def by auto
    then show "y \<in> set new' \<or> above_super H c y"
    proof
      assume "y \<in> set ?ms"
      moreover have "(superclass (H c), y) \<notin> ancestry H" if "superclass (H c) = 0"
        using that wf_edges(4) [OF wf, of y] by simp
      ultimately show ?thesis unfolding r(2) above_super_def by blast
    next
      assume y: "above_super H m y"
      then have "above_super H c (superclass (H m))"
        using module by (simp add: ready_def above_super_def)
      with y show ?thesis by (auto simp: above_super_def intro: trancl_trans)
    qed
  qed
  moreover have "evolves rank (rank c) H H1" using evolves_mono [OF H1(1)] cm(2) by simp
  ultimately show ?thesis using r ms unfolding covers_def by auto
qed

text \<open>A mixin with a stub for its superclass brings itself.\<close>

lemma stub_mixin_covers:
  assumes wf: "wf_hierarchy rank H" and m: "m \<in> set (mixinRefs (H c))" and stub: "stub_super H m" "ready H c m"
  shows "covers rank H c m new (new @ [m], H)"
proof -
  have "(c, m) \<in> ancestry H" using m by (auto simp: ancestry_cases [of c])
  moreover have "covered H c (new @ [m]) m"
    using stub unfolding covered_def ready_def by auto
  ultimately show ?thesis using evolves_refl [OF wf] m stub(1) by (auto simp: covers_def)
qed

lemma linearizeMixin_covers:
  assumes lin: "linearizes rank n compute" and wf: "wf_hierarchy rank H" and rk: "rank c \<le> n"
    and unlin: "\<not> isLinearizationComputed (H c)" and m: "m \<in> set (mixinRefs (H c))"
  shows "\<exists>new' H'. linearizeMixin n compute c m (new, H) = Inr (new', H') \<and> covers rank H c m new (new', H')"
proof (cases "m = superclass (H c)")
  case True
  then have "linearizeMixin n compute c m (new, H) = Inr (new, H)" by (simp add: linearizeMixin_def)
  moreover have "superclass (H c) \<noteq> 0" using wf_edges(2) [OF wf, of c] m True by metis
  then have "covered H c new m"
    using True by (auto simp: covered_def above_super_def)
  ultimately show ?thesis using evolves_refl [OF wf] by (auto simp: covers_def)
next
  case False
  have ready: "ready H c m" using wf unlin m unfolding wf_hierarchy_def by blast
  show ?thesis
  proof (cases "stub_super H m")
    case True
    then have "linearizeMixin n compute c m (new, H) = Inr (new @ [m], H)"
      using False by (auto simp: linearizeMixin_def stub_super_def)
    then show ?thesis using stub_mixin_covers [OF wf m True ready] by blast
  next
    case plain: False
    have cm: "(c, m) \<in> ancestry H" using m by (auto simp: ancestry_cases [of c])
    have rm: "rank m < rank c" by (rule wf_edges(1) [OF wf m])
    obtain H1 where H1: "compute m H = Inr H1" "evolves rank (Suc (rank m)) H H1" "isLinearizationComputed (H1 m)"
      using linearizesE [OF lin wf, of m] rm rk by auto
    have "linearizeMixin n compute c m (new, H) = (if \<not> isModule (H m)
        then bindL (fullLinearizationSlowImpl n compute m ([], H1)) (\<lambda>(allMixins, H). Inr (allMixins @ new, H))
        else bindL (foldL (maybeAddMixin n H1 c (superclass (H c))) (m # mixinRefs (H1 m)) (new, 0))
          (\<lambda>(newMixins, pos). Inr (newMixins, H1)))"
      using False plain H1(1) by (simp add: linearizeMixin_def stub_super_def evolvesD(3,4) [OF H1(2)])
    then show ?thesis
      using class_mixin_covers [OF lin rk cm rm H1(2,3) m, of new]
        module_mixin_covers [OF wf rk cm rm H1(2,3) _ ready plain, of new]
      by (cases "isModule (H m)") auto
  qed
qed

lemma ancestry_subset: "edges H' \<subseteq> ancestry H \<Longrightarrow> ancestry H' \<subseteq> ancestry H"
proof
  fix p assume "edges H' \<subseteq> ancestry H" "p \<in> ancestry H'"
  then show "p \<in> ancestry H"
    by (cases p, simp) (erule trancl_induct, auto intro: trancl_trans)
qed

lemma ancestry_nonzero: "wf_hierarchy rank H \<Longrightarrow> (c, y) \<in> ancestry H \<Longrightarrow> y \<noteq> 0"
  by (erule tranclE) (auto simp: wf_hierarchy_def)

text \<open>Replacing the mixins of a class by a complete list of them.\<close>

definition installMixins :: "u32 \<Rightarrow> u32 list \<Rightarrow> hierarchy \<Rightarrow> hierarchy" where
  "installMixins c new H = H(c := (H c)\<lparr>mixinRefs := new, isLinearizationComputed := True\<rparr>)"

lemma install_ancestry:
  assumes wf: "wf_hierarchy rank H" and new: "set new \<subseteq> {y. (c, y) \<in> ancestry H}"
    and cover: "\<And>y. (c, y) \<in> ancestry H \<Longrightarrow> y \<in> set new \<or> above_super H c y"
  shows "ancestry (installMixins c new H) = ancestry H"
proof
  let ?H = "installMixins c new H"
  have super: "(c, y) \<in> ancestry H" if "superclass (H c) \<noteq> 0" "y = superclass (H c)" for y
    using that by (auto simp: ancestry_cases [of c] above_super_def)
  have "edges ?H \<subseteq> ancestry H"
    using new super by (auto simp: edges_def installMixins_def split: if_splits)
  then show "ancestry ?H \<subseteq> ancestry H" by (rule ancestry_subset)
  have same: "(x, y) \<in> edges ?H" if "(x, y) \<in> edges H" "x \<noteq> c" for x y
    using that by (simp add: edges_def installMixins_def)
  have low: "(x, y) \<in> ancestry ?H" if "(x, y) \<in> ancestry H" "rank x < rank c" for x y
    using that(1)
  proof (induction rule: trancl_induct)
    case (base y)
    then show ?case using same that(2) by blast
  next
    case (step y z)
    have "rank y < rank c" using wf_rank(2) [OF wf step(1)] that(2) by simp
    then have "(y, z) \<in> edges ?H" using same step(2) by blast
    with step(3) show ?case by (rule trancl_into_trancl)
  qed
  have "(x, y) \<in> ancestry ?H" if e: "(x, y) \<in> edges H" for x y
  proof (cases "x = c")
    case True
    have own: "y \<in> set new \<Longrightarrow> (c, y) \<in> ancestry ?H"
      "superclass (H c) \<noteq> 0 \<Longrightarrow> (c, superclass (H c)) \<in> ancestry ?H"
      by (auto simp: edges_def installMixins_def)
    have "y \<in> set new \<or> above_super H c y" using cover e True by blast
    then show ?thesis
      using own low wf_edges(3) [OF wf, of c] True unfolding above_super_def by (metis trancl_trans)
  qed (use same e in blast)
  then show "ancestry H \<subseteq> ancestry ?H" by (intro ancestry_subset) auto
qed

lemma install_evolves:
  assumes wf: "wf_hierarchy rank H" and unlin: "\<not> isLinearizationComputed (H c)"
    and new: "set new \<subseteq> {y. (c, y) \<in> ancestry H}"
    and cover: "\<And>y. (c, y) \<in> ancestry H \<Longrightarrow> y \<in> set new \<or> above_super H c y"
  shows "evolves rank (Suc (rank c)) H (installMixins c new H)"
proof -
  let ?H = "installMixins c new H"
  have anc: "ancestry ?H = ancestry H" by (rule install_ancestry [OF wf new cover])
  have fields: "superclass (?H x) = superclass (H x)" "isModule (?H x) = isModule (H x)"
    "x \<noteq> c \<Longrightarrow> ?H x = H x" for x
    by (simp_all add: installMixins_def)
  have above: "above_super ?H x y = above_super H x y" for x y
    by (simp add: above_super_def anc fields(1))
  have complete: "complete ?H x" if "isLinearizationComputed (?H x)" for x
  proof (cases "x = c")
    case True
    have "mixinRefs (?H c) = new" by (simp add: installMixins_def)
    with True show ?thesis using cover unfolding complete_def anc above by simp
  next
    case False
    then have "complete H x" using that wf_complete [OF wf] by (simp add: fields(3))
    with False show ?thesis by (simp add: complete_def anc above fields(3))
  qed
  have ready: "ready ?H x m" if "\<not> isLinearizationComputed (?H x)" "m \<in> set (mixinRefs (?H x))" for x m
  proof -
    have "x \<noteq> c" using that(1) by (auto simp: installMixins_def)
    then have "ready H x m" using that wf unfolding fields(3) [OF \<open>x \<noteq> c\<close>] wf_hierarchy_def by blast
    then show ?thesis by (simp add: ready_def stub_super_def anc above fields(1,2))
  qed
  have zero: "superclass (?H 0) = 0" "mixinRefs (?H 0) = []"
    using wf_0 [OF wf] new wf_edges(4) [OF wf] by (auto simp: installMixins_def)
  have edge: "d \<noteq> 0 \<and> rank d < rank x" if "(x, d) \<in> edges ?H" for x d
  proof -
    have "(x, d) \<in> ancestry H" using that anc by blast
    then show ?thesis using ancestry_nonzero [OF wf] wf_rank(2) [OF wf] by blast
  qed
  have nomod: "\<not> isModule (?H (superclass (?H x)))" if "superclass (?H x) \<noteq> 0" for x
    using wf that unfolding fields(1,2) wf_hierarchy_def by blast
  have "wf_hierarchy rank ?H"
    unfolding wf_hierarchy_def using zero edge complete ready nomod by blast
  moreover have "?H x = H x" if "isLinearizationComputed (H x) \<or> \<not> isLinearizationComputed (?H x) \<or> Suc (rank c) \<le> rank x" for x
    using that unlin by (cases "x = c") (auto simp: installMixins_def)
  ultimately show ?thesis
    unfolding evolves_def using anc fields(1,2) by blast
qed

lemma linearizeMixins_cover:
  assumes lin: "linearizes rank n compute" and wf: "wf_hierarchy rank H" and rk: "rank c \<le> n"
    and unlin: "\<not> isLinearizationComputed (H c)"
  shows "\<exists>new H'. foldL (linearizeMixin n compute c) (mixinRefs (H c)) ([], H) = Inr (new, H')
     \<and> evolves rank (rank c) H H' \<and> set new \<subseteq> {y. (c, y) \<in> ancestry H}
     \<and> (\<forall>m\<in>set (mixinRefs (H c)). covered H c new m)
     \<and> ((\<forall>x\<in>set (mixinRefs (H c)). isModule (H x) \<and> \<not> stub_super H x) \<longrightarrow> distinct new)"
proof -
  let ?I = "\<lambda>ys (new, H'). evolves rank (rank c) H H' \<and> set new \<subseteq> {y. (c, y) \<in> ancestry H}
    \<and> (\<forall>m\<in>set ys. covered H c new m) \<and> ((\<forall>x\<in>set (mixinRefs (H c)). isModule (H x) \<and> \<not> stub_super H x) \<longrightarrow> distinct new)"
  have "\<exists>b'. foldL (linearizeMixin n compute c) (mixinRefs (H c)) ([], H) = Inr b' \<and> ?I (mixinRefs (H c)) b'"
  proof (rule foldL_rule [where I = ?I])
    show "?I [] ([], H)" using evolves_refl [OF wf] by simp
  next
    fix ys m zs and b :: "u32 list \<times> hierarchy"
    assume split: "mixinRefs (H c) = ys @ m # zs" and I: "?I ys b"
    obtain new H1 where b: "b = (new, H1)" by fastforce
    have ev: "evolves rank (rank c) H H1" using I b by simp
    have same: "H1 c = H c" using evolvesD(6) [OF ev] by simp
    have m: "m \<in> set (mixinRefs (H1 c))" "\<not> isLinearizationComputed (H1 c)" using split unlin same by simp_all
    have cov: "covered H1 c l x = covered H c l x" for l x
      by (simp add: covered_def evolvesD(2,7) [OF ev])
    obtain new' H2 where r: "linearizeMixin n compute c m (new, H1) = Inr (new', H2)" "evolves rank (rank c) H1 H2"
      "set new \<subseteq> set new'" "set new' \<subseteq> set new \<union> {y. (c, y) \<in> ancestry H1}" "covered H1 c new' m"
      "(\<forall>x\<in>set (mixinRefs (H1 c)). isModule (H1 x) \<and> \<not> stub_super H1 x) \<and> distinct new \<longrightarrow> distinct new'"
      using linearizeMixin_covers [OF lin evolvesD(1) [OF ev] rk m(2,1), of new] unfolding covers_def by blast
    have "(\<forall>x\<in>set (mixinRefs (H c)). isModule (H x) \<and> \<not> stub_super H x) \<longrightarrow> distinct new'"
      using I b r(6) by (auto simp: same stub_super_def evolvesD(3,4) [OF ev])
    then have "?I (ys @ [m]) (new', H2)"
      using I b r(2-5) evolves_trans [OF ev r(2)] covered_mono cov evolvesD(2) [OF ev] by auto
    with r(1) b show "\<exists>b'. linearizeMixin n compute c m b = Inr b' \<and> ?I (ys @ [m]) b'" by auto
  qed
  then show ?thesis by auto
qed

lemma computeClassLinearization_linearizes: "linearizes rank n (computeClassLinearization n)"
proof (induction n)
  case (Suc n)
  show ?case
    unfolding linearizes_def
  proof (intro allI impI, elim conjE)
    fix c H assume wf: "wf_hierarchy rank H" and rk: "rank c < Suc n"
    show "\<exists>H'. computeClassLinearization (Suc n) c H = Inr H' \<and> evolves rank (Suc (rank c)) H H' \<and> isLinearizationComputed (H' c)"
    proof (cases "isLinearizationComputed (H c)")
      case True
      then show ?thesis using evolves_refl [OF wf] by simp
    next
      case False
      obtain Hs where Hs: "(if superclass (H c) \<noteq> 0 then computeClassLinearization n (superclass (H c)) H else Inr H) = Inr Hs"
        "evolves rank (rank c) H Hs"
      proof (cases "superclass (H c) = 0")
        case True
        then show ?thesis using that evolves_refl [OF wf] by simp
      next
        case nz: False
        then have "rank (superclass (H c)) < rank c" by (rule wf_edges(3) [OF wf])
        then show ?thesis
          using linearizesE [OF Suc.IH wf, of "superclass (H c)"] rk nz that evolves_mono by (metis Suc_leI less_Suc_eq_le less_le_trans)
      qed
      have same: "Hs c = H c" using evolvesD(6) [OF Hs(2)] by simp
      obtain new H1 where r: "foldL (linearizeMixin n (computeClassLinearization n) c) (mixinRefs (Hs c)) ([], Hs) = Inr (new, H1)"
        "evolves rank (rank c) Hs H1" "set new \<subseteq> {y. (c, y) \<in> ancestry Hs}"
        "\<forall>m\<in>set (mixinRefs (Hs c)). covered Hs c new m"
        using linearizeMixins_cover [OF Suc.IH evolvesD(1) [OF Hs(2)], of c] rk False same by auto
      have ev: "evolves rank (rank c) H H1" by (rule evolves_trans [OF Hs(2) r(2)])
      have unlin: "\<not> isLinearizationComputed (H1 c)" using evolvesD(6) [OF ev, of c] False by simp
      have cover: "y \<in> set new \<or> above_super H1 c y" if "(c, y) \<in> ancestry H1" for y
        using that r(4) ancestry_cases [of c y Hs] unfolding evolvesD(2,7) [OF r(2)] covered_def by blast
      have "evolves rank (Suc (rank c)) H1 (installMixins c new H1)"
        by (rule install_evolves [OF evolvesD(1) [OF ev] unlin _ cover]) (use r(3) evolvesD(2) [OF r(2)] in simp)
      then have "evolves rank (Suc (rank c)) H (installMixins c new H1)"
        using evolves_trans evolves_mono [OF ev] by (metis le_SucI order_refl)
      moreover have "computeClassLinearization (Suc n) c H = Inr (installMixins c new H1)"
        using False Hs(1) r(1) by (simp add: installMixins_def split: if_splits)
      ultimately show ?thesis by (auto simp: installMixins_def)
    qed
  qed
qed (simp add: linearizes_def)

lemma computeLinearization_evolves:
  assumes "wf_hierarchy rank H" "\<forall>c\<in>set refs. rank c < n"
  shows "\<exists>H'. computeLinearization n refs H = Inr H' \<and> evolves rank n H H' \<and> (\<forall>c\<in>set refs. isLinearizationComputed (H' c))"
proof -
  let ?I = "\<lambda>ys H'. evolves rank n H H' \<and> (\<forall>c\<in>set ys. isLinearizationComputed (H' c))"
  have "\<exists>H'. foldL (computeClassLinearization n) refs H = Inr H' \<and> ?I refs H'"
  proof (rule foldL_rule [where I = ?I])
    show "?I [] H" using evolves_refl [OF assms(1)] by simp
  next
    fix ys c zs H1
    assume "refs = ys @ c # zs" and I: "?I ys H1"
    then have "rank c < n" using assms(2) by simp
    moreover from I have "wf_hierarchy rank H1" using evolvesD(1) by blast
    ultimately obtain H2 where H2: "computeClassLinearization n c H1 = Inr H2" "evolves rank (Suc (rank c)) H1 H2"
      "isLinearizationComputed (H2 c)"
      using linearizesE [OF computeClassLinearization_linearizes] by metis
    have "evolves rank n H H2"
      using I evolves_trans evolves_mono [OF H2(2)] \<open>rank c < n\<close> by (metis Suc_leI)
    moreover have "isLinearizationComputed (H2 x)" if "x \<in> set ys" for x
      using I that evolvesD(5) [OF H2(2), of x] by simp
    ultimately show "\<exists>H'. computeClassLinearization n c H1 = Inr H' \<and> ?I (ys @ [c]) H'"
      using H2 by auto
  qed
  then show ?thesis by (simp add: computeLinearization_def)
qed

text \<open>C5: Computing the linearization of any classes of a well-formed hierarchy ends without an error, marks
  them as linearized, and leaves the ancestors of every class as they were: the quick test on
  linearized classes, which looks at the mixins of a class and then only at its superclasses, gives the
  answers of the full search through the original hierarchy.

  Well-formed means: superclasses and mixins form no cycle, superclasses are classes, classes marked as
  linearized are linearized, the superclass of an included module is one the including class has as well,
  and a mixin whose own superclass is \<open>StubSuperClass\<close> or \<open>StubModule\<close> has no ancestors but those the
  including class has through its superclass.  Without the last condition ancestors can be lost, as
  \<open>stub_mixin_loses_ancestor\<close> shows.\<close>

theorem linearization_keeps_ancestors:
  assumes "wf_hierarchy rank H" "\<forall>c\<in>set refs. rank c < n"
  shows "\<exists>H'. computeLinearization n refs H = Inr H' \<and> (\<forall>c\<in>set refs. isLinearizationComputed (H' c))
     \<and> (\<forall>c d. rank c < n \<longrightarrow> derivesFrom n H' c d = derivesFrom n H c d
          \<and> derivesFrom n H c d = Inr ((c, d) \<in> ancestry H))"
proof -
  obtain H' where H': "computeLinearization n refs H = Inr H'" "evolves rank n H H'"
    "\<forall>c\<in>set refs. isLinearizationComputed (H' c)"
    using computeLinearization_evolves [OF assms] by blast
  have "derivesFrom n H' c d = Inr ((c, d) \<in> ancestry H) \<and> derivesFrom n H c d = Inr ((c, d) \<in> ancestry H)"
    if "rank c < n" for c d
    using derivesFrom_ancestry [OF assms(1) that] derivesFrom_ancestry [OF evolvesD(1) [OF H'(2)] that]
    by (simp add: evolvesD(2) [OF H'(2)])
  with H' show ?thesis by auto
qed

text \<open>The order: the module included last comes first, unless the superclass has it or an earlier
  include brought it in.\<close>

lemma include_goes_first:
  assumes "wf_hierarchy rank H" "0 < n" "superclass (H c) \<noteq> 0 \<Longrightarrow> rank (superclass (H c)) < n"
    and "m \<noteq> c" "(superclass (H c), m) \<notin> ancestry H" "m \<notin> set new"
  shows "maybeAddMixin n H c (superclass (H c)) m (new, 0) = Inr (m # new, 1)"
  using derivesFrom_parent [OF assms(1-3)] assms(4-6) by (simp add: maybeAddMixin_def)

section \<open>Adding mixins\<close>

definition isValidMixin :: "hierarchy \<Rightarrow> u32 \<Rightarrow> bool" where
  "isValidMixin H s \<longleftrightarrow> \<not> (isModule (H s) \<or> isClass (H s)) \<or> isModule (H s) \<or> s = BasicObject"

text \<open>The index is that of a placeholder.\<close>

definition addMixinAt :: "u32 \<Rightarrow> nat option \<Rightarrow> u32 list \<Rightarrow> u32 list" where
  "addMixinAt s index ms = (case index of Some i \<Rightarrow> ms[i := s] | None \<Rightarrow> ms @ [s])"

definition addMixin :: "nat \<Rightarrow> u32 \<Rightarrow> u32 \<Rightarrow> nat option \<Rightarrow> hierarchy \<Rightarrow> (lin_error, bool \<times> hierarchy) result" where
  "addMixin n c s index H =
     (let d = H c; added = d\<lparr>mixinRefs := addMixinAt s index (mixinRefs d)\<rparr>
      in if \<not> isLinearizationComputed d then Inr (isValidMixin H s, H(c := added))
         else if s \<noteq> superclass d \<and> s \<notin> set (mixinRefs d)
         then bindL (if superclass d = 0 then Inr False else derivesFrom n H (superclass d) s) (\<lambda>derived.
                if derived then Inr (isValidMixin H s, H)
                else Inr (isValidMixin H s, H(c := added\<lparr>isLinearizationComputed := False\<rparr>)))
         else Inr (isValidMixin H s, H))"

definition addMixinPlaceholder :: "u32 \<Rightarrow> hierarchy \<Rightarrow> nat \<times> hierarchy" where
  "addMixinPlaceholder c H =
     (length (mixinRefs (H c)), H(c := (H c)\<lparr>mixinRefs := mixinRefs (H c) @ [PlaceholderMixin]\<rparr>))"

lemma ancestry_mono:
  assumes "\<And>c. superclass (H' c) = superclass (H c)" "\<And>c. set (mixinRefs (H c)) \<subseteq> set (mixinRefs (H' c))"
  shows "ancestry H \<subseteq> ancestry H'"
proof -
  have "edges H \<subseteq> edges H'" using assms by (auto simp: edges_def)
  then show ?thesis by (meson subrelI trancl_mono)
qed

text \<open>Including a module makes it an ancestor, whether or not the class is linearized already, and no
  ancestor is lost.\<close>

lemma addMixin_ancestor:
  assumes "wf_hierarchy rank H" "rank c < n" "s \<noteq> 0"
  shows "\<exists>v H'. addMixin n c s None H = Inr (v, H') \<and> (c, s) \<in> ancestry H' \<and> ancestry H \<subseteq> ancestry H'"
proof -
  have added: "(c, s) \<in> ancestry H' \<and> ancestry H \<subseteq> ancestry H'"
    if "H' = H(c := (H c)\<lparr>mixinRefs := mixinRefs (H c) @ [s], isLinearizationComputed := l\<rparr>)" for H' l
  proof
    show "(c, s) \<in> ancestry H'" using that by (auto simp: edges_def)
    show "ancestry H \<subseteq> ancestry H'" by (rule ancestry_mono) (auto simp: that)
  qed
  have super: "derivesFrom n H (superclass (H c)) s = Inr ((superclass (H c), s) \<in> ancestry H)" if "superclass (H c) \<noteq> 0"
    using derivesFrom_ancestry [OF assms(1)] wf_edges(3) [OF assms(1) that] assms(2) by simp
  consider "\<not> isLinearizationComputed (H c)"
    | "isLinearizationComputed (H c)" "s = superclass (H c) \<or> s \<in> set (mixinRefs (H c))"
    | "isLinearizationComputed (H c)" "s \<noteq> superclass (H c)" "s \<notin> set (mixinRefs (H c))" "superclass (H c) \<noteq> 0"
      "(superclass (H c), s) \<in> ancestry H"
    | "isLinearizationComputed (H c)" "s \<noteq> superclass (H c)" "s \<notin> set (mixinRefs (H c))"
      "superclass (H c) = 0 \<or> (superclass (H c), s) \<notin> ancestry H"
    by blast
  then show ?thesis
  proof cases
    case 1
    then have "H c = (H c)\<lparr>isLinearizationComputed := False\<rparr>" by (cases "H c") simp
    then have "H(c := (H c)\<lparr>mixinRefs := mixinRefs (H c) @ [s]\<rparr>)
        = H(c := (H c)\<lparr>mixinRefs := mixinRefs (H c) @ [s], isLinearizationComputed := False\<rparr>)"
      by (cases "H c") simp
    with 1 added [OF refl, of False] show ?thesis by (simp add: addMixin_def addMixinAt_def Let_def)
  next
    case 2
    then have "(c, s) \<in> ancestry H" using assms(3) by (auto simp: edges_def)
    with 2 show ?thesis by (auto simp: addMixin_def Let_def)
  next
    case 3
    then have "(c, s) \<in> ancestry H" by (auto simp: ancestry_cases [of c] above_super_def)
    with 3 super show ?thesis by (simp add: addMixin_def Let_def)
  next
    case 4
    then have "addMixin n c s None H = Inr (isValidMixin H s,
        H(c := (H c)\<lparr>mixinRefs := mixinRefs (H c) @ [s], isLinearizationComputed := False\<rparr>))"
      using super by (auto simp: addMixin_def addMixinAt_def Let_def)
    with added [OF refl, of False] show ?thesis by blast
  qed
qed

section \<open>An example\<close>

text \<open>Class 101 inherits from \<open>BasicObject\<close> and includes module 100.\<close>

definition example_hierarchy :: hierarchy where
  "example_hierarchy c =
     (if c = 101 then \<lparr>superclass = BasicObject, mixinRefs = [100], isModule = False, isClass = True, isLinearizationComputed = False\<rparr>
      else if c = 100 then \<lparr>superclass = BasicObject, mixinRefs = [], isModule = True, isClass = False, isLinearizationComputed = False\<rparr>
      else \<lparr>superclass = 0, mixinRefs = [], isModule = False, isClass = True, isLinearizationComputed = False\<rparr>)"

definition example_rank :: "u32 \<Rightarrow> nat" where
  "example_rank c = (if c = 101 then 2 else if c = 100 then 1 else 0)"

lemma example_edges: "edges example_hierarchy = {(101, 100), (101, 20), (100, 20)}"
  by (auto simp: edges_def example_hierarchy_def BasicObject_def split: if_splits)

lemma example_wf: "wf_hierarchy example_rank example_hierarchy"
proof -
  have "ready example_hierarchy c m" if "m \<in> set (mixinRefs (example_hierarchy c))" for c m
    using that by (auto simp: ready_def stub_super_def above_super_def example_hierarchy_def BasicObject_def
        StubSuperClass_def StubModule_def split: if_splits)
  moreover have "\<not> isModule (example_hierarchy (superclass (example_hierarchy c)))" for c
    by (simp add: example_hierarchy_def BasicObject_def)
  ultimately show ?thesis
    unfolding wf_hierarchy_def example_edges
    by (auto simp: example_rank_def example_hierarchy_def)
qed

text \<open>Class 101 mixes in class 100, whose superclass is the stub: the linearization keeps 100 and loses the
  stub, which was an ancestor of 101 before.\<close>

definition stub_hierarchy :: hierarchy where
  "stub_hierarchy c =
     (if c = 101 then \<lparr>superclass = BasicObject, mixinRefs = [100], isModule = False, isClass = True, isLinearizationComputed = False\<rparr>
      else if c = 100 then \<lparr>superclass = StubSuperClass, mixinRefs = [], isModule = False, isClass = True, isLinearizationComputed = False\<rparr>
      else \<lparr>superclass = 0, mixinRefs = [], isModule = False, isClass = True, isLinearizationComputed = False\<rparr>)"

lemma stub_mixin_loses_ancestor:
  "derivesFrom (Suc (Suc (Suc 0))) stub_hierarchy 101 StubSuperClass = Inr True"
  "\<exists>H'. computeLinearization (Suc (Suc (Suc 0))) [101] stub_hierarchy = Inr H'
     \<and> derivesFrom (Suc (Suc (Suc 0))) H' 101 100 = Inr True
     \<and> derivesFrom (Suc (Suc (Suc 0))) H' 101 StubSuperClass = Inr False"
  by (simp_all add: stub_hierarchy_def StubSuperClass_def BasicObject_def computeLinearization_def linearizeMixin_def
      StubModule_def)

theorem linearization_keeps_ancestors_witness:
  "\<exists>H'. computeLinearization 3 [20, 100, 101] example_hierarchy = Inr H' \<and> isLinearizationComputed (H' 101)
     \<and> derivesFrom 3 H' 101 100 = Inr True \<and> derivesFrom 3 H' 100 101 = Inr False"
proof -
  have "(101, 100) \<in> ancestry example_hierarchy" by (auto simp: example_edges)
  moreover have "(100, 101) \<notin> ancestry example_hierarchy"
    using wf_rank(2) [OF example_wf, of 100 101] by (auto simp: example_rank_def)
  ultimately show ?thesis
    using linearization_keeps_ancestors [OF example_wf, of "[20, 100, 101]" 3] by (auto simp: example_rank_def)
qed

end
