(* ===== verification/Members.thy ===== *)
theory Members
  imports Linearization SymbolRefs
begin

text \<open>
  Looking up the members of a class (\<open>core/Symbols.cc\<close>): aliases, the search through the ancestors of a
  class before and after linearization, and the search for a concrete method.

  The member tables and the aliases are given by a record.  A member is the raw id of a \<open>SymbolRef\<close>,
  whose low bits hold its kind; classes and methods are also used as plain table indices.
\<close>

section \<open>Aliases\<close>

record member_table =
  members :: "u32 \<Rightarrow> u32 \<Rightarrow> u32 option"
  aliasOf :: "u32 \<Rightarrow> u32 option"
  isAbstract :: "u32 \<Rightarrow> bool"
  isOverloaded :: "u32 \<Rightarrow> bool"
  overloadName :: "u32 \<Rightarrow> u32"

definition untyped_ref :: u32 where
  "untyped_ref = push_bit 3 16"

definition badAliasMethodStub :: u32 where
  "badAliasMethodStub = push_bit 3 3 OR 1"

fun dealiasWithDefault :: "member_table \<Rightarrow> u32 \<Rightarrow> nat \<Rightarrow> u32 \<Rightarrow> u32" where
  "dealiasWithDefault T dflt depthLimit s = (case aliasOf T s of
     None \<Rightarrow> s
   | Some t \<Rightarrow> (case depthLimit of 0 \<Rightarrow> dflt | Suc d \<Rightarrow> dealiasWithDefault T dflt d t))"

declare dealiasWithDefault.simps [simp del]

definition dealias :: "member_table \<Rightarrow> u32 \<Rightarrow> u32" where
  "dealias T s = (if sym_kind s = Some SK_Method then dealiasWithDefault T badAliasMethodStub 42 s
     else dealiasWithDefault T untyped_ref 42 s)"

section \<open>Members of one class\<close>

definition findMemberNoDealias :: "member_table \<Rightarrow> u32 \<Rightarrow> u32 \<Rightarrow> u32" where
  "findMemberNoDealias T c name = (case members T c name of None \<Rightarrow> 0 | Some s \<Rightarrow> s)"

definition findMember :: "member_table \<Rightarrow> u32 \<Rightarrow> u32 \<Rightarrow> u32" where
  "findMember T c name =
     (let ret = findMemberNoDealias T c name in if sym_exists ret then dealias T ret else ret)"

definition asMethod :: "u32 \<Rightarrow> u32" where
  "asMethod s = (if sym_exists s \<and> sym_kind s = Some SK_Method then unsafeTableIndex s else 0)"

definition findMethod :: "member_table \<Rightarrow> u32 \<Rightarrow> u32 \<Rightarrow> u32" where
  "findMethod T c name = asMethod (findMember T c name)"

definition findMethodNoDealias :: "member_table \<Rightarrow> u32 \<Rightarrow> u32 \<Rightarrow> u32" where
  "findMethodNoDealias T c name =
     (let s = findMemberNoDealias T c name in if sym_kind s \<noteq> Some SK_Method then 0 else unsafeTableIndex s)"

section \<open>Members of the ancestors\<close>

definition ownMember :: "member_table \<Rightarrow> bool \<Rightarrow> u32 \<Rightarrow> u32 \<Rightarrow> u32" where
  "ownMember T dealiased name c = (if dealiased then findMember T c name else findMemberNoDealias T c name)"

text \<open>A loop that returns the first result that exists.\<close>

primrec firstExisting :: "('a \<Rightarrow> (lin_error, u32) result) \<Rightarrow> 'a list \<Rightarrow> (lin_error, u32) result" where
  "firstExisting f [] = Inr 0"
| "firstExisting f (x # xs) = bindL (f x) (\<lambda>r. if sym_exists r then Inr r else firstExisting f xs)"

text \<open>The search in the parents, given the search in a whole class with one level less.\<close>

definition parentSearch ::
  "(u32 \<Rightarrow> (lin_error, u32) result) \<Rightarrow> hierarchy \<Rightarrow> member_table \<Rightarrow> bool \<Rightarrow> u32 \<Rightarrow> u32 \<Rightarrow> (lin_error, u32) result" where
  "parentSearch transitive H T dealiased name c =
     bindL (if isLinearizationComputed (H c)
            then firstExisting (\<lambda>m. Inr (ownMember T dealiased name m)) (mixinRefs (H c))
            else firstExisting transitive (rev (mixinRefs (H c))))
       (\<lambda>r. if sym_exists r then Inr r
            else if superclass (H c) \<noteq> 0 then transitive (superclass (H c)) else Inr 0)"

primrec findMemberTransitiveInternal ::
  "nat \<Rightarrow> hierarchy \<Rightarrow> member_table \<Rightarrow> bool \<Rightarrow> u32 \<Rightarrow> u32 \<Rightarrow> (lin_error, u32) result" where
  "findMemberTransitiveInternal 0 H T dealiased name c = Inl MemberLoop"
| "findMemberTransitiveInternal (Suc d) H T dealiased name c =
     (let r = ownMember T dealiased name c
      in if sym_exists r then Inr r
         else parentSearch (findMemberTransitiveInternal d H T dealiased name) H T dealiased name c)"

definition findParentMemberTransitiveInternal ::
  "nat \<Rightarrow> hierarchy \<Rightarrow> member_table \<Rightarrow> bool \<Rightarrow> u32 \<Rightarrow> u32 \<Rightarrow> (lin_error, u32) result" where
  "findParentMemberTransitiveInternal maxDepth H T dealiased name c =
     parentSearch (findMemberTransitiveInternal (maxDepth - 1) H T dealiased name) H T dealiased name c"

definition findMemberTransitive :: "hierarchy \<Rightarrow> member_table \<Rightarrow> u32 \<Rightarrow> u32 \<Rightarrow> (lin_error, u32) result" where
  "findMemberTransitive H T c name = findMemberTransitiveInternal 100 H T True name c"

definition findMemberTransitiveNoDealias :: "hierarchy \<Rightarrow> member_table \<Rightarrow> u32 \<Rightarrow> u32 \<Rightarrow> (lin_error, u32) result" where
  "findMemberTransitiveNoDealias H T c name = findMemberTransitiveInternal 100 H T False name c"

definition findMethodTransitive :: "hierarchy \<Rightarrow> member_table \<Rightarrow> u32 \<Rightarrow> u32 \<Rightarrow> (lin_error, u32) result" where
  "findMethodTransitive H T c name = bindL (findMemberTransitive H T c name) (\<lambda>s. Inr (asMethod s))"

definition findParentMethodTransitive :: "hierarchy \<Rightarrow> member_table \<Rightarrow> u32 \<Rightarrow> u32 \<Rightarrow> (lin_error, u32) result" where
  "findParentMethodTransitive H T c name =
     bindL (findParentMemberTransitiveInternal 100 H T True name c) (\<lambda>s. Inr (asMethod s))"

text \<open>The first concrete method.  Method references are table indices, 0 is the missing method.\<close>

definition concreteIn :: "member_table \<Rightarrow> u32 \<Rightarrow> u32 \<Rightarrow> u32 \<Rightarrow> u32 option" where
  "concreteIn T overloadOwner name c =
     (let r = findMethod T c name;
          r = (if r \<noteq> 0 \<and> isOverloaded T r then findMethod T overloadOwner (overloadName T name) else r)
      in if r \<noteq> 0 \<and> \<not> isAbstract T r then Some r else None)"

primrec firstConcrete :: "(u32 \<Rightarrow> u32 option) \<Rightarrow> u32 list \<Rightarrow> u32 option" where
  "firstConcrete f [] = None"
| "firstConcrete f (x # xs) = (case f x of Some r \<Rightarrow> Some r | None \<Rightarrow> firstConcrete f xs)"

primrec findConcreteMethodTransitiveInternal ::
  "nat \<Rightarrow> hierarchy \<Rightarrow> member_table \<Rightarrow> u32 \<Rightarrow> u32 \<Rightarrow> (lin_error, u32) result" where
  "findConcreteMethodTransitiveInternal 0 H T name owner = Inl MemberLoop"
| "findConcreteMethodTransitiveInternal (Suc d) H T name owner =
     (case firstConcrete (concreteIn T owner name) (owner # mixinRefs (H owner)) of
        Some r \<Rightarrow> Inr r
      | None \<Rightarrow> if superclass (H owner) \<noteq> 0
                then findConcreteMethodTransitiveInternal d H T name (superclass (H owner)) else Inr 0)"

definition findConcreteMethodTransitive :: "hierarchy \<Rightarrow> member_table \<Rightarrow> u32 \<Rightarrow> u32 \<Rightarrow> (lin_error, u32) result" where
  "findConcreteMethodTransitive H T c name = findConcreteMethodTransitiveInternal 100 H T name c"

section \<open>Correctness\<close>

text \<open>Dealiasing follows a chain of aliases of at most 42 links to its end.\<close>

definition aliasTarget :: "member_table \<Rightarrow> u32 \<Rightarrow> u32" where
  "aliasTarget T s = the (aliasOf T s)"

lemma dealias_chain:
  "(\<And>k. k < n \<Longrightarrow> aliasOf T ((aliasTarget T ^^ k) s) \<noteq> None) \<Longrightarrow> aliasOf T ((aliasTarget T ^^ n) s) = None \<Longrightarrow>
   dealiasWithDefault T dflt lim s = (if n \<le> lim then (aliasTarget T ^^ n) s else dflt)"
proof (induction n arbitrary: s lim)
  case 0
  then show ?case by (simp add: dealiasWithDefault.simps)
next
  case (Suc n)
  obtain t where t: "aliasOf T s = Some t" using Suc.prems(1) [of 0] by auto
  then have shift: "(aliasTarget T ^^ Suc k) s = (aliasTarget T ^^ k) t" for k
    by (simp add: funpow_swap1 aliasTarget_def)
  have "dealiasWithDefault T dflt d t = (if n \<le> d then (aliasTarget T ^^ n) t else dflt)" for d
  proof (rule Suc.IH)
    show "aliasOf T ((aliasTarget T ^^ k) t) \<noteq> None" if "k < n" for k
      using Suc.prems(1) [of "Suc k"] that unfolding shift by simp
    show "aliasOf T ((aliasTarget T ^^ n) t) = None"
      using Suc.prems(2) unfolding shift .
  qed
  then show ?case
    unfolding shift using t by (subst dealiasWithDefault.simps) (auto split: nat.split)
qed

lemma not_exists_0 [simp]: "\<not> sym_exists 0"
  by (simp add: sym_exists_def unsafeTableIndex_def)

lemma firstExisting_iff:
  assumes "\<And>x. x \<in> set xs \<Longrightarrow> \<exists>r. f x = Inr r \<and> (sym_exists r \<longleftrightarrow> P x)"
  shows "\<exists>r. firstExisting f xs = Inr r \<and> (sym_exists r \<longleftrightarrow> (\<exists>x\<in>set xs. P x))"
  using assms
proof (induction xs)
  case (Cons x xs)
  obtain r where "f x = Inr r" "sym_exists r \<longleftrightarrow> P x" using Cons.prems by auto
  with Cons.IH Cons.prems show ?case by auto
qed simp

definition hasMember :: "hierarchy \<Rightarrow> member_table \<Rightarrow> bool \<Rightarrow> u32 \<Rightarrow> u32 \<Rightarrow> bool" where
  "hasMember H T dealiased name c \<longleftrightarrow>
     (\<exists>a. (a = c \<or> (c, a) \<in> ancestry H) \<and> sym_exists (ownMember T dealiased name a))"

lemma hasMember_cases:
  "hasMember H T dl name c \<longleftrightarrow> sym_exists (ownMember T dl name c)
     \<or> (\<exists>m\<in>set (mixinRefs (H c)). hasMember H T dl name m)
     \<or> (superclass (H c) \<noteq> 0 \<and> hasMember H T dl name (superclass (H c)))"
  unfolding hasMember_def using ancestry_cases [of c _ H] by (auto simp: above_super_def)

lemma hasMember_linearized:
  assumes "complete H c"
  shows "hasMember H T dl name c \<longleftrightarrow> sym_exists (ownMember T dl name c)
     \<or> (\<exists>m\<in>set (mixinRefs (H c)). sym_exists (ownMember T dl name m))
     \<or> (superclass (H c) \<noteq> 0 \<and> hasMember H T dl name (superclass (H c)))"
proof
  assume "hasMember H T dl name c"
  then show "sym_exists (ownMember T dl name c) \<or> (\<exists>m\<in>set (mixinRefs (H c)). sym_exists (ownMember T dl name m))
     \<or> (superclass (H c) \<noteq> 0 \<and> hasMember H T dl name (superclass (H c)))"
    using assms unfolding hasMember_def complete_def above_super_def by blast
next
  assume "sym_exists (ownMember T dl name c) \<or> (\<exists>m\<in>set (mixinRefs (H c)). sym_exists (ownMember T dl name m))
     \<or> (superclass (H c) \<noteq> 0 \<and> hasMember H T dl name (superclass (H c)))"
  moreover have "hasMember H T dl name m" if "sym_exists (ownMember T dl name m)" for m
    using that unfolding hasMember_def by blast
  ultimately show "hasMember H T dl name c" unfolding hasMember_cases [of H T dl name c] by blast
qed

lemma findMemberTransitiveInternal_iff:
  assumes "wf_hierarchy rank H"
  shows "rank c < d \<Longrightarrow> \<exists>r. findMemberTransitiveInternal d H T dl name c = Inr r
     \<and> (sym_exists r \<longleftrightarrow> hasMember H T dl name c)"
proof (induction d arbitrary: c)
  case (Suc d)
  let ?f = "findMemberTransitiveInternal d H T dl name"
  have m: "\<exists>r. ?f m = Inr r \<and> (sym_exists r \<longleftrightarrow> hasMember H T dl name m)" if "m \<in> set (mixinRefs (H c))" for m
    using Suc wf_edges(1) [OF assms that] by simp
  have s: "\<exists>r. ?f (superclass (H c)) = Inr r \<and> (sym_exists r \<longleftrightarrow> hasMember H T dl name (superclass (H c)))"
    if "superclass (H c) \<noteq> 0"
    using Suc wf_edges(3) [OF assms that] by simp
  show ?case
  proof (cases "sym_exists (ownMember T dl name c)")
    case True
    then show ?thesis by (auto simp: Let_def hasMember_cases [of H T dl name c])
  next
    case own: False
    define found where "found = (if isLinearizationComputed (H c)
      then firstExisting (\<lambda>m. Inr (ownMember T dl name m)) (mixinRefs (H c)) else firstExisting ?f (rev (mixinRefs (H c))))"
    have "\<exists>r. found = Inr r \<and>
        (hasMember H T dl name c \<longleftrightarrow> sym_exists r \<or> superclass (H c) \<noteq> 0 \<and> hasMember H T dl name (superclass (H c)))"
    proof (cases "isLinearizationComputed (H c)")
      case True
      have "\<exists>r. firstExisting (\<lambda>m. Inr (ownMember T dl name m)) (mixinRefs (H c)) = Inr r
          \<and> (sym_exists r \<longleftrightarrow> (\<exists>m\<in>set (mixinRefs (H c)). sym_exists (ownMember T dl name m)))"
        by (rule firstExisting_iff) simp
      with True show ?thesis
        using hasMember_linearized [OF wf_complete [OF assms True]] own by (auto simp: found_def)
    next
      case False
      have "\<exists>r. firstExisting ?f (rev (mixinRefs (H c))) = Inr r
          \<and> (sym_exists r \<longleftrightarrow> (\<exists>m\<in>set (rev (mixinRefs (H c))). hasMember H T dl name m))"
        by (rule firstExisting_iff) (use m in simp)
      with False show ?thesis
        using hasMember_cases [of H T dl name c] own by (auto simp: found_def)
    qed
    then obtain r where r: "found = Inr r"
      "hasMember H T dl name c \<longleftrightarrow> sym_exists r \<or> superclass (H c) \<noteq> 0 \<and> hasMember H T dl name (superclass (H c))"
      by blast
    have "findMemberTransitiveInternal (Suc d) H T dl name c = (if sym_exists r then Inr r
        else if superclass (H c) \<noteq> 0 then ?f (superclass (H c)) else Inr 0)"
      using own r(1) by (simp add: Let_def parentSearch_def found_def)
    then show ?thesis using r(2) s by auto
  qed
qed simp

text \<open>C24: Looking up a member ends for every class of a well-formed hierarchy of height below 100, finds a member
  exactly if the class or one of its ancestors has it, and linearizing any classes does not change
  whether it is found.  Well-formed (\<open>wf_hierarchy\<close>) means no cycle of superclasses and mixins, superclasses
  that are classes, mixins whose superclass is shared with the class that includes them, and for a mixin
  with \<open>StubSuperClass\<close> or \<open>StubModule\<close> as superclass no ancestors but those the including class has through
  its superclass: linearization keeps such a mixin but not what it inherits.\<close>

theorem member_found_iff:
  assumes "wf_hierarchy rank H" "rank c < 100" "\<forall>x\<in>set refs. rank x < n"
  shows "\<exists>H' r r'. computeLinearization n refs H = Inr H'
     \<and> findMemberTransitive H T c name = Inr r \<and> findMemberTransitive H' T c name = Inr r'
     \<and> (sym_exists r \<longleftrightarrow> (\<exists>a. (a = c \<or> (c, a) \<in> ancestry H) \<and> sym_exists (findMember T a name)))
     \<and> (sym_exists r' \<longleftrightarrow> sym_exists r)"
proof -
  obtain H' where H': "computeLinearization n refs H = Inr H'" "evolves rank n H H'"
    using computeLinearization_evolves [OF assms(1,3)] by blast
  obtain r where r: "findMemberTransitive H T c name = Inr r" "sym_exists r \<longleftrightarrow> hasMember H T True name c"
    using findMemberTransitiveInternal_iff [OF assms(1,2)] unfolding findMemberTransitive_def by blast
  obtain r' where r': "findMemberTransitive H' T c name = Inr r'" "sym_exists r' \<longleftrightarrow> hasMember H' T True name c"
    using findMemberTransitiveInternal_iff [OF evolvesD(1) [OF H'(2)] assms(2)] unfolding findMemberTransitive_def by blast
  show ?thesis
    using H'(1) r r' unfolding hasMember_def evolvesD(2) [OF H'(2)] ownMember_def by auto
qed

section \<open>The order of the search\<close>

text \<open>What Ruby calls the ancestors of a class: the class, its mixins, then the same for its superclass.\<close>

primrec resolution_order :: "nat \<Rightarrow> hierarchy \<Rightarrow> u32 \<Rightarrow> u32 list" where
  "resolution_order 0 H c = []"
| "resolution_order (Suc n) H c = c # mixinRefs (H c)
     @ (if superclass (H c) \<noteq> 0 then resolution_order n H (superclass (H c)) else [])"

definition first_member :: "member_table \<Rightarrow> bool \<Rightarrow> u32 \<Rightarrow> u32 list \<Rightarrow> u32" where
  "first_member T dl name cs = (case find (\<lambda>a. sym_exists (ownMember T dl name a)) cs of
     None \<Rightarrow> 0 | Some a \<Rightarrow> ownMember T dl name a)"

lemma first_member_simps [simp]:
  "first_member T dl name [] = 0"
  "first_member T dl name (a # cs) =
     (if sym_exists (ownMember T dl name a) then ownMember T dl name a else first_member T dl name cs)"
  by (simp_all add: first_member_def)

lemma first_member_append:
  "first_member T dl name (xs @ ys) =
     (if sym_exists (first_member T dl name xs) then first_member T dl name xs else first_member T dl name ys)"
  by (induction xs) auto

lemma firstExisting_own: "firstExisting (\<lambda>m. Inr (ownMember T dl name m)) ms = Inr (first_member T dl name ms)"
  by (induction ms) auto

definition linearizedAbove :: "hierarchy \<Rightarrow> u32 \<Rightarrow> bool" where
  "linearizedAbove H c \<longleftrightarrow> (\<forall>a. a = c \<or> (c, a) \<in> ancestry H \<longrightarrow> isLinearizationComputed (H a))"

lemma linearizedAbove_super:
  assumes "linearizedAbove H c" "superclass (H c) \<noteq> 0"
  shows "linearizedAbove H (superclass (H c))"
proof -
  have "(c, superclass (H c)) \<in> ancestry H" using assms(2) by (auto simp: edges_def)
  then show ?thesis
    using assms(1) unfolding linearizedAbove_def by (metis trancl_trans)
qed

lemma search_order:
  assumes "wf_hierarchy rank H"
  shows "rank c < d \<Longrightarrow> linearizedAbove H c \<Longrightarrow>
     findMemberTransitiveInternal d H T dl name c = Inr (first_member T dl name (resolution_order d H c))
     \<and> set (resolution_order d H c) = insert c {a. (c, a) \<in> ancestry H}"
proof (induction d arbitrary: c)
  case (Suc d)
  have lin: "isLinearizationComputed (H c)" using Suc.prems(2) by (simp add: linearizedAbove_def)
  have super: "findMemberTransitiveInternal d H T dl name (superclass (H c))
        = Inr (first_member T dl name (resolution_order d H (superclass (H c))))
     \<and> set (resolution_order d H (superclass (H c))) = insert (superclass (H c)) {a. (superclass (H c), a) \<in> ancestry H}"
    if "superclass (H c) \<noteq> 0"
    using Suc.IH Suc.prems wf_edges(3) [OF assms that] linearizedAbove_super that by simp
  have "findMemberTransitiveInternal (Suc d) H T dl name c = Inr (first_member T dl name (resolution_order (Suc d) H c))"
    using lin super by (auto simp: Let_def parentSearch_def firstExisting_own first_member_append)
  moreover have "set (resolution_order (Suc d) H c) = insert c {a. (c, a) \<in> ancestry H}"
    using super wf_complete [OF assms lin] ancestry_cases [of c _ H]
    by (auto simp: complete_def above_super_def)
  ultimately show ?case ..
qed simp

text \<open>C23: On linearized classes the search for a member is the search through Ruby's ancestors of the class in
  their order: the class, its mixins, and so on along the superclasses; and this list holds exactly
  the class and its ancestors.\<close>

theorem member_resolution_order:
  assumes "wf_hierarchy rank H" "rank c < 100" "linearizedAbove H c"
  shows "findMemberTransitive H T c name = Inr (first_member T True name (resolution_order 100 H c))
     \<and> set (resolution_order 100 H c) = insert c {a. (c, a) \<in> ancestry H}"
  using search_order [OF assms] unfolding findMemberTransitive_def by blast

section \<open>An example\<close>

definition example_table :: member_table where
  "example_table = \<lparr>members = (\<lambda>c n. if c = 100 \<and> n = 5 then Some (push_bit 3 7 OR 1)
        else if c = 100 \<and> n = 6 then Some (push_bit 3 8 OR 1) else None),
     aliasOf = (\<lambda>s. None), isAbstract = (\<lambda>m. False), isOverloaded = (\<lambda>m. m = 7), overloadName = (\<lambda>n. 6)\<rparr>"

definition linearized_example :: hierarchy where
  "linearized_example c = (example_hierarchy c)\<lparr>isLinearizationComputed := True\<rparr>"

lemma linearized_edges: "edges linearized_example = {(101, 100), (101, 20), (100, 20)}"
proof -
  have "edges linearized_example = edges example_hierarchy"
    by (simp add: edges_def linearized_example_def)
  then show ?thesis by (simp add: example_edges)
qed

lemma linearized_ancestry: "ancestry linearized_example = {(101, 100), (101, 20), (100, 20)}"
  unfolding linearized_edges by (rule trancl_id) (auto simp: trans_def)

lemma linearized_wf: "wf_hierarchy example_rank linearized_example"
proof -
  have "complete linearized_example c" for c
    by (auto simp: complete_def linearized_ancestry above_super_def linearized_example_def example_hierarchy_def BasicObject_def)
  moreover have "\<not> isModule (linearized_example (superclass (linearized_example c)))" for c
    by (simp add: linearized_example_def example_hierarchy_def BasicObject_def)
  ultimately show ?thesis
    unfolding wf_hierarchy_def linearized_edges
    by (auto simp: example_rank_def linearized_example_def example_hierarchy_def)
qed

lemma example_found: "findMember example_table 100 5 = push_bit 3 7 OR 1" "sym_exists (push_bit 3 7 OR 1)"
  by (simp_all add: findMember_def findMemberNoDealias_def example_table_def sym_exists_def unsafeTableIndex_def dealias_def
      dealiasWithDefault.simps)

theorem member_found_iff_witness:
  "\<exists>H' r r'. computeLinearization 3 [20, 100, 101] example_hierarchy = Inr H'
     \<and> findMemberTransitive example_hierarchy example_table 101 5 = Inr r \<and> sym_exists r
     \<and> findMemberTransitive H' example_table 101 5 = Inr r' \<and> sym_exists r'"
proof -
  have "(101, 100) \<in> ancestry example_hierarchy" by (auto simp: example_edges)
  then have "\<exists>a. (a = 101 \<or> (101, a) \<in> ancestry example_hierarchy) \<and> sym_exists (findMember example_table a 5)"
    using example_found by metis
  then show ?thesis
    using member_found_iff [OF example_wf, of 101 "[20, 100, 101]" 3 example_table 5] by (auto simp: example_rank_def)
qed

theorem member_resolution_order_witness:
  "findMemberTransitive linearized_example example_table 101 5 = Inr (push_bit 3 7 OR 1)"
proof -
  have "resolution_order (Suc (Suc n)) linearized_example 101 = [101, 100, 20]" for n
    by (simp add: linearized_example_def example_hierarchy_def BasicObject_def)
  from this [of 98] have "resolution_order 100 linearized_example 101 = [101, 100, 20]" by simp
  moreover have "\<not> sym_exists (findMember example_table 101 5)"
    by (simp add: findMember_def findMemberNoDealias_def example_table_def)
  moreover have "linearizedAbove linearized_example 101"
    by (simp add: linearizedAbove_def linearized_example_def)
  ultimately show ?thesis
    using member_resolution_order [OF linearized_wf, of 101 example_table 5] example_found
    by (simp add: example_rank_def ownMember_def)
qed

lemma example_methods:
  "findMethod example_table c n = (if c = 100 \<and> n = 5 then 7 else if c = 100 \<and> n = 6 then 8 else 0)"
  "isOverloaded example_table = (\<lambda>m. m = 7)" "overloadName example_table n = 6" "isAbstract example_table = (\<lambda>m. False)"
  by (simp_all add: findMethod_def asMethod_def findMember_def findMemberNoDealias_def example_table_def sym_exists_def
      unsafeTableIndex_def sym_kind_def KIND_MASK_def dealias_def dealiasWithDefault.simps)

text \<open>The search for a concrete method looks for the overloads of a method it found in a mixin in the
  class that includes it instead of the mixin, and so misses overloaded methods of mixins.\<close>

lemma overloaded_mixin_method_missed:
  "findConcreteMethodTransitive linearized_example example_table 101 5 = Inr 0"
  "findMethod example_table 100 5 = 7" "isOverloaded example_table 7"
  "findMethod example_table 100 (overloadName example_table 5) = 8" "\<not> isAbstract example_table 8"
proof -
  show "findMethod example_table 100 5 = 7" "isOverloaded example_table 7"
    "findMethod example_table 100 (overloadName example_table 5) = 8" "\<not> isAbstract example_table 8"
    by (simp_all add: example_methods)
  have "findConcreteMethodTransitiveInternal (Suc (Suc n)) linearized_example example_table 5 101 = Inr 0" for n
    by (simp add: concreteIn_def example_methods linearized_example_def example_hierarchy_def BasicObject_def)
  from this [of 98] show "findConcreteMethodTransitive linearized_example example_table 101 5 = Inr 0"
    by (simp add: findConcreteMethodTransitive_def)
qed

end
