(* ===== verification/SymbolTable.thy ===== *)
theory SymbolTable
  imports TableCodec Locs Members
begin

text \<open>
  The symbol table (\<open>core/GlobalState.cc\<close>, \<open>core/Symbols.cc\<close>): entering, looking up, renaming and deleting
  symbols, their locations, singleton classes and the packages of classes.

  The tables are those of \<open>TableCodec\<close>, the names those of \<open>NameTable\<close>.  Names with a fixed meaning
  (\<open>core::Names\<close>, a generated file), the package database and the files behind locations are given by
  the record \<open>sym_env\<close>.  A failed \<open>ENFORCE\<close> is an error.
\<close>

section \<open>State\<close>

record sym_env =
  Names_singleton :: u32
  Names_attached :: u32
  Names_AttachedClass :: u32
  Names_staticInit :: u32
  Names_blkArg :: u32
  TEST_NAMESPACE :: u32
  packagesEnabled :: bool
  testPackages :: bool
  isKnownPackage :: "u32 \<Rightarrow> bool"
  fileData :: "u32 \<Rightarrow> file_obj"

text \<open>\<open>classBoundary\<close> is the class offset of the first stratum that is not contiguous.\<close>

record sym_state =
  symbols :: symbol_table
  names :: name_table
  symbolTableFrozen :: bool
  classBoundary :: u32

datatype sym_error =
    BadRef \<comment> \<open>a reference outside its table\<close>
  | WrongKind \<comment> \<open>the existing symbol is of another kind\<close>
  | WrongFlags
  | SymbolsFrozen
  | TooManySymbols
  | EarlierStratum
  | MissingMember
  | NameFailed name_error
  | NameLoop \<comment> \<open>a loop over names that does not end\<close>

type_synonym 'a sym = "(sym_state, sym_error, 'a) op"

definition classAt :: "u32 \<Rightarrow> class_or_module sym" where
  "classAt c = (\<lambda>s. let cs = classAndModules (symbols s) in if unat c < length cs then Inr (cs ! unat c, s) else Inl BadRef)"

definition methodAt :: "u32 \<Rightarrow> method_sym sym" where
  "methodAt m = (\<lambda>s. let ms = methods (symbols s) in if unat m < length ms then Inr (ms ! unat m, s) else Inl BadRef)"

definition fieldAt :: "u32 \<Rightarrow> field sym" where
  "fieldAt f = (\<lambda>s. let fs = symFields (symbols s) in if unat f < length fs then Inr (fs ! unat f, s) else Inl BadRef)"

definition typeMemberAt :: "u32 \<Rightarrow> type_parameter sym" where
  "typeMemberAt f = (\<lambda>s. let fs = typeMembers (symbols s) in if unat f < length fs then Inr (fs ! unat f, s) else Inl BadRef)"

definition modifyTables :: "(symbol_table \<Rightarrow> symbol_table) \<Rightarrow> unit sym" where
  "modifyTables f = modifyS (\<lambda>s. s\<lparr>symbols := f (symbols s)\<rparr>)"

definition updClass :: "u32 \<Rightarrow> (class_or_module \<Rightarrow> class_or_module) \<Rightarrow> symbol_table \<Rightarrow> symbol_table" where
  "updClass c f t = t\<lparr>classAndModules := (classAndModules t)[unat c := f (classAndModules t ! unat c)]\<rparr>"

definition updMethod :: "u32 \<Rightarrow> (method_sym \<Rightarrow> method_sym) \<Rightarrow> symbol_table \<Rightarrow> symbol_table" where
  "updMethod m f t = t\<lparr>methods := (methods t)[unat m := f (methods t ! unat m)]\<rparr>"

definition updField :: "u32 \<Rightarrow> (field \<Rightarrow> field) \<Rightarrow> symbol_table \<Rightarrow> symbol_table" where
  "updField m f t = t\<lparr>symFields := (symFields t)[unat m := f (symFields t ! unat m)]\<rparr>"

definition updTypeMember :: "u32 \<Rightarrow> (type_parameter \<Rightarrow> type_parameter) \<Rightarrow> symbol_table \<Rightarrow> symbol_table" where
  "updTypeMember m f t = t\<lparr>typeMembers := (typeMembers t)[unat m := f (typeMembers t ! unat m)]\<rparr>"

text \<open>\<open>ENFORCE_NO_TIMER(!symbolTableFrozen)\<close> and the index of the next symbol of a table.\<close>

definition newIndex :: "(symbol_table \<Rightarrow> 'a list) \<Rightarrow> u32 sym" where
  "newIndex tab = (\<lambda>s. let n = length (tab (symbols s)) in
     if symbolTableFrozen s then Inl SymbolsFrozen
     else if n > unat MAX_ID then Inl TooManySymbols else Inr (of_nat n, s))"

text \<open>\<open>members()[name]\<close>, read and written.\<close>

definition storeOf :: "u32 \<Rightarrow> u32 \<Rightarrow> u32 sym" where
  "storeOf owner name = bindS (classAt owner) (\<lambda>ow. returnS (case map_of (c_members ow) name of Some t \<Rightarrow> t | None \<Rightarrow> 0))"

definition setMember :: "u32 \<Rightarrow> u32 \<Rightarrow> u32 \<Rightarrow> symbol_table \<Rightarrow> symbol_table" where
  "setMember owner name ref = updClass owner (\<lambda>ow. ow\<lparr>c_members := AList.update name ref (c_members ow)\<rparr>)"

definition eraseMember :: "u32 \<Rightarrow> u32 \<Rightarrow> symbol_table \<Rightarrow> symbol_table" where
  "eraseMember owner name = updClass owner (\<lambda>ow. ow\<lparr>c_members := AList.delete name (c_members ow)\<rparr>)"

section \<open>Locations of symbols\<close>

text \<open>\<open>loc()\<close> of a symbol: its canonical location is the last one.\<close>

definition mainLoc :: "loc list \<Rightarrow> loc" where
  "mainLoc locs = (if locs \<noteq> [] then last locs else loc_none 0)"

fun replaceLoc :: "loc \<Rightarrow> loc list \<Rightarrow> loc list option" where
  "replaceLoc l [] = None"
| "replaceLoc l (e # es) = (if fileRef e = fileRef l then Some (l # es) else map_option ((#) e) (replaceLoc l es))"

definition addLocInternal :: "sym_env \<Rightarrow> loc \<Rightarrow> loc \<Rightarrow> loc list \<Rightarrow> loc list" where
  "addLocInternal env l main locs = (case replaceLoc l locs of
     Some locs' \<Rightarrow> locs'
   | None \<Rightarrow> let f = fileData env (fileRef l) in
       if locs = [] then [l]
       else if sourceType f = File_Normal \<and> \<not> isRBIPath (path f)
       then (if loc_exists main \<and> strictLevel f \<ge> strictLevel (fileData env (fileRef main))
             then locs @ [l] else l # locs)
       else butlast locs @ [l, last locs])"

definition addLoc :: "sym_env \<Rightarrow> loc \<Rightarrow> loc list \<Rightarrow> loc list" where
  "addLoc env l locs = (if fileRef l = 0 then locs else addLocInternal env l (mainLoc locs) locs)"

definition removeLocsForFile :: "u32 \<Rightarrow> loc list \<Rightarrow> loc list" where
  "removeLocsForFile f locs = filter (\<lambda>l. fileRef l \<noteq> f) locs"

definition singleFileDefinition :: "loc list \<Rightarrow> u32 \<Rightarrow> bool" where
  "singleFileDefinition locs f \<longleftrightarrow> locs \<noteq> [] \<and> list_all (\<lambda>l. fileRef l = f) locs"

section \<open>Reading the table\<close>

text \<open>What the lookups of \<open>Members\<close> and \<open>Linearization\<close> read, taken from the tables.\<close>

definition alias_target :: "type_ptr \<Rightarrow> u32 option" where
  "alias_target t = (case t of AliasType s \<Rightarrow> Some s | _ \<Rightarrow> None)"

definition resultTypeOf :: "symbol_table \<Rightarrow> u32 \<Rightarrow> type_ptr" where
  "resultTypeOf t s = (let i = unat (unsafeTableIndex s) in case sym_kind s of
     Some SK_ClassOrModule \<Rightarrow> c_resultType (classAndModules t ! i)
   | Some SK_Method \<Rightarrow> m_resultType (methods t ! i)
   | Some SK_FieldOrStaticField \<Rightarrow> f_resultType (symFields t ! i)
   | Some SK_TypeParameter \<Rightarrow> tp_resultType (typeParameters t ! i)
   | Some SK_TypeMember \<Rightarrow> tp_resultType (typeMembers t ! i)
   | None \<Rightarrow> NullType)"

text \<open>The bits of \<open>ClassOrModule::Flags\<close> and \<open>Method::Flags\<close> in the order of their declaration.\<close>

definition class_isClass :: "class_or_module \<Rightarrow> bool" where "class_isClass c \<longleftrightarrow> bit (c_flags c) 0"
definition class_isModule :: "class_or_module \<Rightarrow> bool" where "class_isModule c \<longleftrightarrow> bit (c_flags c) 1"
definition class_isLinearizationComputed :: "class_or_module \<Rightarrow> bool" where "class_isLinearizationComputed c \<longleftrightarrow> bit (c_flags c) 4"
definition method_isOverloaded :: "method_sym \<Rightarrow> bool" where "method_isOverloaded m \<longleftrightarrow> bit (m_flags m) 3"
definition method_isAbstract :: "method_sym \<Rightarrow> bool" where "method_isAbstract m \<longleftrightarrow> bit (m_flags m) 4"

definition Overload_kind :: u8 where "Overload_kind = 4"
definition MangleRename_kind :: u8 where "MangleRename_kind = 2"
definition Singleton_kind :: u8 where "Singleton_kind = 3"
definition Namer_kind :: u8 where "Namer_kind = 1"

definition tableOf :: "sym_state \<Rightarrow> member_table" where
  "tableOf s = (let t = symbols s in
     \<lparr>members = (\<lambda>c n. if unat c < length (classAndModules t) then map_of (c_members (classAndModules t ! unat c)) n else None),
      aliasOf = (\<lambda>r. alias_target (resultTypeOf t r)),
      isAbstract = (\<lambda>m. method_isAbstract (methods t ! unat m)),
      isOverloaded = (\<lambda>m. method_isOverloaded (methods t ! unat m)),
      overloadName = (\<lambda>n. case lookupNameUnique \<lparr>un_original = n, un_num = 1, un_kind = Overload_kind\<rparr> (names s) of
        Inl e \<Rightarrow> 0 | Inr r \<Rightarrow> r)\<rparr>)"

definition hierarchyOf :: "symbol_table \<Rightarrow> hierarchy" where
  "hierarchyOf t c = (let d = classAndModules t ! unat c in
     \<lparr>superclass = c_superClass d, mixinRefs = c_mixins d, isModule = class_isModule d, isClass = class_isClass d,
      isLinearizationComputed = class_isLinearizationComputed d\<rparr>)"

definition ownerOf :: "symbol_table \<Rightarrow> u32 \<Rightarrow> u32" where
  "ownerOf t s = (let i = unat (unsafeTableIndex s) in case sym_kind s of
     Some SK_ClassOrModule \<Rightarrow> symbolRefOf SK_ClassOrModule (c_owner (classAndModules t ! i))
   | Some SK_Method \<Rightarrow> symbolRefOf SK_ClassOrModule (m_owner (methods t ! i))
   | Some SK_FieldOrStaticField \<Rightarrow> symbolRefOf SK_ClassOrModule (f_owner (symFields t ! i))
   | Some SK_TypeParameter \<Rightarrow> tp_owner (typeParameters t ! i)
   | Some SK_TypeMember \<Rightarrow> tp_owner (typeMembers t ! i)
   | None \<Rightarrow> 0)"

definition nameOf :: "symbol_table \<Rightarrow> u32 \<Rightarrow> u32" where
  "nameOf t s = (let i = unat (unsafeTableIndex s) in case sym_kind s of
     Some SK_ClassOrModule \<Rightarrow> c_name (classAndModules t ! i)
   | Some SK_Method \<Rightarrow> m_name (methods t ! i)
   | Some SK_FieldOrStaticField \<Rightarrow> f_name (symFields t ! i)
   | Some SK_TypeParameter \<Rightarrow> tp_name (typeParameters t ! i)
   | Some SK_TypeMember \<Rightarrow> tp_name (typeMembers t ! i)
   | None \<Rightarrow> 0)"

section \<open>Packages of classes\<close>

definition PackageSpecRegistry :: u32 where "PackageSpecRegistry = 81"
definition root_class :: u32 where "root_class = 3"

definition hasUniqueNameKind :: "name_table \<Rightarrow> u32 \<Rightarrow> u8 \<Rightarrow> bool" where
  "hasUniqueNameKind nt n k \<longleftrightarrow> nameKind n = UNIQUE \<and> un_kind (uniqueNames nt ! nameIndex n) = k"

text \<open>The loop that strips singleton names.  A chain with more names than the table has visits a name
  twice and never ends; that is the error.\<close>

primrec registryNameLoop :: "nat \<Rightarrow> name_table \<Rightarrow> u32 \<Rightarrow> (sym_error, u32) result" where
  "registryNameLoop 0 nt n = Inl NameLoop"
| "registryNameLoop (Suc k) nt n =
     (if hasUniqueNameKind nt n Singleton_kind then registryNameLoop k nt (un_original (uniqueNames nt ! nameIndex n))
      else Inr n)"

definition isPackageSpecSymbol :: "symbol_table \<Rightarrow> u32 \<Rightarrow> bool" where
  "isPackageSpecSymbol t c \<longleftrightarrow> c \<noteq> 0 \<and> c_packageRegistryOwner (classAndModules t ! unat c) = c"

text \<open>The result is the registry owner and the package.\<close>

definition packageInfoForClassOrModule :: "sym_env \<Rightarrow> u32 \<Rightarrow> u32 \<Rightarrow> (u32 \<times> u32) sym" where
  "packageInfoForClassOrModule env owner name =
     (if \<not> packagesEnabled env then returnS (0, 0)
      else if owner = root_class \<and> \<not> testPackages env \<and> name = TEST_NAMESPACE env then returnS (PackageSpecRegistry, 0)
      else bindS (classAt owner) (\<lambda>ownerData.
        bindS (readS symbols) (\<lambda>t. bindS (readS names) (\<lambda>nt. bindS (readS tableOf) (\<lambda>T.
          let canStart = owner = root_class \<or> isPackageSpecSymbol t owner
                \<or> (c_owner ownerData = root_class \<and> c_name ownerData = TEST_NAMESPACE env);
              pro = (if \<not> canStart \<and> c_package ownerData = 0 \<and> c_packageRegistryOwner ownerData = PackageSpecRegistry
                     then 0 else c_packageRegistryOwner ownerData)
          in if pro = 0 then returnS (0, c_package ownerData)
             else (case registryNameLoop (Suc (length (uniqueNames nt))) nt name of
                 Inl e \<Rightarrow> failS e
               | Inr registryName \<Rightarrow>
                   bindS (classAt pro) (\<lambda>proData.
                     let member = findMember T pro registryName;
                         owner' = (if sym_exists member \<and> sym_kind member = Some SK_ClassOrModule
                                   then unsafeTableIndex member else 0)
                     in if owner' = 0 then returnS (0, c_package ownerData)
                        else if isKnownPackage env owner' then returnS (owner', owner')
                        else returnS (owner', c_package ownerData))))))))"

section \<open>Entering symbols\<close>

definition emptyClass :: class_or_module where
  "emptyClass = \<lparr>c_packageRegistryOwner = 0, c_package = 0, c_owner = 0, c_name = 0, c_superClass = 0, c_flags = 0,
     c_mixins = [], c_typeMembers = [], c_members = [], c_resultType = NullType, c_locs = []\<rparr>"

definition emptyMethod :: method_sym where
  "emptyMethod = \<lparr>m_nameLoc = loc_none 0, m_owner = 0, m_name = 0, m_rebind = 0, m_flags = 0, m_typeParameters = [],
     m_parameters = [], m_resultType = NullType, m_intrinsicOffset = 0, m_locs = []\<rparr>"

definition emptyField :: field where
  "emptyField = \<lparr>f_owner = 0, f_name = 0, f_flags = 0, f_resultType = NullType, f_locs = []\<rparr>"

definition emptyTypeParameter :: type_parameter where
  "emptyTypeParameter = \<lparr>tp_owner = 0, tp_name = 0, tp_flags = 0, tp_resultType = NullType, tp_locs = []\<rparr>"

definition enterClassOrModuleSymbol :: "sym_env \<Rightarrow> loc \<Rightarrow> u32 \<Rightarrow> u32 \<Rightarrow> u32 sym" where
  "enterClassOrModuleSymbol env l owner name =
     bindS (storeOf owner name) (\<lambda>store.
       if sym_exists store
       then bindS (guardS (sym_kind store = Some SK_ClassOrModule) WrongKind) (\<lambda>u. returnS (unsafeTableIndex store))
       else bindS (newIndex classAndModules) (\<lambda>ret.
         bindS (modifyTables (setMember owner name (mkSymbolRef SK_ClassOrModule ret))) (\<lambda>u.
         bindS (modifyTables (\<lambda>t. t\<lparr>classAndModules := classAndModules t @
                  [emptyClass\<lparr>c_name := name, c_owner := owner, c_locs := addLoc env l []\<rparr>]\<rparr>)) (\<lambda>u.
         bindS (packageInfoForClassOrModule env owner name) (\<lambda>(registryOwner, package).
         bindS (modifyTables (updClass ret (\<lambda>d. d\<lparr>c_packageRegistryOwner := registryOwner, c_package := package\<rparr>))) (\<lambda>u.
           returnS ret))))))"

definition enterMethodSymbol :: "sym_env \<Rightarrow> loc \<Rightarrow> u32 \<Rightarrow> u32 \<Rightarrow> loc \<Rightarrow> u32 sym" where
  "enterMethodSymbol env l owner name nameLoc =
     bindS (storeOf owner name) (\<lambda>store.
       if sym_exists store
       then bindS (guardS (sym_kind store = Some SK_Method) WrongKind) (\<lambda>u. returnS (unsafeTableIndex store))
       else bindS (newIndex methods) (\<lambda>result.
         bindS (modifyTables (setMember owner name (mkSymbolRef SK_Method result))) (\<lambda>u.
         bindS (modifyTables (\<lambda>t. t\<lparr>methods := methods t @
                  [emptyMethod\<lparr>m_name := name, m_nameLoc := nameLoc, m_owner := owner, m_locs := addLoc env l []\<rparr>]\<rparr>)) (\<lambda>u.
           returnS result))))"

text \<open>\<open>Field::Flags\<close>: \<open>isField\<close> is bit 0, \<open>isStaticField\<close> bit 1.\<close>

definition enterFieldSymbol :: "sym_env \<Rightarrow> loc \<Rightarrow> u32 \<Rightarrow> u32 \<Rightarrow> u32 sym" where
  "enterFieldSymbol env l owner name =
     bindS (storeOf owner name) (\<lambda>store.
       if sym_exists store
       then bindS (guardS (sym_kind store = Some SK_FieldOrStaticField) WrongKind) (\<lambda>u.
            bindS (fieldAt (unsafeTableIndex store)) (\<lambda>f.
            bindS (guardS (bit (f_flags f) 0) WrongKind) (\<lambda>u. returnS (unsafeTableIndex store))))
       else bindS (newIndex symFields) (\<lambda>result.
         bindS (modifyTables (setMember owner name (mkSymbolRef SK_FieldOrStaticField result))) (\<lambda>u.
         bindS (modifyTables (\<lambda>t. t\<lparr>symFields := symFields t @
                  [emptyField\<lparr>f_name := name, f_flags := 1, f_owner := owner, f_locs := addLoc env l []\<rparr>]\<rparr>)) (\<lambda>u.
           returnS result))))"

definition enterStaticFieldSymbol :: "sym_env \<Rightarrow> loc \<Rightarrow> u32 \<Rightarrow> u32 \<Rightarrow> u32 sym" where
  "enterStaticFieldSymbol env l owner name =
     bindS (storeOf owner name) (\<lambda>store.
       if sym_exists store
       then bindS (guardS (sym_kind store = Some SK_FieldOrStaticField) WrongKind) (\<lambda>u.
            bindS (fieldAt (unsafeTableIndex store)) (\<lambda>f.
            bindS (guardS (bit (f_flags f) 1) WrongKind) (\<lambda>u.
            bindS (readS symbolTableFrozen) (\<lambda>frozen.
            bindS (if frozen then returnS ()
                   else modifyTables (updField (unsafeTableIndex store) (\<lambda>f. f\<lparr>f_locs := addLoc env l (f_locs f)\<rparr>))) (\<lambda>u.
              returnS (unsafeTableIndex store))))))
       else bindS (newIndex symFields) (\<lambda>ret.
         bindS (modifyTables (setMember owner name (mkSymbolRef SK_FieldOrStaticField ret))) (\<lambda>u.
         bindS (modifyTables (\<lambda>t. t\<lparr>symFields := symFields t @
                  [emptyField\<lparr>f_name := name, f_flags := 2, f_owner := owner, f_locs := addLoc env l []\<rparr>]\<rparr>)) (\<lambda>u.
           returnS ret))))"

datatype variance = CoVariant | ContraVariant | Invariant

text \<open>\<open>TypeParameter::Flags\<close>: \<open>isTypeParameter\<close>, \<open>isTypeMember\<close>, \<open>isCovariant\<close>, \<open>isInvariant\<close>, \<open>isContravariant\<close>,
  \<open>isFixed\<close> from bit 0.\<close>

fun varianceFlag :: "variance \<Rightarrow> u8" where
  "varianceFlag Invariant = 8"
| "varianceFlag CoVariant = 4"
| "varianceFlag ContraVariant = 16"

definition hasFlags :: "u8 \<Rightarrow> u8 \<Rightarrow> bool" where
  "hasFlags this other \<longleftrightarrow> serializeFlags 6 this AND serializeFlags 6 other = serializeFlags 6 other"

definition enterTypeMember :: "sym_env \<Rightarrow> loc \<Rightarrow> u32 \<Rightarrow> u32 \<Rightarrow> variance \<Rightarrow> u32 sym" where
  "enterTypeMember env l owner name variance =
     (let flags = 2 OR varianceFlag variance in
      bindS (storeOf owner name) (\<lambda>store.
       if sym_exists store
       then bindS (guardS (sym_kind store = Some SK_TypeMember) WrongKind) (\<lambda>u.
            bindS (typeMemberAt (unsafeTableIndex store)) (\<lambda>d.
            bindS (guardS (hasFlags (tp_flags d) flags) WrongFlags) (\<lambda>u. returnS (unsafeTableIndex store))))
       else bindS (newIndex typeMembers) (\<lambda>result.
         bindS (readS classBoundary) (\<lambda>boundary.
         if owner \<noteq> 0 \<and> owner < boundary then failS EarlierStratum
         else
         bindS (modifyTables (setMember owner name (mkSymbolRef SK_TypeMember result))) (\<lambda>u.
         bindS (modifyTables (\<lambda>t. t\<lparr>typeMembers := typeMembers t @
                  [emptyTypeParameter\<lparr>tp_name := name, tp_flags := flags, tp_owner := symbolRefOf SK_ClassOrModule owner,
                     tp_locs := addLoc env l []\<rparr>]\<rparr>)) (\<lambda>u.
         bindS (modifyTables (updClass owner (\<lambda>ow.
                  if result \<in> set (c_typeMembers ow) then ow else ow\<lparr>c_typeMembers := c_typeMembers ow @ [result]\<rparr>))) (\<lambda>u.
           returnS result)))))))"

text \<open>The loop over the type parameters a method has.\<close>

definition findTypeParameter :: "symbol_table \<Rightarrow> u32 list \<Rightarrow> u32 \<Rightarrow> u32 option" where
  "findTypeParameter t refs name = List.find (\<lambda>r. tp_name (typeParameters t ! unat r) = name) refs"

definition enterTypeParameter :: "sym_env \<Rightarrow> loc \<Rightarrow> u32 \<Rightarrow> u32 \<Rightarrow> variance \<Rightarrow> u32 sym" where
  "enterTypeParameter env l owner name variance =
     (let flags = 1 OR varianceFlag variance in
      bindS (methodAt owner) (\<lambda>m. bindS (readS symbols) (\<lambda>t. bindS (readS symbolTableFrozen) (\<lambda>frozen.
        case findTypeParameter t (m_typeParameters m) name of
          Some r \<Rightarrow>
            bindS (guardS (hasFlags (tp_flags (typeParameters t ! unat r)) flags) WrongFlags) (\<lambda>u.
            bindS (if frozen then returnS ()
                   else modifyTables (\<lambda>t. t\<lparr>typeParameters := (typeParameters t)[unat r :=
                     (typeParameters t ! unat r)\<lparr>tp_locs := addLoc env l (tp_locs (typeParameters t ! unat r))\<rparr>]\<rparr>)) (\<lambda>u.
              returnS r))
        | None \<Rightarrow>
            bindS (newIndex typeParameters) (\<lambda>result.
            bindS (modifyTables (\<lambda>t. t\<lparr>typeParameters := typeParameters t @
                     [emptyTypeParameter\<lparr>tp_name := name, tp_flags := flags, tp_owner := mkSymbolRef SK_Method owner,
                        tp_locs := addLoc env l []\<rparr>]\<rparr>)) (\<lambda>u.
            bindS (modifyTables (updMethod owner (\<lambda>m. m\<lparr>m_typeParameters := m_typeParameters m @ [result]\<rparr>))) (\<lambda>u.
              returnS result)))))))"

text \<open>The position of the parameter in the list stands for the returned reference.\<close>

definition emptyParam :: param_info where
  "emptyParam = \<lparr>pi_name = 0, pi_rebind = 0, pi_loc = loc_none 0, pi_flags = flags_setFromU1 0, pi_type = NullType\<rparr>"

definition enterMethodParameter :: "loc \<Rightarrow> u32 \<Rightarrow> u32 \<Rightarrow> nat sym" where
  "enterMethodParameter l owner name =
     bindS (methodAt owner) (\<lambda>m.
       let before = takeWhile (\<lambda>p. pi_name p \<noteq> name) (m_parameters m) in
       if length before < length (m_parameters m) then returnS (length before)
       else bindS (readS symbolTableFrozen) (\<lambda>frozen. bindS (guardS (\<not> frozen) SymbolsFrozen) (\<lambda>u.
            bindS (modifyTables (updMethod owner (\<lambda>m. m\<lparr>m_parameters := m_parameters m @
                     [emptyParam\<lparr>pi_name := name, pi_loc := l\<rparr>]\<rparr>))) (\<lambda>u.
              returnS (length (m_parameters m))))))"

definition setParameter :: "u32 \<Rightarrow> nat \<Rightarrow> param_info \<Rightarrow> symbol_table \<Rightarrow> symbol_table" where
  "setParameter m i p = updMethod m (\<lambda>m. m\<lparr>m_parameters := (m_parameters m)[i := p]\<rparr>)"

definition freshName :: "u8 \<Rightarrow> u32 \<Rightarrow> u32 \<Rightarrow> u32 sym" where
  "freshName k original num = (\<lambda>s.
     case freshNameUnique \<lparr>un_original = original, un_num = num, un_kind = k\<rparr> (names s) of
       Inl e \<Rightarrow> Inl (NameFailed e) | Inr (n, nt) \<Rightarrow> Inr (n, s\<lparr>names := nt\<rparr>))"

fun copyParameters :: "u32 \<Rightarrow> (param_info \<times> bool) list \<Rightarrow> unit sym" where
  "copyParameters res [] = returnS ()"
| "copyParameters res ((p, keep) # ps) =
     (let l = (if \<not> keep \<and> isBlock (pi_flags p) then loc_none 0 else pi_loc p) in
      if \<not> keep \<and> \<not> isBlock (pi_flags p) then copyParameters res ps
      else bindS (enterMethodParameter l res (pi_name p)) (\<lambda>i.
           bindS (modifyTables (setParameter res i (p\<lparr>pi_loc := l\<rparr>))) (\<lambda>u. copyParameters res ps)))"

definition enterNewMethodOverload :: "sym_env \<Rightarrow> loc \<Rightarrow> u32 \<Rightarrow> u32 \<Rightarrow> u32 \<Rightarrow> bool list \<Rightarrow> u32 sym" where
  "enterNewMethodOverload env sigLoc original originalName num paramsToKeep =
     bindS (freshName Overload_kind originalName num) (\<lambda>name.
     bindS (methodAt original) (\<lambda>m.
     bindS (enterMethodSymbol env sigLoc (m_owner m) name (m_nameLoc m)) (\<lambda>res.
     bindS (guardS (length (m_parameters m) = length paramsToKeep) WrongKind) (\<lambda>u.
     bindS (copyParameters res (zip (m_parameters m) paramsToKeep)) (\<lambda>u. returnS res)))))"

section \<open>Singleton classes\<close>

definition asClassOrModuleRef :: "u32 \<Rightarrow> u32 sym" where
  "asClassOrModuleRef r = bindS (guardS (sym_kind r = Some SK_ClassOrModule) WrongKind) (\<lambda>u. returnS (unsafeTableIndex r))"

definition untyped_class :: u32 where "untyped_class = 16"
definition todo_class :: u32 where "todo_class = 5"

definition lookupSingletonClass :: "sym_env \<Rightarrow> u32 \<Rightarrow> u32 sym" where
  "lookupSingletonClass env c =
     (if c = untyped_class then returnS untyped_class
      else bindS (readS tableOf) (\<lambda>T. asClassOrModuleRef (findMember T c (Names_singleton env))))"

definition attachedClass :: "sym_env \<Rightarrow> u32 \<Rightarrow> u32 sym" where
  "attachedClass env c =
     (if c = untyped_class then returnS untyped_class
      else bindS (readS tableOf) (\<lambda>T. asClassOrModuleRef (findMember T c (Names_attached env))))"

definition setIsModule :: "bool \<Rightarrow> class_or_module \<Rightarrow> class_or_module" where
  "setIsModule b c = c\<lparr>c_flags := (if b then set_bit 1 (c_flags c) else set_bit 0 (c_flags c))\<rparr>"

definition singletonClass :: "sym_env \<Rightarrow> u32 \<Rightarrow> u32 sym" where
  "singletonClass env c =
     bindS (lookupSingletonClass env c) (\<lambda>found.
       if found \<noteq> 0 then returnS found
       else bindS (classAt c) (\<lambda>this.
         bindS (freshName Singleton_kind (c_name this) 1) (\<lambda>singletonName.
         bindS (enterClassOrModuleSymbol env (mainLoc (c_locs this)) (c_owner this) singletonName) (\<lambda>singleton.
         bindS (modifyTables (setMember singleton (Names_attached env) (mkSymbolRef SK_ClassOrModule c))) (\<lambda>u.
         bindS (modifyTables (updClass singleton (\<lambda>d. setIsModule False (d\<lparr>c_superClass := todo_class\<rparr>)))) (\<lambda>u.
         bindS (enterTypeMember env (mainLoc (c_locs this)) singleton (Names_AttachedClass env) CoVariant) (\<lambda>tp.
         bindS (modifyTables (updTypeMember tp (\<lambda>d. d\<lparr>tp_resultType :=
                  LambdaParam tp (ClassType todo_class) (ClassType todo_class)\<rparr>))) (\<lambda>u.
         bindS (modifyTables (setMember c (Names_singleton env) (mkSymbolRef SK_ClassOrModule singleton))) (\<lambda>u.
           returnS singleton)))))))))"

definition staticInit :: "sym_env \<Rightarrow> loc \<Rightarrow> u32 \<Rightarrow> u32 \<Rightarrow> loc \<Rightarrow> u32 sym" where
  "staticInit env l owner name nameLoc =
     bindS (readS (\<lambda>s. length (methods (symbols s)))) (\<lambda>prevCount.
     bindS (enterMethodSymbol env l owner name nameLoc) (\<lambda>m.
     bindS (readS (\<lambda>s. length (methods (symbols s)))) (\<lambda>count.
       if prevCount \<noteq> count
       then bindS (enterMethodParameter (loc_none (fileRef l)) m (Names_blkArg env)) (\<lambda>i.
            bindS (modifyTables (updMethod m (\<lambda>d. d\<lparr>m_parameters := (m_parameters d)[i :=
                     (m_parameters d ! i)\<lparr>pi_flags := (pi_flags (m_parameters d ! i))\<lparr>isBlock := True\<rparr>\<rparr>]\<rparr>))) (\<lambda>u.
              returnS m))
       else bindS (modifyTables (updMethod m (\<lambda>d. d\<lparr>m_locs := addLoc env l (m_locs d)\<rparr>))) (\<lambda>u. returnS m))))"

definition staticInitForClass :: "sym_env \<Rightarrow> u32 \<Rightarrow> loc \<Rightarrow> u32 sym" where
  "staticInitForClass env klass l =
     bindS (singletonClass env klass) (\<lambda>single. staticInit env l single (Names_staticInit env) l)"

definition rootSingleton :: u32 where "rootSingleton = 4"

definition staticInitForFile :: "sym_env \<Rightarrow> loc \<Rightarrow> u32 sym" where
  "staticInitForFile env l =
     bindS (freshName Namer_kind (Names_staticInit env) (fileRef l)) (\<lambda>nm. staticInit env l rootSingleton nm (loc_none 0))"

definition lookupStaticInitForClass :: "sym_env \<Rightarrow> u32 \<Rightarrow> u32 sym" where
  "lookupStaticInitForClass env klass =
     bindS (lookupSingletonClass env klass) (\<lambda>single. bindS (readS tableOf) (\<lambda>T.
       returnS (findMethod T single (Names_staticInit env))))"

definition lookupNameS :: "u8 \<Rightarrow> u32 \<Rightarrow> u32 \<Rightarrow> u32 sym" where
  "lookupNameS k original num = (\<lambda>s.
     case lookupNameUnique \<lparr>un_original = original, un_num = num, un_kind = k\<rparr> (names s) of
       Inl e \<Rightarrow> Inl (NameFailed e) | Inr n \<Rightarrow> Inr (n, s))"

definition lookupStaticInitForFile :: "sym_env \<Rightarrow> u32 \<Rightarrow> u32 sym" where
  "lookupStaticInitForFile env file =
     bindS (lookupNameS Namer_kind (Names_staticInit env) file) (\<lambda>nm. bindS (readS tableOf) (\<lambda>T.
       let ref = findMember T rootSingleton nm in
       bindS (guardS (sym_exists ref \<and> sym_kind ref = Some SK_Method) WrongKind) (\<lambda>u. returnS (unsafeTableIndex ref))))"

section \<open>Mangled names\<close>

text \<open>The loop through \<open>name\<close>, its first mangled name, its second one and so on, until a member is missing
  or accepted.  \<open>left\<close> bounds the number of rounds: each finds another member of the class.\<close>

primrec mangledLoop :: "(u32 \<Rightarrow> bool) \<Rightarrow> u32 \<Rightarrow> u32 \<Rightarrow> nat \<Rightarrow> u32 \<Rightarrow> u32 option \<Rightarrow> u32 option sym" where
  "mangledLoop accept owner name 0 unique res = failS NameLoop"
| "mangledLoop accept owner name (Suc left) unique res =
     (case res of None \<Rightarrow> returnS None
      | Some r \<Rightarrow> if accept r then returnS (Some r)
        else bindS (lookupNameS MangleRename_kind name unique) (\<lambda>lookedUp.
             if lookedUp = 0 then returnS None
             else bindS (classAt owner) (\<lambda>ow.
               mangledLoop accept owner name left (unique + 1) (map_of (c_members ow) lookedUp))))"

definition lookupSymbolWithKind :: "u32 \<Rightarrow> u32 \<Rightarrow> symbol_kind \<Rightarrow> u32 \<Rightarrow> bool \<Rightarrow> u32 sym" where
  "lookupSymbolWithKind owner name kind defaultReturnValue ignoreKind =
     bindS (classAt owner) (\<lambda>ow.
     bindS (mangledLoop (\<lambda>r. ignoreKind \<or> sym_kind r = Some kind) owner name (Suc (Suc (length (c_members ow)))) 1
              (map_of (c_members ow) name)) (\<lambda>res.
       returnS (case res of None \<Rightarrow> defaultReturnValue | Some r \<Rightarrow> r)))"

text \<open>\<open>matches\<close> stands for \<open>matchesArityHash\<close>.\<close>

definition lookupMethodSymbolWithHash :: "(method_sym \<Rightarrow> bool) \<Rightarrow> u32 \<Rightarrow> u32 \<Rightarrow> u32 sym" where
  "lookupMethodSymbolWithHash matches owner name =
     bindS (classAt owner) (\<lambda>ow. bindS (readS symbols) (\<lambda>t.
     bindS (mangledLoop (\<lambda>r. sym_kind r = Some SK_Method \<and> matches (methods t ! unat (unsafeTableIndex r))) owner name
              (Suc (Suc (length (c_members ow)))) 1 (map_of (c_members ow) name)) (\<lambda>res.
       returnS (case res of None \<Rightarrow> 0 | Some r \<Rightarrow> unsafeTableIndex r))))"

primrec renamedLoop :: "u32 \<Rightarrow> u32 \<Rightarrow> nat \<Rightarrow> u32 \<Rightarrow> u32 option \<Rightarrow> u32 sym" where
  "renamedLoop owner name 0 unique res = failS NameLoop"
| "renamedLoop owner name (Suc left) unique res =
     (case res of None \<Rightarrow> returnS 0
      | Some r \<Rightarrow>
          bindS (guardS (sym_exists r) MissingMember) (\<lambda>u.
          bindS (lookupNameS MangleRename_kind name (unique + 1)) (\<lambda>lookedUp.
            if lookedUp = 0 then returnS r
            else bindS (classAt owner) (\<lambda>ow. renamedLoop owner name left (unique + 1) (map_of (c_members ow) lookedUp)))))"

definition findRenamedSymbol :: "u32 \<Rightarrow> u32 \<Rightarrow> u32 sym" where
  "findRenamedSymbol owner ref =
     bindS (guardS (sym_exists ref \<and> sym_kind ref = Some SK_Method) WrongKind) (\<lambda>u.
     bindS (readS symbols) (\<lambda>t. bindS (readS names) (\<lambda>nt. bindS (classAt owner) (\<lambda>ow.
       let name = nameOf t ref; u = uniqueNames nt ! nameIndex name in
       if nameKind name = UNIQUE
       then bindS (guardS (un_kind u \<noteq> Overload_kind) WrongFlags) (\<lambda>_.
             if un_kind u \<noteq> MangleRename_kind \<or> un_num u = 1 then returnS 0
             else bindS (lookupNameS MangleRename_kind (un_original u) (un_num u - 1)) (\<lambda>nm.
                  if nm = 0 then returnS 0
                  else (case map_of (c_members ow) nm of None \<Rightarrow> failS MissingMember | Some r \<Rightarrow> returnS r)))
       else bindS (lookupNameS MangleRename_kind name 1) (\<lambda>lookedUp.
              renamedLoop owner name (Suc (Suc (length (c_members ow)))) 1 (map_of (c_members ow) lookedUp))))))"

primrec nextMangledLoop :: "u32 \<Rightarrow> u32 \<Rightarrow> nat \<Rightarrow> u32 \<Rightarrow> u32 sym" where
  "nextMangledLoop owner origName 0 collisionCount = failS NameLoop"
| "nextMangledLoop owner origName (Suc left) collisionCount =
     bindS (freshName MangleRename_kind origName collisionCount) (\<lambda>name. bindS (readS tableOf) (\<lambda>T.
       if sym_exists (findMember T owner name) then nextMangledLoop owner origName left (collisionCount + 1)
       else returnS name))"

definition nextMangledName :: "u32 \<Rightarrow> u32 \<Rightarrow> u32 sym" where
  "nextMangledName owner origName =
     bindS (classAt owner) (\<lambda>ow. nextMangledLoop owner origName (Suc (length (c_members ow))) 1)"

definition mangleRenameMethod :: "u32 \<Rightarrow> u32 \<Rightarrow> unit sym" where
  "mangleRenameMethod what origName =
     bindS (methodAt what) (\<lambda>m. bindS (classAt (m_owner m)) (\<lambda>ow.
       if map_of (c_members ow) origName \<noteq> Some (mkSymbolRef SK_Method what) \<or> m_name m \<noteq> origName then failS MissingMember
       else bindS (nextMangledName (m_owner m) origName) (\<lambda>name.
            bindS (modifyTables (eraseMember (m_owner m) origName)) (\<lambda>u.
            bindS (modifyTables (setMember (m_owner m) name (mkSymbolRef SK_Method what))) (\<lambda>u.
              modifyTables (updMethod what (\<lambda>m. m\<lparr>m_name := name\<rparr>)))))))"

section \<open>Deleting symbols\<close>

text \<open>\<open>find\<close> and \<open>erase\<close> of the member that is deleted.\<close>

definition eraseStored :: "u32 \<Rightarrow> u32 \<Rightarrow> u32 \<Rightarrow> unit sym" where
  "eraseStored owner name ref =
     bindS (readS symbolTableFrozen) (\<lambda>frozen. if frozen then failS SymbolsFrozen
     else bindS (classAt owner) (\<lambda>ow.
       if map_of (c_members ow) name \<noteq> Some ref then failS MissingMember
       else modifyTables (eraseMember owner name)))"

definition deleteMethodSymbol :: "u32 \<Rightarrow> unit sym" where
  "deleteMethodSymbol what =
     bindS (methodAt what) (\<lambda>m.
     bindS (eraseStored (m_owner m) (m_name m) (mkSymbolRef SK_Method what)) (\<lambda>u.
     bindS (modifyTables (\<lambda>t. t\<lparr>typeParameters :=
              fold (\<lambda>r tps. tps[unat r := tps ! 0]) (m_typeParameters m) (typeParameters t)\<rparr>)) (\<lambda>u.
       modifyTables (\<lambda>t. t\<lparr>methods := (methods t)[unat what := methods t ! 0]\<rparr>))))"

definition deleteFieldSymbol :: "u32 \<Rightarrow> unit sym" where
  "deleteFieldSymbol what =
     bindS (fieldAt what) (\<lambda>f.
     bindS (eraseStored (f_owner f) (f_name f) (mkSymbolRef SK_FieldOrStaticField what)) (\<lambda>u.
       modifyTables (\<lambda>t. t\<lparr>symFields := (symFields t)[unat what := symFields t ! 0]\<rparr>)))"

definition deleteTypeMemberSymbol :: "u32 \<Rightarrow> unit sym" where
  "deleteTypeMemberSymbol what =
     bindS (typeMemberAt what) (\<lambda>d.
     bindS (asClassOrModuleRef (tp_owner d)) (\<lambda>owner.
     bindS (eraseStored owner (tp_name d) (mkSymbolRef SK_TypeMember what)) (\<lambda>u.
     bindS (classAt owner) (\<lambda>ow.
       if what \<notin> set (c_typeMembers ow) then failS MissingMember
       else bindS (modifyTables (updClass owner (\<lambda>ow. ow\<lparr>c_typeMembers := remove1 what (c_typeMembers ow)\<rparr>))) (\<lambda>u.
            modifyTables (\<lambda>t. t\<lparr>typeMembers := (typeMembers t)[unat what := typeMembers t ! 0]\<rparr>))))))"

section \<open>The first symbols\<close>

definition synthesizeClass :: "u32 \<Rightarrow> u32 \<Rightarrow> bool \<Rightarrow> u32 sym" where
  "synthesizeClass name super asModule =
     bindS (readS (\<lambda>s. of_nat (length (classAndModules (symbols s))))) (\<lambda>symRef.
     bindS (modifyTables (\<lambda>t. t\<lparr>classAndModules := classAndModules t @
              [setIsModule asModule (emptyClass\<lparr>c_name := name, c_owner := root_class, c_superClass := super\<rparr>)]\<rparr>)) (\<lambda>u.
     bindS (if symRef > root_class then modifyTables (setMember root_class name (mkSymbolRef SK_ClassOrModule symRef))
            else returnS ()) (\<lambda>u.
       returnS symRef)))"

text \<open>The names of the symbols that do not exist and of the first classes.\<close>

record first_names =
  Names_NoSymbol :: u32
  Names_noMethod :: u32
  Names_noField :: u32
  Names_NoTypeParameter :: u32
  Names_NoTypeMember :: u32
  Names_Top :: u32
  Names_Bottom :: u32
  Names_Root :: u32
  Names_Todo :: u32

text \<open>The beginning of \<open>initEmpty\<close>, up to the class \<open>todo\<close>; the rest synthesizes the other well-known
  classes in the same way.\<close>

definition initFirstSymbols :: "sym_env \<Rightarrow> first_names \<Rightarrow> unit sym" where
  "initFirstSymbols env fn = (let none = loc_none 0 in
     bindS (synthesizeClass (Names_NoSymbol fn) 0 False) (\<lambda>c.
     bindS (enterMethodSymbol env none 0 (Names_noMethod fn) none) (\<lambda>m.
     bindS (enterFieldSymbol env none 0 (Names_noField fn)) (\<lambda>f.
     bindS (enterTypeParameter env none 0 (Names_NoTypeParameter fn) CoVariant) (\<lambda>p.
     bindS (enterTypeMember env none 0 (Names_NoTypeMember fn) CoVariant) (\<lambda>q.
     bindS (synthesizeClass (Names_Top fn) 0 False) (\<lambda>c.
     bindS (synthesizeClass (Names_Bottom fn) 0 False) (\<lambda>c.
     bindS (synthesizeClass (Names_Root fn) 0 False) (\<lambda>c.
     bindS (singletonClass env root_class) (\<lambda>c.
     bindS (synthesizeClass (Names_Todo fn) 0 False) (\<lambda>c. returnS ())))))))))))"

definition freezeSymbolTable :: "bool sym" where
  "freezeSymbolTable = bindS (readS symbolTableFrozen) (\<lambda>old.
     bindS (modifyS (\<lambda>s. s\<lparr>symbolTableFrozen := True\<rparr>)) (\<lambda>u. returnS old))"

definition unfreezeSymbolTable :: "bool sym" where
  "unfreezeSymbolTable = bindS (readS symbolTableFrozen) (\<lambda>old.
     bindS (modifyS (\<lambda>s. s\<lparr>symbolTableFrozen := False\<rparr>)) (\<lambda>u. returnS old))"

section \<open>The check of the table\<close>

text \<open>\<open>sanityCheck\<close> of a symbol enters it again and expects to get it back.  \<open>ENFORCE\<close>s that fail make the
  check \<open>False\<close>.\<close>

definition yields :: "u32 sym \<Rightarrow> u32 \<Rightarrow> sym_state \<Rightarrow> bool" where
  "yields m r s \<longleftrightarrow> (case m s of Inr (r', s') \<Rightarrow> r' = r | Inl e \<Rightarrow> False)"

text \<open>The members of a class have names and exist.\<close>

definition members_exist :: "class_or_module \<Rightarrow> bool" where
  "members_exist d \<longleftrightarrow> (\<forall>e\<in>set (c_members d). fst e \<noteq> 0 \<and> sym_exists (snd e))"

definition sanityCheckClass :: "sym_env \<Rightarrow> sym_state \<Rightarrow> u32 \<Rightarrow> bool" where
  "sanityCheckClass env s c = (let d = classAndModules (symbols s) ! unat c in
     c = root_class
     \<or> yields (enterClassOrModuleSymbol env (mainLoc (c_locs d)) (c_owner d) (c_name d)) c s \<and> members_exist d)"

text \<open>The type parameters of a method have names and exist, it has a parameter, and those of an alias are
  keywords.\<close>

definition params_sound :: "symbol_table \<Rightarrow> method_sym \<Rightarrow> bool" where
  "params_sound t d \<longleftrightarrow> (\<forall>tp\<in>set (m_typeParameters d). tp_name (typeParameters t ! unat tp) \<noteq> 0 \<and> tp \<noteq> 0)
     \<and> m_parameters d \<noteq> []
     \<and> (alias_target (m_resultType d) \<noteq> None \<longrightarrow> (\<forall>p\<in>set (m_parameters d). isKeyword (pi_flags p)))"

definition sanityCheckMethod :: "sym_env \<Rightarrow> sym_state \<Rightarrow> u32 \<Rightarrow> bool" where
  "sanityCheckMethod env s m = (let d = methods (symbols s) ! unat m in
     yields (enterMethodSymbol env (mainLoc (m_locs d)) (m_owner d) (m_name d) (m_nameLoc d)) m s
     \<and> params_sound (symbols s) d)"

definition sanityCheckField :: "sym_env \<Rightarrow> sym_state \<Rightarrow> u32 \<Rightarrow> bool" where
  "sanityCheckField env s f = (let d = symFields (symbols s) ! unat f in
     if bit (f_flags d) 0
     then yields (enterFieldSymbol env (mainLoc (f_locs d)) (f_owner d) (f_name d)) f s
       \<and> \<not> bit (f_flags d) 2 \<and> \<not> bit (f_flags d) 1 \<and> \<not> bit (f_flags d) 3
     else yields (enterStaticFieldSymbol env (mainLoc (f_locs d)) (f_owner d) (f_name d)) f s)"

text \<open>\<open>TypeParameter::variance\<close> raises when no flag is set.\<close>

definition varianceOf :: "u8 \<Rightarrow> variance option" where
  "varianceOf fl = (if bit fl 3 then Some Invariant else if bit fl 2 then Some CoVariant
     else if bit fl 4 then Some ContraVariant else None)"

definition sanityCheckTypeParameter :: "sym_env \<Rightarrow> sym_state \<Rightarrow> u32 \<Rightarrow> bool" where
  "sanityCheckTypeParameter env s r = (let d = typeParameters (symbols s) ! unat r in
     case varianceOf (tp_flags d) of None \<Rightarrow> False
     | Some v \<Rightarrow> yields (bindS (guardS (sym_kind (tp_owner d) = Some SK_Method) WrongKind) (\<lambda>u.
         enterTypeParameter env (mainLoc (tp_locs d)) (unsafeTableIndex (tp_owner d)) (tp_name d) v)) r s)"

definition sanityCheckTypeMember :: "sym_env \<Rightarrow> sym_state \<Rightarrow> u32 \<Rightarrow> bool" where
  "sanityCheckTypeMember env s r = (let d = typeMembers (symbols s) ! unat r in
     case varianceOf (tp_flags d) of None \<Rightarrow> False
     | Some v \<Rightarrow> yields (bindS (asClassOrModuleRef (tp_owner d)) (\<lambda>owner.
         enterTypeMember env (mainLoc (tp_locs d)) owner (tp_name d) v)) r s)"

end
