(* ===== verification/SymbolInvariant.thy ===== *)
theory SymbolInvariant
  imports SymbolTable
begin

text \<open>
  The invariant of the symbol table and that every operation keeps it.  It is what
  \<open>GlobalState::sanityCheck\<close> tests, that entering a symbol again finds it, together with what that rests
  on: members are in the tables and are owned by the class they are listed in, under their name.

  The invariant only looks at a view of the tables: their sizes, the owner and name of each symbol, the
  members of classes and the type parameters of methods.
\<close>

section \<open>The view\<close>

fun size_of :: "symbol_table \<Rightarrow> symbol_kind \<Rightarrow> nat" where
  "size_of t SK_ClassOrModule = length (classAndModules t)"
| "size_of t SK_Method = length (methods t)"
| "size_of t SK_FieldOrStaticField = length (symFields t)"
| "size_of t SK_TypeParameter = length (typeParameters t)"
| "size_of t SK_TypeMember = length (typeMembers t)"

definition in_table :: "symbol_table \<Rightarrow> u32 \<Rightarrow> bool" where
  "in_table t r \<longleftrightarrow> (\<exists>k. sym_kind r = Some k \<and> unat (unsafeTableIndex r) < size_of t k)"

definition memb :: "symbol_table \<Rightarrow> u32 \<Rightarrow> u32 \<Rightarrow> u32 option" where
  "memb t c n = (if unat c < length (classAndModules t) then map_of (c_members (classAndModules t ! unat c)) n else None)"

definition tparams :: "symbol_table \<Rightarrow> nat \<Rightarrow> u32 set" where
  "tparams t m = set (m_typeParameters (methods t ! m))"

abbreviation classRef :: "u32 \<Rightarrow> u32" where "classRef \<equiv> mkSymbolRef SK_ClassOrModule"

text \<open>A deleted symbol has the owner and the name of the missing symbol of its kind.\<close>

definition deleted :: "symbol_table \<Rightarrow> u32 \<Rightarrow> bool" where
  "deleted t r \<longleftrightarrow> (\<exists>k. sym_kind r = Some k \<and> ownerOf t r = ownerOf t (mkSymbolRef k 0) \<and> nameOf t r = nameOf t (mkSymbolRef k 0))"

definition pseudo :: "sym_env \<Rightarrow> u32 set" where
  "pseudo env = {Names_singleton env, Names_attached env}"

definition wf_sizes :: "symbol_table \<Rightarrow> bool" where
  "wf_sizes t \<longleftrightarrow> (\<forall>k. 0 < size_of t k \<and> size_of t k \<le> 2 ^ 29) \<and> 3 < size_of t SK_ClassOrModule"

definition wf_members :: "sym_env \<Rightarrow> symbol_table \<Rightarrow> bool" where
  "wf_members env t \<longleftrightarrow> (\<forall>c n r. memb t c n = Some r \<longrightarrow> n \<notin> pseudo env \<longrightarrow> sym_exists r \<longrightarrow>
     in_table t r \<and> nameOf t r = n \<and> ownerOf t r = classRef c)"

definition wf_pseudo :: "sym_env \<Rightarrow> symbol_table \<Rightarrow> bool" where
  "wf_pseudo env t \<longleftrightarrow> (\<forall>c n r. memb t c n = Some r \<longrightarrow> n \<in> pseudo env \<longrightarrow>
     sym_kind r = Some SK_ClassOrModule \<and> in_table t r)"

text \<open>The first four classes are created before the root.\<close>

definition must_be_listed :: "u32 \<Rightarrow> bool" where
  "must_be_listed r \<longleftrightarrow> sym_exists r \<and> sym_kind r \<noteq> Some SK_TypeParameter
     \<and> (sym_kind r = Some SK_ClassOrModule \<longrightarrow> 3 < unsafeTableIndex r)"

definition listed :: "sym_env \<Rightarrow> symbol_table \<Rightarrow> u32 \<Rightarrow> bool" where
  "listed env t r \<longleftrightarrow> nameOf t r \<notin> pseudo env \<and> memb t (unsafeTableIndex (ownerOf t r)) (nameOf t r) = Some r"

definition wf_listed :: "sym_env \<Rightarrow> symbol_table \<Rightarrow> bool" where
  "wf_listed env t \<longleftrightarrow> (\<forall>r. in_table t r \<longrightarrow> must_be_listed r \<longrightarrow> deleted t r \<or> listed env t r)"

definition owner_kind :: "u32 \<Rightarrow> symbol_kind" where
  "owner_kind r = (if sym_kind r = Some SK_TypeParameter then SK_Method else SK_ClassOrModule)"

definition wf_owners :: "symbol_table \<Rightarrow> bool" where
  "wf_owners t \<longleftrightarrow> (\<forall>r. in_table t r \<longrightarrow> r \<noteq> sym_root \<longrightarrow> in_table t (ownerOf t r) \<and> sym_kind (ownerOf t r) = Some (owner_kind r)
     \<and> (sym_kind r = Some SK_ClassOrModule \<longrightarrow> ownerOf t r = sym_root \<or> unsafeTableIndex (ownerOf t r) < unsafeTableIndex r))"

definition wf_tparams :: "symbol_table \<Rightarrow> bool" where
  "wf_tparams t \<longleftrightarrow> (\<forall>m < size_of t SK_Method. \<forall>r\<in>tparams t m. unat r < size_of t SK_TypeParameter)"

definition wf_symbols :: "sym_env \<Rightarrow> symbol_table \<Rightarrow> bool" where
  "wf_symbols env t \<longleftrightarrow> wf_sizes t \<and> wf_members env t \<and> wf_pseudo env t \<and> wf_listed env t \<and> wf_owners t \<and> wf_tparams t"

lemmas wf_defs = wf_symbols_def wf_sizes_def wf_members_def wf_pseudo_def wf_listed_def wf_owners_def wf_tparams_def

lemma wfD:
  assumes "wf_symbols env t"
  shows "wf_sizes t" "wf_members env t" "wf_pseudo env t" "wf_listed env t" "wf_owners t" "wf_tparams t"
    "0 < size_of t k" "size_of t k \<le> 2 ^ 29" "3 < size_of t SK_ClassOrModule"
  using assms by (auto simp: wf_symbols_def wf_sizes_def)

lemma wf_memberD:
  assumes "wf_symbols env t" "memb t c n = Some r" "n \<notin> pseudo env" "sym_exists r"
  shows "in_table t r" "nameOf t r = n" "ownerOf t r = classRef c"
  using wfD(2) [OF assms(1)] assms(2-4) by (simp_all add: wf_members_def)

text \<open>The invariant holds in a table with the same view.\<close>

definition same_view :: "symbol_table \<Rightarrow> symbol_table \<Rightarrow> bool" where
  "same_view t t' \<longleftrightarrow> size_of t' = size_of t \<and> memb t' = memb t
     \<and> (\<forall>r. in_table t r \<longrightarrow> ownerOf t' r = ownerOf t r \<and> nameOf t' r = nameOf t r)
     \<and> (\<forall>m < size_of t SK_Method. tparams t' m = tparams t m)"

lemma in_table_size: "size_of t' = size_of t \<Longrightarrow> in_table t' = in_table t"
  by (simp add: in_table_def fun_eq_iff)

lemma in_table_0: "0 < size_of t k \<Longrightarrow> in_table t (mkSymbolRef k 0)"
  unfolding in_table_def by (intro exI [of _ k]) (simp add: unsafeTableIndex_mkSymbolRef MAX_ID_def)

lemma deleted_cong:
  assumes "wf_sizes t" "\<forall>r. in_table t r \<longrightarrow> ownerOf t' r = ownerOf t r \<and> nameOf t' r = nameOf t r" "in_table t r"
  shows "deleted t' r = deleted t r"
proof -
  have "in_table t (mkSymbolRef k 0)" for k using assms(1) by (intro in_table_0) (simp add: wf_sizes_def)
  with assms(2,3) show ?thesis unfolding deleted_def by metis
qed

lemma wf_same_view:
  assumes "wf_symbols env t" "same_view t t'"
  shows "wf_symbols env t'"
proof -
  have sz: "size_of t' = size_of t" and mb: "memb t' = memb t" and tps: "\<forall>m < size_of t SK_Method. tparams t' m = tparams t m"
    and on: "\<forall>r. in_table t r \<longrightarrow> ownerOf t' r = ownerOf t r \<and> nameOf t' r = nameOf t r"
    using assms(2) by (auto simp: same_view_def)
  have it: "in_table t' = in_table t" by (rule in_table_size [OF sz])
  note del = deleted_cong [OF wfD(1) [OF assms(1)] on]
  have "wf_listed env t'"
    using wfD(4) [OF assms(1)] on del by (simp add: wf_listed_def listed_def it mb)
  moreover have "wf_owners t'"
    using wfD(5) [OF assms(1)] on by (simp add: wf_owners_def it)
  moreover have "wf_members env t'" "wf_pseudo env t'" "wf_sizes t'" "wf_tparams t'"
    using assms(1) on tps by (simp_all add: wf_defs it mb sz)
  ultimately show ?thesis by (simp add: wf_symbols_def)
qed

section \<open>A new symbol\<close>

definition new_ref :: "symbol_table \<Rightarrow> symbol_kind \<Rightarrow> u32" where
  "new_ref t k = mkSymbolRef k (of_nat (size_of t k))"

text \<open>\<open>t'\<close> is \<open>t\<close> with one more symbol of kind \<open>k\<close>, the member \<open>name\<close> of \<open>owner\<close>.\<close>

definition extends :: "symbol_table \<Rightarrow> symbol_kind \<Rightarrow> u32 \<Rightarrow> u32 \<Rightarrow> symbol_table \<Rightarrow> bool" where
  "extends t k owner name t' \<longleftrightarrow> size_of t' = (size_of t)(k := Suc (size_of t k))
     \<and> memb t' = (memb t)(owner := (memb t owner)(name \<mapsto> new_ref t k))
     \<and> (\<forall>r. in_table t r \<longrightarrow> ownerOf t' r = ownerOf t r \<and> nameOf t' r = nameOf t r)
     \<and> ownerOf t' (new_ref t k) = symbolRefOf SK_ClassOrModule owner \<and> nameOf t' (new_ref t k) = name
     \<and> (\<forall>m < size_of t SK_Method. tparams t' m = tparams t m)
     \<and> (k = SK_Method \<longrightarrow> tparams t' (size_of t k) = {})"

lemma small_index: "n < 2 ^ 29 \<Longrightarrow> of_nat n \<le> MAX_ID" "n < 2 ^ 29 \<Longrightarrow> unat (of_nat n :: u32) = n"
  by (simp_all add: MAX_ID_def word_le_nat_alt)

lemma new_ref_facts:
  assumes "size_of t k < 2 ^ 29"
  shows "sym_kind (new_ref t k) = Some k" "unsafeTableIndex (new_ref t k) = of_nat (size_of t k)"
    "\<not> in_table t (new_ref t k)" "unat (unsafeTableIndex (new_ref t k)) = size_of t k"
proof -
  show k: "sym_kind (new_ref t k) = Some k" by (simp add: new_ref_def)
  show i: "unsafeTableIndex (new_ref t k) = of_nat (size_of t k)"
    using small_index [OF assms] by (simp add: new_ref_def unsafeTableIndex_mkSymbolRef)
  show u: "unat (unsafeTableIndex (new_ref t k)) = size_of t k"
    using small_index [OF assms] by (simp add: i)
  show "\<not> in_table t (new_ref t k)" using k u by (simp add: in_table_def)
qed

lemma in_table_extends:
  assumes "size_of t' = (size_of t)(k := Suc (size_of t k))" "size_of t k < 2 ^ 29"
  shows "in_table t' r \<longleftrightarrow> in_table t r \<or> r = new_ref t k"
proof -
  have "r = new_ref t k" if "sym_kind r = Some k" "unat (unsafeTableIndex r) = size_of t k"
    using mkSymbolRef_surj(1) [OF that(1)] that(2) by (simp add: new_ref_def flip: that(2))
  then show ?thesis
    using new_ref_facts [OF assms(2)] by (auto simp: in_table_def assms(1) less_Suc_eq split: if_splits)
qed

lemma classRef_in_table: "unat c < size_of t SK_ClassOrModule \<Longrightarrow> size_of t SK_ClassOrModule \<le> 2 ^ 29 \<Longrightarrow>
    in_table t (classRef c) \<and> unsafeTableIndex (classRef c) = c"
  by (simp add: in_table_def unsafeTableIndex_mkSymbolRef MAX_ID_def word_le_nat_alt)

lemma classRef_small: "unat c < size_of t SK_ClassOrModule \<Longrightarrow> size_of t SK_ClassOrModule \<le> 2 ^ 29 \<Longrightarrow>
    symbolRefOf SK_ClassOrModule c = classRef c"
  by (intro symbolRefOf_small) (simp add: MAX_ID_def word_le_nat_alt)

lemma memb_bound: "memb t c n = Some r \<Longrightarrow> unat c < length (classAndModules t)"
  by (simp add: memb_def split: if_splits)

lemma wf_extends:
  assumes wf: "wf_symbols env t" and ext: "extends t k owner name t'" and small: "size_of t k < 2 ^ 29"
    and k: "k \<noteq> SK_TypeParameter" and owner: "unat owner < size_of t SK_ClassOrModule"
    and name: "name \<notin> pseudo env" and new: "\<And>r. memb t owner name = Some r \<Longrightarrow> \<not> sym_exists r"
  shows "wf_symbols env t'"
proof -
  let ?n = "new_ref t k"
  have sz: "size_of t' = (size_of t)(k := Suc (size_of t k))"
    and mb: "memb t' = (memb t)(owner := (memb t owner)(name \<mapsto> ?n))"
    and on: "\<forall>r. in_table t r \<longrightarrow> ownerOf t' r = ownerOf t r \<and> nameOf t' r = nameOf t r"
    and on': "ownerOf t' ?n = classRef owner" "nameOf t' ?n = name"
    and tp: "\<forall>m < size_of t SK_Method. tparams t' m = tparams t m" "k = SK_Method \<longrightarrow> tparams t' (size_of t k) = {}"
    using ext classRef_small [OF owner wfD(8) [OF wf]] by (auto simp: extends_def)
  note it = in_table_extends [OF sz small] and nf = new_ref_facts [OF small]
  note cr = classRef_in_table [OF owner wfD(8) [OF wf]]
  note del = deleted_cong [OF wfD(1) [OF wf] on]
  have "wf_sizes t'"
    using wfD(1) [OF wf] small by (auto simp: wf_sizes_def sz)
  moreover have "wf_members env t'"
    using wfD(2) [OF wf] on on' name by (auto simp: wf_members_def mb it)
  moreover have "wf_pseudo env t'"
    using wfD(3) [OF wf] name by (auto simp: wf_pseudo_def mb it)
  moreover have "wf_listed env t'"
    unfolding wf_listed_def
  proof (intro allI impI)
    fix r assume r: "in_table t' r" "must_be_listed r"
    show "deleted t' r \<or> listed env t' r"
    proof (cases "r = ?n")
      case True
      then show ?thesis using on' name cr by (simp add: listed_def mb)
    next
      case False
      then have inr: "in_table t r" using r(1) it by blast
      then have "deleted t r \<or> listed env t r" using wfD(4) [OF wf] r(2) by (simp add: wf_listed_def)
      moreover have "sym_exists r" using r(2) by (simp add: must_be_listed_def)
      ultimately show ?thesis
        using del [OF inr] on inr new by (auto simp: listed_def mb)
    qed
  qed
  moreover have "wf_owners t'"
  proof -
    have "unat (unsafeTableIndex (classRef owner)) < unat (unsafeTableIndex ?n)" if "k = SK_ClassOrModule"
      using that owner cr nf(4) by simp
    then have "unsafeTableIndex (classRef owner) < unsafeTableIndex ?n" if "k = SK_ClassOrModule"
      using that by (simp add: word_less_nat_alt)
    then show ?thesis
      using wfD(5) [OF wf] on on' k cr nf(1) by (auto simp: wf_owners_def it owner_kind_def)
  qed
  moreover have "wf_tparams t'"
    using wfD(6) [OF wf] tp by (auto simp: wf_tparams_def sz less_Suc_eq)
  ultimately show ?thesis by (simp add: wf_symbols_def)
qed

section \<open>How the updates change the view\<close>

named_theorems view_simps

lemma size_upd [view_simps]:
  "size_of (updClass c f t) = size_of t" "size_of (updMethod m g t) = size_of t"
  "size_of (updField i h t) = size_of t" "size_of (updTypeMember i j t) = size_of t"
  "size_of (setMember c n r t) = size_of t" "size_of (eraseMember c n t) = size_of t"
  by (rule ext, rename_tac k, case_tac k;
      simp add: updClass_def updMethod_def updField_def updTypeMember_def setMember_def eraseMember_def)+

lemma nth_update_same: "(\<And>x. g (f x) = g x) \<Longrightarrow> g (xs[i := f (xs ! i)] ! j) = g (xs ! j)"
  by (cases "i < length xs"; cases "i = j") (auto simp: list_update_beyond)

lemma same_key_updClass:
  assumes "\<And>d. c_owner (f d) = c_owner d" "\<And>d. c_name (f d) = c_name d"
  shows "ownerOf (updClass c f t) = ownerOf t" "nameOf (updClass c f t) = nameOf t" "tparams (updClass c f t) = tparams t"
  using assms by (auto simp: fun_eq_iff ownerOf_def nameOf_def tparams_def updClass_def Let_def
      nth_update_same [where g = c_owner] nth_update_same [where g = c_name] split: option.split symbol_kind.split)

lemma same_key_updMethod:
  assumes "\<And>d. m_owner (f d) = m_owner d" "\<And>d. m_name (f d) = m_name d" "\<And>d. m_typeParameters (f d) = m_typeParameters d"
  shows "same_view t (updMethod m f t)"
  unfolding same_view_def size_upd
  using assms by (auto simp: fun_eq_iff ownerOf_def nameOf_def tparams_def memb_def updMethod_def Let_def
      nth_update_same [where g = m_owner] nth_update_same [where g = m_name] nth_update_same [where g = m_typeParameters] split: option.split symbol_kind.split)

lemma same_key_updField:
  assumes "\<And>d. f_owner (f d) = f_owner d" "\<And>d. f_name (f d) = f_name d"
  shows "same_view t (updField m f t)"
  unfolding same_view_def size_upd
  using assms by (auto simp: fun_eq_iff ownerOf_def nameOf_def tparams_def memb_def updField_def Let_def
      nth_update_same [where g = f_owner] nth_update_same [where g = f_name] split: option.split symbol_kind.split)

lemma same_key_updTypeMember:
  assumes "\<And>d. tp_owner (f d) = tp_owner d" "\<And>d. tp_name (f d) = tp_name d"
  shows "same_view t (updTypeMember m f t)"
  unfolding same_view_def size_upd
  using assms by (auto simp: fun_eq_iff ownerOf_def nameOf_def tparams_def memb_def updTypeMember_def Let_def
      nth_update_same [where g = tp_owner] nth_update_same [where g = tp_name] split: option.split symbol_kind.split)

lemma memb_updClass: "(\<And>d. c_members (f d) = c_members d) \<Longrightarrow> memb (updClass c f t) = memb t"
  by (simp add: fun_eq_iff memb_def updClass_def nth_update_same [where g = c_members])

lemma same_view_updClass:
  "(\<And>d. c_owner (f d) = c_owner d) \<Longrightarrow> (\<And>d. c_name (f d) = c_name d) \<Longrightarrow> (\<And>d. c_members (f d) = c_members d)
    \<Longrightarrow> same_view t (updClass c f t)"
  by (simp add: same_view_def view_simps same_key_updClass memb_updClass)

lemma memb_setMember [view_simps]:
  "unat c < length (classAndModules t) \<Longrightarrow> memb (setMember c n r t) = (memb t)(c := (memb t c)(n \<mapsto> r))"
  by (intro ext) (simp add: memb_def setMember_def updClass_def nth_list_update update_conv flip: word_unat_eq_iff)

lemma memb_eraseMember [view_simps]: "memb (eraseMember c n t) = (memb t)(c := (memb t c)(n := None))"
  by (intro ext) (simp add: memb_def eraseMember_def updClass_def nth_list_update delete_conv flip: word_unat_eq_iff)

lemma setMember_keys [view_simps]:
  "ownerOf (setMember c n r t) = ownerOf t" "nameOf (setMember c n r t) = nameOf t" "tparams (setMember c n r t) = tparams t"
  "ownerOf (eraseMember c n t) = ownerOf t" "nameOf (eraseMember c n t) = nameOf t" "tparams (eraseMember c n t) = tparams t"
  unfolding setMember_def eraseMember_def by (rule same_key_updClass; simp)+

lemma setMember_tables [simp]:
  "methods (setMember c n r t) = methods t" "symFields (setMember c n r t) = symFields t"
  "typeParameters (setMember c n r t) = typeParameters t" "typeMembers (setMember c n r t) = typeMembers t"
  "length (classAndModules (setMember c n r t)) = length (classAndModules t)"
  by (simp_all add: setMember_def updClass_def)

lemma same_view_refl: "same_view t t"
  by (simp add: same_view_def)

lemma same_view_trans: "same_view t t1 \<Longrightarrow> same_view t1 t2 \<Longrightarrow> same_view t t2"
  using in_table_size [of t1 t] by (simp add: same_view_def)

lemma extends_same_view:
  assumes "extends t k owner name t1" "same_view t1 t2" "size_of t k < 2 ^ 29"
  shows "extends t k owner name t2"
proof -
  have sz: "size_of t1 = (size_of t)(k := Suc (size_of t k))" using assms(1) by (simp add: extends_def)
  note it = in_table_extends [OF sz assms(3)]
  show ?thesis
    using assms(1,2) by (auto simp: extends_def same_view_def it)
qed

lemma extends_updClass:
  assumes "extends t k owner name t1" "size_of t k < 2 ^ 29"
    "\<And>d. c_owner (f d) = c_owner d" "\<And>d. c_name (f d) = c_name d" "\<And>d. c_members (f d) = c_members d"
  shows "extends t k owner name (updClass c f t1)"
  using extends_same_view [OF assms(1) same_view_updClass assms(2)] assms(3-5) .

subsection \<open>Appending to a table\<close>

definition appendTo :: "symbol_kind \<Rightarrow> class_or_module \<Rightarrow> method_sym \<Rightarrow> field \<Rightarrow> type_parameter \<Rightarrow> symbol_table \<Rightarrow> symbol_table" where
  "appendTo k c m f p t = (case k of
     SK_ClassOrModule \<Rightarrow> t\<lparr>classAndModules := classAndModules t @ [c]\<rparr>
   | SK_Method \<Rightarrow> t\<lparr>methods := methods t @ [m]\<rparr>
   | SK_FieldOrStaticField \<Rightarrow> t\<lparr>symFields := symFields t @ [f]\<rparr>
   | SK_TypeParameter \<Rightarrow> t\<lparr>typeParameters := typeParameters t @ [p]\<rparr>
   | SK_TypeMember \<Rightarrow> t\<lparr>typeMembers := typeMembers t @ [p]\<rparr>)"

lemma size_append: "size_of (appendTo k c m f p t) = (size_of t)(k := Suc (size_of t k))"
  by (rule ext, rename_tac j, case_tac j; cases k; simp add: appendTo_def)

lemma keys_append:
  assumes "in_table t r"
  shows "ownerOf (appendTo k c m f p t) r = ownerOf t r" "nameOf (appendTo k c m f p t) r = nameOf t r"
proof -
  obtain j where j: "sym_kind r = Some j" "unat (unsafeTableIndex r) < size_of t j"
    using assms by (auto simp: in_table_def)
  show "ownerOf (appendTo k c m f p t) r = ownerOf t r" "nameOf (appendTo k c m f p t) r = nameOf t r"
    using j by (cases k; cases j; simp add: appendTo_def ownerOf_def nameOf_def nth_append)+
qed

lemma tparams_append: "i < length (methods t) \<Longrightarrow> tparams (appendTo k c m f p t) i = tparams t i"
  by (cases k) (simp_all add: appendTo_def tparams_def nth_append)

lemma memb_append: "c_members c = [] \<Longrightarrow> memb (appendTo k c m f p t) d n = memb t d n"
  by (cases k) (simp_all add: appendTo_def memb_def nth_append)

lemma new_keys:
  assumes "size_of t k < 2 ^ 29"
  shows "ownerOf (appendTo k c m f p t) (new_ref t k) = (case k of SK_ClassOrModule \<Rightarrow> symbolRefOf SK_ClassOrModule (c_owner c)
        | SK_Method \<Rightarrow> symbolRefOf SK_ClassOrModule (m_owner m)
        | SK_FieldOrStaticField \<Rightarrow> symbolRefOf SK_ClassOrModule (f_owner f) | _ \<Rightarrow> tp_owner p)"
    "nameOf (appendTo k c m f p t) (new_ref t k) = (case k of SK_ClassOrModule \<Rightarrow> c_name c
        | SK_Method \<Rightarrow> m_name m | SK_FieldOrStaticField \<Rightarrow> f_name f | _ \<Rightarrow> tp_name p)"
  using new_ref_facts [OF assms] by (cases k; simp add: appendTo_def ownerOf_def nameOf_def Let_def)+

lemma extends_append:
  assumes "size_of t k < 2 ^ 29" "k \<noteq> SK_TypeParameter" "unat owner < length (classAndModules t)"
    and "c_owner c = owner" "c_name c = name" "c_members c = []"
    and "m_owner m = owner" "m_name m = name" "m_typeParameters m = []"
    and "f_owner f = owner" "f_name f = name" "tp_owner p = symbolRefOf SK_ClassOrModule owner" "tp_name p = name"
  shows "extends t k owner name (appendTo k c m f p (setMember owner name (new_ref t k) t))"
proof -
  let ?t = "setMember owner name (new_ref t k) t"
  have sz: "size_of ?t = size_of t" by (simp add: view_simps)
  have nr: "new_ref ?t k = new_ref t k" by (simp add: new_ref_def view_simps)
  have it: "in_table ?t = in_table t" by (rule in_table_size [OF sz])
  have tp: "tparams (appendTo k c m f p ?t) (size_of t k) = {}" if "k = SK_Method"
    using that assms(9) by (simp add: appendTo_def tparams_def)
  note keys = new_keys [of ?t k, unfolded nr sz, OF assms(1)]
  show ?thesis
    unfolding extends_def
    using assms keys_append [of ?t] keys tp tparams_append [of _ ?t]
    by (auto simp: size_append sz it memb_append view_simps fun_eq_iff split: symbol_kind.split)
qed

section \<open>What entering a symbol does\<close>

text \<open>Either the class has the member already and nothing of the view changes, or a new symbol is
  appended.\<close>

definition entered :: "symbol_kind \<Rightarrow> u32 \<Rightarrow> u32 \<Rightarrow> sym_state \<Rightarrow> u32 \<Rightarrow> sym_state \<Rightarrow> bool" where
  "entered k owner name s r s' \<longleftrightarrow>
     names s' = names s \<and> symbolTableFrozen s' = symbolTableFrozen s \<and> classBoundary s' = classBoundary s
   \<and> unat owner < size_of (symbols s) SK_ClassOrModule
   \<and> (r \<noteq> 0 \<and> r \<le> MAX_ID \<and> memb (symbols s) owner name = Some (mkSymbolRef k r) \<and> same_view (symbols s) (symbols s')
      \<or> (\<forall>old. memb (symbols s) owner name = Some old \<longrightarrow> \<not> sym_exists old) \<and> \<not> symbolTableFrozen s
         \<and> size_of (symbols s) k < 2 ^ 29 \<and> r = of_nat (size_of (symbols s) k)
         \<and> extends (symbols s) k owner name (symbols s'))"

definition stored :: "symbol_table \<Rightarrow> u32 \<Rightarrow> u32 \<Rightarrow> u32" where
  "stored t owner name = (case memb t owner name of Some r \<Rightarrow> r | None \<Rightarrow> 0)"

lemma storeOf_memb:
  "storeOf owner name s = Inr (r, s') \<longleftrightarrow> unat owner < length (classAndModules (symbols s))
     \<and> r = stored (symbols s) owner name \<and> s' = s"
  by (auto simp: storeOf_def effects_defs classAt_def stored_def memb_def Let_def)

lemma not_sym_exists_0 [simp]: "\<not> sym_exists 0"
  by (simp add: sym_exists_def unsafeTableIndex_def)

lemma stored_exists: "sym_exists (stored t owner name) \<Longrightarrow> memb t owner name = Some (stored t owner name)"
  by (cases "memb t owner name") (auto simp: stored_def)

lemma stored_missing: "\<not> sym_exists (stored t owner name) \<longleftrightarrow> (\<forall>r. memb t owner name = Some r \<longrightarrow> \<not> sym_exists r)"
  by (cases "memb t owner name") (auto simp: stored_def)

lemma found_entered:
  assumes "sym_exists (stored (symbols s) owner name)"
    and "sym_kind (stored (symbols s) owner name) = Some k" "unat owner < length (classAndModules (symbols s))" "same_view (symbols s) t'"
  shows "entered k owner name s (unsafeTableIndex (stored (symbols s) owner name)) (s\<lparr>symbols := t'\<rparr>)"
  using stored_exists [OF assms(1)] mkSymbolRef_surj [OF assms(2)] assms
  by (simp add: entered_def sym_exists_def)

lemma found_again:
  assumes "sym_exists (stored (symbols s) owner name)"
    "sym_kind (stored (symbols s) owner name) = Some k" "unat owner < length (classAndModules (symbols s))"
  shows "entered k owner name s (unsafeTableIndex (stored (symbols s) owner name)) s"
  using found_entered [OF assms same_view_refl] by simp

lemma newIndex_Inr: "newIndex tab s = Inr (r, s') \<longleftrightarrow> \<not> symbolTableFrozen s \<and> length (tab (symbols s)) < 2 ^ 29
    \<and> r = of_nat (length (tab (symbols s))) \<and> s' = s"
  by (auto simp: newIndex_def Let_def MAX_ID_def)

lemma new_entered:
  assumes "\<not> sym_exists (stored (symbols s) owner name)" "\<not> symbolTableFrozen s"
    "unat owner < length (classAndModules (symbols s))" "size_of (symbols s) k < 2 ^ 29" "r = of_nat (size_of (symbols s) k)"
    "extends (symbols s) k owner name t'"
  shows "entered k owner name s r (s\<lparr>symbols := t'\<rparr>)"
  using assms by (auto simp: entered_def stored_missing)

text \<open>Successful steps of a sequence.\<close>

lemma bindS_InrE:
  assumes "bindS m k s = Inr (x, s'')"
  obtains y s' where "m s = Inr (y, s')" "k y s' = Inr (x, s'')"
  using assms by (auto simp: bindS_def split: sum.splits)

lemma bindS_run: "m s = Inr (y, s') \<Longrightarrow> bindS m k s = k y s'"
  by (simp add: bindS_def)

lemma guardS_Inr: "guardS b e s = Inr (u, s') \<longleftrightarrow> b \<and> s' = s"
  by (auto simp: guardS_def returnS_def failS_def)

lemma simple_Inr:
  "returnS x s = Inr (y, s') \<longleftrightarrow> y = x \<and> s' = s" "failS e s = Inr (y, s') \<longleftrightarrow> False"
  "readS f s = Inr (y, s') \<longleftrightarrow> y = f s \<and> s' = s" "modifyS g s = Inr (u, s') \<longleftrightarrow> s' = g s"
  "modifyTables h s = Inr (u, s') \<longleftrightarrow> s' = s\<lparr>symbols := h (symbols s)\<rparr>"
  by (auto simp: effects_defs modifyTables_def)

lemma at_Inr:
  "classAt c s = Inr (d, s') \<longleftrightarrow> unat c < length (classAndModules (symbols s)) \<and> d = classAndModules (symbols s) ! unat c \<and> s' = s"
  "methodAt c s = Inr (m, s') \<longleftrightarrow> unat c < length (methods (symbols s)) \<and> m = methods (symbols s) ! unat c \<and> s' = s"
  "fieldAt c s = Inr (f, s') \<longleftrightarrow> unat c < length (symFields (symbols s)) \<and> f = symFields (symbols s) ! unat c \<and> s' = s"
  "typeMemberAt c s = Inr (p, s') \<longleftrightarrow> unat c < length (typeMembers (symbols s)) \<and> p = typeMembers (symbols s) ! unat c \<and> s' = s"
  by (auto simp: classAt_def methodAt_def fieldAt_def typeMemberAt_def Let_def)

lemmas op_Inr = guardS_Inr simple_Inr at_Inr newIndex_Inr storeOf_memb

lemma extends_method:
  assumes "length (methods t) < 2 ^ 29" "unat owner < length (classAndModules t)"
    "m_owner m = owner" "m_name m = name" "m_typeParameters m = []"
  shows "extends t SK_Method owner name ((setMember owner name (mkSymbolRef SK_Method (of_nat (length (methods t)))) t)\<lparr>methods := methods t @ [m]\<rparr>)"
  using extends_append [of t SK_Method owner "emptyClass\<lparr>c_owner := owner, c_name := name\<rparr>" name m
      "emptyField\<lparr>f_owner := owner, f_name := name\<rparr>" "emptyTypeParameter\<lparr>tp_owner := symbolRefOf SK_ClassOrModule owner, tp_name := name\<rparr>"] assms
  by (simp add: appendTo_def new_ref_def emptyClass_def emptyField_def emptyTypeParameter_def)

lemma enterMethodSymbol_entered:
  assumes "enterMethodSymbol env l owner name nameLoc s = Inr (r, s')"
  shows "entered SK_Method owner name s r s'"
  using assms unfolding enterMethodSymbol_def
  by (auto elim!: bindS_InrE simp: op_Inr emptyMethod_def split: if_splits
      intro!: found_again new_entered extends_method)

lemma extends_field:
  assumes "length (symFields t) < 2 ^ 29" "unat owner < length (classAndModules t)" "f_owner f = owner" "f_name f = name"
  shows "extends t SK_FieldOrStaticField owner name
     ((setMember owner name (mkSymbolRef SK_FieldOrStaticField (of_nat (length (symFields t)))) t)\<lparr>symFields := symFields t @ [f]\<rparr>)"
  using extends_append [of t SK_FieldOrStaticField owner "emptyClass\<lparr>c_owner := owner, c_name := name\<rparr>" name
      "emptyMethod\<lparr>m_owner := owner, m_name := name\<rparr>" f "emptyTypeParameter\<lparr>tp_owner := symbolRefOf SK_ClassOrModule owner, tp_name := name\<rparr>"] assms
  by (simp add: appendTo_def new_ref_def emptyClass_def emptyMethod_def emptyTypeParameter_def)

lemma enterFieldSymbol_entered:
  assumes "enterFieldSymbol env l owner name s = Inr (r, s')"
  shows "entered SK_FieldOrStaticField owner name s r s'"
  using assms unfolding enterFieldSymbol_def
  by (auto elim!: bindS_InrE simp: op_Inr emptyField_def split: if_splits
      intro!: found_again new_entered extends_field)

lemma enterStaticFieldSymbol_entered:
  assumes "enterStaticFieldSymbol env l owner name s = Inr (r, s')"
  shows "entered SK_FieldOrStaticField owner name s r s'"
  using assms unfolding enterStaticFieldSymbol_def
  by (auto elim!: bindS_InrE simp: op_Inr emptyField_def split: if_splits
      intro!: found_again found_entered new_entered extends_field same_key_updField)

lemma extends_type_member:
  assumes "length (typeMembers t) < 2 ^ 29" "unat owner < length (classAndModules t)" "tp_owner f = symbolRefOf SK_ClassOrModule owner" "tp_name f = name"
  shows "extends t SK_TypeMember owner name
     ((setMember owner name (mkSymbolRef SK_TypeMember (of_nat (length (typeMembers t)))) t)\<lparr>typeMembers := typeMembers t @ [f]\<rparr>)"
  using extends_append [of t SK_TypeMember owner "emptyClass\<lparr>c_owner := owner, c_name := name\<rparr>" name
      "emptyMethod\<lparr>m_owner := owner, m_name := name\<rparr>" "emptyField\<lparr>f_owner := owner, f_name := name\<rparr>" f] assms
  by (simp add: appendTo_def new_ref_def emptyClass_def emptyMethod_def emptyField_def)

lemma enterTypeMember_entered:
  assumes "enterTypeMember env l owner name v s = Inr (r, s')"
  shows "entered SK_TypeMember owner name s r s'"
  using assms unfolding enterTypeMember_def Let_def
  by (auto elim!: bindS_InrE simp: op_Inr emptyTypeParameter_def split: if_splits
      intro!: found_again new_entered extends_updClass extends_type_member)

lemma extends_class:
  assumes "length (classAndModules t) < 2 ^ 29" "unat owner < length (classAndModules t)"
    "c_owner f = owner" "c_name f = name" "c_members f = []"
  shows "extends t SK_ClassOrModule owner name
     ((setMember owner name (classRef (of_nat (length (classAndModules t)))) t)\<lparr>classAndModules :=
        classAndModules (setMember owner name (classRef (of_nat (length (classAndModules t)))) t) @ [f]\<rparr>)"
  using extends_append [of t SK_ClassOrModule owner f name "emptyMethod\<lparr>m_owner := owner, m_name := name\<rparr>"
      "emptyField\<lparr>f_owner := owner, f_name := name\<rparr>" "emptyTypeParameter\<lparr>tp_owner := symbolRefOf SK_ClassOrModule owner, tp_name := name\<rparr>"] assms
  by (simp add: appendTo_def new_ref_def emptyMethod_def emptyField_def emptyTypeParameter_def)

lemma packageInfo_pure: "packageInfoForClassOrModule env owner name s = Inr (x, s') \<Longrightarrow> s' = s"
  unfolding packageInfoForClassOrModule_def Let_def
  by (auto elim!: bindS_InrE simp: op_Inr split: if_splits sum.splits)

lemma enterClassOrModuleSymbol_entered:
  assumes "enterClassOrModuleSymbol env l owner name s = Inr (r, s')"
  shows "entered SK_ClassOrModule owner name s r s'"
  using assms unfolding enterClassOrModuleSymbol_def
  by (auto elim!: bindS_InrE simp: op_Inr emptyClass_def split: if_splits dest!: packageInfo_pure
      intro!: found_again new_entered extends_updClass extends_class)

lemma enteredE:
  assumes "entered k owner name s r s'"
  obtains (old) "r \<noteq> 0" "r \<le> MAX_ID" "memb (symbols s) owner name = Some (mkSymbolRef k r)" "same_view (symbols s) (symbols s')"
    | (new) "\<And>old. memb (symbols s) owner name = Some old \<Longrightarrow> \<not> sym_exists old" "\<not> symbolTableFrozen s"
      "size_of (symbols s) k < 2 ^ 29" "r = of_nat (size_of (symbols s) k)" "extends (symbols s) k owner name (symbols s')"
  using assms unfolding entered_def by blast

lemma entered_owner: "entered k owner name s r s' \<Longrightarrow> unat owner < size_of (symbols s) SK_ClassOrModule"
  by (simp add: entered_def)

lemma entered_wf:
  assumes "wf_symbols env (symbols s)" "entered k owner name s r s'" "name \<notin> pseudo env" "k \<noteq> SK_TypeParameter"
  shows "wf_symbols env (symbols s')"
  using assms(2)
proof (cases rule: enteredE)
  case old
  then show ?thesis using wf_same_view [OF assms(1)] by blast
next
  case new
  show ?thesis
    by (rule wf_extends [OF assms(1) new(5,3) assms(4) entered_owner [OF assms(2)] assms(3) new(1)])
qed

lemma entered_found:
  assumes "wf_symbols env (symbols s)" "entered k owner name s r s'" "name \<notin> pseudo env"
  shows "memb (symbols s') = (memb (symbols s))(owner := (memb (symbols s) owner)(name \<mapsto> mkSymbolRef k r))"
    "r \<noteq> 0" "unat r < size_of (symbols s') k" "r \<le> MAX_ID" "unat owner < size_of (symbols s') SK_ClassOrModule"
proof -
  have "memb (symbols s') = (memb (symbols s))(owner := (memb (symbols s) owner)(name \<mapsto> mkSymbolRef k r))
      \<and> r \<noteq> 0 \<and> unat r < size_of (symbols s') k \<and> r \<le> MAX_ID \<and> unat owner < size_of (symbols s') SK_ClassOrModule"
    using assms(2)
  proof (cases rule: enteredE)
    case old
    have "sym_exists (mkSymbolRef k r)" using old(1,2) by (simp add: sym_exists_mkSymbolRef)
    then have "in_table (symbols s) (mkSymbolRef k r)"
      using wfD(2) [OF assms(1)] old(3) assms(3) by (simp add: wf_members_def)
    then have "unat r < size_of (symbols s) k" using old(2) by (simp add: in_table_def unsafeTableIndex_mkSymbolRef)
    moreover have "(memb (symbols s))(owner := (memb (symbols s) owner)(name \<mapsto> mkSymbolRef k r)) = memb (symbols s)"
      using old(3) by (auto simp: fun_eq_iff)
    ultimately show ?thesis
      using old entered_owner [OF assms(2)] by (auto simp: same_view_def)
  next
    case new
    note i = small_index [OF new(3)] and wfD(7) [OF assms(1), of k]
    then have "r \<noteq> 0" using new(4) by (metis less_irrefl unat_0)
    then show ?thesis
      using new(3-5) i entered_owner [OF assms(2)] by (simp add: extends_def new_ref_def)
  qed
  then show "memb (symbols s') = (memb (symbols s))(owner := (memb (symbols s) owner)(name \<mapsto> mkSymbolRef k r))"
    "r \<noteq> 0" "unat r < size_of (symbols s') k" "r \<le> MAX_ID" "unat owner < size_of (symbols s') SK_ClassOrModule"
    by blast+
qed

section \<open>The contract of the functions that enter symbols\<close>

text \<open>\<open>accepts\<close> is what a function demands of a symbol it finds (the flags of fields and type members).\<close>

locale symbol_entry =
  fixes kind :: symbol_kind
    and accepts :: "'x \<Rightarrow> symbol_table \<Rightarrow> u32 \<Rightarrow> bool"
    and enter :: "'x \<Rightarrow> u32 \<Rightarrow> u32 \<Rightarrow> u32 sym"
  assumes kind: "kind \<noteq> SK_TypeParameter"
    and enter_entered: "enter x owner name s = Inr (r, s') \<Longrightarrow> entered kind owner name s r s'"
    and enter_accepts: "enter x owner name s = Inr (r, s') \<Longrightarrow> accepts x (symbols s') r"
    and enter_found: "unat owner < size_of (symbols s) SK_ClassOrModule \<Longrightarrow> memb (symbols s) owner name = Some (mkSymbolRef kind r)
      \<Longrightarrow> r \<noteq> 0 \<Longrightarrow> r \<le> MAX_ID \<Longrightarrow> unat r < size_of (symbols s) kind \<Longrightarrow> accepts x (symbols s) r
      \<Longrightarrow> \<exists>s'. enter x owner name s = Inr (r, s')"
begin

lemma enter_keeps_wf:
  "wf_symbols env (symbols s) \<Longrightarrow> enter x owner name s = Inr (r, s') \<Longrightarrow> name \<notin> pseudo env \<Longrightarrow> wf_symbols env (symbols s')"
  using entered_wf [OF _ enter_entered _ kind] .

lemma enter_then_find:
  assumes "wf_symbols env (symbols s)" "enter x owner name s = Inr (r, s')" "name \<notin> pseudo env"
  shows "memb (symbols s') = (memb (symbols s))(owner := (memb (symbols s) owner)(name \<mapsto> mkSymbolRef kind r))"
    "sym_exists (mkSymbolRef kind r)"
  using entered_found [OF assms(1) enter_entered [OF assms(2)] assms(3)] by (auto simp: sym_exists_mkSymbolRef)

text \<open>Entering a symbol again finds it: the test of \<open>sanityCheck\<close>.\<close>

lemma enter_again:
  assumes "wf_symbols env (symbols s)" "enter x owner name s = Inr (r, s')" "name \<notin> pseudo env"
  shows "\<exists>s''. enter x owner name s' = Inr (r, s'') \<and> same_view (symbols s') (symbols s'')"
proof -
  note f = entered_found [OF assms(1) enter_entered [OF assms(2)] assms(3)]
  obtain s'' where s'': "enter x owner name s' = Inr (r, s'')"
    using enter_found [of owner s' name r x] f enter_accepts [OF assms(2)] by auto
  from enter_entered [OF this] have "same_view (symbols s') (symbols s'')"
    by (cases rule: enteredE) (use f in \<open>auto simp: sym_exists_mkSymbolRef\<close>)
  with s'' show ?thesis by blast
qed

lemma enter_distinct:
  assumes wf: "wf_symbols env (symbols s)" and e1: "enter x owner name s = Inr (r, s')" and e2: "enter y owner' name' s' = Inr (r', s'')"
    and names: "name \<notin> pseudo env" "name' \<notin> pseudo env" and ne: "(owner, name) \<noteq> (owner', name')"
  shows "r \<noteq> r'"
proof
  assume "r = r'"
  note wf' = enter_keeps_wf [OF wf e1 names(1)]
  note f = entered_found [OF wf enter_entered [OF e1] names(1)] and f' = entered_found [OF wf' enter_entered [OF e2] names(2)]
  note wf'' = enter_keeps_wf [OF wf' e2 names(2)]
  have ex: "sym_exists (mkSymbolRef kind r)" using f by (simp add: sym_exists_mkSymbolRef)
  have m: "memb (symbols s'') owner name = Some (mkSymbolRef kind r)" "memb (symbols s'') owner' name' = Some (mkSymbolRef kind r)"
    using f(1) f'(1) ne \<open>r = r'\<close> by auto
  note d = wf_memberD [OF wf'' m(1) names(1) ex] wf_memberD [OF wf'' m(2) names(2) ex]
  have "unat owner < 2 ^ 29" "unat owner' < 2 ^ 29"
    using memb_bound [OF m(1)] memb_bound [OF m(2)] wfD(8) [OF wf'', of SK_ClassOrModule] by auto
  then have "owner \<le> MAX_ID" "owner' \<le> MAX_ID" by (simp_all add: MAX_ID_def word_le_nat_alt)
  with d(3,6) have "owner = owner'" by (simp add: mkSymbolRef_inject)
  with ne d(2,5) show False by simp
qed

end

lemma stored_eq: "memb t owner name = Some r \<Longrightarrow> stored t owner name = r"
  by (simp add: stored_def)

text \<open>How the functions run on a member they find.\<close>

lemmas found_run = bindS_def storeOf_memb [THEN iffD2] guardS_def returnS_def readS_def stored_eq
  sym_exists_mkSymbolRef unsafeTableIndex_mkSymbolRef

interpretation class_entry: symbol_entry SK_ClassOrModule "\<lambda>x t r. True" "\<lambda>(env, l). enterClassOrModuleSymbol env l"
proof unfold_locales
  fix x owner name s r s'
  show "(case x of (env, l) \<Rightarrow> enterClassOrModuleSymbol env l) owner name s = Inr (r, s')
      \<Longrightarrow> entered SK_ClassOrModule owner name s r s'"
    by (cases x) (auto dest: enterClassOrModuleSymbol_entered)
qed (auto simp: enterClassOrModuleSymbol_def found_run)

interpretation method_entry: symbol_entry SK_Method "\<lambda>x t r. True" "\<lambda>(env, l, nameLoc) owner name. enterMethodSymbol env l owner name nameLoc"
proof unfold_locales
  fix x owner name s r s'
  show "(case x of (env, l, nameLoc) \<Rightarrow> \<lambda>owner name. enterMethodSymbol env l owner name nameLoc) owner name s = Inr (r, s')
      \<Longrightarrow> entered SK_Method owner name s r s'"
    by (cases x) (auto dest: enterMethodSymbol_entered)
qed (auto simp: enterMethodSymbol_def found_run)

definition field_flag :: "nat \<Rightarrow> symbol_table \<Rightarrow> u32 \<Rightarrow> bool" where
  "field_flag i t r \<longleftrightarrow> bit (f_flags (symFields t ! unat r)) i"

lemma enterField_flags:
  "enterFieldSymbol env l owner name s = Inr (r, s') \<Longrightarrow> field_flag 0 (symbols s') r"
  "enterStaticFieldSymbol env l owner name s = Inr (r, s') \<Longrightarrow> field_flag 1 (symbols s') r"
  unfolding enterFieldSymbol_def enterStaticFieldSymbol_def field_flag_def
  by (auto elim!: bindS_InrE simp: op_Inr updField_def nth_append split: if_splits)

interpretation field_entry: symbol_entry SK_FieldOrStaticField "\<lambda>x. field_flag 0" "\<lambda>(env, l). enterFieldSymbol env l"
proof unfold_locales
  fix x owner name s r s'
  show "(case x of (env, l) \<Rightarrow> enterFieldSymbol env l) owner name s = Inr (r, s')
      \<Longrightarrow> entered SK_FieldOrStaticField owner name s r s'"
    by (cases x) (auto dest: enterFieldSymbol_entered)
  show "(case x of (env, l) \<Rightarrow> enterFieldSymbol env l) owner name s = Inr (r, s') \<Longrightarrow> field_flag 0 (symbols s') r"
    by (cases x) (auto dest: enterField_flags)
qed (auto simp: enterFieldSymbol_def found_run fieldAt_def field_flag_def)

interpretation static_field_entry: symbol_entry SK_FieldOrStaticField "\<lambda>x. field_flag 1" "\<lambda>(env, l). enterStaticFieldSymbol env l"
proof unfold_locales
  fix x owner name s r s'
  show "(case x of (env, l) \<Rightarrow> enterStaticFieldSymbol env l) owner name s = Inr (r, s')
      \<Longrightarrow> entered SK_FieldOrStaticField owner name s r s'"
    by (cases x) (auto dest: enterStaticFieldSymbol_entered)
  show "(case x of (env, l) \<Rightarrow> enterStaticFieldSymbol env l) owner name s = Inr (r, s') \<Longrightarrow> field_flag 1 (symbols s') r"
    by (cases x) (auto dest: enterField_flags)
qed (auto simp: enterStaticFieldSymbol_def found_run modifyTables_def modifyS_def fieldAt_def field_flag_def)

definition type_member_flags :: "variance \<Rightarrow> symbol_table \<Rightarrow> u32 \<Rightarrow> bool" where
  "type_member_flags v t r \<longleftrightarrow> hasFlags (tp_flags (typeMembers t ! unat r)) (2 OR varianceFlag v)"

lemma hasFlags_refl: "hasFlags f f"
  by (simp add: hasFlags_def)

lemma enterTypeMember_flags:
  "enterTypeMember env l owner name v s = Inr (r, s') \<Longrightarrow> type_member_flags v (symbols s') r"
  unfolding enterTypeMember_def type_member_flags_def Let_def
  by (auto elim!: bindS_InrE simp: op_Inr updClass_def nth_append hasFlags_refl split: if_splits)

interpretation type_member_entry: symbol_entry SK_TypeMember "\<lambda>(env, l, v). type_member_flags v"
  "\<lambda>(env, l, v) owner name. enterTypeMember env l owner name v"
proof unfold_locales
  fix x owner name s r s'
  show "(case x of (env, l, v) \<Rightarrow> \<lambda>owner name. enterTypeMember env l owner name v) owner name s = Inr (r, s')
      \<Longrightarrow> entered SK_TypeMember owner name s r s'"
    by (cases x) (auto dest: enterTypeMember_entered)
  show "(case x of (env, l, v) \<Rightarrow> \<lambda>owner name. enterTypeMember env l owner name v) owner name s = Inr (r, s')
      \<Longrightarrow> (case x of (env, l, v) \<Rightarrow> type_member_flags v) (symbols s') r"
    by (cases x) (auto dest: enterTypeMember_flags)
qed (auto simp: enterTypeMember_def found_run Let_def typeMemberAt_def type_member_flags_def)

end
