(* ===== verification/SymbolSteps.thy ===== *)
theory SymbolSteps
  imports SymbolInvariant
begin

text \<open>
  The remaining operations on the symbol table keep its invariant: type parameters and parameters of
  methods, overloads, singleton classes, static initializers, renaming and deleting.  Then the states
  that any sequence of operations reaches.
\<close>

section \<open>Names\<close>

lemma probeLoop_pred:
  "probeLoop n bs P h b c = Some (b', c') \<Longrightarrow> present (bs ! unat b') \<Longrightarrow> P (bk_rawId (bs ! unat b'))"
  by (induction n arbitrary: b c) (auto simp: Let_def split: if_splits)

lemma lookupBucket_pred: "lookupBucket bs h P = Inr t \<Longrightarrow> present (bs ! t) \<Longrightarrow> P (bk_rawId (bs ! t))"
  by (auto simp: lookupBucket_def Let_def split: if_splits option.splits dest: probeLoop_pred)

lemma nameKind_mkNameRef: "kind \<in> {UTF8, CONSTANT, UNIQUE} \<Longrightarrow> nameKind (mkNameRef kind i) = kind"
proof -
  assume kind: "kind \<in> {UTF8, CONSTANT, UNIQUE}"
  have three: "(3 :: u32) = mask 2"
    by (simp add: mask_eq_exp_minus_1)
  have "push_bit 2 (of_nat i :: u32) AND 3 = 0"
    by (rule bit_word_eqI) (auto simp: three bit_simps)
  then show ?thesis
    using low_kind [OF kind] by (simp add: nameKind_def mkNameRef_def bit.conj_disj_distrib2)
qed

lemma freshNameUnique_kind: "freshNameUnique u nt = Inr (r, nt') \<Longrightarrow> nameKind r = UNIQUE"
  by (auto simp: freshNameUnique_def Let_def isUnique_def nameKind_mkNameRef
      split: if_splits sum.splits dest: lookupBucket_pred)

lemma freshName_Inr:
  assumes "freshName k original num s = Inr (n, s')"
  shows "nameKind n = UNIQUE" "symbols s' = symbols s" "symbolTableFrozen s' = symbolTableFrozen s" "classBoundary s' = classBoundary s"
  using assms freshNameUnique_kind by (auto simp: freshName_def split: sum.splits)

lemma lookupNameS_Inr: "lookupNameS k original num s = Inr (n, s') \<Longrightarrow> s' = s"
  by (auto simp: lookupNameS_def split: sum.splits)

text \<open>What the generated names satisfy: the two pseudo members have UTF-8 names.\<close>

definition wf_env :: "sym_env \<Rightarrow> bool" where
  "wf_env env \<longleftrightarrow> nameKind (Names_singleton env) = UTF8 \<and> nameKind (Names_attached env) = UTF8
     \<and> Names_AttachedClass env \<notin> pseudo env \<and> Names_staticInit env \<notin> pseudo env"

lemma unique_not_pseudo: "wf_env env \<Longrightarrow> nameKind n = UNIQUE \<Longrightarrow> n \<notin> pseudo env"
  by (auto simp: wf_env_def pseudo_def)

section \<open>Parameters of methods\<close>

lemma wf_type_parameter:
  assumes wf: "wf_symbols env t" and small: "size_of t SK_TypeParameter < 2 ^ 29" and owner: "unat owner < size_of t SK_Method"
    and sz: "size_of t' = (size_of t)(SK_TypeParameter := Suc (size_of t SK_TypeParameter))" and mb: "memb t' = memb t"
    and on: "\<forall>r. in_table t r \<longrightarrow> ownerOf t' r = ownerOf t r \<and> nameOf t' r = nameOf t r"
    and new: "ownerOf t' (new_ref t SK_TypeParameter) = mkSymbolRef SK_Method owner"
    and tp: "\<forall>m < size_of t SK_Method. tparams t' m \<subseteq> insert (of_nat (size_of t SK_TypeParameter)) (tparams t m)"
  shows "wf_symbols env t'"
proof -
  note it = in_table_extends [OF sz small] and nf = new_ref_facts [OF small] and del = deleted_cong [OF wfD(1) [OF wf] on]
  have "unat owner < 2 ^ 29" using owner wfD(8) [OF wf, of SK_Method] by linarith
  then have "owner \<le> MAX_ID" by (simp add: MAX_ID_def word_le_nat_alt)
  then have ot: "in_table t (mkSymbolRef SK_Method owner)"
    using owner by (simp add: in_table_def unsafeTableIndex_mkSymbolRef)
  have "wf_sizes t'" using wfD(1) [OF wf] small by (auto simp: wf_sizes_def sz)
  moreover have "wf_members env t'" using wfD(2) [OF wf] on by (simp add: wf_members_def mb it)
  moreover have "wf_pseudo env t'" using wfD(3) [OF wf] by (simp add: wf_pseudo_def mb it)
  moreover have "wf_listed env t'"
    using wfD(4) [OF wf] on del nf(1) by (auto simp: wf_listed_def listed_def must_be_listed_def mb it)
  moreover have "wf_owners t'"
    using wfD(5) [OF wf] on new ot nf(1) by (auto simp: wf_owners_def it owner_kind_def)
  moreover have "wf_tparams t'"
    unfolding wf_tparams_def
  proof (intro allI impI ballI)
    fix m r assume "m < size_of t' SK_Method" "r \<in> tparams t' m"
    then have "m < size_of t SK_Method" "r = of_nat (size_of t SK_TypeParameter) \<or> r \<in> tparams t m"
      using tp by (auto simp: sz)
    then show "unat r < size_of t' SK_TypeParameter"
      using wfD(6) [OF wf] small_index(2) [OF small] by (auto simp: wf_tparams_def sz less_Suc_eq)
  qed
  ultimately show ?thesis by (simp add: wf_symbols_def)
qed

lemma same_view_type_parameter:
  assumes "\<And>d. tp_owner (f d) = tp_owner d" "\<And>d. tp_name (f d) = tp_name d"
  shows "same_view t (t\<lparr>typeParameters := (typeParameters t)[i := f (typeParameters t ! i)]\<rparr>)"
proof -
  have "size_of (t\<lparr>typeParameters := (typeParameters t)[i := f (typeParameters t ! i)]\<rparr>) = size_of t"
    by (rule ext, rename_tac k, case_tac k) simp_all
  then show ?thesis
    using assms unfolding same_view_def
    by (auto simp: fun_eq_iff ownerOf_def nameOf_def tparams_def memb_def Let_def
        nth_update_same [where g = tp_owner] nth_update_same [where g = tp_name] split: option.split symbol_kind.split)
qed

lemma enterTypeParameter_wf:
  assumes wf: "wf_symbols env (symbols s)" and e: "enterTypeParameter env l owner name v s = Inr (r, s')"
  shows "wf_symbols env (symbols s')"
proof (cases "findTypeParameter (symbols s) (m_typeParameters (methods (symbols s) ! unat owner)) name")
  case None
  let ?t = "symbols s"
  let ?p = "emptyTypeParameter\<lparr>tp_name := name, tp_flags := 1 OR varianceFlag v, tp_owner := mkSymbolRef SK_Method owner, tp_locs := addLoc env l []\<rparr>"
  let ?t1 = "appendTo SK_TypeParameter emptyClass emptyMethod emptyField ?p ?t"
  let ?f = "\<lambda>m. m\<lparr>m_typeParameters := m_typeParameters m @ [of_nat (length (typeParameters ?t))]\<rparr>"
  have small: "length (typeParameters ?t) < 2 ^ 29" and owner: "unat owner < length (methods ?t)"
    and s': "symbols s' = updMethod owner ?f ?t1"
    using e None by (auto simp: enterTypeParameter_def Let_def op_Inr appendTo_def elim!: bindS_InrE)
  have tp: "tparams (updMethod owner ?f ?t1) m = (if m = unat owner then insert (of_nat (length (typeParameters ?t))) (tparams ?t m) else tparams ?t m)"
    if "m < length (methods ?t)" for m
    using that by (simp add: tparams_def updMethod_def appendTo_def)
  have keys: "ownerOf (updMethod owner ?f ?t1) = ownerOf ?t1" "nameOf (updMethod owner ?f ?t1) = nameOf ?t1"
    "memb (updMethod owner ?f ?t1) = memb ?t1"
    by (auto simp: fun_eq_iff ownerOf_def nameOf_def memb_def updMethod_def Let_def nth_update_same [where g = m_owner]
        nth_update_same [where g = m_name] split: option.split symbol_kind.split)
  have "memb ?t1 = memb ?t" by (intro ext memb_append) (simp add: emptyClass_def)
  then show ?thesis
    unfolding s' using wf small owner tp keys_append [of ?t] new_keys [of ?t SK_TypeParameter]
    by (intro wf_type_parameter [OF wf _ owner [folded size_of.simps]]) (simp_all add: keys size_upd size_append subset_insertI)
next
  case (Some q)
  then show ?thesis
    using e wf wf_same_view [OF wf same_view_type_parameter]
    by (auto simp: enterTypeParameter_def Let_def op_Inr elim!: bindS_InrE split: if_splits)
qed

lemma enterMethodParameter_view:
  assumes "enterMethodParameter l owner name s = Inr (i, s')"
  shows "same_view (symbols s) (symbols s')"
  using assms unfolding enterMethodParameter_def Let_def
  by (auto simp: op_Inr elim!: bindS_InrE split: if_splits intro!: same_view_refl same_key_updMethod)

lemma setParameter_view: "same_view t (setParameter m i p t)"
  unfolding setParameter_def by (rule same_key_updMethod) simp_all

lemma copyParameters_view: "copyParameters res ps s = Inr (u, s') \<Longrightarrow> same_view (symbols s) (symbols s')"
proof (induction ps arbitrary: s)
  case (Cons q ps)
  obtain p keep where q: "q = (p, keep)" by fastforce
  have "same_view (symbols s) (symbols s')" if "copyParameters res ps s = Inr (u, s')"
    using Cons.IH that .
  moreover have "same_view (symbols s) (symbols s')"
    if i: "enterMethodParameter l res (pi_name p) s = Inr (i, s1)"
      and c: "copyParameters res ps (s1\<lparr>symbols := setParameter res i d (symbols s1)\<rparr>) = Inr (u, s')" for l i s1 d
    using same_view_trans [OF same_view_trans [OF enterMethodParameter_view [OF i] setParameter_view] Cons.IH [OF c, simplified]] .
  ultimately show ?case
    using Cons.prems unfolding q copyParameters.simps Let_def
    by (cases "\<not> keep \<and> \<not> isBlock (pi_flags p)") (auto simp: op_Inr elim!: bindS_InrE split: if_splits)
qed (simp add: op_Inr same_view_refl)

lemma enterNewMethodOverload_wf:
  assumes wf: "wf_symbols env (symbols s)" and env: "wf_env env"
    and e: "enterNewMethodOverload env l original n num keep s = Inr (r, s')"
  shows "wf_symbols env (symbols s')"
proof -
  obtain name s1 owner nl s2 where s1: "freshName Overload_kind n num s = Inr (name, s1)"
    and s2: "enterMethodSymbol env l owner name nl s1 = Inr (r, s2)"
    and s': "same_view (symbols s2) (symbols s')"
    using e unfolding enterNewMethodOverload_def
    by (auto elim!: bindS_InrE simp: op_Inr dest!: copyParameters_view)
  have "wf_symbols env (symbols s2)"
    using entered_wf [OF _ enterMethodSymbol_entered [OF s2]] wf freshName_Inr [OF s1] unique_not_pseudo [OF env] by simp
  then show ?thesis by (rule wf_same_view [OF _ s'])
qed

section \<open>Singleton classes and static initializers\<close>

lemma wf_pseudo_member:
  assumes wf: "wf_symbols env t" and c: "unat c < length (classAndModules t)" and n: "n \<in> pseudo env"
    and r: "sym_kind r = Some SK_ClassOrModule" "in_table t r"
  shows "wf_symbols env (setMember c n r t)"
proof -
  let ?t = "setMember c n r t"
  have it: "in_table ?t = in_table t" by (rule in_table_size) (simp add: size_upd)
  have mb: "memb ?t d m = memb t d m" if "m \<notin> pseudo env" for d m
    using that n by (auto simp: memb_setMember [OF c])
  have "wf_sizes ?t" "wf_tparams ?t" using wfD(1,6) [OF wf] by (simp_all add: wf_sizes_def wf_tparams_def view_simps)
  moreover have "wf_members env ?t" using wfD(2) [OF wf] mb by (auto simp: wf_members_def it setMember_keys)
  moreover have "wf_pseudo env ?t" using wfD(3) [OF wf] r by (auto simp: wf_pseudo_def memb_setMember [OF c] it)
  moreover have "wf_listed env ?t"
    using wfD(4) [OF wf] by (auto simp: wf_listed_def listed_def deleted_def mb it view_simps)
  moreover have "wf_owners ?t" using wfD(5) [OF wf] by (simp add: wf_owners_def it view_simps)
  ultimately show ?thesis by (simp add: wf_symbols_def)
qed

lemma classRef_ok:
  assumes "wf_symbols env t" "unat c < size_of t SK_ClassOrModule"
  shows "sym_kind (classRef c) = Some SK_ClassOrModule" "in_table t (classRef c)"
  using classRef_in_table [OF assms(2) wfD(8) [OF assms(1)]] by simp_all

lemma size_of_mono: "entered k owner name s r s' \<Longrightarrow> size_of (symbols s) j \<le> size_of (symbols s') j"
  by (erule enteredE) (auto simp: same_view_def extends_def)

lemma singletonClass_wf:
  assumes wf: "wf_symbols env (symbols s)" and env: "wf_env env" and e: "singletonClass env c s = Inr (r, s')"
  shows "wf_symbols env (symbols s')"
proof (cases "symbols s' = symbols s")
  case False
  let ?create = "\<lambda>single. updClass single (\<lambda>d. setIsModule False (d\<lparr>c_superClass := todo_class\<rparr>))"
  obtain l owner orig n s1 s2 tp s3 where c: "unat c < length (classAndModules (symbols s))"
    and s1: "freshName Singleton_kind orig 1 s = Inr (n, s1)"
    and s2: "enterClassOrModuleSymbol env l owner n s1 = Inr (r, s2)"
    and s3: "enterTypeMember env l r (Names_AttachedClass env) CoVariant
               (s2\<lparr>symbols := ?create r (setMember r (Names_attached env) (classRef c) (symbols s2))\<rparr>) = Inr (tp, s3)"
    and s': "symbols s' = setMember c (Names_singleton env) (classRef r) (updTypeMember tp (\<lambda>d. d\<lparr>tp_resultType :=
               LambdaParam tp (ClassType todo_class) (ClassType todo_class)\<rparr>) (symbols s3))"
    using e False unfolding singletonClass_def lookupSingletonClass_def asClassOrModuleRef_def
    by (auto elim!: bindS_InrE simp: op_Inr split: if_splits)
  have wf1: "wf_symbols env (symbols s1)" using wf freshName_Inr [OF s1] by simp
  note n = unique_not_pseudo [OF env freshName_Inr(1) [OF s1]] and e2 = enterClassOrModuleSymbol_entered [OF s2]
  note wf2 = entered_wf [OF wf1 e2 n] and r = entered_found [OF wf1 e2 n]
  let ?t2 = "setMember r (Names_attached env) (classRef c) (symbols s2)"
  have c2: "unat c < size_of (symbols s2) SK_ClassOrModule"
    using c size_of_mono [OF e2, of SK_ClassOrModule] freshName_Inr(2) [OF s1] by simp
  have "wf_symbols env ?t2"
    using r(3) wf2 classRef_ok [OF wf2 c2] by (intro wf_pseudo_member) (simp_all add: pseudo_def)
  then have wf3: "wf_symbols env (?create r ?t2)"
    by (rule wf_same_view [OF _ same_view_updClass]) (simp_all add: setIsModule_def)
  note e3 = enterTypeMember_entered [OF s3]
  have wf4: "wf_symbols env (symbols s3)"
    using entered_wf [OF _ e3] wf3 env by (simp add: wf_env_def)
  let ?t4 = "updTypeMember tp (\<lambda>d. d\<lparr>tp_resultType := LambdaParam tp (ClassType todo_class) (ClassType todo_class)\<rparr>) (symbols s3)"
  have wf5: "wf_symbols env ?t4" by (rule wf_same_view [OF wf4 same_key_updTypeMember]) simp_all
  have "unat r < size_of ?t4 SK_ClassOrModule" "unat c < size_of ?t4 SK_ClassOrModule"
    using r(3) c2 size_of_mono [OF e3, of SK_ClassOrModule] by (simp_all add: size_upd del: size_of.simps)
  then show ?thesis
    unfolding s' using classRef_ok [OF wf5, of r] wf5
    by (intro wf_pseudo_member) (simp_all add: pseudo_def)
qed (use wf in simp)

lemma staticInit_wf:
  assumes wf: "wf_symbols env (symbols s)" and e: "staticInit env l owner name nl s = Inr (r, s')" and n: "name \<notin> pseudo env"
  shows "wf_symbols env (symbols s')"
proof -
  have "\<exists>s1. enterMethodSymbol env l owner name nl s = Inr (r, s1) \<and> same_view (symbols s1) (symbols s')"
    using e unfolding staticInit_def
    by (auto elim!: bindS_InrE simp: op_Inr split: if_splits dest!: enterMethodParameter_view
        intro!: same_key_updMethod elim!: same_view_trans)
  then obtain s1 where s1: "enterMethodSymbol env l owner name nl s = Inr (r, s1)" and s': "same_view (symbols s1) (symbols s')"
    by blast
  from entered_wf [OF wf enterMethodSymbol_entered [OF s1] n] show ?thesis
    by (intro wf_same_view [OF _ s']) simp
qed

lemma staticInitForClass_wf:
  assumes "wf_symbols env (symbols s)" "wf_env env" "staticInitForClass env klass l s = Inr (r, s')"
  shows "wf_symbols env (symbols s')"
proof -
  obtain k s1 where "singletonClass env klass s = Inr (k, s1)" "staticInit env l k (Names_staticInit env) l s1 = Inr (r, s')"
    using assms(3) unfolding staticInitForClass_def by (auto elim: bindS_InrE)
  with assms(1,2) show ?thesis by (metis singletonClass_wf staticInit_wf wf_env_def)
qed

lemma staticInitForFile_wf:
  assumes "wf_symbols env (symbols s)" "wf_env env" "staticInitForFile env l s = Inr (r, s')"
  shows "wf_symbols env (symbols s')"
proof -
  obtain n s1 where n: "freshName Namer_kind (Names_staticInit env) (fileRef l) s = Inr (n, s1)"
    and i: "staticInit env l rootSingleton n (loc_none 0) s1 = Inr (r, s')"
    using assms(3) unfolding staticInitForFile_def by (auto elim: bindS_InrE)
  show ?thesis
    using staticInit_wf [OF _ i] freshName_Inr [OF n] unique_not_pseudo [OF assms(2)] assms(1) by simp
qed

section \<open>Renaming\<close>

lemma mk0_noteq: "i \<noteq> 0 \<Longrightarrow> i \<le> MAX_ID \<Longrightarrow> mkSymbolRef j 0 \<noteq> mkSymbolRef k i"
  by (simp add: mkSymbolRef_inject MAX_ID_def)

lemma member_unique:
  assumes "wf_symbols env t" "memb t c n = Some r" "memb t d m = Some r" "n \<notin> pseudo env" "m \<notin> pseudo env" "sym_exists r"
  shows "c = d" "n = m"
proof -
  note a = wf_memberD [OF assms(1,2,4,6)] and b = wf_memberD [OF assms(1,3,5,6)]
  have "unat c < 2 ^ 29" "unat d < 2 ^ 29"
    using memb_bound [OF assms(2)] memb_bound [OF assms(3)] wfD(8) [OF assms(1), of SK_ClassOrModule] by auto
  then have "c \<le> MAX_ID" "d \<le> MAX_ID" by (simp_all add: MAX_ID_def word_le_nat_alt)
  with a(3) b(3) show "c = d" by (simp add: mkSymbolRef_inject)
  show "n = m" using a(2) b(2) by simp
qed

lemma wf_rename:
  assumes wf: "wf_symbols env t" and r: "r = mkSymbolRef k i" "i \<noteq> 0" "i \<le> MAX_ID" "k \<noteq> SK_TypeParameter"
    and old: "memb t owner old = Some r" "old \<notin> pseudo env" and fresh: "\<And>q. memb t owner new = Some q \<Longrightarrow> \<not> sym_exists q"
    and new: "new \<notin> pseudo env"
    and sz: "size_of t' = size_of t" and mb: "memb t' = (memb t)(owner := (memb t owner)(old := None, new \<mapsto> r))"
    and on: "\<forall>q. in_table t q \<longrightarrow> ownerOf t' q = ownerOf t q \<and> nameOf t' q = (if q = r then new else nameOf t q)"
    and tp: "\<forall>m < size_of t SK_Method. tparams t' m = tparams t m"
  shows "wf_symbols env t'"
proof -
  have ex: "sym_exists r" using r by (simp add: sym_exists_mkSymbolRef)
  note d = wf_memberD [OF wf old ex]
  have it: "in_table t' = in_table t" by (rule in_table_size [OF sz])
  have zero: "in_table t (mkSymbolRef j 0)" "mkSymbolRef j 0 \<noteq> r" for j
    using in_table_0 wfD(7) [OF wf] mk0_noteq r by (blast, metis)
  have "unat owner < size_of t SK_ClassOrModule" using memb_bound [OF old(1)] by simp
  note cr = classRef_in_table [OF this wfD(8) [OF wf]]
  have "wf_sizes t'" "wf_tparams t'" using wfD(1,6) [OF wf] tp by (auto simp: wf_sizes_def wf_tparams_def sz)
  moreover have "wf_pseudo env t'"
    using wfD(3) [OF wf] new by (auto simp: wf_pseudo_def mb it split: if_splits)
  moreover have "wf_owners t'"
    using wfD(5) [OF wf] on by (simp add: wf_owners_def it)
  moreover have "wf_members env t'"
    unfolding wf_members_def
  proof (intro allI impI)
    fix c n q assume q: "memb t' c n = Some q" "n \<notin> pseudo env" "sym_exists q"
    show "in_table t' q \<and> nameOf t' q = n \<and> ownerOf t' q = classRef c"
    proof (cases "c = owner \<and> n = new")
      case True
      then have "q = r" using q(1) by (simp add: mb)
      then show ?thesis using True d on by (simp add: it)
    next
      case False
      then have m: "memb t c n = Some q" "\<not> (c = owner \<and> n = old)" using q(1) by (auto simp: mb split: if_splits)
      then have "q \<noteq> r" using member_unique [OF wf _ old(1) q(2) old(2)] ex by blast
      then show ?thesis using wf_memberD [OF wf m(1) q(2,3)] on by (simp add: it)
    qed
  qed
  moreover have "wf_listed env t'"
    unfolding wf_listed_def
  proof (intro allI impI)
    fix q assume q: "in_table t' q" "must_be_listed q"
    show "deleted t' q \<or> listed env t' q"
    proof (cases "q = r")
      case True
      then show ?thesis using d on new cr by (simp add: listed_def mb)
    next
      case False
      have "deleted t' q = deleted t q"
        using on zero False q(1) by (simp add: deleted_def it)
      moreover have "listed env t' q" if l: "listed env t q"
      proof -
        have "memb t (unsafeTableIndex (ownerOf t q)) (nameOf t q) = Some q" "sym_exists q"
          using l q(2) by (auto simp: listed_def must_be_listed_def)
        with fresh False old(1) have "\<not> (unsafeTableIndex (ownerOf t q) = owner \<and> nameOf t q \<in> {old, new})" by fastforce
        then show ?thesis using l on q(1) False by (auto simp: listed_def mb it)
      qed
      ultimately show ?thesis using wfD(4) [OF wf] q by (auto simp: wf_listed_def it)
    qed
  qed
  ultimately show ?thesis by (simp add: wf_symbols_def)
qed

lemma memb_updMethod: "memb (updMethod m f t) = memb t"
  by (simp add: fun_eq_iff memb_def updMethod_def)

lemma renamed_keys:
  assumes "unat what < length (methods t)" "what \<le> MAX_ID"
  shows "ownerOf (updMethod what (\<lambda>m. m\<lparr>m_name := n\<rparr>) t) q = ownerOf t q"
    "nameOf (updMethod what (\<lambda>m. m\<lparr>m_name := n\<rparr>) t) q = (if q = mkSymbolRef SK_Method what then n else nameOf t q)"
    "tparams (updMethod what (\<lambda>m. m\<lparr>m_name := n\<rparr>) t) = tparams t"
proof -
  show "ownerOf (updMethod what (\<lambda>m. m\<lparr>m_name := n\<rparr>) t) q = ownerOf t q"
    by (auto simp: ownerOf_def updMethod_def Let_def nth_update_same [where g = m_owner] split: option.split symbol_kind.split)
  show "tparams (updMethod what (\<lambda>m. m\<lparr>m_name := n\<rparr>) t) = tparams t"
    by (simp add: fun_eq_iff tparams_def updMethod_def nth_update_same [where g = m_typeParameters])
  have "q = mkSymbolRef SK_Method what \<longleftrightarrow> sym_kind q = Some SK_Method \<and> unsafeTableIndex q = what"
    using assms(2) mkSymbolRef_surj(1) [of q SK_Method] by (auto simp: unsafeTableIndex_mkSymbolRef)
  then show "nameOf (updMethod what (\<lambda>m. m\<lparr>m_name := n\<rparr>) t) q = (if q = mkSymbolRef SK_Method what then n else nameOf t q)"
    using assms(1) by (auto simp: nameOf_def updMethod_def Let_def nth_list_update word_unat_eq_iff split: option.split symbol_kind.split)
qed

lemma not_pseudo:
  assumes "wf_symbols env t" "memb t c n = Some (mkSymbolRef k i)" "k \<noteq> SK_ClassOrModule"
  shows "n \<notin> pseudo env"
proof
  assume "n \<in> pseudo env"
  then have "sym_kind (mkSymbolRef k i) = Some SK_ClassOrModule"
    using wfD(3) [OF assms(1)] assms(2) unfolding wf_pseudo_def by blast
  with assms(3) show False by simp
qed

lemma nextMangledLoop_Inr:
  "nextMangledLoop owner orig left cnt s = Inr (n, s') \<Longrightarrow>
     symbols s' = symbols s \<and> nameKind n = UNIQUE \<and> \<not> sym_exists (findMember (tableOf s') owner n)"
  by (induction left arbitrary: cnt s)
    (auto elim!: bindS_InrE simp: op_Inr split: if_splits dest: freshName_Inr)

lemma nextMangledName_Inr:
  "nextMangledName owner orig s = Inr (n, s') \<Longrightarrow>
     symbols s' = symbols s \<and> nameKind n = UNIQUE \<and> \<not> sym_exists (findMember (tableOf s') owner n)"
  unfolding nextMangledName_def
  by (auto elim!: bindS_InrE simp: op_Inr simp del: nextMangledLoop.simps dest: nextMangledLoop_Inr)

text \<open>No member is an alias that ends in a symbol that does not exist.\<close>

definition aliases_exist :: "sym_state \<Rightarrow> bool" where
  "aliases_exist s \<longleftrightarrow> (\<forall>c n r. memb (symbols s) c n = Some r \<and> sym_exists r \<longrightarrow> sym_exists (dealias (tableOf s) r))"

lemma findMember_missing:
  assumes "aliases_exist s" "\<not> sym_exists (findMember (tableOf s) c n)" "memb (symbols s) c n = Some r"
  shows "\<not> sym_exists r"
  using assms by (auto simp: findMember_def findMemberNoDealias_def tableOf_def memb_def aliases_exist_def Let_def split: if_splits)

lemma dealias_symbols: "symbols s' = symbols s \<Longrightarrow> dealias (tableOf s') = dealias (tableOf s)"
proof -
  assume "symbols s' = symbols s"
  then have "dealiasWithDefault (tableOf s') d k r = dealiasWithDefault (tableOf s) d k r" for d k r
    by (induction k arbitrary: r) (simp_all add: dealiasWithDefault.simps tableOf_def Let_def split: option.split)
  then show ?thesis by (simp add: fun_eq_iff dealias_def)
qed

lemma mangleRenameMethod_effect:
  assumes wf: "wf_symbols env (symbols s)" and al: "aliases_exist s" and e: "mangleRenameMethod what origName s = Inr (u, s')"
  obtains owner name where "owner = m_owner (methods (symbols s) ! unat what)" "unat what < length (methods (symbols s))"
    "what \<le> MAX_ID" "unat owner < length (classAndModules (symbols s))"
    "memb (symbols s) owner origName = Some (mkSymbolRef SK_Method what)"
    "nameKind name = UNIQUE" "\<forall>q. memb (symbols s) owner name = Some q \<longrightarrow> \<not> sym_exists q"
    "size_of (symbols s') = size_of (symbols s)"
    "memb (symbols s') = (memb (symbols s))(owner := (memb (symbols s) owner)(origName := None, name \<mapsto> mkSymbolRef SK_Method what))"
    "\<forall>q. in_table (symbols s) q \<longrightarrow> ownerOf (symbols s') q = ownerOf (symbols s) q
        \<and> nameOf (symbols s') q = (if q = mkSymbolRef SK_Method what then name else nameOf (symbols s) q)"
    "\<forall>m < size_of (symbols s) SK_Method. tparams (symbols s') m = tparams (symbols s) m"
proof -
  let ?t = "symbols s"
  obtain owner name s1 where w: "unat what < length (methods ?t)" and owner: "owner = m_owner (methods ?t ! unat what)"
    and m: "memb ?t owner origName = Some (mkSymbolRef SK_Method what)"
    and c: "unat owner < length (classAndModules ?t)"
    and s1: "nextMangledName owner origName s = Inr (name, s1)"
    and s': "symbols s' = updMethod what (\<lambda>m. m\<lparr>m_name := name\<rparr>)
       (setMember owner name (mkSymbolRef SK_Method what) (eraseMember owner origName (symbols s1)))"
    using e unfolding mangleRenameMethod_def
    by (auto elim!: bindS_InrE simp: op_Inr memb_def split: if_splits)
  have n: "symbols s1 = ?t" "nameKind name = UNIQUE" "\<not> sym_exists (findMember (tableOf s1) owner name)"
    using nextMangledName_Inr [OF s1] by blast+
  have "aliases_exist s1" using al dealias_symbols [OF n(1)] by (simp add: aliases_exist_def n(1))
  note findMember_missing [OF this n(3), unfolded n(1)]
  then have fresh: "\<forall>q. memb ?t owner name = Some q \<longrightarrow> \<not> sym_exists q" by blast
  have "unat what < 2 ^ 29" using w wfD(8) [OF wf, of SK_Method] by simp
  then have max: "what \<le> MAX_ID" by (simp add: MAX_ID_def word_le_nat_alt)
  let ?t1 = "setMember owner name (mkSymbolRef SK_Method what) (eraseMember owner origName ?t)"
  have len: "unat owner < length (classAndModules (eraseMember owner origName ?t))"
    using c by (simp add: eraseMember_def updClass_def)
  have "unat what < length (methods ?t1)" using w by (simp add: eraseMember_def updClass_def)
  note keys = renamed_keys [OF this max]
  show ?thesis
  proof (rule that [OF owner w max c m n(2) fresh])
    show "size_of (symbols s') = size_of ?t" by (simp add: s' n(1) size_upd)
    show "memb (symbols s') = (memb ?t)(owner := (memb ?t owner)(origName := None, name \<mapsto> mkSymbolRef SK_Method what))"
      by (simp add: s' n(1) memb_updMethod memb_setMember [OF len] memb_eraseMember)
    show "\<forall>q. in_table ?t q \<longrightarrow> ownerOf (symbols s') q = ownerOf ?t q
        \<and> nameOf (symbols s') q = (if q = mkSymbolRef SK_Method what then name else nameOf ?t q)"
      by (simp add: s' n(1) keys view_simps)
    show "\<forall>m < size_of ?t SK_Method. tparams (symbols s') m = tparams ?t m"
      by (simp add: s' n(1) keys view_simps)
  qed
qed

lemma mangleRenameMethod_wf:
  assumes wf: "wf_symbols env (symbols s)" and env: "wf_env env" and al: "aliases_exist s"
    and what: "what \<noteq> 0" and e: "mangleRenameMethod what origName s = Inr (u, s')"
  shows "wf_symbols env (symbols s')"
proof (rule mangleRenameMethod_effect [OF wf al e])
  fix owner name
  assume max: "what \<le> MAX_ID" and m: "memb (symbols s) owner origName = Some (mkSymbolRef SK_Method what)"
    and n: "nameKind name = UNIQUE" and fresh: "\<forall>q. memb (symbols s) owner name = Some q \<longrightarrow> \<not> sym_exists q"
    and view: "size_of (symbols s') = size_of (symbols s)"
    "memb (symbols s') = (memb (symbols s))(owner := (memb (symbols s) owner)(origName := None, name \<mapsto> mkSymbolRef SK_Method what))"
    "\<forall>q. in_table (symbols s) q \<longrightarrow> ownerOf (symbols s') q = ownerOf (symbols s) q
        \<and> nameOf (symbols s') q = (if q = mkSymbolRef SK_Method what then name else nameOf (symbols s) q)"
    "\<forall>m < size_of (symbols s) SK_Method. tparams (symbols s') m = tparams (symbols s) m"
  show ?thesis
    by (rule wf_rename [OF wf refl what max _ m not_pseudo [OF wf m] _ unique_not_pseudo [OF env n] view])
      (use what max fresh in simp_all)
qed

section \<open>Deleting\<close>

text \<open>\<open>t'\<close> is \<open>t\<close> without the member \<open>r\<close>; the symbol and some type parameters have the keys of the missing
  symbols.\<close>

definition zeroed :: "symbol_table \<Rightarrow> symbol_table \<Rightarrow> u32 \<Rightarrow> bool" where
  "zeroed t t' q \<longleftrightarrow> (\<exists>k. sym_kind q = Some k \<and> ownerOf t' q = ownerOf t (mkSymbolRef k 0) \<and> nameOf t' q = nameOf t (mkSymbolRef k 0))"

lemma member_not_type_parameter:
  assumes "wf_symbols env t" "memb t c n = Some q" "n \<notin> pseudo env" "sym_exists q"
  shows "sym_kind q \<noteq> Some SK_TypeParameter"
proof
  note d = wf_memberD [OF assms]
  assume tpk: "sym_kind q = Some SK_TypeParameter"
  then have "q \<noteq> sym_root" by (auto simp: sym_root_def sym_kind_def KIND_MASK_def)
  then have "sym_kind (ownerOf t q) = Some SK_Method"
    using wfD(5) [OF assms(1)] d(1) tpk by (simp add: wf_owners_def owner_kind_def)
  with d(3) show False by simp
qed

lemma wf_delete:
  assumes wf: "wf_symbols env t" and r: "r = mkSymbolRef k i" "i \<noteq> 0" "i \<le> MAX_ID" "k \<notin> {SK_TypeParameter, SK_ClassOrModule}"
    and old: "memb t owner name = Some r" "name \<notin> pseudo env"
    and sz: "size_of t' = size_of t" and mb: "memb t' = (memb t)(owner := (memb t owner)(name := None))"
    and on: "\<forall>q. in_table t q \<longrightarrow> (if q = r then zeroed t t' q
        else ownerOf t' q = ownerOf t q \<and> nameOf t' q = nameOf t q \<or> sym_kind q = Some SK_TypeParameter \<and> zeroed t t' q)"
    and tp: "\<forall>m < size_of t SK_Method. tparams t' m \<in> {tparams t m, tparams t 0}"
  shows "wf_symbols env t'"
proof -
  have ex: "sym_exists r" using r by (simp add: sym_exists_mkSymbolRef)
  have it: "in_table t' = in_table t" by (rule in_table_size [OF sz])
  have zero: "in_table t (mkSymbolRef j 0)" "mkSymbolRef j 0 \<noteq> r" "mkSymbolRef j 0 \<noteq> sym_root" for j
    using in_table_0 wfD(7) [OF wf] mk0_noteq [of i j k] mk0_noteq [of 3 j SK_ClassOrModule] r
    by (blast, metis, simp add: sym_root_def mkSymbolRef_def MAX_ID_def)
  have z0: "ownerOf t' (mkSymbolRef j 0) = ownerOf t (mkSymbolRef j 0)" "nameOf t' (mkSymbolRef j 0) = nameOf t (mkSymbolRef j 0)" for j
    using on zero [of j] by (auto simp: zeroed_def split: if_splits)
  have same: "ownerOf t' q = ownerOf t q \<and> nameOf t' q = nameOf t q" if "in_table t q" "q \<noteq> r" "sym_kind q \<noteq> Some SK_TypeParameter" for q
    using on that by auto
  have "wf_sizes t'" using wfD(1) [OF wf] by (simp add: wf_sizes_def sz)
  moreover have "wf_tparams t'"
    using wfD(6,7) [OF wf] tp unfolding wf_tparams_def sz by (metis insertE singletonD)
  moreover have "wf_pseudo env t'"
    using wfD(3) [OF wf] by (auto simp: wf_pseudo_def mb it split: if_splits)
  moreover have "wf_owners t'"
    unfolding wf_owners_def it
  proof (intro allI impI)
    fix q assume q: "in_table t q" "q \<noteq> sym_root"
    have z: "in_table t (ownerOf t' q) \<and> sym_kind (ownerOf t' q) = Some (owner_kind q)" if zq: "zeroed t t' q"
    proof -
      obtain j where "sym_kind q = Some j" "ownerOf t' q = ownerOf t (mkSymbolRef j 0)" using zq by (auto simp: zeroed_def)
      then show ?thesis using wfD(5) [OF wf] zero [of j] by (simp add: wf_owners_def owner_kind_def)
    qed
    consider (zero) "zeroed t t' q" "sym_kind q \<noteq> Some SK_ClassOrModule" | (same) "ownerOf t' q = ownerOf t q"
      using on q(1) r(1,4) by (auto split: if_splits)
    then show "in_table t (ownerOf t' q) \<and> sym_kind (ownerOf t' q) = Some (owner_kind q) \<and> (sym_kind q = Some SK_ClassOrModule \<longrightarrow>
        ownerOf t' q = sym_root \<or> unsafeTableIndex (ownerOf t' q) < unsafeTableIndex q)"
      by cases (use z q wfD(5) [OF wf] in \<open>auto simp: wf_owners_def\<close>)
  qed
  moreover have "wf_members env t'"
    unfolding wf_members_def
  proof (intro allI impI)
    fix c n q assume q: "memb t' c n = Some q" "n \<notin> pseudo env" "sym_exists q"
    then have m: "memb t c n = Some q" "\<not> (c = owner \<and> n = name)" by (auto simp: mb split: if_splits)
    then have "q \<noteq> r" using member_unique [OF wf _ old(1) q(2) old(2)] ex by blast
    moreover note d = wf_memberD [OF wf m(1) q(2,3)]
    ultimately show "in_table t' q \<and> nameOf t' q = n \<and> ownerOf t' q = classRef c"
      using same member_not_type_parameter [OF wf m(1) q(2,3)] by (simp add: it)
  qed
  moreover have "wf_listed env t'"
    unfolding wf_listed_def it
  proof (intro allI impI)
    fix q assume q: "in_table t q" "must_be_listed q"
    show "deleted t' q \<or> listed env t' q"
    proof (cases "q = r")
      case True
      then have "zeroed t t' q" using on q(1) by simp
      then show ?thesis by (auto simp: zeroed_def deleted_def z0)
    next
      case False
      then have s: "ownerOf t' q = ownerOf t q" "nameOf t' q = nameOf t q" using same q by (auto simp: must_be_listed_def)
      have "deleted t' q = deleted t q" by (simp add: deleted_def s z0)
      moreover have "listed env t' q" if l: "listed env t q"
        using l False old(1) by (auto simp: listed_def mb s)
      ultimately show ?thesis using wfD(4) [OF wf] q by (auto simp: wf_listed_def)
    qed
  qed
  ultimately show ?thesis by (simp add: wf_symbols_def)
qed

lemma fold_zero:
  "xs \<noteq> [] \<Longrightarrow> length (fold (\<lambda>r xs. xs[unat r := xs ! 0]) rs xs) = length xs
     \<and> fold (\<lambda>r xs. xs[unat r := xs ! 0]) rs xs ! 0 = xs ! 0
     \<and> (j < length xs \<longrightarrow> fold (\<lambda>r xs. xs[unat r := xs ! 0]) rs xs ! j \<in> {xs ! j, xs ! 0})"
proof (induction rs arbitrary: xs)
  case (Cons r rs)
  have "xs[unat r := xs ! 0] \<noteq> []" using Cons.prems by simp
  note IH = Cons.IH [OF this]
  have upd: "xs[unat r := xs ! 0] ! i = (if unat r < length xs \<and> unat r = i then xs ! 0 else xs ! i)" for i
    by (cases "unat r < length xs"; cases "unat r = i") (simp_all add: list_update_beyond)
  show ?case using IH by (auto simp: upd split: if_splits)
qed simp

lemma eraseStored_Inr:
  "eraseStored owner name r s = Inr (u, s') \<longleftrightarrow> \<not> symbolTableFrozen s \<and> unat owner < length (classAndModules (symbols s))
     \<and> memb (symbols s) owner name = Some r \<and> s' = s\<lparr>symbols := eraseMember owner name (symbols s)\<rparr>"
  by (auto simp: eraseStored_def bindS_def readS_def failS_def classAt_def memb_def Let_def modifyTables_def modifyS_def)

lemma ref_facts:
  assumes "wf_symbols env t" "unat i < size_of t k"
  shows "i \<le> MAX_ID" "in_table t (mkSymbolRef k i)" "unsafeTableIndex (mkSymbolRef k i) = i"
proof -
  have "unat i < 2 ^ 29" using assms(2) wfD(8) [OF assms(1), of k] by linarith
  then show i: "i \<le> MAX_ID" by (simp add: MAX_ID_def word_le_nat_alt)
  then show "unsafeTableIndex (mkSymbolRef k i) = i" by (rule unsafeTableIndex_mkSymbolRef)
  then show "in_table t (mkSymbolRef k i)" using assms(2) by (simp add: in_table_def)
qed

lemma ref_eq_iff: "i \<le> MAX_ID \<Longrightarrow> q = mkSymbolRef k i \<longleftrightarrow> sym_kind q = Some k \<and> unsafeTableIndex q = i"
  using mkSymbolRef_surj(1) by (auto simp: unsafeTableIndex_mkSymbolRef)

lemma size_of_eqI:
  assumes "length (classAndModules t') = length (classAndModules t)" "length (methods t') = length (methods t)"
    "length (symFields t') = length (symFields t)" "length (typeParameters t') = length (typeParameters t)"
    "length (typeMembers t') = length (typeMembers t)"
  shows "size_of t' = size_of t"
  using assms by (intro ext, rename_tac k, case_tac k) simp_all

lemma eraseMember_tables [simp]:
  "methods (eraseMember c n t) = methods t" "symFields (eraseMember c n t) = symFields t"
  "typeParameters (eraseMember c n t) = typeParameters t" "typeMembers (eraseMember c n t) = typeMembers t"
  "length (classAndModules (eraseMember c n t)) = length (classAndModules t)"
  "c_owner (classAndModules (eraseMember c n t) ! i) = c_owner (classAndModules t ! i)"
  "c_name (classAndModules (eraseMember c n t) ! i) = c_name (classAndModules t ! i)"
  by (simp_all add: eraseMember_def updClass_def nth_update_same [where g = c_owner] nth_update_same [where g = c_name])

lemma deleteFieldSymbol_wf:
  assumes wf: "wf_symbols env (symbols s)" and what: "what \<noteq> 0"
    and e: "deleteFieldSymbol what s = Inr (u, s')"
  shows "wf_symbols env (symbols s')"
proof -
  let ?t = "symbols s" and ?r = "mkSymbolRef SK_FieldOrStaticField what"
  let ?f = "symFields ?t ! unat what"
  have w: "unat what < size_of ?t SK_FieldOrStaticField" and m: "memb ?t (f_owner ?f) (f_name ?f) = Some ?r"
    and s': "symbols s' = (eraseMember (f_owner ?f) (f_name ?f) ?t)\<lparr>symFields := (symFields ?t)[unat what := symFields ?t ! 0]\<rparr>"
    using e unfolding deleteFieldSymbol_def by (auto elim!: bindS_InrE simp: op_Inr eraseStored_Inr)
  note rf = ref_facts [OF wf w]
  show ?thesis
  proof (rule wf_delete [OF wf refl what rf(1) _ m not_pseudo [OF wf m]])
    show "size_of (symbols s') = size_of ?t" unfolding s' by (rule size_of_eqI) simp_all
    show "memb (symbols s') = (memb ?t)(f_owner ?f := (memb ?t (f_owner ?f))(f_name ?f := None))"
      unfolding s' memb_eraseMember [symmetric] by (simp add: fun_eq_iff memb_def)
    show "\<forall>m < size_of ?t SK_Method. tparams (symbols s') m \<in> {tparams ?t m, tparams ?t 0}"
      by (simp add: s' tparams_def)
    show "\<forall>q. in_table ?t q \<longrightarrow> (if q = ?r then zeroed ?t (symbols s') q
        else ownerOf (symbols s') q = ownerOf ?t q \<and> nameOf (symbols s') q = nameOf ?t q \<or> sym_kind q = Some SK_TypeParameter \<and> zeroed ?t (symbols s') q)"
      unfolding ref_eq_iff [OF rf(1)] using w
      by (auto simp: s' zeroed_def ownerOf_def nameOf_def Let_def unsafeTableIndex_mkSymbolRef MAX_ID_def nth_list_update
          split: option.splits symbol_kind.splits simp flip: word_unat_eq_iff)
  qed simp_all
qed

lemma deleteMethodSymbol_wf:
  assumes wf: "wf_symbols env (symbols s)" and what: "what \<noteq> 0"
    and e: "deleteMethodSymbol what s = Inr (u, s')"
  shows "wf_symbols env (symbols s')"
proof -
  let ?t = "symbols s" and ?r = "mkSymbolRef SK_Method what"
  let ?m = "methods ?t ! unat what"
  let ?tps = "fold (\<lambda>r tps. tps[unat r := tps ! 0]) (m_typeParameters ?m) (typeParameters ?t)"
  have w: "unat what < size_of ?t SK_Method" and m: "memb ?t (m_owner ?m) (m_name ?m) = Some ?r"
    and s': "symbols s' = (eraseMember (m_owner ?m) (m_name ?m) ?t)\<lparr>methods := (methods ?t)[unat what := methods ?t ! 0], typeParameters := ?tps\<rparr>"
    using e unfolding deleteMethodSymbol_def by (auto elim!: bindS_InrE simp: op_Inr eraseStored_Inr)
  have "0 < size_of ?t SK_TypeParameter" by (rule wfD(7) [OF wf])
  then have "typeParameters ?t \<noteq> []" by auto
  note tps = fold_zero [OF this, of "m_typeParameters ?m"] and rf = ref_facts [OF wf w]
  show ?thesis
  proof (rule wf_delete [OF wf refl what rf(1) _ m not_pseudo [OF wf m]])
    show "size_of (symbols s') = size_of ?t" unfolding s' using tps by (intro size_of_eqI) simp_all
    show "memb (symbols s') = (memb ?t)(m_owner ?m := (memb ?t (m_owner ?m))(m_name ?m := None))"
      unfolding s' memb_eraseMember [symmetric] by (simp add: fun_eq_iff memb_def)
    show "\<forall>m < size_of ?t SK_Method. tparams (symbols s') m \<in> {tparams ?t m, tparams ?t 0}"
      using w by (auto simp: s' tparams_def nth_list_update)
    have "ownerOf (symbols s') q = ownerOf ?t q \<and> nameOf (symbols s') q = nameOf ?t q \<or> zeroed ?t (symbols s') q"
      if "in_table ?t q" "sym_kind q = Some SK_TypeParameter" for q
      using that tps [of "unat (unsafeTableIndex q)"]
      by (auto simp: s' in_table_def zeroed_def ownerOf_def nameOf_def Let_def unsafeTableIndex_mkSymbolRef MAX_ID_def)
    then show "\<forall>q. in_table ?t q \<longrightarrow> (if q = ?r then zeroed ?t (symbols s') q
        else ownerOf (symbols s') q = ownerOf ?t q \<and> nameOf (symbols s') q = nameOf ?t q \<or> sym_kind q = Some SK_TypeParameter \<and> zeroed ?t (symbols s') q)"
      unfolding ref_eq_iff [OF rf(1)] using w
      by (auto simp: s' zeroed_def ownerOf_def nameOf_def Let_def unsafeTableIndex_mkSymbolRef MAX_ID_def nth_list_update
          split: option.splits symbol_kind.splits simp flip: word_unat_eq_iff)
  qed simp_all
qed

lemma deleteTypeMemberSymbol_wf:
  assumes wf: "wf_symbols env (symbols s)" and what: "what \<noteq> 0"
    and e: "deleteTypeMemberSymbol what s = Inr (u, s')"
  shows "wf_symbols env (symbols s')"
proof -
  let ?t = "symbols s" and ?r = "mkSymbolRef SK_TypeMember what"
  let ?f = "typeMembers ?t ! unat what"
  let ?o = "unsafeTableIndex (tp_owner ?f)"
  let ?e = "eraseMember ?o (tp_name ?f) ?t"
  let ?u = "updClass ?o (\<lambda>ow. ow\<lparr>c_typeMembers := remove1 what (c_typeMembers ow)\<rparr>) ?e"
  have w: "unat what < size_of ?t SK_TypeMember" and m: "memb ?t ?o (tp_name ?f) = Some ?r"
    and s': "symbols s' = ?u\<lparr>typeMembers := (typeMembers ?t)[unat what := typeMembers ?t ! 0]\<rparr>"
    using e unfolding deleteTypeMemberSymbol_def asClassOrModuleRef_def
    by (auto elim!: bindS_InrE simp: op_Inr eraseStored_Inr updClass_def split: if_splits)
  note rf = ref_facts [OF wf w]
  have u: "typeMembers ?u = typeMembers ?t" "symFields ?u = symFields ?t" "methods ?u = methods ?t" "typeParameters ?u = typeParameters ?t"
    "length (classAndModules ?u) = length (classAndModules ?t)"
    "c_owner (classAndModules ?u ! i) = c_owner (classAndModules ?t ! i)" "c_name (classAndModules ?u ! i) = c_name (classAndModules ?t ! i)" for i
    by (simp_all add: updClass_def nth_update_same [where g = c_owner] nth_update_same [where g = c_name])
  show ?thesis
  proof (rule wf_delete [OF wf refl what rf(1) _ m not_pseudo [OF wf m]])
    show "size_of (symbols s') = size_of ?t" unfolding s' by (rule size_of_eqI) (simp_all add: u)
    have "memb (symbols s') = memb ?u" unfolding s' by (simp add: fun_eq_iff memb_def)
    also have "\<dots> = memb ?e" by (rule memb_updClass) simp
    finally show "memb (symbols s') = (memb ?t)(?o := (memb ?t ?o)(tp_name ?f := None))" by (simp add: memb_eraseMember)
    show "\<forall>m < size_of ?t SK_Method. tparams (symbols s') m \<in> {tparams ?t m, tparams ?t 0}"
      by (simp add: s' tparams_def u)
    show "\<forall>q. in_table ?t q \<longrightarrow> (if q = ?r then zeroed ?t (symbols s') q
        else ownerOf (symbols s') q = ownerOf ?t q \<and> nameOf (symbols s') q = nameOf ?t q \<or> sym_kind q = Some SK_TypeParameter \<and> zeroed ?t (symbols s') q)"
      unfolding ref_eq_iff [OF rf(1)] using w
      by (auto simp: s' u zeroed_def ownerOf_def nameOf_def Let_def unsafeTableIndex_mkSymbolRef MAX_ID_def nth_list_update
          split: option.splits symbol_kind.splits simp flip: word_unat_eq_iff)
  qed simp_all
qed

section \<open>The first symbols\<close>

definition empty_state :: "name_table \<Rightarrow> sym_state" where
  "empty_state nt = \<lparr>symbols = \<lparr>classAndModules = [], methods = [], symFields = [], typeParameters = [], typeMembers = []\<rparr>,
     names = nt, symbolTableFrozen = False, classBoundary = 0\<rparr>"

definition first_class :: "u32 \<Rightarrow> class_or_module" where
  "first_class n = setIsModule False (emptyClass\<lparr>c_name := n, c_owner := root_class\<rparr>)"

text \<open>The tables when the root has been created.\<close>

definition first_tables :: "first_names \<Rightarrow> symbol_table" where
  "first_tables fn = \<lparr>
     classAndModules = [(first_class (Names_NoSymbol fn))\<lparr>
         c_members := AList.update (Names_NoTypeMember fn) (mkSymbolRef SK_TypeMember 0)
           (AList.update (Names_noField fn) (mkSymbolRef SK_FieldOrStaticField 0) [(Names_noMethod fn, mkSymbolRef SK_Method 0)]),
         c_typeMembers := [0]\<rparr>, first_class (Names_Top fn), first_class (Names_Bottom fn), first_class (Names_Root fn)],
     methods = [emptyMethod\<lparr>m_name := Names_noMethod fn, m_typeParameters := [0]\<rparr>],
     symFields = [emptyField\<lparr>f_name := Names_noField fn, f_flags := 1\<rparr>],
     typeParameters = [emptyTypeParameter\<lparr>tp_name := Names_NoTypeParameter fn, tp_flags := 5, tp_owner := mkSymbolRef SK_Method 0\<rparr>],
     typeMembers = [emptyTypeParameter\<lparr>tp_name := Names_NoTypeMember fn, tp_flags := 6, tp_owner := classRef 0\<rparr>]\<rparr>"

lemma classRef_root: "classRef root_class = sym_root" "symbolRefOf SK_ClassOrModule root_class = sym_root"
  by (simp_all add: symbolRefOf_def MAX_ID_def mkSymbolRef_def root_class_def sym_root_def)

definition state_of :: "name_table \<Rightarrow> class_or_module list \<Rightarrow> method_sym list \<Rightarrow> field list \<Rightarrow> type_parameter list \<Rightarrow> type_parameter list \<Rightarrow> sym_state" where
  "state_of nt cs ms fs tps tms = \<lparr>symbols = \<lparr>classAndModules = cs, methods = ms, symFields = fs, typeParameters = tps, typeMembers = tms\<rparr>,
     names = nt, symbolTableFrozen = False, classBoundary = 0\<rparr>"

lemma synthesize_first:
  "length cs < 4 \<Longrightarrow> synthesizeClass n 0 False (state_of nt cs ms fs tps tms) = Inr (of_nat (length cs), state_of nt (cs @ [first_class n]) ms fs tps tms)"
proof -
  assume "length cs < 4"
  then have "\<not> (3 :: u32) < of_nat (length cs)" by (simp add: word_less_nat_alt)
  then show ?thesis
    by (simp add: state_of_def synthesizeClass_def effects_defs modifyTables_def root_class_def first_class_def emptyClass_def)
qed

lemma first_class_simps [simp]: "c_members (first_class n) = []" "c_typeMembers (first_class n) = []" "c_owner (first_class n) = root_class"
  by (simp_all add: first_class_def setIsModule_def emptyClass_def)

lemmas first_run = state_of_def effects_defs storeOf_def classAt_def newIndex_def modifyTables_def Let_def
   setMember_def updClass_def updMethod_def addLoc_def loc_none_def

lemma first_method: "enterMethodSymbol env (loc_none 0) 0 n (loc_none 0) (state_of nt [first_class a] [] [] [] [])
   = Inr (0, state_of nt [(first_class a)\<lparr>c_members := [(n, mkSymbolRef SK_Method 0)]\<rparr>] [emptyMethod\<lparr>m_name := n\<rparr>] [] [] [])"
  by (simp add: enterMethodSymbol_def first_run emptyMethod_def)

lemma first_field: "enterFieldSymbol env (loc_none 0) 0 n (state_of nt [(first_class a)\<lparr>c_members := [(b, mkSymbolRef SK_Method 0)]\<rparr>] ms [] [] [])
   = Inr (0, state_of nt [(first_class a)\<lparr>c_members := AList.update n (mkSymbolRef SK_FieldOrStaticField 0) [(b, mkSymbolRef SK_Method 0)]\<rparr>] ms [emptyField\<lparr>f_name := n, f_flags := 1\<rparr>] [] [])"
  by (simp add: enterFieldSymbol_def first_run emptyField_def sym_exists_mkSymbolRef MAX_ID_def)

lemma first_type_parameter: "enterTypeParameter env (loc_none 0) 0 n CoVariant (state_of nt cs [emptyMethod\<lparr>m_name := b\<rparr>] fs [] tms)
   = Inr (0, state_of nt cs [emptyMethod\<lparr>m_name := b, m_typeParameters := [0]\<rparr>] fs
       [emptyTypeParameter\<lparr>tp_name := n, tp_flags := 5, tp_owner := mkSymbolRef SK_Method 0\<rparr>] tms)"
  by (simp add: enterTypeParameter_def methodAt_def findTypeParameter_def first_run emptyMethod_def emptyTypeParameter_def)

lemma first_type_member: "enterTypeMember env (loc_none 0) 0 n CoVariant (state_of nt [(first_class a)\<lparr>c_members := AList.update c (mkSymbolRef SK_FieldOrStaticField 0) [(b, mkSymbolRef SK_Method 0)]\<rparr>] ms fs tps [])
   = Inr (0, state_of nt [(first_class a)\<lparr>c_members := AList.update n (mkSymbolRef SK_TypeMember 0) (AList.update c (mkSymbolRef SK_FieldOrStaticField 0) [(b, mkSymbolRef SK_Method 0)]), c_typeMembers := [0]\<rparr>] ms fs tps
       [emptyTypeParameter\<lparr>tp_name := n, tp_flags := 6, tp_owner := classRef 0\<rparr>])"
  by (simp add: enterTypeMember_def first_run emptyTypeParameter_def sym_exists_mkSymbolRef symbolRefOf_def MAX_ID_def update_conv)

lemma first_symbols:
  "initFirstSymbols env fn (empty_state nt) = bindS (singletonClass env root_class) (\<lambda>c. bindS (synthesizeClass (Names_Todo fn) 0 False) (\<lambda>c. returnS ()))
     ((empty_state nt)\<lparr>symbols := first_tables fn\<rparr>)"
proof -
  have e: "empty_state nt = state_of nt [] [] [] [] []" "(empty_state nt)\<lparr>symbols := first_tables fn\<rparr> = state_of nt
     [(first_class (Names_NoSymbol fn))\<lparr>
         c_members := AList.update (Names_NoTypeMember fn) (mkSymbolRef SK_TypeMember 0)
           (AList.update (Names_noField fn) (mkSymbolRef SK_FieldOrStaticField 0) [(Names_noMethod fn, mkSymbolRef SK_Method 0)]),
         c_typeMembers := [0]\<rparr>, first_class (Names_Top fn), first_class (Names_Bottom fn), first_class (Names_Root fn)]
     (methods (first_tables fn)) (symFields (first_tables fn)) (typeParameters (first_tables fn)) (typeMembers (first_tables fn))"
    by (simp_all add: empty_state_def state_of_def first_tables_def)
  show ?thesis
    unfolding initFirstSymbols_def Let_def e(2) unfolding e(1)
    by (simp add: bindS_def synthesize_first first_method first_field first_type_parameter first_type_member first_tables_def
        del: AList.update.simps)
qed

lemma first_refs:
  assumes "in_table (first_tables fn) r"
  obtains (cls) i where "r = classRef i" "i \<in> {0, 1, 2, 3}" "unsafeTableIndex r = i" "sym_kind r = Some SK_ClassOrModule"
    | (other) k where "r = mkSymbolRef k 0" "k \<noteq> SK_ClassOrModule"
proof -
  obtain k where k: "sym_kind r = Some k" "unat (unsafeTableIndex r) < size_of (first_tables fn) k"
    using assms by (auto simp: in_table_def)
  note r = mkSymbolRef_surj(1) [OF k(1)]
  show thesis
  proof (cases "k = SK_ClassOrModule")
    case True
    have "x \<in> {0, 1, 2, 3}" if "unat x < 4" for x :: u32
      using that by (auto simp: word_unat_eq_iff)
    moreover have "unat (unsafeTableIndex r) < 4" using True k(2) by (simp add: first_tables_def)
    ultimately show ?thesis using True k(1) r cls by metis
  next
    case False
    then have "size_of (first_tables fn) k = 1" by (cases k) (simp_all add: first_tables_def)
    then have "unsafeTableIndex r = 0" using k(2) by (simp add: unat_eq_0)
    then show ?thesis using r other False by metis
  qed
qed

lemma first_wf:
  assumes "\<forall>n\<in>{Names_noMethod fn, Names_noField fn, Names_NoTypeMember fn}. n \<notin> pseudo env"
  shows "wf_symbols env (first_tables fn)"
proof -
  let ?t = "first_tables fn"
  have memb: "\<not> sym_exists r \<and> n \<notin> pseudo env" if "memb ?t c n = Some r" for c n r
  proof -
    have "unat c \<in> {0, 1, 2, 3}" using that by (auto simp: memb_def first_tables_def split: if_splits)
    then have "r \<in> {mkSymbolRef SK_Method 0, mkSymbolRef SK_FieldOrStaticField 0, mkSymbolRef SK_TypeMember 0} \<and> n \<in> {Names_noMethod fn, Names_noField fn, Names_NoTypeMember fn}"
      using that by (auto simp: memb_def first_tables_def update_conv split: if_splits)
    then show ?thesis using assms by (auto simp: sym_exists_mkSymbolRef MAX_ID_def)
  qed
  have sz: "size_of ?t k = (if k = SK_ClassOrModule then 4 else 1)" for k
    by (cases k) (simp_all add: first_tables_def)
  have other: "ownerOf ?t (mkSymbolRef k 0) = mkSymbolRef (owner_kind (mkSymbolRef k 0)) 0" if "k \<noteq> SK_ClassOrModule" for k
    using that by (cases k) (simp_all add: ownerOf_def unsafeTableIndex_mkSymbolRef MAX_ID_def first_tables_def owner_kind_def
        emptyMethod_def emptyField_def emptyTypeParameter_def symbolRefOf_def)
  have cls: "ownerOf ?t (classRef i) = sym_root" if "i \<in> {0, 1, 2, 3}" for i
    using that by (auto simp: ownerOf_def unsafeTableIndex_mkSymbolRef MAX_ID_def first_tables_def classRef_root)
  have tab: "in_table ?t (mkSymbolRef k 0)" "in_table ?t sym_root" "sym_kind sym_root = Some SK_ClassOrModule" for k
    by (simp_all add: in_table_def sz unsafeTableIndex_mkSymbolRef MAX_ID_def root_class_def flip: classRef_root(1))
  have "wf_owners ?t"
    unfolding wf_owners_def
  proof (intro allI impI)
    fix r assume "in_table ?t r"
    then show "in_table ?t (ownerOf ?t r) \<and> sym_kind (ownerOf ?t r) = Some (owner_kind r) \<and> (sym_kind r = Some SK_ClassOrModule \<longrightarrow>
        ownerOf ?t r = sym_root \<or> unsafeTableIndex (ownerOf ?t r) < unsafeTableIndex r)"
      by (cases rule: first_refs) (simp_all add: other cls tab owner_kind_def)
  qed
  moreover have "wf_sizes ?t" using sz by (simp add: wf_sizes_def del: size_of.simps)
  moreover have "wf_members env ?t" "wf_pseudo env ?t" using memb by (auto simp: wf_members_def wf_pseudo_def)
  moreover have "wf_tparams ?t" by (simp add: wf_tparams_def first_tables_def tparams_def)
  moreover have "wf_listed env ?t"
    unfolding wf_listed_def
    by (intro allI impI, erule first_refs) (auto simp: must_be_listed_def sym_exists_mkSymbolRef MAX_ID_def)
  ultimately show ?thesis by (simp add: wf_symbols_def)
qed

lemma synthesizeClass_wf:
  assumes wf: "wf_symbols env (symbols s)" and small: "length (classAndModules (symbols s)) < 2 ^ 29"
    and new: "\<not> sym_exists (stored (symbols s) root_class n)" and n: "n \<notin> pseudo env"
    and e: "synthesizeClass n super m s = Inr (r, s')"
  shows "wf_symbols env (symbols s')"
proof -
  let ?t = "symbols s"
  let ?d = "setIsModule m (emptyClass\<lparr>c_name := n, c_owner := root_class, c_superClass := super\<rparr>)"
  have len: "3 < length (classAndModules ?t)" using wfD(9) [OF wf] by simp
  then have big: "root_class < of_nat (length (classAndModules ?t))" "unat root_class < length (classAndModules ?t)"
    using small by (simp_all add: root_class_def word_less_nat_alt)
  let ?r = "classRef (of_nat (length (classAndModules ?t)))"
  have "symbols s' = setMember root_class n ?r (?t\<lparr>classAndModules := classAndModules ?t @ [?d]\<rparr>)"
    using e big(1) by (auto simp: synthesizeClass_def op_Inr elim!: bindS_InrE)
  also have "\<dots> = (setMember root_class n ?r ?t)\<lparr>classAndModules := classAndModules (setMember root_class n ?r ?t) @ [?d]\<rparr>"
    using big(2) by (simp add: setMember_def updClass_def list_update_append nth_append)
  finally have s': "symbols s' = \<dots>" .
  have "extends ?t SK_ClassOrModule root_class n (symbols s')"
    unfolding s' using small big(2) by (intro extends_class) (simp_all add: setIsModule_def emptyClass_def)
  then show ?thesis
    using wf_extends [OF wf _ _ _ _ n] small big(2) new by (simp add: stored_missing)
qed

end
