(* ===== verification/SymbolReach.thy ===== *)
theory SymbolReach
  imports SymbolSteps
begin

text \<open>
  The states of the symbol table that any sequence of operations reaches, and what holds in them: the
  checks of \<open>GlobalState::sanityCheck\<close>, owners that lead to the root, and one symbol per owner and name.
\<close>

section \<open>Reachable states\<close>

text \<open>The first state is the one in which \<open>initEmpty\<close> has created the root (\<open>first_symbols\<close>).  The last rule
  stands for what other code does: it writes other fields of symbols, enters names, and freezes and
  thaws the table.\<close>

inductive sym_reach :: "sym_env \<Rightarrow> first_names \<Rightarrow> sym_state \<Rightarrow> bool" for env fn where
  first: "sym_reach env fn ((empty_state nt)\<lparr>symbols := first_tables fn\<rparr>)"
| synthesize: "sym_reach env fn s \<Longrightarrow> synthesizeClass n super m s = Inr (r, s') \<Longrightarrow> n \<notin> pseudo env \<Longrightarrow>
    \<not> sym_exists (stored (symbols s) root_class n) \<Longrightarrow> length (classAndModules (symbols s)) < 2 ^ 29 \<Longrightarrow> sym_reach env fn s'"
| enter_class: "sym_reach env fn s \<Longrightarrow> enterClassOrModuleSymbol env l owner n s = Inr (r, s') \<Longrightarrow> n \<notin> pseudo env \<Longrightarrow> sym_reach env fn s'"
| enter_method: "sym_reach env fn s \<Longrightarrow> enterMethodSymbol env l owner n nl s = Inr (r, s') \<Longrightarrow> n \<notin> pseudo env \<Longrightarrow> sym_reach env fn s'"
| enter_field: "sym_reach env fn s \<Longrightarrow> enterFieldSymbol env l owner n s = Inr (r, s') \<Longrightarrow> n \<notin> pseudo env \<Longrightarrow> sym_reach env fn s'"
| enter_static_field: "sym_reach env fn s \<Longrightarrow> enterStaticFieldSymbol env l owner n s = Inr (r, s') \<Longrightarrow> n \<notin> pseudo env \<Longrightarrow> sym_reach env fn s'"
| enter_type_member: "sym_reach env fn s \<Longrightarrow> enterTypeMember env l owner n v s = Inr (r, s') \<Longrightarrow> n \<notin> pseudo env \<Longrightarrow> sym_reach env fn s'"
| enter_type_parameter: "sym_reach env fn s \<Longrightarrow> enterTypeParameter env l owner n v s = Inr (r, s') \<Longrightarrow> sym_reach env fn s'"
| enter_parameter: "sym_reach env fn s \<Longrightarrow> enterMethodParameter l owner n s = Inr (i, s') \<Longrightarrow> sym_reach env fn s'"
| enter_overload: "sym_reach env fn s \<Longrightarrow> enterNewMethodOverload env l m n num keep s = Inr (r, s') \<Longrightarrow> sym_reach env fn s'"
| singleton: "sym_reach env fn s \<Longrightarrow> singletonClass env c s = Inr (r, s') \<Longrightarrow> sym_reach env fn s'"
| static_init_class: "sym_reach env fn s \<Longrightarrow> staticInitForClass env c l s = Inr (r, s') \<Longrightarrow> sym_reach env fn s'"
| static_init_file: "sym_reach env fn s \<Longrightarrow> staticInitForFile env l s = Inr (r, s') \<Longrightarrow> sym_reach env fn s'"
| rename: "sym_reach env fn s \<Longrightarrow> mangleRenameMethod what n s = Inr (u, s') \<Longrightarrow> what \<noteq> 0 \<Longrightarrow> aliases_exist s \<Longrightarrow> sym_reach env fn s'"
| delete_method: "sym_reach env fn s \<Longrightarrow> deleteMethodSymbol what s = Inr (u, s') \<Longrightarrow> what \<noteq> 0 \<Longrightarrow> sym_reach env fn s'"
| delete_field: "sym_reach env fn s \<Longrightarrow> deleteFieldSymbol what s = Inr (u, s') \<Longrightarrow> what \<noteq> 0 \<Longrightarrow> sym_reach env fn s'"
| delete_type_member: "sym_reach env fn s \<Longrightarrow> deleteTypeMemberSymbol what s = Inr (u, s') \<Longrightarrow> what \<noteq> 0 \<Longrightarrow> sym_reach env fn s'"
| other: "sym_reach env fn s \<Longrightarrow> same_view (symbols s) (symbols s') \<Longrightarrow> sym_reach env fn s'"

definition wf_first :: "sym_env \<Rightarrow> first_names \<Rightarrow> bool" where
  "wf_first env fn \<longleftrightarrow> wf_env env \<and> (\<forall>n\<in>{Names_noMethod fn, Names_noField fn, Names_NoTypeMember fn}. n \<notin> pseudo env)"

lemma reach_wf:
  assumes "wf_first env fn" "sym_reach env fn s"
  shows "wf_symbols env (symbols s)"
  using assms(2)
proof (induction rule: sym_reach.induct)
  case (first nt)
  then show ?case using assms(1) first_wf by (simp add: wf_first_def)
next
  case (enter_parameter s l owner n i s')
  then show ?case using enterMethodParameter_view wf_same_view by blast
next
  case (other s s')
  then show ?case using wf_same_view by blast
qed (use assms(1) [unfolded wf_first_def] in \<open>auto intro: synthesizeClass_wf enterTypeParameter_wf enterNewMethodOverload_wf
  singletonClass_wf staticInitForClass_wf staticInitForFile_wf mangleRenameMethod_wf deleteMethodSymbol_wf deleteFieldSymbol_wf
  deleteTypeMemberSymbol_wf
  dest: entered_wf [OF _ enterClassOrModuleSymbol_entered] entered_wf [OF _ enterMethodSymbol_entered]
    entered_wf [OF _ enterFieldSymbol_entered] entered_wf [OF _ enterStaticFieldSymbol_entered] entered_wf [OF _ enterTypeMember_entered]\<close>)

text \<open>A table with one method, in the root class, for the concrete instances below.\<close>

definition sample_env :: sym_env where
  "sample_env = \<lparr>Names_singleton = 5, Names_attached = 9, Names_AttachedClass = 15, Names_staticInit = 13, Names_blkArg = 17,
     TEST_NAMESPACE = 19, packagesEnabled = False, testPackages = False, isKnownPackage = (\<lambda>_. False),
     fileData = (\<lambda>_. undefined)\<rparr>"

definition sample_names :: first_names where
  "sample_names = \<lparr>Names_NoSymbol = 23, Names_noMethod = 21, Names_noField = 25, Names_NoTypeParameter = 27, Names_NoTypeMember = 31,
     Names_Top = 35, Names_Bottom = 39, Names_Root = 43, Names_Todo = 47\<rparr>"

definition no_names :: name_table where
  "no_names = \<lparr>utf8Names = [], constantNames = [], uniqueNames = [], utf8Capacity = 1, constantCapacity = 1, uniqueCapacity = 2,
     namesByHash = replicate 8 emptyBucket, nameTableFrozen = False\<rparr>"

definition sample_method :: method_sym where
  "sample_method = emptyMethod\<lparr>m_name := 29, m_owner := root_class\<rparr>"

definition sample_tables :: symbol_table where
  "sample_tables = (let t = setMember root_class 29 (mkSymbolRef SK_Method 1) (first_tables sample_names) in t\<lparr>methods := methods t @ [sample_method]\<rparr>)"

definition sample_first :: sym_state where
  "sample_first = (empty_state no_names)\<lparr>symbols := first_tables sample_names\<rparr>"

definition sample :: sym_state where
  "sample = (empty_state no_names)\<lparr>symbols := sample_tables\<rparr>"

lemmas sample_run = enterMethodSymbol_def effects_defs storeOf_def classAt_def root_class_def newIndex_def modifyTables_def
  Let_def empty_state_def first_tables_def sample_tables_def sample_method_def setMember_def eraseMember_def updClass_def updMethod_def
  first_class_def setIsModule_def emptyClass_def addLoc_def emptyMethod_def Locs.loc_none_def MAX_ID_def

lemma sample_entered: "enterMethodSymbol sample_env (Locs.loc_none 0) root_class 29 (Locs.loc_none 0) sample_first = Inr (1, sample)"
  by (simp add: sample_run sample_first_def sample_def)

lemma sample_wf_first: "wf_first sample_env sample_names"
  by (simp add: wf_first_def wf_env_def pseudo_def sample_env_def sample_names_def nameKind_def UTF8_def)

lemma sample_reach: "sym_reach sample_env sample_names sample"
proof -
  have "sym_reach sample_env sample_names sample_first" unfolding sample_first_def by (rule sym_reach.first)
  then show ?thesis by (rule enter_method [OF _ sample_entered]) (simp add: pseudo_def sample_env_def)
qed

lemma sample_sizes: "length (methods sample_tables) = 2" "symbols sample = sample_tables"
  by (simp_all add: sample_def sample_tables_def Let_def setMember_def updClass_def first_tables_def)

lemma sample_refs:
  assumes "memb sample_tables c n = Some r" "sym_exists r"
  shows "r = mkSymbolRef SK_Method 1"
proof -
  have "length (classAndModules sample_tables) = 4"
    by (simp add: sample_tables_def Let_def setMember_def updClass_def first_tables_def root_class_def)
  then have "(n, r) \<in> set (c_members (classAndModules sample_tables ! unat c))" "unat c < 4"
    using assms(1) memb_bound [OF assms(1)] by (auto simp: memb_def dest: map_of_SomeD)
  moreover have "\<forall>i<4. \<forall>p\<in>set (c_members (classAndModules sample_tables ! i)). snd p = mkSymbolRef SK_Method 1 \<or> \<not> sym_exists (snd p)"
    by code_simp
  ultimately show ?thesis using assms(2) by force
qed

lemma sample_aliases: "aliases_exist sample"
proof -
  have "sym_exists (dealias (tableOf sample) (mkSymbolRef SK_Method 1))" by code_simp
  then show ?thesis using sample_refs by (auto simp: aliases_exist_def sample_sizes)
qed

lemma sample_listed:
  "in_table (symbols sample) (mkSymbolRef SK_Method 1)" "must_be_listed (mkSymbolRef SK_Method 1)"
  "\<not> deleted (symbols sample) (mkSymbolRef SK_Method 1)"
proof -
  show "in_table (symbols sample) (mkSymbolRef SK_Method 1)"
    by (simp add: in_table_def sym_kind_mkSymbolRef unsafeTableIndex_mkSymbolRef MAX_ID_def sample_sizes)
  show "must_be_listed (mkSymbolRef SK_Method 1)" by code_simp
  have "ownerOf (symbols sample) (mkSymbolRef SK_Method 1) \<noteq> ownerOf (symbols sample) (mkSymbolRef SK_Method 0)" by code_simp
  then show "\<not> deleted (symbols sample) (mkSymbolRef SK_Method 1)"
    by (simp add: deleted_def sym_kind_mkSymbolRef MAX_ID_def)
qed

text \<open>C4: However symbols are entered, renamed and deleted, the symbol table stays consistent: every member of a
  class is a symbol of the tables that is owned by the class and has the name it is listed under (the
  links between a class and its singleton class apart), and every symbol that has not been deleted is
  listed in its owner under its name.\<close>

theorem symbol_table_invariant:
  assumes "wf_first env fn" "sym_reach env fn s"
  shows "(\<forall>c n r. memb (symbols s) c n = Some r \<and> n \<notin> pseudo env \<and> sym_exists r \<longrightarrow>
         in_table (symbols s) r \<and> nameOf (symbols s) r = n \<and> ownerOf (symbols s) r = classRef c)
     \<and> (\<forall>r. in_table (symbols s) r \<and> must_be_listed r \<and> \<not> deleted (symbols s) r \<longrightarrow>
         memb (symbols s) (unsafeTableIndex (ownerOf (symbols s) r)) (nameOf (symbols s) r) = Some r)"
  using wf_memberD [OF reach_wf [OF assms]] wfD(4) [OF reach_wf [OF assms]]
  unfolding wf_listed_def listed_def by blast

theorem symbol_table_invariant_witness:
  "wf_first sample_env sample_names \<and> sym_reach sample_env sample_names sample
   \<and> in_table (symbols sample) (mkSymbolRef SK_Method 1) \<and> must_be_listed (mkSymbolRef SK_Method 1)
   \<and> \<not> deleted (symbols sample) (mkSymbolRef SK_Method 1)
   \<and> memb (symbols sample) (unsafeTableIndex (ownerOf (symbols sample) (mkSymbolRef SK_Method 1)))
       (nameOf (symbols sample) (mkSymbolRef SK_Method 1)) = Some (mkSymbolRef SK_Method 1)"
  using symbol_table_invariant [OF sample_wf_first sample_reach] sample_wf_first sample_reach sample_listed by blast

section \<open>Consequences\<close>

text \<open>Owners lead to the root, through symbols of the tables.\<close>

definition leads_to_root :: "symbol_table \<Rightarrow> u32 \<Rightarrow> bool" where
  "leads_to_root t r \<longleftrightarrow> (\<exists>n. (ownerOf t ^^ n) r = sym_root
     \<and> (\<forall>k<n. in_table t ((ownerOf t ^^ k) r) \<and> (ownerOf t ^^ k) r \<noteq> sym_root))"

lemma leads_to_root_step:
  assumes "in_table t r" "r \<noteq> sym_root" "leads_to_root t (ownerOf t r)"
  shows "leads_to_root t r"
proof -
  obtain n where "(ownerOf t ^^ n) (ownerOf t r) = sym_root"
    "\<forall>k<n. in_table t ((ownerOf t ^^ k) (ownerOf t r)) \<and> (ownerOf t ^^ k) (ownerOf t r) \<noteq> sym_root"
    using assms(3) by (auto simp: leads_to_root_def)
  then show ?thesis
    unfolding leads_to_root_def using assms(1,2) by (intro exI [of _ "Suc n"]) (auto simp: funpow_swap1 less_Suc_eq_0_disj)
qed

lemma root_leads_to_root: "leads_to_root t sym_root"
  unfolding leads_to_root_def by (intro exI [of _ 0]) simp

lemma wf_ownerD:
  assumes "wf_symbols env t" "in_table t r" "r \<noteq> sym_root"
  shows "in_table t (ownerOf t r)" "sym_kind (ownerOf t r) = Some (owner_kind r)"
    "sym_kind r = Some SK_ClassOrModule \<Longrightarrow> ownerOf t r = sym_root \<or> unsafeTableIndex (ownerOf t r) < unsafeTableIndex r"
  using wfD(5) [OF assms(1)] assms(2,3) unfolding wf_owners_def by blast+

lemma class_chain:
  assumes wf: "wf_symbols env t"
  shows "in_table t r \<Longrightarrow> sym_kind r = Some SK_ClassOrModule \<Longrightarrow> leads_to_root t r"
proof (induction "unat (unsafeTableIndex r)" arbitrary: r rule: less_induct)
  case less
  show ?case
  proof (cases "r = sym_root \<or> ownerOf t r = sym_root")
    case True
    then show ?thesis using root_leads_to_root leads_to_root_step less.prems(1) by metis
  next
    case False
    then have o: "in_table t (ownerOf t r)" "sym_kind (ownerOf t r) = Some SK_ClassOrModule"
      "unsafeTableIndex (ownerOf t r) < unsafeTableIndex r"
      using wf_ownerD [OF wf less.prems(1)] less.prems(2) by (auto simp: owner_kind_def)
    have "leads_to_root t (ownerOf t r)"
      using less.hyps [OF _ o(1,2)] o(3) by (simp add: word_less_nat_alt)
    then show ?thesis using leads_to_root_step less.prems(1) False by blast
  qed
qed

lemma owner_chain:
  assumes wf: "wf_symbols env t" and r: "in_table t r"
  shows "leads_to_root t r"
proof (cases "sym_kind r = Some SK_ClassOrModule")
  case False
  have root: "sym_kind sym_root = Some SK_ClassOrModule" by (simp flip: classRef_root(1))
  have class_owned: "leads_to_root t q"
    if "in_table t q" "sym_kind q \<noteq> Some SK_ClassOrModule" "sym_kind q \<noteq> Some SK_TypeParameter" for q
  proof -
    have "q \<noteq> sym_root" using root that(2) by auto
    moreover have "leads_to_root t (ownerOf t q)"
      using wf_ownerD(1,2) [OF wf that(1) calculation] that(3) by (intro class_chain [OF wf]) (simp_all add: owner_kind_def)
    ultimately show ?thesis by (rule leads_to_root_step [OF that(1)])
  qed
  have "r \<noteq> sym_root" using root False by auto
  note o = wf_ownerD(1,2) [OF wf r this]
  show ?thesis
  proof (cases "sym_kind r = Some SK_TypeParameter")
    case True
    then have "leads_to_root t (ownerOf t r)" using o by (intro class_owned) (simp_all add: owner_kind_def)
    then show ?thesis by (rule leads_to_root_step [OF r \<open>r \<noteq> sym_root\<close>])
  qed (rule class_owned [OF r False])
qed (rule class_chain [OF wf r])

text \<open>Symbols other than type parameters and the first classes are identified by their owner and their
  name while they are not deleted.\<close>

lemma symbols_identified:
  assumes "wf_first env fn" "sym_reach env fn s" "in_table (symbols s) q" "in_table (symbols s) r"
    "must_be_listed q" "must_be_listed r" "\<not> deleted (symbols s) q" "\<not> deleted (symbols s) r"
    "ownerOf (symbols s) q = ownerOf (symbols s) r" "nameOf (symbols s) q = nameOf (symbols s) r"
  shows "q = r"
proof -
  have "listed env (symbols s) q" "listed env (symbols s) r"
    using wfD(4) [OF reach_wf [OF assms(1,2)]] assms(3-8) by (auto simp: wf_listed_def)
  then show ?thesis using assms(9,10) by (simp add: listed_def)
qed

lemma listed_member:
  assumes wf: "wf_symbols env t" and i: "unat i < size_of t k" "must_be_listed (mkSymbolRef k i)" "\<not> deleted t (mkSymbolRef k i)"
    and owner: "ownerOf t (mkSymbolRef k i) = symbolRefOf SK_ClassOrModule c" "nameOf t (mkSymbolRef k i) = n"
  shows "memb t c n = Some (mkSymbolRef k i)" "unat c < size_of t SK_ClassOrModule" "i \<le> MAX_ID" "i \<noteq> 0"
proof -
  note rf = ref_facts [OF wf i(1)]
  have r: "mkSymbolRef k i \<noteq> sym_root"
  proof
    assume "mkSymbolRef k i = sym_root"
    then have "k = SK_ClassOrModule \<and> i = root_class"
      using mkSymbolRef_inject [OF rf(1), of root_class k SK_ClassOrModule] by (simp add: MAX_ID_def root_class_def flip: classRef_root(1))
    then show False using i(2) rf(3) by (simp add: must_be_listed_def root_class_def)
  qed
  have "listed env t (mkSymbolRef k i)" using wfD(4) [OF wf] rf(2) i(2,3) unfolding wf_listed_def by blast
  moreover have "c \<le> MAX_ID"
    using wf_ownerD(2) [OF wf rf(2) r] by (simp add: owner symbolRefOf_kind)
  ultimately show m: "memb t c n = Some (mkSymbolRef k i)"
    by (simp add: listed_def owner symbolRefOf_small unsafeTableIndex_mkSymbolRef)
  show "unat c < size_of t SK_ClassOrModule" using memb_bound [OF m] by simp
  show "i \<le> MAX_ID" by (rule rf(1))
  show "i \<noteq> 0" using i(2) rf(1) by (auto simp: must_be_listed_def sym_exists_mkSymbolRef)
qed

context symbol_entry
begin

lemma listed_yields:
  assumes "wf_symbols env (symbols s)" "unat i < size_of (symbols s) kind" "must_be_listed (mkSymbolRef kind i)"
    "\<not> deleted (symbols s) (mkSymbolRef kind i)" "ownerOf (symbols s) (mkSymbolRef kind i) = symbolRefOf SK_ClassOrModule owner"
    "nameOf (symbols s) (mkSymbolRef kind i) = name" "accepts x (symbols s) i"
  shows "yields (enter x owner name) i s"
  using enter_found [OF listed_member(2,1,4,3) [OF assms(1-6)] assms(2,7)] by (auto simp: yields_def)

end






section \<open>Locations\<close>

lemma replaceLoc_spec:
  "(case replaceLoc l locs of
      None \<Rightarrow> fileRef l \<notin> fileRef ` set locs
    | Some locs' \<Rightarrow> fileRef l \<in> fileRef ` set locs \<and> map fileRef locs' = map fileRef locs
        \<and> (distinct (map fileRef locs) \<longrightarrow> set locs' = insert l {x \<in> set locs. fileRef x \<noteq> fileRef l}))"
proof (induction locs)
  case (Cons e es)
  then show ?case by (cases "replaceLoc l es") (auto simp: image_iff)
qed simp

text \<open>A symbol has one location per file: adding one replaces the location in the same file and keeps the
  others; a location in an interface file never becomes the canonical one when there is another file; a
  file that is at least as strict as the file of the canonical location takes its place.\<close>

lemma addLoc_one_per_file:
  assumes "distinct (map fileRef locs)" "fileRef l \<noteq> 0"
  shows "distinct (map fileRef (addLoc env l locs))
     \<and> set (addLoc env l locs) = insert l {x \<in> set locs. fileRef x \<noteq> fileRef l}
     \<and> (locs \<noteq> [] \<and> fileRef l \<notin> fileRef ` set locs \<longrightarrow>
          mainLoc (addLoc env l locs) =
            (if sourceType (fileData env (fileRef l)) = File_Normal \<and> \<not> isRBIPath (path (fileData env (fileRef l)))
                \<and> loc_exists (mainLoc locs) \<and> strictLevel (fileData env (fileRef l)) \<ge> strictLevel (fileData env (fileRef (mainLoc locs)))
             then l else mainLoc locs))
     \<and> removeLocsForFile (fileRef l) (addLoc env l locs) = removeLocsForFile (fileRef l) locs"
proof (cases "replaceLoc l locs")
  case None
  then have new: "fileRef l \<notin> fileRef ` set locs" using replaceLoc_spec [of l locs] by simp
  then have "\<forall>x\<in>set locs. fileRef x \<noteq> fileRef l" by (metis imageI)
  then have kept: "{x \<in> set locs. fileRef x \<noteq> fileRef l} = set locs" "filter (\<lambda>x. fileRef x \<noteq> fileRef l) locs = locs"
    by auto
  show ?thesis
  proof (cases locs rule: rev_cases)
    case (snoc init x)
    then show ?thesis using assms new kept None
      by (auto simp: addLoc_def addLocInternal_def Let_def mainLoc_def removeLocsForFile_def)
  qed (use assms None in \<open>simp add: addLoc_def addLocInternal_def removeLocsForFile_def\<close>)
next
  case (Some locs')
  then have s: "map fileRef locs' = map fileRef locs" "set locs' = insert l {x \<in> set locs. fileRef x \<noteq> fileRef l}"
    "fileRef l \<in> fileRef ` set locs"
    using replaceLoc_spec [of l locs] assms(1) by simp_all
  have "filter (\<lambda>x. fileRef x \<noteq> fileRef l) locs' = filter (\<lambda>x. fileRef x \<noteq> fileRef l) locs"
    using Some by (induction locs arbitrary: locs') (auto split: if_splits)
  then show ?thesis
    using assms s Some by (simp add: addLoc_def addLocInternal_def removeLocsForFile_def)
qed

section \<open>Redefinitions\<close>

lemma lookupNameUnique_isUnique: "lookupNameUnique u nt = Inr r \<Longrightarrow> r \<noteq> 0 \<Longrightarrow> isUnique nt u r"
  using lookupBucket_pred [of "namesByHash nt" _ "isUnique nt u"]
  by (auto simp: lookupNameUnique_def lookupName_def split: sum.splits if_splits)

lemma lookupNameUnique_inject:
  "lookupNameUnique u nt = Inr r \<Longrightarrow> lookupNameUnique v nt = Inr r \<Longrightarrow> r \<noteq> 0 \<Longrightarrow> u = v"
  using lookupNameUnique_isUnique [of u nt r] lookupNameUnique_isUnique [of v nt r] by (auto simp: isUnique_def)

text \<open>The mangled names \<open>x$1\<close>, ..., \<open>x$n\<close> of \<open>name\<close> are members of the class.\<close>

definition mangled_members :: "sym_state \<Rightarrow> u32 \<Rightarrow> u32 \<Rightarrow> nat \<Rightarrow> (nat \<Rightarrow> u32) \<Rightarrow> bool" where
  "mangled_members s owner name n refs \<longleftrightarrow> (\<forall>k\<in>{1..n}. \<exists>x. x \<noteq> 0 \<and> sym_exists (refs k)
     \<and> lookupNameUnique \<lparr>un_original = name, un_num = of_nat k, un_kind = MangleRename_kind\<rparr> (names s) = Inr x
     \<and> memb (symbols s) owner x = Some (refs k))"

lemma mangled_members_bound:
  assumes m: "mangled_members s owner name n refs" and n: "n < 2 ^ 32" and c: "unat owner < length (classAndModules (symbols s))"
  shows "n \<le> length (c_members (classAndModules (symbols s) ! unat owner))"
proof -
  let ?ms = "c_members (classAndModules (symbols s) ! unat owner)"
  let ?u = "\<lambda>k. \<lparr>un_original = name, un_num = of_nat k, un_kind = MangleRename_kind\<rparr>"
  obtain x where x: "\<forall>k\<in>{1..n}. x k \<noteq> 0 \<and> lookupNameUnique (?u k) (names s) = Inr (x k) \<and> memb (symbols s) owner (x k) = Some (refs k)"
    using m unfolding mangled_members_def by metis
  have "inj_on x {1..n}"
  proof (rule inj_onI)
    fix i j
    assume ij: "i \<in> {1..n}" "j \<in> {1..n}" "x i = x j"
    then have "?u i = ?u j" using x by (metis lookupNameUnique_inject)
    then show "i = j" using ij n by (simp add: word_of_nat_eq_iff take_bit_nat_eq_self)
  qed
  moreover have "x ` {1..n} \<subseteq> fst ` set ?ms"
    using x c by (force simp: memb_def dest: map_of_SomeD)
  ultimately have "card {1..n} \<le> card (fst ` set ?ms)" by (metis card_image card_mono finite_imageI finite_set)
  also have "\<dots> \<le> length ?ms" by (metis card_length length_map set_map)
  finally show ?thesis by simp
qed

text \<open>The members of the class that have a unique name have one of the name table.\<close>

definition members_named :: "sym_state \<Rightarrow> u32 \<Rightarrow> bool" where
  "members_named s owner \<longleftrightarrow> (\<forall>n r. memb (symbols s) owner n = Some r \<and> nameKind n = UNIQUE \<longrightarrow>
     nameIndex n < length (uniqueNames (names s)))"

lemma mangled_members_few:
  assumes m: "mangled_members s owner name n refs" and n: "n < 2 ^ 32" and wf: "wf_names xxh (names s)"
  shows "n \<le> 2 ^ 30"
proof -
  let ?u = "\<lambda>k. \<lparr>un_original = name, un_num = of_nat k, un_kind = MangleRename_kind\<rparr>"
  have "inj_on ?u {1..n}"
    using n by (auto intro!: inj_onI simp: word_of_nat_eq_iff take_bit_nat_eq_self)
  moreover have "?u k \<in> set (uniqueNames (names s))" if "k \<in> {1..n}" for k
    using m that lookupNameUnique_isUnique unfolding mangled_members_def isUnique_def by (metis nth_mem)
  then have "?u ` {1..n} \<subseteq> set (uniqueNames (names s))" by blast
  ultimately have "card {1..n} \<le> card (set (uniqueNames (names s)))" by (metis card_image card_mono finite_set)
  also have "\<dots> \<le> length (uniqueNames (names s))" by (rule card_length)
  also have "\<dots> \<le> 2 ^ 30" by (rule unique.bound [OF wf])
  finally show ?thesis by simp
qed

lemma findMember_member:
  assumes "sym_exists (findMember (tableOf s) owner n)" "unat owner < length (classAndModules (symbols s))"
  obtains r where "memb (symbols s) owner n = Some r" "sym_exists r"
  using assms by (auto simp: findMember_def findMemberNoDealias_def tableOf_def memb_def Let_def sym_exists_def unsafeTableIndex_def
      split: if_splits option.splits)

lemma nextMangledLoop_returns:
  assumes wf: "wf_names xxh (names s)" and grow: "can_grow (names s)" and named: "members_named s owner"
    and c: "unat owner < length (classAndModules (symbols s))"
  shows "mangled_members s owner name n refs \<Longrightarrow> n < 2 ^ 32 - 1 \<Longrightarrow>
    length (c_members (classAndModules (symbols s) ! unat owner)) < left + n \<Longrightarrow>
    \<exists>mangled nt. nextMangledLoop owner name left (of_nat (Suc n)) s = Inr (mangled, s\<lparr>names := nt\<rparr>)"
proof (induction left arbitrary: n refs)
  case 0
  then show ?case using mangled_members_bound [OF 0(1) _ c] by simp
next
  case (Suc left)
  let ?u = "\<lparr>un_original = name, un_num = of_nat (Suc n), un_kind = MangleRename_kind\<rparr>"
  have few: "n \<le> 2 ^ 30" using mangled_members_few [OF Suc.prems(1) _ wf] Suc.prems(2) by simp
  have num: "unat (of_nat (Suc n) :: u32) = Suc n" using Suc.prems(2) by (intro unat_of_nat_u32) simp
  have valid: "un_num ?u \<noteq> 0"
  proof
    assume "un_num ?u = 0"
    then show False using num by (metis nat.distinct(1) unat_0 unique_name.select_convs(2))
  qed
  show ?case
  proof (cases "?u \<in> set (uniqueNames (names s))")
    case True
    then obtain i where i: "i < length (uniqueNames (names s))" "uniqueNames (names s) ! i = ?u"
      by (auto simp: in_set_conv_nth)
    let ?x = "mkNameRef UNIQUE i"
    have x: "lookupNameUnique ?u (names s) = Inr ?x" "freshNameUnique ?u (names s) = Inr (?x, names s)" "?x \<noteq> 0"
      using unique.lookup_hit [OF wf _ i(1)] unique.enter_hit [OF wf _ i(1)] unique.ref_nonzero [OF wf i(1)] valid i(2) by auto
    then have step: "nextMangledLoop owner name (Suc left) (of_nat (Suc n)) s =
        (if sym_exists (findMember (tableOf s) owner ?x) then nextMangledLoop owner name left (of_nat (Suc (Suc n))) s else Inr (?x, s))"
      by (simp add: effects_defs freshName_def add.commute)
    show ?thesis
    proof (cases "sym_exists (findMember (tableOf s) owner ?x)")
      case True
      then obtain r where r: "memb (symbols s) owner ?x = Some r" "sym_exists r" using findMember_member [OF True c] by blast
      then have "mangled_members s owner name (Suc n) (refs(Suc n := r))"
        using Suc.prems(1) x unfolding mangled_members_def by (auto simp: atLeastAtMostSuc_conv simp del: of_nat_Suc)
      from Suc.IH [OF this] few Suc.prems(3) True step show ?thesis by simp
    next
      case False
      with step have "nextMangledLoop owner name (Suc left) (of_nat (Suc n)) s = Inr (?x, s\<lparr>names := names s\<rparr>)" by simp
      then show ?thesis by blast
    qed
  next
    case False
    then obtain nt where nt: "freshNameUnique ?u (names s) = Inr (mkNameRef UNIQUE (length (uniqueNames (names s))), nt)"
      using unique.enter_miss [OF wf valid False grow] by blast
    let ?x = "mkNameRef UNIQUE (length (uniqueNames (names s)))"
    let ?s = "s\<lparr>names := nt\<rparr>"
    have len: "length (uniqueNames (names s)) < 2 ^ 30"
      using grow wf by (auto simp: can_grow_def wf_names_def capacity_def)
    have "\<not> sym_exists (findMember (tableOf ?s) owner ?x)"
    proof
      assume "sym_exists (findMember (tableOf ?s) owner ?x)"
      then obtain r where "memb (symbols s) owner ?x = Some r"
        using findMember_member [of ?s owner ?x] c by auto
      then show False using named mkNameRef_decode [OF _ len, of UNIQUE] unfolding members_named_def by fastforce
    qed
    then have "nextMangledLoop owner name (Suc left) (of_nat (Suc n)) s = Inr (?x, ?s)"
      using nt by (simp add: effects_defs freshName_def)
    then show ?thesis by blast
  qed
qed

lemma nextMangledName_returns:
  assumes "wf_names xxh (names s)" "can_grow (names s)" "members_named s owner" "unat owner < length (classAndModules (symbols s))"
  shows "\<exists>mangled nt. nextMangledName owner name s = Inr (mangled, s\<lparr>names := nt\<rparr>)"
proof -
  have "mangled_members s owner name 0 refs" for refs by (simp add: mangled_members_def)
  from nextMangledLoop_returns [OF assms this, of "Suc (length (c_members (classAndModules (symbols s) ! unat owner)))"] assms(4)
  show ?thesis by (simp add: nextMangledName_def effects_defs classAt_def)
qed

lemma mangleRenameMethod_returns:
  assumes wf: "wf_symbols env (symbols s)" and names: "wf_names xxh (names s)" "can_grow (names s)" "members_named s owner"
    and m: "memb (symbols s) owner name = Some (mkSymbolRef SK_Method what)" "what \<noteq> 0" "what \<le> MAX_ID"
    and owner: "owner = m_owner (methods (symbols s) ! unat what)"
  shows "\<exists>s1. mangleRenameMethod what name s = Inr ((), s1) \<and> symbolTableFrozen s1 = symbolTableFrozen s
    \<and> length (methods (symbols s1)) = length (methods (symbols s)) \<and> length (classAndModules (symbols s1)) = length (classAndModules (symbols s))"
proof -
  have c: "unat owner < length (classAndModules (symbols s))" using m(1) by (simp add: memb_def split: if_splits)
  have np: "name \<notin> pseudo env" using not_pseudo [OF wf m(1)] by simp
  have "in_table (symbols s) (mkSymbolRef SK_Method what)" "nameOf (symbols s) (mkSymbolRef SK_Method what) = name"
    using wf_memberD [OF wf m(1) np] m(2,3) by (simp_all add: sym_exists_mkSymbolRef)
  then have "unat what < length (methods (symbols s))" "m_name (methods (symbols s) ! unat what) = name"
    using m(3) by (auto simp: in_table_def nameOf_def unsafeTableIndex_mkSymbolRef sym_kind_mkSymbolRef)
  then show ?thesis
    using nextMangledName_returns [OF names c, of name] m(1) c owner
    by (auto simp: mangleRenameMethod_def effects_defs methodAt_def classAt_def memb_def modifyTables_def Let_def
        updMethod_def setMember_def eraseMember_def updClass_def)
qed

lemma enterMethodSymbol_returns:
  assumes "unat owner < length (classAndModules (symbols s))" "memb (symbols s) owner name = None" "\<not> symbolTableFrozen s"
    "length (methods (symbols s)) \<le> unat MAX_ID"
  shows "\<exists>r s'. enterMethodSymbol env l owner name nl s = Inr (r, s')"
  using assms by (auto simp: enterMethodSymbol_def storeOf_def effects_defs classAt_def memb_def sym_exists_def unsafeTableIndex_def
      newIndex_def modifyTables_def Let_def)

text \<open>What the two calls do when they return.\<close>

lemma rename_frees:
  assumes "wf_symbols env (symbols s)" "aliases_exist s" "what \<noteq> 0" "mangleRenameMethod what name s = Inr (u, s1)"
  shows "memb (symbols s1) (m_owner (methods (symbols s) ! unat what)) name = None"
proof (rule mangleRenameMethod_effect [OF assms(1,2,4)])
  fix ow mangled
  assume ow: "ow = m_owner (methods (symbols s) ! unat what)" and what: "what \<le> MAX_ID"
    and m: "memb (symbols s) ow name = Some (mkSymbolRef SK_Method what)"
    and n: "\<forall>q. memb (symbols s) ow mangled = Some q \<longrightarrow> \<not> sym_exists q"
    and mb: "memb (symbols s1) = (memb (symbols s))(ow := (memb (symbols s) ow)(name := None, mangled \<mapsto> mkSymbolRef SK_Method what))"
  have "sym_exists (mkSymbolRef SK_Method what)" using assms(3) what by (simp add: sym_exists_mkSymbolRef)
  then have "mangled \<noteq> name" using m n by auto
  then show ?thesis by (simp add: mb flip: ow)
qed

lemma rename_enter:
  assumes "wf_first env fn" "sym_reach env fn s" "aliases_exist s" "what \<noteq> 0" "mangleRenameMethod what name s = Inr (u, s1)"
    "enterMethodSymbol env l owner name nl s1 = Inr (r, s2)" "owner = m_owner (methods (symbols s) ! unat what)"
  shows "\<exists>mangled. nameKind mangled = UNIQUE \<and> mangled \<noteq> name
     \<and> (\<forall>q. memb (symbols s) owner mangled = Some q \<longrightarrow> \<not> sym_exists q)
     \<and> r = of_nat (length (methods (symbols s)))
     \<and> memb (symbols s2) = (memb (symbols s))(owner := (memb (symbols s) owner)
          (mangled \<mapsto> mkSymbolRef SK_Method what, name \<mapsto> mkSymbolRef SK_Method r))
     \<and> nameOf (symbols s2) (mkSymbolRef SK_Method what) = mangled"
proof -
  note wf = reach_wf [OF assms(1,2)]
  have env: "wf_env env" using assms(1) by (simp add: wf_first_def)
  show ?thesis
  proof (rule mangleRenameMethod_effect [OF wf assms(3,5)])
    fix ow mangled
    assume ow: "ow = m_owner (methods (symbols s) ! unat what)" and what: "unat what < length (methods (symbols s))" "what \<le> MAX_ID"
      and m: "memb (symbols s) ow name = Some (mkSymbolRef SK_Method what)"
      and n: "nameKind mangled = UNIQUE" "\<forall>q. memb (symbols s) ow mangled = Some q \<longrightarrow> \<not> sym_exists q"
      and sz: "size_of (symbols s1) = size_of (symbols s)"
      and mb: "memb (symbols s1) = (memb (symbols s))(ow := (memb (symbols s) ow)(name := None, mangled \<mapsto> mkSymbolRef SK_Method what))"
      and keys: "\<forall>q. in_table (symbols s) q \<longrightarrow> ownerOf (symbols s1) q = ownerOf (symbols s) q
        \<and> nameOf (symbols s1) q = (if q = mkSymbolRef SK_Method what then mangled else nameOf (symbols s) q)"
    have owner: "ow = owner" using ow assms(7) by simp
    have ex: "sym_exists (mkSymbolRef SK_Method what)" using assms(4) what(2) by (simp add: sym_exists_mkSymbolRef)
    then have ne: "mangled \<noteq> name" using m n(2) by auto
    have np: "name \<notin> pseudo env" using not_pseudo [OF wf m] by simp
    note wf1 = mangleRenameMethod_wf [OF wf env assms(3,4,5)]
    have e: "entered SK_Method owner name s1 r s2" by (rule enterMethodSymbol_entered [OF assms(6)])
    have free: "memb (symbols s1) owner name = None" using ne by (simp add: mb owner)
    with e have r: "r = of_nat (length (methods (symbols s)))" "extends (symbols s1) SK_Method owner name (symbols s2)"
      using fun_cong [OF sz, of SK_Method] by (auto simp: entered_def)
    have tab: "in_table (symbols s) (mkSymbolRef SK_Method what)" "in_table (symbols s1) (mkSymbolRef SK_Method what)"
      using what sz by (simp_all add: in_table_def unsafeTableIndex_mkSymbolRef sym_kind_mkSymbolRef)
    have "memb (symbols s2) = (memb (symbols s1))(owner := (memb (symbols s1) owner)(name \<mapsto> mkSymbolRef SK_Method r))"
      using entered_found [OF wf1 e np] by blast
    also have "\<dots> = (memb (symbols s))(owner := (memb (symbols s) owner)
          (mangled \<mapsto> mkSymbolRef SK_Method what, name \<mapsto> mkSymbolRef SK_Method r))"
      using ne by (auto simp: mb owner fun_eq_iff)
    finally show ?thesis
      using n ne r tab keys by (auto simp: owner extends_def)
  qed
qed

text \<open>C14: Redefining a method keeps the old definition.  The namer's pair of calls, \<open>mangleRenameMethod\<close> of the old
  method and \<open>enterMethodSymbol\<close> under the freed name, both return: the loop of \<open>nextMangledName\<close> ends.
  Afterwards the name belongs to a new method, the old method is a member of the same class under a
  unique name that was free, and every other member of every class is what it was.

  The method is a member of its owner under \<open>name\<close>, no member is an alias of a missing symbol
  (\<open>aliases_exist\<close>), the unique names of the members are names of the name table (\<open>members_named\<close>), and
  neither table is frozen or full.\<close>

theorem redefinition_keeps_old_method:
  assumes "wf_first env fn" "sym_reach env fn s" "aliases_exist s" "what \<noteq> 0" "what \<le> MAX_ID"
    and "owner = m_owner (methods (symbols s) ! unat what)" "memb (symbols s) owner name = Some (mkSymbolRef SK_Method what)"
    and "wf_names xxh (names s)" "can_grow (names s)" "members_named s owner"
    and "\<not> symbolTableFrozen s" "length (methods (symbols s)) \<le> unat MAX_ID"
  shows "\<exists>s1 s2 r mangled. mangleRenameMethod what name s = Inr ((), s1) \<and> enterMethodSymbol env l owner name nl s1 = Inr (r, s2)
     \<and> nameKind mangled = UNIQUE \<and> mangled \<noteq> name
     \<and> (\<forall>q. memb (symbols s) owner mangled = Some q \<longrightarrow> \<not> sym_exists q)
     \<and> r = of_nat (length (methods (symbols s)))
     \<and> memb (symbols s2) = (memb (symbols s))(owner := (memb (symbols s) owner)
          (mangled \<mapsto> mkSymbolRef SK_Method what, name \<mapsto> mkSymbolRef SK_Method r))
     \<and> nameOf (symbols s2) (mkSymbolRef SK_Method what) = mangled"
proof -
  note wf = reach_wf [OF assms(1,2)]
  obtain s1 where s1: "mangleRenameMethod what name s = Inr ((), s1)" "symbolTableFrozen s1 = symbolTableFrozen s"
    "length (methods (symbols s1)) = length (methods (symbols s))"
    "length (classAndModules (symbols s1)) = length (classAndModules (symbols s))"
    using mangleRenameMethod_returns [OF wf assms(8,9,10,7,4,5,6)] by blast
  have "memb (symbols s1) owner name = None" using rename_frees [OF wf assms(3,4) s1(1)] assms(6) by simp
  then obtain r s2 where s2: "enterMethodSymbol env l owner name nl s1 = Inr (r, s2)"
    using enterMethodSymbol_returns [of owner s1 name env l nl] s1(2-4) assms(7,11,12) by (auto simp: memb_def split: if_splits)
  from rename_enter [OF assms(1-4) s1(1) s2 assms(6)] s1(1) s2 show ?thesis by blast
qed

definition sample_renamed :: sym_state where
  "sample_renamed = \<lparr>symbols = updMethod 1 (\<lambda>m. m\<lparr>m_name := 2\<rparr>)
       (setMember root_class 2 (mkSymbolRef SK_Method 1) (eraseMember root_class 29 sample_tables)),
     names = no_names\<lparr>uniqueNames := [\<lparr>un_original = 29, un_num = 1, un_kind = 2\<rparr>],
        namesByHash := (replicate 8 emptyBucket)[6 := \<lparr>bk_hash = 260174694, bk_rawId = 2\<rparr>]\<rparr>,
     symbolTableFrozen = False, classBoundary = 0\<rparr>"

lemma sample_rename: "mangleRenameMethod 1 29 sample = Inr ((), sample_renamed)"
  by code_simp

lemma sample_named: "wf_names xxh (names sample)" "can_grow (names sample)" "members_named sample root_class"
proof -
  have "no_names = initNames 1 1 2" by code_simp
  then show "wf_names xxh (names sample)" using wf_initNames [of 1 1 2] by (simp add: sample_def empty_state_def)
  show "can_grow (names sample)" by (simp add: can_grow_def capacity_def sample_def empty_state_def no_names_def)
  have "\<forall>p\<in>set (c_members (classAndModules (symbols sample) ! unat root_class)). nameKind (fst p) \<noteq> UNIQUE" by code_simp
  then show "members_named sample root_class"
    by (auto simp: members_named_def memb_def split: if_splits dest!: map_of_SomeD)
qed

theorem redefinition_keeps_old_method_witness:
  "\<exists>s1 s2 r mangled. mangleRenameMethod 1 29 sample = Inr ((), s1)
     \<and> enterMethodSymbol sample_env (Locs.loc_none 0) root_class 29 (Locs.loc_none 0) s1 = Inr (r, s2)
     \<and> mangled \<noteq> 29 \<and> memb (symbols s2) root_class mangled = Some (mkSymbolRef SK_Method 1)
     \<and> memb (symbols s2) root_class 29 = Some (mkSymbolRef SK_Method 2)"
proof -
  have o: "root_class = m_owner (methods (symbols sample) ! unat (1::u32))" by code_simp
  have m: "memb (symbols sample) root_class 29 = Some (mkSymbolRef SK_Method 1)" by code_simp
  have "\<not> symbolTableFrozen sample" "length (methods (symbols sample)) \<le> unat MAX_ID"
    by (simp_all add: sample_def empty_state_def sample_sizes MAX_ID_def)
  from redefinition_keeps_old_method [OF sample_wf_first sample_reach sample_aliases _ _ o m sample_named this,
      of "Locs.loc_none 0" "Locs.loc_none 0"]
  show ?thesis by (auto simp: MAX_ID_def sample_sizes)
qed

section \<open>The method a definition replaced\<close>

lemma renamedLoop_run:
  assumes m: "mangled_members s owner name n refs" and c: "unat owner < length (classAndModules (symbols s))"
    and e: "lookupNameUnique \<lparr>un_original = name, un_num = of_nat (Suc n), un_kind = MangleRename_kind\<rparr> (names s) = Inr x"
      "x \<noteq> 0 \<Longrightarrow> memb (symbols s) owner x = None"
  shows "1 \<le> k \<Longrightarrow> k \<le> n \<Longrightarrow> Suc n - k < left \<Longrightarrow>
    renamedLoop owner name left (of_nat k) (Some (refs k)) s = Inr (if x = 0 then refs n else 0, s)"
proof (induction left arbitrary: k)
  case (Suc left)
  have ex: "sym_exists (refs k)" using m Suc.prems by (auto simp: mangled_members_def)
  have suc: "of_nat k + 1 = (of_nat (Suc k) :: u32)" by simp
  show ?case
  proof (cases "k = n")
    case True
    obtain left' where l: "left = Suc left'" using Suc.prems True by (cases left) auto
    show ?thesis using ex e c suc unfolding True
      by (simp add: l effects_defs lookupNameS_def suc classAt_def memb_def del: of_nat_Suc)
  next
    case False
    then have k: "Suc k \<in> {1..n}" using Suc.prems by simp
    then obtain y where y: "y \<noteq> 0" "memb (symbols s) owner y = Some (refs (Suc k))"
      "lookupNameUnique \<lparr>un_original = name, un_num = of_nat (Suc k), un_kind = MangleRename_kind\<rparr> (names s) = Inr y"
      using m unfolding mangled_members_def by blast
    from Suc.IH [of "Suc k"] k Suc.prems y c ex show ?thesis
      by (simp add: effects_defs lookupNameS_def suc classAt_def memb_def del: of_nat_Suc)
  qed
qed simp

text \<open>What \<open>findRenamedSymbol\<close> finds for a method whose name is not mangled, when the class has the members
  \<open>x$1\<close>, ..., \<open>x$n\<close> and no \<open>x$(n+1)\<close>: the method \<open>x$n\<close> if the name \<open>x$(n+1)\<close> has never been made, and nothing
  if some other class has given rise to that name.\<close>

lemma findRenamedSymbol_last:
  assumes "mangled_members s owner name n refs" "1 \<le> n" "n < 2 ^ 32" "unat owner < length (classAndModules (symbols s))"
    "sym_exists ref" "sym_kind ref = Some SK_Method" "nameOf (symbols s) ref = name" "nameKind name \<noteq> UNIQUE"
    "lookupNameUnique \<lparr>un_original = name, un_num = of_nat (Suc n), un_kind = MangleRename_kind\<rparr> (names s) = Inr x"
    "memb (symbols s) owner x = None"
  shows "findRenamedSymbol owner ref s = Inr (if x = 0 then refs n else 0, s)"
proof -
  have "1 \<in> {1..n}" using assms(2) by simp
  then obtain y where y: "memb (symbols s) owner y = Some (refs 1)"
      "lookupNameUnique \<lparr>un_original = name, un_num = 1, un_kind = MangleRename_kind\<rparr> (names s) = Inr y"
    using assms(1) unfolding mangled_members_def by (metis of_nat_1)
  let ?left = "Suc (Suc (length (c_members (classAndModules (symbols s) ! unat owner))))"
  have "Suc n - 1 < ?left" using mangled_members_bound [OF assms(1,3,4)] by simp
  from renamedLoop_run [OF assms(1,4,9,10) _ assms(2) this]
  have "renamedLoop owner name ?left 1 (Some (refs 1)) s = Inr (if x = 0 then refs n else 0, s)" by simp
  then show ?thesis
    using assms(4-8) y by (simp add: findRenamedSymbol_def effects_defs classAt_def lookupNameS_def memb_def Let_def)
qed

text \<open>The second method of the name, entered after the first was renamed; another class has a method \<open>x$2\<close>.\<close>

definition sample_shadowed :: sym_state where
  "sample_shadowed = sample_renamed\<lparr>
     symbols := (let t = setMember root_class 29 (mkSymbolRef SK_Method 2) (symbols sample_renamed) in t\<lparr>methods := methods t @ [sample_method]\<rparr>),
     names := (case freshNameUnique \<lparr>un_original = 29, un_num = 2, un_kind = 2\<rparr> (names sample_renamed) of Inr (n, nt) \<Rightarrow> nt | Inl e \<Rightarrow> no_names)\<rparr>"

end
