(* ===== verification/UIntSets.thy ===== *)
theory UIntSets
  imports Prelude
begin

text \<open>
  Sets of small unsigned integers (\<open>common/UIntSet.cc\<close>): a vector of 32-bit words with one bit per item.
  The operations refine those on mathematical sets; the locale \<open>bounded_sets\<close> is what the passes over
  control flow graphs need of them.
\<close>

section \<open>Operations\<close>

type_synonym uint_set = "u32 list"

text \<open>The constructor: \<open>size\<close> divided by 32, rounded up.\<close>

definition UIntSet :: "u32 \<Rightarrow> uint_set" where
  "UIntSet sz = replicate (unat ((sz + 31) div 32)) 0"

definition uset_clear :: "uint_set \<Rightarrow> uint_set" where
  "uset_clear s = map (\<lambda>items. 0) s"

definition memberIndex :: "u32 \<Rightarrow> nat" where
  "memberIndex item = unat (drop_bit 5 item)"

definition memberMask :: "u32 \<Rightarrow> u32" where
  "memberMask item = push_bit (unat (item AND 0x1F)) 1"

definition uset_add :: "u32 \<Rightarrow> uint_set \<Rightarrow> uint_set" where
  "uset_add item s = s[memberIndex item := s ! memberIndex item OR memberMask item]"

definition uset_remove :: "u32 \<Rightarrow> uint_set \<Rightarrow> uint_set" where
  "uset_remove item s = s[memberIndex item := s ! memberIndex item AND NOT (memberMask item)]"

definition uset_contains :: "uint_set \<Rightarrow> u32 \<Rightarrow> bool" where
  "uset_contains s item \<longleftrightarrow> (s ! memberIndex item) AND memberMask item > 0"

text \<open>The overloads on two and three sets, for sets of the same size.\<close>

definition uset_removeAll :: "uint_set \<Rightarrow> uint_set \<Rightarrow> uint_set" where
  "uset_removeAll s t = map2 (\<lambda>x y. x AND NOT y) s t"

definition uset_addAll :: "uint_set \<Rightarrow> uint_set \<Rightarrow> uint_set" where
  "uset_addAll s t = map2 (\<lambda>x y. x OR y) s t"

definition uset_addBoth :: "uint_set \<Rightarrow> uint_set \<Rightarrow> uint_set \<Rightarrow> uint_set" where
  "uset_addBoth s a b = map2 (\<lambda>x y. x OR y) s (map2 (\<lambda>x y. x OR y) a b)"

definition uset_empty :: "uint_set \<Rightarrow> bool" where
  "uset_empty s \<longleftrightarrow> list_all (\<lambda>items. \<not> items > 0) s"

definition uset_intersect :: "uint_set \<Rightarrow> uint_set \<Rightarrow> uint_set" where
  "uset_intersect s t = map2 (\<lambda>x y. x AND y) s t"

definition uset_overwriteWithUnion :: "uint_set \<Rightarrow> uint_set \<Rightarrow> uint_set \<Rightarrow> uint_set" where
  "uset_overwriteWithUnion s a b = map2 (\<lambda>x y. x OR y) a b"

text \<open>\<open>__builtin_popcount\<close> and \<open>__builtin_ctz\<close>.\<close>

definition popcount :: "u32 \<Rightarrow> nat" where
  "popcount w = length (filter (bit w) [0..<32])"

definition ctz :: "u32 \<Rightarrow> nat" where
  "ctz w = length (takeWhile (\<lambda>n. \<not> bit w n) [0..<32])"

definition uset_size :: "uint_set \<Rightarrow> nat" where
  "uset_size s = sum_list (map popcount s)"

section \<open>Bits\<close>

lemma lowest_bit:
  assumes "w \<noteq> 0"
  shows "ctz w < 32" "bit w (ctz w)" "\<And>m. m < ctz w \<Longrightarrow> \<not> bit w m"
proof -
  obtain k where k: "bit w k" using assms by (auto simp: bit_eq_iff)
  then have "k < 32" using bit_imp_le_length [of w k] by simp
  let ?tw = "takeWhile (\<lambda>n. \<not> bit w n) [0..<32]"
  have "?tw \<noteq> [0..<32]" using k \<open>k < 32\<close> by (auto simp: takeWhile_eq_all_conv)
  then have l: "length ?tw < 32"
    using takeWhile_eq_take [of "\<lambda>n. \<not> bit w n" "[0..<32]"] length_takeWhile_le [of "\<lambda>n. \<not> bit w n" "[0..<32]"]
    by (cases "length ?tw = 32") auto
  then show "ctz w < 32" by (simp add: ctz_def)
  show "bit w (ctz w)" using nth_length_takeWhile [of "\<lambda>n. \<not> bit w n" "[0..<32]"] l by (simp add: ctz_def)
  show "\<not> bit w m" if "m < ctz w" for m
  proof -
    have "?tw ! m = m" using that l by (simp add: ctz_def takeWhile_nth)
    then show ?thesis using that set_takeWhileD [of m "\<lambda>n. \<not> bit w n" "[0..<32]"] by (metis ctz_def nth_mem)
  qed
qed

text \<open>\<open>entry & (entry - 1)\<close> clears the lowest bit.\<close>

lemma bit_clear_lowest:
  assumes "(w :: u32) \<noteq> 0"
  shows "bit (w AND (w - 1)) m \<longleftrightarrow> bit w m \<and> m \<noteq> ctz w"
proof -
  note low = lowest_bit [OF assms]
  let ?n = "ctz w" and ?v = "unset_bit (ctz w) w"
  have bits: "bit ?v m \<longleftrightarrow> bit w m \<and> m \<noteq> ?n" for m by (auto simp: bit_simps)
  have "?v AND 2 ^ ?n = 0" by (rule bit_word_eqI) (auto simp: bit_simps)
  then have "?v + 2 ^ ?n = ?v OR 2 ^ ?n" by (rule disjunctive_add_eq_or)
  also have "\<dots> = w" by (rule bit_word_eqI) (use low(1,2) in \<open>auto simp: bit_simps\<close>)
  finally have w: "w = ?v + 2 ^ ?n" by simp
  have "?v AND mask ?n = 0" by (rule bit_word_eqI) (use low(3) in \<open>auto simp: bit_simps\<close>)
  then have "?v + mask ?n = ?v OR mask ?n" by (rule disjunctive_add_eq_or)
  moreover have "w - 1 = ?v + mask ?n" by (subst w) (simp add: mask_eq_exp_minus_1)
  ultimately have "bit (w - 1) m \<longleftrightarrow> bit ?v m \<or> m < ?n" for m using low(1) by (auto simp: bit_simps)
  then show ?thesis using low(3) by (auto simp: bit_simps bits)
qed

lemma length_filter_upt: "length (filter P [0..<n]) = card {m. m < n \<and> P m}"
  using distinct_card [of "filter P [0..<n]"] by simp

lemma clear_lowest_popcount:
  assumes "w \<noteq> 0"
  shows "popcount w = Suc (popcount (w AND (w - 1)))"
proof -
  have "{m. m < 32 \<and> bit w m} = insert (ctz w) {m. m < 32 \<and> bit w m \<and> m \<noteq> ctz w}"
    using lowest_bit [OF assms] by auto
  then have "card {m. m < 32 \<and> bit w m} = Suc (card {m. m < 32 \<and> bit w m \<and> m \<noteq> ctz w})" by simp
  moreover have "popcount v = card {m. m < 32 \<and> bit v m}" for v
    by (simp add: popcount_def length_filter_upt)
  ultimately show ?thesis by (simp add: bit_clear_lowest [OF assms])
qed

section \<open>Iteration\<close>

text \<open>The items that the inner loop of \<open>forEach\<close> visits, in order.\<close>

function wordItems :: "u32 \<Rightarrow> u32 \<Rightarrow> u32 list" where
  "wordItems base entry = (if entry = 0 then [] else (base + of_nat (ctz entry)) # wordItems base (entry AND (entry - 1)))"
  by pat_completeness auto
termination
  by (relation "measure (\<lambda>(base, entry). popcount entry)") (simp_all add: clear_lowest_popcount)

declare wordItems.simps [simp del]

fun uset_forEach :: "u32 \<Rightarrow> uint_set \<Rightarrow> u32 list" where
  "uset_forEach base [] = []"
| "uset_forEach base (entry # es) = wordItems base entry @ uset_forEach (base + 32) es"

definition uset_items :: "uint_set \<Rightarrow> u32 list" where
  "uset_items s = uset_forEach 0 s"

section \<open>The set of a vector\<close>

definition uset_abs :: "uint_set \<Rightarrow> u32 set" where
  "uset_abs s = {i. unat i div 32 < length s \<and> bit (s ! (unat i div 32)) (unat i mod 32)}"

definition uset_fits :: "nat \<Rightarrow> uint_set \<Rightarrow> bool" where
  "uset_fits n s \<longleftrightarrow> length s = n \<and> n \<le> 2 ^ 27"

definition can_hold :: "nat \<Rightarrow> u32 \<Rightarrow> bool" where
  "can_hold n i \<longleftrightarrow> unat i div 32 < n"

lemma memberIndex_div: "memberIndex i = unat i div 32"
  by (simp only: memberIndex_def unat_drop_bit_eq) (simp add: drop_bit_eq_div)

lemma memberMask_mod: "memberMask i = 2 ^ (unat i mod 32)"
proof -
  have "(31 :: u32) = mask 5" by (simp add: mask_eq_exp_minus_1)
  then have "i AND 0x1F = take_bit 5 i" by (simp only: take_bit_eq_mask)
  then have "unat (i AND 0x1F) = unat i mod 32"
    by (simp only: unsigned_take_bit_eq) (simp add: take_bit_eq_mod)
  then show ?thesis by (simp add: memberMask_def push_bit_eq_mult)
qed

lemma item_eq_iff: "i = j \<longleftrightarrow> unat i div 32 = unat j div 32 \<and> unat i mod 32 = unat (j :: u32) mod 32"
  by (metis div_mult_mod_eq unsigned_word_eqI)

lemma uset_contains_abs: "can_hold (length s) i \<Longrightarrow> uset_contains s i \<longleftrightarrow> i \<in> uset_abs s"
  by (simp add: can_hold_def uset_contains_def uset_abs_def memberIndex_div memberMask_mod word_neq_0_conv [symmetric]
      and_exp_eq_0_iff_not_bit)

lemma uset_add_abs: "can_hold (length s) i \<Longrightarrow> uset_abs (uset_add i s) = insert i (uset_abs s)"
  by (auto simp: can_hold_def uset_abs_def uset_add_def memberIndex_div memberMask_mod nth_list_update bit_simps item_eq_iff [of _ i])

lemma uset_remove_abs: "can_hold (length s) i \<Longrightarrow> uset_abs (uset_remove i s) = uset_abs s - {i}"
  by (auto simp: can_hold_def uset_abs_def uset_remove_def memberIndex_div memberMask_mod nth_list_update bit_simps item_eq_iff [of _ i])

lemma uset_clear_abs: "uset_abs (uset_clear s) = {}"
  by (auto simp: uset_abs_def uset_clear_def)

lemma uset_removeAll_abs: "length t = length s \<Longrightarrow> uset_abs (uset_removeAll s t) = uset_abs s - uset_abs t"
  by (auto simp: uset_abs_def uset_removeAll_def bit_simps)

lemma uset_addAll_abs: "length t = length s \<Longrightarrow> uset_abs (uset_addAll s t) = uset_abs s \<union> uset_abs t"
  by (auto simp: uset_abs_def uset_addAll_def bit_simps)

lemma uset_addBoth_abs: "length a = length s \<Longrightarrow> length b = length s \<Longrightarrow>
    uset_abs (uset_addBoth s a b) = uset_abs s \<union> uset_abs a \<union> uset_abs b"
  by (auto simp: uset_abs_def uset_addBoth_def bit_simps)

lemma uset_intersect_abs: "length t = length s \<Longrightarrow> uset_abs (uset_intersect s t) = uset_abs s \<inter> uset_abs t"
  by (auto simp: uset_abs_def uset_intersect_def bit_simps)

lemma uset_overwriteWithUnion_abs: "length a = length b \<Longrightarrow>
    uset_abs (uset_overwriteWithUnion s a b) = uset_abs a \<union> uset_abs b"
  by (auto simp: uset_abs_def uset_overwriteWithUnion_def bit_simps)

lemma uset_lengths [simp]:
  "length (uset_clear s) = length s" "length (uset_add i s) = length s" "length (uset_remove i s) = length s"
  "length (uset_removeAll s t) = min (length s) (length t)" "length (uset_addAll s t) = min (length s) (length t)"
  "length (uset_addBoth s a b) = min (length s) (min (length a) (length b))" "length (uset_intersect s t) = min (length s) (length t)"
  "length (uset_overwriteWithUnion s a b) = min (length a) (length b)"
  by (simp_all add: uset_clear_def uset_add_def uset_remove_def uset_removeAll_def uset_addAll_def uset_addBoth_def
      uset_intersect_def uset_overwriteWithUnion_def)

section \<open>Iteration visits the items in order\<close>

lemma filter_lowest:
  assumes "w \<noteq> 0"
  shows "filter (bit w) [0..<32] = ctz w # filter (bit (w AND (w - 1))) [0..<32]"
proof -
  note low = lowest_bit [OF assms]
  have split: "[0..<32] = [0..<ctz w] @ ctz w # [Suc (ctz w)..<32]"
    using low(1) upt_add_eq_append [of 0 "ctz w" "32 - ctz w"] upt_conv_Cons [of "ctz w" 32] by (simp del: upt_rec_numeral)
  have below: "filter (bit v) [0..<ctz w] = []" if "\<And>m. bit v m \<Longrightarrow> bit w m" for v
    using low(3) that by (fastforce simp: filter_empty_conv)
  have "filter (bit (w AND (w - 1))) [Suc (ctz w)..<32] = filter (bit w) [Suc (ctz w)..<32]"
    by (rule filter_cong) (auto simp: bit_clear_lowest [OF assms])
  moreover have "filter (bit (w AND (w - 1))) [0..<ctz w] = []" by (rule below) (simp add: bit_clear_lowest [OF assms])
  ultimately show ?thesis
    unfolding split filter_append using below [of w] low(2) by (simp add: bit_clear_lowest [OF assms])
qed

lemma wordItems_filter: "wordItems base w = map (\<lambda>m. base + of_nat m) (filter (bit w) [0..<32])"
proof (induction base w rule: wordItems.induct)
  case (1 base entry)
  show ?case
  proof (cases "entry = 0")
    case False
    then show ?thesis using 1 by (simp add: wordItems.simps [of base entry] filter_lowest [OF False] del: upt_rec_numeral)
  qed (simp add: wordItems.simps)
qed

definition bit_at :: "uint_set \<Rightarrow> nat \<Rightarrow> bool" where
  "bit_at s j \<longleftrightarrow> bit (s ! (j div 32)) (j mod 32)"

lemma uset_forEach_filter: "uset_forEach base s = map (\<lambda>j. base + of_nat j) (filter (bit_at s) [0..<32 * length s])"
proof (induction s arbitrary: base)
  case (Cons e es)
  have "[0..<32 * length (e # es)] = [0..<32] @ [32..<32 + 32 * length es]"
    using upt_add_eq_append [of 0 32 "32 * length es"] by (simp del: upt_rec_numeral)
  moreover have "[32..<32 + 32 * length es] = map (\<lambda>j. j + 32) [0..<32 * length es]"
    by (metis add.commute map_add_upt)
  moreover have "filter (bit_at (e # es)) [0..<32] = filter (bit e) [0..<32]"
    by (rule filter_cong) (auto simp: bit_at_def)
  moreover have "bit_at (e # es) (j + 32) = bit_at es j" for j by (simp add: bit_at_def div_add_self2)
  ultimately show ?case
    by (simp add: Cons.IH wordItems_filter filter_map comp_def del: upt_rec_numeral)
qed simp

lemma bit_at_abs: "i \<in> uset_abs s \<longleftrightarrow> unat i < 32 * length s \<and> bit_at s (unat i)"
  by (auto simp: uset_abs_def bit_at_def less_mult_imp_div_less div_less_iff_less_mult mult.commute)

lemma uset_items_sorted:
  assumes "uset_fits n s"
  shows "set (uset_items s) = uset_abs s" "sorted (uset_items s)" "distinct (uset_items s)"
proof -
  have small: "j < 2 ^ 32" if "j < 32 * length s" for j using that assms by (simp add: uset_fits_def)
  have items: "uset_items s = map of_nat (filter (bit_at s) [0..<32 * length s])"
    by (simp add: uset_items_def uset_forEach_filter)
  show "set (uset_items s) = uset_abs s"
  proof (rule set_eqI)
    fix i
    have "i \<in> set (uset_items s) \<longleftrightarrow> (\<exists>j < 32 * length s. bit_at s j \<and> i = of_nat j)" by (auto simp: items)
    also have "\<dots> \<longleftrightarrow> unat i < 32 * length s \<and> bit_at s (unat i)"
      using small by (auto intro: exI [of _ "unat i"])
    finally show "i \<in> set (uset_items s) \<longleftrightarrow> i \<in> uset_abs s" by (simp add: bit_at_abs)
  qed
  have inj: "inj_on (of_nat :: nat \<Rightarrow> u32) (set (filter (bit_at s) [0..<32 * length s]))"
    by (rule inj_onI) (use small in \<open>auto dest: arg_cong [of _ _ unat]\<close>)
  then show "distinct (uset_items s)" by (simp add: items distinct_map)
  show "sorted (uset_items s)"
    unfolding items sorted_map
    by (rule sorted_wrt_mono_rel [OF _ sorted_filter [of id, simplified, OF sorted_upt]])
      (use small in \<open>auto simp: word_le_nat_alt\<close>)
qed

lemma uset_size_card: "uset_fits n s \<Longrightarrow> uset_size s = card (uset_abs s)"
proof -
  assume fits: "uset_fits n s"
  have "uset_size s = length (uset_forEach base s)" for base
    by (induction s arbitrary: base) (simp_all add: uset_size_def wordItems_filter popcount_def)
  then show ?thesis
    using uset_items_sorted [OF fits] distinct_card by (metis uset_items_def)
qed

lemma uset_empty_abs: "uset_empty s \<longleftrightarrow> uset_abs s = {}" if "uset_fits n s"
proof -
  have "uset_empty s \<longleftrightarrow> uset_size s = 0"
  proof -
    have "w = 0 \<longleftrightarrow> popcount w = 0" for w
      by (cases "w = 0") (simp_all add: clear_lowest_popcount, simp add: popcount_def)
    then show ?thesis by (simp add: uset_empty_def uset_size_def list_all_iff flip: word_neq_0_conv)
  qed
  also have "\<dots> \<longleftrightarrow> uset_abs s = {}" using uset_size_card [OF that] by (simp add: uset_abs_def)
  finally show ?thesis .
qed

section \<open>What the passes need\<close>

text \<open>Sets of bounded size.  A loop that only adds to a set can compare sizes to see whether the set
  has changed.\<close>

locale bounded_sets =
  fixes fits :: "'s \<Rightarrow> bool" and abs :: "'s \<Rightarrow> 'a set"
    and addAll removeAll intersect :: "'s \<Rightarrow> 's \<Rightarrow> 's" and size :: "'s \<Rightarrow> nat"
  assumes fits_ops: "fits s \<Longrightarrow> fits t \<Longrightarrow> fits (addAll s t)" "fits s \<Longrightarrow> fits t \<Longrightarrow> fits (removeAll s t)"
      "fits s \<Longrightarrow> fits t \<Longrightarrow> fits (intersect s t)"
    and abs_addAll: "fits s \<Longrightarrow> fits t \<Longrightarrow> abs (addAll s t) = abs s \<union> abs t"
    and abs_removeAll: "fits s \<Longrightarrow> fits t \<Longrightarrow> abs (removeAll s t) = abs s - abs t"
    and abs_intersect: "fits s \<Longrightarrow> fits t \<Longrightarrow> abs (intersect s t) = abs s \<inter> abs t"
    and abs_finite: "fits s \<Longrightarrow> finite (abs s)"
    and size_card: "fits s \<Longrightarrow> size s = card (abs s)"
begin

lemma size_mono: "fits s \<Longrightarrow> fits t \<Longrightarrow> abs s \<subseteq> abs t \<Longrightarrow> size s \<le> size t"
  by (simp add: size_card card_mono abs_finite)

lemma same_size: "fits s \<Longrightarrow> fits t \<Longrightarrow> abs s \<subseteq> abs t \<Longrightarrow> size s = size t \<longleftrightarrow> abs s = abs t"
  using card_subset_eq [OF abs_finite [of t], of "abs s"] by (auto simp: size_card)

lemma addAll_unchanged: "fits s \<Longrightarrow> fits t \<Longrightarrow> size (addAll s t) = size s \<longleftrightarrow> abs t \<subseteq> abs s"
  using same_size [of s "addAll s t"] by (auto simp: abs_addAll fits_ops)

end

interpretation uset: bounded_sets "uset_fits n" uset_abs uset_addAll uset_removeAll uset_intersect uset_size for n
proof
  fix s t
  show "uset_fits n s \<Longrightarrow> finite (uset_abs s)" by simp
  show "uset_fits n s \<Longrightarrow> uset_size s = card (uset_abs s)" by (rule uset_size_card)
qed (auto simp: uset_fits_def uset_addAll_abs uset_removeAll_abs uset_intersect_abs)

lemma UIntSet_fits:
  assumes "sz \<le> 2 ^ 32 - 32"
  shows "uset_fits (unat ((sz + 31) div 32)) (UIntSet sz)" "uset_abs (UIntSet sz) = {}"
    "i < sz \<Longrightarrow> can_hold (unat ((sz + 31) div 32)) i"
proof -
  have "unat sz \<le> 2 ^ 32 - 32" using assms by (simp add: word_le_nat_alt)
  then have "unat (sz + 31) = unat sz + 31" by (subst unat_add_lem [THEN iffD1]) simp_all
  then have d: "unat ((sz + 31) div 32) = (unat sz + 31) div 32" by (simp add: unat_div)
  show "uset_fits (unat ((sz + 31) div 32)) (UIntSet sz)"
    using \<open>unat sz \<le> 2 ^ 32 - 32\<close> by (simp add: uset_fits_def UIntSet_def d)
  show "uset_abs (UIntSet sz) = {}" by (auto simp: uset_abs_def UIntSet_def)
  show "can_hold (unat ((sz + 31) div 32)) i" if "i < sz"
    using that by (simp add: can_hold_def d word_less_nat_alt)
qed

text \<open>C21: The vector of words behaves like a set: the constructor gives the empty set, with room for every item
  below its capacity; adding, removing, clearing, union, difference, intersection, the tests and the
  number of elements are those of sets; and \<open>forEach\<close> visits every element once, in increasing order.\<close>

theorem uset_refines_sets:
  assumes "uset_fits n s" "uset_fits n t" "uset_fits n t'" "can_hold n i" "sz \<le> 2 ^ 32 - 32"
  shows "uset_abs (uset_add i s) = insert i (uset_abs s) \<and> uset_abs (uset_remove i s) = uset_abs s - {i}
     \<and> (uset_contains s i \<longleftrightarrow> i \<in> uset_abs s) \<and> uset_abs (uset_clear s) = {}
     \<and> uset_abs (uset_addAll s t) = uset_abs s \<union> uset_abs t \<and> uset_abs (uset_removeAll s t) = uset_abs s - uset_abs t
     \<and> uset_abs (uset_intersect s t) = uset_abs s \<inter> uset_abs t
     \<and> uset_abs (uset_addBoth s t t') = uset_abs s \<union> uset_abs t \<union> uset_abs t'
     \<and> uset_abs (uset_overwriteWithUnion s t t') = uset_abs t \<union> uset_abs t'
     \<and> (uset_empty s \<longleftrightarrow> uset_abs s = {}) \<and> uset_size s = card (uset_abs s)
     \<and> set (uset_items s) = uset_abs s \<and> sorted (uset_items s) \<and> distinct (uset_items s)
     \<and> uset_abs (UIntSet sz) = {} \<and> (i < sz \<longrightarrow> can_hold (length (UIntSet sz)) i)"
  using assms UIntSet_fits [OF assms(5)] uset_items_sorted [OF assms(1)] uset_size_card [OF assms(1)] uset_empty_abs [OF assms(1)]
  by (simp add: uset_fits_def uset_add_abs uset_remove_abs uset_contains_abs uset_clear_abs uset_addAll_abs uset_removeAll_abs
      uset_intersect_abs uset_addBoth_abs uset_overwriteWithUnion_abs)

theorem uset_refines_sets_witness:
  "uset_fits 2 [5, 1] \<and> can_hold 2 33 \<and> uset_abs (uset_add 33 [5, 1]) = insert 33 (uset_abs [5, 1])
   \<and> set (uset_items [5, 1]) = uset_abs [5, 1] \<and> uset_items [5, 1] = [0, 2, 32]"
proof -
  have "uset_fits 2 [5, 1]" "can_hold 2 33" by (simp_all add: uset_fits_def can_hold_def)
  moreover have "uset_items [5, 1] = [0, 2, 32]" by code_simp
  ultimately show ?thesis using uset_refines_sets [of 2 "[5, 1]" "[5, 1]" "[5, 1]" 33 0] by simp
qed

end
