(* ===== verification/Cfg.thy ===== *)
theory Cfg
  imports NameTable Effects UIntSets "HOL-Library.While_Combinator"
begin

text \<open>
  Control flow graphs (\<open>cfg/CFG.h\<close>, \<open>cfg/Instructions.h\<close>, \<open>cfg/CFG.cc\<close>) as the passes at the end of
  \<open>CFGBuilder::buildFor\<close> see them: every block has its exit.  Blocks are named by their ids; \<open>basicBlocks\<close> is
  the vector of the blocks the graph owns, and \<open>blocks\<close> what the pointers point to.

  The names with a fixed meaning (\<open>core::Names\<close>, a generated file) are given by the record \<open>cfg_env\<close>.
\<close>

section \<open>Local variables\<close>

record cfg_env =
  Names_cfgAlias :: u32
  temporaryNames :: "u32 list" \<comment> \<open>the names that \<open>isSyntheticTemporary\<close> compares with\<close>
  lspQueryIsEmpty :: bool
  isSCIPRuby :: bool

record local_variable =
  lv_name :: u32
  lv_unique :: u32

definition lv_isSyntheticTemporary :: "cfg_env \<Rightarrow> local_variable \<Rightarrow> bool" where
  "lv_isSyntheticTemporary env lv =
     (if nameKind (lv_name lv) = UNIQUE then True
      else if lv_unique lv = 0 then False
      else lv_name lv \<in> set (temporaryNames env))"

definition lv_isAliasForGlobal :: "cfg_env \<Rightarrow> local_variable \<Rightarrow> bool" where
  "lv_isAliasForGlobal env lv \<longleftrightarrow> lv_name lv = Names_cfgAlias env"

text \<open>\<open>LocalRef\<close>.\<close>

definition LocalRef_noVariable :: u32 where "LocalRef_noVariable = 0"
definition LocalRef_blockCall :: u32 where "LocalRef_blockCall = 1"
definition LocalRef_selfVariable :: u32 where "LocalRef_selfVariable = 2"
definition LocalRef_unconditional :: u32 where "LocalRef_unconditional = 3"
definition LocalRef_finalReturn :: u32 where "LocalRef_finalReturn = 4"

section \<open>Instructions\<close>

definition no_loc :: loc_offsets where
  "no_loc = \<lparr>beginLoc = 4294967295, endLoc = 4294967295\<rparr>"

record local_occurrence =
  lo_variable :: u32
  lo_loc :: loc_offsets

record use_site =
  us_variable :: u32
  us_type :: type_ptr
  us_loc :: loc_offsets

definition occurrence :: "use_site \<Rightarrow> local_occurrence" where
  "occurrence u = \<lparr>lo_variable = us_variable u, lo_loc = us_loc u\<rparr>"

text \<open>\<open>VariableUseSite::operator=\<close> on a \<open>LocalOccurrence\<close>.\<close>

definition assignOccurrence :: "use_site \<Rightarrow> local_occurrence \<Rightarrow> use_site" where
  "assignOccurrence u l = u\<lparr>us_variable := lo_variable l, us_loc := lo_loc l\<rparr>"

record send_insn =
  isPrivateOk :: bool
  numPosArgs :: u16
  send_fun :: u32
  recv :: use_site
  funLoc :: loc_offsets
  receiverLoc :: loc_offsets
  argRefs :: "u32 list"
  argTypes :: "type_ptr list"
  argLocs :: "loc_offsets list"
  send_link :: u32

datatype instruction =
    Ident u32
  | Alias u32 u32 \<comment> \<open>symbol, name\<close>
  | SolveConstraint u32 u32 \<comment> \<open>link, send\<close>
  | Send send_insn
  | Return use_site loc_offsets
  | BlockReturn u32 use_site \<comment> \<open>link, what\<close>
  | LoadSelf u32 u32 \<comment> \<open>link, fallback\<close>
  | Literal type_ptr
  | GetCurrentException
  | LoadArg u32 u16 \<comment> \<open>method, argument\<close>
  | ArgPresent u32 u16
  | LoadYieldParams u32
  | YieldParamPresent u16
  | YieldLoadArg u16 u8 use_site \<comment> \<open>argument, flags, parameters\<close>
  | Cast use_site loc_offsets type_ptr u32
  | TAbsurd use_site
  | KeepAlive u32

text \<open>The variables an instruction reads.\<close>

fun readVars :: "instruction \<Rightarrow> u32 list" where
  "readVars (Ident what) = [what]"
| "readVars (Send v) = us_variable (recv v) # argRefs v"
| "readVars (TAbsurd what) = [us_variable what]"
| "readVars (Return what l) = [us_variable what]"
| "readVars (BlockReturn link what) = [us_variable what]"
| "readVars (Cast v l t c) = [us_variable v]"
| "readVars (LoadSelf link fallback) = [fallback]"
| "readVars (SolveConstraint link send) = [send]"
| "readVars (YieldLoadArg i f yieldParam) = [us_variable yieldParam]"
| "readVars (KeepAlive what) = [what]"
| "readVars _ = []"

section \<open>Blocks and graphs\<close>

record block_exit =
  cond :: use_site
  thenb :: nat
  elseb :: nat
  exit_loc :: loc_offsets

definition isUnconditional :: "block_exit \<Rightarrow> bool" where
  "isUnconditional e \<longleftrightarrow> thenb e = elseb e"

record binding =
  bind :: use_site
  bind_loc :: loc_offsets
  bind_value :: instruction
  isSynthetic :: bool

record basic_block =
  args :: "use_site list"
  isLoopHeader :: bool
  wasJumpDestination :: bool
  outerLoops :: int
  firstDeadInstructionIdx :: int
  exprs :: "binding list"
  bexit :: block_exit
  backEdges :: "nat list"

record cfg =
  basicBlocks :: "nat list"
  blocks :: "nat \<Rightarrow> basic_block"
  maxBasicBlockId :: nat
  forwardsTopoSort :: "nat list"
  minLoops :: "int list"
  maxLoopWrite :: "int list"
  localVariables :: "local_variable list"

definition entry :: "cfg \<Rightarrow> nat" where
  "entry g = basicBlocks g ! 0"

definition deadBlock :: "cfg \<Rightarrow> nat" where
  "deadBlock g = basicBlocks g ! 1"

definition numLocalVariables :: "cfg \<Rightarrow> u32" where
  "numLocalVariables g = of_nat (length (localVariables g))"

definition localData :: "cfg \<Rightarrow> u32 \<Rightarrow> local_variable" where
  "localData g v = localVariables g ! unat v"

definition isSyntheticTemporary :: "cfg_env \<Rightarrow> cfg \<Rightarrow> u32 \<Rightarrow> bool" where
  "isSyntheticTemporary env g v = lv_isSyntheticTemporary env (localData g v)"

definition isAliasForGlobal :: "cfg_env \<Rightarrow> cfg \<Rightarrow> u32 \<Rightarrow> bool" where
  "isAliasForGlobal env g v = lv_isAliasForGlobal env (localData g v)"

definition updBlock :: "nat \<Rightarrow> (basic_block \<Rightarrow> basic_block) \<Rightarrow> cfg \<Rightarrow> cfg" where
  "updBlock b f g = g\<lparr>blocks := (blocks g)(b := f (blocks g b))\<rparr>"

lemma updBlock_simps [simp]:
  "basicBlocks (updBlock b f g) = basicBlocks g" "maxBasicBlockId (updBlock b f g) = maxBasicBlockId g"
  "forwardsTopoSort (updBlock b f g) = forwardsTopoSort g" "minLoops (updBlock b f g) = minLoops g"
  "maxLoopWrite (updBlock b f g) = maxLoopWrite g" "localVariables (updBlock b f g) = localVariables g"
  "blocks (updBlock b f g) = (blocks g)(b := f (blocks g b))"
  "entry (updBlock b f g) = entry g" "deadBlock (updBlock b f g) = deadBlock g"
  "numLocalVariables (updBlock b f g) = numLocalVariables g" "localData (updBlock b f g) = localData g"
  by (simp_all add: updBlock_def entry_def deadBlock_def numLocalVariables_def localData_def fun_eq_iff)

definition successors :: "cfg \<Rightarrow> nat \<Rightarrow> nat set" where
  "successors g b = {thenb (bexit (blocks g b)), elseb (bexit (blocks g b))}"

text \<open>\<open>CFGBuilder::sanityCheck\<close>.\<close>

definition sanityCheck :: "cfg \<Rightarrow> bool" where
  "sanityCheck g \<longleftrightarrow> (\<forall>b\<in>set (basicBlocks g).
       (\<forall>parent\<in>set (backEdges (blocks g b)). thenb (bexit (blocks g parent)) = b \<or> elseb (bexit (blocks g parent)) = b)
     \<and> (b \<noteq> deadBlock g \<longrightarrow>
          (b \<noteq> entry g \<longrightarrow> wasJumpDestination (blocks g b))
        \<and> b \<in> set (backEdges (blocks g (thenb (bexit (blocks g b)))))
        \<and> b \<in> set (backEdges (blocks g (elseb (bexit (blocks g b)))))))"

text \<open>The ids of blocks and variables are in range, and the edges stay within the graph.\<close>

definition wf_blocks :: "cfg \<Rightarrow> bool" where
  "wf_blocks g \<longleftrightarrow> length (localVariables g) \<le> 2 ^ 32 - 32 \<and> distinct (basicBlocks g)
     \<and> (\<forall>b\<in>set (basicBlocks g). b < maxBasicBlockId g \<and> successors g b \<subseteq> set (basicBlocks g)
          \<and> set (backEdges (blocks g b)) \<subseteq> set (basicBlocks g)
          \<and> us_variable (cond (bexit (blocks g b))) < numLocalVariables g
          \<and> (\<forall>e\<in>set (exprs (blocks g b)). us_variable (bind e) < numLocalVariables g
               \<and> (\<forall>v\<in>set (readVars (bind_value e)). v < numLocalVariables g)))"

section \<open>Runs\<close>

text \<open>What a graph computes, for any meaning of the instructions other than \<open>Ident\<close>: the meaning of an instruction is
  a function of the values of the variables it reads and of the rest of the world.  The operands in
  an instruction and their locations are no part of its meaning.\<close>

type_synonym 'v store = "u32 \<Rightarrow> 'v"
type_synonym ('v, 'w) meaning = "instruction \<Rightarrow> 'v list \<Rightarrow> 'w \<Rightarrow> 'v \<times> 'w"

definition no_use :: "use_site \<Rightarrow> use_site" where
  "no_use u = u\<lparr>us_variable := 0, us_loc := no_loc\<rparr>"

fun shape :: "instruction \<Rightarrow> instruction" where
  "shape (Ident what) = Ident 0"
| "shape (Send v) = Send (v\<lparr>recv := no_use (recv v), argRefs := map (\<lambda>_. 0) (argRefs v), argLocs := map (\<lambda>_. no_loc) (argLocs v)\<rparr>)"
| "shape (TAbsurd what) = TAbsurd (no_use what)"
| "shape (Return what l) = Return (no_use what) l"
| "shape (BlockReturn link what) = BlockReturn link (no_use what)"
| "shape (Cast v l t c) = Cast (no_use v) l t c"
| "shape (LoadSelf link fallback) = LoadSelf link 0"
| "shape (SolveConstraint link send) = SolveConstraint link 0"
| "shape (YieldLoadArg i f yieldParam) = YieldLoadArg i f (no_use yieldParam)"
| "shape (KeepAlive what) = KeepAlive 0"
| "shape i = i"

definition runBinding :: "('v, 'w) meaning \<Rightarrow> binding \<Rightarrow> 'v store \<times> 'w \<Rightarrow> 'v store \<times> 'w" where
  "runBinding sem b = (\<lambda>(st, w). let v = us_variable (bind b) in
     case bind_value b of
       Ident what \<Rightarrow> (st(v := st what), w)
     | i \<Rightarrow> (let (x, w') = sem (shape i) (map st (readVars i)) w in (st(v := x), w')))"

definition runBlock :: "('v, 'w) meaning \<Rightarrow> basic_block \<Rightarrow> 'v store \<times> 'w \<Rightarrow> 'v store \<times> 'w" where
  "runBlock sem bb = fold (runBinding sem) (exprs bb)"

definition runPath :: "('v, 'w) meaning \<Rightarrow> cfg \<Rightarrow> nat list \<Rightarrow> 'v store \<times> 'w \<Rightarrow> 'v store \<times> 'w" where
  "runPath sem g p = fold (\<lambda>b. runBlock sem (blocks g b)) p"

text \<open>A path that starts at the entry and does not enter the dead block.\<close>

definition is_path :: "cfg \<Rightarrow> nat list \<Rightarrow> bool" where
  "is_path g p \<longleftrightarrow> p \<noteq> [] \<and> hd p = entry g \<and> deadBlock g \<notin> set p
     \<and> (\<forall>i. Suc i < length p \<longrightarrow> p ! Suc i \<in> successors g (p ! i))"

lemma runBinding_other:
  "\<not> (\<exists>x. bind_value b = Ident x) \<Longrightarrow> runBinding sem b (st, w) =
     (let (x, w') = sem (shape (bind_value b)) (map st (readVars (bind_value b))) w in (st(us_variable (bind b) := x), w'))"
  by (cases "bind_value b") (auto simp: runBinding_def)

lemma runPath_snoc: "runPath sem g (p @ [b]) st = runBlock sem (blocks g b) (runPath sem g p st)"
  by (simp add: runPath_def)

lemma is_path_snoc:
  "is_path g (p @ [b]) \<longleftrightarrow> (if p = [] then b = entry g \<and> b \<noteq> deadBlock g
      else is_path g p \<and> b \<in> successors g (last p) \<and> b \<noteq> deadBlock g)"
proof (cases "p = []")
  case False
  have "(\<forall>i. Suc i < length (p @ [b]) \<longrightarrow> (p @ [b]) ! Suc i \<in> successors g ((p @ [b]) ! i)) \<longleftrightarrow>
        (\<forall>i. Suc i < length p \<longrightarrow> p ! Suc i \<in> successors g (p ! i)) \<and> b \<in> successors g (last p)"
    (is "?l \<longleftrightarrow> ?r")
  proof
    assume l: ?l
    then show ?r using l [rule_format, of "length p - 1"] False
      by (auto simp: nth_append last_conv_nth split: if_splits)
  next
    assume ?r
    then show ?l using False by (auto simp: nth_append last_conv_nth less_Suc_eq dest: sym [of "Suc _"])
  qed
  then show ?thesis using False by (auto simp: is_path_def)
qed (auto simp: is_path_def)

section \<open>Small graphs\<close>

text \<open>Blocks and graphs for examples.\<close>

definition use :: "u32 \<Rightarrow> use_site" where
  "use v = \<lparr>us_variable = v, us_type = NullType, us_loc = no_loc\<rparr>"

definition assign :: "u32 \<Rightarrow> instruction \<Rightarrow> binding" where
  "assign v i = \<lparr>bind = use v, bind_loc = no_loc, bind_value = i, isSynthetic = False\<rparr>"

definition jump :: "u32 \<Rightarrow> nat \<Rightarrow> nat \<Rightarrow> block_exit" where
  "jump c t e = \<lparr>cond = use c, thenb = t, elseb = e, exit_loc = no_loc\<rparr>"

definition sample_block :: "int \<Rightarrow> binding list \<Rightarrow> block_exit \<Rightarrow> nat list \<Rightarrow> basic_block" where
  "sample_block loops es e edges = \<lparr>args = [], isLoopHeader = False, wasJumpDestination = True, outerLoops = loops,
     firstDeadInstructionIdx = -1, exprs = es, bexit = e, backEdges = edges\<rparr>"

definition sample_graph :: "basic_block list \<Rightarrow> nat list \<Rightarrow> nat \<Rightarrow> cfg" where
  "sample_graph bbs topo locals = \<lparr>basicBlocks = [0..<length bbs], blocks = (\<lambda>b. bbs ! b), maxBasicBlockId = length bbs,
     forwardsTopoSort = topo, minLoops = replicate locals 2147483647, maxLoopWrite = replicate locals 0,
     localVariables = map (\<lambda>i. \<lparr>lv_name = (if i = 5 then 2 else 1), lv_unique = 0\<rparr>) [0..<locals]\<rparr>"

definition sample_cfg_env :: cfg_env where
  "sample_cfg_env = \<lparr>Names_cfgAlias = 9, temporaryNames = [], lspQueryIsEmpty = True, isSCIPRuby = True\<rparr>"

lemma wf_blocks_sample:
  assumes "k \<le> 2 ^ 32 - 32" "g = sample_graph bbs topo k"
    "\<forall>b\<in>set (basicBlocks g). b < maxBasicBlockId g \<and> successors g b \<subseteq> set (basicBlocks g)
          \<and> set (backEdges (blocks g b)) \<subseteq> set (basicBlocks g) \<and> us_variable (cond (bexit (blocks g b))) < numLocalVariables g
          \<and> (\<forall>e\<in>set (exprs (blocks g b)). us_variable (bind e) < numLocalVariables g
               \<and> (\<forall>v\<in>set (readVars (bind_value e)). v < numLocalVariables g))"
  shows "wf_blocks g"
  using assms(1,3) unfolding wf_blocks_def by (simp add: assms(2) sample_graph_def)

end
