(* ===== verification/CfgTopo.thy ===== *)
theory CfgTopo
  imports Cfg
begin

text \<open>
  The order of the blocks (\<open>topoSortFwd\<close> in \<open>cfg/builder/builder_finalize.cc\<close>, \<open>fillInTopoSorts\<close> in
  \<open>cfg/builder/builder_entry.cc\<close>): a depth-first traversal with an explicit stack.  The stack is a list with
  its top first.
\<close>

section \<open>The traversal\<close>

datatype event = Enter | Exit

definition UNVISITED :: int where "UNVISITED = -1"
definition PROCESSING :: int where "PROCESSING = -2"

type_synonym topo_state = "(nat \<times> event) list \<times> int list \<times> nat list"

fun topoStep :: "cfg \<Rightarrow> topo_state \<Rightarrow> topo_state" where
  "topoStep g ([], forwardIndex, target) = ([], forwardIndex, target)"
| "topoStep g ((block, Enter) # work, forwardIndex, target) =
     (if forwardIndex ! block \<noteq> UNVISITED then (work, forwardIndex, target)
      else let t = thenb (bexit (blocks g block)); e = elseb (bexit (blocks g block));
               work = (block, Exit) # work;
               forwardIndex = forwardIndex[block := PROCESSING];
               work = (if forwardIndex ! t = UNVISITED then (t, Enter) # work else work);
               work = (if \<not> isUnconditional (bexit (blocks g block)) \<and> forwardIndex ! e = UNVISITED then (e, Enter) # work else work)
           in (work, forwardIndex, target))"
| "topoStep g ((block, Exit) # work, forwardIndex, target) =
     (work, forwardIndex[block := int (length target)], target @ [block])"

definition topoSortFwd :: "cfg \<Rightarrow> nat \<Rightarrow> nat \<Rightarrow> topo_state option" where
  "topoSortFwd g numBlocks entryBB =
     while_option (\<lambda>(work, _, _). work \<noteq> []) (topoStep g) ([(entryBB, Enter)], replicate numBlocks UNVISITED, [])"

section \<open>Filling in the order\<close>

text \<open>Blocks that the traversal has not found are removed from the edges and from the graph; the edges are sorted
  by the index of the block they come from, the largest first.\<close>

definition eraseEdge :: "nat \<Rightarrow> nat \<Rightarrow> cfg \<Rightarrow> cfg" where
  "eraseEdge bb succ g = updBlock succ (\<lambda>s. s\<lparr>backEdges := filter (\<lambda>p. p \<noteq> bb) (backEdges s)\<rparr>) g"

definition removeUnreachableStep :: "int list \<Rightarrow> nat \<Rightarrow> cfg \<Rightarrow> cfg" where
  "removeUnreachableStep forwardsIds bb g =
     (if forwardsIds ! bb = -1
      then eraseEdge bb (elseb (bexit (blocks g bb))) (eraseEdge bb (thenb (bexit (blocks g bb))) g)
      else g)"

definition sortEdges :: "int list \<Rightarrow> nat \<Rightarrow> cfg \<Rightarrow> cfg" where
  "sortEdges forwardsIds bb g = updBlock bb (\<lambda>s. s\<lparr>backEdges := sort_key (\<lambda>a. - (forwardsIds ! a)) (backEdges s)\<rparr>) g"

definition fillInTopoSorts :: "cfg \<Rightarrow> cfg option" where
  "fillInTopoSorts g =
     (case topoSortFwd g (maxBasicBlockId g) (entry g) of None \<Rightarrow> None
      | Some (_, forwardsIds, target) \<Rightarrow>
          let g = g\<lparr>forwardsTopoSort := target\<rparr>;
              g = fold (removeUnreachableStep forwardsIds) (basicBlocks g) g;
              g = g\<lparr>basicBlocks := filter (\<lambda>bb. forwardsIds ! bb \<noteq> -1) (basicBlocks g)\<rparr>
          in Some (fold (sortEdges forwardsIds) (basicBlocks g) g))"

section \<open>The traversal visits the reachable blocks\<close>

definition edges :: "cfg \<Rightarrow> (nat \<times> nat) set" where
  "edges g = {(a, b). b \<in> successors g a}"

definition reachable :: "cfg \<Rightarrow> nat \<Rightarrow> bool" where
  "reachable g b \<longleftrightarrow> (entry g, b) \<in> (edges g)\<^sup>*"

lemma reachable_step: "reachable g b \<Longrightarrow> c \<in> successors g b \<Longrightarrow> reachable g c"
  unfolding reachable_def by (rule rtrancl_into_rtrancl) (auto simp: edges_def)

text \<open>Every successor of a block whose traversal has begun has been visited or waits above it on the stack.\<close>

definition waiting :: "cfg \<Rightarrow> int list \<Rightarrow> (nat \<times> event) list \<Rightarrow> bool" where
  "waiting g idx work \<longleftrightarrow> (\<forall>pre b post. work = pre @ (b, Exit) # post \<longrightarrow>
     (\<forall>c\<in>successors g b. idx ! c \<noteq> UNVISITED \<or> (c, Enter) \<in> set pre))"

definition bottom :: "cfg \<Rightarrow> topo_state \<Rightarrow> bool" where
  "bottom g = (\<lambda>(work, idx, target). (work = [(entry g, Enter)] \<and> idx ! entry g = UNVISITED)
     \<or> (work \<noteq> [] \<and> last work = (entry g, Exit)) \<or> (work = [] \<and> target \<noteq> [] \<and> last target = entry g))"

definition exits :: "(nat \<times> event) list \<Rightarrow> nat list" where
  "exits work = map fst (filter (\<lambda>x. snd x = Exit) work)"

definition indices_ok :: "nat \<Rightarrow> int list \<Rightarrow> nat list \<Rightarrow> nat list \<Rightarrow> bool" where
  "indices_ok n idx open target \<longleftrightarrow> length idx = n \<and> distinct open \<and> set open = {b. b < n \<and> idx ! b = PROCESSING}
     \<and> distinct target \<and> set target = {b. b < n \<and> idx ! b \<ge> 0} \<and> (\<forall>i<length target. idx ! (target ! i) = int i)
     \<and> (\<forall>b<n. idx ! b \<ge> -2)"

definition topo_inv :: "cfg \<Rightarrow> nat \<Rightarrow> topo_state \<Rightarrow> bool" where
  "topo_inv g n = (\<lambda>(work, idx, target).
     indices_ok n idx (exits work) target \<and> waiting g idx work \<and> bottom g (work, idx, target)
   \<and> (\<forall>x\<in>set work. fst x < n \<and> reachable g (fst x)) \<and> (\<forall>b<n. idx ! b \<noteq> UNVISITED \<longrightarrow> reachable g b)
   \<and> (\<forall>b<n. idx ! b \<ge> 0 \<longrightarrow> (\<forall>c\<in>successors g b. idx ! c \<noteq> UNVISITED)))"

definition closed_ids :: "cfg \<Rightarrow> nat \<Rightarrow> bool" where
  "closed_ids g n \<longleftrightarrow> entry g < n \<and> (\<forall>b<n. reachable g b \<longrightarrow> (\<forall>c\<in>successors g b. c < n))"

lemma waiting_pop: "waiting g idx (x # work) \<Longrightarrow> x = (b, Enter) \<Longrightarrow> idx ! b \<noteq> UNVISITED \<Longrightarrow> waiting g idx work"
  unfolding waiting_def by (metis Cons_eq_appendI Pair_inject set_ConsD)

lemma waiting_exit: "waiting g idx ((b, Exit) # work) \<Longrightarrow> waiting g idx work"
  unfolding waiting_def by (metis Cons_eq_appendI Pair_inject event.distinct(1) set_ConsD)

lemma waiting_mono: "waiting g idx work \<Longrightarrow> (\<And>c. idx ! c \<noteq> UNVISITED \<Longrightarrow> idx' ! c \<noteq> UNVISITED) \<Longrightarrow> waiting g idx' work"
  unfolding waiting_def by blast

lemma waiting_enter:
  assumes w: "waiting g idx ((b, Enter) # work)" and E: "\<forall>x\<in>set E. snd x = Enter" and b: "idx ! b \<noteq> UNVISITED"
    and succ: "\<forall>c\<in>successors g b. idx ! c \<noteq> UNVISITED \<or> (c, Enter) \<in> set E"
  shows "waiting g idx (E @ (b, Exit) # work)"
  unfolding waiting_def
proof (intro allI impI)
  fix pre b' post
  assume split: "E @ (b, Exit) # work = pre @ (b', Exit) # post"
  have notE: "(b', Exit) \<notin> set E" using E by auto
  from split consider us where "E = pre @ us" "us @ (b, Exit) # work = (b', Exit) # post"
    | us where "pre = E @ us" "(b, Exit) # work = us @ (b', Exit) # post" by (auto simp: append_eq_append_conv2)
  then show "\<forall>c\<in>successors g b'. idx ! c \<noteq> UNVISITED \<or> (c, Enter) \<in> set pre"
  proof cases
    case 1
    with notE have "us = []" by (cases us) auto
    with 1 succ show ?thesis by auto
  next
    case 2
    show ?thesis
    proof (cases us)
      case Nil
      with 2 succ show ?thesis by auto
    next
      case (Cons u us')
      with 2(2) have "work = us' @ (b', Exit) # post" by simp
      then have "(b, Enter) # work = ((b, Enter) # us') @ (b', Exit) # post" by simp
      with w have "\<forall>c\<in>successors g b'. idx ! c \<noteq> UNVISITED \<or> (c, Enter) \<in> set ((b, Enter) # us')"
        unfolding waiting_def by blast
      then show ?thesis using b 2(1) Cons by auto
    qed
  qed
qed

lemma indices_open:
  assumes "indices_ok n idx open target" "b < n" "idx ! b = UNVISITED"
  shows "indices_ok n (idx[b := PROCESSING]) (b # open) target"
  using assms unfolding indices_ok_def UNVISITED_def PROCESSING_def by (auto simp: nth_list_update split: if_splits)

lemma indices_close:
  assumes "indices_ok n idx (b # open) target"
  shows "indices_ok n (idx[b := int (length target)]) open (target @ [b])"
proof -
  have b: "b < n" "idx ! b = PROCESSING" "b \<notin> set open" "b \<notin> set target" "length idx = n"
    using assms by (auto simp: indices_ok_def PROCESSING_def)
  have "set (target @ [b]) = {c. c < n \<and> idx[b := int (length target)] ! c \<ge> 0}"
    using assms b by (auto simp: indices_ok_def nth_list_update)
  moreover have "set open = {c. c < n \<and> idx[b := int (length target)] ! c = PROCESSING}"
    using assms b by (auto simp: indices_ok_def nth_list_update PROCESSING_def split: if_splits)
  moreover have "\<forall>i<length (target @ [b]). idx[b := int (length target)] ! ((target @ [b]) ! i) = int i"
    using assms b by (auto simp: indices_ok_def nth_list_update nth_append less_Suc_eq)
  ultimately show ?thesis using assms b by (auto simp: indices_ok_def nth_list_update)
qed

lemma topoStep_enter:
  assumes "idx ! b = UNVISITED"
  obtains E where "topoStep g ((b, Enter) # work, idx, target) = (E @ (b, Exit) # work, idx[b := PROCESSING], target)"
    "\<forall>x\<in>set E. snd x = Enter \<and> fst x \<in> successors g b \<and> idx[b := PROCESSING] ! fst x = UNVISITED"
    "\<forall>c\<in>successors g b. idx[b := PROCESSING] ! c \<noteq> UNVISITED \<or> (c, Enter) \<in> set E" "length E \<le> 2"
proof -
  let ?t = "thenb (bexit (blocks g b))" and ?e = "elseb (bexit (blocks g b))" and ?idx = "idx[b := PROCESSING]"
  let ?T = "if ?idx ! ?t = UNVISITED then [(?t, Enter)] else []"
  let ?E = "(if \<not> isUnconditional (bexit (blocks g b)) \<and> ?idx ! ?e = UNVISITED then [(?e, Enter)] else []) @ ?T"
  have "topoStep g ((b, Enter) # work, idx, target) = (?E @ (b, Exit) # work, ?idx, target)"
    using assms by (simp add: Let_def)
  then show thesis by (rule that) (auto simp: successors_def isUnconditional_def split: if_splits)
qed

lemma exits_simps [simp]:
  "exits ((b, Enter) # work) = exits work" "exits ((b, Exit) # work) = b # exits work"
  "\<forall>x\<in>set E. snd x = Enter \<Longrightarrow> exits (E @ work) = exits work"
  by (simp_all add: exits_def filter_empty_conv)

lemma visited_update: "idx ! c \<noteq> UNVISITED \<Longrightarrow> v \<noteq> UNVISITED \<Longrightarrow> idx[b := v] ! c \<noteq> UNVISITED"
  by (cases "b < length idx"; cases "c = b") (auto simp: list_update_beyond)

lemma topo_inv_enter:
  assumes ids: "closed_ids g n" and inv: "topo_inv g n ((b, Enter) # work, idx, target)" and new: "idx ! b = UNVISITED"
  shows "topo_inv g n (topoStep g ((b, Enter) # work, idx, target))"
proof -
  let ?idx = "idx[b := PROCESSING]"
  obtain E where step: "topoStep g ((b, Enter) # work, idx, target) = (E @ (b, Exit) # work, ?idx, target)"
    and E: "\<forall>x\<in>set E. snd x = Enter \<and> fst x \<in> successors g b \<and> ?idx ! fst x = UNVISITED"
    and succ: "\<forall>c\<in>successors g b. ?idx ! c \<noteq> UNVISITED \<or> (c, Enter) \<in> set E"
    using topoStep_enter [OF new] by metis
  have b: "b < n" "reachable g b" "length idx = n" using inv by (auto simp: topo_inv_def indices_ok_def)
  have P: "PROCESSING \<noteq> UNVISITED" by (simp add: PROCESSING_def UNVISITED_def)
  have vis: "idx ! c \<noteq> UNVISITED \<Longrightarrow> ?idx ! c \<noteq> UNVISITED" for c using visited_update P by blast
  have "waiting g idx ((b, Enter) # work)" using inv by (auto simp: topo_inv_def)
  then have "waiting g ?idx ((b, Enter) # work)" using vis by (rule waiting_mono)
  then have "waiting g ?idx (E @ (b, Exit) # work)" by (rule waiting_enter) (use E succ b P in auto)
  moreover have "indices_ok n ?idx (exits (E @ (b, Exit) # work)) target"
    using indices_open [of n idx "exits work" target b] inv b new E by (simp add: topo_inv_def)
  moreover have "bottom g (E @ (b, Exit) # work, ?idx, target)" using inv by (auto simp: topo_inv_def bottom_def)
  moreover have "\<forall>x\<in>set E. fst x < n \<and> reachable g (fst x)" using E b ids reachable_step unfolding closed_ids_def by blast
  moreover have "\<forall>c<n. ?idx ! c \<noteq> UNVISITED \<longrightarrow> reachable g c" using inv b by (auto simp: topo_inv_def nth_list_update)
  moreover have "\<forall>c<n. ?idx ! c \<ge> 0 \<longrightarrow> (\<forall>d\<in>successors g c. ?idx ! d \<noteq> UNVISITED)"
    using inv b vis by (auto simp: topo_inv_def nth_list_update PROCESSING_def)
  ultimately show ?thesis using inv b unfolding step by (auto simp: topo_inv_def)
qed

lemma topo_inv_exit:
  assumes inv: "topo_inv g n ((b, Exit) # work, idx, target)"
  shows "topo_inv g n (work, idx[b := int (length target)], target @ [b])"
proof -
  let ?idx = "idx[b := int (length target)]"
  have b: "b < n" "reachable g b" "length idx = n" using inv by (auto simp: topo_inv_def indices_ok_def)
  have vis: "idx ! c \<noteq> UNVISITED \<Longrightarrow> ?idx ! c \<noteq> UNVISITED" for c using visited_update by (simp add: UNVISITED_def)
  have w: "waiting g idx ((b, Exit) # work)" using inv by (simp add: topo_inv_def)
  have "\<forall>c\<in>successors g b. idx ! c \<noteq> UNVISITED" using w unfolding waiting_def by (metis append_Nil empty_iff empty_set)
  then have "\<forall>c<n. ?idx ! c \<ge> 0 \<longrightarrow> (\<forall>d\<in>successors g c. ?idx ! d \<noteq> UNVISITED)"
    using inv b vis by (auto simp: topo_inv_def nth_list_update)
  moreover have "waiting g ?idx work" by (rule waiting_mono [OF waiting_exit [OF w] vis])
  moreover have "indices_ok n ?idx (exits work) (target @ [b])" using indices_close inv by (simp add: topo_inv_def)
  moreover have "bottom g (work, ?idx, target @ [b])" using inv by (auto simp: topo_inv_def bottom_def split: if_splits)
  moreover have "\<forall>c<n. ?idx ! c \<noteq> UNVISITED \<longrightarrow> reachable g c" using inv b by (auto simp: topo_inv_def nth_list_update)
  ultimately show ?thesis using inv by (auto simp: topo_inv_def)
qed

lemma topo_inv_step:
  assumes ids: "closed_ids g n" and inv: "topo_inv g n s"
  shows "topo_inv g n (topoStep g s)"
  using ids inv
proof (induction g s rule: topoStep.induct)
  case (2 g b work idx target)
  show ?case
  proof (cases "idx ! b = UNVISITED")
    case False
    moreover have "bottom g (work, idx, target)" using 2 False by (auto simp: topo_inv_def bottom_def split: if_splits)
    ultimately show ?thesis using 2 waiting_pop [of g idx "(b, Enter)" work b] by (auto simp: topo_inv_def)
  qed (use topo_inv_enter 2 in blast)
qed (simp_all add: topo_inv_exit)

text \<open>The traversal ends: a step that visits a block pushes at most three items, every other step pops one.\<close>

definition topo_measure :: "topo_state \<Rightarrow> nat" where
  "topo_measure = (\<lambda>(work, idx, target). 4 * length (filter (\<lambda>i. i = UNVISITED) idx)
     + sum_list (map (\<lambda>x. if snd x = Enter then 2 else 1) work))"

lemma length_filter_visit:
  "b < length idx \<Longrightarrow> idx ! b = u \<Longrightarrow> v \<noteq> u \<Longrightarrow> length (filter (\<lambda>i. i = u) idx) = Suc (length (filter (\<lambda>i. i = u) (idx[b := v])))"
  by (induction idx arbitrary: b) (auto simp: nth_Cons split: nat.splits)

lemma topo_measure_step:
  assumes "topo_inv g n s" "fst s \<noteq> []"
  shows "topo_measure (topoStep g s) < topo_measure s"
  using assms
proof (induction g s rule: topoStep.induct)
  case (2 g b work idx target)
  show ?case
  proof (cases "idx ! b = UNVISITED")
    case True
    obtain E where step: "topoStep g ((b, Enter) # work, idx, target) = (E @ (b, Exit) # work, idx[b := PROCESSING], target)" "length E \<le> 2"
      using topoStep_enter [OF True] by metis
    have "b < length idx" using 2 by (auto simp: topo_inv_def indices_ok_def)
    then have "length (filter (\<lambda>i. i = UNVISITED) idx) = Suc (length (filter (\<lambda>i. i = UNVISITED) (idx[b := PROCESSING])))"
      using True by (intro length_filter_visit) (simp_all add: PROCESSING_def UNVISITED_def)
    moreover have "sum_list (map (\<lambda>x. if snd x = Enter then 2 else 1) E) \<le> sum_list (map (\<lambda>_. 2 :: nat) E)"
      by (rule sum_list_mono) simp
    then have "sum_list (map (\<lambda>x. if snd x = Enter then 2 else 1 :: nat) E) \<le> 4" using step(2) by (simp add: sum_list_triv)
    ultimately show ?thesis unfolding step(1) by (simp add: topo_measure_def)
  qed (simp add: topo_measure_def)
next
  case (3 g b work idx target)
  have "b < length idx" "idx ! b = PROCESSING" using 3 by (auto simp: topo_inv_def indices_ok_def)
  then have "filter (\<lambda>i. i = UNVISITED) (idx[b := int (length target)]) = filter (\<lambda>i. i = UNVISITED) idx"
    by (induction idx arbitrary: b) (auto simp: nth_Cons PROCESSING_def UNVISITED_def split: nat.splits)
  then show ?case by (simp add: topo_measure_def)
qed simp

lemma topo_inv_init:
  assumes "closed_ids g n"
  shows "topo_inv g n ([(entry g, Enter)], replicate n UNVISITED, [])"
  using assms by (auto simp: topo_inv_def indices_ok_def exits_def waiting_def bottom_def closed_ids_def reachable_def
      UNVISITED_def PROCESSING_def Cons_eq_append_conv)

lemma topoSortFwd_end:
  assumes ids: "closed_ids g n" and keep: "\<And>s. topo_inv g n s \<Longrightarrow> Q s \<Longrightarrow> fst s \<noteq> [] \<Longrightarrow> Q (topoStep g s)"
    and init: "Q ([(entry g, Enter)], replicate n UNVISITED, [])"
  obtains idx target where "topoSortFwd g n (entry g) = Some ([], idx, target)" "topo_inv g n ([], idx, target)" "Q ([], idx, target)"
proof -
  let ?P = "\<lambda>s. topo_inv g n s \<and> Q s" and ?b = "\<lambda>(work, _, _). work \<noteq> []"
  have b: "?b s \<longleftrightarrow> fst s \<noteq> []" for s :: topo_state by (simp add: case_prod_unfold)
  have step: "?P (topoStep g s) \<and> topo_measure (topoStep g s) < topo_measure s" if "?P s" "?b s" for s
    using topo_inv_step [OF ids, of s] topo_measure_step [of g n s] keep [of s] that b [of s] by blast
  have start: "?P ([(entry g, Enter)], replicate n UNVISITED, [])" using topo_inv_init [OF ids] init by blast
  obtain t where t: "topoSortFwd g n (entry g) = Some t"
    using measure_while_option_Some [of ?P ?b "topoStep g" topo_measure, OF step start] unfolding topoSortFwd_def by blast
  have "?P t" by (rule while_option_rule [where P = ?P, OF _ t [unfolded topoSortFwd_def] start]) (use step in blast)
  moreover have "fst t = []" using while_option_stop [OF t [unfolded topoSortFwd_def]] b by blast
  ultimately show thesis using that [of "fst (snd t)" "snd (snd t)"] t by (cases t) auto
qed

lemma topo_end_reachable:
  assumes ids: "closed_ids g n" and inv: "topo_inv g n ([], idx, target)"
  shows "distinct target" "set target = {b. reachable g b}" "target \<noteq> []" "last target = entry g" "length idx = n"
    "\<forall>i<length target. idx ! (target ! i) = int i" "\<forall>b<n. idx ! b = -1 \<longleftrightarrow> \<not> reachable g b" "\<forall>b. reachable g b \<longrightarrow> b < n"
proof -
  show "distinct target" "target \<noteq> []" "last target = entry g" "length idx = n" "\<forall>i<length target. idx ! (target ! i) = int i"
    using inv by (auto simp: topo_inv_def indices_ok_def bottom_def)
  have visited: "idx ! b \<ge> 0 \<longleftrightarrow> idx ! b \<noteq> UNVISITED" if "b < n" for b
  proof -
    have "idx ! b \<ge> -2" "idx ! b \<noteq> PROCESSING" using inv that by (auto simp: topo_inv_def indices_ok_def exits_def)
    then show ?thesis by (auto simp: UNVISITED_def PROCESSING_def)
  qed
  have e: "entry g \<in> set target" using inv by (auto simp: topo_inv_def bottom_def dest: last_in_set)
  have tgt: "b \<in> set target \<longleftrightarrow> b < n \<and> idx ! b \<noteq> UNVISITED" for b
    using inv visited by (auto simp: topo_inv_def indices_ok_def)
  have r: "b \<in> set target" if "reachable g b" for b
    using that unfolding reachable_def
  proof (induction rule: rtrancl_induct)
    case (step b c)
    have "reachable g b" unfolding reachable_def by (rule step.hyps(1))
    moreover have "b < n" "idx ! b \<ge> 0" using step.IH tgt visited by auto
    moreover have "c \<in> successors g b" using step.hyps(2) by (simp add: edges_def)
    moreover have "\<forall>b<n. idx ! b \<ge> 0 \<longrightarrow> (\<forall>c\<in>successors g b. idx ! c \<noteq> UNVISITED)" using inv by (simp add: topo_inv_def)
    ultimately have "c < n" "idx ! c \<noteq> UNVISITED" using ids unfolding closed_ids_def by blast+
    then show ?case by (simp add: tgt)
  qed (rule e)
  have rt: "reachable g b \<longleftrightarrow> b < n \<and> idx ! b \<noteq> UNVISITED" for b
    using r [of b] tgt [of b] inv by (auto simp: topo_inv_def)
  then show "set target = {b. reachable g b}" using tgt by blast
  show "\<forall>b. reachable g b \<longrightarrow> b < n" "\<forall>b<n. idx ! b = -1 \<longleftrightarrow> \<not> reachable g b" by (simp_all add: rt UNVISITED_def)
qed

section \<open>Graphs without loops\<close>

text \<open>Every block comes after its successors.\<close>

definition successors_first :: "cfg \<Rightarrow> bool" where
  "successors_first g \<longleftrightarrow> distinct (forwardsTopoSort g)
     \<and> (\<forall>i<length (forwardsTopoSort g). successors g (forwardsTopoSort g ! i) - {deadBlock g} \<subseteq> set (take i (forwardsTopoSort g)))"

definition no_loops :: "cfg \<Rightarrow> (nat \<Rightarrow> nat) \<Rightarrow> bool" where
  "no_loops g rank \<longleftrightarrow> successors g (deadBlock g) \<subseteq> {deadBlock g}
     \<and> (\<forall>b. reachable g b \<and> b \<noteq> deadBlock g \<longrightarrow> (\<forall>c\<in>successors g b. rank c < rank b))"

definition descending :: "cfg \<Rightarrow> (nat \<Rightarrow> nat) \<Rightarrow> topo_state \<Rightarrow> bool" where
  "descending g rank = (\<lambda>(work, idx, target).
     sorted_wrt (\<lambda>x y. snd y = Exit \<longrightarrow> rank (fst x) < rank (fst y)) work
   \<and> (\<forall>i<length target. successors g (target ! i) - {deadBlock g} \<subseteq> set (take i target)))"

lemma descending_exit:
  assumes rank: "no_loops g rank" and inv: "topo_inv g n ((b, Exit) # work, idx, target)"
    and desc: "descending g rank ((b, Exit) # work, idx, target)" and c: "c \<in> successors g b - {deadBlock g}" and n: "c < n"
  shows "c \<in> set target"
proof -
  have "idx ! c \<noteq> UNVISITED"
    using inv c unfolding topo_inv_def waiting_def by (auto dest: spec [of _ "[]"])
  moreover have "b \<noteq> deadBlock g" "reachable g b" using rank c inv by (auto simp: no_loops_def topo_inv_def)
  then have less: "rank c < rank b" using rank c by (auto simp: no_loops_def)
  have "idx ! c \<noteq> PROCESSING"
  proof
    assume "idx ! c = PROCESSING"
    then have "c \<in> set (exits ((b, Exit) # work))" using inv n by (auto simp: topo_inv_def indices_ok_def)
    then have "c = b \<or> (c, Exit) \<in> set work" by (auto simp: exits_def)
    then show False using desc less by (auto simp: descending_def)
  qed
  moreover have "idx ! c \<ge> -2" using inv n by (auto simp: topo_inv_def indices_ok_def)
  ultimately have "idx ! c \<ge> 0" by (auto simp: UNVISITED_def PROCESSING_def)
  then show ?thesis using inv n by (auto simp: topo_inv_def indices_ok_def)
qed

lemma descending_step:
  assumes rank: "no_loops g rank" and ids: "closed_ids g n" and inv: "topo_inv g n s" and desc: "descending g rank s"
  shows "descending g rank (topoStep g s)"
  using assms
proof (induction g s rule: topoStep.induct)
  case (2 g b work idx target)
  show ?case
  proof (cases "idx ! b = UNVISITED")
    case True
    obtain E where step: "topoStep g ((b, Enter) # work, idx, target) = (E @ (b, Exit) # work, idx[b := PROCESSING], target)"
      and E: "\<forall>x\<in>set E. snd x = Enter \<and> fst x \<in> successors g b \<and> idx[b := PROCESSING] ! fst x = UNVISITED"
      using topoStep_enter [OF True] by metis
    have b: "b < length idx" "reachable g b" using 2 by (auto simp: topo_inv_def indices_ok_def)
    then have "fst x \<noteq> b" if "x \<in> set E" for x using E that by (auto simp: PROCESSING_def UNVISITED_def)
    then have "rank (fst x) < rank b" if "x \<in> set E" for x
      using E that 2(1) b(2) unfolding no_loops_def by (metis singletonD subsetD)
    moreover have "sorted_wrt (\<lambda>x y. snd y = Exit \<longrightarrow> rank (fst x) < rank (fst y)) E"
      using E by (auto simp: sorted_wrt_iff_nth_less dest: nth_mem)
    ultimately show ?thesis using 2(4) unfolding step by (fastforce simp: descending_def sorted_wrt_append)
  qed (use 2 in \<open>simp add: descending_def\<close>)
next
  case (3 g b work idx target)
  have "b < n" "reachable g b" using 3(3) by (auto simp: topo_inv_def)
  then have "successors g b - {deadBlock g} \<subseteq> set target"
    using descending_exit [OF 3(1,3,4)] 3(2) unfolding closed_ids_def by blast
  then show ?case using 3(4) by (auto simp: descending_def nth_append less_Suc_eq)
qed simp

section \<open>The graph after the pass\<close>

lemma removeUnreachable_fold:
  "fold (removeUnreachableStep idx) bs g = g\<lparr>blocks := (\<lambda>b. (blocks g b)\<lparr>backEdges :=
     filter (\<lambda>p. \<not> (p \<in> set bs \<and> idx ! p = -1 \<and> b \<in> successors g p)) (backEdges (blocks g b))\<rparr>)\<rparr>"
proof (induction bs arbitrary: g)
  case (Cons b bs)
  let ?g = "removeUnreachableStep idx b g"
  have "blocks ?g = (\<lambda>c. (blocks g c)\<lparr>backEdges :=
      filter (\<lambda>p. p \<noteq> b \<or> idx ! b \<noteq> -1 \<or> c \<notin> successors g b) (backEdges (blocks g c))\<rparr>)"
    by (auto simp: fun_eq_iff removeUnreachableStep_def eraseEdge_def successors_def)
  moreover have "?g = g\<lparr>blocks := blocks ?g\<rparr>" by (simp add: removeUnreachableStep_def eraseEdge_def updBlock_def)
  ultimately have g: "?g = g\<lparr>blocks := (\<lambda>c. (blocks g c)\<lparr>backEdges :=
      filter (\<lambda>p. p \<noteq> b \<or> idx ! b \<noteq> -1 \<or> c \<notin> successors g b) (backEdges (blocks g c))\<rparr>)\<rparr>" by simp
  have succ: "successors ?g = successors g" by (simp add: g successors_def fun_eq_iff)
  have both: "filter (\<lambda>p. \<not> (p \<in> set bs \<and> idx ! p = -1 \<and> c \<in> successors g p)) (filter (\<lambda>p. p \<noteq> b \<or> idx ! b \<noteq> -1 \<or> c \<notin> successors g b) es)
    = filter (\<lambda>p. \<not> (p \<in> set (b # bs) \<and> idx ! p = -1 \<and> c \<in> successors g p)) es" for c es
    unfolding filter_filter by (rule filter_cong) auto
  have "fold (removeUnreachableStep idx) (b # bs) g = fold (removeUnreachableStep idx) bs ?g" by simp
  also have "\<dots> = g\<lparr>blocks := (\<lambda>c. (blocks g c)\<lparr>backEdges :=
     filter (\<lambda>p. \<not> (p \<in> set (b # bs) \<and> idx ! p = -1 \<and> c \<in> successors g p)) (backEdges (blocks g c))\<rparr>)\<rparr>"
    unfolding Cons.IH [of ?g] succ unfolding g both [symmetric] by simp
  finally show ?case .
qed simp

lemma sortEdges_fold:
  assumes "distinct bs"
  shows "fold (sortEdges idx) bs g = g\<lparr>blocks := (\<lambda>b. if b \<in> set bs
     then (blocks g b)\<lparr>backEdges := sort_key (\<lambda>a. - (idx ! a)) (backEdges (blocks g b))\<rparr> else blocks g b)\<rparr>"
  using assms
proof (induction bs arbitrary: g)
  case (Cons b bs)
  then show ?case by (auto simp: sortEdges_def updBlock_def fun_eq_iff)
qed simp

lemma reachable_owned:
  assumes "wf_blocks g" "basicBlocks g \<noteq> []" "reachable g b"
  shows "b \<in> set (basicBlocks g)"
  using assms(3) unfolding reachable_def
proof (induction rule: rtrancl_induct)
  case base
  then show ?case using assms(2) by (simp add: entry_def)
next
  case (step b c)
  then show ?case using assms(1) by (auto simp: wf_blocks_def edges_def)
qed

lemma wf_closed_ids:
  assumes "wf_blocks g" "basicBlocks g \<noteq> []"
  shows "closed_ids g (maxBasicBlockId g)"
proof -
  have "reachable g (entry g)" by (simp add: reachable_def)
  then show ?thesis
    using reachable_owned [OF assms] assms(1) reachable_step unfolding closed_ids_def wf_blocks_def by blast
qed

text \<open>What the passes after it rely on.\<close>

definition topo_order :: "cfg \<Rightarrow> bool" where
  "topo_order g \<longleftrightarrow> distinct (forwardsTopoSort g) \<and> forwardsTopoSort g \<noteq> [] \<and> last (forwardsTopoSort g) = entry g
     \<and> set (forwardsTopoSort g) = set (basicBlocks g)"

definition same_code :: "cfg \<Rightarrow> cfg \<Rightarrow> bool" where
  "same_code g g' \<longleftrightarrow> entry g' = entry g \<and> deadBlock g' = deadBlock g \<and> localVariables g' = localVariables g
     \<and> (\<forall>b. exprs (blocks g' b) = exprs (blocks g b) \<and> bexit (blocks g' b) = bexit (blocks g b))"

lemma sanityCheck_iff: "sanityCheck g \<longleftrightarrow> (\<forall>b\<in>set (basicBlocks g).
    (\<forall>parent\<in>set (backEdges (blocks g b)). b \<in> successors g parent)
  \<and> (b \<noteq> deadBlock g \<longrightarrow> (b \<noteq> entry g \<longrightarrow> wasJumpDestination (blocks g b)) \<and> (\<forall>c\<in>successors g b. b \<in> set (backEdges (blocks g c)))))"
proof -
  have "(thenb (bexit (blocks g p)) = b \<or> elseb (bexit (blocks g p)) = b) \<longleftrightarrow> b \<in> successors g p" for p b
    by (auto simp: successors_def)
  then show ?thesis unfolding sanityCheck_def by (simp add: successors_def)
qed

lemma sane_parent: "sanityCheck g \<Longrightarrow> b \<in> set (basicBlocks g) \<Longrightarrow> p \<in> set (backEdges (blocks g b)) \<Longrightarrow> b \<in> successors g p"
  unfolding sanityCheck_iff by blast

lemma sane_edge: "sanityCheck g \<Longrightarrow> b \<in> set (basicBlocks g) \<Longrightarrow> b \<noteq> deadBlock g \<Longrightarrow> c \<in> successors g b \<Longrightarrow> b \<in> set (backEdges (blocks g c))"
  unfolding sanityCheck_iff by blast

lemma reachable_part_ok:
  assumes wf: "wf_blocks g" and sane: "sanityCheck g" and ne: "basicBlocks g \<noteq> []" and code: "same_code g g'"
    and owned: "distinct (basicBlocks g')" "set (basicBlocks g') = {b. reachable g b}" "maxBasicBlockId g' = maxBasicBlockId g"
    and edges: "\<And>b. reachable g b \<Longrightarrow> set (backEdges (blocks g' b)) = {p \<in> set (backEdges (blocks g b)). reachable g p}"
    and jump: "\<And>b. wasJumpDestination (blocks g' b) = wasJumpDestination (blocks g b)"
  shows "wf_blocks g'" "sanityCheck g'"
proof -
  have succ: "successors g' = successors g" using code by (simp add: successors_def same_code_def fun_eq_iff)
  have n: "numLocalVariables g' = numLocalVariables g" "localVariables g' = localVariables g"
    using code by (simp_all add: same_code_def numLocalVariables_def)
  have block: "b < maxBasicBlockId g' \<and> successors g' b \<subseteq> set (basicBlocks g') \<and> set (backEdges (blocks g' b)) \<subseteq> set (basicBlocks g')
      \<and> us_variable (cond (bexit (blocks g' b))) < numLocalVariables g'
      \<and> (\<forall>e\<in>set (exprs (blocks g' b)). us_variable (bind e) < numLocalVariables g' \<and> (\<forall>v\<in>set (readVars (bind_value e)). v < numLocalVariables g'))"
    if "b \<in> set (basicBlocks g')" for b
  proof -
    have r: "reachable g b" using that owned(2) by blast
    moreover have "b \<in> set (basicBlocks g)" using reachable_owned [OF wf ne r] .
    moreover have "successors g b \<subseteq> {c. reachable g c}" using reachable_step [OF r] by blast
    ultimately show ?thesis using wf edges [OF r] code owned(2,3) by (simp add: wf_blocks_def succ n same_code_def) blast
  qed
  then show "wf_blocks g'" using wf owned(1) by (simp add: wf_blocks_def n)
  have "(\<forall>parent\<in>set (backEdges (blocks g' b)). b \<in> successors g' parent)
      \<and> (b \<noteq> deadBlock g' \<longrightarrow> (b \<noteq> entry g' \<longrightarrow> wasJumpDestination (blocks g' b)) \<and> (\<forall>c\<in>successors g' b. b \<in> set (backEdges (blocks g' c))))"
    if "b \<in> set (basicBlocks g')" for b
  proof -
    have r: "reachable g b" using that owned(2) by blast
    have b: "b \<in> set (basicBlocks g)" using reachable_owned [OF wf ne r] .
    have "\<forall>c\<in>successors g b. b \<in> set (backEdges (blocks g' c))" if "b \<noteq> deadBlock g"
      using sane_edge [OF sane b that] edges reachable_step [OF r] r by blast
    moreover have "\<forall>parent\<in>set (backEdges (blocks g' b)). b \<in> successors g parent"
      using sane_parent [OF sane b] edges [OF r] by blast
    moreover have "wasJumpDestination (blocks g b)" if "b \<noteq> deadBlock g" "b \<noteq> entry g" using sane b that by (simp add: sanityCheck_def)
    ultimately show ?thesis using code jump succ by (simp add: same_code_def)
  qed
  then show "sanityCheck g'" unfolding sanityCheck_iff by blast
qed

lemma topoSorts_reachable:
  assumes wf: "wf_blocks g" and sane: "sanityCheck g" and two: "1 < length (basicBlocks g)" and dead: "reachable g (deadBlock g)"
  shows "\<exists>g'. fillInTopoSorts g = Some g' \<and> same_code g g' \<and> topo_order g' \<and> wf_blocks g' \<and> sanityCheck g'
     \<and> set (basicBlocks g') = {b. reachable g b}
     \<and> (\<forall>b\<in>set (basicBlocks g'). set (backEdges (blocks g' b)) = {p \<in> set (backEdges (blocks g b)). reachable g p})
     \<and> ((\<exists>rank. no_loops g rank) \<longrightarrow> successors_first g')"
proof -
  have ne: "basicBlocks g \<noteq> []" using two by auto
  note ids = wf_closed_ids [OF wf ne]
  obtain idx target where run: "topoSortFwd g (maxBasicBlockId g) (entry g) = Some ([], idx, target)"
    and inv: "topo_inv g (maxBasicBlockId g) ([], idx, target)"
    and desc: "\<forall>rank. no_loops g rank \<longrightarrow> descending g rank ([], idx, target)"
    by (rule topoSortFwd_end [OF ids, where Q = "\<lambda>s. \<forall>rank. no_loops g rank \<longrightarrow> descending g rank s"])
      (use descending_step ids in \<open>blast, simp add: descending_def, blast\<close>)
  note found = topo_end_reachable [OF ids inv]
  have owned: "b \<in> set (basicBlocks g)" if "reachable g b" for b using reachable_owned [OF wf ne that] .
  have unreached: "idx ! b = -1 \<longleftrightarrow> \<not> reachable g b" if "b \<in> set (basicBlocks g)" for b
    using found(7) that wf by (simp add: wf_blocks_def)
  let ?kept = "filter (\<lambda>b. idx ! b \<noteq> -1) (basicBlocks g)"
  have kept: "set ?kept = {b. reachable g b}" using unreached owned by auto
  define es where "es b = filter (\<lambda>p. \<not> (p \<in> set (basicBlocks g) \<and> idx ! p = -1 \<and> b \<in> successors g p)) (backEdges (blocks g b))" for b
  define g' where "g' = g\<lparr>basicBlocks := ?kept, forwardsTopoSort := target, blocks := (\<lambda>b. (blocks g b)\<lparr>backEdges :=
      (if b \<in> set ?kept then sort_key (\<lambda>a. - (idx ! a)) (es b) else es b)\<rparr>)\<rparr>"
  have "fillInTopoSorts g = Some g'"
    using wf by (simp add: fillInTopoSorts_def run Let_def removeUnreachable_fold sortEdges_fold g'_def es_def wf_blocks_def successors_def fun_eq_iff)
  moreover have edges: "set (backEdges (blocks g' b)) = {p \<in> set (backEdges (blocks g b)). reachable g p}" if "reachable g b" for b
  proof -
    have "b \<in> set ?kept" using that kept by blast
    then have "set (backEdges (blocks g' b)) = set (es b)" by (simp add: g'_def)
    also have "\<dots> = {p \<in> set (backEdges (blocks g b)). reachable g p}"
    proof -
      have "p \<in> set (basicBlocks g) \<and> b \<in> successors g p" if "p \<in> set (backEdges (blocks g b))" for p
        using that wf sane_parent [OF sane owned [OF \<open>reachable g b\<close>]] owned [OF \<open>reachable g b\<close>] unfolding wf_blocks_def by blast
      then show ?thesis using unreached by (auto simp: es_def)
    qed
    finally show ?thesis .
  qed
  moreover have code: "same_code g g'"
  proof -
    obtain e d rest where "basicBlocks g = e # d # rest" using two by (cases "basicBlocks g"; cases "tl (basicBlocks g)") auto
    moreover have "reachable g (entry g)" by (simp add: reachable_def)
    ultimately have "entry g' = entry g" "deadBlock g' = deadBlock g"
      using unreached [of e] unreached [of d] dead by (simp_all add: g'_def entry_def deadBlock_def)
    then show ?thesis by (simp add: same_code_def g'_def)
  qed
  moreover have owned': "set (basicBlocks g') = {b. reachable g b}" using kept by (simp add: g'_def)
  moreover have "topo_order g'" using found(1-4) owned' code by (simp add: topo_order_def same_code_def g'_def)
  moreover have "wf_blocks g'" "sanityCheck g'"
    using reachable_part_ok [OF wf sane ne code _ owned' _ edges] wf by (simp_all add: g'_def wf_blocks_def)
  moreover have "successors g' = successors g" by (simp add: successors_def g'_def fun_eq_iff)
  then have "(\<exists>rank. no_loops g rank) \<longrightarrow> successors_first g'"
    using desc found(1) code by (auto simp: successors_first_def descending_def same_code_def g'_def)
  ultimately show ?thesis by blast
qed

text \<open>C20: The traversal returns, and afterwards the graph owns exactly the blocks that can be reached from the
  entry.  Its order lists each of them once, the entry last, and in a graph without loops every block after its
  successors.  The edges are those between reachable blocks, sorted by the order, and the graph passes the
  sanity check again.\<close>

theorem fillInTopoSorts_reachable:
  assumes wf: "wf_blocks g" and sane: "sanityCheck g" and two: "1 < length (basicBlocks g)" and dead: "reachable g (deadBlock g)"
  shows "\<exists>g'. fillInTopoSorts g = Some g' \<and> same_code g g' \<and> topo_order g' \<and> wf_blocks g' \<and> sanityCheck g'
     \<and> set (basicBlocks g') = {b. reachable g b}
     \<and> (\<forall>b\<in>set (basicBlocks g'). set (backEdges (blocks g' b)) = {p \<in> set (backEdges (blocks g b)). reachable g p})
     \<and> ((\<exists>rank. no_loops g rank) \<longrightarrow> successors_first g')"
  using assms by (rule topoSorts_reachable)

text \<open>A graph with a block (3) that nothing jumps to.\<close>

definition unreachable_graph :: cfg where
  "unreachable_graph = sample_graph
     [sample_block 0 [assign 5 (Literal NullType)] (jump 5 2 1) [],
      sample_block 0 [] (jump 3 1 1) [0, 2, 3],
      sample_block 0 [assign 4 (Return (use 5) no_loc)] (jump 3 1 1) [0, 3],
      sample_block 0 [] (jump 5 1 2) []] [] 7"

theorem fillInTopoSorts_reachable_witness:
  "wf_blocks unreachable_graph \<and> sanityCheck unreachable_graph \<and> reachable unreachable_graph (deadBlock unreachable_graph)
   \<and> map_option (\<lambda>g'. (basicBlocks g', forwardsTopoSort g', backEdges (blocks g' 1))) (fillInTopoSorts unreachable_graph)
     = Some ([0, 1, 2], [1, 2, 0], [0, 2])
   \<and> map_option topo_order (fillInTopoSorts unreachable_graph) = Some True"
proof -
  have wf: "wf_blocks unreachable_graph" by (rule wf_blocks_sample [OF _ unreachable_graph_def]) (simp, code_simp)
  have sane: "sanityCheck unreachable_graph" "1 < length (basicBlocks unreachable_graph)" by code_simp+
  have "deadBlock unreachable_graph \<in> successors unreachable_graph (entry unreachable_graph)" by code_simp
  then have dead: "reachable unreachable_graph (deadBlock unreachable_graph)"
    by (rule reachable_step [rotated]) (simp add: reachable_def)
  obtain g' where "fillInTopoSorts unreachable_graph = Some g'" "topo_order g'"
    using fillInTopoSorts_reachable [OF wf sane dead] by blast
  moreover have "map_option (\<lambda>g'. (basicBlocks g', forwardsTopoSort g', backEdges (blocks g' 1))) (fillInTopoSorts unreachable_graph)
     = Some ([0, 1, 2], [1, 2, 0], [0, 2])" by code_simp
  ultimately show ?thesis using wf sane(1) dead by simp
qed

end
