(* ===== verification/CfgDealias.thy ===== *)
theory CfgDealias
  imports CfgTopo "HOL-Library.AList"
begin

text \<open>
  \<open>CFGBuilder::dealias\<close> (\<open>cfg/builder/builder_finalize.cc\<close>): reads of temporaries that copy another variable
  become reads of that variable.  The pass does not change what the graph computes on any path.
\<close>

section \<open>The pass\<close>

type_synonym alias_map = "(u32 \<times> local_occurrence) list"

definition synthetic :: "u32 \<Rightarrow> local_occurrence" where
  "synthetic v = \<lparr>lo_variable = v, lo_loc = no_loc\<rparr>"

definition maybeDealias :: "cfg_env \<Rightarrow> cfg \<Rightarrow> local_occurrence \<Rightarrow> alias_map \<Rightarrow> local_occurrence" where
  "maybeDealias env g what aliases =
     (if isSyntheticTemporary env g (lo_variable what)
      then (case map_of aliases (lo_variable what) of Some fnd \<Rightarrow> fnd | None \<Rightarrow> what)
      else what)"

definition intersectAliases :: "alias_map \<Rightarrow> alias_map \<Rightarrow> alias_map" where
  "intersectAliases other current = filter (\<lambda>(k, l). case map_of other k of
     Some fnd \<Rightarrow> lo_variable fnd = lo_variable l | None \<Rightarrow> False) current"

text \<open>The aliases at the start of a block.  \<open>current\<close> is the entry of \<open>outAliases\<close> for the block itself, so a
  back edge from the block to itself compares the map with itself.\<close>

definition entryAliases :: "(nat \<Rightarrow> alias_map) \<Rightarrow> nat \<Rightarrow> nat list \<Rightarrow> alias_map" where
  "entryAliases out b preds = (case preds of
     [] \<Rightarrow> out b
   | p # ps \<Rightarrow> fold (\<lambda>p current. intersectAliases (if p = b then current else out p) current) ps (out p))"

fun dealiasInsn :: "cfg_env \<Rightarrow> cfg \<Rightarrow> alias_map \<Rightarrow> instruction \<Rightarrow> instruction" where
  "dealiasInsn env g current (Ident what) = Ident (lo_variable (maybeDealias env g (synthetic what) current))"
| "dealiasInsn env g current (Send v) =
     (let occs = map2 (\<lambda>r l. maybeDealias env g \<lparr>lo_variable = r, lo_loc = l\<rparr> current) (argRefs v) (argLocs v) in
      Send (v\<lparr>recv := assignOccurrence (recv v) (maybeDealias env g (occurrence (recv v)) current),
              argRefs := map lo_variable occs,
              argLocs := (if isSCIPRuby env then map lo_loc occs else argLocs v)\<rparr>))"
| "dealiasInsn env g current (TAbsurd what) = TAbsurd (assignOccurrence what (maybeDealias env g (occurrence what) current))"
| "dealiasInsn env g current (Return what l) = Return (assignOccurrence what (maybeDealias env g (occurrence what) current)) l"
| "dealiasInsn env g current i = i"

definition dealiasBinding ::
  "cfg_env \<Rightarrow> cfg \<Rightarrow> binding \<Rightarrow> alias_map \<times> uint_set \<Rightarrow> binding \<times> alias_map \<times> uint_set" where
  "dealiasBinding env g b = (\<lambda>(current, mayHaveAlias).
     let v = us_variable (bind b);
         value1 = (case bind_value b of
             Ident what \<Rightarrow> Ident (lo_variable (maybeDealias env g (synthetic what) current)) | i \<Rightarrow> i);
         current1 = (if uset_contains mayHaveAlias v then filter (\<lambda>(k, l). lo_variable l \<noteq> v) current else current);
         value2 = (if \<not> isSynthetic b then dealiasInsn env g current1 value1 else value1)
     in (b\<lparr>bind_value := value2\<rparr>,
         (case value2 of
            Ident what \<Rightarrow> (AList.update v \<lparr>lo_variable = what, lo_loc = bind_loc b\<rparr> current1, uset_add what mayHaveAlias)
          | i \<Rightarrow> (current1, mayHaveAlias))))"

fun dealiasExprs :: "cfg_env \<Rightarrow> cfg \<Rightarrow> binding list \<Rightarrow> alias_map \<times> uint_set \<Rightarrow> binding list \<times> alias_map" where
  "dealiasExprs env g [] cm = ([], fst cm)"
| "dealiasExprs env g (b # bs) cm =
     (let (b', cm') = dealiasBinding env g b cm; (bs', current) = dealiasExprs env g bs cm' in (b' # bs', current))"

definition mayHaveAlias :: "cfg \<Rightarrow> alias_map \<Rightarrow> uint_set" where
  "mayHaveAlias g current = fold (\<lambda>(k, l). uset_add (lo_variable l)) current (UIntSet (numLocalVariables g))"

definition dealiasBlock :: "cfg_env \<Rightarrow> nat \<Rightarrow> (nat \<Rightarrow> alias_map) \<times> cfg \<Rightarrow> (nat \<Rightarrow> alias_map) \<times> cfg" where
  "dealiasBlock env b = (\<lambda>(out, g).
     if b = deadBlock g then (out, g)
     else let bb = blocks g b;
              start = entryAliases out b (backEdges bb);
              (es, current) = dealiasExprs env g (exprs bb) (start, mayHaveAlias g start);
              c = cond (bexit bb);
              c' = (if us_variable c \<noteq> LocalRef_unconditional
                    then assignOccurrence c (maybeDealias env g (occurrence c) current) else c)
          in (out(b := current), updBlock b (\<lambda>bb. bb\<lparr>exprs := es, bexit := (bexit bb)\<lparr>cond := c'\<rparr>\<rparr>) g))"

definition dealias_pass :: "cfg_env \<Rightarrow> cfg \<Rightarrow> (nat \<Rightarrow> alias_map) \<times> cfg" where
  "dealias_pass env g = fold (dealiasBlock env) (rev (forwardsTopoSort g)) (\<lambda>_. [], g)"

definition cfg_dealias :: "cfg_env \<Rightarrow> cfg \<Rightarrow> cfg" where
  "cfg_dealias env g = snd (dealias_pass env g)"

section \<open>Conditions\<close>

text \<open>The records of the pass are by variable: assigning something other than a copy to a temporary for which
  there is a record would leave a stale one.  \<open>fresh_exprs\<close> says that this does not happen in a block.\<close>

fun fresh_exprs :: "cfg_env \<Rightarrow> cfg \<Rightarrow> binding list \<Rightarrow> alias_map \<times> uint_set \<Rightarrow> bool" where
  "fresh_exprs env g [] cm \<longleftrightarrow> True"
| "fresh_exprs env g (b # bs) cm \<longleftrightarrow>
     (case bind_value b of Ident what \<Rightarrow> True
      | i \<Rightarrow> isSyntheticTemporary env g (us_variable (bind b)) \<longrightarrow> map_of (fst cm) (us_variable (bind b)) = None)
     \<and> fresh_exprs env g bs (snd (dealiasBinding env g b cm))"

fun fresh_run :: "cfg_env \<Rightarrow> nat list \<Rightarrow> (nat \<Rightarrow> alias_map) \<times> cfg \<Rightarrow> bool" where
  "fresh_run env [] s \<longleftrightarrow> True"
| "fresh_run env (b # bs) s \<longleftrightarrow>
     (b \<noteq> deadBlock (snd s) \<longrightarrow>
        (let start = entryAliases (fst s) b (backEdges (blocks (snd s) b))
         in fresh_exprs env (snd s) (exprs (blocks (snd s) b)) (start, mayHaveAlias (snd s) start)))
     \<and> fresh_run env bs (dealiasBlock env b s)"

text \<open>A condition on the graph that implies it.  A temporary that is assigned something other than a copy is not a
  copy before: no earlier instruction of the block copies into it, and the block can be reached from the entry
  through blocks that do not copy into it (as in the two branches of an expression, one of which copies).\<close>

definition isCopy :: "binding \<Rightarrow> bool" where
  "isCopy e = (case bind_value e of Ident what \<Rightarrow> True | i \<Rightarrow> False)"

definition copies :: "u32 \<Rightarrow> binding list \<Rightarrow> bool" where
  "copies t es \<longleftrightarrow> (\<exists>e\<in>set es. isCopy e \<and> us_variable (bind e) = t)"

inductive uncopied :: "cfg \<Rightarrow> u32 \<Rightarrow> nat \<Rightarrow> bool" for g :: cfg and t :: u32 where
  at_entry: "uncopied g t (entry g)"
| along: "uncopied g t p \<Longrightarrow> p \<noteq> deadBlock g \<Longrightarrow> \<not> copies t (exprs (blocks g p)) \<Longrightarrow> b \<in> successors g p \<Longrightarrow> uncopied g t b"

definition temporaries_fresh :: "cfg_env \<Rightarrow> cfg \<Rightarrow> bool" where
  "temporaries_fresh env g \<longleftrightarrow> (\<forall>b. reachable g b \<and> b \<noteq> deadBlock g \<longrightarrow> (\<forall>i<length (exprs (blocks g b)).
     let e = exprs (blocks g b) ! i; t = us_variable (bind e) in
       \<not> isCopy e \<and> isSyntheticTemporary env g t \<longrightarrow> \<not> copies t (take i (exprs (blocks g b))) \<and> uncopied g t b))"

definition no_self_loop :: "cfg \<Rightarrow> bool" where
  "no_self_loop g \<longleftrightarrow> (\<forall>b. reachable g b \<and> b \<noteq> deadBlock g \<longrightarrow> b \<notin> successors g b)"

text \<open>Variables are in range, sends have one location per argument.\<close>

fun wf_insn :: "instruction \<Rightarrow> bool" where
  "wf_insn (Send v) \<longleftrightarrow> length (argLocs v) = length (argRefs v)"
| "wf_insn i \<longleftrightarrow> True"

definition wf_binding :: "u32 \<Rightarrow> binding \<Rightarrow> bool" where
  "wf_binding n b \<longleftrightarrow> us_variable (bind b) < n \<and> (\<forall>v\<in>set (readVars (bind_value b)). v < n) \<and> wf_insn (bind_value b)"

definition sends_ok :: "cfg \<Rightarrow> bool" where
  "sends_ok g \<longleftrightarrow> (\<forall>b. reachable g b \<longrightarrow> (\<forall>e\<in>set (exprs (blocks g b)). wf_insn (bind_value e)))"

definition wf_vars :: "cfg \<Rightarrow> bool" where
  "wf_vars g \<longleftrightarrow> length (localVariables g) \<le> 2 ^ 32 - 32
     \<and> (\<forall>b\<in>set (forwardsTopoSort g). \<forall>e\<in>set (exprs (blocks g b)). wf_binding (numLocalVariables g) e)"

section \<open>One block\<close>

definition agree :: "cfg_env \<Rightarrow> cfg \<Rightarrow> alias_map \<Rightarrow> 'v store \<Rightarrow> bool" where
  "agree env g current st \<longleftrightarrow> (\<forall>(k, l)\<in>set current. isSyntheticTemporary env g k \<longrightarrow> st k = st (lo_variable l))"

lemma agree_Nil [simp]: "agree env g [] st"
  by (simp add: agree_def)

lemma agree_mono: "agree env g A st \<Longrightarrow> set B \<subseteq> set A \<Longrightarrow> agree env g B st"
  by (auto simp: agree_def)

lemma maybeDealias_value: "agree env g A st \<Longrightarrow> st (lo_variable (maybeDealias env g l A)) = st (lo_variable l)"
  by (auto simp: agree_def maybeDealias_def dest!: map_of_SomeD split: option.split)

lemma no_use_assign [simp]: "no_use (assignOccurrence u l) = no_use u"
  by (simp add: no_use_def assignOccurrence_def)

lemma us_variable_assign [simp]: "us_variable (assignOccurrence u l) = lo_variable l"
  by (simp add: assignOccurrence_def)

lemma lo_variable_occurrence [simp]: "lo_variable (occurrence u) = us_variable u" "lo_variable (synthetic v) = v"
  by (simp_all add: occurrence_def synthetic_def)

lemma dealiasInsn_reads:
  assumes "agree env g A st" "wf_insn i"
  shows "map st (readVars (dealiasInsn env g A i)) = map st (readVars i)" "shape (dealiasInsn env g A i) = shape i"
    "wf_insn (dealiasInsn env g A i)"
proof -
  note [simp] = maybeDealias_value [OF assms(1)]
  have "map (\<lambda>(r, l). st (lo_variable (maybeDealias env g \<lparr>lo_variable = r, lo_loc = l\<rparr> A))) (zip rs ls) = map st rs"
    if "length ls = length rs" for rs ls
    using that by (induction rs ls rule: list_induct2') auto
  then show "map st (readVars (dealiasInsn env g A i)) = map st (readVars i)"
    using assms(2) by (cases i) (simp_all add: Let_def comp_def case_prod_unfold)
  show "shape (dealiasInsn env g A i) = shape i" "wf_insn (dealiasInsn env g A i)"
    using assms(2) by (cases i; auto simp: Let_def map_replicate_const)+
qed

definition wf_aliases :: "u32 \<Rightarrow> alias_map \<Rightarrow> bool" where
  "wf_aliases n current \<longleftrightarrow> distinct (map fst current) \<and> (\<forall>(k, l)\<in>set current. lo_variable l < n)"

definition covers :: "u32 \<Rightarrow> uint_set \<Rightarrow> alias_map \<Rightarrow> bool" where
  "covers n may current \<longleftrightarrow> uset_fits (unat ((n + 31) div 32)) may \<and> (\<forall>(k, l)\<in>set current. lo_variable l \<in> uset_abs may)"

lemma maybeDealias_bound: "wf_aliases n A \<Longrightarrow> lo_variable l < n \<Longrightarrow> lo_variable (maybeDealias env g l A) < n"
  by (auto simp: wf_aliases_def maybeDealias_def dest!: map_of_SomeD split: option.split)

lemma covers_add:
  assumes "covers n may A" "n \<le> 2 ^ 32 - 32" "v < n" "set B \<subseteq> insert (k, l) (set A)" "lo_variable l = v"
  shows "covers n (uset_add v may) B"
proof -
  have "can_hold (unat ((n + 31) div 32)) v" using UIntSet_fits(3) assms(2,3) by blast
  then have "uset_abs (uset_add v may) = insert v (uset_abs may)"
    using assms(1) by (intro uset_add_abs) (simp add: covers_def uset_fits_def)
  then show ?thesis using assms(1,4,5) by (fastforce simp: covers_def uset_fits_def)
qed

lemma mayHaveAlias_covers:
  assumes "numLocalVariables g \<le> 2 ^ 32 - 32" "wf_aliases (numLocalVariables g) A"
  shows "covers (numLocalVariables g) (mayHaveAlias g A) A"
proof -
  let ?n = "numLocalVariables g"
  have "covers ?n (fold (\<lambda>(k, l). uset_add (lo_variable l)) B may) (rev B @ C)"
    if "covers ?n may C" "\<forall>(k, l)\<in>set B. lo_variable l < ?n" for B C may
    using that
  proof (induction B arbitrary: may C)
    case (Cons x B)
    obtain k l where x: "x = (k, l)" by fastforce
    have "covers ?n (uset_add (lo_variable l) may) (x # C)"
      using Cons.prems by (intro covers_add [OF _ assms(1), where A = C and k = k and l = l]) (auto simp: x)
    from Cons.IH [OF this] Cons.prems(2) show ?case by (simp add: x)
  qed simp
  from this [of "UIntSet ?n" "[]" A] have "covers ?n (mayHaveAlias g A) (rev A)"
    using assms UIntSet_fits(1) [OF assms(1)] by (simp add: mayHaveAlias_def covers_def wf_aliases_def)
  then show ?thesis by (simp add: covers_def)
qed

lemma set_AList_update:
  assumes "distinct (map fst A)"
  shows "set (AList.update v x A) \<subseteq> insert (v, x) {p \<in> set A. fst p \<noteq> v}"
proof
  fix p assume "p \<in> set (AList.update v x A)"
  moreover obtain k l where p: "p = (k, l)" by fastforce
  ultimately have "map_of (AList.update v x A) k = Some l"
    using assms distinct_update by (metis map_of_is_SomeI)
  then show "p \<in> insert (v, x) {p \<in> set A. fst p \<noteq> v}"
    by (auto simp: p AList.update_conv' dest!: map_of_SomeD split: if_splits)
qed

lemma dealiasInsn_Ident: "(\<exists>x. dealiasInsn env g A i = Ident x) \<longleftrightarrow> (\<exists>x. i = Ident x)"
  by (cases i) (auto simp: Let_def)

lemma invalidated:
  assumes "covers n may current" "n \<le> 2 ^ 32 - 32" "v < n"
  shows "set (if uset_contains may v then filter (\<lambda>(k, l). lo_variable l \<noteq> v) current else current)
     = {(k, l) \<in> set current. lo_variable l \<noteq> v}"
proof -
  have "can_hold (length may) v" using UIntSet_fits(3) [OF assms(2,3)] assms(1) by (simp add: covers_def uset_fits_def)
  then have "uset_contains may v \<longleftrightarrow> v \<in> uset_abs may" by (rule uset_contains_abs)
  then show ?thesis using assms(1) by (auto simp: covers_def)
qed

lemma dealiasBinding_step:
  assumes n: "n = numLocalVariables g" "n \<le> 2 ^ 32 - 32" and b: "wf_binding n b"
    and inv: "wf_aliases n current" "covers n may current" "agree env g current st"
    and fresh: "fresh_exprs env g [b] (current, may)"
    and step: "dealiasBinding env g b (current, may) = (b', current', may')"
  shows "runBinding sem b' (st, w) = runBinding sem b (st, w)" "wf_aliases n current'" "covers n may' current'"
    "agree env g current' (fst (runBinding sem b (st, w)))"
proof -
  define v where "v = us_variable (bind b)"
  define current1 where "current1 = (if uset_contains may v then filter (\<lambda>(k, l). lo_variable l \<noteq> v) current else current)"
  have v: "v < n" using b by (simp add: wf_binding_def v_def)
  have set1: "set current1 = {(k, l) \<in> set current. lo_variable l \<noteq> v}"
    unfolding current1_def by (rule invalidated [OF inv(2) n(2) v])
  have d1: "distinct (map fst current1)" using inv(1) by (auto simp: wf_aliases_def current1_def distinct_map_filter)
  have wf1: "wf_aliases n current1" using inv(1) d1 set1 by (auto simp: wf_aliases_def)
  have ag1: "agree env g current1 st" by (rule agree_mono [OF inv(3)]) (auto simp: set1)
  have cov1: "covers n may current1" using inv(2) by (auto simp: covers_def set1)
  consider what where "bind_value b = Ident what" | "\<nexists>what. bind_value b = Ident what" by blast
  then have "runBinding sem b' (st, w) = runBinding sem b (st, w) \<and> wf_aliases n current' \<and> covers n may' current'
    \<and> agree env g current' (fst (runBinding sem b (st, w)))"
  proof cases
    case (1 what)
    define what2 where "what2 = (if \<not> isSynthetic b
      then lo_variable (maybeDealias env g (synthetic (lo_variable (maybeDealias env g (synthetic what) current))) current1)
      else lo_variable (maybeDealias env g (synthetic what) current))"
    have "what < n" using b 1 by (simp add: wf_binding_def)
    then have w2: "what2 < n" "st what2 = st what"
      by (simp_all add: what2_def maybeDealias_value [OF inv(3)] maybeDealias_value [OF ag1] maybeDealias_bound [OF inv(1)]
          maybeDealias_bound [OF wf1])
    have b': "b' = b\<lparr>bind_value := Ident what2\<rparr>" and c': "current' = AList.update v \<lparr>lo_variable = what2, lo_loc = bind_loc b\<rparr> current1"
      and m': "may' = uset_add what2 may"
      using step 1 by (auto simp: dealiasBinding_def Let_def what2_def current1_def v_def split: if_splits)
    note u = set_AList_update [OF d1, of v "\<lparr>lo_variable = what2, lo_loc = bind_loc b\<rparr>", folded c']
    have "runBinding sem b' (st, w) = (st(v := st what), w)" "runBinding sem b (st, w) = (st(v := st what), w)"
      using 1 by (simp_all add: runBinding_def b' v_def w2)
    moreover have "wf_aliases n current'" using wf1 u w2(1) d1 by (auto simp: wf_aliases_def c' distinct_update)
    moreover have "covers n may' current'" unfolding m' by (rule covers_add [OF cov1 n(2) w2(1)]) (use u in auto)
    moreover have "agree env g current' (st(v := st what))"
      using u ag1 set1 w2(2) by (fastforce simp: agree_def)
    ultimately show ?thesis by simp
  next
    case 2
    define i2 where "i2 = (if \<not> isSynthetic b then dealiasInsn env g current1 (bind_value b) else bind_value b)"
    have ni: "\<nexists>what. i2 = Ident what" using 2 dealiasInsn_Ident [of env g current1 "bind_value b"] by (auto simp: i2_def)
    have v1: "(case bind_value b of Ident what \<Rightarrow> Ident (lo_variable (maybeDealias env g (synthetic what) current)) | i \<Rightarrow> i) = bind_value b"
      using 2 by (auto split: instruction.split)
    have v2: "(case i2 of Ident what \<Rightarrow> F what | i \<Rightarrow> x) = x" for F and x :: "alias_map \<times> uint_set"
      using ni by (auto split: instruction.split)
    have b': "b' = b\<lparr>bind_value := i2\<rparr>" "current' = current1" "may' = may"
      using step unfolding dealiasBinding_def Let_def v1 case_prod_conv v_def [symmetric] current1_def [symmetric] i2_def [symmetric] v2
      by simp_all
    have "wf_insn (bind_value b)" using b by (simp add: wf_binding_def)
    then have i: "map st (readVars i2) = map st (readVars (bind_value b))" "shape i2 = shape (bind_value b)"
      using dealiasInsn_reads [OF ag1, of "bind_value b"] by (simp_all add: i2_def)
    have same: "runBinding sem b' (st, w) = runBinding sem b (st, w)"
      using 2 ni by (simp add: runBinding_other b'(1) i)
    have "isSyntheticTemporary env g v \<longrightarrow> map_of current v = None"
      using fresh 2 by (auto simp: v_def split: instruction.splits)
    moreover have "fst (runBinding sem b (st, w)) k = st k" if "k \<noteq> v" for k
      using 2 that by (auto simp: runBinding_other v_def Let_def split: prod.split)
    ultimately have "agree env g current1 (fst (runBinding sem b (st, w)))"
      using ag1 unfolding agree_def set1 by (force simp: map_of_eq_None_iff)
    then show ?thesis using same wf1 cov1 by (simp add: b')
  qed
  then show "runBinding sem b' (st, w) = runBinding sem b (st, w)" "wf_aliases n current'" "covers n may' current'"
    "agree env g current' (fst (runBinding sem b (st, w)))" by blast+
qed

lemma dealiasExprs_run:
  assumes n: "n = numLocalVariables g" "n \<le> 2 ^ 32 - 32"
  shows "\<forall>b\<in>set bs. wf_binding n b \<Longrightarrow> wf_aliases n current \<Longrightarrow> covers n may current \<Longrightarrow> agree env g current st
    \<Longrightarrow> fresh_exprs env g bs (current, may) \<Longrightarrow> dealiasExprs env g bs (current, may) = (bs', current')
    \<Longrightarrow> fold (runBinding sem) bs' (st, w) = fold (runBinding sem) bs (st, w) \<and> wf_aliases n current'
      \<and> agree env g current' (fst (fold (runBinding sem) bs (st, w)))"
proof (induction bs arbitrary: bs' current may st w)
  case (Cons b bs)
  obtain b1 c1 m1 where 1: "dealiasBinding env g b (current, may) = (b1, c1, m1)" by (metis prod_cases3)
  obtain bs1 where 2: "dealiasExprs env g bs (c1, m1) = (bs1, current')" and bs': "bs' = b1 # bs1"
    using Cons.prems(6) by (auto simp: 1 Let_def split: prod.splits)
  obtain st1 w1 where r: "runBinding sem b (st, w) = (st1, w1)" by fastforce
  have "fresh_exprs env g [b] (current, may)" using Cons.prems(5) by simp
  note s = dealiasBinding_step(2,3) [OF n _ Cons.prems(2-4) this 1] dealiasBinding_step(1,4) [OF n _ Cons.prems(2-4) this 1, of sem w]
  have "runBinding sem b1 (st, w) = (st1, w1)" "wf_aliases n c1" "covers n m1 c1" "agree env g c1 st1"
    using s Cons.prems(1) r by simp_all
  then show ?case
    using Cons.IH [of c1 m1 st1 bs1 w1] Cons.prems(1,5) 2 by (simp add: bs' r 1)
qed simp

section \<open>The whole pass\<close>

lemma intersect_subset: "set (intersectAliases other current) \<subseteq> set current"
  by (auto simp: intersectAliases_def)

lemma intersect_agree: "agree env g other st \<Longrightarrow> agree env g (intersectAliases other current) st"
  by (fastforce simp: agree_def intersectAliases_def dest!: map_of_SomeD split: option.splits)

lemma fold_intersect:
  fixes start :: alias_map and out :: "nat \<Rightarrow> alias_map" and b :: nat
  defines "res \<equiv> \<lambda>ps start. fold (\<lambda>p current. intersectAliases (if p = b then current else out p) current) ps start"
  shows "set (res ps start) \<subseteq> set start" "distinct (map fst start) \<Longrightarrow> distinct (map fst (res ps start))"
    "p \<in> set ps \<Longrightarrow> p \<noteq> b \<Longrightarrow> agree env g (out p) st \<Longrightarrow> agree env g (res ps start) st"
proof -
  have sub: "set (res ps start) \<subseteq> set start" for ps start
  proof (induction ps arbitrary: start)
    case (Cons p ps)
    show ?case using Cons.IH intersect_subset by (fastforce simp: res_def)
  qed (simp add: res_def)
  then show "set (res ps start) \<subseteq> set start" .
  show "distinct (map fst start) \<Longrightarrow> distinct (map fst (res ps start))"
    unfolding res_def by (induction ps arbitrary: start) (simp_all add: intersectAliases_def distinct_map_filter)
  show "p \<in> set ps \<Longrightarrow> p \<noteq> b \<Longrightarrow> agree env g (out p) st \<Longrightarrow> agree env g (res ps start) st"
  proof (induction ps arbitrary: start)
    case (Cons q ps)
    have eq: "res (q # ps) start = res ps (intersectAliases (if q = b then start else out q) start)" by (simp add: res_def)
    show ?case
    proof (cases "q = p")
      case True
      then show ?thesis unfolding eq using Cons.prems(2,3) by (intro agree_mono [OF _ sub]) (simp add: intersect_agree)
    qed (use Cons in \<open>auto simp: eq\<close>)
  qed simp
qed

lemma entryAliases_agree:
  assumes "p \<in> set preds" "b \<notin> set preds" "agree env g (out p) st"
  shows "agree env g (entryAliases out b preds) st"
proof -
  obtain e es where preds: "preds = e # es" using assms(1) by (cases preds) auto
  note f = fold_intersect [where b = b and out = out and ps = es and start = "out e"]
  show ?thesis
  proof (cases "p = e")
    case True
    then show ?thesis using agree_mono [OF _ f(1), of env g st] assms(3) by (simp add: entryAliases_def preds)
  next
    case False
    then show ?thesis using f(3) [of p env g st] assms by (auto simp: entryAliases_def preds)
  qed
qed

lemma entryAliases_start: "b \<notin> set preds \<Longrightarrow> agree env g (entryAliases (\<lambda>_. []) b preds) st"
  using entryAliases_agree [of "hd preds" preds b env g "\<lambda>_. []" st] by (cases preds) (simp_all add: entryAliases_def)

lemma entryAliases_start_nil: "entryAliases (\<lambda>_. []) b preds = []"
proof (cases preds)
  case (Cons p ps)
  have "fold (\<lambda>p current. intersectAliases (if p = b then current else []) current) ps [] = []"
    by (induction ps) (simp_all add: intersectAliases_def)
  then show ?thesis by (simp add: entryAliases_def Cons)
qed (simp add: entryAliases_def)

lemma entryAliases_wf: "(\<And>p. wf_aliases n (out p)) \<Longrightarrow> wf_aliases n (entryAliases out b preds)"
  using fold_intersect(1,2) unfolding entryAliases_def wf_aliases_def by (cases preds) (auto, blast)

lemma agree_updBlock [simp]: "agree env (updBlock b f g) = agree env g"
  by (simp add: agree_def isSyntheticTemporary_def fun_eq_iff)

text \<open>\<open>bb'\<close> computes what \<open>bb\<close> computes from every store that agrees with \<open>start\<close>, and leaves one that agrees
  with \<open>final\<close>.\<close>

definition same_block :: "cfg_env \<Rightarrow> cfg \<Rightarrow> alias_map \<Rightarrow> alias_map \<Rightarrow> ('v, 'w) meaning \<Rightarrow> basic_block \<Rightarrow> basic_block \<Rightarrow> bool" where
  "same_block env g start final sem bb bb' \<longleftrightarrow> (\<forall>st w. agree env g start st \<longrightarrow>
     runBlock sem bb' (st, w) = runBlock sem bb (st, w) \<and> agree env g final (fst (runBlock sem bb (st, w)))
     \<and> fst (runBlock sem bb (st, w)) (us_variable (cond (bexit bb'))) = fst (runBlock sem bb (st, w)) (us_variable (cond (bexit bb))))"

lemma dealiasBlock_same:
  fixes sem :: "('v, 'w) meaning"
  assumes n: "numLocalVariables g \<le> 2 ^ 32 - 32" and wf: "\<And>p. wf_aliases (numLocalVariables g) (out p)"
    and bb: "\<forall>e\<in>set (exprs (blocks g b)). wf_binding (numLocalVariables g) e" and live: "b \<noteq> deadBlock g"
    and start: "start = entryAliases out b (backEdges (blocks g b))"
    and fresh: "fresh_exprs env g (exprs (blocks g b)) (start, mayHaveAlias g start)"
    and step: "dealiasBlock env b (out, g) = (out', g')"
  shows "\<exists>final f. out' = out(b := final) \<and> g' = updBlock b f g \<and> wf_aliases (numLocalVariables g) final
    \<and> same_block env g start final sem (blocks g b) (blocks g' b)
    \<and> (\<forall>bb. backEdges (f bb) = backEdges bb \<and> thenb (bexit (f bb)) = thenb (bexit bb) \<and> elseb (bexit (f bb)) = elseb (bexit bb))"
proof -
  let ?c = "cond (bexit (blocks g b))"
  obtain es final where es: "dealiasExprs env g (exprs (blocks g b)) (start, mayHaveAlias g start) = (es, final)" by fastforce
  define c' where "c' = (if us_variable ?c \<noteq> LocalRef_unconditional
    then assignOccurrence ?c (maybeDealias env g (occurrence ?c) final) else ?c)"
  have out': "out' = out(b := final)"
    and g': "g' = updBlock b (\<lambda>bb. bb\<lparr>exprs := es, bexit := (bexit bb)\<lparr>cond := c'\<rparr>\<rparr>) g"
    using step live es by (auto simp: dealiasBlock_def Let_def start c'_def)
  have ws: "wf_aliases (numLocalVariables g) start" unfolding start by (rule entryAliases_wf) (rule wf)
  note run = dealiasExprs_run [OF refl n bb ws mayHaveAlias_covers [OF n ws] _ fresh es]
  have "agree env g start (\<lambda>_. ())" by (auto simp: agree_def)
  from run [OF this, of "\<lambda>_ _ _. ((), ())" "()"] have "wf_aliases (numLocalVariables g) final" by simp
  moreover have "same_block env g start final sem (blocks g b) (blocks g' b)"
    using run [of _ sem] by (auto simp: same_block_def runBlock_def g' c'_def maybeDealias_value)
  ultimately show ?thesis using out' g' by fastforce
qed

lemma pass_same:
  fixes sem :: "('v, 'w) meaning"
  assumes "distinct bs" "\<forall>b\<in>set bs. out b = []" "\<And>p. wf_aliases (numLocalVariables g) (out p)" "numLocalVariables g \<le> 2 ^ 32 - 32"
    "\<forall>b\<in>set bs. (b \<noteq> deadBlock g \<longrightarrow> b \<notin> set (backEdges (blocks g b))) \<and> (\<forall>e\<in>set (exprs (blocks g b)). wf_binding (numLocalVariables g) e)"
    "fresh_run env bs (out, g)" "fold (dealiasBlock env) bs (out, g) = (out', g')"
  shows "(\<forall>b. b \<notin> set bs \<longrightarrow> out' b = out b \<and> blocks g' b = blocks g b)
    \<and> basicBlocks g' = basicBlocks g \<and> localVariables g' = localVariables g
    \<and> (\<forall>b. backEdges (blocks g' b) = backEdges (blocks g b) \<and> successors g' b = successors g b)
    \<and> (\<forall>b\<in>set bs. b \<noteq> deadBlock g \<longrightarrow> (\<exists>start.
         (b = hd bs \<longrightarrow> start = entryAliases out b (backEdges (blocks g b)))
       \<and> (\<forall>p\<in>set (backEdges (blocks g b)). \<forall>st :: 'v store. agree env g (out' p) st \<longrightarrow> agree env g start st)
       \<and> same_block env g start (out' b) sem (blocks g b) (blocks g' b)))"
  using assms
proof (induction bs arbitrary: out g)
  case (Cons b bs)
  show ?case
  proof (cases "b = deadBlock g")
    case True
    then have "dealiasBlock env b (out, g) = (out, g)" by (simp add: dealiasBlock_def)
    then show ?thesis using Cons.IH [of out g] Cons.prems True by (auto, metis)
  next
    case False
    let ?start = "entryAliases out b (backEdges (blocks g b))"
    obtain out1 g1 where step: "dealiasBlock env b (out, g) = (out1, g1)" by fastforce
    have "fresh_exprs env g (exprs (blocks g b)) (?start, mayHaveAlias g ?start)" using Cons.prems(6) False by (simp add: Let_def)
    moreover have "\<forall>e\<in>set (exprs (blocks g b)). wf_binding (numLocalVariables g) e" using Cons.prems(5) by simp
    ultimately have "\<exists>final f. out1 = out(b := final) \<and> g1 = updBlock b f g \<and> wf_aliases (numLocalVariables g) final
        \<and> same_block env g ?start final sem (blocks g b) (blocks g1 b)
        \<and> (\<forall>bb. backEdges (f bb) = backEdges bb \<and> thenb (bexit (f bb)) = thenb (bexit bb) \<and> elseb (bexit (f bb)) = elseb (bexit bb))"
      by (intro dealiasBlock_same [OF Cons.prems(4,3) _ False refl _ step])
    then
    obtain final f where o1: "out1 = out(b := final)" and g1: "g1 = updBlock b f g" and wf: "wf_aliases (numLocalVariables g) final"
      and same: "same_block env g ?start final sem (blocks g b) (blocks g1 b)"
      and f: "\<And>bb. backEdges (f bb) = backEdges bb \<and> thenb (bexit (f bb)) = thenb (bexit bb) \<and> elseb (bexit (f bb)) = elseb (bexit bb)"
      by blast
    have nin: "b \<notin> set bs" using Cons.prems(1) by simp
    have ih: "(\<forall>c. c \<notin> set bs \<longrightarrow> out' c = out1 c \<and> blocks g' c = blocks g1 c)"
        "basicBlocks g' = basicBlocks g1" "localVariables g' = localVariables g1"
        "\<forall>c. backEdges (blocks g' c) = backEdges (blocks g1 c) \<and> successors g' c = successors g1 c"
      "\<forall>c\<in>set bs. c \<noteq> deadBlock g1 \<longrightarrow> (\<exists>start.
         (c = hd bs \<longrightarrow> start = entryAliases out1 c (backEdges (blocks g1 c)))
       \<and> (\<forall>p\<in>set (backEdges (blocks g1 c)). \<forall>st :: 'v store. agree env g1 (out' p) st \<longrightarrow> agree env g1 start st)
       \<and> same_block env g1 start (out' c) sem (blocks g1 c) (blocks g' c))"
    proof -
      have "distinct bs" "\<forall>b\<in>set bs. out1 b = []" using Cons.prems(1,2) nin by (auto simp: o1)
      moreover have "wf_aliases (numLocalVariables g1) (out1 p)" for p using Cons.prems(3) wf by (simp add: o1 g1)
      moreover have "numLocalVariables g1 \<le> 2 ^ 32 - 32" using Cons.prems(4) by (simp add: g1)
      moreover have "\<forall>b\<in>set bs. (b \<noteq> deadBlock g1 \<longrightarrow> b \<notin> set (backEdges (blocks g1 b))) \<and> (\<forall>e\<in>set (exprs (blocks g1 b)). wf_binding (numLocalVariables g1) e)"
        using Cons.prems(5) nin by (auto simp: g1)
      moreover have "fresh_run env bs (out1, g1)" "fold (dealiasBlock env) bs (out1, g1) = (out', g')"
        using Cons.prems(6,7) step by simp_all
      ultimately show "(\<forall>c. c \<notin> set bs \<longrightarrow> out' c = out1 c \<and> blocks g' c = blocks g1 c)"
        "basicBlocks g' = basicBlocks g1" "localVariables g' = localVariables g1"
        "\<forall>c. backEdges (blocks g' c) = backEdges (blocks g1 c) \<and> successors g' c = successors g1 c"
        "\<forall>c\<in>set bs. c \<noteq> deadBlock g1 \<longrightarrow> (\<exists>start.
         (c = hd bs \<longrightarrow> start = entryAliases out1 c (backEdges (blocks g1 c)))
       \<and> (\<forall>p\<in>set (backEdges (blocks g1 c)). \<forall>st :: 'v store. agree env g1 (out' p) st \<longrightarrow> agree env g1 start st)
       \<and> same_block env g1 start (out' c) sem (blocks g1 c) (blocks g' c))"
        using Cons.IH [of out1 g1] by blast+
    qed
    have sb: "same_block env (updBlock b f g) = same_block env g" by (simp add: same_block_def fun_eq_iff)
    have "agree env g ?start st" if "p \<in> set (backEdges (blocks g b))" "agree env g (out' p) st" for p and st :: "'v store"
    proof -
      have "p \<noteq> b" using that(1) Cons.prems(5) False by auto
      then have "agree env g (out p) st"
        using ih(1) that(2) Cons.prems(2) by (cases "p \<in> set bs") (auto simp: o1)
      then show ?thesis using entryAliases_agree that(1) Cons.prems(5) False by auto
    qed
    note start = this
    have "out' b = final" "blocks g' b = blocks g1 b" using ih(1) nin by (simp_all add: o1)
    then have same_b: "same_block env g ?start (out' b) sem (blocks g b) (blocks g' b)" using same by simp
    show ?thesis
    proof (intro conjI allI ballI impI)
      fix c assume "c \<notin> set (b # bs)"
      then show "out' c = out c" "blocks g' c = blocks g c" using ih(1) by (simp_all add: o1 g1)
    next
      fix c
      show "backEdges (blocks g' c) = backEdges (blocks g c)" "successors g' c = successors g c"
        using ih(4) by (simp_all add: g1 f successors_def)
    next
      fix c assume c: "c \<in> set (b # bs)" "c \<noteq> deadBlock g"
      let ?goal = "\<lambda>s. (c = hd (b # bs) \<longrightarrow> s = entryAliases out c (backEdges (blocks g c)))
       \<and> (\<forall>p\<in>set (backEdges (blocks g c)). \<forall>st :: 'v store. agree env g (out' p) st \<longrightarrow> agree env g s st)
       \<and> same_block env g s (out' c) sem (blocks g c) (blocks g' c)"
      show "\<exists>s. ?goal s"
      proof (cases "c = b")
        case True
        then have "?goal ?start" using start same_b by simp
        then show ?thesis by (rule exI)
      next
        case False
        then have "c \<in> set bs" "c \<noteq> deadBlock g1" using c by (simp_all add: g1)
        then obtain s where "\<forall>p\<in>set (backEdges (blocks g1 c)). \<forall>st :: 'v store. agree env g1 (out' p) st \<longrightarrow> agree env g1 s st"
          "same_block env g1 s (out' c) sem (blocks g1 c) (blocks g' c)" using ih(5) by blast
        then have "?goal s" using False by (simp add: g1 sb)
        then show ?thesis by (rule exI)
      qed
    qed (use ih(2,3) in \<open>simp_all add: g1\<close>)
  qed
qed simp

lemma ordered_runs:
  fixes sem :: "('v, 'w) meaning"
  assumes "sanityCheck g" "distinct (forwardsTopoSort g)" "forwardsTopoSort g \<noteq> []" "last (forwardsTopoSort g) = entry g"
    "set (forwardsTopoSort g) = set (basicBlocks g)" "wf_vars g"
    "\<forall>b\<in>set (basicBlocks g). b \<noteq> deadBlock g \<longrightarrow> b \<notin> set (backEdges (blocks g b))"
    "fresh_run env (rev (forwardsTopoSort g)) (\<lambda>_. [], g)" "is_path g p" "set p \<subseteq> set (basicBlocks g)"
  shows "runPath sem (cfg_dealias env g) p (st, w) = runPath sem g p (st, w)
     \<and> fst (runPath sem g p (st, w)) (us_variable (cond (bexit (blocks (cfg_dealias env g) (last p)))))
       = fst (runPath sem g p (st, w)) (us_variable (cond (bexit (blocks g (last p)))))"
proof -
  obtain out' g' where pass: "dealias_pass env g = (out', g')" by fastforce
  then have g': "cfg_dealias env g = g'" by (simp add: cfg_dealias_def)
  let ?bs = "rev (forwardsTopoSort g)"
  have "length (localVariables g) \<le> 2 ^ 32 - 32" using assms(6) by (simp add: wf_vars_def)
  then have n: "numLocalVariables g \<le> 2 ^ 32 - 32" by (simp add: numLocalVariables_def word_le_nat_alt)
  have hd: "hd ?bs = entry g" using assms(3,4) by (simp add: hd_rev)
  have pre: "distinct ?bs" "\<forall>b\<in>set ?bs. (\<lambda>_. []) b = []" "wf_aliases (numLocalVariables g) ((\<lambda>_. []) q)"
    "\<forall>b\<in>set ?bs. (b \<noteq> deadBlock g \<longrightarrow> b \<notin> set (backEdges (blocks g b))) \<and> (\<forall>e\<in>set (exprs (blocks g b)). wf_binding (numLocalVariables g) e)"
    "fresh_run env ?bs (\<lambda>_. [], g)" "fold (dealiasBlock env) ?bs (\<lambda>_. [], g) = (out', g')" for q
    using assms(2,5,6,7,8) pass by (simp_all add: dealias_pass_def wf_vars_def wf_aliases_def)
  note ps = pass_same [OF pre(1,2,3) n pre(4,5,6), where sem = sem, THEN conjunct2, THEN conjunct2, THEN conjunct2, THEN conjunct2]
  have same: "\<exists>start. (b = entry g \<longrightarrow> start = entryAliases (\<lambda>_. []) b (backEdges (blocks g b)))
       \<and> (\<forall>p\<in>set (backEdges (blocks g b)). \<forall>st :: 'v store. agree env g (out' p) st \<longrightarrow> agree env g start st)
       \<and> same_block env g start (out' b) sem (blocks g b) (blocks g' b)" if "b \<in> set (basicBlocks g)" "b \<noteq> deadBlock g" for b
    using ps [rule_format, of b, unfolded hd] that assms(5) by simp
  have "runPath sem g' p (st, w) = runPath sem g p (st, w) \<and> agree env g (out' (last p)) (fst (runPath sem g p (st, w)))
     \<and> fst (runPath sem g p (st, w)) (us_variable (cond (bexit (blocks g' (last p)))))
       = fst (runPath sem g p (st, w)) (us_variable (cond (bexit (blocks g (last p)))))"
    using assms(9,10)
  proof (induction p rule: rev_induct)
    case (snoc b p)
    have b: "b \<in> set (basicBlocks g)" "b \<noteq> deadBlock g" using snoc.prems by (auto simp: is_path_def)
    obtain start where start: "b = entry g \<longrightarrow> start = entryAliases (\<lambda>_. []) b (backEdges (blocks g b))"
      "\<forall>p\<in>set (backEdges (blocks g b)). \<forall>st :: 'v store. agree env g (out' p) st \<longrightarrow> agree env g start st"
      "same_block env g start (out' b) sem (blocks g b) (blocks g' b)" using same [OF b] by blast
    let ?s = "runPath sem g p (st, w)"
    have "runPath sem g' p (st, w) = ?s \<and> agree env g start (fst ?s)"
    proof (cases "p = []")
      case True
      then have "b = entry g" using snoc.prems(1) by (simp add: is_path_def)
      moreover have "agree env g (entryAliases (\<lambda>_. []) b (backEdges (blocks g b))) (fst ?s)"
        using assms(7) b by (intro entryAliases_start) simp
      ultimately show ?thesis using start(1) True by (simp add: runPath_def)
    next
      case False
      then have p: "is_path g p" "b \<in> successors g (last p)" using snoc.prems(1) by (simp_all add: is_path_snoc)
      have "last p \<in> set p" using False by simp
      with p(1) snoc.prems(2) have "last p \<in> set (basicBlocks g)" "last p \<noteq> deadBlock g"
        unfolding is_path_def by (fastforce, metis)
      then have "last p \<in> set (backEdges (blocks g b))"
        using assms(1) p(2) by (auto simp: sanityCheck_def successors_def)
      with snoc.IH [OF p(1)] snoc.prems(2) start(2) show ?thesis by auto
    qed
    then show ?case
      using start(3) [unfolded same_block_def, rule_format, of "fst ?s" "snd ?s"] by (simp add: runPath_snoc)
  qed (simp add: is_path_def)
  then show ?thesis by (simp add: g')
qed

section \<open>Fresh temporaries\<close>

lemma uncopied_reachable: "uncopied g t b \<Longrightarrow> reachable g b"
  by (induction rule: uncopied.induct) (auto simp: reachable_def intro: reachable_step [unfolded reachable_def])

lemma path_reachable:
  assumes "is_path g p" "b \<in> set p"
  shows "reachable g b"
proof -
  have "reachable g (p ! i)" if "i < length p" for i
    using that
  proof (induction i)
    case 0
    then show ?case using assms(1) by (simp add: is_path_def hd_conv_nth reachable_def)
  next
    case (Suc i)
    then show ?case using assms(1) by (auto simp: is_path_def intro: reachable_step)
  qed
  then show ?thesis using assms(2) by (metis in_set_conv_nth)
qed

lemma dealiasBinding_keeps_none:
  assumes "map_of A t = None" "\<not> copies t [e]" "dealiasBinding env g e (A, may) = (e', A', may')"
  shows "map_of A' t = None"
proof -
  have flt: "map_of (filter P A) t = None" for P using assms(1) by (auto simp: map_of_eq_None_iff)
  show ?thesis
  proof (cases "isCopy e")
    case True
    then have "us_variable (bind e) \<noteq> t" using assms(2) by (simp add: copies_def)
    then show ?thesis using assms(1,3) True flt
      by (cases "bind_value e") (auto simp: dealiasBinding_def isCopy_def Let_def AList.update_conv' split: if_splits)
  next
    case False
    then show ?thesis using assms(1,3) flt
      by (cases "bind_value e") (auto simp: dealiasBinding_def isCopy_def Let_def split: if_splits)
  qed
qed

lemma dealiasExprs_keeps_none:
  "map_of A t = None \<Longrightarrow> \<not> copies t es \<Longrightarrow> dealiasExprs env g es (A, may) = (es', A') \<Longrightarrow> map_of A' t = None"
proof (induction es arbitrary: A may es')
  case (Cons e es)
  obtain e1 A1 may1 where step: "dealiasBinding env g e (A, may) = (e1, A1, may1)" by (metis prod_cases3)
  have "map_of A1 t = None" using dealiasBinding_keeps_none [OF Cons.prems(1) _ step] Cons.prems(2) by (auto simp: copies_def)
  then show ?case using Cons.IH [of A1 may1] Cons.prems(2,3) step by (auto simp: copies_def split: prod.splits)
qed simp

lemma fresh_exprsI:
  assumes "\<forall>i<length es. let t = us_variable (bind (es ! i)) in
    \<not> isCopy (es ! i) \<and> isSyntheticTemporary env g t \<longrightarrow> \<not> copies t (take i es) \<and> map_of A t = None"
  shows "fresh_exprs env g es (A, may)"
  using assms
proof (induction es arbitrary: A may)
  case (Cons e es)
  obtain e1 A1 may1 where step: "dealiasBinding env g e (A, may) = (e1, A1, may1)" by (metis prod_cases3)
  have "let t = us_variable (bind (es ! i)) in \<not> isCopy (es ! i) \<and> isSyntheticTemporary env g t \<longrightarrow> \<not> copies t (take i es) \<and> map_of A1 t = None"
    if "i < length es" for i
    using Cons.prems [rule_format, of "Suc i"] that dealiasBinding_keeps_none [OF _ _ step] by (auto simp: copies_def Let_def)
  then have "fresh_exprs env g es (A1, may1)" using Cons.IH by blast
  moreover have "isSyntheticTemporary env g (us_variable (bind e)) \<longrightarrow> map_of A (us_variable (bind e)) = None" if "\<not> isCopy e"
    using Cons.prems [rule_format, of 0] that by (simp add: Let_def)
  ultimately show ?case using step by (auto simp: isCopy_def split: instruction.splits)
qed simp

lemma intersectAliases_none: "map_of other t = None \<or> map_of A t = None \<Longrightarrow> map_of (intersectAliases other A) t = None"
  by (auto simp: intersectAliases_def map_of_eq_None_iff split: option.splits) (force dest: weak_map_of_SomeI)+

lemma entryAliases_none:
  assumes "p \<in> set preds" "p \<noteq> b" "map_of (out p) t = None"
  shows "map_of (entryAliases out b preds) t = None"
proof -
  let ?res = "\<lambda>ps A. fold (\<lambda>p current. intersectAliases (if p = b then current else out p) current) ps A"
  have keep: "map_of (?res ps A) t = None" if "map_of A t = None" for ps A
    using that by (induction ps arbitrary: A) (simp_all add: intersectAliases_none)
  have drop: "map_of (?res ps A) t = None" if "p \<in> set ps" for ps A
    using that assms(2,3) by (induction ps arbitrary: A) (auto simp: keep intersectAliases_none)
  show ?thesis using assms keep drop by (cases preds) (auto simp: entryAliases_def)
qed

lemma fresh_run_order:
  assumes "distinct (ds @ bs)" "ds @ bs \<noteq> []" "hd (ds @ bs) = entry g"
    and g': "deadBlock g' = deadBlock g" "localVariables g' = localVariables g" "\<forall>b\<in>set bs. blocks g' b = blocks g b"
    and out: "\<forall>b. b \<notin> set ds \<longrightarrow> out b = []"
      "\<forall>p\<in>set ds. \<forall>t. p \<noteq> deadBlock g \<and> uncopied g t p \<and> \<not> copies t (exprs (blocks g p)) \<longrightarrow> map_of (out p) t = None"
    and g: "\<forall>b\<in>set (ds @ bs). reachable g b" "no_self_loop g" "temporaries_fresh env g"
      "\<forall>p b. reachable g p \<and> p \<noteq> deadBlock g \<and> b \<in> successors g p \<longrightarrow> p \<in> set (backEdges (blocks g b))"
  shows "fresh_run env bs (out, g')"
  using assms(1-9)
proof (induction bs arbitrary: ds out g')
  case (Cons b bs)
  let ?preds = "backEdges (blocks g b)"
  let ?start = "entryAliases out b ?preds"
  have nin: "b \<notin> set ds" "b \<notin> set bs" using Cons.prems(1) by auto
  have blk: "blocks g' b = blocks g b" using Cons.prems(6) by simp
  have sy: "isSyntheticTemporary env g' = isSyntheticTemporary env g"
    using Cons.prems(5) by (simp add: isSyntheticTemporary_def localData_def fun_eq_iff)
  have r: "reachable g b" using Cons.prems(9) by simp
  have start: "map_of ?start t = None" if "uncopied g t b" "b \<noteq> deadBlock g" for t
    using that(1)
  proof cases
    case at_entry
    have "ds = []" using at_entry Cons.prems(1,3) by (cases ds) auto
    then have "out = (\<lambda>_. [])" using Cons.prems(7) by auto
    then show ?thesis using entryAliases_start_nil by simp
  next
    case (along p)
    have "p \<in> set ?preds" using g(4) along(1,2,4) uncopied_reachable by blast
    moreover have "p \<noteq> b" using g(2) r that(2) along(4) by (auto simp: no_self_loop_def)
    moreover have "map_of (out p) t = None" using Cons.prems(7,8) along(1-3) by (cases "p \<in> set ds") auto
    ultimately show ?thesis by (rule entryAliases_none)
  qed
  have fresh: "fresh_exprs env g' (exprs (blocks g b)) (?start, mayHaveAlias g' ?start)" if "b \<noteq> deadBlock g"
    using g(3) r that start [OF _ that] by (intro fresh_exprsI) (simp add: temporaries_fresh_def sy Let_def)
  obtain out1 g1 where step: "dealiasBlock env b (out, g') = (out1, g1)" by fastforce
  have "fresh_run env bs (out1, g1)"
  proof (rule Cons.IH [of "ds @ [b]"])
    show "deadBlock g1 = deadBlock g" "localVariables g1 = localVariables g" "\<forall>b\<in>set bs. blocks g1 b = blocks g b"
      using step Cons.prems(4-6) nin(2) by (auto simp: dealiasBlock_def Let_def split: if_splits prod.splits)
    show "\<forall>c. c \<notin> set (ds @ [b]) \<longrightarrow> out1 c = []"
      using step Cons.prems(7) by (auto simp: dealiasBlock_def Let_def split: if_splits prod.splits)
    show "\<forall>p\<in>set (ds @ [b]). \<forall>t. p \<noteq> deadBlock g \<and> uncopied g t p \<and> \<not> copies t (exprs (blocks g p)) \<longrightarrow> map_of (out1 p) t = None"
      using step Cons.prems(4,8) nin(1) blk start dealiasExprs_keeps_none [of ?start _ "exprs (blocks g b)" env g']
      by (auto simp: dealiasBlock_def Let_def split: if_splits prod.splits)
  qed (use Cons.prems(1,2,3,9) in auto)
  then show ?case using fresh step blk Cons.prems(4) by (simp add: Let_def)
qed simp

lemma dealias_runs:
  fixes sem :: "('v, 'w) meaning"
  assumes g: "wf_blocks g" "sanityCheck g" "topo_order g" "set (basicBlocks g) = {b. reachable g b}"
    and built: "sends_ok g" "no_self_loop g" "temporaries_fresh env g" and p: "is_path g p"
  shows "runPath sem (cfg_dealias env g) p (st, w) = runPath sem g p (st, w)
     \<and> fst (runPath sem g p (st, w)) (us_variable (cond (bexit (blocks (cfg_dealias env g) (last p)))))
       = fst (runPath sem g p (st, w)) (us_variable (cond (bexit (blocks g (last p)))))"
proof -
  have order: "distinct (forwardsTopoSort g)" "forwardsTopoSort g \<noteq> []" "last (forwardsTopoSort g) = entry g"
    "set (forwardsTopoSort g) = set (basicBlocks g)" using g(3) by (auto simp: topo_order_def)
  have vars: "wf_vars g" using g(1,4) built(1) order(4) by (simp add: wf_vars_def wf_blocks_def wf_binding_def sends_ok_def)
  have loops: "\<forall>b\<in>set (basicBlocks g). b \<noteq> deadBlock g \<longrightarrow> b \<notin> set (backEdges (blocks g b))"
    using built(2) g(4) sane_parent [OF g(2)] by (auto simp: no_self_loop_def)
  have "fresh_run env (rev (forwardsTopoSort g)) (\<lambda>_. [], g)"
  proof (rule fresh_run_order [where ds = "[]" and g = g])
    show "\<forall>p b. reachable g p \<and> p \<noteq> deadBlock g \<and> b \<in> successors g p \<longrightarrow> p \<in> set (backEdges (blocks g b))"
      using sane_edge [OF g(2)] g(4) by blast
  qed (use order g(4) built(2,3) in \<open>simp_all add: hd_rev\<close>)
  moreover have "set p \<subseteq> set (basicBlocks g)"
    using p g(4) by (auto dest: path_reachable)
  ultimately show ?thesis by (intro ordered_runs [OF g(2) order vars loops _ p])
qed

text \<open>C13: Dealiasing does not change what a method computes.  Take a graph as the sort leaves it, in which no block
  jumps to itself, sends have one location per argument, and a temporary that gets something other than a
  copy is not a copy before (the block can be reached from the entry without copying into it).  On every
  path from the entry, for every meaning of the instructions, the blocks after the pass lead to the same
  store and the same world, and the variable that decides the next branch has the same value.\<close>

theorem dealias_preserves_runs:
  fixes sem :: "('v, 'w) meaning"
  assumes g: "wf_blocks g" "sanityCheck g" "topo_order g" "set (basicBlocks g) = {b. reachable g b}"
    and built: "sends_ok g" "no_self_loop g" "temporaries_fresh env g" and p: "is_path g p"
  shows "runPath sem (cfg_dealias env g) p (st, w) = runPath sem g p (st, w)
     \<and> fst (runPath sem g p (st, w)) (us_variable (cond (bexit (blocks (cfg_dealias env g) (last p)))))
       = fst (runPath sem g p (st, w)) (us_variable (cond (bexit (blocks g (last p)))))"
  using assms by (rule dealias_runs)

text \<open>A method with two branches, one of which copies a variable to a temporary; the other gives the temporary a literal.\<close>

definition copy_graph :: cfg where
  "copy_graph = sample_graph
     [sample_block 0 [] (jump 6 2 3) [],
      sample_block 0 [] (jump 3 1 1) [4],
      sample_block 0 [assign 5 (Ident 6), assign 4 (TAbsurd (use 5))] (jump 3 4 4) [0],
      sample_block 0 [assign 5 (Literal NullType)] (jump 3 4 4) [0],
      sample_block 0 [assign 4 (Return (use 5) no_loc)] (jump 3 1 1) [2, 3]] [1, 4, 2, 3, 0] 7"

lemma copy_graph_blocks:
  "basicBlocks copy_graph = [0, 1, 2, 3, 4]" "entry copy_graph = 0" "deadBlock copy_graph = 1"
  "successors copy_graph 0 = {2, 3}" "successors copy_graph 2 = {4}" "successors copy_graph 3 = {4}" "successors copy_graph 4 = {1}"
  "exprs (blocks copy_graph 0) = []" "exprs (blocks copy_graph 2) = [assign 5 (Ident 6), assign 4 (TAbsurd (use 5))]"
  "exprs (blocks copy_graph 3) = [assign 5 (Literal NullType)]" "exprs (blocks copy_graph 4) = [assign 4 (Return (use 5) no_loc)]"
  by code_simp+

lemma copy_graph_temporaries: "\<not> isSyntheticTemporary sample_cfg_env copy_graph 4" "isSyntheticTemporary sample_cfg_env copy_graph 5"
  by code_simp+

lemma copy_graph_ok: "wf_blocks copy_graph" "sanityCheck copy_graph" "topo_order copy_graph" "is_path copy_graph [0, 2, 4]"
proof -
  show "wf_blocks copy_graph" by (rule wf_blocks_sample [OF _ copy_graph_def]) (simp, code_simp)
  show "sanityCheck copy_graph" "topo_order copy_graph" by code_simp+
  show "is_path copy_graph [0, 2, 4]" by (auto simp: is_path_def copy_graph_blocks less_Suc_eq nth_Cons split: nat.splits)
qed

lemma copy_graph_reachable: "{b. reachable copy_graph b} = {0, 1, 2, 3, 4}"
proof -
  have "{b. reachable copy_graph b} \<subseteq> {0, 1, 2, 3, 4}"
    using reachable_owned [OF copy_graph_ok(1)] by (auto simp: copy_graph_blocks)
  moreover have "reachable copy_graph 0" by (simp add: reachable_def copy_graph_blocks)
  moreover from this have "reachable copy_graph 2" "reachable copy_graph 3" by (auto intro: reachable_step simp: copy_graph_blocks)
  moreover from this have "reachable copy_graph 4" by (auto intro: reachable_step simp: copy_graph_blocks)
  moreover from this have "reachable copy_graph 1" by (auto intro: reachable_step simp: copy_graph_blocks)
  ultimately show ?thesis by blast
qed

lemma copy_graph_built: "sends_ok copy_graph" "no_self_loop copy_graph" "temporaries_fresh sample_cfg_env copy_graph"
proof -
  have r: "b = 0 \<or> b = 1 \<or> b = 2 \<or> b = 3 \<or> b = 4" if "reachable copy_graph b" for b using that copy_graph_reachable by blast
  have dead: "exprs (blocks copy_graph (Suc 0)) = []" by code_simp
  show "sends_ok copy_graph" unfolding sends_ok_def
    by (intro allI impI, drule r) (auto simp: copy_graph_blocks dead assign_def)
  show "no_self_loop copy_graph" unfolding no_self_loop_def
    by (intro allI impI, elim conjE, drule r) (auto simp: copy_graph_blocks)
  have "uncopied copy_graph 5 (entry copy_graph)" by (rule uncopied.at_entry)
  then have u: "uncopied copy_graph 5 3" by (rule uncopied.along) (simp_all add: copy_graph_blocks copies_def)
  show "temporaries_fresh sample_cfg_env copy_graph" unfolding temporaries_fresh_def
    by (intro allI impI, elim conjE, drule r)
      (auto simp: copy_graph_blocks copy_graph_temporaries assign_def use_def less_Suc_eq isCopy_def copies_def u)
qed

theorem dealias_preserves_runs_witness:
  "temporaries_fresh sample_cfg_env copy_graph \<and> is_path copy_graph [0, 2, 4]
   \<and> exprs (blocks (cfg_dealias sample_cfg_env copy_graph) 2) = [assign 5 (Ident 6), assign 4 (TAbsurd (use 6))]
   \<and> runPath (\<lambda>i vs w. (0::int, w + sum_list vs)) (cfg_dealias sample_cfg_env copy_graph) [0, 2, 4] (\<lambda>v. int (unat v), 0)
     = runPath (\<lambda>i vs w. (0, w + sum_list vs)) copy_graph [0, 2, 4] (\<lambda>v. int (unat v), 0)"
proof -
  have "set (basicBlocks copy_graph) = {b. reachable copy_graph b}" by (auto simp: copy_graph_reachable copy_graph_blocks)
  note run = dealias_preserves_runs [OF copy_graph_ok(1-3) this copy_graph_built copy_graph_ok(4), of "\<lambda>i vs w. (0, w + sum_list vs)"
      "\<lambda>v. int (unat v)" 0]
  have "exprs (blocks (cfg_dealias sample_cfg_env copy_graph) 2) = [assign 5 (Ident 6), assign 4 (TAbsurd (use 6))]"
    by code_simp
  with run copy_graph_ok(4) copy_graph_built(3) show ?thesis by blast
qed

text \<open>The condition on self loops is needed: for a block that is its own predecessor, the map of the block is
  compared with itself, and the records from before the loop survive although the block assigns the
  copied variable.\<close>

definition self_loop_graph :: cfg where
  "self_loop_graph = sample_graph
     [sample_block 0 [assign 5 (Ident 6)] (jump 3 2 2) [],
      sample_block 0 [] (jump 3 1 1) [2],
      sample_block 1 [assign 7 (TAbsurd (use 5)), assign 6 (Literal NullType)] (jump 7 2 1) [0, 2]] [1, 2, 0] 8"

lemma self_loop_graph_fresh: "temporaries_fresh sample_cfg_env self_loop_graph"
proof -
  have wf: "wf_blocks self_loop_graph" by (rule wf_blocks_sample [OF _ self_loop_graph_def]) (simp, code_simp)
  have copied: "\<forall>b\<in>set (basicBlocks self_loop_graph). \<forall>e\<in>set (exprs (blocks self_loop_graph b)).
      isCopy e \<or> \<not> isSyntheticTemporary sample_cfg_env self_loop_graph (us_variable (bind e))"
    "basicBlocks self_loop_graph \<noteq> []" by code_simp+
  show ?thesis
    unfolding temporaries_fresh_def Let_def using copied(1) reachable_owned [OF wf copied(2)] nth_mem by blast
qed

lemma dealias_self_loop_differs:
  "sanityCheck self_loop_graph \<and> temporaries_fresh sample_cfg_env self_loop_graph \<and> is_path self_loop_graph [0, 2, 2]
   \<and> snd (runPath (\<lambda>i vs w. (1, w + sum_list vs)) (cfg_dealias sample_cfg_env self_loop_graph) [0, 2, 2] (\<lambda>_. 0, 0 :: int)) = 1
   \<and> snd (runPath (\<lambda>i vs w. (1, w + sum_list vs)) self_loop_graph [0, 2, 2] (\<lambda>_. 0, 0 :: int)) = 0"
proof -
  have "entry self_loop_graph = 0" "deadBlock self_loop_graph = 1" "2 \<in> successors self_loop_graph 0" "2 \<in> successors self_loop_graph 2"
    by code_simp+
  then have "is_path self_loop_graph [0, 2, 2]" by (auto simp: is_path_def less_Suc_eq nth_Cons split: nat.splits)
  moreover have "sanityCheck self_loop_graph"
    "snd (runPath (\<lambda>i vs w. (1, w + sum_list vs)) (cfg_dealias sample_cfg_env self_loop_graph) [0, 2, 2] (\<lambda>_. 0, 0 :: int)) = 1"
    "snd (runPath (\<lambda>i vs w. (1, w + sum_list vs)) self_loop_graph [0, 2, 2] (\<lambda>_. 0, 0 :: int)) = 0" by code_simp+
  ultimately show ?thesis using self_loop_graph_fresh by blast
qed

end
