(* ===== verification/CfgLiveness.thy ===== *)
theory CfgLiveness
  imports CfgDealias
begin

text \<open>
  Block arguments and dead assignments (\<open>CFG::findAllReadsAndWrites\<close> in \<open>cfg/CFG.cc\<close>; \<open>computeMinMaxLoops\<close>,
  \<open>fillInBlockArguments\<close> and \<open>removeDeadAssigns\<close> in \<open>cfg/builder/builder_finalize.cc\<close>).  Vectors of sets are
  indexed by block ids.  The loops end; when the first of them has reached a fixed point, removing
  dead assignments does not change what the graph computes.
\<close>

section \<open>Reads and writes\<close>

record reads_and_writes =
  rw_reads :: "uint_set list"
  rw_writes :: "uint_set list"
  rw_dead :: "uint_set list"

definition isAlias :: "instruction \<Rightarrow> bool" where
  "isAlias i = (case i of Alias _ _ \<Rightarrow> True | _ \<Rightarrow> False)"

definition rwBinding :: "cfg_env \<Rightarrow> cfg \<Rightarrow> binding \<Rightarrow> uint_set \<times> uint_set \<times> uint_set \<Rightarrow> uint_set \<times> uint_set \<times> uint_set" where
  "rwBinding env g b = (\<lambda>(blockReads, blockWrites, blockDead).
     let v = us_variable (bind b);
         blockWrites = uset_add v blockWrites;
         blockReads = (if isAliasForGlobal env g v \<and> \<not> isAlias (bind_value b) then uset_add v blockReads else blockReads);
         blockReads = fold uset_add (readVars (bind_value b)) blockReads;
         blockDead = (if \<not> uset_contains blockReads v then uset_add v blockDead else blockDead)
     in (blockReads, blockWrites, blockDead))"

definition rwBlock :: "cfg_env \<Rightarrow> cfg \<Rightarrow> basic_block \<Rightarrow> uint_set \<times> uint_set \<times> uint_set \<Rightarrow> uint_set \<times> uint_set \<times> uint_set" where
  "rwBlock env g bb sets =
     (let (blockReads, blockWrites, blockDead) = fold (rwBinding env g) (exprs bb) sets;
          c = us_variable (cond (bexit bb))
      in (if c \<noteq> LocalRef_unconditional then uset_add c blockReads else blockReads, blockWrites, blockDead))"

definition rwStep :: "cfg_env \<Rightarrow> cfg \<Rightarrow> nat \<Rightarrow> reads_and_writes \<Rightarrow> reads_and_writes" where
  "rwStep env g b target =
     (let (r, w, d) = rwBlock env g (blocks g b) (rw_reads target ! b, rw_writes target ! b, rw_dead target ! b)
      in \<lparr>rw_reads = (rw_reads target)[b := r], rw_writes = (rw_writes target)[b := w], rw_dead = (rw_dead target)[b := d]\<rparr>)"

definition noReadsAndWrites :: "cfg \<Rightarrow> reads_and_writes" where
  "noReadsAndWrites g = (let empty = replicate (maxBasicBlockId g) (UIntSet (numLocalVariables g)) in
     \<lparr>rw_reads = empty, rw_writes = empty, rw_dead = empty\<rparr>)"

text \<open>The number of blocks that use a variable, and the first of them.\<close>

definition countUsage :: "nat \<Rightarrow> u32 \<Rightarrow> (nat \<times> nat) list \<Rightarrow> (nat \<times> nat) list" where
  "countUsage blockId local counts =
     (let (c, b) = counts ! unat local in counts[unat local := (Suc c, if c = 0 then blockId else b)])"

definition usageCounts :: "cfg \<Rightarrow> reads_and_writes \<Rightarrow> (nat \<times> nat) list" where
  "usageCounts g target =
     fold (\<lambda>blockId. fold (countUsage blockId)
         (uset_items (uset_overwriteWithUnion (UIntSet (numLocalVariables g)) (rw_reads target ! blockId) (rw_writes target ! blockId))))
       [0..<maxBasicBlockId g] (replicate (length (localVariables g)) (0, 0))"

definition removePrivates :: "(nat \<times> nat) list \<Rightarrow> uint_set list \<Rightarrow> uint_set list" where
  "removePrivates counts blockWrites =
     fold (\<lambda>(local, c, b) ws. if c = 1 then ws[b := uset_remove (of_nat local) (ws ! b)] else ws)
       (zip [0..<length counts] counts) blockWrites"

definition findAllReadsAndWrites :: "cfg_env \<Rightarrow> cfg \<Rightarrow> reads_and_writes" where
  "findAllReadsAndWrites env g =
     (let target = fold (rwStep env g) (basicBlocks g) (noReadsAndWrites g)
      in target\<lparr>rw_writes := removePrivates (usageCounts g target) (rw_writes target)\<rparr>)"

section \<open>Loops\<close>

definition minLoopsStep :: "cfg \<Rightarrow> nat \<Rightarrow> u32 \<Rightarrow> int list \<Rightarrow> int list" where
  "minLoopsStep g b local mins =
     (let curMin = mins ! unat local; loops = outerLoops (blocks g b)
      in mins[unat local := (if curMin > loops then loops else curMin)])"

definition maxLoopsStep :: "cfg \<Rightarrow> nat \<Rightarrow> u32 \<Rightarrow> int list \<Rightarrow> int list" where
  "maxLoopsStep g b local maxs =
     (let curMax = maxs ! unat local; loops = outerLoops (blocks g b)
      in maxs[unat local := (if curMax < loops then loops else curMax)])"

definition computeMinMaxLoops :: "reads_and_writes \<Rightarrow> cfg \<Rightarrow> cfg" where
  "computeMinMaxLoops rnw g =
     (let bs = filter (\<lambda>b. b \<noteq> deadBlock g) (basicBlocks g);
          written = (\<lambda>b. map (\<lambda>e. us_variable (bind e)) (exprs (blocks g b)));
          mins = fold (\<lambda>b. fold (minLoopsStep g b) (uset_items (rw_reads rnw ! b))) bs (minLoops g);
          mins = fold (\<lambda>b. fold (minLoopsStep g b) (written b)) bs mins;
          maxs = fold (\<lambda>b. fold (maxLoopsStep g b) (written b)) bs (maxLoopWrite g)
      in g\<lparr>minLoops := mins, maxLoopWrite := maxs\<rparr>)"

section \<open>Block arguments\<close>

definition toRemove :: "cfg \<Rightarrow> nat \<Rightarrow> uint_set \<Rightarrow> uint_set" where
  "toRemove g b deadForBlock =
     fold (\<lambda>local s. if outerLoops (blocks g b) \<le> minLoops g ! unat local then uset_add local s else s)
       (uset_items deadForBlock) (uset_clear (UIntSet (numLocalVariables g)))"

definition upperBound1 :: "cfg \<Rightarrow> reads_and_writes \<Rightarrow> uint_set list \<Rightarrow> nat \<Rightarrow> uint_set" where
  "upperBound1 g rnw ub b =
     (let t = thenb (bexit (blocks g b)); e = elseb (bexit (blocks g b));
          u = (if t \<noteq> deadBlock g then uset_addAll (ub ! b) (ub ! t) else ub ! b);
          u = (if e \<noteq> deadBlock g then uset_addAll u (if e = b then u else ub ! e) else u)
      in if \<not> uset_empty (rw_dead rnw ! b) then uset_removeAll u (toRemove g b (rw_dead rnw ! b)) else u)"

definition upperBounds1Step :: "cfg \<Rightarrow> reads_and_writes \<Rightarrow> nat \<Rightarrow> uint_set list \<times> bool \<Rightarrow> uint_set list \<times> bool" where
  "upperBounds1Step g rnw b = (\<lambda>(ub, changed).
     let u = upperBound1 g rnw ub b in (ub[b := u], changed \<or> uset_size u \<noteq> uset_size (ub ! b)))"

definition upperBounds1 :: "cfg \<Rightarrow> reads_and_writes \<Rightarrow> (uint_set list \<times> bool) option" where
  "upperBounds1 g rnw =
     while_option snd (\<lambda>(ub, changed). fold (upperBounds1Step g rnw) (forwardsTopoSort g) (ub, False)) (rw_reads rnw, True)"

definition upperBound2 :: "cfg \<Rightarrow> reads_and_writes \<Rightarrow> uint_set list \<Rightarrow> nat \<Rightarrow> uint_set" where
  "upperBound2 g rnw ub b =
     fold (\<lambda>edge u. if edge \<noteq> deadBlock g then uset_addBoth u (rw_writes rnw ! edge) (if edge = b then u else ub ! edge) else u)
       (backEdges (blocks g b)) (ub ! b)"

definition upperBounds2Step :: "cfg \<Rightarrow> reads_and_writes \<Rightarrow> nat \<Rightarrow> uint_set list \<times> bool \<Rightarrow> uint_set list \<times> bool" where
  "upperBounds2Step g rnw b = (\<lambda>(ub, changed).
     let u = upperBound2 g rnw ub b in (ub[b := u], changed \<or> uset_size (ub ! b) \<noteq> uset_size u))"

definition upperBounds2 :: "cfg \<Rightarrow> reads_and_writes \<Rightarrow> (uint_set list \<times> bool) option" where
  "upperBounds2 g rnw =
     while_option snd (\<lambda>(ub, changed). fold (upperBounds2Step g rnw) (rev (forwardsTopoSort g)) (ub, False))
       (replicate (maxBasicBlockId g) (UIntSet (numLocalVariables g)), True)"

definition mergeStep :: "uint_set list \<Rightarrow> nat \<Rightarrow> uint_set list \<times> cfg \<Rightarrow> uint_set list \<times> cfg" where
  "mergeStep ub2 b = (\<lambda>(ub1, g). let u = uset_intersect (ub1 ! b) (ub2 ! b) in
     (ub1[b := u], updBlock b (\<lambda>bb. bb\<lparr>args := args bb @
        map (\<lambda>local. \<lparr>us_variable = local, us_type = NullType, us_loc = no_loc\<rparr>) (uset_items u)\<rparr>) g))"

text \<open>The result is the vector of block arguments and the graph with the arguments filled in.\<close>

definition fillInBlockArguments :: "cfg \<Rightarrow> reads_and_writes \<Rightarrow> (uint_set list \<times> cfg) option" where
  "fillInBlockArguments g rnw =
     (case (upperBounds1 g rnw, upperBounds2 g rnw) of
        (Some (ub1, _), Some (ub2, _)) \<Rightarrow> Some (fold (mergeStep ub2) (basicBlocks g) (ub1, g))
      | _ \<Rightarrow> None)"

section \<open>Dead assignments\<close>

definition isPure :: "instruction \<Rightarrow> bool" where
  "isPure i = (case i of Ident _ \<Rightarrow> True | Literal _ \<Rightarrow> True | LoadSelf _ _ \<Rightarrow> True | LoadArg _ _ \<Rightarrow> True
     | LoadYieldParams _ \<Rightarrow> True | _ \<Rightarrow> False)"

definition isDeadAssign :: "cfg_env \<Rightarrow> cfg \<Rightarrow> reads_and_writes \<Rightarrow> uint_set list \<Rightarrow> nat \<Rightarrow> binding \<Rightarrow> bool" where
  "isDeadAssign env g rnw blockArgs b e =
     (let v = us_variable (bind e) in
      if isAliasForGlobal env g v then False
      else let wasRead = uset_contains (rw_reads rnw ! b) v
                 \<or> uset_contains (blockArgs ! thenb (bexit (blocks g b))) v
                 \<or> uset_contains (blockArgs ! elseb (bexit (blocks g b))) v
           in \<not> wasRead \<and> isPure (bind_value e))"

definition removeDeadAssigns :: "cfg_env \<Rightarrow> reads_and_writes \<Rightarrow> uint_set list \<Rightarrow> cfg \<Rightarrow> cfg" where
  "removeDeadAssigns env rnw blockArgs g =
     (if \<not> lspQueryIsEmpty env then g
      else fold (\<lambda>b g. updBlock b (\<lambda>bb. bb\<lparr>exprs := filter (\<lambda>e. \<not> isDeadAssign env g rnw blockArgs b e) (exprs bb)\<rparr>) g)
             (basicBlocks g) g)"

section \<open>Removing assignments that are not needed\<close>

text \<open>Instructions that may be removed have no effect on the world.\<close>

definition pure_meaning :: "('v, 'w) meaning \<Rightarrow> bool" where
  "pure_meaning sem \<longleftrightarrow> (\<forall>i vs w. isPure i \<longrightarrow> snd (sem i vs w) = w)"

lemma isPure_shape [simp]: "isPure (shape i) = isPure i"
  by (cases i) (simp_all add: isPure_def)

lemma runBinding_pure:
  assumes "pure_meaning sem" "isPure (bind_value e)"
  shows "\<exists>x. runBinding sem e (st, w) = (st(us_variable (bind e) := x), w)"
proof (cases "\<exists>y. bind_value e = Ident y")
  case False
  have "snd (sem (shape (bind_value e)) (map st (readVars (bind_value e))) w) = w"
    using assms by (simp add: pure_meaning_def)
  with False show ?thesis by (auto simp: runBinding_other Let_def split: prod.split)
qed (auto simp: runBinding_def)

lemma runBinding_cong:
  assumes "\<forall>u\<in>set (readVars (bind_value e)). st u = st' u"
  shows "\<exists>x w'. runBinding sem e (st, w) = (st(us_variable (bind e) := x), w') \<and> runBinding sem e (st', w) = (st'(us_variable (bind e) := x), w')"
proof (cases "\<exists>y. bind_value e = Ident y")
  case False
  have eq: "map st' (readVars (bind_value e)) = map st (readVars (bind_value e))" using assms by simp
  obtain x w' where "sem (shape (bind_value e)) (map st (readVars (bind_value e))) w = (x, w')" by fastforce
  with False eq show ?thesis by (auto simp: runBinding_other simp del: map_eq_conv)
qed (use assms in \<open>auto simp: runBinding_def\<close>)

abbreviation bound :: "binding list \<Rightarrow> u32 set" where
  "bound es \<equiv> (\<lambda>e. us_variable (bind e)) ` set es"

abbreviation operands :: "binding list \<Rightarrow> u32 set" where
  "operands es \<equiv> (\<Union>e\<in>set es. set (readVars (bind_value e)))"

text \<open>\<open>v\<close> is assigned in the block before it is read.\<close>

definition written_first :: "binding list \<Rightarrow> u32 \<Rightarrow> bool" where
  "written_first es v \<longleftrightarrow> (\<exists>pre e post. es = pre @ e # post \<and> us_variable (bind e) = v \<and> v \<notin> operands (pre @ [e]))"

lemma written_first_read:
  assumes "written_first (pre @ e # post) v" "v \<in> set (readVars (bind_value e))"
  shows "v \<in> bound pre"
proof -
  obtain pre1 e1 post1 where s: "pre @ e # post = pre1 @ e1 # post1" "us_variable (bind e1) = v" "v \<notin> operands (pre1 @ [e1])"
    using assms(1) unfolding written_first_def by blast
  have "length pre1 < length pre"
  proof (rule ccontr)
    assume "\<not> length pre1 < length pre"
    then have l: "length pre < length (pre1 @ [e1])" by simp
    have "(pre @ e # post) ! length pre = ((pre1 @ [e1]) @ post1) ! length pre" using s(1) by simp
    then have "e = (pre1 @ [e1]) ! length pre" by (subst (asm) (2) nth_append) (use l in simp)
    then have "e \<in> set (pre1 @ [e1])" using l nth_mem by blast
    then show False using s(3) assms(2) by blast
  qed
  moreover have "(pre @ e # post) ! length pre1 = e1" using s(1) by simp
  ultimately have "pre ! length pre1 = e1" by (simp add: nth_append)
  then have "e1 \<in> set pre" using \<open>length pre1 < length pre\<close> nth_mem by blast
  then show ?thesis using s(2) by force
qed

text \<open>What the sets of the analysis guarantee for a block: \<open>Rd\<close> are its reads, \<open>R\<close> the variables dropped on entry, \<open>N\<close>
  the variables that may be needed on entry, \<open>U\<close> those that may have been assigned before, \<open>all\<close> the
  variables that are read anywhere.\<close>

definition needs_ok :: "cfg \<Rightarrow> (binding \<Rightarrow> bool) \<Rightarrow> (nat \<Rightarrow> u32 set) \<Rightarrow> (nat \<Rightarrow> u32 set) \<Rightarrow> u32 set \<Rightarrow> u32 set \<Rightarrow> u32 set \<Rightarrow> nat \<Rightarrow> bool" where
  "needs_ok g del N U Rd R all b \<longleftrightarrow>
     operands (exprs (blocks g b)) \<subseteq> Rd
   \<and> (us_variable (cond (bexit (blocks g b))) \<in> Rd \<or> us_variable (cond (bexit (blocks g b))) = LocalRef_unconditional)
   \<and> (\<forall>v\<in>R. written_first (exprs (blocks g b)) v)
   \<and> Rd - R \<subseteq> N b \<and> N b \<subseteq> all
   \<and> (\<forall>c\<in>successors g b - {deadBlock g}. N c - R \<subseteq> N b \<and> N c \<subseteq> all \<and> U b \<subseteq> U c)
   \<and> (\<forall>e\<in>set (exprs (blocks g b)). del e \<longrightarrow> isPure (bind_value e) \<and> us_variable (bind e) \<notin> Rd
        \<and> (\<forall>c\<in>successors g b - {deadBlock g}. us_variable (bind e) \<notin> N c \<inter> U c
             \<and> (us_variable (bind e) \<in> U c \<or> us_variable (bind e) \<notin> all)))"

lemma run_without:
  fixes sem :: "('v, 'w) meaning"
  assumes ok: "needs_ok g del N U Rd R all b" and pure: "pure_meaning sem" and split: "exprs (blocks g b) = pre @ es"
    and Need: "Need = Rd \<union> (\<Union>c\<in>successors g b - {deadBlock g}. N c \<inter> U c)"
  shows "\<forall>v\<in>Need. v \<in> N b \<union> bound pre \<longrightarrow> st v = st' v \<Longrightarrow>
    \<forall>v. st v = st' v \<or> v \<in> U b \<or> v \<notin> all \<or> v \<in> bound (filter del pre) \<Longrightarrow>
    \<exists>st1 st1' w1. fold (runBinding sem) es (st, w) = (st1, w1) \<and> fold (runBinding sem) (filter (\<lambda>e. \<not> del e) es) (st', w) = (st1', w1)
     \<and> (\<forall>v\<in>Need. v \<in> N b \<union> bound (pre @ es) \<longrightarrow> st1 v = st1' v)
     \<and> (\<forall>v. st1 v = st1' v \<or> v \<in> U b \<or> v \<notin> all \<or> v \<in> bound (filter del (pre @ es)))"
  using split
proof (induction es arbitrary: pre st st' w)
  case (Cons e es)
  let ?v = "us_variable (bind e)"
  have e: "e \<in> set (exprs (blocks g b))" using Cons.prems(3) by simp
  have next_split: "exprs (blocks g b) = (pre @ [e]) @ es" using Cons.prems(3) by simp
  show ?case
  proof (cases "del e")
    case True
    then have "isPure (bind_value e)" "?v \<notin> Need" using ok e by (auto simp: needs_ok_def Need)
    then obtain x where run: "runBinding sem e (st, w) = (st(?v := x), w)" using runBinding_pure [OF pure] by blast
    define st2 where "st2 = st(?v := x)"
    have "\<forall>v\<in>Need. v \<in> N b \<union> bound (pre @ [e]) \<longrightarrow> st2 v = st' v" using Cons.prems(1) \<open>?v \<notin> Need\<close> by (auto simp: st2_def)
    moreover have "\<forall>v. st2 v = st' v \<or> v \<in> U b \<or> v \<notin> all \<or> v \<in> bound (filter del (pre @ [e]))"
      using Cons.prems(2) True by (auto simp: st2_def)
    ultimately show ?thesis using Cons.IH [OF _ _ next_split, of st2 st' w] run True by (simp flip: st2_def)
  next
    case False
    have "st u = st' u" if u: "u \<in> set (readVars (bind_value e))" for u
    proof -
      have "u \<in> Rd" using ok u e by (auto simp: needs_ok_def)
      moreover have "u \<in> N b \<union> bound pre"
      proof (cases "u \<in> R")
        case True
        then have "written_first (pre @ e # es) u" using ok Cons.prems(3) by (auto simp: needs_ok_def)
        then show ?thesis using written_first_read u by blast
      qed (use ok \<open>u \<in> Rd\<close> in \<open>auto simp: needs_ok_def\<close>)
      ultimately show ?thesis using Cons.prems(1) by (auto simp: Need)
    qed
    then obtain x w' where run: "runBinding sem e (st, w) = (st(?v := x), w')" "runBinding sem e (st', w) = (st'(?v := x), w')"
      using runBinding_cong [of e st st' sem w] by blast
    define st2 st2' where "st2 = st(?v := x)" and "st2' = st'(?v := x)"
    have "\<forall>v\<in>Need. v \<in> N b \<union> bound (pre @ [e]) \<longrightarrow> st2 v = st2' v" using Cons.prems(1) by (auto simp: st2_def st2'_def)
    moreover have "\<forall>v. st2 v = st2' v \<or> v \<in> U b \<or> v \<notin> all \<or> v \<in> bound (filter del (pre @ [e]))"
      using Cons.prems(2) by (auto simp: st2_def st2'_def)
    ultimately show ?thesis using Cons.IH [OF _ _ next_split, of st2 st2' w'] run False by (simp flip: st2_def st2'_def)
  qed
qed auto

lemma run_block_without:
  fixes sem :: "('v, 'w) meaning"
  assumes ok: "needs_ok g del N U Rd R all b" and pure: "pure_meaning sem"
    and bb': "exprs bb' = filter (\<lambda>e. \<not> del e) (exprs (blocks g b))"
    and N: "\<forall>v\<in>N b. st v = st' v" and U: "\<forall>v. st v = st' v \<or> v \<in> U b \<or> v \<notin> all"
  shows "\<exists>st1 st1' w1. runBlock sem (blocks g b) (st, w) = (st1, w1) \<and> runBlock sem bb' (st', w) = (st1', w1)
    \<and> (us_variable (cond (bexit (blocks g b))) = LocalRef_unconditional \<or>
         st1 (us_variable (cond (bexit (blocks g b)))) = st1' (us_variable (cond (bexit (blocks g b)))))
    \<and> (\<forall>c\<in>successors g b - {deadBlock g}. (\<forall>v\<in>N c. st1 v = st1' v) \<and> (\<forall>v. st1 v = st1' v \<or> v \<in> U c \<or> v \<notin> all))"
proof -
  let ?es = "exprs (blocks g b)"
  define Need where "Need = Rd \<union> (\<Union>c\<in>successors g b - {deadBlock g}. N c \<inter> U c)"
  have "\<forall>v. st v = st' v \<or> v \<in> U b \<or> v \<notin> all \<or> v \<in> bound (filter del [])" using U by blast
  with run_without [OF ok pure _ Need_def, of "[]" ?es st st' w] N
  obtain st1 st1' w1 where run: "fold (runBinding sem) ?es (st, w) = (st1, w1)" "fold (runBinding sem) (filter (\<lambda>e. \<not> del e) ?es) (st', w) = (st1', w1)"
    and need: "\<forall>v\<in>Need. v \<in> N b \<union> bound ?es \<longrightarrow> st1 v = st1' v"
    and diff: "\<forall>v. st1 v = st1' v \<or> v \<in> U b \<or> v \<notin> all \<or> v \<in> bound (filter del ?es)" by auto
  have wf: "v \<in> bound ?es" if "v \<in> R" for v
    using ok that by (fastforce simp: needs_ok_def written_first_def)
  have agree: "st1 v = st1' v" if "v \<in> Need" "v \<in> N b \<or> v \<in> R" for v using need that wf by blast
  let ?c = "us_variable (cond (bexit (blocks g b)))"
  have "?c = LocalRef_unconditional \<or> st1 ?c = st1' ?c"
    using ok agree [of ?c] by (auto simp: needs_ok_def Need_def)
  moreover have "(\<forall>v\<in>N c. st1 v = st1' v) \<and> (\<forall>v. st1 v = st1' v \<or> v \<in> U c \<or> v \<notin> all)" if c: "c \<in> successors g b - {deadBlock g}" for c
  proof -
    have okc: "N c - R \<subseteq> N b" "N c \<subseteq> all" "U b \<subseteq> U c"
      "\<forall>e\<in>set ?es. del e \<longrightarrow> us_variable (bind e) \<in> U c \<or> us_variable (bind e) \<notin> all"
      using ok c by (auto simp: needs_ok_def)
    have U': "\<forall>v. st1 v = st1' v \<or> v \<in> U c \<or> v \<notin> all" using diff okc(3,4) by fastforce
    moreover have "st1 v = st1' v" if "v \<in> N c" for v
    proof (cases "v \<in> U c")
      case True
      then have "v \<in> Need" using that c by (auto simp: Need_def)
      then show ?thesis using agree that okc(1) by blast
    qed (use U' okc(2) that in blast)
    ultimately show ?thesis by blast
  qed
  ultimately show ?thesis using run by (simp add: runBlock_def bb')
qed

lemma run_path_without:
  fixes sem :: "('v, 'w) meaning"
  assumes ok: "\<forall>b\<in>B. needs_ok g (del b) N U (Rd b) (R b) all b" and pure: "pure_meaning sem"
    and g': "\<forall>b\<in>B. exprs (blocks g' b) = filter (\<lambda>e. \<not> del b e) (exprs (blocks g b))"
  shows "is_path g p \<Longrightarrow> set p \<subseteq> B \<Longrightarrow> \<exists>st1 st1' w1. runPath sem g p (st, w) = (st1, w1) \<and> runPath sem g' p (st, w) = (st1', w1)
    \<and> (us_variable (cond (bexit (blocks g (last p)))) = LocalRef_unconditional \<or>
         st1 (us_variable (cond (bexit (blocks g (last p))))) = st1' (us_variable (cond (bexit (blocks g (last p))))))
    \<and> (\<forall>c\<in>successors g (last p) - {deadBlock g}. (\<forall>v\<in>N c. st1 v = st1' v) \<and> (\<forall>v. st1 v = st1' v \<or> v \<in> U c \<or> v \<notin> all))"
proof (induction p rule: rev_induct)
  case (snoc b p)
  have b: "b \<in> B" "b \<noteq> deadBlock g" using snoc.prems by (auto simp: is_path_def)
  obtain st1 st1' w1 where run: "runPath sem g p (st, w) = (st1, w1)" "runPath sem g' p (st, w) = (st1', w1)"
    and inv: "\<forall>v\<in>N b. st1 v = st1' v" "\<forall>v. st1 v = st1' v \<or> v \<in> U b \<or> v \<notin> all"
  proof (cases "p = []")
    case False
    then have "is_path g p" "b \<in> successors g (last p)" using snoc.prems(1) by (simp_all add: is_path_snoc)
    with snoc.IH snoc.prems(2) b(2) that show ?thesis by fastforce
  qed (simp add: runPath_def)
  from run_block_without [OF ok [rule_format, OF b(1)] pure g' [rule_format, OF b(1)] inv, of w1]
  show ?case by (simp add: runPath_snoc run)
qed (simp add: is_path_def)

end
