(* ===== verification/CfgAnalysis.thy ===== *)
theory CfgAnalysis
  imports CfgLiveness
begin

text \<open>
  What the analyses before \<open>removeDeadAssigns\<close> compute: the reads and writes of every block, the two upper
  bounds of \<open>fillInBlockArguments\<close>, the termination of its loops, and that removing dead assignments does
  not change what a graph computes when the first loop has reached a fixed point.
\<close>

section \<open>Sets of local variables\<close>

definition set_words :: "cfg \<Rightarrow> nat" where
  "set_words g = length (UIntSet (numLocalVariables g))"

lemma empty_uset:
  assumes "wf_blocks g"
  shows "uset_fits (set_words g) (UIntSet (numLocalVariables g))" "uset_abs (UIntSet (numLocalVariables g)) = {}"
    "i < numLocalVariables g \<Longrightarrow> can_hold (set_words g) i" "set_words g \<le> 2 ^ 27"
proof -
  have "numLocalVariables g \<le> 2 ^ 32 - 32"
    using assms by (simp add: wf_blocks_def numLocalVariables_def word_le_nat_alt unat_of_nat take_bit_nat_eq_self)
  note facts = UIntSet_fits [OF this]
  show "uset_abs (UIntSet (numLocalVariables g)) = {}" by (rule facts)
  show "uset_fits (set_words g) (UIntSet (numLocalVariables g))" "set_words g \<le> 2 ^ 27"
    using facts(1) by (simp_all add: set_words_def uset_fits_def)
  show "i < numLocalVariables g \<Longrightarrow> can_hold (set_words g) i"
    using facts(1,3) by (simp add: set_words_def uset_fits_def)
qed

section \<open>Reads and writes of a block\<close>

lemma fold_uset_add:
  assumes "length s = n" "\<forall>v\<in>set vs. can_hold n v"
  shows "length (fold uset_add vs s) = n \<and> uset_abs (fold uset_add vs s) = set vs \<union> uset_abs s"
  using assms by (induction vs arbitrary: s) (auto simp: uset_add_abs)

definition locals :: "cfg \<Rightarrow> u32 set" where
  "locals g = {v. v < numLocalVariables g}"

definition rw_ok :: "cfg \<Rightarrow> binding list \<Rightarrow> uint_set \<times> uint_set \<times> uint_set \<Rightarrow> bool" where
  "rw_ok g es = (\<lambda>(r, w, d). length r = set_words g \<and> length w = set_words g \<and> length d = set_words g
     \<and> uset_abs r \<subseteq> locals g \<and> uset_abs w \<subseteq> locals g \<and> uset_abs d \<subseteq> locals g
     \<and> operands es \<subseteq> uset_abs r \<and> uset_abs w = bound es \<and> (\<forall>v\<in>uset_abs d. written_first es v))"

lemma written_first_append: "written_first es v \<Longrightarrow> written_first (es @ es') v"
  unfolding written_first_def by (metis append.assoc append_Cons)

lemma rwBinding_ok:
  assumes g: "wf_blocks g" and ok: "rw_ok g es s" and e: "us_variable (bind e) \<in> locals g" "set (readVars (bind_value e)) \<subseteq> locals g"
  shows "rw_ok g (es @ [e]) (rwBinding env g e s)"
proof -
  obtain r w d where s: "s = (r, w, d)" by (cases s) auto
  let ?v = "us_variable (bind e)" and ?n = "set_words g"
  have hold: "can_hold ?n ?v" "\<forall>v\<in>set (readVars (bind_value e)). can_hold ?n v"
    using e empty_uset(3) [OF g] by (auto simp: locals_def)
  define r1 where "r1 = (if isAliasForGlobal env g ?v \<and> \<not> isAlias (bind_value e) then uset_add ?v r else r)"
  define r2 where "r2 = fold uset_add (readVars (bind_value e)) r1"
  have r1: "length r1 = ?n" "uset_abs r \<subseteq> uset_abs r1" "uset_abs r1 \<subseteq> locals g"
    using ok hold(1) e(1) by (auto simp: rw_ok_def s r1_def uset_add_abs)
  have r2: "length r2 = ?n" "uset_abs r2 = set (readVars (bind_value e)) \<union> uset_abs r1"
    using fold_uset_add [OF r1(1) hold(2)] by (simp_all add: r2_def)
  have step: "rwBinding env g e (r, w, d) = (r2, uset_add ?v w, if \<not> uset_contains r2 ?v then uset_add ?v d else d)"
    by (simp add: rwBinding_def s Let_def r1_def r2_def)
  have ops: "operands (es @ [e]) \<subseteq> uset_abs r2" using ok r1 r2 by (auto simp: rw_ok_def s)
  have "written_first (es @ [e]) ?v" if "\<not> uset_contains r2 ?v"
  proof -
    have "?v \<notin> operands (es @ [e])" using that ops r2(1) hold(1) by (auto simp: uset_contains_abs)
    then show ?thesis unfolding written_first_def by blast
  qed
  then show ?thesis using ok r1 r2 ops e hold(1) by (auto simp: rw_ok_def s step uset_add_abs written_first_append)
qed

lemma rwBinding_fold_ok:
  assumes "wf_blocks g" "rw_ok g pre s" "\<forall>e\<in>set es. us_variable (bind e) \<in> locals g \<and> set (readVars (bind_value e)) \<subseteq> locals g"
  shows "rw_ok g (pre @ es) (fold (rwBinding env g) es s)"
  using assms
proof (induction es arbitrary: pre s)
  case (Cons e es)
  then have "rw_ok g ((pre @ [e]) @ es) (fold (rwBinding env g) es (rwBinding env g e s))" by (intro Cons.IH rwBinding_ok) auto
  then show ?case by simp
qed simp

definition block_rw_ok :: "cfg \<Rightarrow> basic_block \<Rightarrow> uint_set \<times> uint_set \<times> uint_set \<Rightarrow> bool" where
  "block_rw_ok g bb s \<longleftrightarrow> rw_ok g (exprs bb) s
     \<and> (us_variable (cond (bexit bb)) = LocalRef_unconditional \<or> us_variable (cond (bexit bb)) \<in> uset_abs (fst s))"

lemma rwBlock_ok:
  assumes g: "wf_blocks g" and b: "b \<in> set (basicBlocks g)"
  defines "z \<equiv> UIntSet (numLocalVariables g)"
  shows "block_rw_ok g (blocks g b) (rwBlock env g (blocks g b) (z, z, z))"
proof -
  let ?bb = "blocks g b"
  have "rw_ok g [] (z, z, z)" using empty_uset(2) [OF g] by (simp add: rw_ok_def z_def set_words_def)
  then have "rw_ok g ([] @ exprs ?bb) (fold (rwBinding env g) (exprs ?bb) (z, z, z))"
    by (rule rwBinding_fold_ok [OF g]) (use g b in \<open>auto simp: wf_blocks_def locals_def\<close>)
  moreover have c: "us_variable (cond (bexit ?bb)) \<in> locals g" using g b by (auto simp: wf_blocks_def locals_def)
  moreover have "can_hold (set_words g) (us_variable (cond (bexit ?bb)))" using c empty_uset(3) [OF g] by (simp add: locals_def)
  ultimately show ?thesis
    by (auto simp: block_rw_ok_def rwBlock_def rw_ok_def Let_def uset_add_abs split: prod.splits)
qed

section \<open>The vectors of reads and writes\<close>

definition rw_nth :: "reads_and_writes \<Rightarrow> nat \<Rightarrow> uint_set \<times> uint_set \<times> uint_set" where
  "rw_nth t b = (rw_reads t ! b, rw_writes t ! b, rw_dead t ! b)"

definition rw_len :: "nat \<Rightarrow> reads_and_writes \<Rightarrow> bool" where
  "rw_len m t \<longleftrightarrow> length (rw_reads t) = m \<and> length (rw_writes t) = m \<and> length (rw_dead t) = m"

lemma rwStep_nth:
  assumes "rw_len m t" "b < m"
  shows "rw_len m (rwStep env g b t)"
    "rw_nth (rwStep env g b t) i = (if i = b then rwBlock env g (blocks g b) (rw_nth t b) else rw_nth t i)"
  using assms by (auto simp: rwStep_def rw_len_def rw_nth_def split: prod.split)

lemma rwStep_fold:
  assumes "rw_len m t" "\<forall>b\<in>set bs. b < m" "distinct bs"
  shows "rw_len m (fold (rwStep env g) bs t) \<and>
    rw_nth (fold (rwStep env g) bs t) i = (if i \<in> set bs then rwBlock env g (blocks g i) (rw_nth t i) else rw_nth t i)"
  using assms
proof (induction bs arbitrary: t)
  case (Cons b bs)
  then show ?case using Cons.IH [of "rwStep env g b t"] by (auto simp: rwStep_nth)
qed simp

lemma noReadsAndWrites_nth:
  "rw_len (maxBasicBlockId g) (noReadsAndWrites g)"
  "i < maxBasicBlockId g \<Longrightarrow> rw_nth (noReadsAndWrites g) i = (UIntSet (numLocalVariables g), UIntSet (numLocalVariables g), UIntSet (numLocalVariables g))"
  by (simp_all add: rw_len_def noReadsAndWrites_def Let_def rw_nth_def)

definition rw_fits :: "nat \<Rightarrow> nat \<Rightarrow> reads_and_writes \<Rightarrow> bool" where
  "rw_fits n m t \<longleftrightarrow> rw_len m t \<and> (\<forall>i<m. uset_fits n (rw_reads t ! i) \<and> uset_fits n (rw_writes t ! i) \<and> uset_fits n (rw_dead t ! i))"

lemma all_reads_and_writes:
  fixes env :: cfg_env
  assumes g: "wf_blocks g"
  defines "t \<equiv> fold (rwStep env g) (basicBlocks g) (noReadsAndWrites g)"
  shows "rw_fits (set_words g) (maxBasicBlockId g) t"
    "b \<in> set (basicBlocks g) \<Longrightarrow> block_rw_ok g (blocks g b) (rw_nth t b)"
    "b < maxBasicBlockId g \<Longrightarrow> uset_abs (rw_reads t ! b) \<subseteq> locals g \<and> uset_abs (rw_writes t ! b) \<subseteq> locals g"
proof -
  let ?z = "UIntSet (numLocalVariables g)"
  have ids: "\<forall>b\<in>set (basicBlocks g). b < maxBasicBlockId g" and "distinct (basicBlocks g)" using g by (auto simp: wf_blocks_def)
  note fold = rwStep_fold [OF noReadsAndWrites_nth(1) this, of env g, folded t_def]
  show ok: "block_rw_ok g (blocks g b) (rw_nth t b)" if "b \<in> set (basicBlocks g)" for b
    using rwBlock_ok [OF g that, of env] that ids fold [of b] by (simp add: noReadsAndWrites_nth)
  have other: "rw_nth t i = (?z, ?z, ?z)" if "i < maxBasicBlockId g" "i \<notin> set (basicBlocks g)" for i
    using fold [of i] that by (simp add: noReadsAndWrites_nth)
  have "uset_fits (set_words g) (rw_reads t ! i) \<and> uset_fits (set_words g) (rw_writes t ! i) \<and> uset_fits (set_words g) (rw_dead t ! i)"
    if "i < maxBasicBlockId g" for i
    using ok [of i] other [OF that] empty_uset(1,4) [OF g]
    by (cases "i \<in> set (basicBlocks g)") (auto simp: block_rw_ok_def rw_ok_def rw_nth_def uset_fits_def)
  then show "rw_fits (set_words g) (maxBasicBlockId g) t" using fold by (simp add: rw_fits_def)
  show "uset_abs (rw_reads t ! b) \<subseteq> locals g \<and> uset_abs (rw_writes t ! b) \<subseteq> locals g" if "b < maxBasicBlockId g"
    using ok [of b] other [OF that] empty_uset(2) [OF g]
    by (cases "b \<in> set (basicBlocks g)") (auto simp: block_rw_ok_def rw_ok_def rw_nth_def)
qed

section \<open>Variables that one block uses\<close>

lemma countUsage_nth:
  assumes "unat local < length counts"
  shows "length (countUsage b local counts) = length counts"
    "fst (countUsage b local counts ! j) = fst (counts ! j) + (if j = unat local then 1 else 0)"
  using assms by (auto simp: countUsage_def nth_list_update split: prod.split)

lemma countUsage_fold:
  assumes "distinct vs" "\<forall>v\<in>set vs. unat v < length counts"
  shows "length (fold (countUsage b) vs counts) = length counts \<and>
    fst (fold (countUsage b) vs counts ! unat v) = fst (counts ! unat v) + (if v \<in> set vs then 1 else 0)"
  using assms by (induction vs arbitrary: counts) (auto simp: countUsage_nth dest: unsigned_word_eqI)

lemma countUsage_blocks:
  assumes "\<forall>b\<in>set bs. distinct (items b) \<and> (\<forall>v\<in>set (items b). unat v < length counts)"
  shows "length (fold (\<lambda>b. fold (countUsage b) (items b)) bs counts) = length counts \<and>
    fst (fold (\<lambda>b. fold (countUsage b) (items b)) bs counts ! unat v) = fst (counts ! unat v) + length (filter (\<lambda>b. v \<in> set (items b)) bs)"
  using assms
proof (induction bs arbitrary: counts)
  case (Cons b bs)
  then show ?case
    using Cons.IH [of "fold (countUsage b) (items b) counts"] countUsage_fold [of "items b" counts b v] by simp
qed simp

definition users :: "cfg \<Rightarrow> reads_and_writes \<Rightarrow> u32 \<Rightarrow> nat set" where
  "users g t v = {b. b < maxBasicBlockId g \<and> v \<in> uset_abs (rw_reads t ! b) \<union> uset_abs (rw_writes t ! b)}"

lemma locals_nat: "length (localVariables g) \<le> 2 ^ 32 - 32 \<Longrightarrow> v \<in> locals g \<longleftrightarrow> unat v < length (localVariables g)"
  by (simp add: locals_def numLocalVariables_def word_less_nat_alt unat_of_nat take_bit_nat_eq_self)

lemma usageCounts_users:
  assumes g: "wf_blocks g" and t: "rw_fits (set_words g) (maxBasicBlockId g) t"
    and sub: "\<And>b. b < maxBasicBlockId g \<Longrightarrow> uset_abs (rw_reads t ! b) \<subseteq> locals g \<and> uset_abs (rw_writes t ! b) \<subseteq> locals g"
  shows "length (usageCounts g t) = length (localVariables g)" "v \<in> locals g \<Longrightarrow> fst (usageCounts g t ! unat v) = card (users g t v)"
proof -
  define u where "u b = uset_overwriteWithUnion (UIntSet (numLocalVariables g)) (rw_reads t ! b) (rw_writes t ! b)" for b
  let ?N = "length (localVariables g)" and ?M = "maxBasicBlockId g"
  have N: "x \<in> locals g \<longleftrightarrow> unat x < ?N" for x by (rule locals_nat) (use g in \<open>simp add: wf_blocks_def\<close>)
  have items: "set (uset_items (u b)) = uset_abs (rw_reads t ! b) \<union> uset_abs (rw_writes t ! b)" "distinct (uset_items (u b))" if "b < ?M" for b
  proof -
    have f: "uset_fits (set_words g) (rw_reads t ! b)" "uset_fits (set_words g) (rw_writes t ! b)" using t that by (auto simp: rw_fits_def)
    then have "uset_fits (set_words g) (u b)" by (simp add: u_def uset_fits_def)
    from uset_items_sorted [OF this] f
    show "set (uset_items (u b)) = uset_abs (rw_reads t ! b) \<union> uset_abs (rw_writes t ! b)" "distinct (uset_items (u b))"
      by (simp_all add: u_def uset_overwriteWithUnion_abs uset_fits_def)
  qed
  let ?C = "replicate ?N (0 :: nat, 0 :: nat)"
  have "\<forall>b\<in>set [0..<?M]. distinct (uset_items (u b)) \<and> (\<forall>v\<in>set (uset_items (u b)). unat v < length ?C)"
  proof
    fix b assume "b \<in> set [0..<?M]"
    then have b: "b < ?M" by simp
    have "\<forall>v\<in>set (uset_items (u b)). unat v < ?N" unfolding items(1) [OF b] using sub [OF b] N by blast
    then show "distinct (uset_items (u b)) \<and> (\<forall>v\<in>set (uset_items (u b)). unat v < length ?C)" using items(2) [OF b] by simp
  qed
  from countUsage_blocks [OF this, of v]
  have "length (usageCounts g t) = ?N \<and> fst (usageCounts g t ! unat v) = fst (?C ! unat v) + length (filter (\<lambda>b. v \<in> set (uset_items (u b))) [0..<?M])"
    by (simp add: usageCounts_def u_def)
  moreover have "length (filter (\<lambda>b. v \<in> set (uset_items (u b))) [0..<?M]) = card (users g t v)"
    unfolding length_filter_upt users_def by (rule arg_cong [of _ _ card]) (use items(1) in auto)
  ultimately show "length (usageCounts g t) = ?N" "v \<in> locals g \<Longrightarrow> fst (usageCounts g t ! unat v) = card (users g t v)"
    using N by simp_all
qed

lemma nth_list_update_within: "j < length xs \<Longrightarrow> xs[i := x] ! j = (if i = j then x else xs ! j)"
  by (auto simp: nth_list_update)

lemma removePrivates_step:
  assumes "length ws = m" "\<forall>i<m. length (ws ! i) = n" "\<forall>(local, c, b)\<in>set xs. can_hold n (of_nat local)" "i < m"
  defines "ws' \<equiv> fold (\<lambda>(local, c, b) ws. if c = 1 then ws[b := uset_remove (of_nat local) (ws ! b)] else ws) xs ws"
  shows "length ws' = m \<and> length (ws' ! i) = n \<and> uset_abs (ws' ! i) \<subseteq> uset_abs (ws ! i)
    \<and> (v \<in> uset_abs (ws ! i) \<and> (\<forall>(local, c, b)\<in>set xs. c = 1 \<longrightarrow> of_nat local \<noteq> v) \<longrightarrow> v \<in> uset_abs (ws' ! i))"
  unfolding ws'_def using assms(1-4)
proof (induction xs arbitrary: ws)
  case (Cons x xs)
  obtain local c b where x: "x = (local, c, b)" by (cases x) auto
  let ?w = "if c = 1 then ws[b := uset_remove (of_nat local) (ws ! b)] else ws"
  have w: "length ?w = m" "\<forall>i<m. length (?w ! i) = n" using Cons.prems by (auto simp: nth_list_update_within)
  have "uset_abs (?w ! i) \<subseteq> uset_abs (ws ! i)" "v \<in> uset_abs (ws ! i) \<Longrightarrow> c = 1 \<longrightarrow> of_nat local \<noteq> v \<Longrightarrow> v \<in> uset_abs (?w ! i)"
    using Cons.prems by (auto simp: nth_list_update_within x uset_remove_abs)
  moreover have "\<forall>(local, c, b)\<in>set xs. can_hold n (of_nat local)" using Cons.prems(3) by (auto simp only: set_simps insert_iff)
  note Cons.IH [OF w this Cons.prems(4)]
  ultimately show ?case by (auto simp: x)
qed simp

lemma removePrivates_shared:
  assumes g: "wf_blocks g" and t: "rw_fits (set_words g) (maxBasicBlockId g) t"
    and sub: "\<And>b. b < maxBasicBlockId g \<Longrightarrow> uset_abs (rw_reads t ! b) \<subseteq> locals g \<and> uset_abs (rw_writes t ! b) \<subseteq> locals g"
    and i: "i < maxBasicBlockId g"
  defines "ws \<equiv> removePrivates (usageCounts g t) (rw_writes t)"
  shows "length ws = maxBasicBlockId g \<and> length (ws ! i) = set_words g \<and> uset_abs (ws ! i) \<subseteq> uset_abs (rw_writes t ! i)
    \<and> (v \<in> uset_abs (rw_writes t ! i) \<and> card (users g t v) \<noteq> 1 \<longrightarrow> v \<in> uset_abs (ws ! i))"
proof -
  let ?N = "length (localVariables g)" and ?c = "usageCounts g t"
  note counts = usageCounts_users [OF g t sub]
  have small: "?N \<le> 2 ^ 32 - 32" using g by (simp add: wf_blocks_def)
  have loc: "of_nat j \<in> locals g \<and> unat (of_nat j :: u32) = j" if "j < ?N" for j
    using that small by (simp add: locals_nat [OF small] unat_of_nat take_bit_nat_eq_self)
  have zip: "j < ?N \<and> c = fst (?c ! j)" if "(j, c, b) \<in> set (zip [0..<length ?c] ?c)" for j c b
    using that counts(1) by (auto simp: in_set_zip)
  have "\<forall>(local, c, b)\<in>set (zip [0..<length ?c] ?c). can_hold (set_words g) (of_nat local)"
    by (intro ballI, clarsimp simp only: split_paired_all split) (drule zip, drule conjunct1, drule loc, simp add: locals_def empty_uset(3) [OF g])
  moreover have "length (rw_writes t) = maxBasicBlockId g" "\<forall>i<maxBasicBlockId g. length (rw_writes t ! i) = set_words g"
    using t by (auto simp: rw_fits_def rw_len_def uset_fits_def)
  moreover have "\<forall>(local, c, b)\<in>set (zip [0..<length ?c] ?c). c = 1 \<longrightarrow> of_nat local \<noteq> v" if "card (users g t v) \<noteq> 1"
    by (intro ballI, clarsimp simp only: split_paired_all split) (use zip loc counts(2) that in metis)
  ultimately show ?thesis
    using removePrivates_step [of "rw_writes t" "maxBasicBlockId g" "set_words g" "zip [0..<length ?c] ?c" i v] i
    unfolding ws_def removePrivates_def by blast
qed

lemma rw_fits_findAll:
  assumes "wf_blocks g"
  shows "rw_fits (set_words g) (maxBasicBlockId g) (findAllReadsAndWrites env g)"
proof -
  let ?t = "fold (rwStep env g) (basicBlocks g) (noReadsAndWrites g)"
  note t = all_reads_and_writes [OF assms, where env = env]
  have "length ws = maxBasicBlockId g \<and> length (ws ! i) = set_words g"
    if "i < maxBasicBlockId g" "ws = removePrivates (usageCounts g ?t) (rw_writes ?t)" for i ws
    using removePrivates_shared [OF assms t(1,3) that(1)] that(2) by blast
  moreover have "length (removePrivates (usageCounts g ?t) (rw_writes ?t)) = length (rw_writes ?t)"
  proof -
    have "length (fold (\<lambda>(local, c, b) ws. if c = 1 then ws[b := uset_remove (of_nat local) (ws ! b)] else ws) xs ws) = length ws"
      for xs :: "(nat \<times> nat \<times> nat) list" and ws by (induction xs arbitrary: ws) auto
    then show ?thesis by (simp add: removePrivates_def)
  qed
  ultimately show ?thesis
    using t(1) empty_uset(4) [OF assms] by (auto simp: findAllReadsAndWrites_def Let_def rw_fits_def rw_len_def uset_fits_def)
qed

text \<open>The writes that the result leaves out are those of variables that no other block uses.\<close>

lemma findAll_facts:
  fixes env :: cfg_env
  assumes g: "wf_blocks g" and b: "b \<in> set (basicBlocks g)"
  defines "rnw \<equiv> findAllReadsAndWrites env g"
  shows "operands (exprs (blocks g b)) \<subseteq> uset_abs (rw_reads rnw ! b)"
    "us_variable (cond (bexit (blocks g b))) \<in> uset_abs (rw_reads rnw ! b) \<or> us_variable (cond (bexit (blocks g b))) = LocalRef_unconditional"
    "\<forall>v\<in>uset_abs (rw_dead rnw ! b). written_first (exprs (blocks g b)) v"
    "v \<in> bound (exprs (blocks g b)) \<Longrightarrow> v \<notin> uset_abs (rw_reads rnw ! b) \<Longrightarrow> b' < maxBasicBlockId g
       \<Longrightarrow> v \<in> uset_abs (rw_reads rnw ! b') \<Longrightarrow> v \<in> uset_abs (rw_writes rnw ! b)"
proof -
  let ?t = "fold (rwStep env g) (basicBlocks g) (noReadsAndWrites g)"
  note t = all_reads_and_writes [OF g, where env = env]
  have eq: "rw_reads rnw = rw_reads ?t" "rw_dead rnw = rw_dead ?t" "rw_writes rnw = removePrivates (usageCounts g ?t) (rw_writes ?t)"
    by (simp_all add: rnw_def findAllReadsAndWrites_def Let_def)
  have ok: "block_rw_ok g (blocks g b) (rw_nth ?t b)" by (rule t(2) [OF b])
  then show "operands (exprs (blocks g b)) \<subseteq> uset_abs (rw_reads rnw ! b)"
    "us_variable (cond (bexit (blocks g b))) \<in> uset_abs (rw_reads rnw ! b) \<or> us_variable (cond (bexit (blocks g b))) = LocalRef_unconditional"
    "\<forall>v\<in>uset_abs (rw_dead rnw ! b). written_first (exprs (blocks g b)) v"
    by (auto simp: eq block_rw_ok_def rw_ok_def rw_nth_def)
  have w: "uset_abs (rw_writes ?t ! b) = bound (exprs (blocks g b))" using ok by (auto simp: block_rw_ok_def rw_ok_def rw_nth_def)
  have bm: "b < maxBasicBlockId g" using g b by (simp add: wf_blocks_def)
  show "v \<in> uset_abs (rw_writes rnw ! b)"
    if v: "v \<in> bound (exprs (blocks g b))" "v \<notin> uset_abs (rw_reads rnw ! b)" "b' < maxBasicBlockId g" "v \<in> uset_abs (rw_reads rnw ! b')"
  proof -
    have "b \<in> users g ?t v" "b' \<in> users g ?t v" using v w bm by (auto simp: users_def eq)
    moreover have "b \<noteq> b'" using v by blast
    ultimately have "card (users g ?t v) \<noteq> 1" by (auto simp: card_1_singleton_iff)
    then show ?thesis using removePrivates_shared [OF g t(1,3) bm, of v] v(1) w by (simp add: eq)
  qed
qed

section \<open>Sweeps\<close>

text \<open>Both loops of \<open>fillInBlockArguments\<close> update the sets of the blocks one after the other and run until
  no size has changed.  When no update makes a set smaller, they end in a fixed point.\<close>

definition sweepStep :: "(uint_set list \<Rightarrow> nat \<Rightarrow> uint_set) \<Rightarrow> nat \<Rightarrow> uint_set list \<times> bool \<Rightarrow> uint_set list \<times> bool" where
  "sweepStep f b = (\<lambda>(ub, changed). (ub[b := f ub b], changed \<or> uset_size (f ub b) \<noteq> uset_size (ub ! b)))"

definition sweeps :: "(uint_set list \<Rightarrow> nat \<Rightarrow> uint_set) \<Rightarrow> nat list \<Rightarrow> uint_set list \<times> bool \<Rightarrow> (uint_set list \<times> bool) option" where
  "sweeps f bs = while_option snd (\<lambda>(ub, changed). fold (sweepStep f) bs (ub, False))"

definition total_size :: "uint_set list \<Rightarrow> nat" where
  "total_size ub = sum_list (map uset_size ub)"

lemma uset_abs_inj:
  assumes "uset_fits n s" "uset_fits n t" "uset_abs s = uset_abs t"
  shows "s = t"
proof (rule nth_equalityI)
  show "length s = length t" using assms by (simp add: uset_fits_def)
  show "s ! i = t ! i" if i: "i < length s" for i
  proof (rule bit_word_eqI)
    fix k assume "k < LENGTH(32)"
    then have k: "k < 32" by simp
    let ?j = "of_nat (32 * i + k) :: u32"
    have "32 * i + k < 2 ^ 32" using i k assms(1) by (simp add: uset_fits_def)
    then have j: "unat ?j = 32 * i + k" by (simp only: unat_of_nat) (simp add: take_bit_nat_eq_self)
    have "?j \<in> uset_abs s \<longleftrightarrow> bit (s ! i) k" "?j \<in> uset_abs t \<longleftrightarrow> bit (t ! i) k"
      unfolding uset_abs_def mem_Collect_eq j using i k assms(1,2) by (simp_all add: uset_fits_def)
    then show "bit (s ! i) k \<longleftrightarrow> bit (t ! i) k" using assms(3) by simp
  qed
qed

lemma uset_size_le: "uset_size s \<le> 32 * length s"
proof -
  have "popcount w \<le> 32" for w unfolding popcount_def by (rule order.trans [OF length_filter_le]) simp
  then have "sum_list (map popcount s) \<le> sum_list (map (\<lambda>_. 32) s)" by (intro sum_list_mono)
  then show ?thesis by (simp add: uset_size_def sum_list_triv mult.commute)
qed

lemma total_size_update: "b < length ub \<Longrightarrow> total_size (ub[b := s]) + uset_size (ub ! b) = total_size ub + uset_size s"
  by (induction ub arbitrary: b) (auto simp: total_size_def nth_Cons split: nat.split)

locale set_sweep =
  fixes f :: "uint_set list \<Rightarrow> nat \<Rightarrow> uint_set" and bs :: "nat list" and inv :: "uint_set list \<Rightarrow> bool" and n m :: nat
  assumes inv_fits: "inv ub \<Longrightarrow> length ub = m \<and> (\<forall>i<m. uset_fits n (ub ! i))"
    and inv_ids: "inv ub \<Longrightarrow> b \<in> set bs \<Longrightarrow> b < m"
    and inv_step: "inv ub \<Longrightarrow> b \<in> set bs \<Longrightarrow> inv (ub[b := f ub b])"
    and grows: "inv ub \<Longrightarrow> b \<in> set bs \<Longrightarrow> uset_abs (ub ! b) \<subseteq> uset_abs (f ub b)"
begin

lemma fits_step: "inv ub \<Longrightarrow> b \<in> set bs \<Longrightarrow> uset_fits n (ub ! b) \<and> uset_fits n (f ub b)"
  using inv_fits [of ub] inv_ids [of ub b] inv_fits [OF inv_step, of ub b] by (metis nth_list_update_eq)

lemma step_size:
  assumes "inv ub" "b \<in> set bs"
  shows "uset_size (ub ! b) \<le> uset_size (f ub b)" "uset_size (f ub b) = uset_size (ub ! b) \<Longrightarrow> f ub b = ub ! b"
    "total_size (ub[b := f ub b]) + uset_size (ub ! b) = total_size ub + uset_size (f ub b)"
proof -
  note fits = fits_step [OF assms]
  show "uset_size (ub ! b) \<le> uset_size (f ub b)" using uset.size_mono grows [OF assms] fits by blast
  show "f ub b = ub ! b" if "uset_size (f ub b) = uset_size (ub ! b)"
    using uset.same_size [of n "ub ! b" "f ub b"] fits grows [OF assms] that uset_abs_inj by metis
  show "total_size (ub[b := f ub b]) + uset_size (ub ! b) = total_size ub + uset_size (f ub b)"
    using inv_fits [OF assms(1)] inv_ids [OF assms] by (simp add: total_size_update)
qed

lemma pass:
  assumes "inv ub" "set xs \<subseteq> set bs" "fold (sweepStep f) xs (ub, ch) = (ub', ch')"
  shows "inv ub' \<and> total_size ub \<le> total_size ub' \<and> (ch' \<longleftrightarrow> ch \<or> total_size ub < total_size ub')
    \<and> (total_size ub' = total_size ub \<longrightarrow> ub' = ub \<and> (\<forall>b\<in>set xs. f ub b = ub ! b))"
  using assms
proof (induction xs arbitrary: ub ch)
  case (Cons b xs)
  have b: "b \<in> set bs" using Cons.prems by simp
  define ub1 ch1 where "ub1 = ub[b := f ub b]" and "ch1 = (ch \<or> uset_size (f ub b) \<noteq> uset_size (ub ! b))"
  have "inv ub1" using inv_step Cons.prems(1) b by (simp add: ub1_def)
  moreover have "fold (sweepStep f) xs (ub1, ch1) = (ub', ch')"
    using Cons.prems(3) by (simp add: sweepStep_def [of f b] ub1_def ch1_def)
  ultimately have IH: "inv ub' \<and> total_size ub1 \<le> total_size ub' \<and> (ch' \<longleftrightarrow> ch1 \<or> total_size ub1 < total_size ub')
    \<and> (total_size ub' = total_size ub1 \<longrightarrow> ub' = ub1 \<and> (\<forall>b\<in>set xs. f ub1 b = ub1 ! b))"
    using Cons.IH Cons.prems(2) by simp
  note size = step_size [OF Cons.prems(1) b]
  have t1: "total_size ub1 + uset_size (ub ! b) = total_size ub + uset_size (f ub b)" using size(3) by (simp add: ub1_def)
  show ?case
  proof (cases "uset_size (f ub b) = uset_size (ub ! b)")
    case True
    then have "ub1 = ub" using size(2) by (simp add: ub1_def)
    then show ?thesis using IH True size(2) by (auto simp: ch1_def)
  next
    case False
    then show ?thesis using IH t1 size(1) by (auto simp: ch1_def)
  qed
qed simp

lemma total_bound: "inv ub \<Longrightarrow> total_size ub \<le> m * (32 * n)"
proof -
  assume "inv ub"
  then have "\<forall>s\<in>set ub. uset_size s \<le> 32 * n" "length ub = m"
    using inv_fits [of ub] uset_size_le by (auto simp: in_set_conv_nth uset_fits_def) metis
  then have "sum_list (map uset_size ub) \<le> sum_list (map (\<lambda>_. 32 * n) ub)" by (intro sum_list_mono) simp
  then show ?thesis using \<open>length ub = m\<close> by (simp add: total_size_def sum_list_triv)
qed

theorem sweeps_end:
  assumes "inv ub"
  shows "\<exists>ub'. sweeps f bs (ub, True) = Some (ub', False) \<and> inv ub' \<and> (\<forall>b\<in>set bs. f ub' b = ub' ! b)"
proof -
  let ?P = "\<lambda>(ub, ch). inv ub \<and> (\<not> ch \<longrightarrow> (\<forall>b\<in>set bs. f ub b = ub ! b))"
  let ?\<mu> = "\<lambda>(ub, ch). m * (32 * n) - total_size ub + (if ch then 1 else 0)"
  let ?c = "\<lambda>(ub, changed). fold (sweepStep f) bs (ub, False)"
  have step: "?P (?c s) \<and> ?\<mu> (?c s) < ?\<mu> s" if P: "?P s" "snd s" for s
  proof -
    obtain u u' ch' where s: "s = (u, True)" "fold (sweepStep f) bs (u, False) = (u', ch')"
      using P(2) by (metis prod.collapse surj_pair)
    have "inv u" using P(1) s(1) by simp
    from pass [OF this order.refl s(2)] total_bound [of u'] s \<open>inv u\<close> show ?thesis by auto
  qed
  have "?P (ub, True)" using assms by simp
  then obtain t where t: "sweeps f bs (ub, True) = Some t"
    using measure_while_option_Some [of ?P snd ?c ?\<mu>, OF step] unfolding sweeps_def by blast
  have "?P t" by (rule while_option_rule [where P = ?P, OF _ t [unfolded sweeps_def]]) (use step assms in auto)
  moreover have "\<not> snd t" using while_option_stop [OF t [unfolded sweeps_def]] .
  ultimately show ?thesis using t by (cases t) auto
qed

end

end
