(* ===== verification/CfgDeadAssigns.thy ===== *)
theory CfgDeadAssigns
  imports CfgAnalysis CfgTopo
begin

text \<open>
  The two upper bounds of \<open>fillInBlockArguments\<close>, and what \<open>removeDeadAssigns\<close> may remove.  Both loops end.
  The second always ends in a fixed point.  The first compares sizes although its first pass may
  remove variables, so it can stop before it has reached a fixed point (\<open>upperBounds1_stops_early\<close>).
\<close>

text \<open>The four passes as \<open>CFGBuilder::buildFor\<close> runs them.\<close>

definition buildFor_deadAssigns :: "cfg_env \<Rightarrow> cfg \<Rightarrow> cfg option" where
  "buildFor_deadAssigns env g =
     (let rnw = findAllReadsAndWrites env g; g = computeMinMaxLoops rnw g
      in case fillInBlockArguments g rnw of None \<Rightarrow> None
         | Some (blockArgs, g) \<Rightarrow> Some (removeDeadAssigns env rnw blockArgs g))"

section \<open>The first bound\<close>

definition graph_ok :: "cfg \<Rightarrow> reads_and_writes \<Rightarrow> bool" where
  "graph_ok g rnw \<longleftrightarrow> wf_blocks g \<and> set (forwardsTopoSort g) \<subseteq> set (basicBlocks g)
     \<and> rw_fits (set_words g) (maxBasicBlockId g) rnw"

definition vec_ok :: "cfg \<Rightarrow> uint_set list \<Rightarrow> bool" where
  "vec_ok g ub \<longleftrightarrow> length ub = maxBasicBlockId g \<and> (\<forall>i<maxBasicBlockId g. uset_fits (set_words g) (ub ! i))"

lemma topo_ids:
  assumes "graph_ok g rnw" "b \<in> set (forwardsTopoSort g)"
  shows "b < maxBasicBlockId g" "thenb (bexit (blocks g b)) < maxBasicBlockId g" "elseb (bexit (blocks g b)) < maxBasicBlockId g"
    "edge \<in> set (backEdges (blocks g b)) \<Longrightarrow> edge < maxBasicBlockId g"
  using assms unfolding graph_ok_def wf_blocks_def successors_def by blast+

text \<open>The variables dropped on entry to a block.\<close>

definition removed :: "cfg \<Rightarrow> reads_and_writes \<Rightarrow> nat \<Rightarrow> u32 set" where
  "removed g rnw b = {v \<in> uset_abs (rw_dead rnw ! b). outerLoops (blocks g b) \<le> minLoops g ! unat v}"

lemma fold_uset_add_if:
  assumes "length s = n" "\<forall>v\<in>set vs. can_hold n v"
  shows "length (fold (\<lambda>v s. if P v then uset_add v s else s) vs s) = n
    \<and> uset_abs (fold (\<lambda>v s. if P v then uset_add v s else s) vs s) = {v\<in>set vs. P v} \<union> uset_abs s"
  using assms by (induction vs arbitrary: s) (auto simp: uset_add_abs)

lemma toRemove_abs:
  assumes "wf_blocks g" "uset_fits (set_words g) d"
  shows "uset_fits (set_words g) (toRemove g b d)" "uset_abs (toRemove g b d) = {v \<in> uset_abs d. outerLoops (blocks g b) \<le> minLoops g ! unat v}"
proof -
  have "length (uset_clear (UIntSet (numLocalVariables g))) = set_words g" by (simp add: set_words_def)
  moreover have "\<forall>v\<in>set (uset_items d). can_hold (set_words g) v"
    using uset_items_sorted(1) [OF assms(2)] assms(2) by (auto simp: uset_abs_def can_hold_def uset_fits_def)
  ultimately have "length (toRemove g b d) = set_words g \<and>
      uset_abs (toRemove g b d) = {v\<in>set (uset_items d). outerLoops (blocks g b) \<le> minLoops g ! unat v} \<union> {}"
    unfolding toRemove_def by (subst uset_clear_abs [symmetric]) (rule fold_uset_add_if)
  then show "uset_fits (set_words g) (toRemove g b d)" "uset_abs (toRemove g b d) = {v \<in> uset_abs d. outerLoops (blocks g b) \<le> minLoops g ! unat v}"
    using uset_items_sorted(1) [OF assms(2)] assms(2) by (simp_all add: uset_fits_def)
qed

definition live_out :: "cfg \<Rightarrow> uint_set list \<Rightarrow> nat \<Rightarrow> u32 set" where
  "live_out g ub b = (\<Union>c\<in>successors g b - {deadBlock g}. uset_abs (ub ! c))"

lemma upperBound1_abs:
  assumes "graph_ok g rnw" "vec_ok g ub" "b \<in> set (forwardsTopoSort g)"
  shows "uset_fits (set_words g) (upperBound1 g rnw ub b)"
    "uset_abs (upperBound1 g rnw ub b) = (uset_abs (ub ! b) \<union> live_out g ub b) - removed g rnw b"
proof -
  let ?n = "set_words g" and ?t = "thenb (bexit (blocks g b))" and ?e = "elseb (bexit (blocks g b))"
  note ids = topo_ids(1-3) [OF assms(1,3)]
  have wf: "wf_blocks g" and d: "uset_fits ?n (rw_dead rnw ! b)" using assms(1) ids by (auto simp: graph_ok_def rw_fits_def)
  have fits: "uset_fits ?n (ub ! b)" "uset_fits ?n (ub ! ?t)" "uset_fits ?n (ub ! ?e)" using assms(2) ids by (auto simp: vec_ok_def)
  define u1 where "u1 = (if ?t \<noteq> deadBlock g then uset_addAll (ub ! b) (ub ! ?t) else ub ! b)"
  define u2 where "u2 = (if ?e \<noteq> deadBlock g then uset_addAll u1 (if ?e = b then u1 else ub ! ?e) else u1)"
  have u1: "uset_fits ?n u1" using fits by (simp add: u1_def uset.fits_ops)
  then have u2: "uset_fits ?n u2" using fits by (simp add: u2_def uset.fits_ops)
  have abs1: "uset_abs u1 = uset_abs (ub ! b) \<union> (if ?t \<noteq> deadBlock g then uset_abs (ub ! ?t) else {})"
    using fits by (simp add: u1_def uset.abs_addAll)
  have abs2: "uset_abs u2 = uset_abs (ub ! b) \<union> live_out g ub b"
    using fits u1 by (auto simp: u2_def uset.abs_addAll abs1 live_out_def successors_def split: if_splits)
  have result: "upperBound1 g rnw ub b = (if \<not> uset_empty (rw_dead rnw ! b) then uset_removeAll u2 (toRemove g b (rw_dead rnw ! b)) else u2)"
    by (simp add: upperBound1_def Let_def u1_def u2_def)
  show "uset_fits ?n (upperBound1 g rnw ub b)" using u2 toRemove_abs(1) [OF wf d] by (simp add: result uset.fits_ops)
  show "uset_abs (upperBound1 g rnw ub b) = (uset_abs (ub ! b) \<union> live_out g ub b) - removed g rnw b"
    using u2 toRemove_abs [OF wf d] uset_empty_abs [OF d] by (auto simp: result uset.abs_removeAll [OF u2] abs2 removed_def)
qed

definition all_read :: "cfg \<Rightarrow> reads_and_writes \<Rightarrow> u32 set" where
  "all_read g rnw = (\<Union>b<maxBasicBlockId g. uset_abs (rw_reads rnw ! b))"

definition ub1_inv :: "cfg \<Rightarrow> reads_and_writes \<Rightarrow> nat set \<Rightarrow> uint_set list \<Rightarrow> bool" where
  "ub1_inv g rnw X ub \<longleftrightarrow> graph_ok g rnw \<and> vec_ok g ub
     \<and> (\<forall>b<maxBasicBlockId g. uset_abs (rw_reads rnw ! b) - removed g rnw b \<subseteq> uset_abs (ub ! b) \<and> uset_abs (ub ! b) \<subseteq> all_read g rnw)
     \<and> (\<forall>b\<in>X. uset_abs (ub ! b) \<inter> removed g rnw b = {})"

lemma ub1_inv_init: "graph_ok g rnw \<Longrightarrow> ub1_inv g rnw {} (rw_reads rnw)"
  by (auto simp: ub1_inv_def graph_ok_def rw_fits_def rw_len_def vec_ok_def all_read_def)

lemma ub1_inv_step:
  assumes inv: "ub1_inv g rnw X ub" and b: "b \<in> set (forwardsTopoSort g)"
  shows "ub1_inv g rnw (insert b X) (ub[b := upperBound1 g rnw ub b])"
proof -
  have ok: "graph_ok g rnw" "vec_ok g ub" using inv by (auto simp: ub1_inv_def)
  note u = upperBound1_abs [OF ok b] and ids = topo_ids(1-3) [OF ok(1) b]
  have len: "b < length ub" using ids ok(2) by (simp add: vec_ok_def)
  have "live_out g ub b \<subseteq> all_read g rnw" using inv ids unfolding live_out_def successors_def ub1_inv_def by blast
  then have "uset_abs (rw_reads rnw ! b) - removed g rnw b \<subseteq> uset_abs (upperBound1 g rnw ub b)" "uset_abs (upperBound1 g rnw ub b) \<subseteq> all_read g rnw"
    using inv ids unfolding u(2) ub1_inv_def by blast+
  moreover have "uset_abs (upperBound1 g rnw ub b) \<inter> removed g rnw b = {}" unfolding u(2) by blast
  ultimately show ?thesis using inv u(1) len unfolding ub1_inv_def vec_ok_def by (auto simp: nth_list_update)
qed

interpretation ub1: set_sweep "upperBound1 g rnw" "forwardsTopoSort g" "ub1_inv g rnw (set (forwardsTopoSort g))" "set_words g" "maxBasicBlockId g"
  for g rnw
proof
  fix ub b
  assume inv: "ub1_inv g rnw (set (forwardsTopoSort g)) ub"
  then have ok: "graph_ok g rnw" "vec_ok g ub" by (auto simp: ub1_inv_def)
  then show "length ub = maxBasicBlockId g \<and> (\<forall>i<maxBasicBlockId g. uset_fits (set_words g) (ub ! i))" by (simp add: vec_ok_def)
  assume b: "b \<in> set (forwardsTopoSort g)"
  show "b < maxBasicBlockId g" using topo_ids(1) [OF ok(1) b] .
  show "ub1_inv g rnw (set (forwardsTopoSort g)) (ub[b := upperBound1 g rnw ub b])"
    using ub1_inv_step [OF inv b] b by (simp add: insert_absorb)
  show "uset_abs (ub ! b) \<subseteq> uset_abs (upperBound1 g rnw ub b)"
    unfolding upperBound1_abs(2) [OF ok b] using inv b by (auto simp: ub1_inv_def)
qed

lemma upperBounds1Step_sweep: "upperBounds1Step g rnw = sweepStep (upperBound1 g rnw)"
  by (auto simp: fun_eq_iff upperBounds1Step_def sweepStep_def Let_def)

lemma first_pass:
  assumes "ub1_inv g rnw X ub" "set xs \<subseteq> set (forwardsTopoSort g)"
  shows "ub1_inv g rnw (X \<union> set xs) (fst (fold (sweepStep (upperBound1 g rnw)) xs (ub, ch)))"
  using assms
proof (induction xs arbitrary: X ub ch)
  case (Cons b xs)
  then have "ub1_inv g rnw (insert b X) (ub[b := upperBound1 g rnw ub b])" by (intro ub1_inv_step) auto
  from Cons.IH [OF this] Cons.prems(2) show ?case by (auto simp: sweepStep_def [of _ b])
qed simp

definition settled :: "cfg \<Rightarrow> reads_and_writes \<Rightarrow> uint_set list \<Rightarrow> bool" where
  "settled g rnw ub \<longleftrightarrow> (\<forall>b\<in>set (forwardsTopoSort g). upperBound1 g rnw ub b = ub ! b)"

text \<open>The loop ends, and in a fixed point when its first pass changed a size or reached one.\<close>

lemma upperBounds1_ends:
  assumes "graph_ok g rnw"
  defines "p \<equiv> fold (upperBounds1Step g rnw) (forwardsTopoSort g) (rw_reads rnw, False)"
  obtains ub where "upperBounds1 g rnw = Some (ub, False)" "ub1_inv g rnw (set (forwardsTopoSort g)) ub"
    "snd p \<or> settled g rnw (fst p) \<Longrightarrow> settled g rnw ub"
proof -
  let ?s = "sweeps (upperBound1 g rnw) (forwardsTopoSort g)"
  obtain u ch where p: "p = (u, ch)" by (cases p)
  have inv: "ub1_inv g rnw (set (forwardsTopoSort g)) u"
    using first_pass [OF ub1_inv_init [OF assms(1)] order.refl, of False] p by (simp add: p_def upperBounds1Step_sweep)
  have start: "upperBounds1 g rnw = ?s (u, ch)"
    using p unfolding upperBounds1_def sweeps_def p_def upperBounds1Step_sweep by (subst while_option_unfold) simp
  show thesis
  proof (cases ch)
    case True
    then obtain ub where "?s (u, ch) = Some (ub, False)" "ub1_inv g rnw (set (forwardsTopoSort g)) ub" "settled g rnw ub"
      using ub1.sweeps_end [OF inv] by (auto simp: settled_def)
    then show ?thesis using that start by simp
  next
    case False
    then have "?s (u, ch) = Some (u, False)" by (simp add: sweeps_def while_option_unfold)
    then show ?thesis using that [of u] start inv p False by simp
  qed
qed

text \<open>Without loops one pass is enough.\<close>

lemma pass_without_loops:
  assumes "ub1_inv g rnw X ub" "successors_first g" "forwardsTopoSort g = pre @ xs" "\<forall>b\<in>set pre. upperBound1 g rnw ub b = ub ! b"
  shows "settled g rnw (fst (fold (sweepStep (upperBound1 g rnw)) xs (ub, ch)))"
  using assms
proof (induction xs arbitrary: X pre ub ch)
  case (Cons b xs)
  let ?ub = "ub[b := upperBound1 g rnw ub b]"
  have b: "b \<in> set (forwardsTopoSort g)" using Cons.prems(3) by simp
  have ok: "graph_ok g rnw" "vec_ok g ub" using Cons.prems(1) by (auto simp: ub1_inv_def)
  have inv: "ub1_inv g rnw (insert b X) ?ub" by (rule ub1_inv_step [OF Cons.prems(1) b])
  then have ok': "vec_ok g ?ub" by (simp add: ub1_inv_def)
  have len: "b < length ub" using topo_ids(1) [OF ok(1) b] ok(2) by (simp add: vec_ok_def)
  have dist: "b \<notin> set pre" using Cons.prems(2,3) by (simp add: successors_first_def)
  have succ: "successors g (forwardsTopoSort g ! i) - {deadBlock g} \<subseteq> set pre" if "i \<le> length pre" for i
  proof -
    have "set (take i (forwardsTopoSort g)) \<subseteq> set pre" using that Cons.prems(3) by (simp add: set_take_subset)
    moreover have "i < length (forwardsTopoSort g)" using that Cons.prems(3) by simp
    ultimately show ?thesis using Cons.prems(2) unfolding successors_first_def by blast
  qed
  have same: "live_out g ?ub c = live_out g ub c" if c: "c \<in> set (pre @ [b])" for c
  proof -
    obtain i where i: "i < length (pre @ [b])" "c = (pre @ [b]) ! i"
      using c unfolding in_set_conv_nth by blast
    have "forwardsTopoSort g = (pre @ [b]) @ xs" using Cons.prems(3) by simp
    then have "c = forwardsTopoSort g ! i" using i nth_append_left [of i "pre @ [b]" xs] by simp
    moreover have "i \<le> length pre" using i(1) by simp
    ultimately have "?ub ! d = ub ! d" if "d \<in> successors g c - {deadBlock g}" for d
      using succ dist that by (metis nth_list_update_neq subsetD)
    then show ?thesis by (simp add: live_out_def)
  qed
  have "upperBound1 g rnw ?ub c = ?ub ! c" if c: "c \<in> set (pre @ [b])" for c
  proof (rule uset_abs_inj)
    have ct: "c \<in> set (forwardsTopoSort g)" using c Cons.prems(3) by auto
    show "uset_fits (set_words g) (upperBound1 g rnw ?ub c)" by (rule upperBound1_abs(1) [OF ok(1) ok' ct])
    show "uset_fits (set_words g) (?ub ! c)" using ok' topo_ids(1) [OF ok(1) ct] by (simp add: vec_ok_def)
    have "uset_abs (upperBound1 g rnw ub c) = uset_abs (ub ! c)" if "c \<noteq> b" using c that Cons.prems(4) by simp
    then show "uset_abs (upperBound1 g rnw ?ub c) = uset_abs (?ub ! c)"
      using len unfolding upperBound1_abs(2) [OF ok(1) ok' ct] same [OF c]
      by (cases "c = b") (auto simp: upperBound1_abs(2) [OF ok ct] upperBound1_abs(2) [OF ok b])
  qed
  from Cons.IH [OF inv Cons.prems(2), of "pre @ [b]"] Cons.prems(3) this
  show ?case by (simp add: sweepStep_def [of _ b])
qed (simp add: settled_def)

lemma settled_without_loops:
  assumes "graph_ok g rnw" "successors_first g"
  shows "settled g rnw (fst (fold (upperBounds1Step g rnw) (forwardsTopoSort g) (rw_reads rnw, False)))"
  unfolding upperBounds1Step_sweep by (rule pass_without_loops [OF ub1_inv_init [OF assms(1)] assms(2), of "[]"]) simp_all

section \<open>The second bound\<close>

lemma upperBound2_abs:
  assumes "graph_ok g rnw" "vec_ok g ub" "b \<in> set (forwardsTopoSort g)"
  shows "uset_fits (set_words g) (upperBound2 g rnw ub b)"
    "uset_abs (upperBound2 g rnw ub b) = uset_abs (ub ! b) \<union>
       (\<Union>c\<in>set (backEdges (blocks g b)) - {deadBlock g}. uset_abs (rw_writes rnw ! c) \<union> uset_abs (ub ! c))"
proof -
  let ?n = "set_words g"
  let ?f = "\<lambda>edge u. if edge \<noteq> deadBlock g then uset_addBoth u (rw_writes rnw ! edge) (if edge = b then u else ub ! edge) else u"
  have fold: "uset_fits ?n (fold ?f es u) \<and> uset_abs (fold ?f es u) = uset_abs u \<union>
       (\<Union>c\<in>set es - {deadBlock g}. uset_abs (rw_writes rnw ! c) \<union> uset_abs (ub ! c))"
    if "uset_fits ?n u" "uset_abs (ub ! b) \<subseteq> uset_abs u" "\<forall>c\<in>set es. c < maxBasicBlockId g" for es u
    using that
  proof (induction es arbitrary: u)
    case (Cons c es)
    have fits: "uset_fits ?n (rw_writes rnw ! c)" "uset_fits ?n (ub ! c)"
      using assms(1,2) Cons.prems(3) by (auto simp: graph_ok_def rw_fits_def vec_ok_def)
    have u1: "uset_fits ?n (?f c u)" using fits Cons.prems(1) by (simp add: uset_fits_def)
    have abs1: "uset_abs (?f c u) = uset_abs u \<union> (if c \<noteq> deadBlock g then uset_abs (rw_writes rnw ! c) \<union> uset_abs (ub ! c) else {})"
      using fits Cons.prems(1,2) by (auto simp: uset_fits_def uset_addBoth_abs)
    have "uset_abs (ub ! b) \<subseteq> uset_abs (?f c u)" using Cons.prems(2) abs1 by blast
    from Cons.IH [OF u1 this] Cons.prems(3) abs1 show ?case by auto
  qed simp
  have "uset_fits ?n (ub ! b)" using assms topo_ids(1) [OF assms(1,3)] by (simp add: vec_ok_def)
  from fold [OF this order.refl, of "backEdges (blocks g b)"] topo_ids(4) [OF assms(1,3)]
  show "uset_fits (set_words g) (upperBound2 g rnw ub b)"
    "uset_abs (upperBound2 g rnw ub b) = uset_abs (ub ! b) \<union>
       (\<Union>c\<in>set (backEdges (blocks g b)) - {deadBlock g}. uset_abs (rw_writes rnw ! c) \<union> uset_abs (ub ! c))"
    by (simp_all add: upperBound2_def)
qed

interpretation ub2: set_sweep "upperBound2 g rnw" "rev (forwardsTopoSort g)" "\<lambda>ub. graph_ok g rnw \<and> vec_ok g ub" "set_words g" "maxBasicBlockId g"
  for g rnw
proof
  fix ub b
  assume ok: "graph_ok g rnw \<and> vec_ok g ub"
  then show "length ub = maxBasicBlockId g \<and> (\<forall>i<maxBasicBlockId g. uset_fits (set_words g) (ub ! i))" by (simp add: vec_ok_def)
  assume "b \<in> set (rev (forwardsTopoSort g))"
  then have b: "b \<in> set (forwardsTopoSort g)" by simp
  show "b < maxBasicBlockId g" using topo_ids(1) ok b by blast
  show "uset_abs (ub ! b) \<subseteq> uset_abs (upperBound2 g rnw ub b)" using ok b by (auto simp: upperBound2_abs)
  show "graph_ok g rnw \<and> vec_ok g (ub[b := upperBound2 g rnw ub b])"
    using ok upperBound2_abs(1) [of g rnw ub b] b by (auto simp: vec_ok_def nth_list_update_within)
qed

lemma upperBounds2_ends:
  assumes "graph_ok g rnw"
  obtains ub where "upperBounds2 g rnw = Some (ub, False)" "vec_ok g ub" "\<forall>b\<in>set (forwardsTopoSort g). upperBound2 g rnw ub b = ub ! b"
proof -
  have "upperBounds2Step g rnw = sweepStep (upperBound2 g rnw)"
    by (auto simp: fun_eq_iff upperBounds2Step_def sweepStep_def Let_def)
  moreover have "vec_ok g (replicate (maxBasicBlockId g) (UIntSet (numLocalVariables g)))"
    using assms empty_uset(1) by (simp add: vec_ok_def graph_ok_def)
  ultimately show thesis
    using ub2.sweeps_end [of g rnw "replicate (maxBasicBlockId g) (UIntSet (numLocalVariables g))"] assms that
    by (auto simp: upperBounds2_def sweeps_def)
qed

section \<open>Dead assignments\<close>

definition merged :: "uint_set list \<Rightarrow> uint_set list \<Rightarrow> nat list \<Rightarrow> cfg \<Rightarrow> uint_set list \<Rightarrow> cfg \<Rightarrow> bool" where
  "merged ub1 ub2 bs g ub' g' \<longleftrightarrow>
     (\<forall>b. ub' ! b = (if b \<in> set bs then uset_intersect (ub1 ! b) (ub2 ! b) else ub1 ! b))
   \<and> (\<forall>b. exprs (blocks g' b) = exprs (blocks g b) \<and> bexit (blocks g' b) = bexit (blocks g b)
        \<and> backEdges (blocks g' b) = backEdges (blocks g b) \<and> wasJumpDestination (blocks g' b) = wasJumpDestination (blocks g b)
        \<and> map us_variable (args (blocks g' b)) = map us_variable (args (blocks g b)) @ (if b \<in> set bs then uset_items (ub' ! b) else []))
   \<and> basicBlocks g' = basicBlocks g \<and> localVariables g' = localVariables g"

lemma mergeStep_fold:
  assumes "distinct bs" "\<forall>b\<in>set bs. b < length ub1" "fold (mergeStep ub2) bs (ub1, g) = (ub', g')"
  shows "merged ub1 ub2 bs g ub' g'"
  using assms
proof (induction bs arbitrary: ub1 g)
  case (Cons b bs)
  let ?u = "uset_intersect (ub1 ! b) (ub2 ! b)"
  obtain ub1' g1 where step: "mergeStep ub2 b (ub1, g) = (ub1', g1)" by fastforce
  then have ub: "ub1' = ub1[b := ?u]" and "basicBlocks g1 = basicBlocks g" "localVariables g1 = localVariables g"
    "\<And>c. exprs (blocks g1 c) = exprs (blocks g c) \<and> bexit (blocks g1 c) = bexit (blocks g c)
      \<and> backEdges (blocks g1 c) = backEdges (blocks g c) \<and> wasJumpDestination (blocks g1 c) = wasJumpDestination (blocks g c)
      \<and> map us_variable (args (blocks g1 c)) = map us_variable (args (blocks g c)) @ (if c = b then uset_items ?u else [])"
    by (auto simp: mergeStep_def Let_def comp_def)
  note same = this(2-)
  have "merged ub1' ub2 bs g1 ub' g'" using Cons step ub by simp
  then show ?case using Cons.prems(1,2) same unfolding merged_def ub by (auto simp: nth_list_update)
qed (simp add: merged_def)

lemma removeDeadAssigns_fold:
  fixes env :: cfg_env and rnw :: reads_and_writes and as :: "uint_set list" and g :: cfg
  assumes "distinct bs"
  defines "g' \<equiv> fold (\<lambda>b g. updBlock b (\<lambda>bb. bb\<lparr>exprs := filter (\<lambda>e. \<not> isDeadAssign env g rnw as b e) (exprs bb)\<rparr>) g) bs g"
  shows "exprs (blocks g' b) = (if b \<in> set bs then filter (\<lambda>e. \<not> isDeadAssign env g rnw as b e) (exprs (blocks g b)) else exprs (blocks g b))
    \<and> bexit (blocks g' b) = bexit (blocks g b) \<and> basicBlocks g' = basicBlocks g
    \<and> backEdges (blocks g' b) = backEdges (blocks g b) \<and> wasJumpDestination (blocks g' b) = wasJumpDestination (blocks g b)"
  unfolding g'_def using assms(1)
proof (induction bs arbitrary: g)
  case (Cons c bs)
  let ?g = "updBlock c (\<lambda>bb. bb\<lparr>exprs := filter (\<lambda>e. \<not> isDeadAssign env g rnw as c e) (exprs bb)\<rparr>) g"
  have "isDeadAssign env ?g rnw as b e = isDeadAssign env g rnw as b e" for e
    by (simp add: isDeadAssign_def isAliasForGlobal_def Let_def)
  then show ?case using Cons.IH [of ?g] Cons.prems by auto
qed simp

text \<open>The blocks of \<open>forwardsTopoSort\<close> are those reachable from the entry, as \<open>topoSortFwd\<close> leaves them.\<close>

definition topo_closed :: "cfg \<Rightarrow> bool" where
  "topo_closed g \<longleftrightarrow> set (forwardsTopoSort g) \<subseteq> set (basicBlocks g) \<and> entry g \<in> set (forwardsTopoSort g)
     \<and> (\<forall>b\<in>set (forwardsTopoSort g). successors g b \<subseteq> set (forwardsTopoSort g))"

lemma path_in_topo:
  assumes "topo_closed g" "is_path g p"
  shows "set p \<subseteq> set (forwardsTopoSort g) - {deadBlock g}"
proof -
  have "p ! i \<in> set (forwardsTopoSort g)" if "i < length p" for i
    using that
  proof (induction i)
    case 0
    then show ?case using assms by (simp add: is_path_def topo_closed_def flip: hd_conv_nth)
  next
    case (Suc i)
    then show ?case using assms unfolding is_path_def topo_closed_def by (meson Suc_lessD subsetD)
  qed
  then show ?thesis using assms(2) by (auto simp: is_path_def in_set_conv_nth)
qed

lemma analysis_needs_ok:
  fixes env :: cfg_env
  assumes g: "wf_blocks g" "sanityCheck g" "topo_closed g"
    and g1: "g1 = g\<lparr>minLoops := mins, maxLoopWrite := maxs\<rparr>"
    and rnw: "rnw = findAllReadsAndWrites env g"
    and ub1: "ub1_inv g1 rnw (set (forwardsTopoSort g)) ub1" "settled g1 rnw ub1"
    and ub2: "vec_ok g1 ub2" "\<forall>b\<in>set (forwardsTopoSort g1). upperBound2 g1 rnw ub2 b = ub2 ! b"
    and blockArgs: "\<forall>b\<in>set (basicBlocks g). blockArgs ! b = uset_intersect (ub1 ! b) (ub2 ! b)"
    and b: "b \<in> set (forwardsTopoSort g) - {deadBlock g}"
  shows "needs_ok g (isDeadAssign env g rnw blockArgs b) (\<lambda>c. uset_abs (ub1 ! c)) (\<lambda>c. uset_abs (ub2 ! c))
    (uset_abs (rw_reads rnw ! b)) (removed g1 rnw b) (all_read g1 rnw) b"
proof -
  have same: "blocks g1 = blocks g" "deadBlock g1 = deadBlock g" "successors g1 = successors g" "forwardsTopoSort g1 = forwardsTopoSort g"
    "maxBasicBlockId g1 = maxBasicBlockId g" "set_words g1 = set_words g"
    by (simp_all add: g1 deadBlock_def successors_def fun_eq_iff set_words_def numLocalVariables_def)
  have ok: "graph_ok g1 rnw" "vec_ok g1 ub1" using ub1(1) by (auto simp: ub1_inv_def)
  have bt: "b \<in> set (forwardsTopoSort g1)" and bb: "b \<in> set (basicBlocks g)" and bm: "b < maxBasicBlockId g"
    using b g(1,3) by (auto simp: same topo_closed_def wf_blocks_def)
  note facts = findAll_facts [OF g(1) bb, where env = env, folded rnw]
  have "uset_abs (upperBound1 g1 rnw ub1 b) = uset_abs (ub1 ! b)" using ub1(2) bt by (simp add: settled_def)
  then have live: "live_out g1 ub1 b - removed g1 rnw b \<subseteq> uset_abs (ub1 ! b)" unfolding upperBound1_abs(2) [OF ok bt] by blast
  have sub: "uset_abs (rw_reads rnw ! b) - removed g1 rnw b \<subseteq> uset_abs (ub1 ! b)" "\<And>c. c < maxBasicBlockId g \<Longrightarrow> uset_abs (ub1 ! c) \<subseteq> all_read g1 rnw"
    using ub1(1) bm by (auto simp: ub1_inv_def same)
  have succ: "c \<in> set (basicBlocks g)" "c < maxBasicBlockId g" "uset_abs (ub2 ! b) \<subseteq> uset_abs (ub2 ! c)" "uset_abs (rw_writes rnw ! b) \<subseteq> uset_abs (ub2 ! c)"
    "uset_abs (ub1 ! c) \<subseteq> live_out g1 ub1 b"
    if c: "c \<in> successors g b - {deadBlock g}" for c
  proof -
    have ct: "c \<in> set (forwardsTopoSort g1)" using c b g(3) by (auto simp: same topo_closed_def)
    show "c \<in> set (basicBlocks g)" "c < maxBasicBlockId g" using ct g(1,3) by (auto simp: same topo_closed_def wf_blocks_def)
    have "b \<in> set (backEdges (blocks g c))" using g(2) bb b c unfolding sanityCheck_def successors_def by blast
    moreover have "uset_abs (upperBound2 g1 rnw ub2 c) = uset_abs (ub2 ! c)" using ub2(2) ct by simp
    ultimately show "uset_abs (ub2 ! b) \<subseteq> uset_abs (ub2 ! c)" "uset_abs (rw_writes rnw ! b) \<subseteq> uset_abs (ub2 ! c)"
      unfolding upperBound2_abs(2) [OF ok(1) ub2(1) ct] using b by (auto simp: same)
    show "uset_abs (ub1 ! c) \<subseteq> live_out g1 ub1 b" using c by (auto simp: live_out_def same)
  qed
  have del: "isPure (bind_value e) \<and> us_variable (bind e) \<notin> uset_abs (rw_reads rnw ! b)
      \<and> (\<forall>c\<in>successors g b - {deadBlock g}. us_variable (bind e) \<notin> uset_abs (ub1 ! c) \<inter> uset_abs (ub2 ! c)
             \<and> (us_variable (bind e) \<in> uset_abs (ub2 ! c) \<or> us_variable (bind e) \<notin> all_read g1 rnw))"
    if e: "e \<in> set (exprs (blocks g b))" "isDeadAssign env g rnw blockArgs b e" for e
  proof -
    let ?v = "us_variable (bind e)"
    have "?v < numLocalVariables g" using g(1) bb e(1) by (simp add: wf_blocks_def)
    then have hold: "can_hold (set_words g) ?v" by (rule empty_uset(3) [OF g(1)])
    have dead: "isPure (bind_value e)" "\<not> uset_contains (rw_reads rnw ! b) ?v" "\<forall>c\<in>successors g b. \<not> uset_contains (blockArgs ! c) ?v"
      using e(2) by (auto simp: isDeadAssign_def Let_def successors_def split: if_splits)
    have nr: "?v \<notin> uset_abs (rw_reads rnw ! b)"
      using dead(2) hold ok(1) bm by (simp add: uset_contains_abs graph_ok_def rw_fits_def uset_fits_def same)
    have "?v \<notin> uset_abs (ub1 ! c) \<inter> uset_abs (ub2 ! c)" if c: "c \<in> successors g b - {deadBlock g}" for c
    proof -
      have fits: "uset_fits (set_words g) (ub1 ! c)" "uset_fits (set_words g) (ub2 ! c)"
        using ok(2) ub2(1) succ(2) [OF c] by (auto simp: vec_ok_def same)
      have "\<not> uset_contains (uset_intersect (ub1 ! c) (ub2 ! c)) ?v" using dead(3) c blockArgs succ(1) [OF c] by auto
      then show ?thesis using fits hold by (simp add: uset_contains_abs uset_fits_def uset_intersect_abs)
    qed
    moreover have "?v \<in> uset_abs (rw_writes rnw ! b)" if "?v \<in> all_read g1 rnw"
      using that facts(4) [OF _ nr] e(1) by (auto simp: all_read_def same)
    ultimately show ?thesis using dead(1) nr succ(4) by blast
  qed
  have "\<forall>v\<in>removed g1 rnw b. written_first (exprs (blocks g b)) v" using facts(3) by (simp add: removed_def)
  moreover have "\<forall>c\<in>successors g b - {deadBlock g}. uset_abs (ub1 ! c) - removed g1 rnw b \<subseteq> uset_abs (ub1 ! b)
      \<and> uset_abs (ub1 ! c) \<subseteq> all_read g1 rnw \<and> uset_abs (ub2 ! b) \<subseteq> uset_abs (ub2 ! c)"
    using sub(2) [OF succ(2)] succ(3,5) live by blast
  moreover note facts(1,2) sub(1) sub(2) [OF bm]
  ultimately show ?thesis unfolding needs_ok_def using del by (intro conjI) (assumption | blast)+
qed

text \<open>The first loop ends in a fixed point.\<close>

definition first_bound_settled :: "cfg_env \<Rightarrow> cfg \<Rightarrow> bool" where
  "first_bound_settled env g \<longleftrightarrow> (let rnw = findAllReadsAndWrites env g; g = computeMinMaxLoops rnw g
     in case upperBounds1 g rnw of Some (ub, _) \<Rightarrow> settled g rnw ub | None \<Rightarrow> False)"

lemma computeMinMaxLoops_same: "\<exists>mins maxs. computeMinMaxLoops rnw g = g\<lparr>minLoops := mins, maxLoopWrite := maxs\<rparr>"
  by (auto simp: computeMinMaxLoops_def Let_def)

lemma graph_ok_minMax:
  assumes "wf_blocks g" "set (forwardsTopoSort g) \<subseteq> set (basicBlocks g)"
  shows "graph_ok (g\<lparr>minLoops := mins, maxLoopWrite := maxs\<rparr>) (findAllReadsAndWrites env g)"
  using assms rw_fits_findAll [OF assms(1), of env]
  by (auto simp: graph_ok_def wf_blocks_def successors_def numLocalVariables_def set_words_def)

lemma fillIn_parts:
  assumes g: "wf_blocks g" "set (forwardsTopoSort g) \<subseteq> set (basicBlocks g)"
    and rnw: "rnw = findAllReadsAndWrites env g" and g1: "g1 = computeMinMaxLoops rnw g"
  obtains ub1 ub2 blockArgs g2 where "upperBounds1 g1 rnw = Some (ub1, False)" "ub1_inv g1 rnw (set (forwardsTopoSort g)) ub1"
    "successors_first g \<Longrightarrow> settled g1 rnw ub1"
    "vec_ok g1 ub2" "\<forall>b\<in>set (forwardsTopoSort g1). upperBound2 g1 rnw ub2 b = ub2 ! b"
    "fillInBlockArguments g1 rnw = Some (blockArgs, g2)" "merged ub1 ub2 (basicBlocks g) g1 blockArgs g2"
proof -
  obtain mins maxs where g1': "g1 = g\<lparr>minLoops := mins, maxLoopWrite := maxs\<rparr>" using computeMinMaxLoops_same g1 by blast
  have ok: "graph_ok g1 rnw" unfolding g1' rnw by (rule graph_ok_minMax [OF g])
  have first: "successors_first g \<Longrightarrow> successors_first g1"
    by (simp add: successors_first_def g1' successors_def deadBlock_def)
  obtain ub1 where ub1: "upperBounds1 g1 rnw = Some (ub1, False)" "ub1_inv g1 rnw (set (forwardsTopoSort g1)) ub1"
    "successors_first g1 \<Longrightarrow> settled g1 rnw ub1"
    using upperBounds1_ends [OF ok] settled_without_loops [OF ok] by blast
  obtain ub2 where ub2: "upperBounds2 g1 rnw = Some (ub2, False)" "vec_ok g1 ub2"
    "\<forall>b\<in>set (forwardsTopoSort g1). upperBound2 g1 rnw ub2 b = ub2 ! b"
    using upperBounds2_ends [OF ok] by blast
  obtain blockArgs g2 where fold: "fold (mergeStep ub2) (basicBlocks g) (ub1, g1) = (blockArgs, g2)" by fastforce
  have "fillInBlockArguments g1 rnw = Some (blockArgs, g2)" using fold ub1(1) ub2(1) by (simp add: fillInBlockArguments_def g1')
  moreover have "merged ub1 ub2 (basicBlocks g) g1 blockArgs g2"
    by (rule mergeStep_fold [OF _ _ fold]) (use g(1) ub1(2) in \<open>auto simp: wf_blocks_def ub1_inv_def vec_ok_def g1'\<close>)
  moreover have "forwardsTopoSort g1 = forwardsTopoSort g" by (simp add: g1')
  ultimately show thesis using that ub1 ub2(2,3) first by metis
qed

text \<open>C22: The passes that compute block arguments return: both loops end, and in a graph without loops
  the first ends in a fixed point.  The arguments that a block gets are in increasing order.\<close>

theorem fillInBlockArguments_ends:
  assumes "wf_blocks g" "set (forwardsTopoSort g) \<subseteq> set (basicBlocks g)" "rnw = findAllReadsAndWrites env g"
  shows "\<exists>blockArgs g'. fillInBlockArguments (computeMinMaxLoops rnw g) rnw = Some (blockArgs, g')
      \<and> (\<forall>b\<in>set (basicBlocks g). map us_variable (args (blocks g' b)) = map us_variable (args (blocks g b)) @ uset_items (blockArgs ! b)
           \<and> sorted (uset_items (blockArgs ! b)) \<and> distinct (uset_items (blockArgs ! b)))
      \<and> (successors_first g \<longrightarrow> first_bound_settled env g)"
proof -
  let ?g = "computeMinMaxLoops rnw g"
  obtain ub1 ub2 blockArgs g2 where parts: "upperBounds1 ?g rnw = Some (ub1, False)" "ub1_inv ?g rnw (set (forwardsTopoSort g)) ub1"
    "successors_first g \<Longrightarrow> settled ?g rnw ub1" "vec_ok ?g ub2" "fillInBlockArguments ?g rnw = Some (blockArgs, g2)"
    "merged ub1 ub2 (basicBlocks g) ?g blockArgs g2"
    using fillIn_parts [OF assms refl] by metis
  have "blocks ?g = blocks g" "maxBasicBlockId ?g = maxBasicBlockId g" by (simp_all add: computeMinMaxLoops_def Let_def)
  moreover have "sorted (uset_items (blockArgs ! b)) \<and> distinct (uset_items (blockArgs ! b))" if b: "b \<in> set (basicBlocks g)" for b
  proof -
    have "b < maxBasicBlockId ?g" using assms(1) b \<open>maxBasicBlockId ?g = maxBasicBlockId g\<close> by (simp add: wf_blocks_def)
    then have "uset_fits (set_words ?g) (ub1 ! b)" "uset_fits (set_words ?g) (ub2 ! b)" using parts(2,4) by (auto simp: ub1_inv_def vec_ok_def)
    then have "uset_fits (set_words ?g) (blockArgs ! b)" using parts(6) b by (simp add: merged_def uset.fits_ops)
    then show ?thesis using uset_items_sorted by blast
  qed
  ultimately show ?thesis using parts by (auto simp: merged_def first_bound_settled_def Let_def assms(3) [symmetric])
qed

lemma deadAssigns_runs:
  fixes sem :: "('v, 'w) meaning"
  assumes g: "wf_blocks g" "sanityCheck g" "topo_closed g" and settled: "first_bound_settled env g"
    and pure: "pure_meaning sem" and p: "is_path g p"
  shows "\<exists>g'. buildFor_deadAssigns env g = Some g' \<and> basicBlocks g' = basicBlocks g \<and> (\<forall>b. bexit (blocks g' b) = bexit (blocks g b))
     \<and> (let c = us_variable (cond (bexit (blocks g (last p)))); (st1, w1) = runPath sem g p (st, w); (st2, w2) = runPath sem g' p (st, w)
        in w2 = w1 \<and> (c = LocalRef_unconditional \<or> st2 c = st1 c))"
proof -
  define rnw g1 where "rnw = findAllReadsAndWrites env g" and "g1 = computeMinMaxLoops rnw g"
  have topo: "set (forwardsTopoSort g) \<subseteq> set (basicBlocks g)" using g(3) by (simp add: topo_closed_def)
  obtain ub1 ub2 blockArgs g2 where parts: "upperBounds1 g1 rnw = Some (ub1, False)" "ub1_inv g1 rnw (set (forwardsTopoSort g)) ub1"
    "vec_ok g1 ub2" "\<forall>b\<in>set (forwardsTopoSort g1). upperBound2 g1 rnw ub2 b = ub2 ! b"
    "fillInBlockArguments g1 rnw = Some (blockArgs, g2)" "merged ub1 ub2 (basicBlocks g) g1 blockArgs g2"
    using fillIn_parts [OF g(1) topo rnw_def g1_def] by metis
  obtain mins maxs where g1: "g1 = g\<lparr>minLoops := mins, maxLoopWrite := maxs\<rparr>" using computeMinMaxLoops_same g1_def by blast
  have set1: "settled g1 rnw ub1" using settled parts(1) by (simp add: first_bound_settled_def Let_def g1_def rnw_def)
  have args: "\<forall>b\<in>set (basicBlocks g). blockArgs ! b = uset_intersect (ub1 ! b) (ub2 ! b)" using parts(6) by (simp add: merged_def)
  let ?B = "set (forwardsTopoSort g) - {deadBlock g}"
  let ?del = "isDeadAssign env g rnw blockArgs"
  define g' where "g' = removeDeadAssigns env rnw blockArgs g2"
  have same: "exprs (blocks g2 b) = exprs (blocks g b)" "bexit (blocks g2 b) = bexit (blocks g b)" for b using parts(6) by (auto simp: merged_def g1)
  have del2: "isDeadAssign env g2 rnw blockArgs b e = ?del b e" for b e
    using parts(6) same by (simp add: isDeadAssign_def isAliasForGlobal_def localData_def merged_def g1 Let_def)
  have bexits: "bexit (blocks g' b) = bexit (blocks g b)" for b
    using removeDeadAssigns_fold [of "basicBlocks g2"] g(1) parts(6) same
    by (simp add: g'_def removeDeadAssigns_def merged_def g1 wf_blocks_def)
  have owned: "basicBlocks g' = basicBlocks g"
    using removeDeadAssigns_fold [of "basicBlocks g2"] g(1) parts(6) by (simp add: g'_def removeDeadAssigns_def merged_def g1 wf_blocks_def)
  have "buildFor_deadAssigns env g = Some g'"
    using parts(5) by (simp add: buildFor_deadAssigns_def Let_def g'_def flip: rnw_def g1_def)
  moreover have "let c = us_variable (cond (bexit (blocks g (last p)))); (st1, w1) = runPath sem g p (st, w); (st2, w2) = runPath sem g' p (st, w)
        in w2 = w1 \<and> (c = LocalRef_unconditional \<or> st2 c = st1 c)"
  proof (cases "lspQueryIsEmpty env")
    case False
    then have "runPath sem g' p = runPath sem g p" by (simp add: g'_def removeDeadAssigns_def runPath_def runBlock_def same)
    then show ?thesis by (simp add: Let_def split: prod.split)
  next
    case True
    have "\<forall>b\<in>?B. exprs (blocks g' b) = filter (\<lambda>e. \<not> ?del b e) (exprs (blocks g b))"
      using removeDeadAssigns_fold [of "basicBlocks g2" env rnw blockArgs g2] g(1) parts(6) topo True
      by (auto simp: g'_def removeDeadAssigns_def merged_def g1 wf_blocks_def same del2)
    moreover have "\<forall>b\<in>?B. needs_ok g (?del b) (\<lambda>c. uset_abs (ub1 ! c)) (\<lambda>c. uset_abs (ub2 ! c))
        (uset_abs (rw_reads rnw ! b)) (removed g1 rnw b) (all_read g1 rnw) b"
      using analysis_needs_ok [OF g g1 rnw_def parts(2) set1 parts(3,4) args] by blast
    ultimately show ?thesis
      using run_path_without [OF _ pure _ p path_in_topo [OF g(3) p], of ?del _ _ _ _ _ g' st w]
      by (fastforce simp: Let_def)
  qed
  ultimately show ?thesis using bexits owned by blast
qed

text \<open>The passes return for every graph, and remove only instructions that may be removed.\<close>

lemma deadAssigns_keeps:
  assumes g: "wf_blocks g" "set (forwardsTopoSort g) \<subseteq> set (basicBlocks g)"
  shows "\<exists>g'. buildFor_deadAssigns env g = Some g' \<and> basicBlocks g' = basicBlocks g
     \<and> (\<forall>b. bexit (blocks g' b) = bexit (blocks g b) \<and> backEdges (blocks g' b) = backEdges (blocks g b)
         \<and> wasJumpDestination (blocks g' b) = wasJumpDestination (blocks g b)
         \<and> (\<forall>e\<in>set (exprs (blocks g b)). e \<in> set (exprs (blocks g' b)) \<or> isPure (bind_value e)))"
proof -
  define rnw g1 where "rnw = findAllReadsAndWrites env g" and "g1 = computeMinMaxLoops rnw g"
  obtain ub1 ub2 blockArgs g2 where parts: "fillInBlockArguments g1 rnw = Some (blockArgs, g2)" "merged ub1 ub2 (basicBlocks g) g1 blockArgs g2"
    using fillIn_parts [OF g rnw_def g1_def] by metis
  obtain mins maxs where g1: "g1 = g\<lparr>minLoops := mins, maxLoopWrite := maxs\<rparr>" using computeMinMaxLoops_same g1_def by blast
  define g' where "g' = removeDeadAssigns env rnw blockArgs g2"
  have m: "exprs (blocks g2 b) = exprs (blocks g b)" "bexit (blocks g2 b) = bexit (blocks g b)" "backEdges (blocks g2 b) = backEdges (blocks g b)"
    "wasJumpDestination (blocks g2 b) = wasJumpDestination (blocks g b)" "basicBlocks g2 = basicBlocks g" for b
    using parts(2) by (simp_all add: merged_def g1)
  have d: "distinct (basicBlocks g2)" using g(1) m(5) by (simp add: wf_blocks_def)
  have pure: "isPure (bind_value e)" if "isDeadAssign env g2 rnw blockArgs b e" for b e
    using that by (auto simp: isDeadAssign_def Let_def split: if_splits)
  have "buildFor_deadAssigns env g = Some g'"
    using parts(1) by (simp add: buildFor_deadAssigns_def Let_def g'_def flip: rnw_def g1_def)
  moreover have "basicBlocks g' = basicBlocks g \<and> bexit (blocks g' b) = bexit (blocks g b) \<and> backEdges (blocks g' b) = backEdges (blocks g b)
         \<and> wasJumpDestination (blocks g' b) = wasJumpDestination (blocks g b)
         \<and> (\<forall>e\<in>set (exprs (blocks g b)). e \<in> set (exprs (blocks g' b)) \<or> isPure (bind_value e))" for b
    using removeDeadAssigns_fold [OF d, of env rnw blockArgs g2 b] pure by (auto simp: g'_def removeDeadAssigns_def m)
  ultimately show ?thesis by blast
qed

text \<open>C12: Removing dead assignments does not change what a graph computes.  When the first loop of the
  analysis ends in a fixed point, the passes return a graph with the same jumps, and on every path from
  the entry its run gives the same world and the same value for the condition of the last jump,
  whatever the instructions mean, as long as those that may be removed do not change the world.\<close>

theorem removeDeadAssigns_preserves_runs:
  fixes sem :: "('v, 'w) meaning"
  assumes g: "wf_blocks g" "sanityCheck g" "topo_closed g" and settled: "first_bound_settled env g"
    and pure: "pure_meaning sem" and p: "is_path g p"
  shows "\<exists>g'. buildFor_deadAssigns env g = Some g' \<and> basicBlocks g' = basicBlocks g \<and> (\<forall>b. bexit (blocks g' b) = bexit (blocks g b))
     \<and> (let c = us_variable (cond (bexit (blocks g (last p)))); (st1, w1) = runPath sem g p (st, w); (st2, w2) = runPath sem g' p (st, w)
        in w2 = w1 \<and> (c = LocalRef_unconditional \<or> st2 c = st1 c))"
  using assms by (rule deadAssigns_runs)

section \<open>Examples\<close>

definition unused_graph :: cfg where
  "unused_graph = sample_graph
     [sample_block 0 [assign 5 (Literal NullType), assign 6 (Literal NullType), assign 4 (Return (use 6) no_loc)] (jump 3 1 1) [],
      sample_block 0 [] (jump 3 1 1) [0]] [1, 0] 7"

lemma unused_graph_ok: "wf_blocks unused_graph" "sanityCheck unused_graph" "topo_closed unused_graph" "successors_first unused_graph"
proof -
  show "wf_blocks unused_graph" by (rule wf_blocks_sample [OF _ unused_graph_def]) (simp, code_simp)
  show "sanityCheck unused_graph" "topo_closed unused_graph" "successors_first unused_graph" by code_simp+
qed

theorem fillInBlockArguments_ends_witness:
  "wf_blocks unused_graph \<and> first_bound_settled sample_cfg_env unused_graph"
proof -
  have "set (forwardsTopoSort unused_graph) \<subseteq> set (basicBlocks unused_graph)" using unused_graph_ok(3) by (simp add: topo_closed_def)
  from fillInBlockArguments_ends [OF unused_graph_ok(1) this refl, of sample_cfg_env] unused_graph_ok
  show ?thesis by blast
qed

definition adding :: "(int, int) meaning" where
  "adding i vs w = (case i of Literal NullType \<Rightarrow> (0, w) | _ \<Rightarrow> if isPure i then (1, w) else (0, w + sum_list vs))"

lemma pure_adding: "pure_meaning adding"
  by (auto simp: pure_meaning_def adding_def isPure_def split: instruction.splits type_ptr.splits)

theorem removeDeadAssigns_preserves_runs_witness:
  "is_path unused_graph [0] \<and>
   map_option (\<lambda>g'. exprs (blocks g' 0)) (buildFor_deadAssigns sample_cfg_env unused_graph)
     = Some [assign 6 (Literal NullType), assign 4 (Return (use 6) no_loc)]
   \<and> map_option (\<lambda>g'. snd (runPath adding g' [0] (\<lambda>_. 7, 3))) (buildFor_deadAssigns sample_cfg_env unused_graph)
     = Some (snd (runPath adding unused_graph [0] (\<lambda>_. 7, 3)))"
proof -
  have p: "is_path unused_graph [0]" by (simp add: is_path_def) code_simp
  have "first_bound_settled sample_cfg_env unused_graph" by code_simp
  from removeDeadAssigns_preserves_runs [OF unused_graph_ok(1-3) this pure_adding p, of "\<lambda>_. 7" 3]
  have "map_option (\<lambda>g'. snd (runPath adding g' [0] (\<lambda>_. 7, 3))) (buildFor_deadAssigns sample_cfg_env unused_graph)
     = Some (snd (runPath adding unused_graph [0] (\<lambda>_. 7, 3)))" by (auto simp: Let_def case_prod_unfold)
  moreover have "map_option (\<lambda>g'. exprs (blocks g' 0)) (buildFor_deadAssigns sample_cfg_env unused_graph)
     = Some [assign 6 (Literal NullType), assign 4 (Return (use 6) no_loc)]" by code_simp
  ultimately show ?thesis using p by blast
qed

text \<open>The condition on the first loop is needed.  In this graph the first pass changes the contents of the
  sets and no size: the loop stops although variable 6, read in block 4, has not been propagated around
  the loop, and the assignment to 6 in block 3 is removed.\<close>

definition early_graph :: cfg where
  "early_graph = sample_graph
     [sample_block 0 [assign 6 (Literal NullType)] (jump 3 2 2) [],
      sample_block 0 [] (jump 3 1 1) [4],
      sample_block 1 [assign 7 (Literal NullType)] (jump 7 3 4) [0, 5],
      sample_block 1 [assign 6 (Literal (ClassType 1))] (jump 3 5 5) [2],
      sample_block 0 [assign 4 (Return (use 6) no_loc)] (jump 3 1 1) [2],
      sample_block 1 [assign 7 (Literal NullType)] (jump 3 2 2) [3]] [1, 4, 5, 3, 2, 0] 8"

lemma upperBounds1_stops_early:
  "wf_blocks early_graph \<and> sanityCheck early_graph \<and> topo_closed early_graph \<and> is_path early_graph [0, 2, 3, 5, 2, 4]
   \<and> \<not> first_bound_settled sample_cfg_env early_graph
   \<and> snd (runPath adding early_graph [0, 2, 3, 5, 2, 4] (\<lambda>_. 0, 0)) = 1
   \<and> (let rnw = findAllReadsAndWrites sample_cfg_env early_graph in
        map_option (\<lambda>(blockArgs, g). isDeadAssign sample_cfg_env early_graph rnw blockArgs 3 (assign 6 (Literal (ClassType 1))))
          (fillInBlockArguments (computeMinMaxLoops rnw early_graph) rnw)) = Some True"
proof -
  have "wf_blocks early_graph" by (rule wf_blocks_sample [OF _ early_graph_def]) (simp, code_simp)
  moreover have "entry early_graph = 0" "deadBlock early_graph = 1" "2 \<in> successors early_graph 0" "3 \<in> successors early_graph 2"
    "5 \<in> successors early_graph 3" "2 \<in> successors early_graph 5" "4 \<in> successors early_graph 2" by code_simp+
  then have "is_path early_graph [0, 2, 3, 5, 2, 4]" by (auto simp: is_path_def less_Suc_eq nth_Cons split: nat.splits)
  moreover have "sanityCheck early_graph" "topo_closed early_graph" "\<not> first_bound_settled sample_cfg_env early_graph"
    "snd (runPath adding early_graph [0, 2, 3, 5, 2, 4] (\<lambda>_. 0, 0)) = 1" by code_simp+
  moreover have "(let rnw = findAllReadsAndWrites sample_cfg_env early_graph in
        map_option (\<lambda>(blockArgs, g). isDeadAssign sample_cfg_env early_graph rnw blockArgs 3 (assign 6 (Literal (ClassType 1))))
          (fillInBlockArguments (computeMinMaxLoops rnw early_graph) rnw)) = Some True"
    by code_simp
  ultimately show ?thesis by blast
qed

end
