(* ===== verification/CfgSimplify.thy ===== *)
theory CfgSimplify
  imports CfgTopo
begin

text \<open>
  Simplifying the graph (\<open>simplify\<close> and \<open>markLoopHeaders\<close> in \<open>cfg/builder/builder_finalize.cc\<close>): blocks that nothing
  jumps to are removed, blocks with one predecessor are joined to it, and jumps to empty blocks are redirected.
  The two nested loops of the code are one loop here, whose state is the graph, the position of the iterator
  and the flag \<open>changed\<close>.  Bindings that have been moved out of a block stay in it in the model; the block has
  lost its last edge by then, and the code does not look at them again.
\<close>

section \<open>Rewriting a jump\<close>

definition addEdge :: "nat \<Rightarrow> nat \<Rightarrow> cfg \<Rightarrow> cfg" where
  "addEdge bb succ g = updBlock succ (\<lambda>s. s\<lparr>backEdges := backEdges s @ [bb]\<rparr>) g"

definition addEdges :: "nat \<Rightarrow> cfg \<Rightarrow> cfg" where
  "addEdges bb g =
     (let t = thenb (bexit (blocks g bb)); e = elseb (bexit (blocks g bb)); g = addEdge bb t g
      in if t \<noteq> e then addEdge bb e g else g)"

definition copyExit :: "nat \<Rightarrow> nat \<Rightarrow> cfg \<Rightarrow> cfg" where
  "copyExit bb from g =
     (let ex = bexit (blocks g from)
      in updBlock bb (\<lambda>s. s\<lparr>bexit := \<lparr>cond = (cond (bexit s))\<lparr>us_variable := us_variable (cond ex)\<rparr>,
           thenb = thenb ex, elseb = elseb ex, exit_loc = exit_loc ex\<rparr>\<rparr>) g)"

text \<open>Joining the only successor to a block, and taking over the exit of an empty one.\<close>

definition squish :: "nat \<Rightarrow> nat \<Rightarrow> cfg \<Rightarrow> cfg" where
  "squish bb t g =
     (let g = updBlock bb (\<lambda>s. s\<lparr>exprs := exprs s @ exprs (blocks g t)\<rparr>) g;
          g = updBlock t (\<lambda>s. s\<lparr>backEdges := []\<rparr>) g
      in addEdges bb (copyExit bb t g))"

definition inlineExit :: "nat \<Rightarrow> nat \<Rightarrow> cfg \<Rightarrow> cfg" where
  "inlineExit bb t g = addEdges bb (eraseEdge bb t (copyExit bb t g))"

text \<open>Shortcuts over an empty block.\<close>

definition shortcutThen :: "nat \<Rightarrow> nat \<Rightarrow> nat \<Rightarrow> cfg \<Rightarrow> cfg" where
  "shortcutThen bb t e g =
     (let target = thenb (bexit (blocks g t));
          g = updBlock bb (\<lambda>s. s\<lparr>bexit := (bexit s)\<lparr>thenb := target\<rparr>\<rparr>) g;
          g = eraseEdge bb t (addEdge bb target g)
      in if t = e then updBlock bb (\<lambda>s. s\<lparr>bexit := (bexit s)\<lparr>elseb := target\<rparr>\<rparr>) g else g)"

definition shortcutElse :: "nat \<Rightarrow> nat \<Rightarrow> nat \<Rightarrow> cfg \<Rightarrow> cfg" where
  "shortcutElse bb t e g =
     (let target = elseb (bexit (blocks g e));
          g = updBlock bb (\<lambda>s. s\<lparr>bexit := (bexit s)\<lparr>elseb := target\<rparr>\<rparr>) g;
          g = eraseEdge bb e (addEdge bb target g)
      in if t = e then updBlock bb (\<lambda>s. s\<lparr>bexit := (bexit s)\<lparr>thenb := target\<rparr>\<rparr>) g else g)"

section \<open>The pass\<close>

definition eraseBlock :: "nat \<Rightarrow> cfg \<Rightarrow> cfg" where
  "eraseBlock bb g =
     (let t = thenb (bexit (blocks g bb)); e = elseb (bexit (blocks g bb));
          g = eraseEdge bb t g; g = (if e \<noteq> t then eraseEdge bb e g else g)
      in g\<lparr>basicBlocks := filter (\<lambda>b. b \<noteq> bb) (basicBlocks g), forwardsTopoSort := filter (\<lambda>b. b \<noteq> bb) (forwardsTopoSort g)\<rparr>)"

definition dedupeEdges :: "nat \<Rightarrow> cfg \<Rightarrow> cfg" where
  "dedupeEdges bb g = updBlock bb (\<lambda>s. s\<lparr>backEdges := remdups_adj (sort (backEdges s))\<rparr>) g"

definition dropCondition :: "nat \<Rightarrow> cfg \<Rightarrow> cfg" where
  "dropCondition bb g = updBlock bb (\<lambda>s. s\<lparr>bexit := (bexit s)\<lparr>cond :=
     assignOccurrence (cond (bexit s)) \<lparr>lo_variable = LocalRef_unconditional, lo_loc = exit_loc (bexit s)\<rparr>\<rparr>\<rparr>) g"

text \<open>The body of the inner loop; the flag says whether the block is examined again.\<close>

definition simplifyBlock :: "nat \<Rightarrow> cfg \<Rightarrow> cfg \<times> bool" where
  "simplifyBlock bb g =
     (let t = thenb (bexit (blocks g bb)); e = elseb (bexit (blocks g bb)) in
      if bb \<noteq> deadBlock g \<and> bb \<noteq> entry g \<and> backEdges (blocks g bb) = [] then (eraseBlock bb g, True)
      else
        let g = dedupeEdges bb g; g = (if t = e then dropCondition bb g else g);
            joins = (t = e \<and> t \<noteq> deadBlock g \<and> t \<noteq> bb \<and> outerLoops (blocks g t) = outerLoops (blocks g bb))
        in if joins \<and> length (backEdges (blocks g t)) = 1 then (squish bb t g, True)
           else if joins \<and> us_variable (cond (bexit (blocks g t))) \<noteq> LocalRef_blockCall \<and> exprs (blocks g t) = []
             then (inlineExit bb t g, True)
           else if t \<noteq> deadBlock g \<and> exprs (blocks g t) = [] \<and> isUnconditional (bexit (blocks g t))
               \<and> thenb (bexit (blocks g bb)) \<noteq> thenb (bexit (blocks g t))
             then (shortcutThen bb t e g, True)
           else if e \<noteq> deadBlock g \<and> exprs (blocks g e) = [] \<and> isUnconditional (bexit (blocks g e))
               \<and> elseb (bexit (blocks g bb)) \<noteq> elseb (bexit (blocks g e))
             then (shortcutElse bb t e g, True)
           else (g, False))"

definition simplifyStep :: "cfg \<times> nat \<times> bool \<Rightarrow> cfg \<times> nat \<times> bool" where
  "simplifyStep = (\<lambda>(g, i, changed).
     if i < length (basicBlocks g)
     then let (g, again) = simplifyBlock (basicBlocks g ! i) g in if again then (g, i, True) else (g, Suc i, changed)
     else (g, 0, False))"

definition simplify :: "cfg \<Rightarrow> cfg option" where
  "simplify g = map_option fst (while_option (\<lambda>(g, i, changed). i < length (basicBlocks g) \<or> changed) simplifyStep (g, 0, False))"

definition markLoopHeaders :: "cfg \<Rightarrow> cfg" where
  "markLoopHeaders g = fold (\<lambda>bb g. fold (\<lambda>parent g. if outerLoops (blocks g parent) < outerLoops (blocks g bb)
       then updBlock bb (\<lambda>s. s\<lparr>isLoopHeader := True\<rparr>) g else g) (backEdges (blocks g bb)) g) (basicBlocks g) g"

section \<open>Executions\<close>

text \<open>A deterministic execution: \<open>decide\<close> chooses the branch from the value of the condition and the world.
  \<open>execution g b s s'\<close>: from block \<open>b\<close> in state \<open>s\<close>, the dead block is reached in state \<open>s'\<close>.\<close>

definition nextState :: "('v, 'w) meaning \<Rightarrow> ('v \<Rightarrow> 'w \<Rightarrow> bool) \<Rightarrow> cfg \<Rightarrow> nat \<times> 'v store \<times> 'w \<Rightarrow> nat \<times> 'v store \<times> 'w" where
  "nextState sem decide g = (\<lambda>(b, s). let (st, w) = runBlock sem (blocks g b) s; ex = bexit (blocks g b) in
     (if decide (st (us_variable (cond ex))) w then thenb ex else elseb ex, st, w))"

inductive execution :: "('v, 'w) meaning \<Rightarrow> ('v \<Rightarrow> 'w \<Rightarrow> bool) \<Rightarrow> cfg \<Rightarrow> nat \<times> 'v store \<times> 'w \<Rightarrow> 'v store \<times> 'w \<Rightarrow> bool"
  for sem decide g where
  execution_dead: "execution sem decide g (deadBlock g, s) s"
| execution_step: "b \<noteq> deadBlock g \<Longrightarrow> execution sem decide g (nextState sem decide g (b, s)) s' \<Longrightarrow> execution sem decide g (b, s) s'"

inductive_cases execution_cases: "execution sem decide g (b, s) s'"

lemma execution_iff: "b \<noteq> deadBlock g \<Longrightarrow> execution sem decide g (b, s) s' \<longleftrightarrow> execution sem decide g (nextState sem decide g (b, s)) s'"
  by (auto intro: execution_step elim: execution_cases)

lemma execution_steps: "execution sem decide g x s' \<Longrightarrow>
    \<exists>n. ((nextState sem decide g ^^ n) x) = (deadBlock g, s') \<and> (\<forall>k<n. fst ((nextState sem decide g ^^ k) x) \<noteq> deadBlock g)"
proof (induction rule: execution.induct)
  case (execution_dead s)
  show ?case by (rule exI [of _ 0]) simp
next
  case (execution_step b s s')
  then obtain n where "(nextState sem decide g ^^ n) (nextState sem decide g (b, s)) = (deadBlock g, s')"
    "\<forall>k<n. fst ((nextState sem decide g ^^ k) (nextState sem decide g (b, s))) \<noteq> deadBlock g" by blast
  then show ?case using execution_step.hyps(1)
    by (intro exI [of _ "Suc n"]) (auto simp: funpow_swap1 less_Suc_eq_0_disj)
qed

text \<open>A graph that takes two steps of another at once has the same executions.\<close>

lemma execution_shortcut:
  assumes dead: "deadBlock g' = deadBlock g"
    and step: "\<And>b s. b \<noteq> deadBlock g \<Longrightarrow> nextState sem decide g' (b, s) = nextState sem decide g (b, s)
      \<or> (fst (nextState sem decide g (b, s)) \<noteq> deadBlock g
           \<and> nextState sem decide g' (b, s) = nextState sem decide g (nextState sem decide g (b, s)))"
  shows "execution sem decide g' x s' \<longleftrightarrow> execution sem decide g x s'"
proof
  show "execution sem decide g' x s' \<Longrightarrow> execution sem decide g x s'"
  proof (induction rule: execution.induct)
    case (execution_step b s s')
    then have b: "b \<noteq> deadBlock g" by (simp add: dead)
    obtain c t where c: "nextState sem decide g (b, s) = (c, t)" by (cases "nextState sem decide g (b, s)")
    show ?case using step [OF b, of s] execution_step.IH b c by (auto simp: execution_iff)
  qed (simp add: dead execution.execution_dead)
next
  assume "execution sem decide g x s'"
  then obtain n where "(nextState sem decide g ^^ n) x = (deadBlock g, s')" "\<forall>k<n. fst ((nextState sem decide g ^^ k) x) \<noteq> deadBlock g"
    using execution_steps by blast
  then show "execution sem decide g' x s'"
  proof (induction n arbitrary: x rule: less_induct)
    case (less n)
    let ?f = "nextState sem decide g"
    show ?case
    proof (cases n)
      case 0
      then show ?thesis using less.prems(1) execution.execution_dead [of sem decide g'] by (simp add: dead)
    next
      case (Suc m)
      obtain b s where x: "x = (b, s)" by (cases x)
      have b: "b \<noteq> deadBlock g" using less.prems(2) Suc x by force
      have m: "(?f ^^ m) (?f x) = (deadBlock g, s')" "\<forall>k<m. fst ((?f ^^ k) (?f x)) \<noteq> deadBlock g"
        using less.prems Suc by (auto simp: funpow_swap1 dest: spec [of _ "Suc _"])
      have one: "execution sem decide g' (?f x) s'" using less.IH [OF _ m] Suc by simp
      have two: "execution sem decide g' (?f (?f x)) s'" if "fst (?f x) \<noteq> deadBlock g"
      proof (cases m)
        case 0
        then show ?thesis using m(1) that by simp
      next
        case (Suc k)
        have "(?f ^^ k) (?f (?f x)) = (deadBlock g, s')" "\<forall>j<k. fst ((?f ^^ j) (?f (?f x))) \<noteq> deadBlock g"
          using m Suc by (auto simp: funpow_swap1 dest: spec [of _ "Suc _"])
        then show ?thesis using less.IH [of k] \<open>n = Suc m\<close> Suc by simp
      qed
      from step [OF b, of s] one two have "execution sem decide g' (nextState sem decide g' (b, s)) s'" by (auto simp: x)
      then show ?thesis unfolding x by (rule execution.execution_step [rotated]) (simp add: b dead)
    qed
  qed
qed

section \<open>The graphs that the pass works on\<close>

text \<open>Nothing jumps to the entry, the dead block jumps to itself, and no loop consists of empty blocks only: along
  the jumps of empty blocks a rank decreases.\<close>

definition simple_ok :: "(nat \<Rightarrow> nat) \<Rightarrow> cfg \<Rightarrow> bool" where
  "simple_ok rank g \<longleftrightarrow> sanityCheck g \<and> distinct (basicBlocks g) \<and> 1 < length (basicBlocks g) \<and> successors g (deadBlock g) = {deadBlock g}
     \<and> (\<forall>b\<in>set (basicBlocks g). successors g b \<subseteq> set (basicBlocks g) - {entry g} \<and> set (backEdges (blocks g b)) \<subseteq> set (basicBlocks g))
     \<and> (\<forall>b\<in>set (basicBlocks g). b \<noteq> deadBlock g \<and> exprs (blocks g b) = [] \<longrightarrow> (\<forall>c\<in>successors g b. rank c < rank b))"

text \<open>A step that changes the code and the exit of one block, and with it the edges from it.\<close>

definition retargets :: "nat \<Rightarrow> cfg \<Rightarrow> cfg \<Rightarrow> bool" where
  "retargets bb g g' \<longleftrightarrow> basicBlocks g' = basicBlocks g
     \<and> (\<forall>b. wasJumpDestination (blocks g' b) = wasJumpDestination (blocks g b))
     \<and> (\<forall>b. b \<noteq> bb \<longrightarrow> exprs (blocks g' b) = exprs (blocks g b) \<and> bexit (blocks g' b) = bexit (blocks g b))
     \<and> (\<forall>b\<in>set (basicBlocks g). set (backEdges (blocks g' b)) = (set (backEdges (blocks g b)) - {bb}) \<union> (if b \<in> successors g' bb then {bb} else {}))"

lemma retargets_same:
  assumes "retargets bb g g'"
  shows "basicBlocks g' = basicBlocks g" "entry g' = entry g" "deadBlock g' = deadBlock g" "b \<noteq> bb \<Longrightarrow> successors g' b = successors g b"
  using assms by (auto simp: retargets_def entry_def deadBlock_def successors_def)

lemma retarget_ok:
  assumes ok: "simple_ok rank g" and bb: "bb \<in> set (basicBlocks g)" "bb \<noteq> deadBlock g" and r: "retargets bb g g'"
    and succ: "successors g' bb \<subseteq> set (basicBlocks g) - {entry g}"
    and rank: "exprs (blocks g' bb) = [] \<longrightarrow> (\<forall>c\<in>successors g' bb. rank c < rank bb)"
  shows "simple_ok rank g'"
proof -
  note same = retargets_same [OF r]
  have sane: "sanityCheck g" using ok by (simp add: simple_ok_def)
  have edges: "set (backEdges (blocks g' b)) = (set (backEdges (blocks g b)) - {bb}) \<union> (if b \<in> successors g' bb then {bb} else {})"
    if "b \<in> set (basicBlocks g)" for b using r that by (simp add: retargets_def)
  have s: "successors g' b \<subseteq> set (basicBlocks g) - {entry g}" if "b \<in> set (basicBlocks g)" for b
    using ok that succ same(4) by (cases "b = bb") (auto simp: simple_ok_def)
  have "sanityCheck g'"
    unfolding sanityCheck_iff
  proof (intro ballI conjI impI)
    fix b assume "b \<in> set (basicBlocks g')"
    then have b: "b \<in> set (basicBlocks g)" by (simp add: same)
    show "b \<in> successors g' parent" if "parent \<in> set (backEdges (blocks g' b))" for parent
      using that edges [OF b] sane_parent [OF sane b] same(4) by (cases "parent = bb") (auto split: if_splits)
    assume "b \<noteq> deadBlock g'"
    then have d: "b \<noteq> deadBlock g" by (simp add: same)
    show "b \<noteq> entry g' \<Longrightarrow> wasJumpDestination (blocks g' b)" using sane b d r by (simp add: sanityCheck_iff retargets_def same)
    show "b \<in> set (backEdges (blocks g' c))" if c: "c \<in> successors g' b" for c
    proof -
      have "c \<in> set (basicBlocks g)" using s [OF b] c by blast
      then show ?thesis using edges sane_edge [OF sane b d] same(4) c by (cases "b = bb") auto
    qed
  qed
  moreover have "set (backEdges (blocks g' b)) \<subseteq> set (basicBlocks g)" if "b \<in> set (basicBlocks g)" for b
    using edges [OF that] ok that bb(1) by (auto simp: simple_ok_def)
  moreover have "\<forall>c\<in>successors g' b. rank c < rank b" if "b \<in> set (basicBlocks g)" "b \<noteq> deadBlock g" "exprs (blocks g' b) = []" for b
    using ok that rank same(4) r by (cases "b = bb") (auto simp: simple_ok_def retargets_def)
  moreover have "successors g' (deadBlock g) = {deadBlock g}" using ok bb(2) same(4) by (simp add: simple_ok_def)
  ultimately show ?thesis using ok s by (simp add: simple_ok_def same)
qed

section \<open>Measures\<close>

definition owned_edges :: "cfg \<Rightarrow> nat" where
  "owned_edges g = length (basicBlocks g) + length (filter (\<lambda>b. backEdges (blocks g b) \<noteq> []) (basicBlocks g))"

definition jump_ranks :: "(nat \<Rightarrow> nat) \<Rightarrow> cfg \<Rightarrow> nat" where
  "jump_ranks rank g = sum_list (map (\<lambda>b. rank (thenb (bexit (blocks g b))) + rank (elseb (bexit (blocks g b)))) (basicBlocks g))"

lemma length_filter_mono: "(\<And>b. b \<in> set bs \<Longrightarrow> P b \<Longrightarrow> Q b) \<Longrightarrow> length (filter P bs) \<le> length (filter Q bs)"
  by (induction bs) (auto intro: le_SucI)

lemma length_filter_less: "(\<And>b. b \<in> set bs \<Longrightarrow> P b \<Longrightarrow> Q b) \<Longrightarrow> x \<in> set bs \<Longrightarrow> Q x \<Longrightarrow> \<not> P x \<Longrightarrow> length (filter P bs) < length (filter Q bs)"
proof (induction bs)
  case (Cons b bs)
  have le: "length (filter P bs) \<le> length (filter Q bs)" by (rule length_filter_mono) (use Cons.prems in auto)
  show ?case
  proof (cases "x = b")
    case True
    then show ?thesis using le Cons.prems by simp
  next
    case False
    then have "length (filter P bs) < length (filter Q bs)" using Cons by auto
    then show ?thesis using Cons.prems(1) [of b] by simp
  qed
qed simp

lemma retarget_edges:
  assumes r: "retargets bb g g'" and succ: "\<And>c. c \<in> successors g' bb \<Longrightarrow> backEdges (blocks g c) \<noteq> []"
  shows "owned_edges g' \<le> owned_edges g"
    "x \<in> set (basicBlocks g) \<Longrightarrow> backEdges (blocks g x) \<noteq> [] \<Longrightarrow> backEdges (blocks g' x) = [] \<Longrightarrow> owned_edges g' < owned_edges g"
proof -
  have "backEdges (blocks g b) \<noteq> []" if "b \<in> set (basicBlocks g)" "backEdges (blocks g' b) \<noteq> []" for b
  proof (cases "b \<in> successors g' bb")
    case False
    then have "set (backEdges (blocks g' b)) \<subseteq> set (backEdges (blocks g b))" using r that(1) by (auto simp: retargets_def)
    then show ?thesis using that(2) by auto
  qed (use succ in blast)
  note sub = this
  show "owned_edges g' \<le> owned_edges g"
    using length_filter_mono [of "basicBlocks g" "\<lambda>b. backEdges (blocks g' b) \<noteq> []"] sub by (simp add: owned_edges_def retargets_same [OF r])
  show "owned_edges g' < owned_edges g" if "x \<in> set (basicBlocks g)" "backEdges (blocks g x) \<noteq> []" "backEdges (blocks g' x) = []"
    using length_filter_less [of "basicBlocks g" "\<lambda>b. backEdges (blocks g' b) \<noteq> []" _ x] sub that by (simp add: owned_edges_def retargets_same [OF r])
qed

lemma retarget_ranks:
  assumes r: "retargets bb g g'" and d: "distinct (basicBlocks g)" "bb \<in> set (basicBlocks g)"
    and less: "rank (thenb (bexit (blocks g' bb))) + rank (elseb (bexit (blocks g' bb))) < rank (thenb (bexit (blocks g bb))) + rank (elseb (bexit (blocks g bb)))"
  shows "jump_ranks rank g' < jump_ranks rank g"
proof -
  obtain pre post where parts: "basicBlocks g = pre @ bb # post" using d(2) by (auto dest: split_list)
  have "bexit (blocks g' b) = bexit (blocks g b)" if "b \<in> set pre \<union> set post" for b
    using r that d(1) parts by (auto simp: retargets_def)
  then have "map (\<lambda>b. rank (thenb (bexit (blocks g' b))) + rank (elseb (bexit (blocks g' b)))) pre =
       map (\<lambda>b. rank (thenb (bexit (blocks g b))) + rank (elseb (bexit (blocks g b)))) pre"
    "map (\<lambda>b. rank (thenb (bexit (blocks g' b))) + rank (elseb (bexit (blocks g' b)))) post =
       map (\<lambda>b. rank (thenb (bexit (blocks g b))) + rank (elseb (bexit (blocks g b)))) post" by simp_all
  then show ?thesis using less by (simp add: jump_ranks_def retargets_same [OF r] parts del: map_eq_conv)
qed

section \<open>The rewrites\<close>

lemma addEdges_parts:
  "basicBlocks (addEdges bb g) = basicBlocks g" "localVariables (addEdges bb g) = localVariables g"
  "exprs (blocks (addEdges bb g) b) = exprs (blocks g b)" "bexit (blocks (addEdges bb g) b) = bexit (blocks g b)"
  "wasJumpDestination (blocks (addEdges bb g) b) = wasJumpDestination (blocks g b)"
  "set (backEdges (blocks (addEdges bb g) b)) = set (backEdges (blocks g b)) \<union> (if b \<in> successors g bb then {bb} else {})"
  by (auto simp: addEdges_def addEdge_def Let_def successors_def)

lemma eraseEdge_parts:
  "basicBlocks (eraseEdge bb t g) = basicBlocks g" "localVariables (eraseEdge bb t g) = localVariables g"
  "exprs (blocks (eraseEdge bb t g) b) = exprs (blocks g b)" "bexit (blocks (eraseEdge bb t g) b) = bexit (blocks g b)"
  "wasJumpDestination (blocks (eraseEdge bb t g) b) = wasJumpDestination (blocks g b)"
  "set (backEdges (blocks (eraseEdge bb t g) b)) = set (backEdges (blocks g b)) - (if b = t then {bb} else {})"
  by (auto simp: eraseEdge_def)

lemma copyExit_parts:
  "basicBlocks (copyExit bb t g) = basicBlocks g" "localVariables (copyExit bb t g) = localVariables g"
  "exprs (blocks (copyExit bb t g) b) = exprs (blocks g b)" "b \<noteq> bb \<Longrightarrow> bexit (blocks (copyExit bb t g) b) = bexit (blocks g b)"
  "thenb (bexit (blocks (copyExit bb t g) bb)) = thenb (bexit (blocks g t))"
  "elseb (bexit (blocks (copyExit bb t g) bb)) = elseb (bexit (blocks g t))"
  "us_variable (cond (bexit (blocks (copyExit bb t g) bb))) = us_variable (cond (bexit (blocks g t)))"
  "wasJumpDestination (blocks (copyExit bb t g) b) = wasJumpDestination (blocks g b)"
  "backEdges (blocks (copyExit bb t g) b) = backEdges (blocks g b)"
  by (auto simp: copyExit_def Let_def)

text \<open>\<open>g'\<close> runs the block \<open>t\<close> as part of the block \<open>bb\<close>, which jumps to it.\<close>

definition joined :: "nat \<Rightarrow> nat \<Rightarrow> cfg \<Rightarrow> cfg \<Rightarrow> bool" where
  "joined bb t g g' \<longleftrightarrow> retargets bb g g' \<and> exprs (blocks g' bb) = exprs (blocks g bb) @ exprs (blocks g t)
     \<and> thenb (bexit (blocks g' bb)) = thenb (bexit (blocks g t)) \<and> elseb (bexit (blocks g' bb)) = elseb (bexit (blocks g t))
     \<and> us_variable (cond (bexit (blocks g' bb))) = us_variable (cond (bexit (blocks g t)))"

lemma only_edge:
  assumes "simple_ok rank g" "b \<in> set (basicBlocks g)" "bb \<in> set (backEdges (blocks g b))"
  shows "b \<in> successors g bb"
  using assms sane_parent by (auto simp: simple_ok_def)

lemma squish_joined:
  assumes ok: "simple_ok rank g" and bb: "bb \<in> set (basicBlocks g)" "bb \<noteq> deadBlock g"
    and jump: "successors g bb = {t}" "t \<noteq> bb" "length (backEdges (blocks g t)) = 1"
  shows "joined bb t g (squish bb t g)"
proof -
  have "bb \<in> set (backEdges (blocks g t))" using sane_edge ok bb jump(1) by (auto simp: simple_ok_def)
  then have t: "backEdges (blocks g t) = [bb]" using jump(3) by (cases "backEdges (blocks g t)") auto
  have other: "bb \<notin> set (backEdges (blocks g b))" if "b \<in> set (basicBlocks g)" "b \<noteq> t" for b using only_edge [OF ok that(1)] that(2) jump(1) by auto
  have succ: "successors (squish bb t g) bb = successors g t"
    using jump(2) by (simp add: squish_def Let_def successors_def addEdges_parts copyExit_parts)
  have "set (backEdges (blocks (squish bb t g) b)) = (set (backEdges (blocks g b)) - {bb}) \<union> (if b \<in> successors g t then {bb} else {})"
    if "b \<in> set (basicBlocks g)" for b
    using other [OF that] t jump(2) by (cases "b = t") (auto simp: squish_def Let_def successors_def addEdges_parts copyExit_parts)
  then show ?thesis using jump(2) unfolding joined_def retargets_def succ
    by (auto simp: squish_def Let_def addEdges_parts copyExit_parts)
qed

lemma inlineExit_joined:
  assumes ok: "simple_ok rank g" and bb: "bb \<in> set (basicBlocks g)" and jump: "successors g bb = {t}" "t \<noteq> bb" "exprs (blocks g t) = []"
  shows "joined bb t g (inlineExit bb t g)"
proof -
  have other: "bb \<notin> set (backEdges (blocks g b))" if "b \<in> set (basicBlocks g)" "b \<noteq> t" for b using only_edge [OF ok that(1)] that(2) jump(1) by auto
  have succ: "successors (inlineExit bb t g) bb = successors g t"
    using jump(2) by (simp add: inlineExit_def successors_def addEdges_parts copyExit_parts eraseEdge_parts)
  have "set (backEdges (blocks (inlineExit bb t g) b)) = (set (backEdges (blocks g b)) - {bb}) \<union> (if b \<in> successors g t then {bb} else {})"
    if "b \<in> set (basicBlocks g)" for b
    using other [OF that] jump(2) by (cases "b = t") (auto simp: inlineExit_def successors_def addEdges_parts copyExit_parts eraseEdge_parts)
  then show ?thesis using jump(2,3) unfolding joined_def retargets_def succ
    by (auto simp: inlineExit_def addEdges_parts copyExit_parts eraseEdge_parts)
qed

lemma joined_execution:
  assumes j: "joined bb t g g'" and jump: "successors g bb = {t}" "t \<noteq> deadBlock g" "bb \<noteq> deadBlock g"
  shows "execution sem decide g' x s' \<longleftrightarrow> execution sem decide g x s'"
proof (rule execution_shortcut)
  have r: "retargets bb g g'" using j by (simp add: joined_def)
  show "deadBlock g' = deadBlock g" by (rule retargets_same [OF r])
  fix b s
  have next_t: "nextState sem decide g (bb, s) = (t, runBlock sem (blocks g bb) s)"
    using jump(1) by (auto simp: nextState_def Let_def successors_def case_prod_unfold)
  show "nextState sem decide g' (b, s) = nextState sem decide g (b, s) \<or>
     (fst (nextState sem decide g (b, s)) \<noteq> deadBlock g \<and> nextState sem decide g' (b, s) = nextState sem decide g (nextState sem decide g (b, s)))"
  proof (cases "b = bb")
    case True
    have "nextState sem decide g' (bb, s) = nextState sem decide g (t, runBlock sem (blocks g bb) s)"
      using j by (simp add: joined_def nextState_def runBlock_def Let_def case_prod_unfold)
    then show ?thesis using True next_t jump(2) by simp
  next
    case False
    then show ?thesis using r by (simp add: retargets_def nextState_def runBlock_def)
  qed
qed

lemma joined_ok:
  assumes ok: "simple_ok rank g" and bb: "bb \<in> set (basicBlocks g)" "bb \<noteq> deadBlock g"
    and j: "joined bb t g g'" and jump: "successors g bb = {t}" "t \<noteq> deadBlock g"
  shows "simple_ok rank g'" "owned_edges g' \<le> owned_edges g" "exprs (blocks g t) = [] \<Longrightarrow> jump_ranks rank g' < jump_ranks rank g"
    "t \<notin> successors g t \<Longrightarrow> set (backEdges (blocks g t)) \<subseteq> {bb} \<Longrightarrow> owned_edges g' < owned_edges g"
proof -
  have r: "retargets bb g g'" and succ: "successors g' bb = successors g t" using j by (auto simp: joined_def successors_def)
  have t: "t \<in> set (basicBlocks g)" using ok bb(1) jump(1) by (auto simp: simple_ok_def)
  have sane: "sanityCheck g" using ok by (simp add: simple_ok_def)
  have "exprs (blocks g' bb) = [] \<longrightarrow> (\<forall>c\<in>successors g' bb. rank c < rank bb)"
  proof (intro impI ballI)
    fix c assume "exprs (blocks g' bb) = []" "c \<in> successors g' bb"
    then have "rank c < rank t" "rank t < rank bb" using ok j bb t jump succ by (auto simp: simple_ok_def joined_def)
    then show "rank c < rank bb" by simp
  qed
  then show "simple_ok rank g'" using retarget_ok [OF ok bb r] succ ok t by (auto simp: simple_ok_def)
  have ne: "backEdges (blocks g c) \<noteq> []" if "c \<in> successors g' bb" for c
    using sane_edge [OF sane t jump(2), of c] that succ by force
  show "owned_edges g' \<le> owned_edges g" by (rule retarget_edges(1) [OF r ne])
  show "owned_edges g' < owned_edges g" if "t \<notin> successors g t" "set (backEdges (blocks g t)) \<subseteq> {bb}"
  proof (rule retarget_edges(2) [OF r ne t])
    show "backEdges (blocks g t) \<noteq> []" using sane_edge [OF sane bb, of t] jump(1) by force
    show "backEdges (blocks g' t) = []" using r t that succ by (simp add: retargets_def Diff_eq_empty_iff flip: set_empty)
  qed
  show "jump_ranks rank g' < jump_ranks rank g" if "exprs (blocks g t) = []"
  proof (rule retarget_ranks [OF r _ bb(1)])
    have "rank c < rank t" if "c \<in> successors g t" for c using ok t jump(2) that \<open>exprs (blocks g t) = []\<close> by (simp add: simple_ok_def)
    then show "rank (thenb (bexit (blocks g' bb))) + rank (elseb (bexit (blocks g' bb))) < rank (thenb (bexit (blocks g bb))) + rank (elseb (bexit (blocks g bb)))"
      using j jump(1) by (auto simp: joined_def successors_def add_less_mono)
    show "distinct (basicBlocks g)" using ok by (simp add: simple_ok_def)
  qed
qed

text \<open>\<open>g'\<close> jumps from \<open>bb\<close> to \<open>x\<close> where \<open>g\<close> jumps to the empty block \<open>t\<close> and from there to \<open>x\<close>.\<close>

definition bypassed :: "nat \<Rightarrow> nat \<Rightarrow> nat \<Rightarrow> cfg \<Rightarrow> cfg \<Rightarrow> bool" where
  "bypassed bb t x g g' \<longleftrightarrow> retargets bb g g' \<and> exprs (blocks g' bb) = exprs (blocks g bb) \<and> cond (bexit (blocks g' bb)) = cond (bexit (blocks g bb))
     \<and> thenb (bexit (blocks g' bb)) = (if thenb (bexit (blocks g bb)) = t then x else thenb (bexit (blocks g bb)))
     \<and> elseb (bexit (blocks g' bb)) = (if elseb (bexit (blocks g bb)) = t then x else elseb (bexit (blocks g bb)))"

lemma bypassed_edges:
  assumes ok: "simple_ok rank g" and bb: "bb \<in> set (basicBlocks g)" "bb \<noteq> deadBlock g" and t: "t \<in> successors g bb" "x \<noteq> t"
    and succ: "successors g' bb = insert x (successors g bb - {t})"
    and edges: "set (backEdges (blocks g' b)) = (set (backEdges (blocks g b)) \<union> (if b = x then {bb} else {})) - (if b = t then {bb} else {})"
    and b: "b \<in> set (basicBlocks g)"
  shows "set (backEdges (blocks g' b)) = (set (backEdges (blocks g b)) - {bb}) \<union> (if b \<in> successors g' bb then {bb} else {})"
proof -
  have "bb \<in> set (backEdges (blocks g b))" if "b \<in> successors g bb" using sane_edge ok bb that by (auto simp: simple_ok_def)
  moreover have "bb \<notin> set (backEdges (blocks g b))" if "b \<notin> successors g bb" using only_edge [OF ok b] that by auto
  ultimately show ?thesis unfolding edges succ using t by auto
qed

lemma shortcutThen_bypassed:
  assumes ok: "simple_ok rank g" and bb: "bb \<in> set (basicBlocks g)" "bb \<noteq> deadBlock g"
    and jump: "t = thenb (bexit (blocks g bb))" "e = elseb (bexit (blocks g bb))" "x = thenb (bexit (blocks g t))" "x \<noteq> t" "t \<noteq> bb"
  shows "bypassed bb t x g (shortcutThen bb t e g)"
proof -
  let ?g = "shortcutThen bb t e g"
  have code: "basicBlocks ?g = basicBlocks g" "\<And>b. wasJumpDestination (blocks ?g b) = wasJumpDestination (blocks g b)"
    "\<And>b. exprs (blocks ?g b) = exprs (blocks g b)" "\<And>b. b \<noteq> bb \<Longrightarrow> bexit (blocks ?g b) = bexit (blocks g b)"
    "cond (bexit (blocks ?g bb)) = cond (bexit (blocks g bb))"
    "thenb (bexit (blocks ?g bb)) = x" "elseb (bexit (blocks ?g bb)) = (if e = t then x else e)"
    using jump(4,5) by (auto simp: shortcutThen_def Let_def addEdge_def eraseEdge_def simp flip: jump(1-3)) (use jump(2) in simp)
  have "set (backEdges (blocks ?g b)) = (set (backEdges (blocks g b)) \<union> (if b = x then {bb} else {})) - (if b = t then {bb} else {})" for b
    using jump(4,5) by (auto simp: shortcutThen_def Let_def addEdge_def eraseEdge_def simp flip: jump(1-3))
  moreover have "successors ?g bb = insert x (successors g bb - {t})" using code(6,7) jump(1,2) by (auto simp: successors_def)
  moreover have "t \<in> successors g bb" using jump(1) by (simp add: successors_def)
  ultimately have "\<forall>b\<in>set (basicBlocks g). set (backEdges (blocks ?g b)) = (set (backEdges (blocks g b)) - {bb}) \<union> (if b \<in> successors ?g bb then {bb} else {})"
    by (intro ballI bypassed_edges [OF ok bb _ jump(4)])
  then show ?thesis using code jump(1,2) by (auto simp: bypassed_def retargets_def)
qed

lemma shortcutElse_bypassed:
  assumes ok: "simple_ok rank g" and bb: "bb \<in> set (basicBlocks g)" "bb \<noteq> deadBlock g"
    and jump: "t = thenb (bexit (blocks g bb))" "e = elseb (bexit (blocks g bb))" "x = elseb (bexit (blocks g e))" "x \<noteq> e" "e \<noteq> bb"
  shows "bypassed bb e x g (shortcutElse bb t e g)"
proof -
  let ?g = "shortcutElse bb t e g"
  have code: "basicBlocks ?g = basicBlocks g" "\<And>b. wasJumpDestination (blocks ?g b) = wasJumpDestination (blocks g b)"
    "\<And>b. exprs (blocks ?g b) = exprs (blocks g b)" "\<And>b. b \<noteq> bb \<Longrightarrow> bexit (blocks ?g b) = bexit (blocks g b)"
    "cond (bexit (blocks ?g bb)) = cond (bexit (blocks g bb))"
    "elseb (bexit (blocks ?g bb)) = x" "thenb (bexit (blocks ?g bb)) = (if t = e then x else t)"
    using jump(4,5) by (auto simp: shortcutElse_def Let_def addEdge_def eraseEdge_def simp flip: jump(1-3)) (use jump(1) in simp)
  have "set (backEdges (blocks ?g b)) = (set (backEdges (blocks g b)) \<union> (if b = x then {bb} else {})) - (if b = e then {bb} else {})" for b
    using jump(4,5) by (auto simp: shortcutElse_def Let_def addEdge_def eraseEdge_def simp flip: jump(1-3))
  moreover have "successors ?g bb = insert x (successors g bb - {e})" using code(6,7) jump(1,2) by (auto simp: successors_def)
  moreover have "e \<in> successors g bb" using jump(2) by (simp add: successors_def)
  ultimately have "\<forall>b\<in>set (basicBlocks g). set (backEdges (blocks ?g b)) = (set (backEdges (blocks g b)) - {bb}) \<union> (if b \<in> successors ?g bb then {bb} else {})"
    by (intro ballI bypassed_edges [OF ok bb _ jump(4)])
  then show ?thesis using code jump(1,2) by (auto simp: bypassed_def retargets_def)
qed

lemma bypassed_execution:
  assumes j: "bypassed bb t x g g'" and t: "successors g t = {x}" "exprs (blocks g t) = []" "t \<noteq> deadBlock g"
  shows "execution sem decide g' y s' \<longleftrightarrow> execution sem decide g y s'"
proof (rule execution_shortcut)
  have r: "retargets bb g g'" using j by (simp add: bypassed_def)
  show "deadBlock g' = deadBlock g" by (rule retargets_same [OF r])
  fix b s
  have skip: "nextState sem decide g (t, s1) = (x, s1)" for s1
    using t(1,2) by (auto simp: nextState_def Let_def successors_def runBlock_def case_prod_unfold)
  show "nextState sem decide g' (b, s) = nextState sem decide g (b, s) \<or>
     (fst (nextState sem decide g (b, s)) \<noteq> deadBlock g \<and> nextState sem decide g' (b, s) = nextState sem decide g (nextState sem decide g (b, s)))"
  proof (cases "b = bb")
    case True
    obtain c s1 where c: "nextState sem decide g (bb, s) = (c, s1)" by (cases "nextState sem decide g (bb, s)")
    have "nextState sem decide g' (bb, s) = (if c = t then x else c, s1)"
      using j c by (auto simp: bypassed_def nextState_def runBlock_def Let_def case_prod_unfold split: if_splits)
    then show ?thesis using True c skip t(3) by (cases "c = t") auto
  next
    case False
    then show ?thesis using r by (simp add: retargets_def nextState_def runBlock_def)
  qed
qed

lemma bypassed_ok:
  assumes ok: "simple_ok rank g" and bb: "bb \<in> set (basicBlocks g)" "bb \<noteq> deadBlock g" and j: "bypassed bb t x g g'"
    and t: "t \<in> successors g bb" "successors g t = {x}" "exprs (blocks g t) = []" "t \<noteq> deadBlock g"
  shows "simple_ok rank g'" "owned_edges g' \<le> owned_edges g" "jump_ranks rank g' < jump_ranks rank g"
proof -
  have r: "retargets bb g g'" using j by (simp add: bypassed_def)
  have succ: "successors g' bb \<subseteq> insert x (successors g bb)" using j by (auto simp: bypassed_def successors_def)
  have town: "t \<in> set (basicBlocks g)" using ok bb(1) t(1) by (auto simp: simple_ok_def)
  have sane: "sanityCheck g" using ok by (simp add: simple_ok_def)
  have x: "x \<in> set (basicBlocks g) - {entry g}" "rank x < rank t" using ok town t(2-) by (auto simp: simple_ok_def)
  have "exprs (blocks g' bb) = [] \<longrightarrow> (\<forall>c\<in>successors g' bb. rank c < rank bb)"
  proof (intro impI ballI)
    fix c assume "exprs (blocks g' bb) = []" "c \<in> successors g' bb"
    moreover have "\<forall>c\<in>successors g bb. rank c < rank bb" if "exprs (blocks g bb) = []" using ok bb that by (simp add: simple_ok_def)
    ultimately show "rank c < rank bb" using j succ x(2) t(1) by (fastforce simp: bypassed_def)
  qed
  moreover have "successors g bb \<subseteq> set (basicBlocks g) - {entry g}" using ok bb(1) by (simp add: simple_ok_def)
  ultimately show "simple_ok rank g'" using retarget_ok [OF ok bb r] succ x(1) by blast
  show "owned_edges g' \<le> owned_edges g"
  proof (rule retarget_edges(1) [OF r])
    fix c assume "c \<in> successors g' bb"
    then have "t \<in> set (backEdges (blocks g c)) \<or> bb \<in> set (backEdges (blocks g c))"
      using succ sane_edge [OF sane town t(4)] sane_edge [OF sane bb] t(2) by blast
    then show "backEdges (blocks g c) \<noteq> []" by auto
  qed
  show "jump_ranks rank g' < jump_ranks rank g"
    by (rule retarget_ranks [OF r _ bb(1)]) (use ok j t(1) x(2) in \<open>auto simp: simple_ok_def bypassed_def successors_def\<close>)
qed

text \<open>Removing duplicate edges and the condition of a jump that does not depend on it.\<close>

definition tidied :: "cfg \<Rightarrow> cfg \<Rightarrow> bool" where
  "tidied g g' \<longleftrightarrow> basicBlocks g' = basicBlocks g \<and> (\<forall>b. exprs (blocks g' b) = exprs (blocks g b)
     \<and> thenb (bexit (blocks g' b)) = thenb (bexit (blocks g b)) \<and> elseb (bexit (blocks g' b)) = elseb (bexit (blocks g b))
     \<and> wasJumpDestination (blocks g' b) = wasJumpDestination (blocks g b) \<and> set (backEdges (blocks g' b)) = set (backEdges (blocks g b))
     \<and> (cond (bexit (blocks g' b)) = cond (bexit (blocks g b)) \<or> thenb (bexit (blocks g b)) = elseb (bexit (blocks g b))))"

lemma tidied_same:
  assumes "tidied g g'"
  shows "basicBlocks g' = basicBlocks g" "entry g' = entry g" "deadBlock g' = deadBlock g" "successors g' = successors g"
    "owned_edges g' = owned_edges g" "jump_ranks rank g' = jump_ranks rank g" "simple_ok rank g' \<longleftrightarrow> simple_ok rank g"
proof -
  show same: "basicBlocks g' = basicBlocks g" "entry g' = entry g" "deadBlock g' = deadBlock g" "successors g' = successors g"
    using assms by (auto simp: tidied_def entry_def deadBlock_def successors_def fun_eq_iff)
  have "backEdges (blocks g' b) \<noteq> [] \<longleftrightarrow> backEdges (blocks g b) \<noteq> []" for b using assms by (metis set_empty tidied_def)
  then show "owned_edges g' = owned_edges g" by (simp add: owned_edges_def same)
  show "jump_ranks rank g' = jump_ranks rank g" using assms by (simp add: jump_ranks_def tidied_def)
  show "simple_ok rank g' \<longleftrightarrow> simple_ok rank g" using assms by (simp add: simple_ok_def sanityCheck_iff same) (simp add: tidied_def)
qed

lemma tidied_execution:
  assumes "tidied g g'"
  shows "execution sem decide g' x s' \<longleftrightarrow> execution sem decide g x s'"
proof (rule execution_shortcut)
  show "deadBlock g' = deadBlock g" by (rule tidied_same [OF assms])
  fix b s
  have "nextState sem decide g' (b, s) = nextState sem decide g (b, s)"
    using assms unfolding nextState_def tidied_def runBlock_def by (auto simp: Let_def case_prod_unfold dest!: spec [of _ b])
  then show "nextState sem decide g' (b, s) = nextState sem decide g (b, s) \<or>
     (fst (nextState sem decide g (b, s)) \<noteq> deadBlock g \<and> nextState sem decide g' (b, s) = nextState sem decide g (nextState sem decide g (b, s)))" ..
qed

lemma tidy_tidied:
  "tidied g (dedupeEdges bb g)" "thenb (bexit (blocks g bb)) = elseb (bexit (blocks g bb)) \<Longrightarrow> tidied g (dropCondition bb g)"
  by (auto simp: tidied_def dedupeEdges_def dropCondition_def)

lemma tidied_trans: "tidied g g1 \<Longrightarrow> tidied g1 g2 \<Longrightarrow> tidied g g2"
  unfolding tidied_def by metis

lemma eraseBlock_parts:
  "basicBlocks (eraseBlock bb g) = filter (\<lambda>b. b \<noteq> bb) (basicBlocks g)" "exprs (blocks (eraseBlock bb g) b) = exprs (blocks g b)"
  "bexit (blocks (eraseBlock bb g) b) = bexit (blocks g b)" "wasJumpDestination (blocks (eraseBlock bb g) b) = wasJumpDestination (blocks g b)"
  "set (backEdges (blocks (eraseBlock bb g) b)) = set (backEdges (blocks g b)) - (if b \<in> successors g bb then {bb} else {})"
  "successors (eraseBlock bb g) = successors g"
  by (auto simp: eraseBlock_def Let_def eraseEdge_def successors_def fun_eq_iff)

lemma filter_first_two:
  assumes "1 < length xs" "x \<noteq> xs ! 0" "x \<noteq> xs ! 1"
  shows "1 < length (filter (\<lambda>b. b \<noteq> x) xs)" "filter (\<lambda>b. b \<noteq> x) xs ! 0 = xs ! 0" "filter (\<lambda>b. b \<noteq> x) xs ! 1 = xs ! 1"
  using assms by (cases xs; cases "tl xs"; auto)+

lemma eraseBlock_ok:
  assumes ok: "simple_ok rank g" and bb: "bb \<in> set (basicBlocks g)" "bb \<noteq> deadBlock g" "bb \<noteq> entry g" "backEdges (blocks g bb) = []"
  shows "simple_ok rank (eraseBlock bb g)" "entry (eraseBlock bb g) = entry g" "deadBlock (eraseBlock bb g) = deadBlock g"
    "owned_edges (eraseBlock bb g) < owned_edges g" "execution sem decide (eraseBlock bb g) x s' \<longleftrightarrow> execution sem decide g x s'"
proof -
  let ?g = "eraseBlock bb g"
  have two: "1 < length (basicBlocks g)" and sane: "sanityCheck g" using ok by (simp_all add: simple_ok_def)
  note first = filter_first_two [OF two, of bb]
  show same: "entry ?g = entry g" "deadBlock ?g = deadBlock g"
    using first bb(2,3) by (simp_all add: entry_def deadBlock_def eraseBlock_parts)
  have no_jump: "bb \<notin> successors g b" if "b \<in> set (basicBlocks g)" for b
  proof (cases "b = deadBlock g")
    case True
    then show ?thesis using ok bb(2) by (simp add: simple_ok_def)
  qed (use sane_edge [OF sane that] bb(4) in force)
  have "sanityCheck ?g"
    using sane unfolding sanityCheck_iff by (auto simp: eraseBlock_parts same)
  moreover have edges: "set (backEdges (blocks ?g b)) \<subseteq> set (basicBlocks g) - {bb}" if "b \<in> set (basicBlocks g)" for b
  proof -
    have "bb \<notin> set (backEdges (blocks g b)) \<or> b \<in> successors g bb" using sane_parent [OF sane that] by blast
    then show ?thesis using ok that by (auto simp: eraseBlock_parts simple_ok_def)
  qed
  moreover have succ: "successors g b \<subseteq> set (basicBlocks g) - {bb} - {entry g}" if "b \<in> set (basicBlocks g)" for b
    using ok no_jump [OF that] that by (auto simp: simple_ok_def)
  moreover have owned: "set (basicBlocks ?g) = set (basicBlocks g) - {bb}" by (auto simp: eraseBlock_parts)
  have "\<forall>b\<in>set (basicBlocks ?g). successors ?g b \<subseteq> set (basicBlocks ?g) - {entry ?g} \<and> set (backEdges (blocks ?g b)) \<subseteq> set (basicBlocks ?g)"
    unfolding owned same eraseBlock_parts(6) using edges succ by blast
  moreover have "1 < length (basicBlocks ?g)" "distinct (basicBlocks ?g)" "successors ?g (deadBlock ?g) = {deadBlock ?g}"
    using ok first(1) bb(2,3) by (simp_all add: eraseBlock_parts(1,6) same simple_ok_def) (simp_all add: entry_def deadBlock_def)
  moreover have "\<forall>b\<in>set (basicBlocks ?g). b \<noteq> deadBlock ?g \<and> exprs (blocks ?g b) = [] \<longrightarrow> (\<forall>c\<in>successors ?g b. rank c < rank b)"
    using ok unfolding owned same eraseBlock_parts(2,6) simple_ok_def by blast
  ultimately show "simple_ok rank ?g" unfolding simple_ok_def by blast
  have "length (filter (\<lambda>b. backEdges (blocks ?g b) \<noteq> []) (basicBlocks ?g)) \<le> length (filter (\<lambda>b. backEdges (blocks g b) \<noteq> []) (basicBlocks g))"
  proof -
    have "backEdges (blocks g b) \<noteq> []" if "backEdges (blocks ?g b) \<noteq> []" for b
      using that eraseBlock_parts(5) [of bb g b] by auto
    then have "length (filter (\<lambda>b. backEdges (blocks ?g b) \<noteq> []) (basicBlocks ?g)) \<le> length (filter (\<lambda>b. backEdges (blocks g b) \<noteq> []) (basicBlocks ?g))"
      by (intro length_filter_mono)
    also have "\<dots> \<le> length (filter (\<lambda>b. backEdges (blocks g b) \<noteq> []) (basicBlocks g))"
      unfolding eraseBlock_parts(1) filter_filter by (rule length_filter_mono) simp
    finally show ?thesis .
  qed
  moreover have "length (basicBlocks ?g) < length (basicBlocks g)"
    unfolding eraseBlock_parts(1) by (rule length_filter_less [of _ _ _ bb, where Q = "\<lambda>_. True", simplified]) (use bb(1) in auto)
  ultimately show "owned_edges ?g < owned_edges g" by (simp add: owned_edges_def)
  show "execution sem decide ?g x s' \<longleftrightarrow> execution sem decide g x s'"
    by (rule execution_shortcut [OF same(2)]) (simp add: nextState_def runBlock_def eraseBlock_parts)
qed

section \<open>The loop\<close>

definition better :: "(nat \<Rightarrow> nat) \<Rightarrow> cfg \<Rightarrow> cfg \<Rightarrow> bool" where
  "better rank g g' \<longleftrightarrow> owned_edges g' < owned_edges g \<or> (owned_edges g' = owned_edges g \<and> jump_ranks rank g' < jump_ranks rank g)"

definition preserves :: "('v, 'w) meaning \<Rightarrow> ('v \<Rightarrow> 'w \<Rightarrow> bool) \<Rightarrow> (nat \<Rightarrow> nat) \<Rightarrow> cfg \<Rightarrow> cfg \<Rightarrow> bool" where
  "preserves sem decide rank g g' \<longleftrightarrow> simple_ok rank g' \<and> entry g' = entry g \<and> deadBlock g' = deadBlock g
     \<and> (\<forall>x s'. execution sem decide g' x s' \<longleftrightarrow> execution sem decide g x s')"

lemma joined_preserves:
  assumes ok: "simple_ok rank g" and bb: "bb \<in> set (basicBlocks g)" "bb \<noteq> deadBlock g"
    and j: "joined bb t g g'" and jump: "successors g bb = {t}" "t \<noteq> deadBlock g"
    and progress: "exprs (blocks g t) = [] \<or> length (backEdges (blocks g t)) = 1" and t: "t \<noteq> bb"
  shows "preserves sem decide rank g g' \<and> better rank g g'"
proof -
  note facts = joined_ok [OF ok bb j jump]
  have "retargets bb g g'" using j by (simp add: joined_def)
  note same = retargets_same [OF this]
  have "better rank g g'"
  proof (cases "exprs (blocks g t) = []")
    case True
    then show ?thesis using facts(2,3) by (auto simp: better_def)
  next
    case False
    have sane: "sanityCheck g" and town: "t \<in> set (basicBlocks g)" using ok bb(1) jump(1) by (auto simp: simple_ok_def)
    have bbt: "bb \<in> set (backEdges (blocks g t))" using sane_edge [OF sane bb] jump(1) by blast
    then have edges: "backEdges (blocks g t) = [bb]" using progress False by (cases "backEdges (blocks g t)") auto
    then have "t \<notin> successors g t" using sane_edge [OF sane town jump(2), of t] t by auto
    then show ?thesis using facts(4) edges by (auto simp: better_def)
  qed
  then show ?thesis using facts(1) same joined_execution [OF j jump bb(2), where sem = sem and decide = decide] by (auto simp: preserves_def)
qed

lemma bypassed_preserves:
  assumes ok: "simple_ok rank g" and bb: "bb \<in> set (basicBlocks g)" "bb \<noteq> deadBlock g" and j: "bypassed bb t x g g'"
    and t: "t \<in> successors g bb" "successors g t = {x}" "exprs (blocks g t) = []" "t \<noteq> deadBlock g"
  shows "preserves sem decide rank g g' \<and> better rank g g'"
proof -
  have "retargets bb g g'" using j by (simp add: bypassed_def)
  note same = retargets_same [OF this]
  show ?thesis using bypassed_ok [OF ok bb j t] same bypassed_execution [OF j t(2,3,4), where sem = sem and decide = decide] by (auto simp: preserves_def better_def)
qed

lemma simplifyBlock_ok:
  assumes ok: "simple_ok rank g" and bb: "bb \<in> set (basicBlocks g)" and step: "simplifyBlock bb g = (g', again)"
  shows "preserves sem decide rank g g' \<and>
    (if again then better rank g g' else basicBlocks g' = basicBlocks g \<and> owned_edges g' = owned_edges g \<and> jump_ranks rank g' = jump_ranks rank g)"
proof (cases "bb \<noteq> deadBlock g \<and> bb \<noteq> entry g \<and> backEdges (blocks g bb) = []")
  case True
  then have "g' = eraseBlock bb g" "again" using step by (auto simp: simplifyBlock_def Let_def)
  then show ?thesis using eraseBlock_ok(1-4) [OF ok bb] eraseBlock_ok(5) [OF ok bb, where sem = sem and decide = decide] True by (simp add: preserves_def better_def)
next
  case False
  define t e where "t = thenb (bexit (blocks g bb))" and "e = elseb (bexit (blocks g bb))"
  define g1 where "g1 = (if t = e then dropCondition bb (dedupeEdges bb g) else dedupeEdges bb g)"
  have "t = e \<Longrightarrow> thenb (bexit (blocks (dedupeEdges bb g) bb)) = elseb (bexit (blocks (dedupeEdges bb g) bb))"
    by (simp add: dedupeEdges_def t_def e_def)
  then have tidy: "tidied g g1" using tidied_trans [OF tidy_tidied(1) tidy_tidied(2)] tidy_tidied(1) by (simp add: g1_def)
  note same = tidied_same [OF tidy]
  have t: "t = thenb (bexit (blocks g1 bb))" "e = elseb (bexit (blocks g1 bb))" using tidy by (simp_all add: tidied_def t_def e_def)
  have ok1: "simple_ok rank g1" and bb1: "bb \<in> set (basicBlocks g1)" using ok bb same by auto
  have alive: "bb \<noteq> deadBlock g1" if "t \<noteq> deadBlock g1 \<or> e \<noteq> deadBlock g1"
    using that ok1 t by (auto simp: simple_ok_def successors_def)
  have carry: "preserves sem decide rank g g' \<and> better rank g g'" if "preserves sem decide rank g1 g' \<and> better rank g1 g'"
    using that same tidied_execution [OF tidy, where sem = sem and decide = decide] by (simp add: preserves_def better_def)
  define joins where "joins \<longleftrightarrow> t = e \<and> t \<noteq> deadBlock g1 \<and> t \<noteq> bb \<and> outerLoops (blocks g1 t) = outerLoops (blocks g1 bb)"
  define squishes where "squishes \<longleftrightarrow> joins \<and> length (backEdges (blocks g1 t)) = 1"
  define inlines where "inlines \<longleftrightarrow> joins \<and> us_variable (cond (bexit (blocks g1 t))) \<noteq> LocalRef_blockCall \<and> exprs (blocks g1 t) = []"
  define skips where "skips b x \<longleftrightarrow> b \<noteq> deadBlock g1 \<and> exprs (blocks g1 b) = [] \<and> isUnconditional (bexit (blocks g1 b)) \<and> b \<noteq> x" for b x
  have result: "(g', again) = (if squishes then (squish bb t g1, True) else if inlines then (inlineExit bb t g1, True)
      else if skips t (thenb (bexit (blocks g1 t))) then (shortcutThen bb t e g1, True)
      else if skips e (elseb (bexit (blocks g1 e))) then (shortcutElse bb t e g1, True) else (g1, False))"
    unfolding step [symmetric] simplifyBlock_def Let_def if_not_P [OF False] t_def [symmetric] e_def [symmetric] g1_def [symmetric] t [symmetric]
      joins_def squishes_def inlines_def skips_def ..
  consider (squish) squishes | (inline) "\<not> squishes" inlines | (via_then) "\<not> squishes" "\<not> inlines" "skips t (thenb (bexit (blocks g1 t)))"
    | (via_else) "\<not> squishes" "\<not> inlines" "\<not> skips t (thenb (bexit (blocks g1 t)))" "skips e (elseb (bexit (blocks g1 e)))"
    | (none) "\<not> squishes" "\<not> inlines" "\<not> skips t (thenb (bexit (blocks g1 t)))" "\<not> skips e (elseb (bexit (blocks g1 e)))" by blast
  then show ?thesis
  proof cases
    case squish
    then have g': "g' = squish bb t g1" "again" using result by simp_all
    have c: "t = e" "t \<noteq> deadBlock g1" "t \<noteq> bb" "length (backEdges (blocks g1 t)) = 1" using squish by (auto simp: squishes_def joins_def)
    have succ: "successors g1 bb = {t}" using c(1) t by (simp add: successors_def)
    have a: "bb \<noteq> deadBlock g1" using alive c(2) by blast
    have "joined bb t g1 g'" unfolding g' by (rule squish_joined [OF ok1 bb1 a succ c(3,4)])
    then show ?thesis using joined_preserves [OF ok1 bb1 a _ succ c(2) _ c(3), where sem = sem and decide = decide] c(4) carry g'(2) by simp
  next
    case inline
    then have g': "g' = inlineExit bb t g1" "again" using result by simp_all
    have c: "t = e" "t \<noteq> deadBlock g1" "t \<noteq> bb" "exprs (blocks g1 t) = []" using inline by (auto simp: inlines_def joins_def)
    have succ: "successors g1 bb = {t}" using c(1) t by (simp add: successors_def)
    have a: "bb \<noteq> deadBlock g1" using alive c(2) by blast
    have "joined bb t g1 g'" unfolding g' by (rule inlineExit_joined [OF ok1 bb1 succ c(3,4)])
    then show ?thesis using joined_preserves [OF ok1 bb1 a _ succ c(2) _ c(3), where sem = sem and decide = decide] c(4) carry g'(2) by simp
  next
    case via_then
    let ?x = "thenb (bexit (blocks g1 t))"
    have g': "g' = shortcutThen bb t e g1" "again" using result via_then by simp_all
    have c: "t \<noteq> deadBlock g1" "exprs (blocks g1 t) = []" "isUnconditional (bexit (blocks g1 t))" "?x \<noteq> t" using via_then(3) by (auto simp: skips_def)
    have a: "bb \<noteq> deadBlock g1" "t \<noteq> bb" using alive c(1,4) t(1) by auto
    have "bypassed bb t ?x g1 g'" unfolding g' by (rule shortcutThen_bypassed [OF ok1 bb1 a(1) t refl c(4) a(2)])
    moreover have "t \<in> successors g1 bb" "successors g1 t = {?x}" using t c(3) by (auto simp: successors_def isUnconditional_def)
    ultimately show ?thesis using bypassed_preserves [OF ok1 bb1 a(1) _ _ _ c(2,1), where sem = sem and decide = decide] carry g'(2) by simp
  next
    case via_else
    let ?x = "elseb (bexit (blocks g1 e))"
    have g': "g' = shortcutElse bb t e g1" "again" using result via_else by simp_all
    have c: "e \<noteq> deadBlock g1" "exprs (blocks g1 e) = []" "isUnconditional (bexit (blocks g1 e))" "?x \<noteq> e" using via_else(4) by (auto simp: skips_def)
    have a: "bb \<noteq> deadBlock g1" "e \<noteq> bb" using alive c(1,4) t(2) by auto
    have "bypassed bb e ?x g1 g'" unfolding g' by (rule shortcutElse_bypassed [OF ok1 bb1 a(1) t refl c(4) a(2)])
    moreover have "e \<in> successors g1 bb" "successors g1 e = {?x}" using t c(3) by (auto simp: successors_def isUnconditional_def)
    ultimately show ?thesis using bypassed_preserves [OF ok1 bb1 a(1) _ _ _ c(2,1), where sem = sem and decide = decide] carry g'(2) by simp
  next
    case none
    then have "g' = g1" "\<not> again" using result by simp_all
    then show ?thesis using ok1 same tidied_execution [OF tidy, where sem = sem and decide = decide] by (simp add: preserves_def)
  qed
qed

definition simplify_order :: "(nat \<Rightarrow> nat) \<Rightarrow> cfg \<times> nat \<times> bool \<Rightarrow> nat \<times> nat \<times> nat \<times> nat" where
  "simplify_order rank = (\<lambda>(g, i, changed). (owned_edges g, jump_ranks rank g, if changed then 1 else 0, length (basicBlocks g) - i))"

definition simplify_inv :: "('v, 'w) meaning \<Rightarrow> ('v \<Rightarrow> 'w \<Rightarrow> bool) \<Rightarrow> (nat \<Rightarrow> nat) \<Rightarrow> cfg \<Rightarrow> cfg \<times> nat \<times> bool \<Rightarrow> bool" where
  "simplify_inv sem decide rank g = (\<lambda>(g', i, changed). preserves sem decide rank g g')"

lemma simplifyStep_ok:
  assumes inv: "simplify_inv sem decide rank g s" and more: "case s of (g, i, changed) \<Rightarrow> i < length (basicBlocks g) \<or> changed"
  shows "simplify_inv sem decide rank g (simplifyStep s) \<and>
    (simplify_order rank (simplifyStep s), simplify_order rank s) \<in> less_than <*lex*> less_than <*lex*> less_than <*lex*> less_than"
proof -
  obtain g1 i changed where s: "s = (g1, i, changed)" by (cases s)
  have pres: "preserves sem decide rank g g1" using inv by (simp add: simplify_inv_def s)
  show ?thesis
  proof (cases "i < length (basicBlocks g1)")
    case True
    obtain g2 again where step: "simplifyBlock (basicBlocks g1 ! i) g1 = (g2, again)" by fastforce
    have "simple_ok rank g1" using pres by (simp add: preserves_def)
    from simplifyBlock_ok [OF this nth_mem [OF True] step, where sem = sem and decide = decide]
    have ok: "preserves sem decide rank g1 g2"
      and m: "if again then better rank g1 g2 else basicBlocks g2 = basicBlocks g1 \<and> owned_edges g2 = owned_edges g1 \<and> jump_ranks rank g2 = jump_ranks rank g1"
      by blast+
    have "preserves sem decide rank g g2" using pres ok by (simp add: preserves_def)
    then show ?thesis
      using True step m by (cases again) (auto simp: s simplifyStep_def simplify_inv_def simplify_order_def better_def)
  next
    case False
    then show ?thesis using more pres by (simp add: s simplifyStep_def simplify_inv_def simplify_order_def)
  qed
qed

lemma simplify_executions:
  fixes sem :: "('v, 'w) meaning"
  assumes "simple_ok rank g"
  shows "\<exists>g'. simplify g = Some g' \<and> sanityCheck g' \<and> entry g' = entry g \<and> deadBlock g' = deadBlock g
     \<and> (\<forall>s s'. execution sem decide g' (entry g', s) s' \<longleftrightarrow> execution sem decide g (entry g, s) s')"
proof -
  let ?b = "\<lambda>(g, i, changed). i < length (basicBlocks g) \<or> changed"
  let ?P = "simplify_inv sem decide rank g" and ?lex = "less_than <*lex*> less_than <*lex*> less_than <*lex*> less_than"
  have start: "?P (g, 0, False)" using assms by (simp add: simplify_inv_def preserves_def)
  have "wf {(t, s). (?P s \<and> ?b s) \<and> t = simplifyStep s}"
    by (rule wf_subset [of "inv_image ?lex (simplify_order rank)"]) (use simplifyStep_ok [where sem = sem and decide = decide] in \<open>auto simp: wf_lex_prod\<close>)
  moreover have "?P (simplifyStep s)" if "?P s" "?b s" for s using simplifyStep_ok [OF that] by blast
  ultimately obtain t where t: "while_option ?b simplifyStep (g, 0, False) = Some t"
    using wf_while_option_Some [of ?P ?b simplifyStep] start by blast
  have "?P t" by (rule while_option_rule [where P = ?P, OF _ t start]) (use simplifyStep_ok [where sem = sem and decide = decide] in blast)
  then have "preserves sem decide rank g (fst t)" by (simp add: simplify_inv_def case_prod_unfold)
  moreover have "simplify g = Some (fst t)" by (simp add: simplify_def t)
  ultimately show ?thesis by (auto simp: preserves_def simple_ok_def)
qed

text \<open>C11: Simplifying returns, and it does not change what a method computes.  When nothing jumps to the entry and every
  loop has a block that is not empty, the loop ends; the resulting graph passes the sanity check, has the same
  entry and the same dead block, and for every meaning of the instructions and every way to decide the branches
  an execution from the entry ends in a state exactly when it did before.\<close>

theorem simplify_preserves_executions:
  fixes sem :: "('v, 'w) meaning"
  assumes "simple_ok rank g"
  shows "\<exists>g'. simplify g = Some g' \<and> sanityCheck g' \<and> entry g' = entry g \<and> deadBlock g' = deadBlock g
     \<and> (\<forall>s s'. execution sem decide g' (entry g', s) s' \<longleftrightarrow> execution sem decide g (entry g, s) s')"
  using assms by (rule simplify_executions)

text \<open>An empty block and the block after it are joined to the entry.\<close>

definition chain_graph :: cfg where
  "chain_graph = sample_graph
     [sample_block 0 [assign 5 (Literal NullType)] (jump 3 2 2) [],
      sample_block 0 [] (jump 3 1 1) [3],
      sample_block 0 [] (jump 3 3 3) [0],
      sample_block 0 [assign 4 (Return (use 5) no_loc)] (jump 3 1 1) [2]] [1, 3, 2, 0] 7"

definition counting :: "(nat, nat) meaning" where
  "counting i vs w = (w, Suc w)"

lemma chain_execution: "\<exists>st. execution counting (\<lambda>_ _. True) chain_graph (0, (\<lambda>_. 0), 0) (st, 2)"
proof -
  let ?f = "nextState counting (\<lambda>_ _. True) chain_graph" and ?x = "(0 :: nat, (\<lambda>_. 0) :: nat store, 0 :: nat)"
  have dead: "deadBlock chain_graph = 1" by code_simp
  have path: "fst ?x = 0" "fst (?f ?x) = 2" "fst (?f (?f ?x)) = 3" "fst (?f (?f (?f ?x))) = 1" "snd (snd (?f (?f (?f ?x)))) = 2" by code_simp+
  obtain st where last: "?f (?f (?f ?x)) = (1, st, 2)" using path(4,5) by (metis prod.collapse)
  have step: "execution counting (\<lambda>_ _. True) chain_graph x s'" if "fst x \<noteq> 1" "execution counting (\<lambda>_ _. True) chain_graph (?f x) s'" for x s'
    using execution_step [of "fst x" chain_graph counting "\<lambda>_ _. True" "snd x" s'] that by (simp add: dead)
  have "execution counting (\<lambda>_ _. True) chain_graph (?f (?f (?f ?x))) (st, 2)"
    unfolding last using execution_dead [of counting "\<lambda>_ _. True" chain_graph "(st, 2)"] by (simp add: dead)
  from step [OF _ step [OF _ step [OF _ this]]] path(1-3) show ?thesis by auto
qed

theorem simplify_preserves_executions_witness:
  "simple_ok (\<lambda>b. 4 - b) chain_graph \<and> map_option basicBlocks (simplify chain_graph) = Some [0, 1]
   \<and> (\<exists>g' st. simplify chain_graph = Some g' \<and> execution counting (\<lambda>_ _. True) g' (entry g', (\<lambda>_. 0), 0) (st, 2))"
proof -
  have ok: "simple_ok (\<lambda>b. 4 - b) chain_graph" by code_simp
  have "map_option basicBlocks (simplify chain_graph) = Some [0, 1]" by code_simp
  moreover have "entry chain_graph = 0" by code_simp
  ultimately show ?thesis
    using simplify_preserves_executions [OF ok, of counting "\<lambda>_ _. True"] chain_execution ok by metis
qed

section \<open>Loop headers\<close>

text \<open>A block is marked when one of its predecessors is in fewer loops.\<close>

definition loop_header :: "cfg \<Rightarrow> nat \<Rightarrow> bool" where
  "loop_header g b \<longleftrightarrow> (\<exists>parent\<in>set (backEdges (blocks g b)). outerLoops (blocks g parent) < outerLoops (blocks g b))"

abbreviation markParent :: "nat \<Rightarrow> nat \<Rightarrow> cfg \<Rightarrow> cfg" where
  "markParent b parent g \<equiv> if outerLoops (blocks g parent) < outerLoops (blocks g b) then updBlock b (\<lambda>s. s\<lparr>isLoopHeader := True\<rparr>) g else g"

lemma mark_one:
  "blocks (fold (markParent b) ps g) c =
     (if c = b \<and> (\<exists>p\<in>set ps. outerLoops (blocks g p) < outerLoops (blocks g b)) then (blocks g b)\<lparr>isLoopHeader := True\<rparr> else blocks g c)"
proof (induction ps arbitrary: g)
  case (Cons p ps)
  show ?case
  proof (cases "outerLoops (blocks g p) < outerLoops (blocks g b)")
    case True
    have "blocks (fold (markParent b) (p # ps) g) c = blocks (fold (markParent b) ps (updBlock b (\<lambda>s. s\<lparr>isLoopHeader := True\<rparr>) g)) c"
      using True by simp
    also have "\<dots> = (if c = b then (blocks g b)\<lparr>isLoopHeader := True\<rparr> else blocks g c)" unfolding Cons.IH by simp
    finally show ?thesis using True by simp
  next
    case False
    then show ?thesis using Cons.IH [of g] by simp
  qed
qed simp

lemma markLoopHeaders_marks:
  "blocks (markLoopHeaders g) c = (if c \<in> set (basicBlocks g) \<and> loop_header g c then (blocks g c)\<lparr>isLoopHeader := True\<rparr> else blocks g c)"
proof -
  have "blocks (fold (\<lambda>b g. fold (markParent b) (backEdges (blocks g b)) g) bs g) c =
      (if c \<in> set bs \<and> loop_header g c then (blocks g c)\<lparr>isLoopHeader := True\<rparr> else blocks g c)" for bs
  proof (induction bs arbitrary: g)
    case (Cons b bs)
    define g1 where "g1 = fold (markParent b) (backEdges (blocks g b)) g"
    have g1: "blocks g1 x = (if x = b \<and> loop_header g b then (blocks g b)\<lparr>isLoopHeader := True\<rparr> else blocks g x)" for x
      unfolding g1_def mark_one loop_header_def ..
    then have "backEdges (blocks g1 x) = backEdges (blocks g x)" "outerLoops (blocks g1 x) = outerLoops (blocks g x)" for x by simp_all
    then have same: "loop_header g1 x = loop_header g x" for x by (simp add: loop_header_def)
    have "blocks (fold (\<lambda>b g. fold (markParent b) (backEdges (blocks g b)) g) (b # bs) g) c =
        (if c \<in> set bs \<and> loop_header g c then (blocks g1 c)\<lparr>isLoopHeader := True\<rparr> else blocks g1 c)"
      using Cons.IH [of g1] by (simp add: g1_def [symmetric] same)
    then show ?case unfolding g1 by auto
  qed simp
  then show ?thesis unfolding markLoopHeaders_def .
qed

end
