(* ===== verification/CfgFinalize.thy ===== *)
theory CfgFinalize
  imports CfgDeadAssigns CfgSimplify
begin

text \<open>
  The passes at the end of \<open>CFGBuilder::buildFor\<close> (\<open>cfg/builder/builder_entry.cc\<close>) together: ordering the blocks,
  dealiasing, block arguments, dead assignments, simplification and loop headers.  The methods that the
  final graph executes are those of the graph that was built.
\<close>

definition cfg_finalize :: "cfg_env \<Rightarrow> cfg \<Rightarrow> cfg option" where
  "cfg_finalize env g =
     (case fillInTopoSorts g of None \<Rightarrow> None
      | Some g \<Rightarrow> (case buildFor_deadAssigns env (cfg_dealias env g) of None \<Rightarrow> None
         | Some g \<Rightarrow> (case simplify g of None \<Rightarrow> None | Some g \<Rightarrow> Some (markLoopHeaders g))))"

section \<open>What dealiasing keeps\<close>

text \<open>Dealiasing reads only variables that the graph reads before, so it keeps every property of the variables read.\<close>

definition aliases_in :: "(u32 \<Rightarrow> bool) \<Rightarrow> alias_map \<Rightarrow> bool" where
  "aliases_in P A \<longleftrightarrow> distinct (map fst A) \<and> (\<forall>(k, l)\<in>set A. P (lo_variable l))"

definition reads_in :: "(u32 \<Rightarrow> bool) \<Rightarrow> instruction \<Rightarrow> bool" where
  "reads_in P i \<longleftrightarrow> (\<forall>v\<in>set (readVars i). P v) \<and> wf_insn i"

lemma maybeDealias_in: "aliases_in P A \<Longrightarrow> P (lo_variable l) \<Longrightarrow> P (lo_variable (maybeDealias env g l A))"
  by (auto simp: aliases_in_def maybeDealias_def dest!: map_of_SomeD split: option.split)

lemma entryAliases_in: "(\<And>p. aliases_in P (out p)) \<Longrightarrow> aliases_in P (entryAliases out b preds)"
  using fold_intersect(1,2) unfolding entryAliases_def aliases_in_def by (cases preds) (auto, blast)

lemma dealiasInsn_in:
  assumes "aliases_in P A" "reads_in P i"
  shows "reads_in P (dealiasInsn env g A i)" "isPure (dealiasInsn env g A i) = isPure i"
proof -
  note b = maybeDealias_in [OF assms(1)]
  have "\<forall>v\<in>set (map lo_variable (map2 (\<lambda>r l. maybeDealias env g \<lparr>lo_variable = r, lo_loc = l\<rparr> A) rs ls)). P v"
    if "\<forall>v\<in>set rs. P v" for rs ls using that by (auto intro!: b dest: set_zip_leftD)
  then have "\<forall>v\<in>set (readVars (dealiasInsn env g A i)). P v"
    using assms(2) by (cases i) (auto simp: reads_in_def Let_def intro!: b simp del: set_map)
  moreover have "wf_insn (dealiasInsn env g A i)" using assms(2) by (cases i) (simp_all add: reads_in_def Let_def)
  ultimately show "reads_in P (dealiasInsn env g A i)" by (simp add: reads_in_def)
  show "isPure (dealiasInsn env g A i) = isPure i" by (cases i) (simp_all add: isPure_def Let_def)
qed

lemma dealiasBinding_in:
  assumes A: "aliases_in P A" and b: "reads_in P (bind_value b)" and step: "dealiasBinding env g b (A, may) = (b', A', may')"
  shows "aliases_in P A' \<and> reads_in P (bind_value b') \<and> bind b' = bind b \<and> isPure (bind_value b') = isPure (bind_value b)"
proof -
  let ?v = "us_variable (bind b)"
  define A1 where "A1 = (if uset_contains may ?v then filter (\<lambda>(k, l). lo_variable l \<noteq> ?v) A else A)"
  define v1 where "v1 = (case bind_value b of Ident what \<Rightarrow> Ident (lo_variable (maybeDealias env g (synthetic what) A)) | i \<Rightarrow> i)"
  define v2 where "v2 = (if \<not> isSynthetic b then dealiasInsn env g A1 v1 else v1)"
  have A1: "aliases_in P A1" using A by (auto simp: A1_def aliases_in_def distinct_map_filter)
  have v1: "reads_in P v1" "isPure v1 = isPure (bind_value b)"
    using b maybeDealias_in [OF A] by (cases "bind_value b"; simp add: v1_def reads_in_def isPure_def)+
  then have v2: "reads_in P v2" "isPure v2 = isPure (bind_value b)" using dealiasInsn_in [OF A1] by (auto simp: v2_def)
  have r: "(b', A', may') = (b\<lparr>bind_value := v2\<rparr>, (case v2 of
            Ident what \<Rightarrow> (AList.update ?v \<lparr>lo_variable = what, lo_loc = bind_loc b\<rparr> A1, uset_add what may)
          | i \<Rightarrow> (A1, may)))"
    unfolding step [symmetric] by (simp only: dealiasBinding_def Let_def prod.case A1_def v1_def v2_def)
  have "aliases_in P (AList.update ?v l A1)" if "P (lo_variable l)" for l
  proof -
    have "distinct (map fst A1)" using A1 by (simp add: aliases_in_def)
    then show ?thesis using A1 that set_AList_update [of A1 ?v l] by (fastforce simp: aliases_in_def distinct_update)
  qed
  then have "aliases_in P A'" using A1 v2(1) r by (cases v2) (simp_all add: reads_in_def)
  then show ?thesis using v2 r by simp
qed

lemma dealiasExprs_in:
  assumes "aliases_in P A" "\<forall>e\<in>set es. reads_in P (bind_value e)" "dealiasExprs env g es (A, may) = (es', A')"
  shows "aliases_in P A' \<and> (\<forall>e\<in>set es'. reads_in P (bind_value e))
     \<and> map (\<lambda>e. (bind e, isPure (bind_value e))) es' = map (\<lambda>e. (bind e, isPure (bind_value e))) es"
  using assms
proof (induction es arbitrary: A may es')
  case (Cons e es)
  obtain e' A1 may1 where step: "dealiasBinding env g e (A, may) = (e', A1, may1)" by (cases "dealiasBinding env g e (A, may)") auto
  obtain es1 where rest: "dealiasExprs env g es (A1, may1) = (es1, A')" "es' = e' # es1"
    using Cons.prems(3) step by (auto split: prod.splits)
  have "aliases_in P A1 \<and> reads_in P (bind_value e') \<and> bind e' = bind e \<and> isPure (bind_value e') = isPure (bind_value e)"
    using dealiasBinding_in [OF Cons.prems(1) _ step] Cons.prems(2) by simp
  then show ?case using Cons.IH [of A1 may1 es1] rest Cons.prems(2) by auto
qed auto

definition dealiased :: "cfg \<Rightarrow> cfg \<Rightarrow> bool" where
  "dealiased g g' \<longleftrightarrow> basicBlocks g' = basicBlocks g \<and> maxBasicBlockId g' = maxBasicBlockId g \<and> forwardsTopoSort g' = forwardsTopoSort g
     \<and> localVariables g' = localVariables g
     \<and> (\<forall>b. backEdges (blocks g' b) = backEdges (blocks g b) \<and> wasJumpDestination (blocks g' b) = wasJumpDestination (blocks g b)
          \<and> thenb (bexit (blocks g' b)) = thenb (bexit (blocks g b)) \<and> elseb (bexit (blocks g' b)) = elseb (bexit (blocks g b))
          \<and> map (\<lambda>e. (bind e, isPure (bind_value e))) (exprs (blocks g' b)) = map (\<lambda>e. (bind e, isPure (bind_value e))) (exprs (blocks g b)))"

text \<open>The variables that instructions may read, and the blocks that read only those.  The variable that marks an
  unconditional jump is not among them.\<close>

definition readable :: "cfg \<Rightarrow> u32 \<Rightarrow> bool" where
  "readable g v \<longleftrightarrow> v < numLocalVariables g \<and> v \<noteq> LocalRef_unconditional"

definition vars_ok :: "cfg \<Rightarrow> nat set \<Rightarrow> bool" where
  "vars_ok g B \<longleftrightarrow> (\<forall>b\<in>B. (let ex = bexit (blocks g b) in us_variable (cond ex) < numLocalVariables g
       \<and> (us_variable (cond ex) = LocalRef_unconditional \<longrightarrow> isUnconditional ex))
     \<and> (\<forall>e\<in>set (exprs (blocks g b)). reads_in (readable g) (bind_value e)))"

lemma dealiasBlock_in:
  assumes "vars_ok g B" "b \<in> B" "\<And>p. aliases_in (readable g) (out p)" "dealiasBlock env b (out, g) = (out', g')"
  shows "dealiased g g' \<and> vars_ok g' B \<and> (\<forall>p. aliases_in (readable g') (out' p))"
proof (cases "b = deadBlock g")
  case True
  then show ?thesis using assms by (simp add: dealiasBlock_def dealiased_def)
next
  case False
  let ?start = "entryAliases out b (backEdges (blocks g b))"
  obtain es current where run: "dealiasExprs env g (exprs (blocks g b)) (?start, mayHaveAlias g ?start) = (es, current)" by fastforce
  have "aliases_in (readable g) ?start" by (rule entryAliases_in) (rule assms(3))
  then have es: "aliases_in (readable g) current" "\<forall>e\<in>set es. reads_in (readable g) (bind_value e)"
    "map (\<lambda>e. (bind e, isPure (bind_value e))) es = map (\<lambda>e. (bind e, isPure (bind_value e))) (exprs (blocks g b))"
    using dealiasExprs_in [OF _ _ run] assms(1,2) by (auto simp: vars_ok_def)
  define c where "c = cond (bexit (blocks g b))"
  define c' where "c' = (if us_variable c \<noteq> LocalRef_unconditional then assignOccurrence c (maybeDealias env g (occurrence c) current) else c)"
  have "dealiasBlock env b (out, g) = (out(b := current), updBlock b (\<lambda>bb. bb\<lparr>exprs := es, bexit := (bexit bb)\<lparr>cond := c'\<rparr>\<rparr>) g)"
    unfolding dealiasBlock_def c'_def c_def using False run by (simp add: Let_def)
  then have step: "out' = out(b := current)" "g' = updBlock b (\<lambda>bb. bb\<lparr>exprs := es, bexit := (bexit bb)\<lparr>cond := c'\<rparr>\<rparr>) g"
    using assms(4) by simp_all
  have "readable g (us_variable c')" if "us_variable c \<noteq> LocalRef_unconditional"
  proof -
    have "readable g (us_variable c)" using assms(1,2) that by (auto simp: c_def vars_ok_def Let_def readable_def)
    then show ?thesis using maybeDealias_in [OF es(1), of "occurrence c"] that by (simp add: c'_def)
  qed
  then have "us_variable c' < numLocalVariables g \<and> (us_variable c' = LocalRef_unconditional \<longrightarrow> isUnconditional (bexit (blocks g b)))"
    using assms(1,2) by (cases "us_variable c = LocalRef_unconditional") (auto simp: c'_def c_def vars_ok_def Let_def readable_def)
  moreover have "readable g' = readable g" by (simp add: readable_def fun_eq_iff step)
  ultimately show ?thesis using assms(1,3) es by (auto simp: step dealiased_def vars_ok_def Let_def isUnconditional_def)
qed

lemma dealias_in:
  assumes "vars_ok g (set (forwardsTopoSort g))"
  shows "dealiased g (cfg_dealias env g) \<and> vars_ok (cfg_dealias env g) (set (forwardsTopoSort g))"
proof -
  have "dealiased g (snd (fold (dealiasBlock env) bs (out, g))) \<and> vars_ok (snd (fold (dealiasBlock env) bs (out, g))) B"
    if "vars_ok g B" "set bs \<subseteq> B" "\<And>p. aliases_in (readable g) (out p)" for bs B out g
    using that
  proof (induction bs arbitrary: g out)
    case (Cons b bs)
    obtain out1 g1 where step: "dealiasBlock env b (out, g) = (out1, g1)" by fastforce
    have "dealiased g g1 \<and> vars_ok g1 B \<and> (\<forall>p. aliases_in (readable g1) (out1 p))"
      by (rule dealiasBlock_in [OF Cons.prems(1) _ Cons.prems(3) step]) (use Cons.prems(2) in simp)
    then show ?case using Cons.IH [of g1 out1] Cons.prems(2) step by (simp add: dealiased_def)
  qed (simp add: dealiased_def)
  then show ?thesis using assms by (simp add: cfg_dealias_def dealias_pass_def aliases_in_def)
qed

section \<open>Executions and paths\<close>

lemma execution_iff_steps: "execution sem decide g x s' \<longleftrightarrow>
    (\<exists>n. ((nextState sem decide g ^^ n) x) = (deadBlock g, s') \<and> (\<forall>k<n. fst ((nextState sem decide g ^^ k) x) \<noteq> deadBlock g))"
proof
  assume "\<exists>n. ((nextState sem decide g ^^ n) x) = (deadBlock g, s') \<and> (\<forall>k<n. fst ((nextState sem decide g ^^ k) x) \<noteq> deadBlock g)"
  then obtain n where "(nextState sem decide g ^^ n) x = (deadBlock g, s')" "\<forall>k<n. fst ((nextState sem decide g ^^ k) x) \<noteq> deadBlock g" by blast
  then show "execution sem decide g x s'"
  proof (induction n arbitrary: x)
    case (Suc n)
    obtain b s where x: "x = (b, s)" by (cases x)
    have "execution sem decide g (nextState sem decide g x) s'"
      by (rule Suc.IH) (use Suc.prems in \<open>auto simp: funpow_swap1 dest: spec [of _ "Suc _"]\<close>)
    moreover have "b \<noteq> deadBlock g" using Suc.prems(2) x by force
    ultimately show ?case unfolding x by (rule execution_step [rotated])
  qed (simp add: execution_dead)
qed (rule execution_steps)

definition paths_agree :: "('v, 'w) meaning \<Rightarrow> cfg \<Rightarrow> cfg \<Rightarrow> bool" where
  "paths_agree sem g g' \<longleftrightarrow> entry g' = entry g \<and> deadBlock g' = deadBlock g
     \<and> (\<forall>p s. is_path g p \<longrightarrow> (let (st1, w1) = runPath sem g p s; (st2, w2) = runPath sem g' p s;
          ex = bexit (blocks g (last p)); ex' = bexit (blocks g' (last p))
        in w2 = w1 \<and> thenb ex' = thenb ex \<and> elseb ex' = elseb ex
          \<and> (thenb ex = elseb ex \<or> st2 (us_variable (cond ex')) = st1 (us_variable (cond ex)))))"

lemma agree_entry: "paths_agree sem g g' \<Longrightarrow> entry g' = entry g"
  unfolding paths_agree_def by (rule conjunct1)

lemma agree_path:
  assumes "paths_agree sem g g'" "is_path g p"
  shows "snd (runPath sem g' p s) = snd (runPath sem g p s)" "thenb (bexit (blocks g' (last p))) = thenb (bexit (blocks g (last p)))"
    "elseb (bexit (blocks g' (last p))) = elseb (bexit (blocks g (last p)))"
    "thenb (bexit (blocks g (last p))) = elseb (bexit (blocks g (last p))) \<or>
       fst (runPath sem g' p s) (us_variable (cond (bexit (blocks g' (last p))))) = fst (runPath sem g p s) (us_variable (cond (bexit (blocks g (last p)))))"
  using assms unfolding paths_agree_def by (cases s; auto simp: Let_def case_prod_unfold)+

lemma nextState_run: "nextState sem decide g (b, s) = (let (st, w) = runBlock sem (blocks g b) s; ex = bexit (blocks g b) in
     (if decide (st (us_variable (cond ex))) w then thenb ex else elseb ex, st, w))"
  by (simp add: nextState_def)

lemma nextState_parts: "snd (nextState sem decide g (b, s)) = runBlock sem (blocks g b) s" "fst (nextState sem decide g (b, s)) \<in> successors g b"
  by (simp_all add: nextState_def successors_def Let_def case_prod_unfold)

text \<open>When the paths agree, executions in both graphs take the same path.\<close>

lemma same_steps:
  fixes sem :: "('v, 'w) meaning" and decide :: "'v \<Rightarrow> 'w \<Rightarrow> bool" and s :: "'v store \<times> 'w"
  assumes agree: "paths_agree sem g g'"
  defines "f \<equiv> nextState sem decide g" and "f' \<equiv> nextState sem decide g'" and "x \<equiv> (entry g, s)"
  defines "p \<equiv> \<lambda>n. map (\<lambda>k. fst ((f ^^ k) x)) [0..<n]"
  shows "\<forall>k<n. fst ((f ^^ k) x) \<noteq> deadBlock g \<Longrightarrow> runPath sem g (p n) s = snd ((f ^^ n) x) \<and> runPath sem g' (p n) s = snd ((f' ^^ n) x)
     \<and> fst ((f' ^^ n) x) = fst ((f ^^ n) x) \<and> (0 < n \<longrightarrow> is_path g (p n) \<and> fst ((f ^^ n) x) \<in> successors g (last (p n)))"
proof (induction n)
  case 0
  show ?case by (simp add: p_def x_def runPath_def)
next
  case (Suc n)
  let ?b = "fst ((f ^^ n) x)"
  have IH: "runPath sem g (p n) s = snd ((f ^^ n) x)" "runPath sem g' (p n) s = snd ((f' ^^ n) x)" "fst ((f' ^^ n) x) = ?b"
    "0 < n \<longrightarrow> is_path g (p n) \<and> ?b \<in> successors g (last (p n))" using Suc by auto
  have pn: "p (Suc n) = p n @ [?b]" by (simp add: p_def)
  have "?b \<noteq> deadBlock g" using Suc.prems by simp
  then have path: "is_path g (p (Suc n))" unfolding pn is_path_snoc using IH(4) by (cases n) (auto simp: p_def x_def)
  have step: "(f ^^ Suc n) x = f (?b, runPath sem g (p n) s)" "(f' ^^ Suc n) x = f' (?b, runPath sem g' (p n) s)"
    using IH(1-3) by (simp_all add: prod.collapse) (metis prod.collapse)
  have run: "runPath sem g (p (Suc n)) s = snd ((f ^^ Suc n) x)" "runPath sem g' (p (Suc n)) s = snd ((f' ^^ Suc n) x)"
    unfolding step unfolding pn runPath_snoc f_def f'_def nextState_parts by simp_all
  have target: "fst (nextState sem decide h (b, s0)) = (let s1 = runBlock sem (blocks h b) s0; ex = bexit (blocks h b) in
      if thenb ex = elseb ex then thenb ex else if decide (fst s1 (us_variable (cond ex))) (snd s1) then thenb ex else elseb ex)" for h b s0
    by (auto simp: nextState_run Let_def case_prod_unfold)
  have "fst (f' (?b, runPath sem g' (p n) s)) = fst (f (?b, runPath sem g (p n) s))"
    using agree_path(1,4) [OF agree path, of s] agree_path(2,3) [OF agree path] unfolding f_def f'_def target by (auto simp: Let_def pn runPath_snoc f_def)
  then have "fst ((f' ^^ Suc n) x) = fst ((f ^^ Suc n) x)" unfolding step .
  moreover have "fst ((f ^^ Suc n) x) \<in> successors g (last (p (Suc n)))" unfolding step unfolding pn f_def by (simp add: nextState_parts(2))
  ultimately show ?case using run path by blast
qed

lemma agreeing_executions:
  assumes "paths_agree sem g g'"
  shows "(\<exists>st'. execution sem decide g' (entry g', s) (st', w')) \<longleftrightarrow> (\<exists>st'. execution sem decide g (entry g, s) (st', w'))"
proof -
  have e: "entry g' = entry g" "deadBlock g' = deadBlock g" using assms by (auto simp: paths_agree_def)
  note same = same_steps [OF assms, of _ decide s]
  let ?f = "nextState sem decide g" and ?f' = "nextState sem decide g'" and ?x = "(entry g, s)"
  have world: "snd (snd ((?f' ^^ n) ?x)) = snd (snd ((?f ^^ n) ?x))" if "\<forall>k<n. fst ((?f ^^ k) ?x) \<noteq> deadBlock g" for n
  proof (cases n)
    case (Suc m)
    let ?p = "map (\<lambda>k. fst ((?f ^^ k) ?x)) [0..<n]"
    have "is_path g ?p" "runPath sem g ?p s = snd ((?f ^^ n) ?x)" "runPath sem g' ?p s = snd ((?f' ^^ n) ?x)" using same [OF that] Suc by auto
    then show ?thesis using agree_path [OF assms] by metis
  qed simp
  have blocks: "fst ((?f' ^^ n) ?x) = fst ((?f ^^ n) ?x)" if "\<forall>k<n. fst ((?f ^^ k) ?x) \<noteq> deadBlock g" for n using same [OF that] by blast
  have upto: "(\<forall>k<n. fst ((?f' ^^ k) ?x) \<noteq> deadBlock g) \<longleftrightarrow> (\<forall>k<n. fst ((?f ^^ k) ?x) \<noteq> deadBlock g)" for n
    by (induction n) (auto simp: less_Suc_eq blocks)
  have "(\<exists>st'. (?f' ^^ n) ?x = (deadBlock g, st', w')) \<longleftrightarrow> (\<exists>st'. (?f ^^ n) ?x = (deadBlock g, st', w'))"
    if "\<forall>k<n. fst ((?f ^^ k) ?x) \<noteq> deadBlock g" for n
    using world [OF that] blocks [OF that] by (cases "(?f' ^^ n) ?x"; cases "(?f ^^ n) ?x") auto
  then have "(\<exists>st'. (?f' ^^ n) ?x = (deadBlock g, st', w') \<and> (\<forall>k<n. fst ((?f' ^^ k) ?x) \<noteq> deadBlock g)) \<longleftrightarrow>
      (\<exists>st'. (?f ^^ n) ?x = (deadBlock g, st', w') \<and> (\<forall>k<n. fst ((?f ^^ k) ?x) \<noteq> deadBlock g))" for n
    using upto [of n] by blast
  then show ?thesis unfolding execution_iff_steps e by blast
qed

section \<open>All passes\<close>

text \<open>Conditions on the graph that was built.  In the blocks that can be reached: a send has one location per
  argument, no block jumps to itself or to the entry, a temporary that gets something other than a copy is
  not a copy before, the variable that marks an unconditional jump is read by no instruction and ends only
  blocks with one target, the dead block jumps to itself, and along the jumps of blocks all of whose
  instructions may be removed a rank decreases (no loop consists of such blocks only).\<close>

definition built_ok :: "cfg_env \<Rightarrow> (nat \<Rightarrow> nat) \<Rightarrow> cfg \<Rightarrow> bool" where
  "built_ok env rank g \<longleftrightarrow> sends_ok g \<and> no_self_loop g \<and> temporaries_fresh env g \<and> successors g (deadBlock g) = {deadBlock g}
     \<and> (\<forall>b. reachable g b \<longrightarrow> (\<forall>e\<in>set (exprs (blocks g b)). LocalRef_unconditional \<notin> set (readVars (bind_value e)))
          \<and> (us_variable (cond (bexit (blocks g b))) = LocalRef_unconditional \<longrightarrow> isUnconditional (bexit (blocks g b))))
     \<and> (\<forall>b. reachable g b \<and> b \<noteq> deadBlock g \<longrightarrow> entry g \<notin> successors g b
          \<and> ((\<forall>e\<in>set (exprs (blocks g b)). isPure (bind_value e)) \<longrightarrow> (\<forall>c\<in>successors g b. rank c < rank b)))"

text \<open>The first loop of the analysis of block arguments, which stops when a count does not change, stops in a fixed
  point.  It always does in a graph without loops (\<open>loop_free_settles\<close>).\<close>

definition analysis_settles :: "cfg_env \<Rightarrow> cfg \<Rightarrow> bool" where
  "analysis_settles env g \<longleftrightarrow> (case fillInTopoSorts g of None \<Rightarrow> True | Some g1 \<Rightarrow> first_bound_settled env (cfg_dealias env g1))"

lemma same_code_sym: "same_code g g' \<Longrightarrow> same_code g' g"
  by (simp add: same_code_def)

lemma same_code_parts:
  assumes "same_code g g'"
  shows "entry g' = entry g" "deadBlock g' = deadBlock g" "localVariables g' = localVariables g" "numLocalVariables g' = numLocalVariables g"
    "exprs (blocks g' b) = exprs (blocks g b)" "bexit (blocks g' b) = bexit (blocks g b)" "successors g' = successors g"
    "reachable g' = reachable g" "isSyntheticTemporary env g' = isSyntheticTemporary env g"
  using assms by (simp_all add: same_code_def numLocalVariables_def successors_def reachable_def edges_def isSyntheticTemporary_def localData_def fun_eq_iff)

lemma same_code_uncopied:
  assumes "same_code g g'"
  shows "uncopied g' t b = uncopied g t b"
proof -
  have "uncopied g' t b" if "uncopied g t b" "same_code g g'" for g g' b
    using that(1)
  proof (induction rule: uncopied.induct)
    case at_entry
    then show ?case using uncopied.at_entry [of g' t] by (simp add: same_code_parts(1) [OF that(2)])
  next
    case (along p b)
    then show ?case by (intro uncopied.along [of g' t p b]) (simp_all add: same_code_parts [OF that(2)])
  qed
  then show ?thesis using assms same_code_sym by blast
qed

lemma same_code_built:
  assumes "same_code g g'"
  shows "built_ok env rank g' = built_ok env rank g"
  unfolding built_ok_def sends_ok_def no_self_loop_def temporaries_fresh_def same_code_parts [OF assms] same_code_uncopied [OF assms] ..

lemma entry_not_dead:
  assumes "wf_blocks g" "1 < length (basicBlocks g)"
  shows "entry g \<noteq> deadBlock g"
proof -
  have "distinct (basicBlocks g)" using assms(1) by (simp add: wf_blocks_def)
  then show ?thesis using assms(2) by (cases "basicBlocks g"; cases "tl (basicBlocks g)") (auto simp: entry_def deadBlock_def)
qed

lemma same_code_execution:
  assumes "same_code g g'"
  shows "execution sem decide g' x s' \<longleftrightarrow> execution sem decide g x s'"
proof (rule execution_shortcut)
  show "deadBlock g' = deadBlock g" using assms by (simp add: same_code_def)
qed (use assms in \<open>simp add: same_code_def nextState_def runBlock_def\<close>)

lemma markLoopHeaders_code: "same_code g (markLoopHeaders g)"
proof -
  have "basicBlocks (fold (markParent b) ps g) = basicBlocks g \<and> localVariables (fold (markParent b) ps g) = localVariables g" for b ps g
    by (induction ps arbitrary: g) auto
  then have "basicBlocks (fold (\<lambda>b g. fold (markParent b) (backEdges (blocks g b)) g) bs g) = basicBlocks g
      \<and> localVariables (fold (\<lambda>b g. fold (markParent b) (backEdges (blocks g b)) g) bs g) = localVariables g" for bs
    by (induction bs arbitrary: g) simp_all
  then show ?thesis by (simp add: same_code_def entry_def deadBlock_def markLoopHeaders_marks) (simp add: markLoopHeaders_def)
qed

lemma dealias_agrees:
  fixes sem :: "('v, 'w) meaning"
  assumes g: "wf_blocks g" "sanityCheck g" "topo_order g" "set (basicBlocks g) = {b. reachable g b}" and built: "built_ok env rank g"
    and two: "1 < length (basicBlocks g)"
  shows "paths_agree sem g (cfg_dealias env g)" "wf_blocks (cfg_dealias env g)" "sanityCheck (cfg_dealias env g)" "topo_closed (cfg_dealias env g)"
    "dealiased g (cfg_dealias env g)"
    "\<forall>b\<in>set (basicBlocks g). us_variable (cond (bexit (blocks (cfg_dealias env g) b))) = LocalRef_unconditional
       \<longrightarrow> isUnconditional (bexit (blocks (cfg_dealias env g) b))"
proof -
  let ?g = "cfg_dealias env g"
  have topo: "set (forwardsTopoSort g) = set (basicBlocks g)" using g(3) by (simp add: topo_order_def)
  have ok: "sends_ok g" "no_self_loop g" "temporaries_fresh env g"
    "\<forall>b. reachable g b \<longrightarrow> (\<forall>e\<in>set (exprs (blocks g b)). LocalRef_unconditional \<notin> set (readVars (bind_value e)))
          \<and> (us_variable (cond (bexit (blocks g b))) = LocalRef_unconditional \<longrightarrow> isUnconditional (bexit (blocks g b)))"
    using built unfolding built_ok_def by blast+
  have "vars_ok g (set (basicBlocks g))"
    unfolding vars_ok_def reads_in_def readable_def Let_def
  proof (intro ballI conjI)
    fix b assume b: "b \<in> set (basicBlocks g)"
    then have r: "reachable g b" using g(4) by blast
    show "us_variable (cond (bexit (blocks g b))) < numLocalVariables g" using g(1) b by (simp add: wf_blocks_def)
    show "us_variable (cond (bexit (blocks g b))) = LocalRef_unconditional \<longrightarrow> isUnconditional (bexit (blocks g b))" using ok(4) r by blast
    fix e assume e: "e \<in> set (exprs (blocks g b))"
    show "wf_insn (bind_value e)" using ok(1) r e by (simp add: sends_ok_def)
    fix v assume v: "v \<in> set (readVars (bind_value e))"
    show "v < numLocalVariables g" using g(1) b e v by (simp add: wf_blocks_def)
    show "v \<noteq> LocalRef_unconditional" using ok(4) r e v by blast
  qed
  then have d: "dealiased g ?g" "vars_ok ?g (set (basicBlocks g))" using dealias_in [of g env] unfolding topo by blast+
  then show "dealiased g ?g" by blast
  show "\<forall>b\<in>set (basicBlocks g). us_variable (cond (bexit (blocks ?g b))) = LocalRef_unconditional \<longrightarrow> isUnconditional (bexit (blocks ?g b))"
    using d(2) by (simp add: vars_ok_def Let_def)
  from d have succ: "successors ?g = successors g" "numLocalVariables ?g = numLocalVariables g" "entry ?g = entry g" "deadBlock ?g = deadBlock g"
    by (simp_all add: dealiased_def successors_def numLocalVariables_def entry_def deadBlock_def fun_eq_iff)
  have binds: "bind ` set (exprs (blocks ?g b)) = bind ` set (exprs (blocks g b))" for b
  proof -
    have "map fst (map (\<lambda>e. (bind e, isPure (bind_value e))) (exprs (blocks ?g b)))
        = map fst (map (\<lambda>e. (bind e, isPure (bind_value e))) (exprs (blocks g b)))" using d(1) by (simp only: dealiased_def)
    then have "map bind (exprs (blocks ?g b)) = map bind (exprs (blocks g b))" by (simp add: comp_def)
    then have "set (map bind (exprs (blocks ?g b))) = set (map bind (exprs (blocks g b)))" by simp
    then show ?thesis by simp
  qed
  have bound: "us_variable (bind e) < numLocalVariables g" if "b \<in> set (basicBlocks g)" "e \<in> set (exprs (blocks ?g b))" for b e
  proof -
    have "bind e \<in> bind ` set (exprs (blocks g b))" using that(2) binds [of b] by blast
    then show ?thesis using g(1) that(1) by (auto simp: wf_blocks_def)
  qed
  show "wf_blocks ?g"
    using g(1) d bound unfolding wf_blocks_def succ
    by (simp add: dealiased_def vars_ok_def Let_def reads_in_def readable_def succ)
  show "sanityCheck ?g" using g(2) d(1) unfolding sanityCheck_iff succ by (simp add: dealiased_def)
  have "entry g \<in> set (basicBlocks g)" using two by (cases "basicBlocks g") (auto simp: entry_def)
  then show "topo_closed ?g" using g(1) d(1) topo unfolding topo_closed_def succ by (auto simp: dealiased_def wf_blocks_def)
  show "paths_agree sem g ?g"
    unfolding paths_agree_def
  proof (intro conjI allI impI)
    fix p and s :: "'v store \<times> 'w"
    assume p: "is_path g p"
    obtain st w where s: "s = (st, w)" by (cases s)
    from dealias_runs [OF g ok(1-3) p, of sem st w] d(1)
    show "let (st1, w1) = runPath sem g p s; (st2, w2) = runPath sem ?g p s; ex = bexit (blocks g (last p)); ex' = bexit (blocks ?g (last p))
      in w2 = w1 \<and> thenb ex' = thenb ex \<and> elseb ex' = elseb ex \<and> (thenb ex = elseb ex \<or> st2 (us_variable (cond ex')) = st1 (us_variable (cond ex)))"
      by (auto simp: s Let_def case_prod_unfold dealiased_def)
  qed (use succ in auto)
qed

lemma deadAssigns_agrees:
  fixes sem :: "('v, 'w) meaning"
  assumes g: "wf_blocks g" "sanityCheck g" "topo_closed g" and settled: "first_bound_settled env g" and pure: "pure_meaning sem"
    and uncond: "\<forall>b\<in>set (basicBlocks g). us_variable (cond (bexit (blocks g b))) = LocalRef_unconditional \<longrightarrow> isUnconditional (bexit (blocks g b))"
    and result: "buildFor_deadAssigns env g = Some g'" and two: "1 < length (basicBlocks g)"
  shows "paths_agree sem g g'"
  unfolding paths_agree_def
proof (intro conjI allI impI)
  fix p and s :: "'v store \<times> 'w"
  assume p: "is_path g p"
  obtain st w where s: "s = (st, w)" by (cases s)
  have "last p \<in> set p" using p by (simp add: is_path_def)
  then have last: "last p \<in> set (basicBlocks g)" using path_in_topo [OF g(3) p] g(3) by (auto simp: topo_closed_def)
  from deadAssigns_runs [OF g settled pure p, of st w] uncond last
  show "let (st1, w1) = runPath sem g p s; (st2, w2) = runPath sem g' p s; ex = bexit (blocks g (last p)); ex' = bexit (blocks g' (last p))
      in w2 = w1 \<and> thenb ex' = thenb ex \<and> elseb ex' = elseb ex \<and> (thenb ex = elseb ex \<or> st2 (us_variable (cond ex')) = st1 (us_variable (cond ex)))"
    by (auto simp: s Let_def case_prod_unfold result isUnconditional_def)
next
  have "entry g \<noteq> deadBlock g" by (rule entry_not_dead [OF g(1) two])
  then have "is_path g [entry g]" by (simp add: is_path_def)
  from deadAssigns_runs [OF g settled pure this] result have "basicBlocks g' = basicBlocks g" by auto
  then show "entry g' = entry g" "deadBlock g' = deadBlock g" by (simp_all add: entry_def deadBlock_def)
qed

text \<open>The graph that \<open>simplify\<close> gets.\<close>

lemma deadAssigns_simple:
  assumes g: "wf_blocks g" "sanityCheck g" "set (basicBlocks g) = {b. reachable g b}" "built_ok env rank g" and two: "1 < length (basicBlocks g)"
    and d: "dealiased g g2" "wf_blocks g2" "sanityCheck g2" "topo_closed g2"
  shows "\<exists>g3. buildFor_deadAssigns env g2 = Some g3 \<and> simple_ok rank g3"
proof -
  have topo: "set (forwardsTopoSort g2) \<subseteq> set (basicBlocks g2)" using d(4) by (simp add: topo_closed_def)
  obtain g3 where g3: "buildFor_deadAssigns env g2 = Some g3" "basicBlocks g3 = basicBlocks g2"
    and blk: "\<And>b. bexit (blocks g3 b) = bexit (blocks g2 b) \<and> backEdges (blocks g3 b) = backEdges (blocks g2 b)
         \<and> wasJumpDestination (blocks g3 b) = wasJumpDestination (blocks g2 b)"
    and kept: "\<And>b e. e \<in> set (exprs (blocks g2 b)) \<Longrightarrow> e \<in> set (exprs (blocks g3 b)) \<or> isPure (bind_value e)"
    using deadAssigns_keeps [OF d(2) topo, of env] by blast
  have owned: "basicBlocks g3 = basicBlocks g" using d(1) g3(2) by (simp add: dealiased_def)
  have succ: "successors g3 = successors g" using d(1) blk by (simp add: dealiased_def successors_def fun_eq_iff)
  have e: "entry g3 = entry g" "deadBlock g3 = deadBlock g" by (simp_all add: entry_def deadBlock_def owned)
  have edges: "set (backEdges (blocks g3 b)) = set (backEdges (blocks g b))" for b using d(1) blk by (simp add: dealiased_def)
  have "sanityCheck g3"
    using d(3) g3(2) blk unfolding sanityCheck_def by (simp add: entry_def deadBlock_def)
  moreover have "entry g \<noteq> deadBlock g" by (rule entry_not_dead [OF g(1) two])
  moreover have built: "successors g (deadBlock g) = {deadBlock g}"
    "\<forall>b. reachable g b \<and> b \<noteq> deadBlock g \<longrightarrow> entry g \<notin> successors g b
          \<and> ((\<forall>e\<in>set (exprs (blocks g b)). isPure (bind_value e)) \<longrightarrow> (\<forall>c\<in>successors g b. rank c < rank b))"
    using g(4) unfolding built_ok_def by blast+
  moreover have "\<forall>e\<in>set (exprs (blocks g b)). isPure (bind_value e)" if "exprs (blocks g3 b) = []" for b
  proof -
    have "\<forall>e\<in>set (exprs (blocks g2 b)). isPure (bind_value e)" using kept that by fastforce
    then have "True = snd x" if "x \<in> set (map (\<lambda>e. (bind e, isPure (bind_value e))) (exprs (blocks g2 b)))" for x using that by auto
    then have "\<forall>x\<in>set (map (\<lambda>e. (bind e, isPure (bind_value e))) (exprs (blocks g b))). snd x"
      using d(1) unfolding dealiased_def by simp
    then show ?thesis by simp
  qed
  moreover have "entry g \<notin> successors g b" if "b \<in> set (basicBlocks g)" for b
    using built g(3) that \<open>entry g \<noteq> deadBlock g\<close> by (cases "b = deadBlock g") auto
  ultimately have "simple_ok rank g3"
    using g(1,3) two unfolding simple_ok_def succ owned e edges by (auto simp: wf_blocks_def)
  then show ?thesis using g3(1) by blast
qed

lemma sorted_graph:
  assumes g: "wf_blocks g" "sanityCheck g" "1 < length (basicBlocks g)" "reachable g (deadBlock g)"
  obtains g1 where "fillInTopoSorts g = Some g1" "same_code g g1" "topo_order g1" "wf_blocks g1" "sanityCheck g1"
    "set (basicBlocks g1) = {b. reachable g1 b}" "1 < length (basicBlocks g1)" "(\<exists>rank. no_loops g rank) \<longrightarrow> successors_first g1"
proof -
  obtain g1 where g1: "fillInTopoSorts g = Some g1" "same_code g g1" "topo_order g1" "wf_blocks g1" "sanityCheck g1" "set (basicBlocks g1) = {b. reachable g b}"
    "(\<exists>rank. no_loops g rank) \<longrightarrow> successors_first g1"
    using topoSorts_reachable [OF g] by blast
  have "entry g \<in> set (basicBlocks g1)" "deadBlock g \<in> set (basicBlocks g1)" using g1(6) g(4) by (simp_all add: reachable_def)
  moreover have "entry g \<noteq> deadBlock g" by (rule entry_not_dead [OF g(1,3)])
  ultimately have "1 < length (basicBlocks g1)" by (cases "basicBlocks g1"; cases "tl (basicBlocks g1)") auto
  then show thesis using that g1 same_code_parts(8) [OF g1(2)] by metis
qed

lemma loop_free_settles:
  assumes g: "wf_blocks g" "sanityCheck g" "1 < length (basicBlocks g)" "reachable g (deadBlock g)"
    and built: "built_ok env rank g" and loops: "no_loops g r"
  shows "analysis_settles env g"
proof -
  obtain g1 where g1: "fillInTopoSorts g = Some g1" "same_code g g1" "topo_order g1" "wf_blocks g1" "sanityCheck g1"
    "set (basicBlocks g1) = {b. reachable g1 b}" "1 < length (basicBlocks g1)" "(\<exists>rank. no_loops g rank) \<longrightarrow> successors_first g1"
    by (rule sorted_graph [OF g])
  define g2 where "g2 = cfg_dealias env g1"
  have "built_ok env rank g1" using built same_code_built [OF g1(2)] by simp
  note d = dealias_agrees(2,4,5) [OF g1(4,5,3,6) this g1(7), folded g2_def]
  have "successors_first g2" using g1(8) loops d(3) unfolding successors_first_def by (auto simp: dealiased_def successors_def deadBlock_def)
  moreover have "set (forwardsTopoSort g2) \<subseteq> set (basicBlocks g2)" using d(2) by (simp add: topo_closed_def)
  ultimately obtain ub1 where "upperBounds1 (computeMinMaxLoops (findAllReadsAndWrites env g2) g2) (findAllReadsAndWrites env g2) = Some (ub1, False)"
    "settled (computeMinMaxLoops (findAllReadsAndWrites env g2) g2) (findAllReadsAndWrites env g2) ub1"
    using fillIn_parts [OF d(1) _ refl refl, of env] by metis
  then have "first_bound_settled env g2" by (simp add: first_bound_settled_def Let_def)
  then show ?thesis using g1(1) by (simp add: analysis_settles_def g2_def)
qed

text \<open>C7: The passes at the end of building a control flow graph keep what the method computes.  Take a graph that
  passes the sanity check, in which sends have one location per argument, no reachable block jumps to itself
  or to the entry, a temporary that gets something other than a copy is not a copy before, the variable that
  marks unconditional jumps is not read and ends only blocks with one target, and no loop consists only of blocks
  whose instructions may all be removed; and let the first loop of the analysis of block arguments stop in
  a fixed point (it does when the graph has no loops).  Then the passes return, and for every meaning of
  the instructions in which those that may be removed do not change the world, and every way to decide the
  branches, the final graph ends in a world exactly when the graph that was built does.\<close>

theorem cfg_finalize_preserves_executions:
  fixes sem :: "('v, 'w) meaning"
  assumes g: "wf_blocks g" "sanityCheck g" "1 < length (basicBlocks g)" "reachable g (deadBlock g)"
    and built: "built_ok env rank g" and settles: "analysis_settles env g" and pure: "pure_meaning sem"
  shows "\<exists>g'. cfg_finalize env g = Some g' \<and> entry g' = entry g
     \<and> (\<forall>s w'. (\<exists>st'. execution sem decide g' (entry g', s) (st', w')) \<longleftrightarrow> (\<exists>st'. execution sem decide g (entry g, s) (st', w')))"
proof -
  obtain g1 where g1: "fillInTopoSorts g = Some g1" "same_code g g1" "topo_order g1" "wf_blocks g1" "sanityCheck g1"
    "set (basicBlocks g1) = {b. reachable g1 b}" "1 < length (basicBlocks g1)"
    by (rule sorted_graph [OF g])
  have built1: "built_ok env rank g1" using built same_code_built [OF g1(2)] by simp
  define g2 where "g2 = cfg_dealias env g1"
  note d = dealias_agrees(1) [OF g1(4,5,3,6) built1 g1(7), where sem = sem, folded g2_def]
    dealias_agrees(2-6) [OF g1(4,5,3,6) built1 g1(7), folded g2_def]
  obtain g3 where g3: "buildFor_deadAssigns env g2 = Some g3" "simple_ok rank g3"
    using deadAssigns_simple [OF g1(4,5,6) built1 g1(7) d(5,2,3,4)] by blast
  have "basicBlocks g2 = basicBlocks g1" using d(5) by (simp add: dealiased_def)
  then have two2: "1 < length (basicBlocks g2)" and uncond: "\<forall>b\<in>set (basicBlocks g2).
      us_variable (cond (bexit (blocks g2 b))) = LocalRef_unconditional \<longrightarrow> isUnconditional (bexit (blocks g2 b))"
    using g1(7) d(6) by simp_all
  have "first_bound_settled env g2" using settles g1(1) by (simp add: analysis_settles_def g2_def)
  note a = deadAssigns_agrees [OF d(2-4) this pure uncond g3(1) two2]
  obtain g4 where g4: "simplify g3 = Some g4" "entry g4 = entry g3" "\<And>s s'. execution sem decide g4 (entry g4, s) s' \<longleftrightarrow> execution sem decide g3 (entry g3, s) s'"
    using simplify_executions [OF g3(2), of sem decide] by blast
  define g' where "g' = markLoopHeaders g4"
  have "cfg_finalize env g = Some g'" using g1(1) g3(1) g4(1) by (simp add: cfg_finalize_def g2_def g'_def)
  moreover have m: "entry g' = entry g4" using markLoopHeaders_code [of g4] by (simp add: same_code_def g'_def)
  have e1: "entry g1 = entry g" by (rule same_code_parts(1) [OF g1(2)])
  have e4: "entry g4 = entry g" unfolding g4(2) agree_entry [OF a] agree_entry [OF d(1)] by (rule e1)
  moreover have "(\<exists>st'. execution sem decide g' (entry g', s) (st', w')) \<longleftrightarrow> (\<exists>st'. execution sem decide g (entry g, s) (st', w'))" for s w'
  proof -
    have "execution sem decide g' (entry g', s) s' \<longleftrightarrow> execution sem decide g3 (entry g3, s) s'" for s'
      unfolding m unfolding g'_def same_code_execution [OF markLoopHeaders_code] by (rule g4(3))
    then have "(\<exists>st'. execution sem decide g' (entry g', s) (st', w')) \<longleftrightarrow> (\<exists>st'. execution sem decide g3 (entry g3, s) (st', w'))" by simp
    also have "\<dots> \<longleftrightarrow> (\<exists>st'. execution sem decide g2 (entry g2, s) (st', w'))" by (rule agreeing_executions [OF a])
    also have "\<dots> \<longleftrightarrow> (\<exists>st'. execution sem decide g1 (entry g1, s) (st', w'))" by (rule agreeing_executions [OF d(1)])
    also have "\<dots> \<longleftrightarrow> (\<exists>st'. execution sem decide g (entry g, s) (st', w'))" unfolding e1 same_code_execution [OF g1(2)] ..
    finally show ?thesis .
  qed
  ultimately show ?thesis using m e4 by metis
qed

text \<open>In the method with two branches, one of which copies, the copy is removed after its use has been replaced.\<close>

definition copy_rank :: "nat \<Rightarrow> nat" where
  "copy_rank b = (if b = 0 then 3 else if b = 1 then 0 else if b = 4 then 1 else 2)"

lemma copy_graph_no_loops: "no_loops copy_graph copy_rank"
proof -
  have "successors copy_graph (deadBlock copy_graph) = {deadBlock copy_graph}" by code_simp
  moreover have "\<forall>c\<in>successors copy_graph b. copy_rank c < copy_rank b" if "reachable copy_graph b" "b \<noteq> deadBlock copy_graph" for b
  proof -
    have "b \<in> {0, 1, 2, 3, 4}" unfolding copy_graph_reachable [symmetric] using that(1) by simp
    then show ?thesis using that(2) by (auto simp: copy_graph_blocks copy_rank_def)
  qed
  ultimately show ?thesis by (simp add: no_loops_def)
qed

lemma copy_graph_built_ok: "built_ok sample_cfg_env copy_rank copy_graph"
proof -
  have jumps: "successors copy_graph (deadBlock copy_graph) = {deadBlock copy_graph}" by code_simp
  have entry: "\<forall>b\<in>set (basicBlocks copy_graph). b \<noteq> deadBlock copy_graph \<longrightarrow> entry copy_graph \<notin> successors copy_graph b" by code_simp
  have vars: "\<forall>b\<in>set (basicBlocks copy_graph). (\<forall>e\<in>set (exprs (blocks copy_graph b)). LocalRef_unconditional \<notin> set (readVars (bind_value e)))
      \<and> (us_variable (cond (bexit (blocks copy_graph b))) = LocalRef_unconditional \<longrightarrow> isUnconditional (bexit (blocks copy_graph b)))" by code_simp
  have "b \<in> set (basicBlocks copy_graph)" if "reachable copy_graph b" for b
    using reachable_owned [OF copy_graph_ok(1) _ that] by (simp add: copy_graph_blocks)
  then show ?thesis
    unfolding built_ok_def using copy_graph_built jumps entry vars copy_graph_no_loops unfolding no_loops_def by blast
qed

theorem cfg_finalize_preserves_executions_witness:
  "built_ok sample_cfg_env copy_rank copy_graph \<and> analysis_settles sample_cfg_env copy_graph \<and>
   (\<exists>g'. cfg_finalize sample_cfg_env copy_graph = Some g' \<and> entry g' = 0
     \<and> ((\<exists>st'. execution adding (\<lambda>v _. v = 7) g' (entry g', (\<lambda>_. 7), 3) (st', 10)) \<longleftrightarrow>
        (\<exists>st'. execution adding (\<lambda>v _. v = 7) copy_graph (entry copy_graph, (\<lambda>_. 7), 3) (st', 10))))"
proof -
  have two: "1 < length (basicBlocks copy_graph)" "reachable copy_graph (deadBlock copy_graph)"
    using copy_graph_reachable by (auto simp: copy_graph_blocks)
  have settles: "analysis_settles sample_cfg_env copy_graph"
    by (rule loop_free_settles [OF copy_graph_ok(1,2) two copy_graph_built_ok copy_graph_no_loops])
  with cfg_finalize_preserves_executions [OF copy_graph_ok(1,2) two copy_graph_built_ok settles pure_adding, of "\<lambda>v _. v = 7"]
    copy_graph_built_ok copy_graph_blocks(2)
  show ?thesis by metis
qed

end
