(* ===== verification/Spec2Isabelle.thy ===== *)
theory Spec2Isabelle
  imports AstCodec Locs ScipState ScipFields LspThreads SymbolReach CfgFinalize
begin

text \<open>
  A verification library for scip-ruby, the indexer that emits SCIP indexes for Ruby on top of the
  Sorbet type checker.

  \<^bold>\<open>The program.\<close>  Source files are read and located (\<open>common/\<close>, \<open>core/Files\<close>, \<open>core/Loc\<close>), parsed and
  desugared to trees, named, resolved and typechecked against a global table of names, symbols and
  files (\<open>core/GlobalState\<close>).  Tables and trees are cached on disk (\<open>core/serialize/\<close>).  As a language
  server the checker runs long typechecks (slow paths) that edits can cancel and requests can preempt
  (\<open>core/lsp/\<close>).  After typechecking the indexer (\<open>scip_indexer/\<close>) records definitions and references of
  symbols and locals, gives each symbol a string that names its gem and its owners, and writes one
  document per file.

  \<^bold>\<open>Theories and sources.\<close>

  \<^item> \<open>Prelude\<close>: machine integers, byte strings, error-or-value results, decimal printing; \<open>Effects\<close>: folds and
    loops that can fail, operations from states to an error or a value and a state, and the rules of a
    small Hoare logic for them.
  \<^item> \<open>Pickler\<close> (\<open>core/serialize/pickler.h\<close>, \<open>serialize.cc\<close>): the state of \<open>Pickler\<close> and \<open>UnPickler\<close> as
    records; \<open>putU1\<close>, \<open>putU4\<close>, \<open>putU8\<close>, \<open>putStr\<close>, \<open>getU1\<close> and so on as functions on them; the compressed
    container around them, with LZ4 as a parameter.  Writing is a sequence of tokens, and \<open>agrees w r x\<close>
    says that what \<open>w\<close> writes, \<open>r\<close> reads back as \<open>x\<close>, in any context; all round trips below are
    composed from its rules.
  \<^item> \<open>SymbolCodec\<close> (\<open>serialize.cc\<close>, \<open>core/Symbols.h\<close>, \<open>core/FileHash.h\<close>): the overloads of \<open>pickle\<close> for
    locations, file hashes, files, names, types and the kinds of symbols.
  \<^item> \<open>NameTable\<close> (\<open>core/GlobalState\<close>): the vectors of names and the open-addressing table \<open>NameHash\<close> with
    probing, growth, entering and looking up names; the hash function XXH32 is a parameter.
  \<^item> \<open>SymbolRefs\<close> (\<open>core/SymbolRef.h\<close>, \<open>core/Symbols.cc\<close>): references to symbols, a kind and an index in one word.
  \<^item> \<open>Linearization\<close> (\<open>resolver/GlobalPass.cc\<close>, \<open>core/Symbols.cc\<close>): mixins, \<open>derivesFrom\<close>, and the computation of
    the order of ancestors of every class.  \<open>Members\<close> (\<open>core/Symbols.cc\<close>): aliases and looking up members in
    a class and its ancestors, with and without a computed order.
  \<^item> \<open>SymbolTable\<close> (\<open>core/GlobalState.cc\<close>, \<open>core/Symbols.cc\<close>): the operations that enter, look up, rename and
    delete symbols, overloads, singleton classes, static initializers, locations, packages of classes, and the
    first symbols.  \<open>SymbolInvariant\<close> states the invariant of the table and the contract of the operations
    that enter symbols (locale \<open>symbol_entry\<close>, interpreted for the five of them), \<open>SymbolSteps\<close> shows that
    every other operation keeps the invariant, and \<open>SymbolReach\<close> has the reachable tables and what
    follows for them.
  \<^item> \<open>TableCodec\<close> (\<open>serialize.cc\<close>): whole symbol, name and file tables, differences of name tables,
    versions, \<open>Serializer::store\<close> and \<open>loadGlobalState\<close>.
  \<^item> \<open>AstCodec\<close> (\<open>serialize.cc\<close>, \<open>ast/Trees.h\<close>, \<open>ast/Helpers.h\<close>): trees, \<open>storeTree\<close> and \<open>loadTree\<close>; the
    digest of the source is a parameter.
  \<^item> \<open>SourceFiles\<close> (\<open>common/common.cc\<close>, \<open>core/Files.cc\<close>): the table of line ends, lines, and the \<open># typed:\<close>
    sigil.  The locale \<open>line_index\<close> is what the location code needs of a table of line ends.
  \<^item> \<open>FilePaths\<close> (\<open>common/common.cc\<close>, \<open>core/Files.cc\<close>): path helpers, ignore patterns, reading lines from a
    descriptor, file objects and their flags.
  \<^item> \<open>Locs\<close> (\<open>core/Loc.cc\<close>, \<open>core/LocOffsets.h\<close>): joining, containment, lines and columns, adjusting,
    truncating and printing locations.
  \<^item> \<open>ScipSymbols\<close> (\<open>scip_indexer/SCIPUtils.cc\<close>): symbol strings, with a reader (locale \<open>prefix_code\<close>) that shows
    they can be read back; local names; escaping of invalid UTF-8 (the decoder is a parameter).
  \<^item> \<open>ScipProto\<close> (\<open>SCIPProtoExt.cc\<close>): the comparison functions, each an interpretation of the locale
    \<open>comparator\<close>, which carries the theory of sorting.
  \<^item> \<open>ScipGems\<close> (\<open>SCIPGemMetadata.cc\<close>): lockfiles, gemspecs, versions, the gem of a file.
  \<^item> \<open>ScipState\<close> (\<open>SCIPIndexer.cc\<close>, \<open>SCIPSymbolRef.cc\<close>): \<open>SCIPState\<close> as a record, its operations as functions
    from states to an error or a value and a state, proved with the rules of \<open>Effects\<close>.  What
    the operations ask of \<open>GlobalState\<close> is the record \<open>scip_env\<close>.
  \<^item> \<open>ScipFields\<close> (\<open>SCIPFieldResolve.cc\<close>): the owner of an undeclared field; the queue implements the locale
    \<open>fifo\<close>.
  \<^item> \<open>LspEpochs\<close> and \<open>LspThreads\<close> (\<open>core/lsp/\<close>, part of \<open>main/lsp/LSPLoop.cc\<close>): the epoch and preemption
    managers, and the two threads that use them as an inductive step relation with their atomic accesses
    interleaved.  The locale \<open>simulation\<close> relates it to the abstract life of a slow path.

  \<^item> \<open>UIntSets\<close> (\<open>common/UIntSet.cc\<close>): sets of variables as vectors of words; the locale \<open>bounded_sets\<close> is what the passes
    over graphs need of them.
  \<^item> \<open>Cfg\<close> (\<open>cfg/CFG.h\<close>, \<open>cfg/Instructions.h\<close>): control flow graphs and what they compute.  The passes of
    \<open>CFGBuilder::buildFor\<close> (\<open>cfg/builder/\<close>) that follow their construction: \<open>CfgTopo\<close> (\<open>topoSortFwd\<close>, \<open>fillInTopoSorts\<close>),
    \<open>CfgDealias\<close>, \<open>CfgLiveness\<close> (\<open>findAllReadsAndWrites\<close>, \<open>computeMinMaxLoops\<close>, \<open>fillInBlockArguments\<close>,
    \<open>removeDeadAssigns\<close>) with \<open>CfgAnalysis\<close> (what the analyses compute; locale \<open>set_sweep\<close> for the two loops) and
    \<open>CfgDeadAssigns\<close>, \<open>CfgSimplify\<close> (\<open>simplify\<close>, \<open>markLoopHeaders\<close>), and all of them together in \<open>CfgFinalize\<close>.

  \<^bold>\<open>What is shown.\<close>

  \<^item> Caches: tables and trees are read back as they were written (symbols up to the order of members and
    to flag bits that are not written), for another source or version they are rejected, and bytes
    are canonical.
  \<^item> Names: every name has one reference, different names have different ones even under
    hash collisions; growing keeps them; probing ends unless the table is full of other names.
  \<^item> Symbols: however symbols are entered, renamed and deleted, members and owners stay consistent and owners
    lead to the root; re-entering a symbol yields the symbol itself, so \<open>sanityCheck\<close> fails only on the contents
    of a symbol (members, parameters, flags); a redefinition returns and keeps the old method under a free
    name.  In a well-formed hierarchy linearization keeps every ancestor, and member lookup finds the first
    ancestor that has the member; a mixin with a stub superclass must have no ancestors of its own that
    the including class does not get from its superclass, or they can be lost (\<open>stub_mixin_loses_ancestor\<close>).
  \<^item> Text: offsets and line/column pairs correspond one to one, adjusting never wraps around, printing
    never reads outside the line table, lines are neither lost nor reordered.
  \<^item> Index: symbol strings identify symbols; recorded ranges are single lines; every
    cached string is the emission of one symbol, never appended to another, whatever the order of iteration; the written order does not
    depend on the order of traversal; the resolver's cache and queue are invisible.
  \<^item> Control flow graphs: the passes over a finished graph return, and executions of the final graph are those of
    the graph that was built, for any meaning of the instructions in which those that may be removed do
    not change the world.  The conditions on the graph that was built (\<open>built_ok\<close>): one location per argument
    of a send, no reachable block jumps to itself or to the entry, temporaries that get something other than a copy
    are not copies before, the unconditional variable is not read, and no loop consists only of
    removable instructions.  One more (\<open>analysis_settles\<close>) is not checked by the code and needed: the first
    loop of \<open>fillInBlockArguments\<close> stops in a fixed point; it does in graphs without loops.
  \<^item> Language server: a canceled slow path is never committed; a scheduled preemption task is finished or
    canceled when its slow path ends, at most once; the thread that waits for it is never stuck, and once the
    slow path has been left the task is finished within four steps.

  \<^bold>\<open>Conventions.\<close>  \<open>ENFORCE\<close> is checked in debug builds only: it is a hypothesis or the guard of a step,
  a no-op or, in the symbol table, an error, never an effect.  Integers keep their width (\<open>u32\<close> and so on) wherever the code can wrap.
  \<open>std::string\<close> is a list of bytes.  Hash maps are functions; the one set the indexer iterates over
  is a list that may be reordered before every use.  Loops that can diverge on bad data are \<open>partial_function\<close>s, with the exact
  condition under which they return; the loops over graphs are \<open>while_option\<close>s, proved to return.  Fuel appears in the readers of types and trees, where it
  bounds the nesting (the round trips hold for any fuel that is at least the depth of the value); in
  \<open>Linearization\<close>, where it bounds the depth of the hierarchy; and in the loops of the symbol table
  over the numbered names of a class, where it is proved to be enough: they end after at most one step
  per member.

  \<^bold>\<open>Not modelled.\<close>  The parsers, desugaring, rewriter, namer, subtyping, dispatch, the construction of control
  flow graphs, inference and the resolver but
  for linearization (whole-program passes over trees and types), hashes and printing of symbols, the
  traversal of control flow graphs in the indexer, the requests of the language server, the packager,
  and code that only wraps a library (LMDB, rapidjson, protobuf output, the file system).
\<close>

section \<open>Strings for the symbols of the table\<close>

text \<open>The suffixes the indexer uses are those that can be written.\<close>

lemma emitDescriptors_indexed:
  assumes "\<forall>d\<in>set ds. suffix d \<in> insert Parameter (insert Term (symbol_suffix ` UNIV))"
  shows "\<exists>str. emitDescriptors ds out = Inr str"
  using assms
proof (induction ds arbitrary: out)
  case (Cons d ds)
  have "\<exists>out'. emitDescriptorString d out = Inr out'"
    using Cons.prems by (auto simp: emitDescriptorString_def symbol_suffix_def split: symbol_kind.splits)
  with Cons show ?case by auto
qed simp

lemma emitSymbolString_indexed:
  assumes "descriptors x \<noteq> []" "\<forall>d\<in>set (descriptors x). suffix d \<in> insert Parameter (insert Term (symbol_suffix ` UNIV))"
  shows "\<exists>str. emitSymbolString x out = Inr str"
  using emitDescriptors_indexed [OF assms(2)] assms(1) by (simp add: emitSymbolString_def Let_def split: option.split)

lemma owner_descriptor_suffix: "suffix (owner_descriptor ienv x) \<in> symbol_suffix ` UNIV"
  by (simp add: owner_descriptor_def)

text \<open>C16: Every symbol of a reachable symbol table that belongs to a gem has a symbol string: the walk over its owners
  ends in the root, the descriptors are those of the owners from the root down to the symbol, followed by
  the field or parameter, if any, and they can be written, but for the root itself, which has no descriptor.
  A symbol without a gem (one without a source file) is skipped.\<close>

theorem indexed_symbols_named:
  assumes "wf_first env fn" "sym_reach env fn s" "env_owner ienv = ownerOf (symbols s)"
    and "in_table (symbols s) (selfOrOwner r)" "selfOrOwner r \<noteq> sym_root \<or> ref_name r \<noteq> 0" and "gem_for ienv gm l r = Inr gem"
  shows "case gem of None \<Rightarrow> symbolForExpr ienv gm l r = Inr RSkip
     | Some g \<Rightarrow> \<exists>sym str n own. symbolForExpr ienv gm l r = Inr (ROk sym) \<and> emitSymbolString sym [] = Inr str
         \<and> symbol_package sym = Some \<lparr>package_name = gem_name g, package_version = gem_version g\<rparr>
         \<and> descriptors sym = map (\<lambda>k. owner_descriptor ienv ((ownerOf (symbols s) ^^ k) (selfOrOwner r))) (rev [0..<n]) @ own
         \<and> (ownerOf (symbols s) ^^ n) (selfOrOwner r) = sym_root \<and> (own = [] \<longleftrightarrow> ref_name r = 0)"
proof (cases gem)
  case None
  with assms(6) show ?thesis by (simp add: symbolForExpr_def)
next
  case (Some g)
  let ?owner = "\<lambda>k. (ownerOf (symbols s) ^^ k) (selfOrOwner r)"
  obtain n where n: "?owner n = sym_root" "\<forall>k<n. in_table (symbols s) (?owner k) \<and> ?owner k \<noteq> sym_root"
    using owner_chain [OF reach_wf [OF assms(1,2)] assms(4)] unfolding leads_to_root_def by blast
  let ?ds = "map (\<lambda>k. owner_descriptor ienv (?owner k)) (rev [0..<n])"
  have "ownerDescriptors ienv (selfOrOwner r) = Some (Inr ?ds)"
    using ownerDescriptors_chain [of n ienv "selfOrOwner r"] n by (auto simp: assms(3) in_table_def)
  then obtain own where own: "symbolForExpr ienv gm l r = Inr (ROk \<lparr>symbol_package =
        Some \<lparr>package_name = gem_name g, package_version = gem_version g\<rparr>, descriptors = ?ds @ own\<rparr>)"
      "own = [] \<longleftrightarrow> ref_name r = 0" "\<forall>d\<in>set own. suffix d \<in> {Parameter, Term}"
    using assms(6) Some by (auto simp: symbolForExpr_def Let_def split: if_splits)
  have "n \<noteq> 0 \<or> own \<noteq> []" using assms(5) n(1) own(2) by (auto intro: gr0I)
  then have "?ds @ own \<noteq> []" by auto
  moreover have "\<forall>d\<in>set (?ds @ own). suffix d \<in> insert Parameter (insert Term (symbol_suffix ` UNIV))"
    using own(3) owner_descriptor_suffix by auto
  ultimately have "\<exists>str. emitSymbolString \<lparr>symbol_package =
        Some \<lparr>package_name = gem_name g, package_version = gem_version g\<rparr>, descriptors = ?ds @ own\<rparr> [] = Inr str"
    by (intro emitSymbolString_indexed) simp_all
  with own n(1) Some show ?thesis by force
qed

definition sample_index :: scip_env where
  "sample_index = demo_env\<lparr>env_owner := ownerOf (symbols sample)\<rparr>"

theorem indexed_symbols_named_witness:
  "\<exists>sym str n. symbolForExpr sample_index demo_gems None \<lparr>selfOrOwner = mkSymbolRef SK_Method 1, ref_name = 0\<rparr> = Inr (ROk sym)
     \<and> emitSymbolString sym [] = Inr str
     \<and> descriptors sym = map (\<lambda>k. owner_descriptor sample_index ((ownerOf (symbols sample) ^^ k) (mkSymbolRef SK_Method 1))) (rev [0..<n])"
proof -
  have "\<not> contains ''sorbet/rbi/'' ''a.rb''" by code_simp
  then have g: "gem_for sample_index demo_gems None \<lparr>selfOrOwner = mkSymbolRef SK_Method 1, ref_name = 0\<rparr> = Inr (Some \<lparr>gem_name = ''g'', gem_version = ''1''\<rparr>)"
    by (simp add: gem_for_def isGlobal_def sample_index_def demo_env_def lookupGemForFile_def demo_gems_def
        markCurrentGem_def new_gem_mapping_def Locs.example_file_def URL_PREFIX_def starts_with_def)
  have own: "env_owner sample_index = ownerOf (symbols sample)" by (simp add: sample_index_def)
  have root: "mkSymbolRef SK_Method 1 \<noteq> sym_root" by code_simp
  from indexed_symbols_named [OF sample_wf_first sample_reach own _ _ g] sample_listed(1) root
  show ?thesis by simp (metis append_Nil2)
qed

end
